(* ===== verification/Go_Prelude.thy ===== *)
theory Go_Prelude
  imports Main "HOL-Library.AList" "HOL-Library.Sublist" "HOL-Library.Char_ord"
    "HOL-Library.List_Lexorder"
begin

text \<open>
  Shared vocabulary of the development: the part of Go and of its standard library that the
  modelled packages use, and the generic lemmas about it.

  \<^item> A Go \<open>string\<close> is a byte string, a HOL \<open>string\<close> (\<open>char\<close> is a byte).
  \<^item> A slice is a list.
  \<^item> A Go map is an association list (keys distinct: predicate \<open>go_map\<close>); the order of the list
    is the order in which \<open>range\<close> visits it, which Go leaves open, so that a statement
    about every association list is a statement about every iteration order.  Updates and
    deletions are \<open>AList.update\<close> and \<open>AList.delete\<close>.
  \<^item> An error return is \<open>Inl\<close>, a normal return \<open>Inr\<close>.
\<close>

named_theorems go_simps \<open>characteristic equations of the modelled Go library functions\<close>
named_theorems go_map_intros \<open>preservation of the distinctness of the keys of a Go map\<close>

type_synonym ('k, 'v) go_map = "('k \<times> 'v) list"

section \<open>Association lists as Go maps\<close>

definition go_map :: "('k, 'v) go_map \<Rightarrow> bool" where
  "go_map m \<longleftrightarrow> distinct (map fst m)"

lemma go_map_Nil [simp, go_map_intros]: "go_map []"
  by (simp add: go_map_def)

lemma go_map_update [go_map_intros]: "go_map m \<Longrightarrow> go_map (AList.update k v m)"
  by (simp add: go_map_def distinct_update)

lemma go_map_delete [go_map_intros]: "go_map m \<Longrightarrow> go_map (AList.delete k m)"
  by (simp add: go_map_def distinct_delete)

lemma go_map_Cons [simp]: "go_map ((k, v) # m) \<longleftrightarrow> k \<notin> fst ` set m \<and> go_map m"
  by (simp add: go_map_def)

lemma map_of_update [simp]: "map_of (AList.update k v m) k' = (if k' = k then Some v else map_of m k')"
  by (simp add: update_conv)

lemma map_of_delete_go [simp]: "map_of (AList.delete k m) k' = (if k' = k then None else map_of m k')"
  by (simp add: delete_conv)

lemma go_map_lookup:
  assumes "go_map m"
  shows "map_of m k = Some v \<longleftrightarrow> (k, v) \<in> set m"
  using assms by (simp add: go_map_def)

lemma set_delete_go: "set (AList.delete k m) = {p \<in> set m. fst p \<noteq> k}"
  by (auto simp: AList.delete_eq)

lemma delete_eq_Nil_iff: "AList.delete k m = [] \<longleftrightarrow> fst ` set m \<subseteq> {k}"
  by (auto simp: AList.delete_eq filter_empty_conv)

lemma set_update_go: "set (AList.update k v m) \<subseteq> insert (k, v) (set m)"
  by (induction m) auto

lemma list_all_update [go_map_intros]: "list_all P m \<Longrightarrow> P (k, v) \<Longrightarrow> list_all P (AList.update k v m)"
  using set_update_go [of k v m] by (auto simp: list_all_iff)

lemma list_all_delete [go_map_intros]: "list_all P m \<Longrightarrow> list_all P (AList.delete k m)"
  by (auto simp: list_all_iff set_delete_go)

lemma list_all_map_of: "list_all P m \<Longrightarrow> map_of m k = Some v \<Longrightarrow> P (k, v)"
  by (auto simp: list_all_iff dest: map_of_SomeD)

lemma list_all_rangeI:
  "go_map m \<Longrightarrow> (\<And>k v. map_of m k = Some v \<Longrightarrow> P (k, v)) \<Longrightarrow> list_all P m"
  by (auto simp: list_all_iff go_map_lookup)

text \<open>The loop \<open>for k, v := range m { cp[k] = v }\<close> on a fresh map \<open>cp\<close>.\<close>

definition map_copy :: "('k, 'v) go_map \<Rightarrow> ('k, 'v) go_map" where
  "map_copy m = foldl (\<lambda>cp (k, v). AList.update k v cp) [] m"

lemma update_new_key: "k \<notin> fst ` set m \<Longrightarrow> AList.update k v m = m @ [(k, v)]"
  by (induction m) auto

lemma foldl_update_append:
  "go_map (cp @ m) \<Longrightarrow> foldl (\<lambda>cp (k, v). AList.update k v cp) cp m = cp @ m"
proof (induction m arbitrary: cp)
  case (Cons p m)
  obtain k v where p: "p = (k, v)" by (cases p)
  from Cons.prems p have "k \<notin> fst ` set cp" and "go_map ((cp @ [(k, v)]) @ m)"
    by (auto simp: go_map_def)
  with Cons.IH [of "cp @ [(k, v)]"] p show ?case by (simp add: update_new_key)
qed simp

lemma map_copy_id [simp]: "go_map m \<Longrightarrow> map_copy m = m"
  using foldl_update_append [of "[]" m] by (simp add: map_copy_def)

lemma go_map_foldl_update [go_map_intros]:
  "go_map cp \<Longrightarrow> go_map (foldl (\<lambda>cp (k, v). AList.update k v cp) cp m)"
  by (induction m arbitrary: cp) (auto intro: go_map_update)

lemma go_map_map_copy [go_map_intros, simp]: "go_map (map_copy m)"
  by (simp add: map_copy_def go_map_foldl_update)

lemma map_of_map_copy [simp]: "map_of (map_copy m) = map_of (rev m)"
proof -
  have "map_of (foldl (\<lambda>cp (k, v). AList.update k v cp) cp m) = map_of (rev m @ cp)" for cp
    by (induction m arbitrary: cp) (auto simp: update_conv' map_add_def fun_eq_iff split: option.splits)
  from this [of "[]"] show ?thesis by (simp add: map_copy_def)
qed

text \<open>\<open>m[k]\<close> of a \<open>map[string]string\<close>: the empty string where the key is missing.\<close>

definition md_at :: "(string, string) go_map \<Rightarrow> string \<Rightarrow> string" where
  "md_at m k = (case map_of m k of None \<Rightarrow> [] | Some v \<Rightarrow> v)"

section \<open>Integer division\<close>

text \<open>
  Go's quotient is rounded towards zero and the remainder has the sign of the dividend.  (The
  divisors in the modelled code are positive.)
\<close>

definition go_quot :: "int \<Rightarrow> int \<Rightarrow> int" where
  "go_quot a b = (if a < 0 then - ((- a) div b) else a div b)"

definition go_rem :: "int \<Rightarrow> int \<Rightarrow> int" where
  "go_rem a b = (if a < 0 then - ((- a) mod b) else a mod b)"

lemma go_quot_nonneg: "0 \<le> a \<Longrightarrow> go_quot a b = a div b"
  by (simp add: go_quot_def)

lemma go_rem_nonneg: "0 \<le> a \<Longrightarrow> go_rem a b = a mod b"
  by (simp add: go_rem_def)

section \<open>Package strings\<close>

text \<open>\<open>strings.Join\<close>, \<open>strings.Split\<close> with a one-byte separator, and the index functions.\<close>

fun go_join :: "string \<Rightarrow> string list \<Rightarrow> string" where
  "go_join sep [] = []"
| "go_join sep [x] = x"
| "go_join sep (x # y # ys) = x @ sep @ go_join sep (y # ys)"

fun go_split :: "char \<Rightarrow> string \<Rightarrow> string list" where
  "go_split c [] = [[]]"
| "go_split c (x # xs) =
     (if x = c then [] # go_split c xs
      else (x # hd (go_split c xs)) # tl (go_split c xs))"

lemma go_split_not_Nil [simp]: "go_split c s \<noteq> []"
  by (cases s) auto

lemma go_join_Cons: "xs \<noteq> [] \<Longrightarrow> go_join sep (x # xs) = x @ sep @ go_join sep xs"
  by (cases xs) auto

lemma go_join_append:
  "xs \<noteq> [] \<Longrightarrow> ys \<noteq> [] \<Longrightarrow> go_join sep (xs @ ys) = go_join sep xs @ sep @ go_join sep ys"
  by (induction xs rule: induct_list012) (auto simp: go_join_Cons)

lemma go_join_Cons_hd [simp]: "go_join sep ((x # y) # ys) = x # go_join sep (y # ys)"
  by (cases ys) auto

text \<open>Joining what was split gives the string back.\<close>

lemma go_join_split: "go_join [c] (go_split c s) = s"
proof (induction s)
  case Nil
  then show ?case by simp
next
  case (Cons x xs)
  then show ?case
    by (cases "go_split c xs") (auto simp: go_join_Cons)
qed

lemma go_split_no_sep: "c \<notin> set s \<Longrightarrow> go_split c s = [s]"
  by (induction s) auto

lemma go_split_append_sep:
  "c \<notin> set s \<Longrightarrow> go_split c (s @ c # t) = s # go_split c t"
  by (induction s) auto

lemma go_split_append: "go_split c (s @ c # t) = go_split c s @ go_split c t"
  by (induction s) auto

lemma go_split_parts: "p \<in> set (go_split c s) \<Longrightarrow> c \<notin> set p"
proof (induction s arbitrary: p)
  case Nil
  then show ?case by simp
next
  case (Cons x xs)
  then show ?case
    by (cases "go_split c xs") (auto split: if_splits)
qed

text \<open>Splitting what was joined gives the parts back, when no part contains the separator.\<close>

lemma go_split_join:
  "ps \<noteq> [] \<Longrightarrow> \<forall>p \<in> set ps. c \<notin> set p \<Longrightarrow> go_split c (go_join [c] ps) = ps"
proof (induction ps rule: induct_list012)
  case 1
  then show ?case by simp
next
  case (2 x)
  then show ?case by (simp add: go_split_no_sep)
next
  case (3 x y zs)
  then show ?case by (simp add: go_split_append_sep)
qed

definition has_prefix :: "string \<Rightarrow> string \<Rightarrow> bool" where
  "has_prefix s p \<longleftrightarrow> take (length p) s = p"

definition has_suffix :: "string \<Rightarrow> string \<Rightarrow> bool" where
  "has_suffix s p \<longleftrightarrow> length p \<le> length s \<and> drop (length s - length p) s = p"

definition trim_prefix :: "string \<Rightarrow> string \<Rightarrow> string" where
  "trim_prefix s p = (if has_prefix s p then drop (length p) s else s)"

lemma has_prefix_append [simp]: "has_prefix (p @ s) p"
  by (simp add: has_prefix_def)

lemma has_prefix_iff: "has_prefix s p \<longleftrightarrow> (\<exists>t. s = p @ t)"
  by (metis append_take_drop_id has_prefix_append has_prefix_def)

lemma has_suffix_iff: "has_suffix s p \<longleftrightarrow> (\<exists>t. s = t @ p)"
  unfolding has_suffix_def
  by (metis append_eq_conv_conj append_take_drop_id diff_diff_cancel diff_le_self length_append
      length_drop le_add2 add_diff_cancel_right')

lemma trim_prefix_append [simp]: "trim_prefix (p @ s) p = s"
  by (simp add: trim_prefix_def)

text \<open>
  \<open>strings.IndexAny(s, chars)\<close> and \<open>strings.LastIndex(s, c)\<close> for one byte: the position, \<open>None\<close>
  where Go returns \<open>-1\<close>.
\<close>

fun index_any :: "string \<Rightarrow> string \<Rightarrow> nat option" where
  "index_any [] cs = None"
| "index_any (x # xs) cs = (if x \<in> set cs then Some 0 else map_option Suc (index_any xs cs))"

definition last_index :: "string \<Rightarrow> char \<Rightarrow> nat option" where
  "last_index s c = map_option (\<lambda>i. length s - 1 - i) (index_any (rev s) [c])"

lemma index_any_Some:
  "index_any s cs = Some i \<Longrightarrow>
     i < length s \<and> s ! i \<in> set cs \<and> (\<forall>j < i. s ! j \<notin> set cs)"
proof (induction s arbitrary: i)
  case Nil
  then show ?case by simp
next
  case (Cons x xs)
  then show ?case
    by (auto split: if_splits simp: nth_Cons split: nat.splits)
qed

lemma index_any_None: "index_any s cs = None \<longleftrightarrow> set s \<inter> set cs = {}"
  by (induction s) auto

lemma last_index_Some: "last_index s c = Some i \<Longrightarrow> i < length s \<and> s ! i = c"
  unfolding last_index_def by (auto dest!: index_any_Some simp: rev_nth)

lemma last_index_None: "last_index s c = None \<longleftrightarrow> c \<notin> set s"
  by (simp add: last_index_def index_any_None)

text \<open>ASCII case folding, for \<open>strings.EqualFold\<close>, on the bytes \<open>A\<close> to \<open>Z\<close>.\<close>

definition char_lower :: "char \<Rightarrow> char" where
  "char_lower c = (if 65 \<le> (of_char c :: nat) \<and> (of_char c :: nat) \<le> 90
                   then char_of ((of_char c :: nat) + 32) else c)"

definition equal_fold :: "string \<Rightarrow> string \<Rightarrow> bool" where
  "equal_fold s t \<longleftrightarrow> map char_lower s = map char_lower t"

lemma equal_fold_refl [simp]: "equal_fold s s"
  by (simp add: equal_fold_def)

lemma equal_fold_sym: "equal_fold s t \<longleftrightarrow> equal_fold t s"
  by (auto simp: equal_fold_def)

section \<open>Sum-typed results\<close>

text \<open>Sequencing of fallible steps: \<open>if err != nil { return err }\<close>.\<close>

definition sum_bind :: "'e + 'a \<Rightarrow> ('a \<Rightarrow> 'e + 'b) \<Rightarrow> 'e + 'b" where
  "sum_bind r f = (case r of Inl e \<Rightarrow> Inl e | Inr a \<Rightarrow> f a)"

lemma sum_bind_simps [simp]:
  "sum_bind (Inl e) f = Inl e"
  "sum_bind (Inr a) f = f a"
  by (simp_all add: sum_bind_def)

lemma sum_bind_eq_Inr: "sum_bind r f = Inr b \<longleftrightarrow> (\<exists>a. r = Inr a \<and> f a = Inr b)"
  by (cases r) auto

lemma sum_bind_eq_Inl: "sum_bind r f = Inl e \<longleftrightarrow> r = Inl e \<or> (\<exists>a. r = Inr a \<and> f a = Inl e)"
  by (cases r) auto

text \<open>A loop whose body may return early with an error.\<close>

fun sum_fold :: "('s \<Rightarrow> 'a \<Rightarrow> 'e + 's) \<Rightarrow> 's \<Rightarrow> 'a list \<Rightarrow> 'e + 's" where
  "sum_fold f s [] = Inr s"
| "sum_fold f s (x # xs) = sum_bind (f s x) (\<lambda>s'. sum_fold f s' xs)"

lemma sum_fold_append:
  "sum_fold f s (xs @ ys) = sum_bind (sum_fold f s xs) (\<lambda>s'. sum_fold f s' ys)"
  by (induction xs arbitrary: s) (auto simp: sum_bind_def split: sum.splits)

lemma sum_fold_invariant:
  assumes "sum_fold f s xs = Inr t" and "P s"
    and "\<And>s x s'. P s \<Longrightarrow> x \<in> set xs \<Longrightarrow> f s x = Inr s' \<Longrightarrow> P s'"
  shows "P t"
  using assms
proof (induction xs arbitrary: s)
  case Nil
  then show ?case by simp
next
  case (Cons x xs)
  from Cons.prems(1) obtain s' where s': "f s x = Inr s'" "sum_fold f s' xs = Inr t"
    by (auto simp: sum_bind_eq_Inr)
  show ?case
    using Cons.IH [OF s'(2)] Cons.prems(2,3) s'(1) by (metis list.set_intros)
qed

end
