(* ===== verification/Path_Template.thy ===== *)
theory Path_Template
  imports Go_Prelude
begin

text \<open>
  The path templates of the API gateway's router (\<open>src/api/router/util/types.go\<close> and
  \<open>parse.go\<close>): the template syntax tree and its printer, the tokenizer, and the
  recursive-descent parser.

  The parser's methods mutate \<open>p.tokens\<close> and \<open>p.accepted\<close>; here each method takes the parser
  state and returns the new one.  An \<open>error\<close> is a value of \<open>parse_err\<close>; reading \<open>p.tokens[0]\<close> of
  an empty slice, which panics in Go, is the error \<open>ParsePanic\<close>.  The mutually recursive
  methods \<open>segments\<close>, \<open>segment\<close> and \<open>variable\<close> take fuel (\<open>ParseFuel\<close> when it runs out);
  \<open>Parse\<close> starts them with \<open>3 * n + 3\<close> units for \<open>n\<close> tokens, which is shown to be enough.
  The logging calls of the parser have no effect on its state and are left out.
\<close>

section \<open>Templates and their printed form (types.go)\<close>

datatype segment =
    Wildcard
  | DeepWildcard
  | Literal string
  | Variable string "segment list"

record template =
  t_verb :: string
  t_template :: string
  t_segments :: "segment list"

fun segment_String :: "segment \<Rightarrow> string" where
  "segment_String Wildcard = ''*''"
| "segment_String DeepWildcard = ''**''"
| "segment_String (Literal l) = l"
| "segment_String (Variable path segs) =
     ''{'' @ path @ ''='' @ go_join ''/'' (map segment_String segs) @ ''}''"

definition template_String :: "template \<Rightarrow> string" where
  "template_String t =
     (let str = go_join ''/'' (map segment_String (t_segments t));
          str' = (if t_verb t \<noteq> [] then str @ '':'' @ t_verb t else str)
      in ''/'' @ str')"

section \<open>The tokenizer\<close>

definition eof :: string where
  "eof = [CHR 0x00]"

datatype tok_state = TInit | TField | TNested

fun tok_seps :: "tok_state \<Rightarrow> string" where
  "tok_seps TInit = ''/{''"
| "tok_seps TField = ''.=}''"
| "tok_seps TNested = ''/}''"

definition tok_next :: "tok_state \<Rightarrow> char \<Rightarrow> tok_state" where
  "tok_next st r =
     (if r = CHR ''/'' \<or> r = CHR ''.'' then st
      else if r = CHR ''{'' then TField
      else if r = CHR ''='' then TNested
      else if r = CHR ''}'' then TInit
      else st)"

function tok_loop :: "tok_state \<Rightarrow> string \<Rightarrow> string list" where
  "tok_loop st path =
     (if path = [] then []
      else (case index_any path (tok_seps st) of
              None \<Rightarrow> [path]
            | Some idx \<Rightarrow>
                (if idx = 0 then [[path ! idx]] else [take idx path, [path ! idx]])
                @ tok_loop (tok_next st (path ! idx)) (drop (Suc idx) path)))"
  by pat_completeness auto
termination
  by (relation "measure (\<lambda>(st, path). length path)") auto

declare tok_loop.simps [simp del]

definition tokenize :: "string \<Rightarrow> string list \<times> string" where
  "tokenize path =
     (if path = [] then ([eof], [])
      else (let tokens = tok_loop TInit path; t = last tokens
            in (case last_index t (CHR '':'') of
                  None \<Rightarrow> (tokens @ [eof], [])
                | Some idx \<Rightarrow>
                    if idx = 0 then (butlast tokens @ [eof], drop 1 t)
                    else (butlast tokens @ [take idx t] @ [eof], drop (Suc idx) t))))"

section \<open>Character classes of the grammar\<close>

definition is_upper :: "char \<Rightarrow> bool" where
  "is_upper r \<longleftrightarrow> CHR ''A'' \<le> r \<and> r \<le> CHR ''Z''"

definition is_lower :: "char \<Rightarrow> bool" where
  "is_lower r \<longleftrightarrow> CHR ''a'' \<le> r \<and> r \<le> CHR ''z''"

definition is_digit :: "char \<Rightarrow> bool" where
  "is_digit r \<longleftrightarrow> CHR ''0'' \<le> r \<and> r \<le> CHR ''9''"

definition isHexDigit :: "char \<Rightarrow> bool" where
  "isHexDigit r \<longleftrightarrow>
     (CHR ''0'' \<le> r \<and> r \<le> CHR ''9'') \<or> (CHR ''A'' \<le> r \<and> r \<le> CHR ''F'')
     \<or> (CHR ''a'' \<le> r \<and> r \<le> CHR ''f'')"

datatype char_err =
    InvalidHexdigit char
  | InvalidPathChar char
  | InvalidPercentEncoding string
  | EmptyIdentifier
  | IdentifierStartsWithDigit string
  | InvalidIdentChar char string

text \<open>
  Go ranges over the runes of \<open>t\<close>; every rune from 128 on, and the replacement rune of an
  invalid encoding, falls into the error branches, and so does every byte from 128 on here,
  so the two loops accept the same strings.
\<close>

datatype pct_state = PctInit | Pct1 | Pct2

fun expectPChars_loop :: "string \<Rightarrow> pct_state \<Rightarrow> string \<Rightarrow> char_err option" where
  "expectPChars_loop t st [] =
     (if st \<noteq> PctInit then Some (InvalidPercentEncoding t) else None)"
| "expectPChars_loop t st (r # rs) =
     (if st \<noteq> PctInit then
        if \<not> isHexDigit r then Some (InvalidHexdigit r)
        else expectPChars_loop t (if st = Pct1 then Pct2 else PctInit) rs
      else if is_upper r \<or> is_lower r \<or> is_digit r then expectPChars_loop t st rs
      else if r \<in> set ''-._~'' then expectPChars_loop t st rs
      else if r \<in> set ''!$&()*+,;='' \<or> r = CHR 0x27 then expectPChars_loop t st rs
      else if r \<in> set '':@'' then expectPChars_loop t st rs
      else if r = CHR ''%'' then expectPChars_loop t Pct1 rs
      else Some (InvalidPathChar r))"

definition expectPChars :: "string \<Rightarrow> char_err option" where
  "expectPChars t = expectPChars_loop t PctInit t"

fun expectIdent_loop :: "string \<Rightarrow> nat \<Rightarrow> string \<Rightarrow> char_err option" where
  "expectIdent_loop ident pos [] = None"
| "expectIdent_loop ident pos (r # rs) =
     (if is_digit r then
        if pos = 0 then Some (IdentifierStartsWithDigit ident)
        else expectIdent_loop ident (Suc pos) rs
      else if is_upper r \<or> is_lower r \<or> r = CHR ''_'' then expectIdent_loop ident (Suc pos) rs
      else Some (InvalidIdentChar r ident))"

definition expectIdent :: "string \<Rightarrow> char_err option" where
  "expectIdent ident =
     (if ident = [] then Some EmptyIdentifier else expectIdent_loop ident 0 ident)"

section \<open>The parser\<close>

datatype termType = TermTok string | TypeIdent | TypeLiteral | TypeEOF

record parser =
  p_tokens :: "string list"
  p_accepted :: "string list"

datatype parse_err =
    Expected string string
  | ExpectedEOF string
  | BadToken char_err
  | UnknownTermType string
  | NotASegment parse_err
  | InvalidVariableSegment string parse_err
  | UnterminatedVariable string
  | InvalidFieldComponent parse_err
  | UnexpectedToken string string
  | ParsePanic
  | ParseFuel

definition accept :: "termType \<Rightarrow> parser \<Rightarrow> parse_err + string \<times> parser" where
  "accept term p =
     (case p_tokens p of
        [] \<Rightarrow> Inl ParsePanic
      | t # ts \<Rightarrow>
          (let consume = Inr (t, p\<lparr>p_tokens := ts, p_accepted := p_accepted p @ [t]\<rparr>)
           in (case term of
                 TermTok s \<Rightarrow>
                   if s \<in> set [''/'', ''*'', ''**'', ''.'', ''='', ''{'', ''}''] then
                     if t \<noteq> s \<and> t \<noteq> ''/'' then Inl (Expected s t) else consume
                   else Inl (UnknownTermType s)
               | TypeEOF \<Rightarrow> if t \<noteq> eof then Inl (ExpectedEOF t) else consume
               | TypeIdent \<Rightarrow>
                   (case expectIdent t of Some e \<Rightarrow> Inl (BadToken e) | None \<Rightarrow> consume)
               | TypeLiteral \<Rightarrow>
                   (case expectPChars t of Some e \<Rightarrow> Inl (BadToken e) | None \<Rightarrow> consume))))"

text \<open>
  \<open>fatal\<close> separates a panic (and the model's fuel) from the errors a Go caller sees:
  \<open>if _, err := ...; err != nil\<close> does not stop a panic.
\<close>

definition fatal :: "parse_err \<Rightarrow> bool" where
  "fatal e \<longleftrightarrow> e = ParsePanic \<or> e = ParseFuel"

definition on_error ::
  "parse_err + 'a \<Rightarrow> ('a \<Rightarrow> parse_err + 'b) \<Rightarrow> (parse_err \<Rightarrow> parse_err + 'b) \<Rightarrow> parse_err + 'b" where
  "on_error r ok err =
     (case r of Inl e \<Rightarrow> if fatal e then Inl e else err e | Inr x \<Rightarrow> ok x)"


lemma on_error_cong [fundef_cong]:
  "r = r' \<Longrightarrow> (\<And>x. r' = Inr x \<Longrightarrow> ok x = ok' x) \<Longrightarrow> (\<And>e. r' = Inl e \<Longrightarrow> err e = err' e) \<Longrightarrow>
     on_error r ok err = on_error r' ok' err'"
  by (auto simp: on_error_def split: sum.splits)

lemma accept_consumes:
  "accept term p = Inr (t, p') \<Longrightarrow>
     p_tokens p = t # p_tokens p' \<and> p_accepted p' = p_accepted p @ [t]"
  by (auto simp: accept_def Let_def split: list.splits termType.splits if_splits option.splits)

lemma accept_shorter:
  "accept term p = Inr (t, p') \<Longrightarrow> length (p_tokens p) = Suc (length (p_tokens p'))"
  by (auto dest: accept_consumes)

function fieldPath_loop :: "string list \<Rightarrow> parser \<Rightarrow> parse_err + string \<times> parser" where
  "fieldPath_loop components p =
     on_error (accept (TermTok ''.'') p)
       (\<lambda>(_, p1).
          on_error (accept TypeIdent p1)
            (\<lambda>(c, p2). fieldPath_loop (components @ [c]) p2)
            (\<lambda>e. Inl (InvalidFieldComponent e)))
       (\<lambda>_. Inr (go_join ''.'' components, p))"
  by pat_completeness auto
termination
  by (relation "measure (\<lambda>(components, p). length (p_tokens p))") (auto dest!: accept_shorter)

declare fieldPath_loop.simps [simp del]

definition fieldPath :: "parser \<Rightarrow> parse_err + string \<times> parser" where
  "fieldPath p = sum_bind (accept TypeIdent p) (\<lambda>(c, p1). fieldPath_loop [c] p1)"

definition p_literal :: "parser \<Rightarrow> parse_err + segment \<times> parser" where
  "p_literal p = sum_bind (accept TypeLiteral p) (\<lambda>(lit, p1). Inr (Literal lit, p1))"

fun p_segments :: "nat \<Rightarrow> parser \<Rightarrow> parse_err + segment list \<times> parser"
  and p_segments_loop :: "nat \<Rightarrow> segment list \<Rightarrow> parser \<Rightarrow> parse_err + segment list \<times> parser"
  and p_segment :: "nat \<Rightarrow> parser \<Rightarrow> parse_err + segment \<times> parser"
  and p_variable :: "nat \<Rightarrow> parser \<Rightarrow> parse_err + segment \<times> parser"
where
  "p_segments 0 p = Inl ParseFuel"
| "p_segments (Suc n) p =
     sum_bind (p_segment n p) (\<lambda>(s, p1). p_segments_loop n [s] p1)"
| "p_segments_loop 0 segs p = Inl ParseFuel"
| "p_segments_loop (Suc n) segs p =
     on_error (accept (TermTok ''/'') p)
       (\<lambda>(_, p1). sum_bind (p_segment n p1) (\<lambda>(s, p2). p_segments_loop n (segs @ [s]) p2))
       (\<lambda>_. Inr (segs, p))"
| "p_segment 0 p = Inl ParseFuel"
| "p_segment (Suc n) p =
     on_error (accept (TermTok ''*'') p) (\<lambda>(_, p1). Inr (Wildcard, p1))
       (\<lambda>_. on_error (accept (TermTok ''**'') p) (\<lambda>(_, p1). Inr (DeepWildcard, p1))
         (\<lambda>_. on_error (p_literal p) Inr
           (\<lambda>_. on_error (p_variable n p) Inr (\<lambda>e. Inl (NotASegment e)))))"
| "p_variable 0 p = Inl ParseFuel"
| "p_variable (Suc n) p =
     sum_bind (accept (TermTok ''{'') p) (\<lambda>(_, p1).
     sum_bind (fieldPath p1) (\<lambda>(path, p2).
     sum_bind
       (on_error (accept (TermTok ''='') p2)
          (\<lambda>(_, p3). on_error (p_segments n p3) Inr (\<lambda>e. Inl (InvalidVariableSegment path e)))
          (\<lambda>_. Inr ([Wildcard], p2))) (\<lambda>(segs, p4).
     on_error (accept (TermTok ''}'') p4)
       (\<lambda>(_, p5). Inr (Variable path segs, p5))
       (\<lambda>_. Inl (UnterminatedVariable path)))))"

definition topLevelSegments :: "parser \<Rightarrow> parse_err + segment list" where
  "topLevelSegments p =
     sum_bind (p_segments (3 * length (p_tokens p) + 3) p) (\<lambda>(segs, p1).
     on_error (accept TypeEOF p1) (\<lambda>_. Inr segs)
       (\<lambda>_. Inl (UnexpectedToken (hd (p_tokens p1)) (go_join [] (p_accepted p1)))))"

datatype template_err = NoLeadingSlash string | InvalidTemplateError string parse_err

definition Parse :: "string \<Rightarrow> template_err + template" where
  "Parse tmpl =
     (if \<not> has_prefix tmpl ''/'' then Inl (NoLeadingSlash tmpl)
      else (let (tokens, verb) = tokenize (drop 1 tmpl);
                p = \<lparr>p_tokens = tokens, p_accepted = []\<rparr>
            in (case topLevelSegments p of
                  Inl e \<Rightarrow> Inl (InvalidTemplateError tmpl e)
                | Inr segs \<Rightarrow> Inr \<lparr>t_verb = verb, t_template = tmpl, t_segments = segs\<rparr>)))"

section \<open>Tokenizing loses nothing\<close>

lemma tok_loop_concat: "concat (tok_loop st path) = path"
proof (induction st path rule: tok_loop.induct)
  case (1 st path)
  show ?case
  proof (cases "index_any path (tok_seps st)")
    case None
    then show ?thesis by (simp add: tok_loop.simps [of st path])
  next
    case (Some idx)
    then have idx: "idx < length path" by (auto dest: index_any_Some)
    then have ne: "path \<noteq> []" by auto
    have "concat (tok_loop (tok_next st (path ! idx)) (drop (Suc idx) path)) = drop (Suc idx) path"
      using 1 Some ne by simp
    moreover have "take idx path @ path ! idx # drop (Suc idx) path = path"
      using idx by (simp add: id_take_nth_drop [symmetric])
    ultimately show ?thesis
      using Some ne by (auto simp: tok_loop.simps [of st path])
  qed
qed

lemma tok_loop_nonempty: "[] \<notin> set (tok_loop st path)"
proof (induction st path rule: tok_loop.induct)
  case (1 st path)
  then show ?case
    by (auto simp: tok_loop.simps [of st path] split: option.splits)
qed

lemma tok_loop_eq_Nil: "tok_loop st path = [] \<longleftrightarrow> path = []"
  by (metis concat.simps(1) tok_loop_concat tok_loop.simps)

lemma tokenize_shape:
  "\<exists>ts. fst (tokenize path) = ts @ [eof] \<and> [] \<notin> set ts"
proof (cases "path = []")
  case True
  then show ?thesis by (simp add: tokenize_def)
next
  case False
  let ?ts = "tok_loop TInit path"
  have ne: "[] \<notin> set ?ts" "?ts \<noteq> []"
    using False by (auto simp: tok_loop_nonempty tok_loop_eq_Nil)
  then have bl: "[] \<notin> set (butlast ?ts)" "last ?ts \<noteq> []"
    by (auto dest: in_set_butlastD) (metis last_in_set)
  show ?thesis
    using False ne bl
    by (auto simp: tokenize_def Let_def split: option.splits dest!: last_index_Some)
qed

lemma tokenize_concat:
  "\<exists>sep. (sep = [] \<or> sep = '':'') \<and>
     concat (butlast (fst (tokenize path))) @ sep @ snd (tokenize path) = path"
proof (cases "path = []")
  case True
  then show ?thesis by (simp add: tokenize_def)
next
  case False
  let ?ts = "tok_loop TInit path"
  have ts: "?ts \<noteq> []" using False by (simp add: tok_loop_eq_Nil)
  have "concat (butlast ?ts @ [last ?ts]) = path"
    using ts tok_loop_concat by simp
  then have cc: "concat (butlast ?ts) @ last ?ts = path" by simp
  show ?thesis
  proof (cases "last_index (last ?ts) (CHR '':'')")
    case None
    then show ?thesis using False tok_loop_concat by (simp add: tokenize_def Let_def)
  next
    case (Some idx)
    then have idx: "idx < length (last ?ts)" "last ?ts ! idx = CHR '':''"
      by (auto dest: last_index_Some)
    have "take idx (last ?ts) @ '':'' @ drop (Suc idx) (last ?ts) = last ?ts"
      using id_take_nth_drop [OF idx(1)] idx(2) by simp
    then have "concat (butlast (fst (tokenize path))) @ '':'' @ snd (tokenize path) = path"
      using False Some cc
      by (cases "idx = 0") (auto simp: tokenize_def Let_def butlast_append)
    then show ?thesis by blast
  qed
qed

section \<open>The parser is total and never reads past the last token\<close>

text \<open>
  The parser's invariant: the token slice ends with \<open>eof\<close> and holds no empty token.  No
  terminal but \<open>typeEOF\<close> accepts \<open>eof\<close>, so the slice never becomes empty before the end.
\<close>

definition parser_ok :: "parser \<Rightarrow> bool" where
  "parser_ok p \<longleftrightarrow> (\<exists>ts. p_tokens p = ts @ [eof] \<and> [] \<notin> set ts)"

lemma eof_not_pchars: "expectPChars eof = Some (InvalidPathChar (CHR 0x00))"
  by code_simp

lemma eof_not_ident: "expectIdent eof = Some (InvalidIdentChar (CHR 0x00) eof)"
  by code_simp

lemma eof_neq_Nil [simp]: "eof \<noteq> []"
  by (simp add: eof_def)

lemma eof_not_punct: "eof \<notin> set [''/'', ''*'', ''**'', ''.'', ''='', ''{'', ''}'']"
  by (simp add: eof_def)

lemma accept_not_fatal:
  assumes "parser_ok p" and "accept term p = Inl e"
  shows "\<not> fatal e"
  using assms
  by (auto simp: parser_ok_def accept_def fatal_def Let_def
      split: list.splits termType.splits if_splits option.splits)

lemma accept_eof_only:
  assumes "accept term p = Inr (t, p')" and "term \<noteq> TypeEOF" and "p_tokens p = eof # ts"
  shows False
  using assms eof_not_punct
  by (auto simp: accept_def Let_def eof_not_pchars eof_not_ident
      split: termType.splits if_splits)

lemma accept_ok:
  assumes "parser_ok p" and "accept term p = Inr (t, p')" and "term \<noteq> TypeEOF"
  shows "parser_ok p'" and "t \<noteq> []" and "length (p_tokens p') < length (p_tokens p)"
proof -
  obtain ts where ts: "p_tokens p = ts @ [eof]" "[] \<notin> set ts"
    using assms(1) by (auto simp: parser_ok_def)
  have "ts \<noteq> []"
    using accept_eof_only [OF assms(2,3)] ts by auto
  then obtain us where "ts = t # us"
    using accept_consumes [OF assms(2)] ts by (cases ts) auto
  then have *: "p_tokens p' = us @ [eof]" "[] \<notin> set us" "t \<noteq> []"
    using accept_consumes [OF assms(2)] ts by auto
  show "parser_ok p'" using * by (auto simp: parser_ok_def)
  show "t \<noteq> []" by (rule *(3))
  show "length (p_tokens p') < length (p_tokens p)" using accept_shorter [OF assms(2)] by simp
qed

text \<open>
  A parsing step is \<open>good\<close> from \<open>p\<close> when it ends without a panic and without running out of
  fuel, and on success leaves a well-formed, strictly shorter parser and a value satisfying
  \<open>Q\<close>.
\<close>

definition good :: "('a \<Rightarrow> bool) \<Rightarrow> nat \<Rightarrow> parse_err + 'a \<times> parser \<Rightarrow> bool" where
  "good Q n r \<longleftrightarrow>
     (case r of Inl e \<Rightarrow> \<not> fatal e
      | Inr (x, p') \<Rightarrow> Q x \<and> parser_ok p' \<and> length (p_tokens p') < n)"

lemma good_accept:
  "parser_ok p \<Longrightarrow> term \<noteq> TypeEOF \<Longrightarrow>
     good (\<lambda>t. t \<noteq> []) (length (p_tokens p)) (accept term p)"
  by (auto simp: good_def split: sum.splits dest: accept_not_fatal accept_ok)

lemma good_sum_bind:
  assumes "good Q n r" and "\<And>x p'. r = Inr (x, p') \<Longrightarrow> Q x \<Longrightarrow> parser_ok p' \<Longrightarrow>
      length (p_tokens p') < n \<Longrightarrow> good R m (f (x, p'))"
  shows "good R m (sum_bind r f)"
  using assms by (cases r) (auto simp: good_def)

lemma good_on_error:
  assumes "good Q n r"
    and "\<And>x p'. r = Inr (x, p') \<Longrightarrow> Q x \<Longrightarrow> parser_ok p' \<Longrightarrow>
      length (p_tokens p') < n \<Longrightarrow> good R m (ok (x, p'))"
    and "\<And>e. r = Inl e \<Longrightarrow> good R m (err e)"
  shows "good R m (on_error r ok err)"
  using assms by (cases r) (auto simp: good_def on_error_def)

lemma good_mono: "good Q n r \<Longrightarrow> n \<le> m \<Longrightarrow> (\<And>x. Q x \<Longrightarrow> R x) \<Longrightarrow> good R m r"
  by (auto simp: good_def split: sum.splits)

lemma good_Inr: "good Q n (Inr (x, p)) \<longleftrightarrow> Q x \<and> parser_ok p \<and> length (p_tokens p) < n"
  by (simp add: good_def)

lemma good_Inl: "good Q n (Inl e) \<longleftrightarrow> \<not> fatal e"
  by (simp add: good_def)

lemmas good_simps = good_Inr good_Inl

text \<open>The well-formedness of what the parser returns.\<close>

definition path_ok :: "string \<Rightarrow> bool" where
  "path_ok path \<longleftrightarrow> (\<forall>c \<in> set (go_split (CHR ''.'') path). expectIdent c = None)"

fun seg_wf :: "segment \<Rightarrow> bool" where
  "seg_wf Wildcard = True"
| "seg_wf DeepWildcard = True"
| "seg_wf (Literal l) = (l \<noteq> [] \<and> expectPChars l = None)"
| "seg_wf (Variable path segs) = (path_ok path \<and> segs \<noteq> [] \<and> list_all seg_wf segs)"

definition segs_wf :: "segment list \<Rightarrow> bool" where
  "segs_wf segs \<longleftrightarrow> segs \<noteq> [] \<and> list_all seg_wf segs"

lemma expectIdent_loop_no_dot: "expectIdent_loop i n s = None \<Longrightarrow> CHR ''.'' \<notin> set s"
  by (induction s arbitrary: n) (auto simp: is_digit_def is_upper_def is_lower_def split: if_splits)

lemma expectIdent_no_dot: "expectIdent s = None \<Longrightarrow> CHR ''.'' \<notin> set s"
  by (auto simp: expectIdent_def dest: expectIdent_loop_no_dot split: if_splits)

lemma path_ok_join:
  assumes "cs \<noteq> []" and "\<forall>c \<in> set cs. expectIdent c = None"
  shows "path_ok (go_join ''.'' cs)"
  unfolding path_ok_def
  using assms by (simp add: go_split_join expectIdent_no_dot)

lemma path_ok_neq_Nil: "path_ok path \<Longrightarrow> path \<noteq> []"
  by (auto simp: path_ok_def expectIdent_def)

lemma accept_ident: "accept TypeIdent p = Inr (c, p') \<Longrightarrow> expectIdent c = None"
  by (auto simp: accept_def Let_def split: list.splits option.splits)

lemma accept_literal: "accept TypeLiteral p = Inr (c, p') \<Longrightarrow> expectPChars c = None"
  by (auto simp: accept_def Let_def split: list.splits option.splits)

lemma good_fieldPath_loop:
  "parser_ok p \<Longrightarrow> cs \<noteq> [] \<Longrightarrow> \<forall>c \<in> set cs. expectIdent c = None \<Longrightarrow>
     good path_ok (Suc (length (p_tokens p))) (fieldPath_loop cs p)"
proof (induction cs p rule: fieldPath_loop.induct)
  case (1 cs p)
  show ?case
    unfolding fieldPath_loop.simps [of cs p]
  proof (rule good_on_error [OF good_accept [OF 1(2)]], goal_cases)
    case (2 x p1)
    show ?case
      unfolding prod.case
    proof (rule good_on_error [OF good_accept [OF 2(3)]], goal_cases)
      case (2 c p2)
      have "expectIdent c = None" using 2(1) by (rule accept_ident)
      then have "good path_ok (Suc (length (p_tokens p2))) (fieldPath_loop (cs @ [c]) p2)"
        using 1(1) [OF _ refl _ refl] \<open>accept (TermTok _) p = Inr (x, p1)\<close> 2 1(2-4)
        by auto
      then show ?case using 2 \<open>length (p_tokens p1) < length (p_tokens p)\<close>
        by (auto elim!: good_mono)
    qed (auto simp: good_simps fatal_def)
  qed (use 1(2-4) path_ok_join in \<open>auto simp: good_simps\<close>)
qed

lemma good_fieldPath: "parser_ok p \<Longrightarrow> good path_ok (length (p_tokens p)) (fieldPath p)"
  unfolding fieldPath_def
  by (rule good_sum_bind [OF good_accept])
     (auto intro!: good_mono [OF good_fieldPath_loop] dest: accept_ident)

lemma good_literal: "parser_ok p \<Longrightarrow> good seg_wf (length (p_tokens p)) (p_literal p)"
  unfolding p_literal_def
  by (rule good_sum_bind [OF good_accept]) (auto simp: good_simps dest: accept_literal)

text \<open>
  The mutual recursion: with three units of fuel per remaining token every method is
  good.  The induction is on the fuel, which every call passes on decremented.
\<close>

lemma good_variable:
  assumes ok: "parser_ok p" and n: "3 * length (p_tokens p) + 1 \<le> Suc n"
    and IH: "\<And>p'. parser_ok p' \<Longrightarrow> 3 * length (p_tokens p') + 3 \<le> n \<Longrightarrow>
      good segs_wf (length (p_tokens p')) (p_segments n p')"
  shows "good seg_wf (length (p_tokens p)) (p_variable (Suc n) p)"
  unfolding p_variable.simps
proof (rule good_sum_bind [OF good_accept [OF ok]], goal_cases)
  case (2 x p1)
  note p1 = 2
  show ?case
    unfolding prod.case
  proof (rule good_sum_bind [OF good_fieldPath [OF p1(3)]], goal_cases)
    case (1 path p2)
    note p2 = 1
    have segs: "good segs_wf (Suc (length (p_tokens p2)))
      (on_error (accept (TermTok ''='') p2)
        (\<lambda>(_, p3). on_error (p_segments n p3) Inr (\<lambda>e. Inl (InvalidVariableSegment path e)))
        (\<lambda>_. Inr ([Wildcard], p2)))"
    proof (rule good_on_error [OF good_accept [OF p2(3)]], goal_cases)
      case (2 y p3)
      have "good segs_wf (length (p_tokens p3)) (p_segments n p3)"
        using IH 2 p2 p1 n by auto
      then show ?case
        unfolding prod.case using 2
        by (auto intro!: good_on_error simp: good_simps fatal_def)
    qed (use p2 in \<open>auto simp: good_simps segs_wf_def\<close>)
    show ?case
      unfolding prod.case
    proof (rule good_sum_bind [OF segs], goal_cases)
      case (1 segs p4)
      then show ?case
        unfolding prod.case
        using p2 p1 by (auto intro!: good_on_error [OF good_accept] simp: good_simps fatal_def segs_wf_def)
    qed
  qed
qed simp

lemma good_segment:
  assumes ok: "parser_ok p" and var: "good seg_wf (length (p_tokens p)) (p_variable n p)"
  shows "good seg_wf (length (p_tokens p)) (p_segment (Suc n) p)"
  unfolding p_segment.simps
  by (rule good_on_error [OF good_accept [OF ok]], simp, force simp: good_simps,
      rule good_on_error [OF good_accept [OF ok]], simp, force simp: good_simps,
      rule good_on_error [OF good_literal [OF ok]], force simp: good_simps,
      rule good_on_error [OF var], force simp: good_simps, simp add: good_simps fatal_def)

lemma good_segments_loop:
  assumes ok: "parser_ok p" and segs: "segs_wf segs"
    and n: "3 * length (p_tokens p) + 3 \<le> Suc n"
    and IH1: "\<And>p'. parser_ok p' \<Longrightarrow> 3 * length (p_tokens p') + 2 \<le> n \<Longrightarrow>
      good seg_wf (length (p_tokens p')) (p_segment n p')"
    and IH2: "\<And>p' segs'. parser_ok p' \<Longrightarrow> segs_wf segs' \<Longrightarrow> 3 * length (p_tokens p') + 3 \<le> n \<Longrightarrow>
      good segs_wf (Suc (length (p_tokens p'))) (p_segments_loop n segs' p')"
  shows "good segs_wf (Suc (length (p_tokens p))) (p_segments_loop (Suc n) segs p)"
  unfolding p_segments_loop.simps
proof (rule good_on_error [OF good_accept [OF ok]], goal_cases)
  case (2 x p1)
  note p1 = 2
  have "good seg_wf (length (p_tokens p1)) (p_segment n p1)"
    using IH1 p1 n by auto
  then show ?case
    unfolding prod.case
  proof (rule good_sum_bind, goal_cases)
    case (1 s p2)
    have "good segs_wf (Suc (length (p_tokens p2))) (p_segments_loop n (segs @ [s]) p2)"
      using IH2 [OF 1(3), of "segs @ [s]"] 1 p1 n segs by (auto simp: segs_wf_def)
    then show ?case
      unfolding prod.case using 1 p1 by (auto elim!: good_mono)
  qed
qed (use ok segs in \<open>auto simp: good_simps\<close>)

lemma parser_good:
  "(\<forall>p. parser_ok p \<longrightarrow> 3 * length (p_tokens p) + 3 \<le> n \<longrightarrow>
      good segs_wf (length (p_tokens p)) (p_segments n p)) \<and>
   (\<forall>p segs. parser_ok p \<longrightarrow> segs_wf segs \<longrightarrow> 3 * length (p_tokens p) + 3 \<le> n \<longrightarrow>
      good segs_wf (Suc (length (p_tokens p))) (p_segments_loop n segs p)) \<and>
   (\<forall>p. parser_ok p \<longrightarrow> 3 * length (p_tokens p) + 2 \<le> n \<longrightarrow>
      good seg_wf (length (p_tokens p)) (p_segment n p)) \<and>
   (\<forall>p. parser_ok p \<longrightarrow> 3 * length (p_tokens p) + 1 \<le> n \<longrightarrow>
      good seg_wf (length (p_tokens p)) (p_variable n p))"
proof (induction n)
  case 0
  then show ?case by simp
next
  case (Suc n)
  note IHs = Suc.IH [THEN conjunct1, rule_format]
  note IHl = Suc.IH [THEN conjunct2, THEN conjunct1, rule_format]
  note IHg = Suc.IH [THEN conjunct2, THEN conjunct2, THEN conjunct1, rule_format]
  note IHv = Suc.IH [THEN conjunct2, THEN conjunct2, THEN conjunct2, rule_format]
  have "good segs_wf (length (p_tokens p)) (p_segments (Suc n) p)"
    if "parser_ok p" "3 * length (p_tokens p) + 3 \<le> Suc n" for p
    unfolding p_segments.simps
  proof (rule good_sum_bind [OF IHg], goal_cases)
    case (3 s p1)
    then show ?case
      using that IHl [of p1 "[s]"] by (auto simp: segs_wf_def elim!: good_mono)
  qed (use that in auto)
  moreover have "good segs_wf (Suc (length (p_tokens p))) (p_segments_loop (Suc n) segs p)"
    if "parser_ok p" "segs_wf segs" "3 * length (p_tokens p) + 3 \<le> Suc n" for p segs
    by (rule good_segments_loop [OF that IHg IHl])
  moreover have "good seg_wf (length (p_tokens p)) (p_segment (Suc n) p)"
    if "parser_ok p" "3 * length (p_tokens p) + 2 \<le> Suc n" for p
    using that by (intro good_segment IHv) auto
  moreover have "good seg_wf (length (p_tokens p)) (p_variable (Suc n) p)"
    if "parser_ok p" "3 * length (p_tokens p) + 1 \<le> Suc n" for p
    by (rule good_variable [OF that IHs])
  ultimately show ?case by blast
qed

lemma topLevelSegments_good:
  assumes "parser_ok p"
  shows "case topLevelSegments p of Inl e \<Rightarrow> \<not> fatal e | Inr segs \<Rightarrow> segs_wf segs"
proof -
  have "good segs_wf (length (p_tokens p)) (p_segments (3 * length (p_tokens p) + 3) p)"
    using parser_good assms by blast
  then show ?thesis
    using accept_not_fatal
    by (fastforce simp: topLevelSegments_def good_def on_error_def fatal_def split: sum.splits)
qed

lemma Parse_good:
  "case Parse tmpl of
     Inl (NoLeadingSlash s) \<Rightarrow> s = tmpl \<and> \<not> has_prefix tmpl ''/''
   | Inl (InvalidTemplateError s e) \<Rightarrow> s = tmpl \<and> \<not> fatal e
   | Inr t \<Rightarrow> t_template t = tmpl \<and> segs_wf (t_segments t)"
proof -
  let ?p = "\<lparr>p_tokens = fst (tokenize (drop 1 tmpl)), p_accepted = []\<rparr>"
  have "parser_ok ?p"
    using tokenize_shape [of "drop 1 tmpl"] by (auto simp: parser_ok_def)
  then show ?thesis
    using topLevelSegments_good [of ?p]
    by (auto simp: Parse_def Let_def split: sum.splits prod.splits)
qed

section \<open>Properties\<close>

text \<open>
  Tokenizing loses nothing: the tokens before the final \<open>eof\<close>, the colon when there is a
  verb, and the verb spell out the path that was tokenized.
\<close>

lemma tokenize_lossless:
  "\<exists>ts verb sep. tokenize path = (ts @ [eof], verb) \<and> (sep = [] \<or> sep = '':'') \<and>
     concat ts @ sep @ verb = path"
proof -
  obtain ts where ts: "fst (tokenize path) = ts @ [eof]"
    using tokenize_shape by blast
  obtain sep where "sep = [] \<or> sep = '':''"
    "concat (butlast (fst (tokenize path))) @ sep @ snd (tokenize path) = path"
    using tokenize_concat by blast
  with ts show ?thesis by (intro exI [of _ ts] exI [of _ "snd (tokenize path)"] exI [of _ sep])
      (auto simp: prod_eq_iff)
qed

text \<open>
  C33.  \<open>Parse\<close> is total: on every string it ends within its fuel, never reads past the last token,
  and either returns one of the grammar's errors about that string or a template of well-formed
  segments (nonempty literals of RFC 3986 path characters, variables named by dotted
  identifiers around at least one segment).
\<close>

theorem Parse_total:
  "case Parse tmpl of
     Inl (NoLeadingSlash s) \<Rightarrow> s = tmpl \<and> \<not> has_prefix tmpl ''/''
   | Inl (InvalidTemplateError s e) \<Rightarrow> s = tmpl \<and> e \<noteq> ParsePanic \<and> e \<noteq> ParseFuel
   | Inr t \<Rightarrow> t_template t = tmpl \<and> t_segments t \<noteq> [] \<and> list_all seg_wf (t_segments t)"
  using Parse_good [of tmpl]
  by (auto simp: fatal_def segs_wf_def split: sum.splits template_err.splits)

text \<open>
  The terminal-matching method takes a slash for any punctuation: asked for \<open>*\<close>, \<open>{\<close>, \<open>=\<close>
  or another punctuation terminal, \<open>accept\<close> consumes the token \<open>/\<close> as if it were the one it was
  asked for, although its comment promises an error for a token that does not match.
  In particular the template \<open>//\<close> parses, as a single wildcard.
\<close>

lemma accept_takes_slash:
  "p_tokens p = ''/'' # ts \<Longrightarrow> s \<in> {''/'', ''*'', ''**'', ''.'', ''='', ''{'', ''}''} \<Longrightarrow>
     accept (TermTok s) p = Inr (''/'', p\<lparr>p_tokens := ts, p_accepted := p_accepted p @ [''/'']\<rparr>) \<and>
     Parse ''//'' = Inr \<lparr>t_verb = [], t_template = ''//'', t_segments = [Wildcard]\<rparr>"
proof (rule conjI)
  assume "p_tokens p = ''/'' # ts" and "s \<in> {''/'', ''*'', ''**'', ''.'', ''='', ''{'', ''}''}"
  then show "accept (TermTok s) p = Inr (''/'', p\<lparr>p_tokens := ts, p_accepted := p_accepted p @ [''/'']\<rparr>)"
    by (auto simp: accept_def Let_def)
  show "Parse ''//'' = Inr \<lparr>t_verb = [], t_template = ''//'', t_segments = [Wildcard]\<rparr>"
    by code_simp
qed

end
