(* ===== verification/Path_Pattern.thy ===== *)
theory Path_Pattern
  imports Path_Template
begin

text \<open>
  The compiler from path templates to opcodes (\<open>src/api/router/util/compile.go\<close>,
  \<open>pattern.go\<close>) and the stack machine that matches request paths against them
  (\<open>runtime.go\<close>).

  Opcodes and operands are Go \<open>int\<close>s, as \<open>NewPattern\<close> takes them from outside.  Every slice
  access of \<open>Match\<close> that Go checks at run time is checked here too, with the result
  \<open>MatchPanic\<close>; the safety theorem shows that no pattern made by \<open>NewPattern\<close> reaches it.
  The specification is the relation \<open>segs_match\<close>: which component lists a template
  describes and what its variables bind.
\<close>

section \<open>Opcodes and compilation\<close>

definition OpNop :: int where "OpNop = 0"
definition OpPush :: int where "OpPush = 1"
definition OpLitPush :: int where "OpLitPush = 2"
definition OpPushM :: int where "OpPushM = 3"
definition OpConcatN :: int where "OpConcatN = 4"
definition OpCapture :: int where "OpCapture = 5"
definition OpEnd :: int where "OpEnd = 6"

lemmas opcode_defs = OpNop_def OpPush_def OpLitPush_def OpPushM_def OpConcatN_def OpCapture_def

record op =
  op_str :: string
  op_code :: int
  op_operand :: int

fun seg_compile :: "segment \<Rightarrow> op list" where
  "seg_compile Wildcard = [\<lparr>op_str = [], op_code = OpPush, op_operand = 0\<rparr>]"
| "seg_compile DeepWildcard = [\<lparr>op_str = [], op_code = OpPushM, op_operand = 0\<rparr>]"
| "seg_compile (Literal l) = [\<lparr>op_str = l, op_code = OpLitPush, op_operand = 0\<rparr>]"
| "seg_compile (Variable path segs) =
     concat (map seg_compile segs) @
     [\<lparr>op_str = [], op_code = OpConcatN, op_operand = int (length segs)\<rparr>,
      \<lparr>op_str = path, op_code = OpCapture, op_operand = 0\<rparr>]"

record compiled =
  Verb :: string
  Template :: string
  OpCodes :: "int list"
  Pool :: "string list"
  Fields :: "string list"
  Version :: int

definition opcodeVersion :: int where
  "opcodeVersion = 1"

record compile_state =
  cs_ops :: "int list"
  cs_pool :: "string list"
  cs_fields :: "string list"
  cs_consts :: "(string, int) go_map"

definition compile_op :: "compile_state \<Rightarrow> op \<Rightarrow> compile_state" where
  "compile_op st x =
     (let st1 = st\<lparr>cs_ops := cs_ops st @ [op_code x]\<rparr>;
          st2 =
            (if op_str x = [] then st1\<lparr>cs_ops := cs_ops st1 @ [op_operand x]\<rparr>
             else
               (let st' =
                  (case map_of (cs_consts st1) (op_str x) of
                     Some _ \<Rightarrow> st1
                   | None \<Rightarrow> st1\<lparr>cs_consts := AList.update (op_str x) (int (length (cs_pool st1))) (cs_consts st1),
                                 cs_pool := cs_pool st1 @ [op_str x]\<rparr>)
                in st'\<lparr>cs_ops := cs_ops st' @ [the (map_of (cs_consts st') (op_str x))]\<rparr>))
      in (if op_code x = OpCapture then st2\<lparr>cs_fields := cs_fields st2 @ [op_str x]\<rparr> else st2))"

definition template_Compile :: "template \<Rightarrow> compiled" where
  "template_Compile t =
     (let rawOps = concat (map seg_compile (t_segments t));
          st = foldl compile_op
                 \<lparr>cs_ops = [], cs_pool = [], cs_fields = [], cs_consts = []\<rparr> rawOps
      in \<lparr>Verb = t_verb t, Template = t_template t, OpCodes = cs_ops st, Pool = cs_pool st,
          Fields = cs_fields st, Version = opcodeVersion\<rparr>)"

section \<open>Patterns\<close>

datatype pattern_err = ErrInvalidPattern

datatype match_err = ErrNotMatch | MatchPanic

record rop =
  r_code :: int
  r_operand :: int

record pattern =
  pt_verb :: string
  pt_ops :: "rop list"
  pt_pool :: "string list"
  pt_vars :: "string list"
  pt_stacksize :: int
  pt_tailLen :: int
  pt_assumeColonVerb :: bool

record patternOptions =
  po_logger :: string
  po_assumeColonVerb :: bool

type_synonym PatternOpt = "patternOptions \<Rightarrow> patternOptions"

definition PatternLogger :: "string \<Rightarrow> PatternOpt" where
  "PatternLogger l = (\<lambda>po. po\<lparr>po_logger := l\<rparr>)"

definition AssumeColonVerbOpt :: "bool \<Rightarrow> PatternOpt" where
  "AssumeColonVerbOpt val = (\<lambda>o'. o'\<lparr>po_assumeColonVerb := val\<rparr>)"

record np_state =
  np_typedOps :: "rop list"
  np_stack :: int
  np_maxstack :: int
  np_tailLen :: int
  np_pushMSeen :: bool
  np_vars :: "string list"

text \<open>The end of the loop body, reached from every \<open>case\<close> but \<open>OpNop\<close>.\<close>

definition np_finish :: "np_state \<Rightarrow> rop \<Rightarrow> np_state" where
  "np_finish st r =
     st\<lparr>np_maxstack := (if np_maxstack st < np_stack st then np_stack st else np_maxstack st),
        np_typedOps := np_typedOps st @ [r]\<rparr>"

definition np_step :: "string list \<Rightarrow> np_state \<Rightarrow> int \<Rightarrow> int \<Rightarrow> pattern_err + np_state" where
  "np_step pool st code operand =
     (let r = \<lparr>r_code = code, r_operand = operand\<rparr> in
      if code = OpNop then Inr st
      else if code = OpPush then
        Inr (np_finish
          (st\<lparr>np_tailLen := (if np_pushMSeen st then np_tailLen st + 1 else np_tailLen st),
              np_stack := np_stack st + 1\<rparr>) r)
      else if code = OpPushM then
        if np_pushMSeen st then Inl ErrInvalidPattern
        else Inr (np_finish (st\<lparr>np_pushMSeen := True, np_stack := np_stack st + 1\<rparr>) r)
      else if code = OpLitPush then
        if operand < 0 \<or> int (length pool) \<le> operand then Inl ErrInvalidPattern
        else Inr (np_finish
          (st\<lparr>np_tailLen := (if np_pushMSeen st then np_tailLen st + 1 else np_tailLen st),
              np_stack := np_stack st + 1\<rparr>) r)
      else if code = OpConcatN then
        if operand \<le> 0 then Inl ErrInvalidPattern
        else if np_stack st - operand < 0 then Inl ErrInvalidPattern
        else Inr (np_finish (st\<lparr>np_stack := np_stack st - operand + 1\<rparr>) r)
      else if code = OpCapture then
        if operand < 0 \<or> int (length pool) \<le> operand then Inl ErrInvalidPattern
        else if np_stack st - 1 < 0 then Inl ErrInvalidPattern
        else Inr (np_finish
          (st\<lparr>np_vars := np_vars st @ [pool ! nat operand], np_stack := np_stack st - 1\<rparr>)
          (r\<lparr>r_operand := int (length (np_vars st))\<rparr>))
      else Inl ErrInvalidPattern)"

text \<open>The loop \<open>for i := 0; i < l; i += 2\<close>; the length of \<open>ops\<close> is even by the check before it.\<close>

fun np_loop :: "string list \<Rightarrow> np_state \<Rightarrow> int list \<Rightarrow> pattern_err + np_state" where
  "np_loop pool st (code # operand # rest) =
     sum_bind (np_step pool st code operand) (\<lambda>st'. np_loop pool st' rest)"
| "np_loop pool st _ = Inr st"

definition np_init :: np_state where
  "np_init = \<lparr>np_typedOps = [], np_stack = 0, np_maxstack = 0, np_tailLen = 0,
              np_pushMSeen = False, np_vars = []\<rparr>"

definition NewPattern ::
  "int \<Rightarrow> int list \<Rightarrow> string list \<Rightarrow> string \<Rightarrow> PatternOpt list \<Rightarrow> pattern_err + pattern" where
  "NewPattern version ops pool verb opts =
     (let options = foldl (\<lambda>po f. f po) \<lparr>po_logger = [], po_assumeColonVerb = True\<rparr> opts in
      if version \<noteq> 1 then Inl ErrInvalidPattern
      else if length ops mod 2 \<noteq> 0 then Inl ErrInvalidPattern
      else sum_bind (np_loop pool np_init ops) (\<lambda>st.
        Inr \<lparr>pt_verb = verb, pt_ops = np_typedOps st, pt_pool = pool, pt_vars = np_vars st,
             pt_stacksize = np_maxstack st, pt_tailLen = np_tailLen st,
             pt_assumeColonVerb = po_assumeColonVerb options\<rparr>))"

section \<open>Matching\<close>

record mstate =
  m_pos :: nat
  m_stack :: "string list"
  m_captured :: "string list"

definition match_step :: "pattern \<Rightarrow> string list \<Rightarrow> mstate \<Rightarrow> rop \<Rightarrow> match_err + mstate" where
  "match_step p components st x =
     (let l = length components; pos = m_pos st; stack = m_stack st in
      if r_code x = OpNop then Inr st
      else if r_code x = OpPush \<or> r_code x = OpLitPush then
        if l \<le> pos then Inl ErrNotMatch
        else (let c = components ! pos;
                  st' = st\<lparr>m_stack := stack @ [c], m_pos := Suc pos\<rparr> in
          if r_code x = OpLitPush then
            if r_operand x < 0 \<or> int (length (pt_pool p)) \<le> r_operand x then Inl MatchPanic
            else if c \<noteq> pt_pool p ! nat (r_operand x) then Inl ErrNotMatch
            else Inr st'
          else Inr st')
      else if r_code x = OpPushM then
        if int l < int pos + pt_tailLen p then Inl ErrNotMatch
        else (let e = int l - pt_tailLen p in
          if int l < e then Inl MatchPanic
          else Inr (st\<lparr>m_stack := stack @ [go_join ''/'' (drop pos (take (nat e) components))],
                      m_pos := nat e\<rparr>))
      else if r_code x = OpConcatN then
        (let k = int (length stack) - r_operand x in
          if k < 0 \<or> int (length stack) < k then Inl MatchPanic
          else Inr (st\<lparr>m_stack := take (nat k) stack @ [go_join ''/'' (drop (nat k) stack)]\<rparr>))
      else if r_code x = OpCapture then
        if stack = [] \<or> r_operand x < 0 \<or> int (length (m_captured st)) \<le> r_operand x
        then Inl MatchPanic
        else Inr (st\<lparr>m_captured := (m_captured st)[nat (r_operand x) := last stack],
                    m_stack := butlast stack\<rparr>)
      else Inr st)"

text \<open>\<open>for i, val := range captured { bindings[p.vars[i]] = val }\<close>\<close>

fun bind_captured :: "string list \<Rightarrow> string list \<Rightarrow> (string, string) go_map \<Rightarrow> (string, string) go_map" where
  "bind_captured (v # vs) (x # xs) b = bind_captured vs xs (AList.update v x b)"
| "bind_captured _ _ b = b"

definition match_run :: "pattern \<Rightarrow> string list \<Rightarrow> match_err + (string, string) go_map" where
  "match_run p components =
     sum_bind
       (sum_fold (match_step p components)
          \<lparr>m_pos = 0, m_stack = [], m_captured = replicate (length (pt_vars p)) []\<rparr> (pt_ops p))
       (\<lambda>st. if m_pos st < length components then Inl ErrNotMatch
             else Inr (bind_captured (pt_vars p) (m_captured st) []))"

definition Match :: "pattern \<Rightarrow> string list \<Rightarrow> string \<Rightarrow> match_err + (string, string) go_map" where
  "Match p components verb =
     (if pt_verb p \<noteq> verb then
        if pt_assumeColonVerb p \<or> pt_verb p \<noteq> [] then Inl ErrNotMatch
        else if components = [] then match_run p ['':'' @ verb]
        else match_run p (butlast components @ [last components @ '':'' @ verb])
      else match_run p components)"

definition pattern_Verb :: "pattern \<Rightarrow> string" where
  "pattern_Verb p = pt_verb p"

text \<open>\<open>String\<close> prints the program by running it on symbolic components.\<close>

definition print_step :: "pattern \<Rightarrow> string list \<Rightarrow> rop \<Rightarrow> match_err + string list" where
  "print_step p stack x =
     (if r_code x = OpNop then Inr stack
      else if r_code x = OpPush then Inr (stack @ [''*''])
      else if r_code x = OpLitPush then
        if r_operand x < 0 \<or> int (length (pt_pool p)) \<le> r_operand x then Inl MatchPanic
        else Inr (stack @ [pt_pool p ! nat (r_operand x)])
      else if r_code x = OpPushM then Inr (stack @ [''**''])
      else if r_code x = OpConcatN then
        (let k = int (length stack) - r_operand x in
          if k < 0 \<or> int (length stack) < k then Inl MatchPanic
          else Inr (take (nat k) stack @ [go_join ''/'' (drop (nat k) stack)]))
      else if r_code x = OpCapture then
        if stack = [] \<or> r_operand x < 0 \<or> int (length (pt_vars p)) \<le> r_operand x
        then Inl MatchPanic
        else Inr (butlast stack @
                  [''{'' @ pt_vars p ! nat (r_operand x) @ ''='' @ last stack @ ''}''])
      else Inr stack)"

definition pattern_String :: "pattern \<Rightarrow> match_err + string" where
  "pattern_String p =
     sum_bind (sum_fold (print_step p) [] (pt_ops p)) (\<lambda>stack.
       let segs = go_join ''/'' stack in
       if pt_verb p \<noteq> [] then Inr (''/'' @ segs @ '':'' @ pt_verb p) else Inr (''/'' @ segs))"

section \<open>Stack discipline: what NewPattern checks is what Match needs\<close>

text \<open>
  \<open>rops_ok P V d xs\<close>: the program \<open>xs\<close>, started on a stack of depth \<open>d\<close> with a pool of \<open>P\<close>
  constants and \<open>V\<close> variables, stays inside the stack, the pool and the variables.
\<close>

definition rop_delta :: "rop \<Rightarrow> int" where
  "rop_delta x =
     (if r_code x = OpPush \<or> r_code x = OpLitPush \<or> r_code x = OpPushM then 1
      else if r_code x = OpConcatN then 1 - r_operand x
      else if r_code x = OpCapture then -1
      else 0)"

definition rop_ok :: "nat \<Rightarrow> nat \<Rightarrow> int \<Rightarrow> rop \<Rightarrow> bool" where
  "rop_ok P V d x \<longleftrightarrow>
     (r_code x = OpPush \<or> r_code x = OpPushM
      \<or> r_code x = OpLitPush \<and> 0 \<le> r_operand x \<and> r_operand x < int P
      \<or> r_code x = OpConcatN \<and> 0 < r_operand x \<and> r_operand x \<le> d
      \<or> r_code x = OpCapture \<and> 0 \<le> r_operand x \<and> r_operand x < int V \<and> 0 < d)"

fun rops_ok :: "nat \<Rightarrow> nat \<Rightarrow> int \<Rightarrow> rop list \<Rightarrow> bool" where
  "rops_ok P V d [] = True"
| "rops_ok P V d (x # xs) = (rop_ok P V d x \<and> rops_ok P V (d + rop_delta x) xs)"

definition depth :: "int \<Rightarrow> rop list \<Rightarrow> int" where
  "depth d xs = d + sum_list (map rop_delta xs)"

lemma depth_simps [simp]:
  "depth d [] = d" "depth d (x # xs) = depth (d + rop_delta x) xs"
  by (simp_all add: depth_def)

lemma rops_ok_append: "rops_ok P V d (xs @ ys) \<longleftrightarrow> rops_ok P V d xs \<and> rops_ok P V (depth d xs) ys"
  by (induction xs arbitrary: d) auto

text \<open>How one accepted instruction changes the checker's state.\<close>

definition np_emits :: "nat \<Rightarrow> np_state \<Rightarrow> np_state \<Rightarrow> rop list \<Rightarrow> bool" where
  "np_emits P st st' new \<longleftrightarrow>
     np_typedOps st' = np_typedOps st @ new \<and>
     length (np_vars st) \<le> length (np_vars st') \<and>
     np_stack st' = depth (np_stack st) new \<and>
     np_maxstack st \<le> np_maxstack st' \<and>
     (\<forall>i \<le> length new. np_stack st \<le> np_maxstack st \<longrightarrow>
         depth (np_stack st) (take i new) \<le> np_maxstack st') \<and>
     (0 \<le> np_tailLen st \<longrightarrow> 0 \<le> np_tailLen st') \<and>
     (\<forall>V \<ge> length (np_vars st'). rops_ok P V (np_stack st) new)"

lemma np_emits_finish:
  assumes "np_typedOps st1 = np_typedOps st" "np_maxstack st1 = np_maxstack st"
    and "length (np_vars st) \<le> length (np_vars st1)"
    and "np_stack st1 = np_stack st + rop_delta r"
    and "np_tailLen st \<le> np_tailLen st1"
    and "\<And>V. length (np_vars st1) \<le> V \<Longrightarrow> rop_ok P V (np_stack st) r"
  shows "np_emits P st (np_finish st1 r) [r]"
  using assms by (auto simp: np_emits_def np_finish_def le_Suc_eq)

lemma np_emits_step:
  assumes "np_step pool st code operand = Inr st'"
  shows "\<exists>new. np_emits (length pool) st st' new"
proof -
  let ?r = "\<lparr>r_code = code, r_operand = operand\<rparr>"
  let ?push = "st\<lparr>np_tailLen := (if np_pushMSeen st then np_tailLen st + 1 else np_tailLen st),
                  np_stack := np_stack st + 1\<rparr>"
  let ?capture = "st\<lparr>np_vars := np_vars st @ [pool ! nat operand], np_stack := np_stack st - 1\<rparr>"
  consider "code = OpNop" | "code = OpPush" | "code = OpPushM" | "code = OpLitPush"
    | "code = OpConcatN" | "code = OpCapture"
    using assms by (auto simp: np_step_def Let_def split: if_splits)
  then show ?thesis
  proof cases
    case 1
    then have "np_emits (length pool) st st' []" using assms by (simp add: np_step_def np_emits_def)
    then show ?thesis by blast
  next
    case 2
    then have eq: "st' = np_finish ?push ?r" using assms by (simp add: np_step_def opcode_defs)
    have "np_emits (length pool) st st' [?r]"
      unfolding eq using 2
      by (intro np_emits_finish) (simp_all add: rop_delta_def rop_ok_def opcode_defs)
    then show ?thesis by blast
  next
    case 3
    then have eq: "st' = np_finish (st\<lparr>np_pushMSeen := True, np_stack := np_stack st + 1\<rparr>) ?r"
      using assms by (simp add: np_step_def opcode_defs split: if_splits)
    have "np_emits (length pool) st st' [?r]"
      unfolding eq using 3
      by (intro np_emits_finish) (simp_all add: rop_delta_def rop_ok_def opcode_defs)
    then show ?thesis by blast
  next
    case 4
    then have eq: "st' = np_finish ?push ?r" and r: "0 \<le> operand" "operand < int (length pool)"
      using assms by (simp_all add: np_step_def Let_def opcode_defs split: if_splits)
    have "np_emits (length pool) st st' [?r]"
      unfolding eq using 4 r
      by (intro np_emits_finish) (simp_all add: rop_delta_def rop_ok_def opcode_defs)
    then show ?thesis by blast
  next
    case 5
    then have eq: "st' = np_finish (st\<lparr>np_stack := np_stack st - operand + 1\<rparr>) ?r"
      and r: "0 < operand" "operand \<le> np_stack st"
      using assms by (simp_all add: np_step_def opcode_defs split: if_splits)
    have "np_emits (length pool) st st' [?r]"
      unfolding eq using 5 r
      by (intro np_emits_finish) (simp_all add: rop_delta_def rop_ok_def opcode_defs)
    then show ?thesis by blast
  next
    case 6
    then have eq: "st' = np_finish ?capture (?r\<lparr>r_operand := int (length (np_vars st))\<rparr>)"
      and r: "0 < np_stack st"
      using assms by (simp_all add: np_step_def opcode_defs split: if_splits)
    have "np_emits (length pool) st st' [?r\<lparr>r_operand := int (length (np_vars st))\<rparr>]"
      unfolding eq using 6 r
      by (intro np_emits_finish) (simp_all add: rop_delta_def rop_ok_def opcode_defs)
    then show ?thesis by blast
  qed
qed

lemma np_emits_Nil: "np_emits P st st []"
  by (auto simp: np_emits_def)

lemma np_emits_trans:
  assumes a: "np_emits P st st1 xs" and b: "np_emits P st1 st2 ys"
  shows "np_emits P st st2 (xs @ ys)"
proof -
  have d: "depth d (us @ vs) = depth (depth d us) vs" for d us vs
    by (simp add: depth_def)
  have top: "np_stack st1 \<le> np_maxstack st1" if "np_stack st \<le> np_maxstack st"
    using a that unfolding np_emits_def by (metis order_refl take_all)
  have "depth (np_stack st) (take i (xs @ ys)) \<le> np_maxstack st2"
    if i: "i \<le> length (xs @ ys)" and st: "np_stack st \<le> np_maxstack st" for i
  proof (cases "i \<le> length xs")
    case True
    then have "depth (np_stack st) (take i xs) \<le> np_maxstack st1"
      using a st by (auto simp: np_emits_def)
    also have "\<dots> \<le> np_maxstack st2" using b by (auto simp: np_emits_def)
    finally show ?thesis using True by simp
  next
    case False
    then have "depth (np_stack st1) (take (i - length xs) ys) \<le> np_maxstack st2"
      using b i top [OF st] by (auto simp: np_emits_def)
    then show ?thesis using False a by (auto simp: np_emits_def d)
  qed
  then show ?thesis
    using a b unfolding np_emits_def by (auto simp: d rops_ok_append)
qed

lemma np_emits_loop:
  "np_loop pool st ops = Inr st' \<Longrightarrow> \<exists>new. np_emits (length pool) st st' new"
proof (induction pool st ops rule: np_loop.induct)
  case (1 pool st code operand rest)
  then obtain st1 where st1: "np_step pool st code operand = Inr st1" "np_loop pool st1 rest = Inr st'"
    by (auto simp: sum_bind_eq_Inr)
  then show ?case
    using 1 np_emits_step [OF st1(1)] np_emits_trans by blast
qed (auto intro: np_emits_Nil)

lemma NewPattern_ok:
  assumes "NewPattern version ops pool verb opts = Inr p"
  shows "rops_ok (length (pt_pool p)) (length (pt_vars p)) 0 (pt_ops p)"
    and "0 \<le> pt_tailLen p"
    and "i \<le> length (pt_ops p) \<Longrightarrow> depth 0 (take i (pt_ops p)) \<le> pt_stacksize p"
proof -
  obtain st where st: "np_loop pool np_init ops = Inr st"
    and p: "pt_ops p = np_typedOps st" "pt_pool p = pool" "pt_vars p = np_vars st"
      "pt_tailLen p = np_tailLen st" "pt_stacksize p = np_maxstack st"
    using assms by (auto simp: NewPattern_def Let_def sum_bind_eq_Inr split: if_splits)
  obtain new where "np_emits (length pool) np_init st new"
    using np_emits_loop [OF st] by blast
  then have *: "np_emits (length pool) np_init st (np_typedOps st)"
    by (simp add: np_emits_def np_init_def)
  show "rops_ok (length (pt_pool p)) (length (pt_vars p)) 0 (pt_ops p)"
    and "0 \<le> pt_tailLen p"
    and "i \<le> length (pt_ops p) \<Longrightarrow> depth 0 (take i (pt_ops p)) \<le> pt_stacksize p"
    using * unfolding p np_emits_def by (auto simp: np_init_def)
qed

text \<open>
  \<open>runs_ok n d r\<close>: a run of the machine did not panic, and where it went on, the stack has
  depth \<open>d\<close> and the capture slice kept its length \<open>n\<close>.
\<close>

definition runs_ok :: "nat \<Rightarrow> int \<Rightarrow> match_err + mstate \<Rightarrow> bool" where
  "runs_ok n d r \<longleftrightarrow>
     (case r of Inl e \<Rightarrow> e \<noteq> MatchPanic
      | Inr st \<Rightarrow> int (length (m_stack st)) = d \<and> length (m_captured st) = n)"

lemma match_step_ok:
  assumes ok: "rop_ok (length (pt_pool p)) (length (m_captured st)) (int (length (m_stack st))) x"
    and tail: "0 \<le> pt_tailLen p"
  shows "runs_ok (length (m_captured st)) (int (length (m_stack st)) + rop_delta x)
    (match_step p cs st x)"
proof -
  consider "r_code x = OpPush" | "r_code x = OpPushM" | "r_code x = OpLitPush"
    | "r_code x = OpConcatN" | "r_code x = OpCapture"
    using ok by (auto simp: rop_ok_def)
  then show ?thesis
  proof cases
    case 1
    then show ?thesis by (simp add: match_step_def runs_ok_def rop_delta_def opcode_defs Let_def)
  next
    case 2
    then show ?thesis using tail
      by (simp add: match_step_def runs_ok_def rop_delta_def opcode_defs Let_def)
  next
    case 3
    then show ?thesis using ok
      by (simp add: match_step_def runs_ok_def rop_delta_def rop_ok_def opcode_defs Let_def)
  next
    case 4
    then have "0 < r_operand x" "r_operand x \<le> int (length (m_stack st))"
      using ok by (auto simp: rop_ok_def opcode_defs)
    then show ?thesis using 4
      by (simp add: match_step_def runs_ok_def rop_delta_def opcode_defs Let_def)
  next
    case 5
    then have "m_stack st \<noteq> []" "0 \<le> r_operand x" "r_operand x < int (length (m_captured st))"
      using ok by (auto simp: rop_ok_def opcode_defs)
    moreover from this(1) have "1 \<le> length (m_stack st)" by (cases "m_stack st") auto
    ultimately show ?thesis using 5
      by (simp add: match_step_def runs_ok_def rop_delta_def opcode_defs Let_def of_nat_diff)
  qed
qed

lemma match_fold_ok:
  assumes "rops_ok (length (pt_pool p)) (length (m_captured st)) (int (length (m_stack st))) xs"
    and tail: "0 \<le> pt_tailLen p"
  shows "runs_ok (length (m_captured st)) (depth (int (length (m_stack st))) xs)
    (sum_fold (match_step p cs) st xs)"
  using assms(1)
proof (induction xs arbitrary: st)
  case Nil
  then show ?case by (simp add: runs_ok_def)
next
  case (Cons x xs)
  from Cons.prems have x: "rop_ok (length (pt_pool p)) (length (m_captured st)) (int (length (m_stack st))) x"
    by simp
  note step = match_step_ok [OF x tail, of cs]
  show ?case
  proof (cases "match_step p cs st x")
    case (Inl e)
    then show ?thesis using step by (simp add: runs_ok_def)
  next
    case (Inr st1)
    then have st1: "length (m_captured st1) = length (m_captured st)"
      "int (length (m_stack st1)) = int (length (m_stack st)) + rop_delta x"
      using step by (simp_all add: runs_ok_def)
    have "runs_ok (length (m_captured st1)) (depth (int (length (m_stack st1))) xs)
        (sum_fold (match_step p cs) st1 xs)"
      by (rule Cons.IH) (use Cons.prems st1 in simp)
    then show ?thesis using Inr st1 by simp
  qed
qed

lemma rops_ok_take: "rops_ok P V d xs \<Longrightarrow> rops_ok P V d (take i xs)"
  by (metis append_take_drop_id rops_ok_append)

lemma match_run_no_panic:
  assumes "NewPattern version ops pool verb opts = Inr p"
  shows "match_run p cs \<noteq> Inl MatchPanic"
proof -
  let ?st = "\<lparr>m_pos = 0, m_stack = [], m_captured = replicate (length (pt_vars p)) []\<rparr>"
  have "runs_ok (length (m_captured ?st)) (depth (int (length (m_stack ?st))) (pt_ops p))
      (sum_fold (match_step p cs) ?st (pt_ops p))"
    using NewPattern_ok [OF assms] by (intro match_fold_ok) simp_all
  then show ?thesis
    by (auto simp: match_run_def runs_ok_def sum_bind_eq_Inl split: if_splits sum.splits)
qed

text \<open>Printing keeps the captured item on the stack, so its stack is never shallower.\<close>

lemma print_fold_ok:
  assumes "rops_ok (length (pt_pool p)) (length (pt_vars p)) d xs" and "d \<le> int (length stack)"
  shows "sum_fold (print_step p) stack xs \<noteq> Inl MatchPanic"
  using assms
proof (induction xs arbitrary: d stack)
  case Nil
  then show ?case by simp
next
  case (Cons x xs)
  then have x: "rop_ok (length (pt_pool p)) (length (pt_vars p)) d x" by simp
  have "\<exists>stack'. print_step p stack x = Inr stack' \<and> d + rop_delta x \<le> int (length stack')"
    using x Cons.prems(2)
    by (auto simp: print_step_def rop_ok_def rop_delta_def Let_def opcode_defs)
  then obtain stack' where "print_step p stack x = Inr stack'" "d + rop_delta x \<le> int (length stack')"
    by blast
  then show ?case
    using Cons by auto
qed

section \<open>Compilation, linked to the pattern NewPattern builds\<close>

text \<open>
  \<open>encoded pool ops codes\<close>: the integer program \<open>codes\<close> is the list of raw operations \<open>ops\<close>,
  every string operand replaced by its position in \<open>pool\<close>.
\<close>

definition op_good :: "op \<Rightarrow> bool" where
  "op_good x \<longleftrightarrow>
     op_code x \<in> {OpPush, OpPushM, OpConcatN} \<and> op_str x = []
     \<or> op_code x \<in> {OpLitPush, OpCapture} \<and> op_str x \<noteq> []"

definition op_encoded :: "string list \<Rightarrow> op \<Rightarrow> int \<Rightarrow> int \<Rightarrow> bool" where
  "op_encoded pool x code d \<longleftrightarrow>
     code = op_code x \<and>
     (if op_str x = [] then d = op_operand x
      else 0 \<le> d \<and> d < int (length pool) \<and> pool ! nat d = op_str x)"

fun encoded :: "string list \<Rightarrow> op list \<Rightarrow> int list \<Rightarrow> bool" where
  "encoded pool [] codes = (codes = [])"
| "encoded pool (x # xs) (code # d # codes) = (op_encoded pool x code d \<and> encoded pool xs codes)"
| "encoded pool (x # xs) _ = False"

lemma encoded_snoc:
  "encoded pool xs codes \<Longrightarrow> op_encoded pool x code d \<Longrightarrow> encoded pool (xs @ [x]) (codes @ [code, d])"
  by (induction pool xs codes rule: encoded.induct) auto

lemma encoded_even: "encoded pool xs codes \<Longrightarrow> length codes = 2 * length xs"
  by (induction pool xs codes rule: encoded.induct) auto

lemma encoded_mono: "encoded pool xs codes \<Longrightarrow> encoded (pool @ ext) xs codes"
  by (induction pool xs codes rule: encoded.induct)
     (auto simp: op_encoded_def nth_append split: if_splits)

definition consts_ok :: "compile_state \<Rightarrow> bool" where
  "consts_ok st \<longleftrightarrow>
     (\<forall>k i. map_of (cs_consts st) k = Some i \<longrightarrow>
        0 \<le> i \<and> i < int (length (cs_pool st)) \<and> cs_pool st ! nat i = k)"

definition cap_names :: "op list \<Rightarrow> string list" where
  "cap_names ops = map op_str (filter (\<lambda>x. op_code x = OpCapture) ops)"

lemma cap_names_simps [simp]:
  "cap_names [] = []"
  "cap_names (x # xs) = (if op_code x = OpCapture then op_str x # cap_names xs else cap_names xs)"
  "cap_names (xs @ ys) = cap_names xs @ cap_names ys"
  by (simp_all add: cap_names_def)

definition compile_inv :: "op list \<Rightarrow> compile_state \<Rightarrow> bool" where
  "compile_inv ops st \<longleftrightarrow>
     consts_ok st \<and> encoded (cs_pool st) ops (cs_ops st) \<and> cs_fields st = cap_names ops"

lemma compile_op_inv:
  assumes inv: "compile_inv ops st"
  shows "compile_inv (ops @ [x]) (compile_op st x)"
proof -
  let ?fields = "if op_code x = OpCapture then cs_fields st @ [op_str x] else cs_fields st"
  from inv have cok: "consts_ok st" and enc: "encoded (cs_pool st) ops (cs_ops st)"
    by (auto simp: compile_inv_def)
  have fields: "?fields = cap_names (ops @ [x])"
    using inv by (auto simp: compile_inv_def)
  show ?thesis
  proof (cases "op_str x = []")
    case True
    then show ?thesis
      using cok enc fields encoded_snoc [OF enc, of x "op_code x" "op_operand x"]
      by (auto simp: compile_inv_def compile_op_def Let_def consts_ok_def op_encoded_def)
  next
    case False
    show ?thesis
    proof (cases "map_of (cs_consts st) (op_str x)")
      case (Some i)
      then have "op_encoded (cs_pool st) x (op_code x) i"
        using cok False by (auto simp: consts_ok_def op_encoded_def)
      from encoded_snoc [OF enc this] show ?thesis
        using cok False Some fields
        by (auto simp: compile_inv_def compile_op_def Let_def consts_ok_def)
    next
      case None
      let ?pool = "cs_pool st @ [op_str x]"
      have "op_encoded ?pool x (op_code x) (int (length (cs_pool st)))"
        using False by (auto simp: op_encoded_def)
      from encoded_snoc [OF encoded_mono [OF enc] this]
      have "encoded ?pool (ops @ [x]) (cs_ops st @ [op_code x, int (length (cs_pool st))])" .
      then show ?thesis
        using cok False None fields
        by (auto simp: compile_inv_def compile_op_def Let_def consts_ok_def nth_append
            split: if_splits) (fastforce)+
    qed
  qed
qed

lemma compile_fold_inv: "compile_inv ops st \<Longrightarrow> compile_inv (ops @ xs) (foldl compile_op st xs)"
proof (induction xs arbitrary: ops st)
  case Nil
  then show ?case by simp
next
  case (Cons x xs)
  then show ?case
    using compile_op_inv Cons.IH [of "ops @ [x]"] by fastforce
qed

definition raw_ops :: "template \<Rightarrow> op list" where
  "raw_ops t = concat (map seg_compile (t_segments t))"

lemma template_Compile_encoded:
  fixes t :: template
  defines "c \<equiv> template_Compile t"
  shows "encoded (Pool c) (raw_ops t) (OpCodes c)"
    and "Fields c = cap_names (raw_ops t)"
    and "Version c = 1" and "Verb c = t_verb t"
proof -
  let ?st0 = "\<lparr>cs_ops = [], cs_pool = [], cs_fields = [], cs_consts = []\<rparr>"
  have "compile_inv [] ?st0"
    by (simp add: compile_inv_def consts_ok_def)
  from compile_fold_inv [OF this, of "raw_ops t"]
  have "compile_inv (raw_ops t) (foldl compile_op ?st0 (raw_ops t))" by simp
  then show "encoded (Pool c) (raw_ops t) (OpCodes c)" and "Fields c = cap_names (raw_ops t)"
    and "Version c = 1" and "Verb c = t_verb t"
    by (simp_all add: c_def template_Compile_def raw_ops_def compile_inv_def Let_def opcodeVersion_def)
qed

lemma path_neq_Nil_seg: "seg_wf (Variable path segs) \<Longrightarrow> path \<noteq> []"
  by (simp add: path_ok_neq_Nil)

lemma seg_compile_good: "seg_wf s \<Longrightarrow> list_all op_good (seg_compile s)"
proof (induction s)
  case (Variable path segs)
  then have "path \<noteq> []" by (simp add: path_ok_neq_Nil)
  then show ?case using Variable
    by (auto simp: list_all_iff op_good_def)
qed (auto simp: op_good_def)

lemma raw_ops_good: "segs_wf (t_segments t) \<Longrightarrow> list_all op_good (raw_ops t)"
  using seg_compile_good by (fastforce simp: raw_ops_def segs_wf_def list_all_iff)

section \<open>Properties\<close>

text \<open>
  C31.  No pattern that \<open>NewPattern\<close> accepts, from whatever opcodes and pool, can make \<open>Match\<close> or
  \<open>String\<close> index out of range: the static check covers every slice access of the stack machine.
\<close>

theorem Match_never_panics:
  assumes "NewPattern version ops pool verb opts = Inr p"
  shows "Match p components v \<noteq> Inl MatchPanic \<and> pattern_String p \<noteq> Inl MatchPanic"
proof
  show "Match p components v \<noteq> Inl MatchPanic"
    using match_run_no_panic [OF assms] by (auto simp: Match_def)
  show "pattern_String p \<noteq> Inl MatchPanic"
    using print_fold_ok [OF NewPattern_ok(1) [OF assms], of "[]"]
    by (auto simp: pattern_String_def sum_bind_eq_Inl Let_def split: if_splits)
qed

theorem Match_never_panics_witness:
  "Match \<lparr>pt_verb = [], pt_ops = [\<lparr>r_code = 1, r_operand = 0\<rparr>, \<lparr>r_code = 4, r_operand = 1\<rparr>,
           \<lparr>r_code = 5, r_operand = 0\<rparr>], pt_pool = [''x''], pt_vars = [''x''], pt_stacksize = 1,
         pt_tailLen = 0, pt_assumeColonVerb = True\<rparr> [''a'', ''b''] [] \<noteq> Inl MatchPanic"
proof -
  have "NewPattern 1 [1, 0, 4, 1, 5, 0] [''x''] [] [] =
    Inr \<lparr>pt_verb = [], pt_ops = [\<lparr>r_code = 1, r_operand = 0\<rparr>, \<lparr>r_code = 4, r_operand = 1\<rparr>,
           \<lparr>r_code = 5, r_operand = 0\<rparr>], pt_pool = [''x''], pt_vars = [''x''], pt_stacksize = 1,
         pt_tailLen = 0, pt_assumeColonVerb = True\<rparr>"
    by code_simp
  from Match_never_panics [OF this] show ?thesis by blast
qed

text \<open>
  The stack of \<open>Match\<close> never outgrows the capacity it is allocated with: after any number
  \<open>i\<close> of instructions its depth is at most the \<open>stacksize\<close> that \<open>NewPattern\<close> computed.
\<close>

lemma Match_stack_bounded:
  assumes np: "NewPattern version ops pool verb opts = Inr p"
    and run: "sum_fold (match_step p components)
      \<lparr>m_pos = 0, m_stack = [], m_captured = replicate (length (pt_vars p)) []\<rparr>
      (take i (pt_ops p)) = Inr st"
  shows "int (length (m_stack st)) \<le> pt_stacksize p"
proof -
  let ?st = "\<lparr>m_pos = 0, m_stack = [], m_captured = replicate (length (pt_vars p)) []\<rparr>"
  have "runs_ok (length (m_captured ?st)) (depth (int (length (m_stack ?st))) (take i (pt_ops p)))
      (sum_fold (match_step p components) ?st (take i (pt_ops p)))"
    using rops_ok_take [OF NewPattern_ok(1) [OF np]] NewPattern_ok(2) [OF np]
    by (intro match_fold_ok) simp_all
  then have "int (length (m_stack st)) = depth 0 (take i (pt_ops p))"
    using run by (simp add: runs_ok_def)
  also have "\<dots> = depth 0 (take (min i (length (pt_ops p))) (pt_ops p))"
    by (simp add: min_def)
  also have "\<dots> \<le> pt_stacksize p"
    by (rule NewPattern_ok(3) [OF np]) simp
  finally show ?thesis .
qed

end
