(* ===== verification/Path_Match.thy ===== *)
theory Path_Match
  imports Path_Pattern
begin

text \<open>
  Functional correctness of path matching.  \<open>segs_match\<close> says declaratively which component
  lists a template describes and what it binds; the theorems show that compiling the
  template, checking it with \<open>NewPattern\<close> and running \<open>Match\<close> decides exactly that relation,
  and that the pattern prints as the template it came from.

  The proof goes through two intermediate machines over the compiler's raw operations: a
  checker \<open>raw_step\<close> that \<open>NewPattern\<close> refines, and a machine \<open>vm_step\<close> in which the deep
  wildcard may take any number of components, which the template relation describes directly.
\<close>

section \<open>The specification\<close>

inductive plain_match :: "segment \<Rightarrow> string list \<Rightarrow> string \<Rightarrow> bool" where
  pm_wildcard: "plain_match Wildcard [c] c"
| pm_deep: "plain_match DeepWildcard cs (go_join ''/'' cs)"
| pm_literal: "plain_match (Literal l) [l] l"

inductive plains_match :: "segment list \<Rightarrow> string list \<Rightarrow> string list \<Rightarrow> bool" where
  pms_Nil: "plains_match [] [] []"
| pms_Cons: "plain_match s cs v \<Longrightarrow> plains_match ss ds vs \<Longrightarrow> plains_match (s # ss) (cs @ ds) (v # vs)"

inductive segs_match :: "segment list \<Rightarrow> string list \<Rightarrow> (string \<times> string) list \<Rightarrow> bool" where
  sm_Nil: "segs_match [] [] []"
| sm_plain: "plain_match s cs v \<Longrightarrow> segs_match ss ds bs \<Longrightarrow> segs_match (s # ss) (cs @ ds) bs"
| sm_var: "plains_match segs cs vs \<Longrightarrow> segs_match ss ds bs \<Longrightarrow>
     segs_match (Variable path segs # ss) (cs @ ds) ((path, go_join ''/'' vs) # bs)"

inductive_cases plain_matchE: "plain_match s cs v"
inductive_simps plains_match_Nil [simp]: "plains_match [] cs vs"
inductive_cases plains_match_ConsE: "plains_match (s # ss) cs vs"

text \<open>Later bindings of a variable overwrite earlier ones.\<close>

definition bind_all :: "(string \<times> string) list \<Rightarrow> (string, string) go_map" where
  "bind_all bs = foldl (\<lambda>m (k, v). AList.update k v m) [] bs"

text \<open>Templates without variables inside variables, and the number of deep wildcards.\<close>

fun is_plain :: "segment \<Rightarrow> bool" where
  "is_plain (Variable path segs) = False"
| "is_plain _ = True"

fun seg_flat :: "segment \<Rightarrow> bool" where
  "seg_flat (Variable path segs) = list_all is_plain segs"
| "seg_flat _ = True"

fun seg_deeps :: "segment \<Rightarrow> nat" where
  "seg_deeps DeepWildcard = 1"
| "seg_deeps (Variable path segs) = sum_list (map seg_deeps segs)"
| "seg_deeps _ = 0"

definition deeps :: "segment list \<Rightarrow> nat" where
  "deeps segs = sum_list (map seg_deeps segs)"

section \<open>The checker over raw operations\<close>

type_synonym chk = "int \<times> bool \<times> int"

definition chk_of :: "np_state \<Rightarrow> chk" where
  "chk_of st = (np_stack st, np_pushMSeen st, np_tailLen st)"

fun raw_step :: "op \<Rightarrow> chk \<Rightarrow> chk option" where
  "raw_step x (d, seen, tail) =
     (if op_code x = OpPush \<or> op_code x = OpLitPush
        then Some (d + 1, seen, if seen then tail + 1 else tail)
      else if op_code x = OpPushM
        then if seen then None else Some (d + 1, True, tail)
      else if op_code x = OpConcatN
        then if 0 < op_operand x \<and> op_operand x \<le> d then Some (d - op_operand x + 1, seen, tail) else None
      else if 0 < d then Some (d - 1, seen, tail) else None)"

fun raw_run :: "op list \<Rightarrow> chk \<Rightarrow> chk option" where
  "raw_run [] c = Some c"
| "raw_run (x # xs) c = Option.bind (raw_step x c) (raw_run xs)"

lemma raw_run_append: "raw_run (xs @ ys) c = Option.bind (raw_run xs c) (raw_run ys)"
  by (induction xs arbitrary: c) (auto split: Option.bind_splits)

text \<open>A linked operation: its runtime form, with captures numbered from \<open>k\<close>.\<close>

definition op_linked :: "string list \<Rightarrow> nat \<Rightarrow> op \<Rightarrow> rop \<Rightarrow> bool" where
  "op_linked pool k x r \<longleftrightarrow>
     r_code r = op_code x \<and>
     (op_code x = OpLitPush \<longrightarrow>
        0 \<le> r_operand r \<and> r_operand r < int (length pool) \<and> pool ! nat (r_operand r) = op_str x) \<and>
     (op_code x = OpConcatN \<longrightarrow> r_operand r = op_operand x) \<and>
     (op_code x = OpCapture \<longrightarrow> r_operand r = int k)"

definition next_k :: "nat \<Rightarrow> op \<Rightarrow> nat" where
  "next_k k x = (if op_code x = OpCapture then Suc k else k)"

fun ops_linked :: "string list \<Rightarrow> nat \<Rightarrow> op list \<Rightarrow> rop list \<Rightarrow> bool" where
  "ops_linked pool k [] rs = (rs = [])"
| "ops_linked pool k (x # xs) (r # rs) = (op_linked pool k x r \<and> ops_linked pool (next_k k x) xs rs)"
| "ops_linked pool k (x # xs) [] = False"

definition np_links :: "string list \<Rightarrow> np_state \<Rightarrow> op list \<Rightarrow> np_state \<Rightarrow> bool" where
  "np_links pool st xs st' \<longleftrightarrow>
     np_vars st' = np_vars st @ cap_names xs \<and>
     (\<exists>rs. np_typedOps st' = np_typedOps st @ rs \<and> ops_linked pool (length (np_vars st)) xs rs)"

lemma np_links_finish:
  assumes "np_typedOps st1 = np_typedOps st"
    and "np_vars st1 = np_vars st @ cap_names [x]"
    and "op_linked pool (length (np_vars st)) x r"
  shows "np_links pool st [x] (np_finish st1 r)"
  using assms by (auto simp: np_links_def np_finish_def)

lemma chk_of_finish: "chk_of (np_finish st r) = (np_stack st, np_pushMSeen st, np_tailLen st)"
  by (simp add: chk_of_def np_finish_def)

lemma np_step_raw:
  assumes good: "op_good x" and enc: "op_encoded pool x code d"
  shows "case raw_step x (chk_of st) of
      None \<Rightarrow> np_step pool st code d = Inl ErrInvalidPattern
    | Some c \<Rightarrow> \<exists>st'. np_step pool st code d = Inr st' \<and> chk_of st' = c \<and> np_links pool st [x] st'"
proof -
  have code: "code = op_code x" using enc by (simp add: op_encoded_def)
  let ?r = "\<lparr>r_code = code, r_operand = d\<rparr>"
  let ?push = "st\<lparr>np_tailLen := (if np_pushMSeen st then np_tailLen st + 1 else np_tailLen st),
                  np_stack := np_stack st + 1\<rparr>"
  let ?pushm = "st\<lparr>np_pushMSeen := True, np_stack := np_stack st + 1\<rparr>"
  let ?concat = "st\<lparr>np_stack := np_stack st - d + 1\<rparr>"
  let ?capture = "st\<lparr>np_vars := np_vars st @ [pool ! nat d], np_stack := np_stack st - 1\<rparr>"
  let ?rc = "?r\<lparr>r_operand := int (length (np_vars st))\<rparr>"
  consider "op_code x = OpPush" | "op_code x = OpPushM" | "op_code x = OpLitPush"
    | "op_code x = OpConcatN" | "op_code x = OpCapture"
    using good by (auto simp: op_good_def)
  then show ?thesis
  proof cases
    case 1
    then have "np_step pool st code d = Inr (np_finish ?push ?r)"
      using code by (simp add: np_step_def opcode_defs)
    moreover have "np_links pool st [x] (np_finish ?push ?r)"
      by (rule np_links_finish) (use 1 code in \<open>simp_all add: op_linked_def opcode_defs\<close>)
    ultimately show ?thesis using 1 by (simp add: chk_of_finish chk_of_def [of st] opcode_defs)
  next
    case 2
    have "np_links pool st [x] (np_finish ?pushm ?r)"
      by (rule np_links_finish) (use 2 code in \<open>simp_all add: op_linked_def opcode_defs\<close>)
    then show ?thesis
      using 2 code by (simp add: np_step_def opcode_defs chk_of_finish chk_of_def [of st])
  next
    case 3
    then have d: "0 \<le> d" "d < int (length pool)" "pool ! nat d = op_str x"
      using good enc by (auto simp: op_good_def op_encoded_def opcode_defs)
    then have "np_step pool st code d = Inr (np_finish ?push ?r)"
      using code 3 by (simp add: np_step_def opcode_defs Let_def)
    moreover have "np_links pool st [x] (np_finish ?push ?r)"
      by (rule np_links_finish) (use 3 code d in \<open>simp_all add: op_linked_def opcode_defs\<close>)
    ultimately show ?thesis using 3 by (simp add: chk_of_finish chk_of_def [of st] opcode_defs)
  next
    case 4
    then have d: "d = op_operand x"
      using good enc by (auto simp: op_good_def op_encoded_def opcode_defs)
    have "np_links pool st [x] (np_finish ?concat ?r)"
      by (rule np_links_finish) (use 4 code d in \<open>simp_all add: op_linked_def opcode_defs\<close>)
    then show ?thesis
      using 4 code d by (simp add: np_step_def opcode_defs chk_of_finish chk_of_def [of st])
  next
    case 5
    then have d: "0 \<le> d" "d < int (length pool)" "pool ! nat d = op_str x"
      using good enc by (auto simp: op_good_def op_encoded_def opcode_defs)
    have "np_links pool st [x] (np_finish ?capture ?rc)"
      by (rule np_links_finish) (use 5 code d in \<open>simp_all add: op_linked_def opcode_defs\<close>)
    then show ?thesis
      using 5 code d by (simp add: np_step_def opcode_defs chk_of_finish Let_def chk_of_def [of st])
  qed
qed


lemma np_links_trans:
  assumes a: "np_links pool st xs st1" and b: "np_links pool st1 ys st2"
  shows "np_links pool st (xs @ ys) st2"
proof -
  have link: "ops_linked pool k xs rs \<Longrightarrow>
      ops_linked pool (k + length (cap_names xs)) ys ss \<Longrightarrow> ops_linked pool k (xs @ ys) (rs @ ss)"
    for k rs ss
    by (induction pool k xs rs rule: ops_linked.induct) (auto simp: next_k_def split: if_splits)
  show ?thesis using a b link by (auto simp: np_links_def)
qed

lemma np_loop_raw:
  assumes "list_all op_good xs" and "encoded pool xs codes"
  shows "case raw_run xs (chk_of st) of
      None \<Rightarrow> np_loop pool st codes = Inl ErrInvalidPattern
    | Some c \<Rightarrow> \<exists>st'. np_loop pool st codes = Inr st' \<and> chk_of st' = c \<and> np_links pool st xs st'"
  using assms
proof (induction xs arbitrary: st codes)
  case Nil
  then show ?case by (simp add: np_links_def)
next
  case (Cons x xs)
  then obtain code d codes' where codes: "codes = code # d # codes'"
    and enc: "op_encoded pool x code d" "encoded pool xs codes'"
    by (cases "(pool, x # xs, codes)" rule: encoded.cases) auto
  have good: "op_good x" "list_all op_good xs" using Cons.prems by auto
  note step = np_step_raw [OF good(1) enc(1), of st]
  show ?case
  proof (cases "raw_step x (chk_of st)")
    case None
    then show ?thesis using step codes by simp
  next
    case (Some c)
    then obtain st1 where st1: "np_step pool st code d = Inr st1" "chk_of st1 = c"
      "np_links pool st [x] st1"
      using step by auto
    from Cons.IH [OF good(2) enc(2), of st1] show ?thesis
      using Some st1 codes np_links_trans [OF st1(3)]
      by (auto split: option.splits)
  qed
qed

lemma NewPattern_raw:
  assumes "list_all op_good xs" and "encoded pool xs codes"
  shows "case raw_run xs (0, False, 0) of
      None \<Rightarrow> NewPattern 1 codes pool verb opts = Inl ErrInvalidPattern
    | Some (d, seen, tail) \<Rightarrow>
        \<exists>p. NewPattern 1 codes pool verb opts = Inr p \<and> pt_tailLen p = tail \<and> pt_pool p = pool \<and>
          pt_verb p = verb \<and> pt_vars p = cap_names xs \<and> ops_linked pool 0 xs (pt_ops p)"
proof -
  have "chk_of np_init = (0, False, 0)" by (simp add: chk_of_def np_init_def)
  then show ?thesis
    using np_loop_raw [OF assms, of np_init] encoded_even [OF assms(2)]
    by (auto simp: NewPattern_def Let_def chk_of_def np_links_def np_init_def split: option.splits)
qed

section \<open>The machine with a free choice for the deep wildcard\<close>

type_synonym cfg = "string list \<times> string list \<times> (string \<times> string) list"

inductive vm_step :: "op \<Rightarrow> cfg \<Rightarrow> cfg \<Rightarrow> bool" where
  vm_push: "op_code x = OpPush \<Longrightarrow> vm_step x (c # cs, stk, b) (cs, stk @ [c], b)"
| vm_lit: "op_code x = OpLitPush \<Longrightarrow> c = op_str x \<Longrightarrow> vm_step x (c # cs, stk, b) (cs, stk @ [c], b)"
| vm_pushm: "op_code x = OpPushM \<Longrightarrow> vm_step x (ds @ cs, stk, b) (cs, stk @ [go_join ''/'' ds], b)"
| vm_concat: "op_code x = OpConcatN \<Longrightarrow> op_operand x = int n \<Longrightarrow> length ys = n \<Longrightarrow>
     vm_step x (cs, stk @ ys, b) (cs, stk @ [go_join ''/'' ys], b)"
| vm_capture: "op_code x = OpCapture \<Longrightarrow>
     vm_step x (cs, stk @ [v], b) (cs, stk, b @ [(op_str x, v)])"

inductive vm_run :: "op list \<Rightarrow> cfg \<Rightarrow> cfg \<Rightarrow> bool" where
  vm_Nil: "vm_run [] c c"
| vm_Cons: "vm_step x c c' \<Longrightarrow> vm_run xs c' c'' \<Longrightarrow> vm_run (x # xs) c c''"

lemma vm_run_Nil [simp]: "vm_run [] c c' \<longleftrightarrow> c = c'"
  by (auto elim: vm_run.cases intro: vm_Nil)

lemma vm_run_Cons: "vm_run (x # xs) c c'' \<longleftrightarrow> (\<exists>c'. vm_step x c c' \<and> vm_run xs c' c'')"
  by (blast elim: vm_run.cases intro: vm_Cons)

lemma vm_run_append: "vm_run (xs @ ys) c c'' \<longleftrightarrow> (\<exists>c'. vm_run xs c c' \<and> vm_run ys c' c'')"
proof (induction xs arbitrary: c)
  case Nil
  then show ?case by simp
next
  case (Cons x xs)
  have "vm_run ((x # xs) @ ys) c c'' \<longleftrightarrow> (\<exists>c1. vm_step x c c1 \<and> vm_run (xs @ ys) c1 c'')"
    unfolding append_Cons by (rule vm_run_Cons)
  then show ?case unfolding Cons.IH vm_run_Cons by blast
qed

lemma vm_run_single: "vm_run [x] c c' \<longleftrightarrow> vm_step x c c'"
  unfolding vm_run_Cons vm_run_Nil by blast

lemma vm_plain:
  assumes "is_plain s"
  shows "vm_run (seg_compile s) (inp, stk, b) c' \<longleftrightarrow>
    (\<exists>cs rest v. inp = cs @ rest \<and> plain_match s cs v \<and> c' = (rest, stk @ [v], b))"
proof (cases s)
  case Wildcard
  then show ?thesis
    unfolding Wildcard seg_compile.simps vm_run_single
    by (auto simp: vm_step.simps plain_match.simps opcode_defs)
next
  case DeepWildcard
  then show ?thesis
    unfolding DeepWildcard seg_compile.simps vm_run_single
    by (auto simp: vm_step.simps plain_match.simps opcode_defs)
next
  case (Literal l)
  then show ?thesis
    unfolding Literal seg_compile.simps vm_run_single
    by (auto simp: vm_step.simps plain_match.simps opcode_defs)
next
  case (Variable path segs)
  then show ?thesis using assms by simp
qed

lemma vm_plains:
  assumes "list_all is_plain segs"
  shows "vm_run (concat (map seg_compile segs)) (inp, stk, b) c' \<longleftrightarrow>
    (\<exists>cs rest vs. inp = cs @ rest \<and> plains_match segs cs vs \<and> c' = (rest, stk @ vs, b))"
  using assms
proof (induction segs arbitrary: inp stk)
  case Nil
  then show ?case by auto
next
  case (Cons s ss)
  have s: "is_plain s" and ss: "list_all is_plain ss" using Cons.prems by auto
  have "vm_run (concat (map seg_compile (s # ss))) (inp, stk, b) c' \<longleftrightarrow>
    (\<exists>cs rest1 v. inp = cs @ rest1 \<and> plain_match s cs v \<and>
       vm_run (concat (map seg_compile ss)) (rest1, stk @ [v], b) c')"
    unfolding list.map concat.simps vm_run_append vm_plain [OF s] by blast
  also have "\<dots> \<longleftrightarrow>
    (\<exists>cs ds rest v vs. inp = cs @ ds @ rest \<and> plain_match s cs v \<and> plains_match ss ds vs \<and>
       c' = (rest, stk @ v # vs, b))"
    unfolding Cons.IH [OF ss] append.assoc append_Cons append_Nil by blast
  also have "\<dots> \<longleftrightarrow>
    (\<exists>cs rest vs. inp = cs @ rest \<and> plains_match (s # ss) cs vs \<and> c' = (rest, stk @ vs, b))"
    (is "?A \<longleftrightarrow> ?B")
  proof
    assume ?A
    then obtain cs ds rest v vs where "inp = (cs @ ds) @ rest" "plain_match s cs v"
      "plains_match ss ds vs" "c' = (rest, stk @ v # vs, b)"
      by auto
    then show ?B using pms_Cons by blast
  next
    assume ?B
    then obtain xs rest ws where xs: "inp = xs @ rest" "plains_match (s # ss) xs ws"
      "c' = (rest, stk @ ws, b)"
      by blast
    from xs(2) obtain cs v ds vs where "xs = cs @ ds" "ws = v # vs" "plain_match s cs v"
      "plains_match ss ds vs"
      by (rule plains_match_ConsE)
    with xs show ?A by (intro exI conjI) auto
  qed
  finally show ?case .
qed

lemma plains_match_length: "plains_match segs cs vs \<Longrightarrow> length vs = length segs"
  by (induction rule: plains_match.induct) auto

lemma vm_variable:
  assumes "list_all is_plain segs"
  shows "vm_run (seg_compile (Variable path segs)) (inp, stk, b) c' \<longleftrightarrow>
    (\<exists>cs rest vs. inp = cs @ rest \<and> plains_match segs cs vs \<and>
       c' = (rest, stk, b @ [(path, go_join ''/'' vs)]))"
  (is "?l \<longleftrightarrow> ?r")
proof
  assume ?l
  then obtain cs rest vs c2 where inp: "inp = cs @ rest" "plains_match segs cs vs"
    and c2: "vm_step \<lparr>op_str = [], op_code = OpConcatN, op_operand = int (length segs)\<rparr>
        (rest, stk @ vs, b) c2"
      "vm_step \<lparr>op_str = path, op_code = OpCapture, op_operand = 0\<rparr> c2 c'"
    unfolding seg_compile.simps vm_run_append vm_plains [OF assms] vm_run_Cons vm_run_Nil by blast
  from c2(1) plains_match_length [OF inp(2)] have "c2 = (rest, stk @ [go_join ''/'' vs], b)"
    by (auto simp: vm_step.simps opcode_defs)
  with c2(2) have "c' = (rest, stk, b @ [(path, go_join ''/'' vs)])"
    by (auto simp: vm_step.simps opcode_defs)
  with inp show ?r by blast
next
  assume ?r
  then obtain cs rest vs where inp: "inp = cs @ rest" "plains_match segs cs vs"
    and c': "c' = (rest, stk, b @ [(path, go_join ''/'' vs)])"
    by blast
  have "vm_step \<lparr>op_str = [], op_code = OpConcatN, op_operand = int (length segs)\<rparr>
        (rest, stk @ vs, b) (rest, stk @ [go_join ''/'' vs], b)"
    using plains_match_length [OF inp(2)] by (intro vm_concat) auto
  moreover have "vm_step \<lparr>op_str = path, op_code = OpCapture, op_operand = 0\<rparr>
        (rest, stk @ [go_join ''/'' vs], b) c'"
    unfolding c' using vm_capture [of "\<lparr>op_str = path, op_code = OpCapture, op_operand = 0\<rparr>"] by simp
  ultimately show ?l
    unfolding seg_compile.simps vm_run_append vm_plains [OF assms] vm_run_Cons vm_run_Nil
    using inp by blast
qed

text \<open>The template relation is what the free machine computes.\<close>

lemma vm_segs_sound:
  assumes "list_all seg_flat segs"
    and "vm_run (concat (map seg_compile segs)) (inp, stk, b) (rest, stk', b')"
  shows "\<exists>cs bs. inp = cs @ rest \<and> segs_match segs cs bs \<and> b' = b @ bs"
  using assms
proof (induction segs arbitrary: inp stk b)
  case Nil
  then show ?case using sm_Nil by auto
next
  case (Cons s ss)
  then obtain inp1 stk1 b1 where s: "vm_run (seg_compile s) (inp, stk, b) (inp1, stk1, b1)"
    and ss: "vm_run (concat (map seg_compile ss)) (inp1, stk1, b1) (rest, stk', b')"
    by (auto simp: vm_run_append)
  obtain ds bs where ds: "inp1 = ds @ rest" "segs_match ss ds bs" "b' = b1 @ bs"
    using Cons.IH [OF _ ss] Cons.prems(1) by auto
  show ?case
  proof (cases "is_plain s")
    case True
    then obtain cs v where "inp = cs @ inp1" "plain_match s cs v" "b1 = b"
      using s by (auto simp: vm_plain)
    then show ?thesis using ds sm_plain by fastforce
  next
    case False
    then obtain path segs where var: "s = Variable path segs" by (cases s) auto
    then obtain cs vs where "inp = cs @ inp1" "plains_match segs cs vs"
      "b1 = b @ [(path, go_join ''/'' vs)]"
      using s Cons.prems(1) by (auto simp: vm_variable simp del: seg_compile.simps)
    then show ?thesis using ds var sm_var by fastforce
  qed
qed

lemma plain_match_is_plain: "plain_match s cs v \<Longrightarrow> is_plain s"
  by (induction rule: plain_match.induct) auto

lemma plains_match_is_plain: "plains_match segs cs vs \<Longrightarrow> list_all is_plain segs"
  by (induction rule: plains_match.induct) (auto dest: plain_match_is_plain)

lemma vm_segs_complete:
  assumes "segs_match segs cs bs"
  shows "\<exists>stk'. vm_run (concat (map seg_compile segs)) (cs @ rest, stk, b) (rest, stk', b @ bs)"
  using assms
proof (induction arbitrary: stk b rule: segs_match.induct)
  case sm_Nil
  then show ?case by auto
next
  case (sm_plain s cs v ss ds bs)
  have "vm_run (seg_compile s) (cs @ ds @ rest, stk, b) (ds @ rest, stk @ [v], b)"
    using vm_plain [OF plain_match_is_plain] sm_plain(1) by blast
  moreover obtain stk' where "vm_run (concat (map seg_compile ss)) (ds @ rest, stk @ [v], b) (rest, stk', b @ bs)"
    using sm_plain.IH by blast
  ultimately show ?case
    unfolding list.map concat.simps(2) vm_run_append append.assoc by blast
next
  case (sm_var segs cs vs ss ds bs path)
  have "vm_run (seg_compile (Variable path segs)) (cs @ ds @ rest, stk, b)
      (ds @ rest, stk, b @ [(path, go_join ''/'' vs)])"
    using vm_variable [OF plains_match_is_plain] sm_var(1) by blast
  moreover obtain stk' where "vm_run (concat (map seg_compile ss)) (ds @ rest, stk, b @ [(path, go_join ''/'' vs)])
      (rest, stk', (b @ [(path, go_join ''/'' vs)]) @ bs)"
    using sm_var.IH by blast
  ultimately have "\<exists>stk'. vm_run (concat (map seg_compile (Variable path segs # ss))) (cs @ ds @ rest, stk, b)
      (rest, stk', (b @ [(path, go_join ''/'' vs)]) @ bs)"
    unfolding list.map concat.simps(2) vm_run_append by blast
  then show ?case by simp
qed

section \<open>Flat templates with one deep wildcard pass the checker\<close>

lemma deeps_simps [simp]:
  "deeps [] = 0" "deeps (s # ss) = seg_deeps s + deeps ss"
  by (simp_all add: deeps_def)

lemma deeps_Cons_bound:
  "deeps (s # ss) + of_bool seen \<le> 1 \<Longrightarrow> deeps ss + of_bool (seen \<or> 0 < seg_deeps s) \<le> 1"
  by (auto simp: of_bool_def split: if_splits)

lemma raw_plain_ok:
  assumes "is_plain s" and "seg_deeps s + of_bool seen \<le> 1"
  shows "\<exists>t'. raw_run (seg_compile s) (d, seen, t) = Some (d + 1, seen \<or> 0 < seg_deeps s, t')"
  using assms by (cases s) (auto simp: opcode_defs)

lemma raw_plains_ok:
  assumes "list_all is_plain segs" and "deeps segs + of_bool seen \<le> 1"
  shows "\<exists>t'. raw_run (concat (map seg_compile segs)) (d, seen, t) =
    Some (d + int (length segs), seen \<or> 0 < deeps segs, t')"
  using assms
proof (induction segs arbitrary: d seen t)
  case Nil
  then show ?case by simp
next
  case (Cons s ss)
  obtain t1 where t1: "raw_run (seg_compile s) (d, seen, t) = Some (d + 1, seen \<or> 0 < seg_deeps s, t1)"
    using raw_plain_ok [of s seen d t] Cons.prems by auto
  have "deeps ss + of_bool (seen \<or> 0 < seg_deeps s) \<le> 1"
    using Cons.prems(2) by (rule deeps_Cons_bound)
  then obtain t2 where "raw_run (concat (map seg_compile ss)) (d + 1, seen \<or> 0 < seg_deeps s, t1) =
      Some (d + 1 + int (length ss), (seen \<or> 0 < seg_deeps s) \<or> 0 < deeps ss, t2)"
    using Cons.IH [of "seen \<or> 0 < seg_deeps s" "d + 1" t1] Cons.prems(1) by auto
  then show ?case using t1 by (auto simp: raw_run_append)
qed

lemma raw_seg_ok:
  assumes "seg_wf s" and "seg_flat s" and "seg_deeps s + of_bool seen \<le> 1" and "0 \<le> d"
  shows "\<exists>d' t'. raw_run (seg_compile s) (d, seen, t) = Some (d', seen \<or> 0 < seg_deeps s, t') \<and> 0 \<le> d'"
proof (cases "is_plain s")
  case True
  then show ?thesis using raw_plain_ok [of s seen d t] assms(3,4) by fastforce
next
  case False
  then obtain path segs where var: "s = Variable path segs" by (cases s) auto
  then have segs: "list_all is_plain segs" "deeps segs + of_bool seen \<le> 1" "segs \<noteq> []"
    using assms by (auto simp: deeps_def)
  obtain t1 where "raw_run (concat (map seg_compile segs)) (d, seen, t) =
      Some (d + int (length segs), seen \<or> 0 < deeps segs, t1)"
    using raw_plains_ok [OF segs(1,2), of d t] by blast
  then show ?thesis
    using var segs(3) assms(4)
    by (simp add: raw_run_append deeps_def opcode_defs)
qed

lemma raw_segs_ok:
  assumes "list_all seg_wf segs" and "list_all seg_flat segs" and "deeps segs + of_bool seen \<le> 1"
    and "0 \<le> d"
  shows "\<exists>c. raw_run (concat (map seg_compile segs)) (d, seen, t) = Some c"
  using assms
proof (induction segs arbitrary: d seen t)
  case Nil
  then show ?case by simp
next
  case (Cons s ss)
  obtain d1 t1 where s: "raw_run (seg_compile s) (d, seen, t) = Some (d1, seen \<or> 0 < seg_deeps s, t1)" "0 \<le> d1"
    using raw_seg_ok [of s seen d t] Cons.prems by auto
  have "deeps ss + of_bool (seen \<or> 0 < seg_deeps s) \<le> 1"
    using Cons.prems(3) by (rule deeps_Cons_bound)
  then show ?case
    using Cons.IH [of "seen \<or> 0 < seg_deeps s" d1 t1] Cons.prems s by (auto simp: raw_run_append)
qed

section \<open>Match simulates the free machine\<close>

definition cfg_of :: "string list \<Rightarrow> string list \<Rightarrow> nat \<Rightarrow> mstate \<Rightarrow> cfg" where
  "cfg_of vars cs k st = (drop (m_pos st) cs, m_stack st, zip (take k vars) (take k (m_captured st)))"

definition st_ok :: "string list \<Rightarrow> string list \<Rightarrow> mstate \<Rightarrow> bool" where
  "st_ok vars cs st \<longleftrightarrow> m_pos st \<le> length cs \<and> length (m_captured st) = length vars"

lemma zip_capture:
  assumes "k < length vars" and "length cap = length vars"
  shows "zip (take (Suc k) vars) (take (Suc k) (cap[k := v])) =
    zip (take k vars) (take k cap) @ [(vars ! k, v)]"
  using assms by (simp add: take_Suc_conv_app_nth)

lemma match_step_sound:
  assumes link: "op_linked (pt_pool p) k x r" and good: "op_good x"
    and name: "op_code x = OpCapture \<Longrightarrow> k < length vars \<and> vars ! k = op_str x"
    and ok: "st_ok vars cs st" and tail: "0 \<le> pt_tailLen p"
    and step: "match_step p cs st r = Inr st'"
  shows "vm_step x (cfg_of vars cs k st) (cfg_of vars cs (next_k k x) st') \<and> st_ok vars cs st'"
proof -
  have code: "r_code r = op_code x" using link by (simp add: op_linked_def)
  consider "op_code x = OpPush" | "op_code x = OpPushM" | "op_code x = OpLitPush"
    | "op_code x = OpConcatN" | "op_code x = OpCapture"
    using good by (auto simp: op_good_def)
  then show ?thesis
  proof cases
    case 1
    then have "m_pos st < length cs" "st' = st\<lparr>m_stack := m_stack st @ [cs ! m_pos st], m_pos := Suc (m_pos st)\<rparr>"
      using step code by (auto simp: match_step_def Let_def opcode_defs split: if_splits)
    then show ?thesis
      using 1 ok vm_push [OF 1, of "cs ! m_pos st"]
      by (simp add: cfg_of_def next_k_def st_ok_def opcode_defs Cons_nth_drop_Suc [symmetric])
  next
    case 2
    let ?e = "nat (int (length cs) - pt_tailLen p)"
    have e: "int (m_pos st) + pt_tailLen p \<le> int (length cs)"
      and st': "st' = st\<lparr>m_stack := m_stack st @ [go_join ''/'' (drop (m_pos st) (take ?e cs))], m_pos := ?e\<rparr>"
      using step code 2 by (auto simp: match_step_def Let_def opcode_defs split: if_splits)
    have "drop (m_pos st) (take ?e cs) @ drop ?e cs = drop (m_pos st) cs"
      using e by (metis append_take_drop_id drop_drop drop_take le_add_diff_inverse2 le_nat_iff
          add.commute le_diff_eq of_nat_0_le_iff order_trans)
    then show ?thesis
      using 2 ok tail vm_pushm [OF 2, of "drop (m_pos st) (take ?e cs)" "drop ?e cs"] st'
      by (simp add: cfg_of_def next_k_def st_ok_def opcode_defs)
  next
    case 3
    then have "m_pos st < length cs" "cs ! m_pos st = op_str x"
      "st' = st\<lparr>m_stack := m_stack st @ [cs ! m_pos st], m_pos := Suc (m_pos st)\<rparr>"
      using step code link by (auto simp: match_step_def Let_def opcode_defs op_linked_def split: if_splits)
    then show ?thesis
      using 3 ok vm_lit [OF 3, of "cs ! m_pos st"]
      by (simp add: cfg_of_def next_k_def st_ok_def opcode_defs Cons_nth_drop_Suc [symmetric])
  next
    case 4
    let ?k = "nat (int (length (m_stack st)) - op_operand x)"
    have k: "0 \<le> op_operand x" "op_operand x \<le> int (length (m_stack st))"
      and st': "st' = st\<lparr>m_stack := take ?k (m_stack st) @ [go_join ''/'' (drop ?k (m_stack st))]\<rparr>"
      using step code link 4 by (auto simp: match_step_def Let_def opcode_defs op_linked_def split: if_splits)
    have "vm_step x (drop (m_pos st) cs, take ?k (m_stack st) @ drop ?k (m_stack st), b)
        (drop (m_pos st) cs, take ?k (m_stack st) @ [go_join ''/'' (drop ?k (m_stack st))], b)" for b
      using k by (intro vm_concat [OF 4]) auto
    then show ?thesis
      using 4 ok st' by (simp add: cfg_of_def next_k_def st_ok_def opcode_defs)
  next
    case 5
    then have "m_stack st \<noteq> []" "k < length vars" "vars ! k = op_str x"
      "st' = st\<lparr>m_captured := (m_captured st)[k := last (m_stack st)], m_stack := butlast (m_stack st)\<rparr>"
      using step code link name by (auto simp: match_step_def Let_def opcode_defs op_linked_def split: if_splits)
    then show ?thesis
      using 5 ok vm_capture [OF 5, of _ "butlast (m_stack st)" "last (m_stack st)"]
      by (simp add: cfg_of_def next_k_def st_ok_def zip_capture)
  qed
qed

lemma cap_names_drop:
  assumes "cap_names (x # xs) = drop k vars"
  shows "cap_names xs = drop (next_k k x) vars"
    and "op_code x = OpCapture \<Longrightarrow> k < length vars \<and> vars ! k = op_str x"
proof -
  have "op_code x = OpCapture \<longrightarrow> k < length vars"
    using assms by (auto simp: linorder_not_less [symmetric] intro: ccontr)
  then show "cap_names xs = drop (next_k k x) vars"
    and "op_code x = OpCapture \<Longrightarrow> k < length vars \<and> vars ! k = op_str x"
    using assms by (auto simp: next_k_def Cons_nth_drop_Suc [symmetric] split: if_splits)
qed

lemma match_fold_sound:
  assumes "ops_linked (pt_pool p) k xs rs" and "list_all op_good xs"
    and "cap_names xs = drop k vars" and "st_ok vars cs st" and tail: "0 \<le> pt_tailLen p"
    and "sum_fold (match_step p cs) st rs = Inr st'"
  shows "vm_run xs (cfg_of vars cs k st) (cfg_of vars cs (length vars) st') \<and> st_ok vars cs st'"
  using assms(1-4,6)
proof (induction xs arbitrary: k rs st)
  case Nil
  then show ?case by (auto simp: cfg_of_def st_ok_def)
next
  case (Cons x xs)
  then obtain r rs' where rs: "rs = r # rs'" by (cases rs) auto
  with Cons.prems obtain st1 where st1: "match_step p cs st r = Inr st1"
    "sum_fold (match_step p cs) st1 rs' = Inr st'"
    by (auto simp: sum_bind_eq_Inr)
  note names = cap_names_drop [OF Cons.prems(3)]
  have step: "vm_step x (cfg_of vars cs k st) (cfg_of vars cs (next_k k x) st1) \<and> st_ok vars cs st1"
    using Cons.prems rs st1(1) tail names by (intro match_step_sound) auto
  moreover have "vm_run xs (cfg_of vars cs (next_k k x) st1) (cfg_of vars cs (length vars) st') \<and>
      st_ok vars cs st'"
    using Cons.IH [of "next_k k x" rs' st1] Cons.prems rs st1(2) names(1) step by auto
  ultimately show ?case by (blast intro: vm_Cons)
qed


lemma match_step_complete:
  assumes link: "op_linked (pt_pool p) k x r" and good: "op_good x"
    and name: "op_code x = OpCapture \<Longrightarrow> k < length vars \<and> vars ! k = op_str x"
    and ok: "st_ok vars cs st"
    and tail: "0 \<le> pt_tailLen p"
      "op_code x = OpPushM \<Longrightarrow> int (length (fst c')) = pt_tailLen p"
    and step: "vm_step x (cfg_of vars cs k st) c'"
  shows "\<exists>st'. match_step p cs st r = Inr st' \<and> cfg_of vars cs (next_k k x) st' = c' \<and> st_ok vars cs st'"
proof -
  have code: "r_code r = op_code x" using link by (simp add: op_linked_def)
  consider "op_code x = OpPush" | "op_code x = OpPushM" | "op_code x = OpLitPush"
    | "op_code x = OpConcatN" | "op_code x = OpCapture"
    using good by (auto simp: op_good_def)
  then show ?thesis
  proof cases
    case 1
    obtain c rest where c: "drop (m_pos st) cs = c # rest"
      and c': "c' = (rest, m_stack st @ [c], zip (take k vars) (take k (m_captured st)))"
      using step 1 unfolding cfg_of_def by (auto simp: vm_step.simps opcode_defs)
    then have pos: "m_pos st < length cs" by (metis drop_all linorder_not_less list.distinct(1))
    then have "c = cs ! m_pos st" "rest = drop (Suc (m_pos st)) cs"
      using c by (auto simp: Cons_nth_drop_Suc [symmetric])
    then show ?thesis
      using 1 code pos c' ok
      by (simp add: match_step_def Let_def opcode_defs cfg_of_def next_k_def st_ok_def)
  next
    case 2
    obtain ds rest where ds: "drop (m_pos st) cs = ds @ rest"
      and c': "c' = (rest, m_stack st @ [go_join ''/'' ds], zip (take k vars) (take k (m_captured st)))"
      using step 2 unfolding cfg_of_def by (auto simp: vm_step.simps opcode_defs)
    let ?e = "nat (int (length cs) - pt_tailLen p)"
    have len: "length cs - m_pos st = length ds + length rest" using arg_cong [OF ds, of length] by simp
    have tl: "int (length rest) = pt_tailLen p" using tail(2) [OF 2] c' by simp
    have e: "?e = m_pos st + length ds" "?e \<le> length cs" "int (m_pos st) + pt_tailLen p \<le> int (length cs)"
      using len tl ok by (auto simp: st_ok_def)
    have "drop (m_pos st) (take ?e cs) = ds"
      using ds e(1) by (simp add: drop_take)
    moreover have "drop ?e cs = rest"
      using ds e(1) by (metis add.commute append_eq_conv_conj drop_drop)
    ultimately show ?thesis
      using 2 code c' ok e tl tail(1)
      by (simp add: match_step_def Let_def opcode_defs cfg_of_def next_k_def st_ok_def)
  next
    case 3
    obtain rest where c: "drop (m_pos st) cs = op_str x # rest"
      and c': "c' = (rest, m_stack st @ [op_str x], zip (take k vars) (take k (m_captured st)))"
      using step 3 unfolding cfg_of_def by (auto simp: vm_step.simps opcode_defs)
    then have pos: "m_pos st < length cs" by (metis drop_all linorder_not_less list.distinct(1))
    then have "op_str x = cs ! m_pos st" "rest = drop (Suc (m_pos st)) cs"
      using c by (auto simp: Cons_nth_drop_Suc [symmetric])
    then show ?thesis
      using 3 code pos c' ok link
      by (simp add: match_step_def Let_def opcode_defs cfg_of_def next_k_def st_ok_def op_linked_def)
  next
    case 4
    obtain n stk ys where n: "op_operand x = int n" "length ys = n" and stk: "m_stack st = stk @ ys"
      and c': "c' = (drop (m_pos st) cs, stk @ [go_join ''/'' ys], zip (take k vars) (take k (m_captured st)))"
      using step 4 unfolding cfg_of_def by (auto simp: vm_step.simps opcode_defs)
    then show ?thesis
      using 4 code ok link
      by (simp add: match_step_def Let_def opcode_defs cfg_of_def next_k_def st_ok_def op_linked_def)
  next
    case 5
    obtain stk v where stk: "m_stack st = stk @ [v]"
      and c': "c' = (drop (m_pos st) cs, stk, zip (take k vars) (take k (m_captured st)) @ [(op_str x, v)])"
      using step 5 unfolding cfg_of_def by (auto simp: vm_step.simps opcode_defs)
    have "match_step p cs st r = Inr (st\<lparr>m_captured := (m_captured st)[k := v], m_stack := stk\<rparr>)"
      using 5 code ok link name stk
      by (simp add: match_step_def Let_def opcode_defs st_ok_def op_linked_def)
    moreover have "cfg_of vars cs (next_k k x) (st\<lparr>m_captured := (m_captured st)[k := v], m_stack := stk\<rparr>) = c'"
      using 5 c' name [OF 5] ok zip_capture [of k vars "m_captured st" v]
      by (simp add: cfg_of_def next_k_def st_ok_def)
    ultimately show ?thesis using ok by (simp add: st_ok_def)
  qed
qed

text \<open>After the deep wildcard, the checker's tail length counts what the rest consumes.\<close>

lemma vm_step_consumes:
  assumes "vm_step x c c'" and "op_code x \<noteq> OpPushM" and "raw_step x (d, True, t) = Some (d', seen', t')"
  shows "seen' \<and> int (length (fst c)) = int (length (fst c')) + (t' - t)"
  using assms by (induction rule: vm_step.induct) (auto simp: opcode_defs split: if_splits)

lemma vm_run_consumes:
  assumes "vm_run xs c c'" and "raw_run xs (d, True, t) = Some (d', seen', t')"
  shows "int (length (fst c)) = int (length (fst c')) + (t' - t)"
  using assms
proof (induction arbitrary: d t rule: vm_run.induct)
  case (vm_Nil c)
  then show ?case by simp
next
  case (vm_Cons x c c1 xs c')
  obtain d1 seen1 t1 where x: "raw_step x (d, True, t) = Some (d1, seen1, t1)"
    "raw_run xs (d1, seen1, t1) = Some (d', seen', t')"
    using vm_Cons.prems by (auto simp del: raw_step.simps split: Option.bind_splits)
  have "op_code x \<noteq> OpPushM" using x(1) by (auto simp: opcode_defs)
  then show ?case
    using vm_step_consumes [OF vm_Cons.hyps(1) _ x(1)] vm_Cons.IH [of d1 t1] x(2) by auto
qed

lemma match_fold_complete:
  assumes "vm_run xs (cfg_of vars cs k st) c'" and "fst c' = []"
    and "ops_linked (pt_pool p) k xs rs" and "list_all op_good xs"
    and "cap_names xs = drop k vars" and "st_ok vars cs st" and tail: "0 \<le> pt_tailLen p"
    and "raw_run xs (d, seen, t) = Some (d', seen', pt_tailLen p)" and "seen \<or> t = 0"
  shows "\<exists>st'. sum_fold (match_step p cs) st rs = Inr st' \<and> cfg_of vars cs (length vars) st' = c'"
  using assms(1-6,8,9)
proof (induction xs arbitrary: k rs st d seen t)
  case Nil
  then have "k \<ge> length vars" "length (m_captured st) = length vars" by (auto simp: st_ok_def)
  then show ?case using Nil by (auto simp: cfg_of_def)
next
  case (Cons x xs)
  obtain r rs' where rs: "rs = r # rs'" using Cons.prems(3) by (cases rs) auto
  obtain c1 where c1: "vm_step x (cfg_of vars cs k st) c1" "vm_run xs c1 c'"
    using Cons.prems(1) by (auto simp only: vm_run_Cons)
  obtain d1 seen1 t1 where x: "raw_step x (d, seen, t) = Some (d1, seen1, t1)"
    "raw_run xs (d1, seen1, t1) = Some (d', seen', pt_tailLen p)"
    using Cons.prems(7) by (auto simp del: raw_step.simps split: Option.bind_splits)
  have push: "int (length (fst c1)) = pt_tailLen p" if "op_code x = OpPushM"
  proof -
    have "seen1 \<and> t1 = 0" using x(1) that Cons.prems(8) by (auto simp: opcode_defs split: if_splits)
    then show ?thesis using vm_run_consumes [OF c1(2), of d1 t1] x(2) Cons.prems(2) by simp
  qed
  have seen1: "seen1 \<or> t1 = 0" using x(1) Cons.prems(8) by (auto split: if_splits)
  note names = cap_names_drop [OF Cons.prems(5)]
  obtain st1 where st1: "match_step p cs st r = Inr st1" "cfg_of vars cs (next_k k x) st1 = c1"
    "st_ok vars cs st1"
    using match_step_complete [of p k x r vars cs st c1] Cons.prems rs names(2) tail push c1(1) by auto
  have "\<exists>st'. sum_fold (match_step p cs) st1 rs' = Inr st' \<and> cfg_of vars cs (length vars) st' = c'"
    by (rule Cons.IH [of "next_k k x" st1 rs' d1 seen1 t1])
       (use Cons.prems rs c1 st1 names(1) x(2) seen1 in auto)
  then show ?case using rs st1(1) by simp
qed

section \<open>From templates to bindings\<close>

lemma bind_captured_zip:
  "length vs = length xs \<Longrightarrow>
     bind_captured vs xs b = foldl (\<lambda>m (k, v). AList.update k v m) b (zip vs xs)"
  by (induction vs xs arbitrary: b rule: list_induct2) auto

lemma match_run_vm:
  assumes link: "ops_linked (pt_pool p) 0 xs (pt_ops p)" and good: "list_all op_good xs"
    and vars: "pt_vars p = cap_names xs" and tail: "0 \<le> pt_tailLen p"
    and chk: "raw_run xs (0, False, 0) = Some (d, seen, pt_tailLen p)"
  shows "match_run p cs = Inr b \<longleftrightarrow> (\<exists>stk bs. vm_run xs (cs, [], []) ([], stk, bs) \<and> b = bind_all bs)"
proof -
  let ?st = "\<lparr>m_pos = 0, m_stack = [], m_captured = replicate (length (pt_vars p)) []\<rparr>"
  have cfg: "cfg_of (pt_vars p) cs 0 ?st = (cs, [], [])" by (simp add: cfg_of_def)
  have ok: "st_ok (pt_vars p) cs ?st" by (simp add: st_ok_def)
  have names: "cap_names xs = drop 0 (pt_vars p)" using vars by simp
  show ?thesis
  proof
    assume "match_run p cs = Inr b"
    then obtain st' where st': "sum_fold (match_step p cs) ?st (pt_ops p) = Inr st'"
      "length cs \<le> m_pos st'" "b = bind_captured (pt_vars p) (m_captured st') []"
      by (auto simp: match_run_def sum_bind_eq_Inr split: if_splits)
    from match_fold_sound [OF link good names ok tail st'(1)] st'(2)
    have "vm_run xs (cs, [], []) ([], m_stack st', zip (pt_vars p) (m_captured st'))"
      and "length (m_captured st') = length (pt_vars p)"
      unfolding cfg by (auto simp: cfg_of_def st_ok_def)
    moreover from this(2) have "b = bind_all (zip (pt_vars p) (m_captured st'))"
      using st'(3) by (simp add: bind_captured_zip bind_all_def)
    ultimately show "\<exists>stk bs. vm_run xs (cs, [], []) ([], stk, bs) \<and> b = bind_all bs" by blast
  next
    assume "\<exists>stk bs. vm_run xs (cs, [], []) ([], stk, bs) \<and> b = bind_all bs"
    then obtain stk bs where run: "vm_run xs (cfg_of (pt_vars p) cs 0 ?st) ([], stk, bs)"
      and b: "b = bind_all bs"
      unfolding cfg by blast
    obtain st' where st': "sum_fold (match_step p cs) ?st (pt_ops p) = Inr st'"
      "cfg_of (pt_vars p) cs (length (pt_vars p)) st' = ([], stk, bs)"
      using match_fold_complete [OF run _ link good names ok tail chk] by auto
    have "st_ok (pt_vars p) cs st'"
      using match_fold_sound [OF link good names ok tail st'(1)] by blast
    then show "match_run p cs = Inr b"
      using st' b by (auto simp: match_run_def cfg_of_def st_ok_def bind_captured_zip bind_all_def)
  qed
qed

definition compile_pattern :: "template \<Rightarrow> PatternOpt list \<Rightarrow> pattern_err + pattern" where
  "compile_pattern t opts =
     (let c = template_Compile t in NewPattern (Version c) (OpCodes c) (Pool c) (Verb c) opts)"

lemma compile_pattern_raw:
  assumes "segs_wf (t_segments t)"
  shows "case raw_run (raw_ops t) (0, False, 0) of
      None \<Rightarrow> compile_pattern t opts = Inl ErrInvalidPattern
    | Some (d, seen, tail) \<Rightarrow>
        \<exists>p. compile_pattern t opts = Inr p \<and> pt_tailLen p = tail \<and>
          pt_pool p = Pool (template_Compile t) \<and> pt_verb p = t_verb t \<and>
          pt_vars p = cap_names (raw_ops t) \<and> ops_linked (pt_pool p) 0 (raw_ops t) (pt_ops p)"
  using NewPattern_raw [OF raw_ops_good [OF assms] template_Compile_encoded(1), of "t_verb t" opts]
  unfolding compile_pattern_def Let_def template_Compile_encoded
  by (auto split: option.splits)

lemma compile_pattern_match:
  assumes wf: "segs_wf (t_segments t)" and flat: "list_all seg_flat (t_segments t)"
    and deep: "deeps (t_segments t) \<le> 1"
  shows "\<exists>p. compile_pattern t opts = Inr p \<and> pt_verb p = t_verb t \<and>
    pt_vars p = Fields (template_Compile t) \<and>
    (\<forall>cs b. match_run p cs = Inr b \<longleftrightarrow> (\<exists>bs. segs_match (t_segments t) cs bs \<and> b = bind_all bs))"
proof -
  obtain d seen tail where raw: "raw_run (raw_ops t) (0, False, 0) = Some (d, seen, tail)"
    using raw_segs_ok [of "t_segments t" False 0 0] assms by (auto simp: segs_wf_def raw_ops_def)
  then obtain p where p: "compile_pattern t opts = Inr p" "pt_tailLen p = tail" "pt_verb p = t_verb t"
      "pt_vars p = cap_names (raw_ops t)" "ops_linked (pt_pool p) 0 (raw_ops t) (pt_ops p)"
    using compile_pattern_raw [OF wf, of opts] by auto
  have tail: "0 \<le> pt_tailLen p"
    using p(1) NewPattern_ok(2) unfolding compile_pattern_def Let_def by blast
  have "match_run p cs = Inr b \<longleftrightarrow> (\<exists>bs. segs_match (t_segments t) cs bs \<and> b = bind_all bs)" for cs b
  proof -
    have "match_run p cs = Inr b \<longleftrightarrow>
        (\<exists>stk bs. vm_run (raw_ops t) (cs, [], []) ([], stk, bs) \<and> b = bind_all bs)"
      using match_run_vm [OF p(5) raw_ops_good [OF wf] p(4) tail] raw p(2) by blast
    also have "\<dots> \<longleftrightarrow> (\<exists>bs. segs_match (t_segments t) cs bs \<and> b = bind_all bs)"
      using vm_segs_sound [OF flat] vm_segs_complete [of "t_segments t" cs _ "[]" "[]" "[]"]
      unfolding raw_ops_def by fastforce
    finally show ?thesis .
  qed
  then show ?thesis using p template_Compile_encoded(2) by metis
qed

section \<open>A pattern prints as the template it was compiled from\<close>

lemma ops_linked_append:
  assumes "ops_linked pool k (xs @ ys) rs"
  shows "\<exists>rs1 rs2. rs = rs1 @ rs2 \<and> ops_linked pool k xs rs1 \<and>
    ops_linked pool (k + length (cap_names xs)) ys rs2"
  using assms
proof (induction xs arbitrary: k rs)
  case Nil
  then show ?case by simp
next
  case (Cons x xs)
  then obtain r rs' where rs: "rs = r # rs'" by (cases rs) auto
  with Cons.prems have link: "op_linked pool k x r" "ops_linked pool (next_k k x) (xs @ ys) rs'"
    by auto
  from Cons.IH [OF link(2)] obtain rs1 rs2 where rs': "rs' = rs1 @ rs2"
    "ops_linked pool (next_k k x) xs rs1"
    "ops_linked pool (next_k k x + length (cap_names xs)) ys rs2"
    by blast
  have "next_k k x + length (cap_names xs) = k + length (cap_names (x # xs))"
    by (simp add: next_k_def)
  with rs rs' link(1) have "rs = (r # rs1) @ rs2" "ops_linked pool k (x # xs) (r # rs1)"
    "ops_linked pool (k + length (cap_names (x # xs))) ys rs2"
    by (simp_all only: ops_linked.simps append_Cons)
  then show ?case by blast
qed

lemma ops_linked_one: "ops_linked pool k [x] rs \<longleftrightarrow> (\<exists>r. rs = [r] \<and> op_linked pool k x r)"
  by (cases rs) auto

lemma ops_linked_two:
  "ops_linked pool k [x, y] rs \<longleftrightarrow>
     (\<exists>r1 r2. rs = [r1, r2] \<and> op_linked pool k x r1 \<and> op_linked pool (next_k k x) y r2)"
  by (cases rs) (auto simp: ops_linked_one)

definition vars_at :: "string list \<Rightarrow> nat \<Rightarrow> op list \<Rightarrow> bool" where
  "vars_at vars k xs \<longleftrightarrow> (\<exists>pre suf. vars = pre @ cap_names xs @ suf \<and> length pre = k)"

lemma vars_at_append:
  "vars_at vars k (xs @ ys) \<Longrightarrow> vars_at vars k xs \<and> vars_at vars (k + length (cap_names xs)) ys"
  by (auto simp: vars_at_def) (metis append.assoc length_append)

text \<open>A segment leaves exactly its own printed form on the stack.\<close>

definition prints_seg :: "pattern \<Rightarrow> segment \<Rightarrow> bool" where
  "prints_seg p s \<longleftrightarrow>
     (\<forall>k rs stack. ops_linked (pt_pool p) k (seg_compile s) rs \<longrightarrow> vars_at (pt_vars p) k (seg_compile s) \<longrightarrow>
        sum_fold (print_step p) stack rs = Inr (stack @ [segment_String s]))"

lemma prints_segs:
  assumes "\<forall>s \<in> set segs. prints_seg p s"
    and "ops_linked (pt_pool p) k (concat (map seg_compile segs)) rs"
    and "vars_at (pt_vars p) k (concat (map seg_compile segs))"
  shows "sum_fold (print_step p) stack rs = Inr (stack @ map segment_String segs)"
  using assms
proof (induction segs arbitrary: k rs stack)
  case Nil
  then show ?case by simp
next
  case (Cons s ss)
  then obtain rs1 rs2 where rs: "rs = rs1 @ rs2" "ops_linked (pt_pool p) k (seg_compile s) rs1"
    "ops_linked (pt_pool p) (k + length (cap_names (seg_compile s))) (concat (map seg_compile ss)) rs2"
    using ops_linked_append by (metis concat.simps(2) list.simps(9))
  moreover have "vars_at (pt_vars p) k (seg_compile s)"
    "vars_at (pt_vars p) (k + length (cap_names (seg_compile s))) (concat (map seg_compile ss))"
    using Cons.prems(3) vars_at_append by auto
  ultimately show ?case
    using Cons by (simp add: sum_fold_append prints_seg_def)
qed

lemma prints_seg_wf: "seg_wf s \<Longrightarrow> prints_seg p s"
proof (induction s)
  case Wildcard
  then show ?case
    by (auto simp: prints_seg_def ops_linked_one op_linked_def print_step_def opcode_defs)
next
  case DeepWildcard
  then show ?case
    by (auto simp: prints_seg_def ops_linked_one op_linked_def print_step_def opcode_defs)
next
  case (Literal l)
  then show ?case
    by (auto simp: prints_seg_def ops_linked_one op_linked_def print_step_def opcode_defs)
next
  case (Variable path segs)
  let ?xs = "concat (map seg_compile segs)"
  have segs: "\<forall>s \<in> set segs. prints_seg p s" "segs \<noteq> []"
    using Variable by (auto simp: list_all_iff)
  show ?case
    unfolding prints_seg_def
  proof (intro allI impI)
    fix k rs stack
    assume link: "ops_linked (pt_pool p) k (seg_compile (Variable path segs)) rs"
      and vars: "vars_at (pt_vars p) k (seg_compile (Variable path segs))"
    let ?k = "k + length (cap_names ?xs)"
    from link obtain rs1 rs2 where rs12: "rs = rs1 @ rs2" "ops_linked (pt_pool p) k ?xs rs1"
      "ops_linked (pt_pool p) ?k
        [\<lparr>op_str = [], op_code = OpConcatN, op_operand = int (length segs)\<rparr>,
         \<lparr>op_str = path, op_code = OpCapture, op_operand = 0\<rparr>] rs2"
      using ops_linked_append unfolding seg_compile.simps by blast
    then obtain r1 r2 where rs: "rs = rs1 @ [r1, r2]"
      and r1: "r_code r1 = OpConcatN" "r_operand r1 = int (length segs)"
      and r2: "r_code r2 = OpCapture" "r_operand r2 = int ?k"
      by (auto simp: ops_linked_two op_linked_def next_k_def opcode_defs)
    have vat: "vars_at (pt_vars p) k ?xs" "?k < length (pt_vars p)" "pt_vars p ! ?k = path"
      using vars vars_at_append [of "pt_vars p" k ?xs] by (auto simp: vars_at_def nth_append opcode_defs)
    have "sum_fold (print_step p) stack rs1 = Inr (stack @ map segment_String segs)"
      by (rule prints_segs [OF segs(1) rs12(2) vat(1)])
    then show "sum_fold (print_step p) stack rs = Inr (stack @ [segment_String (Variable path segs)])"
      using rs r1 r2 vat(2,3) segs(2)
      by (simp add: sum_fold_append print_step_def Let_def opcode_defs nat_int_add)
  qed
qed

lemma pattern_String_template:
  assumes wf: "segs_wf (t_segments t)" and "compile_pattern t opts = Inr p"
  shows "pattern_String p = Inr (template_String t)"
proof -
  have p: "pt_verb p = t_verb t" "pt_vars p = cap_names (raw_ops t)"
    "ops_linked (pt_pool p) 0 (raw_ops t) (pt_ops p)"
    using compile_pattern_raw [OF wf, of opts] assms(2) by (auto split: option.splits)
  have "vars_at (pt_vars p) 0 (concat (map seg_compile (t_segments t)))"
    using p(2) by (auto simp: vars_at_def raw_ops_def)
  moreover have "\<forall>s \<in> set (t_segments t). prints_seg p s"
    using wf prints_seg_wf by (auto simp: segs_wf_def list_all_iff)
  ultimately have "sum_fold (print_step p) [] (pt_ops p) = Inr (map segment_String (t_segments t))"
    using prints_segs p(3) unfolding raw_ops_def by fastforce
  then show ?thesis
    using p(1) by (simp add: pattern_String_def template_String_def Let_def)
qed

section \<open>Properties\<close>

text \<open>
  C1.  Matching decides the template: for every template the parser can return that has no
  variable inside a variable and at most one deep wildcard, the compiled program is accepted by
  \<open>NewPattern\<close>, its variables are the template's fields, and \<open>Match\<close> succeeds with bindings \<open>b\<close>
  on components and a verb exactly when the verb is the template's and the segments describe the
  components with those bindings (a later binding of the same variable overwrites an earlier
  one).
\<close>

theorem Match_decides_template:
  assumes "Parse tmpl = Inr t" and "list_all seg_flat (t_segments t)" and "deeps (t_segments t) \<le> 1"
  shows "\<exists>p. compile_pattern t [] = Inr p \<and> pt_vars p = Fields (template_Compile t) \<and>
    (\<forall>components verb b. Match p components verb = Inr b \<longleftrightarrow>
       verb = t_verb t \<and> (\<exists>bs. segs_match (t_segments t) components bs \<and> b = bind_all bs))"
proof -
  have wf: "segs_wf (t_segments t)" using Parse_good [of tmpl] assms(1) by simp
  obtain p where p: "compile_pattern t [] = Inr p" "pt_verb p = t_verb t"
    "pt_vars p = Fields (template_Compile t)"
    "\<And>cs b. match_run p cs = Inr b \<longleftrightarrow> (\<exists>bs. segs_match (t_segments t) cs bs \<and> b = bind_all bs)"
    using compile_pattern_match [OF wf assms(2,3), of "[]"] by blast
  have "pt_assumeColonVerb p"
    using p(1) by (auto simp: compile_pattern_def NewPattern_def Let_def sum_bind_eq_Inr split: if_splits)
  then show ?thesis using p by (auto simp: Match_def)
qed

theorem Match_decides_template_witness:
  "\<exists>p. compile_pattern \<lparr>t_verb = ''get'', t_template = ''/v1/{name=shelves/*/**}/x:get'',
        t_segments = [Literal ''v1'', Variable ''name'' [Literal ''shelves'', Wildcard, DeepWildcard],
          Literal ''x'']\<rparr> [] = Inr p \<and>
     Match p [''v1'', ''shelves'', ''s'', ''b'', ''c'', ''x''] ''get'' = Inr [(''name'', ''shelves/s/b/c'')]"
proof -
  let ?t = "\<lparr>t_verb = ''get'', t_template = ''/v1/{name=shelves/*/**}/x:get'',
        t_segments = [Literal ''v1'', Variable ''name'' [Literal ''shelves'', Wildcard, DeepWildcard],
          Literal ''x'']\<rparr>"
  have parse: "Parse ''/v1/{name=shelves/*/**}/x:get'' = Inr ?t" by code_simp
  have deep: "deeps (t_segments ?t) \<le> 1" by (simp add: deeps_def)
  have flat: "list_all seg_flat (t_segments ?t)" by simp
  obtain p where p: "compile_pattern ?t [] = Inr p"
    "\<And>components verb b. Match p components verb = Inr b \<longleftrightarrow>
       verb = t_verb ?t \<and> (\<exists>bs. segs_match (t_segments ?t) components bs \<and> b = bind_all bs)"
    using Match_decides_template [OF parse flat deep] by blast
  have "plains_match [Literal ''shelves'', Wildcard, DeepWildcard]
      ([''shelves''] @ [''s''] @ [''b'', ''c''] @ []) [''shelves'', ''s'', go_join ''/'' [''b'', ''c'']]"
    by (intro plains_match.intros plain_match.intros)
  then have "segs_match (t_segments ?t)
      ([''v1''] @ ([''shelves''] @ [''s''] @ [''b'', ''c''] @ []) @ [''x''] @ [])
      [(''name'', go_join ''/'' [''shelves'', ''s'', go_join ''/'' [''b'', ''c'']])]"
    unfolding template.select_convs
    by (intro sm_plain [OF pm_literal] sm_var sm_Nil)
  then have "segs_match (t_segments ?t) [''v1'', ''shelves'', ''s'', ''b'', ''c'', ''x'']
      [(''name'', ''shelves/s/b/c'')]"
    by simp
  then have "Match p [''v1'', ''shelves'', ''s'', ''b'', ''c'', ''x''] ''get'' =
      Inr (bind_all [(''name'', ''shelves/s/b/c'')])"
    using p(2) by auto
  then show ?thesis using p(1) by (auto simp: bind_all_def)
qed

text \<open>
  Round trip through the compiler: whenever the program compiled from a parsed template is
  accepted by \<open>NewPattern\<close>, printing the pattern gives exactly the printed template, verb and
  nested variables included.
\<close>

lemma pattern_prints_template:
  assumes "Parse tmpl = Inr t" and "compile_pattern t opts = Inr p"
  shows "pattern_String p = Inr (template_String t)"
  using Parse_good [of tmpl] assms by (auto intro: pattern_String_template)

end
