(* ===== verification/Registry_Util.thy ===== *)
theory Registry_Util
  imports Go_Prelude
begin

text \<open>
  The service records of the registry and the functions that merge and remove them.

  Models \<open>registry/registry.go\<close> (the types \<open>Service\<close>, \<open>Node\<close>, \<open>Endpoint\<close>, \<open>Value\<close>) and
  \<open>common/util/registry/util.go\<close> (\<open>addNodes\<close>, \<open>delNodes\<close>, \<open>CopyService\<close>, \<open>Copy\<close>, \<open>Merge\<close>,
  \<open>Remove\<close>).

  A node or a service is a value here.  The Go functions copy every struct they return, so that
  what the model calls equal is equal but not shared.  The metadata map of
  a node may be nil (\<open>None\<close>), because the selector's filters ask for it; the maps of a service and
  of an endpoint are only ranged over, read and copied, and a nil one is an empty one here.
\<close>

section \<open>Types\<close>

datatype val = Value (v_Name: string) (v_Type: string) (v_Values: "val list")

record endpoint =
  ep_Request :: "val option"
  ep_Response :: "val option"
  ep_Metadata :: "(string, string) go_map"
  ep_Name :: string

record node =
  nd_Metadata :: "(string, string) go_map option"
  nd_Id :: string
  nd_Address :: string
  nd_Port :: int

text \<open>What a loop over the metadata of a node sees: nothing when the map is nil.\<close>

definition nd_md :: "node \<Rightarrow> (string, string) go_map" where
  "nd_md n = (case nd_Metadata n of None \<Rightarrow> [] | Some m \<Rightarrow> m)"

record service =
  sv_Name :: string
  sv_Version :: string
  sv_Metadata :: "(string, string) go_map"
  sv_Endpoints :: "endpoint list"
  sv_Nodes :: "node list"

section \<open>Operations\<close>

text \<open>
  \<open>addNodes\<close>: the new nodes, then every old node whose id is not among the nodes collected so
  far.
\<close>

fun addNodes_loop :: "node list \<Rightarrow> node list \<Rightarrow> node list" where
  "addNodes_loop nodes [] = nodes"
| "addNodes_loop nodes (old # olds) =
     (let exists = list_ex (\<lambda>n. nd_Id old = nd_Id n) nodes
      in addNodes_loop (if exists then nodes else nodes @ [old]) olds)"

definition addNodes :: "node list \<Rightarrow> node list \<Rightarrow> node list" where
  "addNodes old neu = addNodes_loop (map (\<lambda>n. n) neu) old"

fun delNodes :: "node list \<Rightarrow> node list \<Rightarrow> node list" where
  "delNodes [] del = []"
| "delNodes (old # olds) del =
     (let rem = list_ex (\<lambda>n. nd_Id old = nd_Id n) del
      in (if rem then [] else [old]) @ delNodes olds del)"

definition CopyService :: "service \<Rightarrow> service" where
  "CopyService s = \<lparr>sv_Name = sv_Name s, sv_Version = sv_Version s, sv_Metadata = sv_Metadata s,
     sv_Endpoints = map (\<lambda>ep. ep) (sv_Endpoints s), sv_Nodes = map (\<lambda>n. n) (sv_Nodes s)\<rparr>"

definition Copy :: "service list \<Rightarrow> service list" where
  "Copy current = map CopyService current"

text \<open>
  \<open>Merge\<close>: for every new service the inner loop walks the old ones, copying each, until one has
  the new service's version; that one gets the nodes of both, and the loop breaks.
\<close>

fun Merge_inner :: "service list \<Rightarrow> service \<Rightarrow> service list \<times> bool" where
  "Merge_inner [] n = ([], False)"
| "Merge_inner (o' # olist) n =
     (if sv_Version o' = sv_Version n
      then ([o'\<lparr>sv_Nodes := addNodes (sv_Nodes o') (sv_Nodes n)\<rparr>], True)
      else (let (srv, seen) = Merge_inner olist n in (o' # srv, seen)))"

fun Merge :: "service list \<Rightarrow> service list \<Rightarrow> service list" where
  "Merge olist [] = []"
| "Merge olist (n # nlist) =
     (let (srv, seen) = Merge_inner olist n
      in srv @ (if seen then [] else Copy [n]) @ Merge olist nlist)"

text \<open>\<open>Remove\<close>: the inner loop over the services to delete carries the service and \<open>rem\<close>.\<close>

fun Remove_inner :: "service \<Rightarrow> bool \<Rightarrow> service list \<Rightarrow> service \<times> bool" where
  "Remove_inner srv rem [] = (srv, rem)"
| "Remove_inner srv rem (s # del) =
     (if sv_Version srv = sv_Version s
      then let srv' = srv\<lparr>sv_Nodes := delNodes (sv_Nodes srv) (sv_Nodes s)\<rparr>
           in Remove_inner srv' (if sv_Nodes srv' = [] then True else rem) del
      else Remove_inner srv rem del)"

fun Remove :: "service list \<Rightarrow> service list \<Rightarrow> service list" where
  "Remove [] del = []"
| "Remove (old # olds) del =
     (let (srv, rem) = Remove_inner old False del
      in (if rem then [] else [srv]) @ Remove olds del)"

section \<open>Nodes by id\<close>

text \<open>The abstract reading of a node list: its first node with each id.\<close>

definition node_map :: "node list \<Rightarrow> string \<Rightarrow> node option" where
  "node_map ns i = map_of (map (\<lambda>n. (nd_Id n, n)) ns) i"

definition node_ids :: "node list \<Rightarrow> string set" where
  "node_ids ns = nd_Id ` set ns"

lemma nd_md_fields [simp]:
  "nd_md \<lparr>nd_Metadata = x, nd_Id = i, nd_Address = a, nd_Port = p\<rparr> = (case x of None \<Rightarrow> [] | Some m \<Rightarrow> m)"
  by (simp add: nd_md_def)

lemma node_map_simps [simp]:
  "node_map [] i = None"
  "node_map (n # ns) i = (if nd_Id n = i then Some n else node_map ns i)"
  by (auto simp: node_map_def)

lemma node_ids_simps [simp]:
  "node_ids [] = {}"
  "node_ids (n # ns) = insert (nd_Id n) (node_ids ns)"
  "node_ids (ns @ ms) = node_ids ns \<union> node_ids ms"
  by (auto simp: node_ids_def)

lemma node_map_append: "node_map (ns @ ms) i = (case node_map ns i of None \<Rightarrow> node_map ms i | Some n \<Rightarrow> Some n)"
  by (induction ns) auto

lemma node_map_None: "node_map ns i = None \<longleftrightarrow> i \<notin> node_ids ns"
  by (induction ns) auto

lemma node_map_not_None: "i \<in> node_ids ns \<longleftrightarrow> (\<exists>n. node_map ns i = Some n)"
  using node_map_None [of ns i] by (cases "node_map ns i") auto

lemma list_ex_id [simp]:
  "list_ex (\<lambda>n. nd_Id old = nd_Id n) ns \<longleftrightarrow> nd_Id old \<in> node_ids ns"
  by (auto simp: list_ex_iff node_ids_def)

section \<open>Lemmas\<close>

lemma addNodes_loop_prefix: "\<exists>zs. addNodes_loop nodes old = nodes @ zs"
proof (induction nodes old rule: addNodes_loop.induct)
  case (2 nodes old olds)
  then show ?case by (cases "nd_Id old \<in> node_ids nodes") (fastforce simp: Let_def)+
qed simp

lemma node_map_addNodes_loop:
  "node_map (addNodes_loop nodes old) i =
     (case node_map nodes i of None \<Rightarrow> node_map old i | Some n \<Rightarrow> Some n)"
proof (induction nodes old rule: addNodes_loop.induct)
  case (2 nodes old olds)
  show ?case
  proof (cases "nd_Id old \<in> node_ids nodes")
    case True
    then obtain n where "node_map nodes (nd_Id old) = Some n" by (auto simp: node_map_not_None)
    with 2(1) [OF refl] True show ?thesis by (auto simp: Let_def split: option.splits)
  next
    case False
    then have "node_map nodes (nd_Id old) = None" by (simp add: node_map_None)
    with 2(1) [OF refl] False show ?thesis by (auto simp: Let_def node_map_append split: option.splits)
  qed
qed (simp split: option.splits)

lemma addNodes_map: "node_map (addNodes old neu) = node_map old ++ node_map neu"
  by (rule ext) (simp add: addNodes_def node_map_addNodes_loop map_add_def)

lemma distinct_addNodes_loop:
  "distinct (map nd_Id nodes) \<Longrightarrow> distinct (map nd_Id (addNodes_loop nodes old))"
  by (induction nodes old rule: addNodes_loop.induct) (auto simp: Let_def node_ids_def)

lemma delNodes_filter: "delNodes old del = filter (\<lambda>n. nd_Id n \<notin> node_ids del) old"
  by (induction old) (auto simp: Let_def)

lemma delNodes_map: "node_map (delNodes old del) = node_map old |` (- node_ids del)"
proof (rule ext)
  fix i
  show "node_map (delNodes old del) i = (node_map old |` (- node_ids del)) i"
    by (induction old) (auto simp: Let_def restrict_map_def)
qed

lemma Copy_id [simp]: "Copy xs = xs" "CopyService s = s"
  by (induction xs) (auto simp: Copy_def CopyService_def)

lemma Merge_inner_eq:
  "Merge_inner olist n =
     (case dropWhile (\<lambda>o'. sv_Version o' \<noteq> sv_Version n) olist of
        [] \<Rightarrow> (olist, False)
      | o' # _ \<Rightarrow> (takeWhile (\<lambda>o'. sv_Version o' \<noteq> sv_Version n) olist @
                   [o'\<lparr>sv_Nodes := addNodes (sv_Nodes o') (sv_Nodes n)\<rparr>], True))"
proof (induction olist)
  case (Cons a olist)
  then show ?case
    by (cases "dropWhile (\<lambda>o'. sv_Version o' \<noteq> sv_Version n) olist") (auto simp del: dropWhile_eq_Nil_conv)
qed simp

lemma Remove_inner_eq:
  "Remove_inner srv rem del =
     (let del' = filter (\<lambda>s. sv_Version s = sv_Version srv) del;
          ns = filter (\<lambda>n. \<forall>s \<in> set del'. nd_Id n \<notin> node_ids (sv_Nodes s)) (sv_Nodes srv)
      in (srv\<lparr>sv_Nodes := ns\<rparr>, rem \<or> (del' \<noteq> [] \<and> ns = [])))"
proof (induction srv rem del rule: Remove_inner.induct)
  case (2 srv rem s del)
  show ?case
  proof (cases "sv_Version srv = sv_Version s")
    case True
    let ?srv' = "srv\<lparr>sv_Nodes := delNodes (sv_Nodes srv) (sv_Nodes s)\<rparr>"
    have *: "filter (\<lambda>n. nd_Id n \<notin> node_ids (sv_Nodes s) \<and> P n) ns = [] \<longleftrightarrow>
        delNodes ns (sv_Nodes s) = [] \<or> filter P (delNodes ns (sv_Nodes s)) = []" for P ns
      by (auto simp: delNodes_filter filter_empty_conv)
    from 2(1) [OF True refl] True show ?thesis
      by (auto simp: Let_def delNodes_filter filter_empty_conv conj_commute
          eq_commute [of "sv_Version s"] split: if_splits)
  next
    case False
    from 2(2) [OF False] False show ?thesis by (simp add: Let_def)
  qed
qed (simp add: Let_def)

lemma Remove_eq:
  "Remove olds del =
     concat (map (\<lambda>srv. let (srv', rem) = Remove_inner srv False del in if rem then [] else [srv']) olds)"
  by (induction olds) (auto simp: Let_def split: prod.splits)

section \<open>Properties\<close>

text \<open>
  \<open>addNodes\<close> and \<open>delNodes\<close> as operations on nodes by id: adding overrides the old node of the
  same id by the new one and keeps every other node of both lists, deleting removes exactly the
  nodes with the ids given; the new nodes come first and in their order.
\<close>

lemma addNodes_delNodes_by_id:
  "node_map (addNodes old neu) = node_map old ++ node_map neu \<and>
   take (length neu) (addNodes old neu) = neu \<and>
   node_map (delNodes old neu) = node_map old |` (- node_ids neu)"
proof (intro conjI)
  obtain zs where "addNodes old neu = neu @ zs"
    using addNodes_loop_prefix [of neu old] by (auto simp: addNodes_def)
  then show "take (length neu) (addNodes old neu) = neu" by simp
qed (simp_all add: addNodes_map delNodes_map)

text \<open>
  \<open>Remove\<close> keeps the services in their order; a service whose version is among those to
  delete loses exactly the nodes listed under that version and disappears when none is left; a
  service of another version is kept as it is, even without nodes.
\<close>

lemma Remove_spec:
  "Remove old del = concat (map (\<lambda>s.
     let dels = filter (\<lambda>d. sv_Version d = sv_Version s) del;
         rest = filter (\<lambda>n. nd_Id n \<notin> (\<Union>d \<in> set dels. node_ids (sv_Nodes d))) (sv_Nodes s)
     in if dels = [] then [s] else if rest = [] then [] else [s\<lparr>sv_Nodes := rest\<rparr>]) old)"
proof -
  have *: "(let (srv', rem) = Remove_inner s False del in if rem then [] else [srv']) =
     (let dels = filter (\<lambda>d. sv_Version d = sv_Version s) del;
         rest = filter (\<lambda>n. nd_Id n \<notin> (\<Union>d \<in> set dels. node_ids (sv_Nodes d))) (sv_Nodes s)
     in if dels = [] then [s] else if rest = [] then [] else [s\<lparr>sv_Nodes := rest\<rparr>])" for s
    unfolding Remove_inner_eq
    by (cases "filter (\<lambda>d. sv_Version d = sv_Version s) del = []") (simp_all add: Let_def)
  show ?thesis unfolding Remove_eq * ..
qed

text \<open>
  \<open>Merge\<close> of one new service into a list that has its version: the old services before the
  matching one are kept, the matching one gets the nodes of both, and every old service behind
  it is lost, because the loop breaks at the match.  A service of a new version is appended to the old
  ones.
\<close>

lemma Merge_one_service:
  assumes "sv_Version s = sv_Version n" and "sv_Version n \<notin> sv_Version ` set pre"
  shows "Merge (pre @ s # post) [n] = pre @ [s\<lparr>sv_Nodes := addNodes (sv_Nodes s) (sv_Nodes n)\<rparr>] \<and>
    Merge pre [n] = pre @ [n]"
proof -
  have "dropWhile (\<lambda>s. sv_Version s \<noteq> sv_Version n) (pre @ s # post) = s # post"
    "takeWhile (\<lambda>s. sv_Version s \<noteq> sv_Version n) (pre @ s # post) = pre"
    "dropWhile (\<lambda>s. sv_Version s \<noteq> sv_Version n) pre = []"
    using assms by (auto simp: dropWhile_append takeWhile_append image_iff)
  then show ?thesis by (simp add: Merge_inner_eq del: dropWhile_eq_Nil_conv)
qed

end
