(* ===== verification/Memory_Registry.thy ===== *)
theory Memory_Registry
  imports Registry_Util
begin

text \<open>
  The in-memory registry, \<open>registry/memory.go\<close>, \<open>registry/memory_util.go\<close>,
  \<open>registry/memory_watcher.go\<close> and \<open>getServiceRecords\<close> of \<open>registry/options.go\<close>.

  The state of \<open>memRegistry\<close> is a record; the methods take and return it.  Every method of the
  Go code holds the mutex from its first to its last access of the maps, so a method is one step.
  \<open>go m.sendEvent(r)\<close> starts a goroutine: here the result joins \<open>mr_events\<close>, and the operation
  \<open>sendEvent\<close> runs one of them at any later time.  The clock is the argument \<open>now\<close> (one reading
  per call), a fresh \<open>uuid\<close> is an argument of \<open>Watch\<close>.  Writing into a nil map and following a
  nil pointer are the errors \<open>Panic_nil_map\<close> and \<open>Panic_nil_pointer\<close>.
\<close>

section \<open>State\<close>

datatype registry_error =
    ErrNotFound
  | ErrWatcherStopped
  | Panic_nil_map
  | Panic_nil_pointer
  | ErrOther string

record mnode =
  mn_Node :: node
  mn_TTL :: int
  mn_LastSeen :: int

record rec =
  rc_Name :: string
  rc_Version :: string
  rc_Metadata :: "(string, string) go_map"
  rc_Nodes :: "(string, mnode) go_map"
  rc_Endpoints :: "endpoint list"

record result =
  rs_Action :: string
  rs_Service :: service

record memWatcher =
  mw_id :: string
  mw_wo_Service :: string
  mw_exit :: bool

type_synonym records = "(string, (string, rec) go_map) go_map"

record memRegistry =
  mr_records :: records
  mr_watchers :: "(string, memWatcher) go_map"
  mr_events :: "result list"

section \<open>Conversions\<close>

definition serviceToRecord :: "int \<Rightarrow> service \<Rightarrow> int \<Rightarrow> rec" where
  "serviceToRecord now s ttl =
     \<lparr>rc_Name = sv_Name s, rc_Version = sv_Version s, rc_Metadata = map_copy (sv_Metadata s),
      rc_Nodes = foldl (\<lambda>nodes n. AList.update (nd_Id n)
          \<lparr>mn_Node = n, mn_TTL = ttl, mn_LastSeen = now\<rparr> nodes) [] (sv_Nodes s),
      rc_Endpoints = map (\<lambda>e. e) (sv_Endpoints s)\<rparr>"

definition value_or_new :: "val option \<Rightarrow> val option" where
  "value_or_new v = (case v of None \<Rightarrow> Some (Value [] [] []) | Some x \<Rightarrow> Some x)"

definition endpoint_copy :: "endpoint \<Rightarrow> endpoint" where
  "endpoint_copy e = \<lparr>ep_Request = value_or_new (ep_Request e),
     ep_Response = value_or_new (ep_Response e), ep_Metadata = map_copy (ep_Metadata e),
     ep_Name = ep_Name e\<rparr>"

text \<open>The node that \<open>recordToService\<close> and \<open>Register\<close> build names no port: it is zero.\<close>

definition node_copy :: "node \<Rightarrow> node" where
  "node_copy n = \<lparr>nd_Metadata = Some (map_copy (nd_md n)), nd_Id = nd_Id n,
     nd_Address = nd_Address n, nd_Port = 0\<rparr>"

definition recordToService :: "rec \<Rightarrow> service" where
  "recordToService r =
     \<lparr>sv_Name = rc_Name r, sv_Version = rc_Version r, sv_Metadata = map_copy (rc_Metadata r),
      sv_Endpoints = map endpoint_copy (rc_Endpoints r),
      sv_Nodes = map (\<lambda>(_, n). node_copy (mn_Node n)) (rc_Nodes r)\<rparr>"

section \<open>Operations\<close>

text \<open>
  \<open>getServiceRecords\<close>: the services of the context by name.  A service is stored under its own
  name, so a list kept under another name writes into a map that may not exist.
\<close>

definition add_record :: "int \<Rightarrow> records \<Rightarrow> service \<Rightarrow> registry_error + records" where
  "add_record now services s =
     (case map_of services (sv_Name s) of
        None \<Rightarrow> Inl Panic_nil_map
      | Some vs \<Rightarrow> Inr (AList.update (sv_Name s)
          (AList.update (sv_Version s) (serviceToRecord now s 0) vs) services))"

definition getServiceRecords ::
  "int \<Rightarrow> (string, service list) go_map option \<Rightarrow> registry_error + records option" where
  "getServiceRecords now memServices =
     (case memServices of
        None \<Rightarrow> Inr None
      | Some ms \<Rightarrow>
          sum_bind (sum_fold (\<lambda>services (name, svc).
              sum_fold (add_record now)
                (if map_of services name = None then AList.update name [] services else services) svc)
            [] ms) (\<lambda>r. Inr (Some r)))"

definition NewMemoryRegistry ::
  "int \<Rightarrow> (string, service list) go_map option \<Rightarrow> registry_error + memRegistry" where
  "NewMemoryRegistry now memServices =
     sum_bind (getServiceRecords now memServices) (\<lambda>records.
       Inr \<lparr>mr_records = (case records of None \<Rightarrow> [] | Some r \<Rightarrow> r), mr_watchers = [], mr_events = []\<rparr>)"

text \<open>One tick of \<open>ttlPrune\<close>.\<close>

definition prune_nodes :: "int \<Rightarrow> (string, mnode) go_map \<Rightarrow> (string, mnode) go_map" where
  "prune_nodes now nodes =
     foldl (\<lambda>ns (id', n). if mn_TTL n \<noteq> 0 \<and> now - mn_LastSeen n > mn_TTL n
        then AList.delete id' ns else ns) nodes nodes"

definition ttlPrune :: "int \<Rightarrow> memRegistry \<Rightarrow> memRegistry" where
  "ttlPrune now m = m\<lparr>mr_records := map (\<lambda>(name, vs).
     (name, map (\<lambda>(version, r). (version, r\<lparr>rc_Nodes := prune_nodes now (rc_Nodes r)\<rparr>)) vs))
     (mr_records m)\<rparr>"

text \<open>
  \<open>sendEvent\<close>: offers the result to every watcher present at the start.  \<open>ready id\<close> tells whether
  the watcher receives within \<open>sendEventTime\<close>; the second component collects who received.  The code copies the watchers under the lock
  and offers the result to one after the other without it; here this is one step.
\<close>

definition send_one ::
  "(string \<Rightarrow> bool) \<Rightarrow> result \<Rightarrow> memRegistry \<times> (string \<times> result) list \<Rightarrow> memWatcher \<Rightarrow>
   memRegistry \<times> (string \<times> result) list" where
  "send_one ready r st w =
     (if mw_exit w then (fst st\<lparr>mr_watchers := AList.delete (mw_id w) (mr_watchers (fst st))\<rparr>, snd st)
      else if ready (mw_id w) then (fst st, snd st @ [(mw_id w, r)]) else st)"

definition sendEvent ::
  "(string \<Rightarrow> bool) \<Rightarrow> result \<Rightarrow> memRegistry \<Rightarrow> memRegistry \<times> (string \<times> result) list" where
  "sendEvent ready r m = foldl (send_one ready r) (m, []) (map snd (mr_watchers m))"

text \<open>\<open>Init\<close> adds the services of the context whose name, and the versions whose version, is not known.\<close>

definition init_versions :: "(string, rec) go_map \<Rightarrow> (string, rec) go_map \<Rightarrow> (string, rec) go_map" where
  "init_versions have vs =
     foldl (\<lambda>h (version, r). if map_of h version = None then AList.update version r h else h) have vs"

definition init_record :: "records \<Rightarrow> string \<times> (string, rec) go_map \<Rightarrow> records" where
  "init_record rs = (\<lambda>(name, vs).
     case map_of rs name of
       None \<Rightarrow> AList.update name vs rs
     | Some have \<Rightarrow> AList.update name (init_versions have vs) rs)"

definition Init ::
  "int \<Rightarrow> (string, service list) go_map option \<Rightarrow> memRegistry \<Rightarrow> registry_error + memRegistry" where
  "Init now memServices m =
     sum_bind (getServiceRecords now memServices) (\<lambda>records.
       Inr (m\<lparr>mr_records := foldl init_record (mr_records m)
          (case records of None \<Rightarrow> [] | Some r \<Rightarrow> r)\<rparr>))"

text \<open>
  \<open>Register\<close>.  A version that is not known is stored whole.  For a known version, the loop over
  the nodes adds the ones with a new id; the assignment to the map stands inside the loop that
  copies the node's metadata.  If no node was new, the TTL and the time of every node are
  refreshed.
\<close>

fun copy_and_add ::
  "int \<Rightarrow> int \<Rightarrow> node \<Rightarrow> (string, string) go_map \<Rightarrow> (string, string) go_map \<Rightarrow> (string, mnode) go_map \<Rightarrow>
   (string, mnode) go_map" where
  "copy_and_add now ttl n metadata [] nodes = nodes"
| "copy_and_add now ttl n metadata ((k, v) # rest) nodes =
     (let metadata' = AList.update k v metadata
      in copy_and_add now ttl n metadata' rest (AList.update (nd_Id n)
           \<lparr>mn_Node = \<lparr>nd_Metadata = Some metadata', nd_Id = nd_Id n, nd_Address = nd_Address n, nd_Port = 0\<rparr>,
            mn_TTL = ttl, mn_LastSeen = now\<rparr> nodes))"

fun register_nodes ::
  "int \<Rightarrow> int \<Rightarrow> bool \<times> (string, mnode) go_map \<Rightarrow> node list \<Rightarrow> bool \<times> (string, mnode) go_map" where
  "register_nodes now ttl st [] = st"
| "register_nodes now ttl (addedNodes, nodes) (n # ns) =
     (if map_of nodes (nd_Id n) = None
      then register_nodes now ttl (True, copy_and_add now ttl n [] (nd_md n) nodes) ns
      else register_nodes now ttl (addedNodes, nodes) ns)"

fun refresh_nodes ::
  "int \<Rightarrow> int \<Rightarrow> (string, mnode) go_map \<Rightarrow> node list \<Rightarrow> registry_error + (string, mnode) go_map" where
  "refresh_nodes now ttl nodes [] = Inr nodes"
| "refresh_nodes now ttl nodes (n # ns) =
     (case map_of nodes (nd_Id n) of
        None \<Rightarrow> Inl Panic_nil_pointer
      | Some x \<Rightarrow> refresh_nodes now ttl
          (AList.update (nd_Id n) (x\<lparr>mn_TTL := ttl, mn_LastSeen := now\<rparr>) nodes) ns)"

definition put_record :: "string \<Rightarrow> string \<Rightarrow> rec \<Rightarrow> records \<Rightarrow> records" where
  "put_record name version r rs =
     AList.update name (AList.update version r (case map_of rs name of None \<Rightarrow> [] | Some vs \<Rightarrow> vs)) rs"

definition find_record :: "records \<Rightarrow> string \<Rightarrow> string \<Rightarrow> rec option" where
  "find_record rs name version = (case map_of rs name of None \<Rightarrow> None | Some vs \<Rightarrow> map_of vs version)"

definition Register :: "int \<Rightarrow> int \<Rightarrow> service \<Rightarrow> memRegistry \<Rightarrow> registry_error + memRegistry" where
  "Register now ttl s m =
     (let event = \<lparr>rs_Action = ''update'', rs_Service = s\<rparr>
      in case find_record (mr_records m) (sv_Name s) (sv_Version s) of
           None \<Rightarrow> Inr (m\<lparr>mr_records := put_record (sv_Name s) (sv_Version s) (serviceToRecord now s ttl)
                             (mr_records m), mr_events := mr_events m @ [event]\<rparr>)
         | Some r \<Rightarrow>
             (let (addedNodes, nodes) = register_nodes now ttl (False, rc_Nodes r) (sv_Nodes s);
                  m' = m\<lparr>mr_records := put_record (sv_Name s) (sv_Version s) (r\<lparr>rc_Nodes := nodes\<rparr>)
                          (mr_records m)\<rparr>
              in if addedNodes then Inr (m'\<lparr>mr_events := mr_events m @ [event]\<rparr>)
                 else sum_bind (refresh_nodes now ttl nodes (sv_Nodes s)) (\<lambda>nodes'.
                   Inr (m\<lparr>mr_records := put_record (sv_Name s) (sv_Version s) (r\<lparr>rc_Nodes := nodes'\<rparr>)
                          (mr_records m)\<rparr>))))"

definition Deregister :: "service \<Rightarrow> memRegistry \<Rightarrow> memRegistry" where
  "Deregister s m =
     (case map_of (mr_records m) (sv_Name s) of
        None \<Rightarrow> m
      | Some vs \<Rightarrow>
          (let vs' = (case map_of vs (sv_Version s) of
                        None \<Rightarrow> vs
                      | Some r \<Rightarrow>
                          (let nodes = foldl (\<lambda>ns n. if map_of ns (nd_Id n) \<noteq> None
                                                   then AList.delete (nd_Id n) ns else ns)
                                         (rc_Nodes r) (sv_Nodes s)
                           in if nodes = [] then AList.delete (sv_Version s) vs
                              else AList.update (sv_Version s) (r\<lparr>rc_Nodes := nodes\<rparr>) vs));
               rs = (if vs' = [] then AList.delete (sv_Name s) (mr_records m)
                     else AList.update (sv_Name s) vs' (mr_records m))
           in m\<lparr>mr_records := rs,
                 mr_events := mr_events m @ [\<lparr>rs_Action = ''delete'', rs_Service = s\<rparr>]\<rparr>))"

definition GetService :: "string \<Rightarrow> memRegistry \<Rightarrow> registry_error + service list" where
  "GetService name m =
     (case map_of (mr_records m) name of
        None \<Rightarrow> Inl ErrNotFound
      | Some vs \<Rightarrow> Inr (map (\<lambda>(_, r). recordToService r) vs))"

definition ListServices :: "memRegistry \<Rightarrow> service list" where
  "ListServices m = concat (map (\<lambda>(_, vs). map (\<lambda>(_, r). recordToService r) vs) (mr_records m))"

definition Watch :: "string \<Rightarrow> string \<Rightarrow> memRegistry \<Rightarrow> memRegistry \<times> memWatcher" where
  "Watch uuid service m =
     (let w = \<lparr>mw_id = uuid, mw_wo_Service = service, mw_exit = False\<rparr>
      in (m\<lparr>mr_watchers := AList.update uuid w (mr_watchers m)\<rparr>, w))"

text \<open>
  \<open>memWatcher.Next\<close> is a loop around a \<open>select\<close>: the list gives what each round picks, a result
  received or the closed exit channel.  \<open>None\<close>: still waiting at the end of the list.
\<close>

datatype next_pick = Recv result | Exit_closed

fun Next :: "memWatcher \<Rightarrow> next_pick list \<Rightarrow> (registry_error + result) option" where
  "Next w [] = None"
| "Next w (Recv r # picks) =
     (if length (mw_wo_Service w) > 0 \<and> mw_wo_Service w \<noteq> sv_Name (rs_Service r)
      then Next w picks else Some (Inr r))"
| "Next w (Exit_closed # picks) = Some (Inl ErrWatcherStopped)"

text \<open>\<open>memWatcher.Stop\<close>, on the watcher itself and on the one the registry's map points to.\<close>

definition watcher_Stop :: "memWatcher \<Rightarrow> memWatcher" where
  "watcher_Stop w = (if mw_exit w then w else w\<lparr>mw_exit := True\<rparr>)"

definition Stop_watcher :: "string \<Rightarrow> memRegistry \<Rightarrow> memRegistry" where
  "Stop_watcher i m =
     (case map_of (mr_watchers m) i of
        None \<Rightarrow> m
      | Some w \<Rightarrow> m\<lparr>mr_watchers := AList.update i (watcher_Stop w) (mr_watchers m)\<rparr>)"

text \<open>\<open>EventType.String\<close> of \<open>registry/watcher.go\<close>, on the numbers the constants stand for.\<close>

definition EventType_String :: "int \<Rightarrow> string" where
  "EventType_String t =
     (if t = 0 then ''create'' else if t = 1 then ''delete'' else if t = 2 then ''update''
      else ''unknown'')"

section \<open>Invariant\<close>

text \<open>
  Keys are distinct, a record is stored under its own name and version, a node under its own id,
  a watcher under its own id.
\<close>

definition nodes_ok :: "(string, mnode) go_map \<Rightarrow> bool" where
  "nodes_ok ns \<longleftrightarrow> go_map ns \<and> list_all (\<lambda>(i, n). nd_Id (mn_Node n) = i) ns"

definition rec_ok :: "string \<Rightarrow> string \<Rightarrow> rec \<Rightarrow> bool" where
  "rec_ok name version r \<longleftrightarrow> rc_Name r = name \<and> rc_Version r = version \<and>
     go_map (rc_Metadata r) \<and> nodes_ok (rc_Nodes r)"

definition versions_ok :: "string \<Rightarrow> (string, rec) go_map \<Rightarrow> bool" where
  "versions_ok name vs \<longleftrightarrow> go_map vs \<and> list_all (\<lambda>(v, r). rec_ok name v r) vs"

definition records_ok :: "records \<Rightarrow> bool" where
  "records_ok rs \<longleftrightarrow> go_map rs \<and> list_all (\<lambda>(name, vs). versions_ok name vs) rs"

definition watchers_ok :: "(string, memWatcher) go_map \<Rightarrow> bool" where
  "watchers_ok ws \<longleftrightarrow> go_map ws \<and> list_all (\<lambda>(i, w). mw_id w = i) ws"

definition mem_inv :: "memRegistry \<Rightarrow> bool" where
  "mem_inv m \<longleftrightarrow> records_ok (mr_records m) \<and> watchers_ok (mr_watchers m)"

lemma nodes_ok_Nil [simp]: "nodes_ok []" by (simp add: nodes_ok_def)

lemma nodes_ok_update [go_map_intros]:
  "nodes_ok ns \<Longrightarrow> nd_Id (mn_Node n) = i \<Longrightarrow> nodes_ok (AList.update i n ns)"
  by (auto simp: nodes_ok_def intro!: go_map_intros)

lemma nodes_ok_delete [go_map_intros]: "nodes_ok ns \<Longrightarrow> nodes_ok (AList.delete i ns)"
  by (auto simp: nodes_ok_def intro!: go_map_intros)

lemma nodes_ok_foldl:
  assumes "\<And>ns x. nodes_ok ns \<Longrightarrow> nodes_ok (f ns x)"
  shows "nodes_ok ns \<Longrightarrow> nodes_ok (foldl f ns xs)"
  by (induction xs arbitrary: ns) (auto intro: assms)

lemma rec_ok_nodes: "rec_ok name v r \<Longrightarrow> nodes_ok ns \<Longrightarrow> rec_ok name v (r\<lparr>rc_Nodes := ns\<rparr>)"
  by (simp add: rec_ok_def)

lemma rec_ok_serviceToRecord [simp]: "rec_ok (sv_Name s) (sv_Version s) (serviceToRecord now s ttl)"
  unfolding rec_ok_def serviceToRecord_def
  by (auto intro!: nodes_ok_foldl nodes_ok_update)

lemma versions_ok_Nil [simp]: "versions_ok name []" by (simp add: versions_ok_def)

lemma versions_ok_update [go_map_intros]:
  "versions_ok name vs \<Longrightarrow> rec_ok name v r \<Longrightarrow> versions_ok name (AList.update v r vs)"
  by (auto simp: versions_ok_def intro!: go_map_intros)

lemma versions_ok_delete [go_map_intros]: "versions_ok name vs \<Longrightarrow> versions_ok name (AList.delete v vs)"
  by (auto simp: versions_ok_def intro!: go_map_intros)

lemma versions_ok_lookup: "versions_ok name vs \<Longrightarrow> map_of vs v = Some r \<Longrightarrow> rec_ok name v r"
  by (auto simp: versions_ok_def dest: list_all_map_of)

lemma records_ok_Nil [simp]: "records_ok []" by (simp add: records_ok_def)

lemma records_ok_update [go_map_intros]:
  "records_ok rs \<Longrightarrow> versions_ok name vs \<Longrightarrow> records_ok (AList.update name vs rs)"
  by (auto simp: records_ok_def intro!: go_map_intros)

lemma records_ok_delete [go_map_intros]: "records_ok rs \<Longrightarrow> records_ok (AList.delete name rs)"
  by (auto simp: records_ok_def intro!: go_map_intros)

lemma records_ok_lookup: "records_ok rs \<Longrightarrow> map_of rs name = Some vs \<Longrightarrow> versions_ok name vs"
  by (auto simp: records_ok_def dest: list_all_map_of)

lemma records_ok_find: "records_ok rs \<Longrightarrow> find_record rs name v = Some r \<Longrightarrow> rec_ok name v r"
  by (auto simp: find_record_def dest: records_ok_lookup versions_ok_lookup split: option.splits)

lemma records_ok_put [go_map_intros]:
  "records_ok rs \<Longrightarrow> rec_ok name v r \<Longrightarrow> records_ok (put_record name v r rs)"
  unfolding put_record_def
  by (rule records_ok_update, assumption, rule versions_ok_update)
    (auto dest: records_ok_lookup split: option.splits)

lemma find_put_record [simp]:
  "find_record (put_record name v r rs) name' v' =
     (if name' = name \<and> v' = v then Some r else find_record rs name' v')"
  by (auto simp: find_record_def put_record_def split: option.splits)

section \<open>Node lists and node maps\<close>

text \<open>What a registered node looks like to a reader: its metadata copied and its port zero.\<close>

lemma copy_and_add_eq:
  "copy_and_add now ttl n metadata rest nodes =
     (if rest = [] then nodes
      else AList.update (nd_Id n)
        \<lparr>mn_Node = \<lparr>nd_Metadata = Some (foldl (\<lambda>cp (k, v). AList.update k v cp) metadata rest), nd_Id = nd_Id n,
          nd_Address = nd_Address n, nd_Port = 0\<rparr>, mn_TTL = ttl, mn_LastSeen = now\<rparr> nodes)"
proof (induction now ttl n metadata rest nodes rule: copy_and_add.induct)
  case (2 now ttl n metadata k v rest nodes)
  from 2 [OF refl] show ?case by (cases "rest = []") (simp_all add: Let_def update_Some_unfold)
qed simp

lemma copy_and_add_md:
  "copy_and_add now ttl n [] (nd_md n) nodes =
     (if nd_md n = [] then nodes
      else AList.update (nd_Id n) \<lparr>mn_Node = node_copy n, mn_TTL = ttl, mn_LastSeen = now\<rparr> nodes)"
  by (simp add: copy_and_add_eq node_copy_def map_copy_def)

text \<open>The node map a list of nodes turns into when a version is stored for the first time.\<close>

lemma map_of_fresh_nodes:
  "map_of (foldl (\<lambda>nodes n. AList.update (nd_Id n) (f n) nodes) ns xs) i =
     (case node_map (rev xs) i of None \<Rightarrow> map_of ns i | Some n \<Rightarrow> Some (f n))"
proof (induction xs arbitrary: ns)
  case (Cons x xs)
  show ?case
    unfolding foldl_Cons Cons.IH by (auto simp: node_map_append split: option.splits)
qed simp

text \<open>The ids of a node map.\<close>

definition map_ids :: "(string, mnode) go_map \<Rightarrow> string set" where
  "map_ids ns = fst ` set ns"

lemma map_ids_Nil [simp]: "map_ids [] = {}" by (simp add: map_ids_def)

lemma map_ids_empty [simp]: "map_ids ns = {} \<longleftrightarrow> ns = []" by (simp add: map_ids_def)

lemma map_ids_iff: "i \<in> map_ids ns \<longleftrightarrow> map_of ns i \<noteq> None"
  by (simp add: map_ids_def map_of_eq_None_iff)

lemma map_ids_update [simp]: "map_ids (AList.update i n ns) = insert i (map_ids ns)"
  by (auto simp: map_ids_iff split: if_splits)

lemma map_ids_delete [simp]: "map_ids (AList.delete i ns) = map_ids ns - {i}"
  by (auto simp: map_ids_def set_delete_go)

lemma map_ids_serviceToRecord [simp]: "map_ids (rc_Nodes (serviceToRecord now s ttl)) = node_ids (sv_Nodes s)"
proof -
  have "map_ids (foldl (\<lambda>nodes n. AList.update (nd_Id n) (f n) nodes) ns xs) = map_ids ns \<union> node_ids xs"
    for f ns xs by (induction xs arbitrary: ns) auto
  then show ?thesis by (simp add: serviceToRecord_def)
qed

text \<open>The ids a reader sees are the keys of the node map.\<close>

lemma node_ids_recordToService:
  "nodes_ok (rc_Nodes r) \<Longrightarrow> node_ids (sv_Nodes (recordToService r)) = map_ids (rc_Nodes r)"
  unfolding recordToService_def node_ids_def map_ids_def nodes_ok_def list_all_iff
  by (simp add: image_image case_prod_beta node_copy_def cong: image_cong)

lemma register_nodes_ids:
  "register_nodes now ttl (a, ns) xs = (a', ns') \<Longrightarrow>
     map_ids ns' = map_ids ns \<union> node_ids (filter (\<lambda>n. nd_md n \<noteq> []) xs) \<and>
     (nodes_ok ns \<longrightarrow> nodes_ok ns') \<and> a' = (a \<or> \<not> node_ids xs \<subseteq> map_ids ns) \<and>
     (\<forall>i \<in> map_ids ns. map_of ns' i = map_of ns i)"
proof (induction xs arbitrary: a ns)
  case (Cons x xs)
  show ?case
  proof (cases "map_of ns (nd_Id x) = None")
    case True
    let ?ns = "copy_and_add now ttl x [] (nd_md x) ns"
    from Cons.prems True have "register_nodes now ttl (True, ?ns) xs = (a', ns')" by simp
    note IH = Cons.IH [OF this]
    from True have "nd_Id x \<notin> map_ids ns" by (simp add: map_ids_iff)
    then show ?thesis using IH
      by (auto simp: copy_and_add_md intro!: nodes_ok_update simp: node_copy_def split: if_splits)
  next
    case False
    with Cons.prems have "register_nodes now ttl (a, ns) xs = (a', ns')" by simp
    note IH = Cons.IH [OF this]
    from False have "nd_Id x \<in> map_ids ns" by (simp add: map_ids_iff)
    then show ?thesis using IH by auto
  qed
qed auto

lemma refresh_nodes_ok:
  "node_ids xs \<subseteq> map_ids ns \<Longrightarrow> \<exists>ns'. refresh_nodes now ttl ns xs = Inr ns' \<and> map_ids ns' = map_ids ns \<and>
     (nodes_ok ns \<longrightarrow> nodes_ok ns') \<and>
     (\<forall>i. map_of ns' i = map_option (\<lambda>n. if i \<in> node_ids xs then n\<lparr>mn_TTL := ttl, mn_LastSeen := now\<rparr> else n)
        (map_of ns i))"
proof (induction xs arbitrary: ns)
  case (Cons x xs)
  then obtain n where n: "map_of ns (nd_Id x) = Some n" by (auto simp: map_ids_iff)
  let ?n' = "n\<lparr>mn_TTL := ttl, mn_LastSeen := now\<rparr>"
  let ?ns = "AList.update (nd_Id x) ?n' ns"
  have "node_ids xs \<subseteq> map_ids ?ns" using Cons.prems by auto
  from Cons.IH [OF this] obtain ns' where ns': "refresh_nodes now ttl ?ns xs = Inr ns'"
    "map_ids ns' = map_ids ?ns" "nodes_ok ?ns \<longrightarrow> nodes_ok ns'"
    "\<And>i. map_of ns' i = map_option (\<lambda>n. if i \<in> node_ids xs then n\<lparr>mn_TTL := ttl, mn_LastSeen := now\<rparr> else n)
        (map_of ?ns i)" by auto
  have "map_ids ns' = map_ids ns" using ns'(2) n Cons.prems by auto
  moreover have "nodes_ok ns \<longrightarrow> nodes_ok ns'"
  proof
    assume ok: "nodes_ok ns"
    then have "nd_Id (mn_Node ?n') = nd_Id x"
      using n by (auto simp: nodes_ok_def dest: list_all_map_of)
    with ok ns'(3) show "nodes_ok ns'" by (blast intro: nodes_ok_update)
  qed
  moreover have "map_of ns' i = map_option (\<lambda>n. if i \<in> node_ids (x # xs)
      then n\<lparr>mn_TTL := ttl, mn_LastSeen := now\<rparr> else n) (map_of ns i)" for i
    using n by (cases "i = nd_Id x") (auto simp: ns'(4))
  ultimately show ?case using ns'(1) n by simp
qed (auto simp: option.map_ident)

section \<open>What the operations do\<close>

lemma mem_inv_records: "mem_inv m \<Longrightarrow> records_ok (mr_records m)"
  by (simp add: mem_inv_def)

lemma Register_ok:
  assumes "mem_inv m"
  shows "\<exists>m' r'. Register now ttl s m = Inr m' \<and> mem_inv m' \<and> mr_watchers m' = mr_watchers m \<and>
    mr_records m' = put_record (sv_Name s) (sv_Version s) r' (mr_records m) \<and>
    map_ids (rc_Nodes r') =
      (case find_record (mr_records m) (sv_Name s) (sv_Version s) of
         None \<Rightarrow> node_ids (sv_Nodes s)
       | Some r \<Rightarrow> map_ids (rc_Nodes r) \<union> node_ids (filter (\<lambda>n. nd_md n \<noteq> []) (sv_Nodes s)))"
proof (cases "find_record (mr_records m) (sv_Name s) (sv_Version s)")
  case None
  then show ?thesis
    using assms by (auto simp: Register_def Let_def mem_inv_def intro!: records_ok_put)
next
  case (Some r)
  from assms Some have rok: "rec_ok (sv_Name s) (sv_Version s) r"
    by (auto simp: mem_inv_def dest: records_ok_find)
  then have nok: "nodes_ok (rc_Nodes r)" by (simp add: rec_ok_def)
  obtain a ns where reg: "register_nodes now ttl (False, rc_Nodes r) (sv_Nodes s) = (a, ns)" by fastforce
  note ids = register_nodes_ids [OF reg]
  show ?thesis
  proof (cases a)
    case True
    then show ?thesis
      using assms Some reg ids nok rok
      by (auto simp: Register_def mem_inv_def intro!: records_ok_put rec_ok_nodes)
  next
    case False
    with ids have "node_ids (sv_Nodes s) \<subseteq> map_ids ns" by auto
    from refresh_nodes_ok [OF this, of now ttl] obtain ns' where
      ns': "refresh_nodes now ttl ns (sv_Nodes s) = Inr ns'" "map_ids ns' = map_ids ns"
        "nodes_ok ns \<longrightarrow> nodes_ok ns'" by auto
    show ?thesis
      using assms Some reg ids nok rok ns' False
      by (auto simp: Register_def mem_inv_def intro!: records_ok_put rec_ok_nodes)
  qed
qed

text \<open>\<open>Deregister\<close> of the nodes: exactly the ids listed go.\<close>

lemma deregister_nodes:
  "foldl (\<lambda>ns n. if map_of ns (nd_Id n) \<noteq> None then AList.delete (nd_Id n) ns else ns) ns xs =
     filter (\<lambda>(i, _). i \<notin> node_ids xs) ns"
proof (induction xs arbitrary: ns)
  case (Cons x xs)
  have "(if map_of ns (nd_Id x) \<noteq> None then AList.delete (nd_Id x) ns else ns) =
      filter (\<lambda>(i, _). i \<noteq> nd_Id x) ns"
    by (cases "map_of ns (nd_Id x)")
      (auto simp: AList.delete_eq map_of_eq_None_iff case_prod_beta filter_id_conv image_iff
        intro!: filter_True [symmetric] filter_cong)
  then have "foldl (\<lambda>ns n. if map_of ns (nd_Id n) \<noteq> None then AList.delete (nd_Id n) ns else ns) ns (x # xs) =
      filter (\<lambda>(i, _). i \<notin> node_ids xs) (filter (\<lambda>(i, _). i \<noteq> nd_Id x) ns)"
    unfolding foldl_Cons by (simp only: Cons.IH)
  then show ?case by (simp add: case_prod_beta conj_commute cong: filter_cong)
qed simp

lemma map_ids_filter [simp]: "map_ids (filter (\<lambda>(i, _). i \<notin> S) ns) = map_ids ns - S"
  by (force simp: map_ids_def)

lemma nodes_ok_filter: "nodes_ok ns \<Longrightarrow> nodes_ok (filter P ns)"
  unfolding nodes_ok_def go_map_def
  by (auto simp: list_all_iff distinct_map inj_on_def)

lemma Deregister_ok:
  assumes "mem_inv m"
  shows "mem_inv (Deregister s m) \<and> mr_watchers (Deregister s m) = mr_watchers m \<and>
    (\<forall>name v. find_record (mr_records (Deregister s m)) name v =
       (if name = sv_Name s \<and> v = sv_Version s
        then (case find_record (mr_records m) name v of
                None \<Rightarrow> None
              | Some r \<Rightarrow>
                  (let ns = filter (\<lambda>(i, _). i \<notin> node_ids (sv_Nodes s)) (rc_Nodes r)
                   in if ns = [] then None else Some (r\<lparr>rc_Nodes := ns\<rparr>)))
        else find_record (mr_records m) name v))"
proof (cases "map_of (mr_records m) (sv_Name s)")
  case None
  with assms show ?thesis by (auto simp: Deregister_def find_record_def)
next
  case (Some vs)
  let ?vs = "case map_of vs (sv_Version s) of
      None \<Rightarrow> vs
    | Some r \<Rightarrow>
        (let ns = filter (\<lambda>(i, _). i \<notin> node_ids (sv_Nodes s)) (rc_Nodes r)
         in if ns = [] then AList.delete (sv_Version s) vs
            else AList.update (sv_Version s) (r\<lparr>rc_Nodes := ns\<rparr>) vs)"
  have D: "Deregister s m = m\<lparr>mr_records := (if ?vs = [] then AList.delete (sv_Name s) (mr_records m)
                     else AList.update (sv_Name s) ?vs (mr_records m)),
                 mr_events := mr_events m @ [\<lparr>rs_Action = ''delete'', rs_Service = s\<rparr>]\<rparr>"
    unfolding Deregister_def Some option.case deregister_nodes Let_def ..
  from assms Some have vok: "versions_ok (sv_Name s) vs"
    by (auto simp: mem_inv_def dest: records_ok_lookup)
  then have "versions_ok (sv_Name s) ?vs"
    by (auto simp: Let_def rec_ok_def intro!: versions_ok_delete versions_ok_update nodes_ok_filter
        dest: versions_ok_lookup split: option.splits)
  with assms have "mem_inv (Deregister s m)"
    unfolding D mem_inv_def by (auto intro!: records_ok_delete records_ok_update)
  moreover have "map_of ?vs v = (if v = sv_Version s then
      (case map_of vs v of None \<Rightarrow> None
       | Some r \<Rightarrow> (let ns = filter (\<lambda>(i, _). i \<notin> node_ids (sv_Nodes s)) (rc_Nodes r)
                   in if ns = [] then None else Some (r\<lparr>rc_Nodes := ns\<rparr>))) else map_of vs v)" for v
    by (auto simp: Let_def split: option.splits)
  moreover have "map_of (mr_records (Deregister s m)) name =
      (if name = sv_Name s then (if ?vs = [] then None else Some ?vs) else map_of (mr_records m) name)" for name
    unfolding D by simp
  moreover have "find_record (mr_records (Deregister s m)) name v =
      (if name = sv_Name s then map_of ?vs v else find_record (mr_records m) name v)" for name v
    unfolding find_record_def calculation(3) by simp
  ultimately show ?thesis
    using Some D by (simp add: find_record_def)
qed

section \<open>The view of a client\<close>

text \<open>The ids of the nodes that \<open>GetService\<close> returns for a name under a version.\<close>

definition version_ids :: "memRegistry \<Rightarrow> string \<Rightarrow> string \<Rightarrow> string set" where
  "version_ids m name v =
     (case GetService name m of
        Inl _ \<Rightarrow> {}
      | Inr svs \<Rightarrow> node_ids (concat (map sv_Nodes (filter (\<lambda>s. sv_Version s = v) svs))))"

lemma sv_Version_recordToService [simp]: "sv_Version (recordToService r) = rc_Version r"
  by (simp add: recordToService_def)

lemma filter_version:
  assumes "versions_ok name vs"
  shows "filter (\<lambda>s. sv_Version s = v) (map (\<lambda>(_, r). recordToService r) vs) =
     (case map_of vs v of None \<Rightarrow> [] | Some r \<Rightarrow> [recordToService r])"
  using assms
proof (induction vs)
  case (Cons p vs)
  obtain k r where p: "p = (k, r)" by (cases p)
  from Cons.prems p have "versions_ok name vs" "k \<notin> fst ` set vs" "rc_Version r = k"
    by (auto simp: versions_ok_def rec_ok_def)
  then show ?case
    using Cons.IH p by (cases "map_of vs v") (auto dest: map_of_SomeD simp: rev_image_eqI)
qed simp

lemma version_ids_find:
  assumes "mem_inv m"
  shows "version_ids m name v =
    (case find_record (mr_records m) name v of None \<Rightarrow> {} | Some r \<Rightarrow> map_ids (rc_Nodes r))"
proof (cases "map_of (mr_records m) name")
  case (Some vs)
  with assms have vok: "versions_ok name vs" by (auto simp: mem_inv_def dest: records_ok_lookup)
  have "node_ids (sv_Nodes (recordToService r)) = map_ids (rc_Nodes r)" if "map_of vs v = Some r" for r
    using versions_ok_lookup [OF vok that] by (simp add: rec_ok_def node_ids_recordToService)
  with Some vok show ?thesis
    by (auto simp: version_ids_def GetService_def find_record_def filter_version split: option.splits)
qed (simp add: version_ids_def GetService_def find_record_def)

lemma version_ids_Deregister:
  assumes "mem_inv m"
  shows "version_ids (Deregister s m) name v =
    (if name = sv_Name s \<and> v = sv_Version s then version_ids m name v - node_ids (sv_Nodes s)
     else version_ids m name v)"
proof (cases "find_record (mr_records m) (sv_Name s) (sv_Version s)")
  case None
  then show ?thesis using Deregister_ok [OF assms, of s] by (simp add: version_ids_find assms)
next
  case (Some r)
  define ns where "ns = filter (\<lambda>(i, _). i \<notin> node_ids (sv_Nodes s)) (rc_Nodes r)"
  have ids: "map_ids ns = map_ids (rc_Nodes r) - node_ids (sv_Nodes s)" by (simp add: ns_def)
  have inv: "mem_inv (Deregister s m)" using Deregister_ok [OF assms] by blast
  have find: "find_record (mr_records (Deregister s m)) name v =
      (if name = sv_Name s \<and> v = sv_Version s
       then (if ns = [] then None else Some (r\<lparr>rc_Nodes := ns\<rparr>)) else find_record (mr_records m) name v)"
    using Deregister_ok [OF assms, of s] Some by (simp add: ns_def Let_def)
  show ?thesis
    unfolding version_ids_find [OF inv] version_ids_find [OF assms] find
    using Some ids by (cases "ns = []") auto
qed

section \<open>The contract of a registry\<close>

text \<open>
  A history of registrations and deregistrations, run on any registry, and its specification:
  the set of (name, version, node id) that are registered.
\<close>

datatype 'c reg_op = Reg 'c service | Dereg service

fun apply_op ::
  "('c \<Rightarrow> service \<Rightarrow> 's \<Rightarrow> 'e + 's) \<Rightarrow> (service \<Rightarrow> 's \<Rightarrow> 's) \<Rightarrow> 's \<Rightarrow> 'c reg_op \<Rightarrow> 'e + 's" where
  "apply_op register deregister m (Reg c s) = register c s m"
| "apply_op register deregister m (Dereg s) = Inr (deregister s m)"

definition service_ids :: "service \<Rightarrow> (string \<times> string \<times> string) set" where
  "service_ids s = {(sv_Name s, sv_Version s, i) | i. i \<in> node_ids (sv_Nodes s)}"

fun spec_op :: "(string \<times> string \<times> string) set \<Rightarrow> 'c reg_op \<Rightarrow> (string \<times> string \<times> string) set" where
  "spec_op A (Reg c s) = A \<union> service_ids s"
| "spec_op A (Dereg s) = A - service_ids s"

text \<open>Every node an operation registers carries some metadata (the server always adds some).\<close>

fun op_with_metadata :: "'c reg_op \<Rightarrow> bool" where
  "op_with_metadata (Reg c s) = list_all (\<lambda>n. nd_md n \<noteq> []) (sv_Nodes s)"
| "op_with_metadata (Dereg s) = True"

locale service_registry =
  fixes inv :: "'s \<Rightarrow> bool"
    and register :: "'c \<Rightarrow> service \<Rightarrow> 's \<Rightarrow> 'e + 's"
    and deregister :: "service \<Rightarrow> 's \<Rightarrow> 's"
    and registered :: "'s \<Rightarrow> (string \<times> string \<times> string) set"
  assumes register_returns: "inv m \<Longrightarrow> \<exists>m'. register c s m = Inr m' \<and> inv m'"
    and deregister_inv: "inv m \<Longrightarrow> inv (deregister s m)"
    and register_bounds: "inv m \<Longrightarrow> register c s m = Inr m' \<Longrightarrow>
      registered m \<subseteq> registered m' \<and> registered m' \<subseteq> registered m \<union> service_ids s"
    and register_complete: "inv m \<Longrightarrow> register c s m = Inr m' \<Longrightarrow>
      list_all (\<lambda>n. nd_md n \<noteq> []) (sv_Nodes s) \<Longrightarrow> service_ids s \<subseteq> registered m'"
    and deregister_exact: "inv m \<Longrightarrow> registered (deregister s m) = registered m - service_ids s"
begin

lemma op_returns: "inv m \<Longrightarrow> \<exists>m'. apply_op register deregister m p = Inr m' \<and> inv m'"
  by (cases p) (auto simp: register_returns deregister_inv)

lemma op_bound:
  "inv m \<Longrightarrow> apply_op register deregister m p = Inr m' \<Longrightarrow> registered m' \<subseteq> spec_op (registered m) p"
  by (cases p) (auto dest: register_bounds simp: deregister_exact)

lemma op_exact:
  assumes "inv m" and "apply_op register deregister m p = Inr m'" and "op_with_metadata p"
  shows "registered m' = spec_op (registered m) p"
  using assms
  by (cases p) (auto dest: register_bounds register_complete simp: deregister_exact)

lemma spec_mono: "A \<subseteq> B \<Longrightarrow> foldl spec_op A ops \<subseteq> foldl spec_op B ops"
proof (induction ops arbitrary: A B)
  case (Cons p ops)
  have "spec_op A p \<subseteq> spec_op B p" using Cons.prems by (cases p) auto
  with Cons.IH show ?case by simp
qed simp

lemma history_returns: "inv m \<Longrightarrow> \<exists>m'. sum_fold (apply_op register deregister) m ops = Inr m' \<and> inv m'"
proof (induction ops arbitrary: m)
  case (Cons p ops)
  from op_returns [OF Cons.prems, of p] Cons.IH show ?case by auto
qed simp

lemma history_bound:
  "inv m \<Longrightarrow> sum_fold (apply_op register deregister) m ops = Inr m' \<Longrightarrow>
     registered m' \<subseteq> foldl spec_op (registered m) ops"
proof (induction ops arbitrary: m)
  case (Cons p ops)
  from op_returns [OF Cons.prems(1), of p] obtain m1 where
    m1: "apply_op register deregister m p = Inr m1" "inv m1" by auto
  with Cons.prems(2) have "registered m' \<subseteq> foldl spec_op (registered m1) ops"
    using Cons.IH [OF m1(2)] by simp
  also have "\<dots> \<subseteq> foldl spec_op (spec_op (registered m) p) ops"
    by (rule spec_mono) (rule op_bound [OF Cons.prems(1) m1(1)])
  finally show ?case by simp
qed simp

lemma history_exact:
  "inv m \<Longrightarrow> sum_fold (apply_op register deregister) m ops = Inr m' \<Longrightarrow> list_all op_with_metadata ops \<Longrightarrow>
     registered m' = foldl spec_op (registered m) ops"
proof (induction ops arbitrary: m)
  case (Cons p ops)
  from op_returns [OF Cons.prems(1), of p] obtain m1 where
    m1: "apply_op register deregister m p = Inr m1" "inv m1" by auto
  show ?case
    using Cons.IH [OF m1(2)] op_exact [OF Cons.prems(1) m1(1)] Cons.prems(2,3) m1(1) by simp
qed simp

text \<open>What was registered and then deregistered is gone.\<close>

lemma register_deregister:
  assumes "inv m" and "register c s m = Inr m'" and "registered m \<inter> service_ids s = {}"
  shows "registered (deregister s m') = registered m"
proof -
  have "inv m'" using register_returns [OF assms(1), of c s] assms(2) by auto
  then show ?thesis
    using register_bounds [OF assms(1,2)] assms(3) by (auto simp: deregister_exact)
qed

end

definition registered :: "memRegistry \<Rightarrow> (string \<times> string \<times> string) set" where
  "registered m = {(name, v, i). i \<in> version_ids m name v}"

lemma registered_Register:
  assumes "mem_inv m" and "Register now ttl s m = Inr m'"
  shows "mem_inv m'" and "registered m' = registered m \<union>
    {t \<in> service_ids s. find_record (mr_records m) (sv_Name s) (sv_Version s) = None \<or>
       snd (snd t) \<in> node_ids (filter (\<lambda>n. nd_md n \<noteq> []) (sv_Nodes s))}"
proof -
  from Register_ok [OF assms(1), of now ttl s] assms(2) obtain r' where
    m': "mem_inv m'" "mr_records m' = put_record (sv_Name s) (sv_Version s) r' (mr_records m)"
    "map_ids (rc_Nodes r') =
      (case find_record (mr_records m) (sv_Name s) (sv_Version s) of
         None \<Rightarrow> node_ids (sv_Nodes s)
       | Some r \<Rightarrow> map_ids (rc_Nodes r) \<union> node_ids (filter (\<lambda>n. nd_md n \<noteq> []) (sv_Nodes s)))"
    by auto
  show "mem_inv m'" by (rule m'(1))
  have sub: "node_ids (filter (\<lambda>n. nd_md n \<noteq> []) (sv_Nodes s)) \<subseteq> node_ids (sv_Nodes s)"
    by (auto simp: node_ids_def)
  show "registered m' = registered m \<union>
    {t \<in> service_ids s. find_record (mr_records m) (sv_Name s) (sv_Version s) = None \<or>
       snd (snd t) \<in> node_ids (filter (\<lambda>n. nd_md n \<noteq> []) (sv_Nodes s))}"
    using m'(3) sub
    by (auto simp: registered_def version_ids_find [OF assms(1)] version_ids_find [OF m'(1)] m'(2)
        service_ids_def split: if_splits option.splits)
qed

interpretation mem: service_registry mem_inv "\<lambda>(now, ttl). Register now ttl" Deregister registered
proof unfold_locales
  fix m :: memRegistry and c :: "int \<times> int" and s
  assume inv: "mem_inv m"
  show "\<exists>m'. (case c of (now, ttl) \<Rightarrow> Register now ttl) s m = Inr m' \<and> mem_inv m'"
    using Register_ok [OF inv, of "fst c" "snd c" s] by (auto simp: case_prod_beta)
  show "mem_inv (Deregister s m)" using Deregister_ok [OF inv] by blast
  show "registered (Deregister s m) = registered m - service_ids s"
    by (auto simp: registered_def version_ids_Deregister inv service_ids_def split: if_splits)
  fix m'
  assume R: "(case c of (now, ttl) \<Rightarrow> Register now ttl) s m = Inr m'"
  then have R': "Register (fst c) (snd c) s m = Inr m'" by (simp add: case_prod_beta)
  show "registered m \<subseteq> registered m' \<and> registered m' \<subseteq> registered m \<union> service_ids s"
    using registered_Register(2) [OF inv R'] by auto
  assume "list_all (\<lambda>n. nd_md n \<noteq> []) (sv_Nodes s)"
  then have "filter (\<lambda>n. nd_md n \<noteq> []) (sv_Nodes s) = sv_Nodes s"
    by (simp add: list_all_iff)
  then have "snd (snd t) \<in> node_ids (filter (\<lambda>n. nd_md n \<noteq> []) (sv_Nodes s))" if "t \<in> service_ids s" for t
    using that by (auto simp: service_ids_def)
  then show "service_ids s \<subseteq> registered m'"
    unfolding registered_Register(2) [OF inv R'] by blast
qed

section \<open>The other operations keep the invariant\<close>

definition expired :: "int \<Rightarrow> mnode \<Rightarrow> bool" where
  "expired now n \<longleftrightarrow> mn_TTL n \<noteq> 0 \<and> now - mn_LastSeen n > mn_TTL n"

lemma foldl_delete:
  "foldl (\<lambda>ns (i, n). if P n then AList.delete i ns else ns) ns xs =
     filter (\<lambda>(i, _). \<forall>n. (i, n) \<in> set xs \<longrightarrow> \<not> P n) ns"
proof (induction xs arbitrary: ns)
  case (Cons x xs)
  obtain i n where x: "x = (i, n)" by (cases x)
  show ?case unfolding x foldl_Cons case_prod_conv Cons.IH
    by (auto simp: AList.delete_eq case_prod_beta intro!: filter_cong)
qed (simp add: case_prod_beta)

lemma prune_nodes_eq:
  assumes "go_map ns"
  shows "prune_nodes now ns = filter (\<lambda>(_, n). \<not> expired now n) ns"
proof -
  have "prune_nodes now ns = filter (\<lambda>(i, _). \<forall>n. (i, n) \<in> set ns \<longrightarrow> \<not> expired now n) ns"
    unfolding prune_nodes_def foldl_delete by (simp add: expired_def)
  also have "\<dots> = filter (\<lambda>(_, n). \<not> expired now n) ns"
    using assms by (intro filter_cong) (auto simp: go_map_def dest: eq_key_imp_eq_value)
  finally show ?thesis .
qed

lemma map_of_filter_value:
  assumes "go_map ns"
  shows "map_of (filter (\<lambda>(_, n). P n) ns) i = (case map_of ns i of None \<Rightarrow> None | Some n \<Rightarrow> if P n then Some n else None)"
  using assms
proof (induction ns)
  case (Cons x ns)
  obtain k n where x: "x = (k, n)" by (cases x)
  from Cons.prems x have "map_of ns k = None" and "go_map ns" by (simp_all add: map_of_eq_None_iff)
  with Cons.IH x show ?case by auto
qed simp

lemma versions_ok_map:
  assumes "\<And>v r. rec_ok name v r \<Longrightarrow> rec_ok name v (f r)"
  shows "versions_ok name vs \<Longrightarrow> versions_ok name (map (\<lambda>(v, r). (v, f r)) vs)"
  unfolding versions_ok_def go_map_def
  by (auto simp: list_all_iff case_prod_beta comp_def intro: assms)

lemma records_ok_map:
  assumes "\<And>name vs. versions_ok name vs \<Longrightarrow> versions_ok name (f vs)"
  shows "records_ok rs \<Longrightarrow> records_ok (map (\<lambda>(name, vs). (name, f vs)) rs)"
  unfolding records_ok_def go_map_def
  by (auto simp: list_all_iff case_prod_beta comp_def intro: assms)

lemma nodes_ok_prune: "nodes_ok ns \<Longrightarrow> nodes_ok (prune_nodes now ns)"
  by (simp add: prune_nodes_eq nodes_ok_filter nodes_ok_def [of ns, THEN iffD1, THEN conjunct1])

lemma find_record_ttlPrune:
  "find_record (mr_records (ttlPrune now m)) name v =
     map_option (\<lambda>r. r\<lparr>rc_Nodes := prune_nodes now (rc_Nodes r)\<rparr>) (find_record (mr_records m) name v)"
  unfolding ttlPrune_def find_record_def by (auto simp: map_of_map split: option.splits)

lemma ttlPrune_inv: "mem_inv m \<Longrightarrow> mem_inv (ttlPrune now m)"
  unfolding mem_inv_def ttlPrune_def
  by (auto intro!: records_ok_map versions_ok_map rec_ok_nodes nodes_ok_prune simp: rec_ok_def)

lemma registered_ttlPrune:
  assumes "mem_inv m"
  shows "registered (ttlPrune now m) \<subseteq> registered m"
proof -
  have "go_map (rc_Nodes r)" if "find_record (mr_records m) name v = Some r" for name v r
    using records_ok_find [OF mem_inv_records [OF assms] that] by (simp add: rec_ok_def nodes_ok_def)
  then show ?thesis
    by (auto simp: registered_def version_ids_find [OF assms] version_ids_find [OF ttlPrune_inv [OF assms]] find_record_ttlPrune
        map_ids_def prune_nodes_eq split: option.splits)
qed

lemma add_record_inv: "add_record now rs s = Inr rs' \<Longrightarrow> records_ok rs \<Longrightarrow> records_ok rs'"
  by (auto simp: add_record_def split: option.splits dest: records_ok_lookup
      intro!: records_ok_update versions_ok_update)

lemma getServiceRecords_inv:
  assumes "getServiceRecords now ms = Inr (Some rs)"
  shows "records_ok rs"
proof -
  from assms obtain msv where *: "sum_fold (\<lambda>services (name, svc).
              sum_fold (add_record now)
                (if map_of services name = None then AList.update name [] services else services) svc)
            [] msv = Inr rs"
    by (auto simp: getServiceRecords_def sum_bind_eq_Inr split: option.splits)
  show ?thesis
    by (rule sum_fold_invariant [OF *])
      (auto intro!: records_ok_update elim!: sum_fold_invariant intro: add_record_inv split: prod.splits if_splits)
qed

lemma NewMemoryRegistry_inv:
  assumes "NewMemoryRegistry now ms = Inr m"
  shows "mem_inv m"
proof -
  from assms obtain rs where rs: "getServiceRecords now ms = Inr rs"
    and m: "m = \<lparr>mr_records = (case rs of None \<Rightarrow> [] | Some r \<Rightarrow> r), mr_watchers = [], mr_events = []\<rparr>"
    unfolding NewMemoryRegistry_def sum_bind_eq_Inr by blast
  with getServiceRecords_inv [of now ms] show ?thesis
    by (cases rs) (auto simp: mem_inv_def watchers_ok_def)
qed

text \<open>\<open>Init\<close> adds names and versions that are not known and changes no other record.\<close>

lemma init_versions_ok:
  "versions_ok name h \<Longrightarrow> versions_ok name vs \<Longrightarrow> versions_ok name (init_versions h vs)"
  unfolding init_versions_def
proof (induction vs arbitrary: h)
  case (Cons x vs)
  obtain v r where x: "x = (v, r)" by (cases x)
  from Cons.prems(2) x have "rec_ok name v r" "versions_ok name vs" by (auto simp: versions_ok_def)
  with Cons x show ?case by (auto intro!: Cons.IH versions_ok_update)
qed simp

lemma init_versions_lookup:
  "go_map vs \<Longrightarrow> map_of (init_versions h vs) v = (case map_of h v of None \<Rightarrow> map_of vs v | Some r \<Rightarrow> Some r)"
  unfolding init_versions_def
proof (induction vs arbitrary: h)
  case (Cons x vs)
  obtain k r where x: "x = (k, r)" by (cases x)
  with Cons.prems have "go_map vs" "map_of vs k = None" by (auto simp: map_of_eq_None_iff)
  with x show ?case by (auto simp: Cons.IH split: option.splits)
qed (simp split: option.splits)

lemma find_init_record:
  assumes "go_map vs"
  shows "find_record (init_record rs (n, vs)) name v =
    (case find_record rs name v of Some r \<Rightarrow> Some r | None \<Rightarrow> if name = n then map_of vs v else None)"
  using assms
  by (auto simp: init_record_def find_record_def init_versions_lookup split: option.splits)

lemma find_record_Cons:
  "find_record ((n, vs) # rs) name v = (if name = n then map_of vs v else find_record rs name v)"
  by (simp add: find_record_def)

lemma find_record_None: "map_of rs name = None \<Longrightarrow> find_record rs name v = None"
  by (simp add: find_record_def)

lemma Init_records:
  assumes "records_ok rs" and "records_ok new"
  shows "records_ok (foldl init_record rs new) \<and>
    find_record (foldl init_record rs new) name v =
      (case find_record rs name v of Some r \<Rightarrow> Some r | None \<Rightarrow> find_record new name v)"
  using assms
proof (induction new arbitrary: rs)
  case (Cons x new)
  obtain n vs where x: "x = (n, vs)" by (cases x)
  from Cons.prems(2) x have vs: "versions_ok n vs" "records_ok new" "map_of new n = None"
    by (auto simp: records_ok_def map_of_eq_None_iff)
  then have "records_ok (init_record rs x)"
    using Cons.prems(1) x
    by (auto simp: init_record_def intro!: records_ok_update init_versions_ok dest: records_ok_lookup
        split: option.splits)
  moreover have "go_map vs" using vs(1) by (simp add: versions_ok_def)
  ultimately show ?case
    using Cons.IH [of "init_record rs x"] vs(2,3) x find_init_record [of vs rs n name v]
    by (auto simp: find_record_Cons find_record_None split: option.splits)
qed (simp split: option.splits add: find_record_def)

lemma Init_inv: "mem_inv m \<Longrightarrow> Init now ms m = Inr m' \<Longrightarrow> mem_inv m'"
  using getServiceRecords_inv [of now ms] Init_records
  by (auto simp: Init_def sum_bind_eq_Inr mem_inv_def split: option.splits)

lemma send_fold:
  "foldl (send_one ready r) (m, ds) ws =
     (m\<lparr>mr_watchers := foldl (\<lambda>l w. if mw_exit w then AList.delete (mw_id w) l else l) (mr_watchers m) ws\<rparr>,
      ds @ map (\<lambda>w. (mw_id w, r)) (filter (\<lambda>w. \<not> mw_exit w \<and> ready (mw_id w)) ws))"
  by (induction ws arbitrary: m ds) (auto simp: send_one_def)

lemma foldl_watchers:
  "watchers_ok ws \<Longrightarrow> set vs \<subseteq> set ws \<Longrightarrow>
     foldl (\<lambda>l w. if mw_exit w then AList.delete (mw_id w) l else l) l (map snd vs) =
     foldl (\<lambda>l (i, w). if mw_exit w then AList.delete i l else l) l vs"
  by (induction vs arbitrary: l) (auto simp: watchers_ok_def list_all_iff)

lemma sendEvent_eq:
  assumes "mem_inv m"
  shows "sendEvent ready r m =
    (m\<lparr>mr_watchers := filter (\<lambda>(_, w). \<not> mw_exit w) (mr_watchers m)\<rparr>,
     map (\<lambda>(i, _). (i, r)) (filter (\<lambda>(i, w). \<not> mw_exit w \<and> ready i) (mr_watchers m)))"
proof -
  let ?ws = "mr_watchers m"
  from assms have ok: "watchers_ok ?ws" by (simp add: mem_inv_def)
  have "foldl (\<lambda>l (i, w). if mw_exit w then AList.delete i l else l) ?ws ?ws =
      filter (\<lambda>(_, w). \<not> mw_exit w) ?ws"
    unfolding foldl_delete using ok
    by (intro filter_cong) (auto simp: watchers_ok_def go_map_def dest: eq_key_imp_eq_value)
  moreover have D: "map (\<lambda>w. (mw_id w, r)) (filter (\<lambda>w. \<not> mw_exit w \<and> ready (mw_id w)) (map snd vs)) =
      map (\<lambda>(i, _). (i, r)) (filter (\<lambda>(i, w). \<not> mw_exit w \<and> ready i) vs)"
    if "list_all (\<lambda>(i, w). mw_id w = i) vs" for vs using that by (induction vs) auto
  ultimately show ?thesis
    using ok D [of ?ws] by (simp add: sendEvent_def send_fold foldl_watchers) (simp add: watchers_ok_def)
qed

lemma watchers_ok_filter: "watchers_ok ws \<Longrightarrow> watchers_ok (filter P ws)"
  unfolding watchers_ok_def go_map_def by (auto simp: list_all_iff distinct_map inj_on_def)

lemma watchers_ok_update: "watchers_ok ws \<Longrightarrow> mw_id w = i \<Longrightarrow> watchers_ok (AList.update i w ws)"
  by (auto simp: watchers_ok_def intro!: go_map_intros)

lemma sendEvent_inv: "mem_inv m \<Longrightarrow> mem_inv (fst (sendEvent ready r m))"
  by (simp add: sendEvent_eq) (simp add: mem_inv_def watchers_ok_filter)

lemma Watch_inv: "mem_inv m \<Longrightarrow> mem_inv (fst (Watch uuid svc m))"
  by (simp add: Watch_def Let_def mem_inv_def watchers_ok_update)

lemma Stop_inv: "mem_inv m \<Longrightarrow> mem_inv (Stop_watcher i m)"
  by (auto simp: Stop_watcher_def mem_inv_def watchers_ok_def watcher_Stop_def
      intro!: go_map_intros dest: list_all_map_of split: option.splits)

section \<open>Interleavings\<close>

text \<open>
  The steps a running registry takes, in any order: calls of its methods, ticks of the pruner, and
  the goroutines that send events.
\<close>

inductive mem_step :: "memRegistry \<Rightarrow> memRegistry \<Rightarrow> bool" where
  step_init: "Init now ms m = Inr m' \<Longrightarrow> mem_step m m'"
| step_register: "Register now ttl s m = Inr m' \<Longrightarrow> mem_step m m'"
| step_deregister: "mem_step m (Deregister s m)"
| step_prune: "mem_step m (ttlPrune now m)"
| step_watch: "mem_step m (fst (Watch uuid svc m))"
| step_stop: "mem_step m (Stop_watcher i m)"
| step_send: "r \<in> set (mr_events m) \<Longrightarrow>
    mem_step m ((fst (sendEvent ready r m))\<lparr>mr_events := remove1 r (mr_events m)\<rparr>)"

inductive mem_reachable :: "memRegistry \<Rightarrow> bool" where
  reach_new: "NewMemoryRegistry now ms = Inr m \<Longrightarrow> mem_reachable m"
| reach_step: "mem_reachable m \<Longrightarrow> mem_step m m' \<Longrightarrow> mem_reachable m'"

inductive_cases mem_stepE: "mem_step m m'"

lemma mem_step_inv: "mem_step m m' \<Longrightarrow> mem_inv m \<Longrightarrow> mem_inv m'"
proof (induction rule: mem_step.induct)
  case (step_register now ttl s m m')
  then show ?case using registered_Register(1) by blast
next
  case (step_send r m ready)
  then have "mem_inv (fst (sendEvent ready r m))" by (simp add: sendEvent_inv)
  then show ?case by (simp add: mem_inv_def)
next
  case (step_deregister m s)
  then show ?case using Deregister_ok by blast
qed (auto intro: Init_inv ttlPrune_inv Watch_inv Stop_inv)

lemma mem_reachable_inv: "mem_reachable m \<Longrightarrow> mem_inv m"
  by (induction rule: mem_reachable.induct) (auto intro: NewMemoryRegistry_inv mem_step_inv)

lemma nodes_of_fresh:
  "distinct (map nd_Id ns) \<Longrightarrow>
     foldl (\<lambda>nodes n. AList.update (nd_Id n) (f n) nodes) [] ns = map (\<lambda>n. (nd_Id n, f n)) ns"
proof -
  have "foldl (\<lambda>nodes n. AList.update (nd_Id n) (f n) nodes) acc ns = acc @ map (\<lambda>n. (nd_Id n, f n)) ns"
    if "distinct (map nd_Id ns)" "fst ` set acc \<inter> nd_Id ` set ns = {}" for acc ns
    using that by (induction ns arbitrary: acc) (auto simp: update_new_key)
  from this [of ns "[]"] show "distinct (map nd_Id ns) \<Longrightarrow> ?thesis" by simp
qed

lemma record_round_trip:
  assumes "distinct (map nd_Id (sv_Nodes s))" and "go_map (sv_Metadata s)"
  shows "recordToService (serviceToRecord now s ttl) =
    s\<lparr>sv_Nodes := map node_copy (sv_Nodes s), sv_Endpoints := map endpoint_copy (sv_Endpoints s)\<rparr>"
  using assms by (simp add: serviceToRecord_def recordToService_def nodes_of_fresh comp_def)

section \<open>Properties\<close>

text \<open>
  C29.  In every state the registry can reach, under any interleaving of its methods, the pruner
  and the event goroutines, all maps have distinct keys, every record is stored under its own name
  and version, every node under its own id and every watcher under its own id.
\<close>

theorem registry_reachable_inv:
  assumes "mem_reachable m"
  shows "mem_inv m"
  using assms by (rule mem_reachable_inv)

theorem registry_reachable_inv_witness:
  "\<exists>m. mem_reachable m \<and> mem_inv m \<and> length (mr_events m) = 1"
proof -
  let ?s = "\<lparr>sv_Name = ''a'', sv_Version = ''1'', sv_Metadata = [], sv_Endpoints = [], sv_Nodes = []\<rparr>"
  let ?m = "\<lparr>mr_records = [], mr_watchers = [], mr_events = []\<rparr>"
  have "mem_reachable ?m"
    by (rule reach_new [of 0 None]) (simp add: NewMemoryRegistry_def getServiceRecords_def)
  moreover obtain m' where "Register 0 0 ?s ?m = Inr m'" "length (mr_events m') = 1"
    by (simp add: Register_def find_record_def)
  ultimately have "mem_reachable m'" "length (mr_events m') = 1" by (blast intro: reach_step step_register)+
  with registry_reachable_inv show ?thesis by blast
qed

text \<open>
  \<open>Register\<close> in a reachable state always returns (the refresh of the TTLs follows no nil
  pointer).  What \<open>GetService\<close> then lists: nothing changes for another name or version; a version
  that was not known gets all nodes of the service; to a known version only the nodes that carry
  metadata are added, because the assignment stands inside the loop over the metadata.
\<close>

lemma Register_ids:
  assumes "mem_reachable m"
  shows "\<exists>m'. Register now ttl s m = Inr m' \<and>
    version_ids m' name v = version_ids m name v \<union>
      (if name \<noteq> sv_Name s \<or> v \<noteq> sv_Version s then {}
       else if find_record (mr_records m) name v = None then node_ids (sv_Nodes s)
       else node_ids (filter (\<lambda>n. nd_md n \<noteq> []) (sv_Nodes s)))"
proof -
  have inv: "mem_inv m" using assms by (rule mem_reachable_inv)
  from Register_ok [OF inv, of now ttl s] obtain m' r' where
    m': "Register now ttl s m = Inr m'" "mem_inv m'"
    "mr_records m' = put_record (sv_Name s) (sv_Version s) r' (mr_records m)"
    "map_ids (rc_Nodes r') =
      (case find_record (mr_records m) (sv_Name s) (sv_Version s) of
         None \<Rightarrow> node_ids (sv_Nodes s)
       | Some r \<Rightarrow> map_ids (rc_Nodes r) \<union> node_ids (filter (\<lambda>n. nd_md n \<noteq> []) (sv_Nodes s)))"
    by auto
  show ?thesis
    using m' by (auto simp: version_ids_find [OF inv] version_ids_find [OF m'(2)] split: option.splits)
qed

text \<open>
  C14.  A history of registrations and deregistrations, from any reachable state: it always runs to
  its end; \<open>GetService\<close> never lists a node that was not registered or was deregistered since; and
  when every registered node carries metadata it lists exactly the nodes of the abstract
  specification, the set of triples (name, version, node id) to which \<open>Register\<close> adds the
  service's nodes and from which \<open>Deregister\<close> removes them.
\<close>

theorem registry_history_refines:
  assumes "mem_reachable m"
  shows "\<exists>m'. sum_fold (apply_op (\<lambda>(now, ttl). Register now ttl) Deregister) m ops = Inr m' \<and>
    registered m' \<subseteq> foldl spec_op (registered m) ops \<and>
    (list_all op_with_metadata ops \<longrightarrow> registered m' = foldl spec_op (registered m) ops)"
proof -
  have inv: "mem_inv m" using assms by (rule mem_reachable_inv)
  from mem.history_returns [OF inv, of ops] obtain m' where
    m': "sum_fold (apply_op (\<lambda>(now, ttl). Register now ttl) Deregister) m ops = Inr m'" by blast
  with mem.history_bound [OF inv m'] mem.history_exact [OF inv m'] show ?thesis by blast
qed

theorem registry_history_refines_witness:
  "\<exists>m m' s. sum_fold (apply_op (\<lambda>(now, ttl). Register now ttl) Deregister) m [Reg (0, 0) s, Dereg s] = Inr m' \<and>
     service_ids s = {(''a'', ''1'', ''x'')} \<and> registered m' = {}"
proof -
  let ?n = "\<lparr>nd_Metadata = Some [(''k'', ''v'')], nd_Id = ''x'', nd_Address = [], nd_Port = 0\<rparr>"
  let ?s = "\<lparr>sv_Name = ''a'', sv_Version = ''1'', sv_Metadata = [], sv_Endpoints = [], sv_Nodes = [?n]\<rparr>"
  let ?m = "\<lparr>mr_records = [], mr_watchers = [], mr_events = []\<rparr>"
  have "mem_reachable ?m"
    by (rule reach_new [of 0 None]) (simp add: NewMemoryRegistry_def getServiceRecords_def)
  from registry_history_refines [OF this, of "[Reg (0, 0) ?s, Dereg ?s]"]
  obtain m' where m': "sum_fold (apply_op (\<lambda>(now, ttl). Register now ttl) Deregister) ?m [Reg (0, 0) ?s, Dereg ?s] = Inr m'"
    "registered m' = foldl spec_op (registered ?m) [Reg (0 :: int, 0 :: int) ?s, Dereg ?s]" by auto
  moreover have "registered ?m = {}" by (simp add: registered_def version_ids_def GetService_def)
  moreover have "service_ids ?s = {(''a'', ''1'', ''x'')}" by (simp add: service_ids_def)
  ultimately show ?thesis by (intro exI [of _ ?m] exI [of _ m'] exI [of _ ?s]) simp
qed

text \<open>
  A service of a new name, registered and looked up: \<open>GetService\<close> returns that one service,
  field by field the same (metadata, endpoints, nodes in their order with their ids and
  addresses), except that missing request and response values come back as empty values and the
  port of every node is lost.  Deregistering it makes the name unknown again, and no other name
  is affected by either call.
\<close>

lemma Register_GetService_Deregister:
  assumes "GetService (sv_Name s) m = Inl ErrNotFound"
    and "distinct (map nd_Id (sv_Nodes s))" and "go_map (sv_Metadata s)"
  shows "\<exists>m'. Register now ttl s m = Inr m' \<and>
    GetService (sv_Name s) m' =
      Inr [s\<lparr>sv_Nodes := map node_copy (sv_Nodes s), sv_Endpoints := map endpoint_copy (sv_Endpoints s)\<rparr>] \<and>
    GetService (sv_Name s) (Deregister s m') = Inl ErrNotFound \<and>
    (name = sv_Name s \<or> GetService name m' = GetService name m \<and>
       GetService name (Deregister s m') = GetService name m)"
proof -
  from assms(1) have new: "map_of (mr_records m) (sv_Name s) = None"
    by (auto simp: GetService_def split: option.splits)
  let ?r = "serviceToRecord now s ttl"
  let ?m' = "m\<lparr>mr_records := AList.update (sv_Name s) [(sv_Version s, ?r)] (mr_records m),
     mr_events := mr_events m @ [\<lparr>rs_Action = ''update'', rs_Service = s\<rparr>]\<rparr>"
  have R: "Register now ttl s m = Inr ?m'"
    using new by (simp add: Register_def find_record_def put_record_def)
  have "map_ids (filter (\<lambda>(i, _). i \<notin> node_ids (sv_Nodes s)) (rc_Nodes ?r)) = {}"
    unfolding map_ids_filter by simp
  then have "filter (\<lambda>(i, _). i \<notin> node_ids (sv_Nodes s)) (rc_Nodes ?r) = []"
    unfolding map_ids_empty .
  then have D: "mr_records (Deregister s ?m') = AList.delete (sv_Name s) (mr_records ?m')"
    unfolding Deregister_def deregister_nodes by (simp add: Let_def)
  show ?thesis
    unfolding R using record_round_trip [OF assms(2,3), of now ttl]
    by (auto simp: GetService_def D split: option.splits)
qed

text \<open>
  C34.  A tick of the pruner removes exactly the nodes with a TTL whose last registration is older
  than it; nodes registered without a TTL stay for ever, and no service or version disappears,
  even one that has no node left.
\<close>

theorem ttlPrune_exact:
  assumes "mem_reachable m"
  shows "find_record (mr_records (ttlPrune now m)) name v =
      map_option (\<lambda>r. r\<lparr>rc_Nodes := filter (\<lambda>(_, n). \<not> expired now n) (rc_Nodes r)\<rparr>)
        (find_record (mr_records m) name v) \<and>
    map fst (mr_records (ttlPrune now m)) = map fst (mr_records m)"
proof
  have "mem_inv m" using assms by (rule mem_reachable_inv)
  then have "go_map (rc_Nodes r)" if "find_record (mr_records m) name v = Some r" for r
    using records_ok_find [OF mem_inv_records that] by (simp add: rec_ok_def nodes_ok_def)
  then show "find_record (mr_records (ttlPrune now m)) name v =
      map_option (\<lambda>r. r\<lparr>rc_Nodes := filter (\<lambda>(_, n). \<not> expired now n) (rc_Nodes r)\<rparr>)
        (find_record (mr_records m) name v)"
    unfolding find_record_ttlPrune
    by (cases "find_record (mr_records m) name v") (simp_all add: prune_nodes_eq)
  show "map fst (mr_records (ttlPrune now m)) = map fst (mr_records m)"
    by (simp add: ttlPrune_def case_prod_beta comp_def)
qed

theorem ttlPrune_exact_witness:
  "\<exists>m m' s. Register 100 5 s m = Inr m' \<and> version_ids m' ''a'' ''1'' = {''x''} \<and>
     map_option rc_Nodes (find_record (mr_records (ttlPrune 106 m')) ''a'' ''1'') = Some [] \<and>
     map_option (length \<circ> rc_Nodes) (find_record (mr_records (ttlPrune 105 m')) ''a'' ''1'') = Some 1"
proof -
  let ?n = "\<lparr>nd_Metadata = None, nd_Id = ''x'', nd_Address = [], nd_Port = 0\<rparr>"
  let ?s = "\<lparr>sv_Name = ''a'', sv_Version = ''1'', sv_Metadata = [], sv_Endpoints = [], sv_Nodes = [?n]\<rparr>"
  let ?m = "\<lparr>mr_records = [], mr_watchers = [], mr_events = []\<rparr>"
  let ?r = "serviceToRecord 100 ?s 5"
  let ?m' = "\<lparr>mr_records = [(''a'', [(''1'', ?r)])], mr_watchers = [],
    mr_events = [\<lparr>rs_Action = ''update'', rs_Service = ?s\<rparr>]\<rparr>"
  have "mem_reachable ?m"
    by (rule reach_new [of 0 None]) (simp add: NewMemoryRegistry_def getServiceRecords_def)
  moreover have R: "Register 100 5 ?s ?m = Inr ?m'"
    by (simp add: Register_def find_record_def put_record_def)
  ultimately have r: "mem_reachable ?m'" by (blast intro: reach_step step_register)
  have "find_record (mr_records ?m') ''a'' ''1'' = Some ?r" by (simp add: find_record_def)
  moreover have "rc_Nodes ?r = [(''x'', \<lparr>mn_Node = ?n, mn_TTL = 5, mn_LastSeen = 100\<rparr>)]"
    by (simp add: serviceToRecord_def)
  ultimately show ?thesis
    using R ttlPrune_exact [OF r, of 106 "''a''" "''1''"] ttlPrune_exact [OF r, of 105 "''a''" "''1''"]
      version_ids_find [OF mem_reachable_inv [OF r], of "''a''" "''1''"]
    by (intro exI [of _ ?m] exI [of _ ?m'] exI [of _ ?s]) (simp add: expired_def map_ids_def)
qed

text \<open>
  Sending an event: every watcher that is running and receives in time gets it once, in the
  order of the watchers; a stopped watcher gets nothing and is removed from the registry; running
  watchers and the records stay.
\<close>

lemma sendEvent_delivers:
  assumes "mem_reachable m"
  shows "snd (sendEvent ready r m) =
      map (\<lambda>(i, _). (i, r)) (filter (\<lambda>(i, w). \<not> mw_exit w \<and> ready i) (mr_watchers m)) \<and>
    mr_watchers (fst (sendEvent ready r m)) = filter (\<lambda>(_, w). \<not> mw_exit w) (mr_watchers m) \<and>
    mr_records (fst (sendEvent ready r m)) = mr_records m"
  using mem_reachable_inv [OF assms] by (simp add: sendEvent_eq)

end
