(* ===== verification/Registry_Cache.thy ===== *)
theory Registry_Cache
  imports Memory_Registry
begin

text \<open>
  The registry cache, \<open>registry/cache/cache.go\<close>: lookups answered from a map with expiry times,
  a stale answer when the registry fails, and a watcher per service that applies the registry's
  events to the map.

  The registry behind the cache is an argument: \<open>lookup\<close> is its answer to \<open>GetService\<close> at the
  moment of the call (the \<open>singleflight\<close> group hands the answer of one call to all callers that
  wait for it), and the answers to \<open>Watch\<close> and \<open>Next\<close> are the inputs of \<open>run\<close>.  The zero time of a
  service without entry in \<open>ttls\<close> is \<open>None\<close>.  \<open>go c.run(service)\<close> is recorded in \<open>ca_started\<close>.
  Log lines are left out.
\<close>

section \<open>State\<close>

record cache =
  ca_TTL :: int
  ca_status :: "registry_error option"
  ca_cache :: "(string, service list) go_map"
  ca_ttls :: "(string, int) go_map"
  ca_watched :: "(string, bool) go_map"
  ca_running :: "(string, bool) go_map"
  ca_exit :: bool
  ca_started :: "string list"

text \<open>\<open>DefaultTTL\<close>, a minute in nanoseconds, and \<open>New\<close> with the TTL the options leave.\<close>

definition DefaultTTL :: int where
  "DefaultTTL = 60 * 1000000000"

definition cache_New :: "int option \<Rightarrow> cache" where
  "cache_New ttl = \<lparr>ca_TTL = (case ttl of None \<Rightarrow> DefaultTTL | Some t \<Rightarrow> t), ca_status = None,
     ca_cache = [], ca_ttls = [], ca_watched = [], ca_running = [], ca_exit = False, ca_started = []\<rparr>"

section \<open>Operations\<close>

text \<open>Nanoseconds; the power is exact for the few attempts that occur.\<close>

definition backoff :: "nat \<Rightarrow> int" where
  "backoff attempts = (if attempts = 0 then 0 else 10 ^ attempts * 1000000)"

definition setStatus :: "registry_error option \<Rightarrow> cache \<Rightarrow> cache" where
  "setStatus err c = c\<lparr>ca_status := err\<rparr>"

definition isValid :: "int \<Rightarrow> service list \<Rightarrow> int option \<Rightarrow> bool" where
  "isValid now services ttl =
     (if services = [] then False
      else case ttl of
             None \<Rightarrow> False
           | Some t \<Rightarrow> if now - t > 0 then False else True)"

definition quit :: "cache \<Rightarrow> bool" where
  "quit c = ca_exit c"

definition cache_del :: "string \<Rightarrow> cache \<Rightarrow> cache" where
  "cache_del service c =
     (if ca_status c \<noteq> None then c
      else c\<lparr>ca_cache := AList.delete service (ca_cache c), ca_ttls := AList.delete service (ca_ttls c)\<rparr>)"

definition cache_set :: "int \<Rightarrow> string \<Rightarrow> service list \<Rightarrow> cache \<Rightarrow> cache" where
  "cache_set now service services c =
     c\<lparr>ca_cache := AList.update service services (ca_cache c),
       ca_ttls := AList.update service (now + ca_TTL c) (ca_ttls c)\<rparr>"

text \<open>The closure \<open>get\<close> inside the method \<open>get\<close>: ask the registry, fall back on what was cached.\<close>

definition get_from_registry ::
  "int \<Rightarrow> registry_error + service list \<Rightarrow> string \<Rightarrow> service list \<Rightarrow> cache \<Rightarrow>
   cache \<times> (registry_error + service list)" where
  "get_from_registry now answer service cached c =
     (case answer of
        Inl err \<Rightarrow>
          if length cached > 0 then (setStatus (Some err) c, Inr cached) else (c, Inl err)
      | Inr services \<Rightarrow>
          (let c' = (if ca_status c \<noteq> None then setStatus None c else c);
               cp = Copy services
           in (cache_set now service services c', Inr cp)))"

text \<open>Reading and writing the map of watched services, two critical sections in the code, are one step.\<close>

definition watch_service :: "string \<Rightarrow> cache \<Rightarrow> cache" where
  "watch_service service c =
     (if ca_TTL c > 0 \<and> map_of (ca_watched c) service = None
      then let c' = c\<lparr>ca_watched := AList.update service True (ca_watched c)\<rparr>
           in if map_of (ca_running c') service \<noteq> Some True
              then c'\<lparr>ca_started := ca_started c' @ [service]\<rparr> else c'
      else c)"

definition cache_get ::
  "int \<Rightarrow> registry_error + service list \<Rightarrow> string \<Rightarrow> cache \<Rightarrow> cache \<times> (registry_error + service list)" where
  "cache_get now answer service c =
     (let services = (case map_of (ca_cache c) service of None \<Rightarrow> [] | Some s \<Rightarrow> s);
          ttl = map_of (ca_ttls c) service;
          cp = Copy services
      in if isValid now cp ttl then (c, Inr cp)
         else get_from_registry now answer service cp (watch_service service c))"

text \<open>
  \<open>update\<close>.  \<open>find_version\<close> is the loop that remembers the last service with the version and its
  index, \<open>append_old\<close> the loop that appends the cached nodes that the new service lacks,
  \<open>keep_nodes\<close> the loop that filters the deleted ones.
\<close>

fun find_version :: "string \<Rightarrow> nat \<Rightarrow> (service \<times> nat) option \<Rightarrow> service list \<Rightarrow> (service \<times> nat) option" where
  "find_version v i acc [] = acc"
| "find_version v i acc (s # ss) =
     find_version v (Suc i) (if sv_Version s = v then Some (s, i) else acc) ss"

fun append_old :: "node list \<Rightarrow> node list \<Rightarrow> node list" where
  "append_old new [] = new"
| "append_old new (cur # old) =
     (let seen = list_ex (\<lambda>n. nd_Id cur = nd_Id n) new
      in append_old (if seen then new else new @ [cur]) old)"

fun keep_nodes :: "node list \<Rightarrow> node list \<Rightarrow> node list" where
  "keep_nodes [] del = []"
| "keep_nodes (cur # old) del =
     (let seen = list_ex (\<lambda>n. nd_Id n = nd_Id cur) del
      in (if seen then [] else [cur]) @ keep_nodes old del)"

definition update_add :: "int \<Rightarrow> service \<Rightarrow> service list \<Rightarrow> cache \<Rightarrow> cache" where
  "update_add now new services c =
     (case find_version (sv_Version new) 0 None services of
        None \<Rightarrow> cache_set now (sv_Name new) (services @ [new]) c
      | Some (service, index) \<Rightarrow>
          (let new' = new\<lparr>sv_Nodes := append_old (sv_Nodes new) (sv_Nodes service)\<rparr>
           in cache_set now (sv_Name new) (services[index := new']) c))"

definition update_delete :: "int \<Rightarrow> service \<Rightarrow> service list \<Rightarrow> cache \<Rightarrow> cache" where
  "update_delete now gone services c =
     (case find_version (sv_Version gone) 0 None services of
        None \<Rightarrow> c
      | Some (service, index) \<Rightarrow>
          (let nodes = keep_nodes (sv_Nodes service) (sv_Nodes gone)
           in if length nodes > 0
              then cache_set now (sv_Name service) (services[index := service\<lparr>sv_Nodes := nodes\<rparr>]) c
              else if length services = 1 then cache_del (sv_Name service) c
              else cache_set now (sv_Name service)
                     (filter (\<lambda>s. sv_Version s \<noteq> sv_Version service) services) c))"

definition cache_update :: "int \<Rightarrow> result option \<Rightarrow> cache \<Rightarrow> cache" where
  "cache_update now res c =
     (case res of
        None \<Rightarrow> c
      | Some r \<Rightarrow>
          let name = sv_Name (rs_Service r)
          in if map_of (ca_watched c) name = None then c
             else case map_of (ca_cache c) name of
               None \<Rightarrow> c
             | Some services \<Rightarrow>
                 if length (sv_Nodes (rs_Service r)) = 0
                 then (if rs_Action r = ''delete'' then cache_del name c else c)
                 else if rs_Action r = ''create'' \<or> rs_Action r = ''update''
                 then update_add now (rs_Service r) services c
                 else if rs_Action r = ''delete'' then update_delete now (rs_Service r) services c
                 else if rs_Action r = ''override''
                 then (case find_version (sv_Version (rs_Service r)) 0 None services of
                         None \<Rightarrow> c
                       | Some (service, _) \<Rightarrow> cache_del (sv_Name service) c)
                 else c)"

text \<open>
  \<open>watch\<close>: the events that \<open>Next\<close> returns, each with the time it is handled, until \<open>Next\<close> fails.
\<close>

definition watch_event :: "cache \<Rightarrow> int \<times> result option \<Rightarrow> cache" where
  "watch_event c ev =
     (let c' = (if ca_status c \<noteq> None then setStatus None c else c)
      in cache_update (fst ev) (snd ev) c')"

definition cache_watch :: "(int \<times> result option) list \<Rightarrow> cache \<Rightarrow> cache" where
  "cache_watch events c = foldl watch_event c events"

text \<open>
  \<open>run\<close>.  One element of the input list is one round of its loop: whether the cache was stopped
  when the round starts, the error of \<open>Watch\<close> if it fails, the events and the final error of
  \<open>watch\<close>, and whether the cache is stopped after an error.  The result: the cache, the two
  counters, the pauses it made and whether the loop has returned.
\<close>

record round =
  rd_stop :: bool
  rd_jitter :: int
  rd_Watch :: "registry_error option"
  rd_events :: "(int \<times> result option) list"
  rd_Next :: "registry_error"
  rd_stop_after :: bool

definition stop_if :: "bool \<Rightarrow> cache \<Rightarrow> cache" where
  "stop_if b c = (if b then c\<lparr>ca_exit := True\<rparr> else c)"

definition run_exit :: "string \<Rightarrow> cache \<Rightarrow> cache" where
  "run_exit service c = c\<lparr>ca_watched := [], ca_running := AList.update service False (ca_running c)\<rparr>"

definition next_attempt :: "nat \<Rightarrow> nat" where
  "next_attempt a = Suc (if a > 3 then 0 else a)"

fun run_loop ::
  "string \<Rightarrow> nat \<Rightarrow> nat \<Rightarrow> int list \<Rightarrow> round list \<Rightarrow> cache \<Rightarrow> cache \<times> int list \<times> bool" where
  "run_loop service a b sleeps [] c = (c, sleeps, False)"
| "run_loop service a b sleeps (rd # rds) c =
     (let c1 = stop_if (rd_stop rd) c
      in if quit c1 then (run_exit service c1, sleeps, True)
         else let sleeps1 = sleeps @ [rd_jitter rd * 1000000]
         in case rd_Watch rd of
              Some err \<Rightarrow>
                (let c2 = stop_if (rd_stop_after rd) c1
                 in if quit c2 then (run_exit service c2, sleeps1, True)
                    else run_loop service (next_attempt a) b (sleeps1 @ [backoff a]) rds
                           (setStatus (Some err) c2))
            | None \<Rightarrow>
                (let c2 = stop_if (rd_stop_after rd) (cache_watch (rd_events rd) c1)
                 in if quit c2 then (run_exit service c2, sleeps1, True)
                    else run_loop service 0 (next_attempt b) (sleeps1 @ [backoff b]) rds
                           (setStatus (Some (rd_Next rd)) c2)))"

definition cache_run :: "string \<Rightarrow> round list \<Rightarrow> cache \<Rightarrow> cache \<times> int list \<times> bool" where
  "cache_run service rounds c =
     run_loop service 0 0 [] rounds (c\<lparr>ca_running := AList.update service True (ca_running c)\<rparr>)"

definition cache_GetService ::
  "int \<Rightarrow> registry_error + service list \<Rightarrow> string \<Rightarrow> cache \<Rightarrow> cache \<times> (registry_error + service list)" where
  "cache_GetService now answer service c =
     (let (c', r) = cache_get now answer service c
      in case r of
           Inl err \<Rightarrow> (c', Inl err)
         | Inr services \<Rightarrow> if length services = 0 then (c', Inl ErrNotFound) else (c', Inr services))"

definition cache_Stop :: "cache \<Rightarrow> cache" where
  "cache_Stop c = (if ca_exit c then c else c\<lparr>ca_exit := True\<rparr>)"

section \<open>Invariant\<close>

text \<open>
  What a lookup must return for the cache to work: services of that name, one per version.  This
  is the contract between a registry and the cache.
\<close>

definition list_ok :: "string \<Rightarrow> service list \<Rightarrow> bool" where
  "list_ok name ss \<longleftrightarrow> list_all (\<lambda>s. sv_Name s = name) ss \<and> distinct (map sv_Version ss)"

locale service_lookup =
  fixes inv :: "'s \<Rightarrow> bool" and lookup :: "string \<Rightarrow> 's \<Rightarrow> 'e + service list"
  assumes lookup_ok: "inv m \<Longrightarrow> lookup name m = Inr ss \<Longrightarrow> list_ok name ss"

interpretation mem_lookup: service_lookup mem_inv GetService
proof
  fix m name ss
  assume "mem_inv m" and "GetService name m = Inr ss"
  then obtain vs where vs: "versions_ok name vs" "ss = map (\<lambda>(_, r). recordToService r) vs"
    by (auto simp: GetService_def mem_inv_def dest: records_ok_lookup split: option.splits)
  then have "map sv_Version ss = map fst vs" "list_all (\<lambda>s. sv_Name s = name) ss"
    by (auto simp: versions_ok_def rec_ok_def list_all_iff recordToService_def)
  with vs(1) show "list_ok name ss" by (simp add: list_ok_def versions_ok_def go_map_def)
qed

definition cache_inv :: "cache \<Rightarrow> bool" where
  "cache_inv c \<longleftrightarrow> go_map (ca_cache c) \<and> go_map (ca_ttls c) \<and>
     fst ` set (ca_cache c) = fst ` set (ca_ttls c) \<and> list_all (\<lambda>(name, ss). list_ok name ss) (ca_cache c)"

lemma list_ok_Nil [simp]: "list_ok name []" by (simp add: list_ok_def)

lemma cache_inv_New [simp]: "cache_inv (cache_New ttl)"
  by (simp add: cache_inv_def cache_New_def)

lemma cache_inv_cong:
  "ca_cache c' = ca_cache c \<Longrightarrow> ca_ttls c' = ca_ttls c \<Longrightarrow> cache_inv c' = cache_inv c"
  by (simp add: cache_inv_def)

lemma cache_inv_lookup: "cache_inv c \<Longrightarrow> map_of (ca_cache c) name = Some ss \<Longrightarrow> list_ok name ss"
  by (auto simp: cache_inv_def dest: list_all_map_of)

lemma fst_set_update: "fst ` set (AList.update k v m) = insert k (fst ` set m)"
  by (induction m) auto

lemma fst_set_delete: "fst ` set (AList.delete k m) = fst ` set m - {k}"
  by (auto simp: set_delete_go)

lemma cache_inv_set: "cache_inv c \<Longrightarrow> list_ok name ss \<Longrightarrow> cache_inv (cache_set now name ss c)"
  unfolding cache_inv_def cache_set_def
  by (auto simp: fst_set_update intro!: go_map_intros)

lemma cache_inv_del: "cache_inv c \<Longrightarrow> cache_inv (cache_del name c)"
  unfolding cache_inv_def cache_del_def
  by (auto simp: fst_set_delete intro!: go_map_intros)

lemma cache_inv_status [simp]: "cache_inv (setStatus e c) = cache_inv c"
  by (rule cache_inv_cong) (simp_all add: setStatus_def)

lemma cache_inv_watch_service [simp]: "cache_inv (watch_service name c) = cache_inv c"
  by (rule cache_inv_cong) (simp_all add: watch_service_def Let_def)

lemma cache_inv_get:
  "cache_inv c \<Longrightarrow> (\<And>ss. answer = Inr ss \<Longrightarrow> list_ok name ss) \<Longrightarrow> cache_inv (fst (cache_get now answer name c))"
  by (auto simp: cache_get_def get_from_registry_def Let_def cache_inv_set split: sum.splits)

lemma find_version_None:
  "find_version v i acc ss = None \<longleftrightarrow> acc = None \<and> v \<notin> sv_Version ` set ss"
  by (induction ss arbitrary: i acc) auto

lemma find_version_Some:
  "find_version v i acc ss = Some (s, j) \<Longrightarrow>
     acc = Some (s, j) \<or> (\<exists>k < length ss. j = i + k \<and> ss ! k = s \<and> sv_Version s = v)"
proof (induction ss arbitrary: i acc)
  case (Cons x ss)
  let ?acc = "if sv_Version x = v then Some (x, i) else acc"
  from Cons.prems have "find_version v (Suc i) ?acc ss = Some (s, j)" by simp
  from Cons.IH [OF this] consider "?acc = Some (s, j)"
    | k where "k < length ss" "j = Suc i + k" "ss ! k = s" "sv_Version s = v" by blast
  then show ?case
  proof cases
    case 1
    then show ?thesis by (auto split: if_splits)
  next
    case (2 k)
    then show ?thesis by (intro disjI2 exI [of _ "Suc k"]) simp
  qed
qed simp

lemma find_version_0:
  assumes "find_version v 0 None ss = Some (s, j)"
  shows "j < length ss" "ss ! j = s" "sv_Version s = v"
  using find_version_Some [OF assms] by auto

lemma append_old_eq: "append_old new old = addNodes_loop new old"
  by (induction new old rule: append_old.induct) simp_all

lemma keep_nodes_eq: "keep_nodes old del = delNodes old del"
proof (induction old)
  case (Cons cur old)
  have "list_ex (\<lambda>n. nd_Id n = nd_Id cur) del \<longleftrightarrow> nd_Id cur \<in> node_ids del"
    unfolding list_ex_iff node_ids_def by (metis image_iff)
  with Cons show ?case by (simp add: Let_def)
qed simp

lemma list_ok_list_update:
  assumes "list_ok name ss" and "j < length ss" and "sv_Version s = sv_Version (ss ! j)" and "sv_Name s = name"
  shows "list_ok name (ss[j := s])"
proof -
  have "map sv_Version (ss[j := s]) = map sv_Version ss"
    using assms(2,3) by (simp add: map_update list_update_same_conv)
  moreover have "\<forall>x \<in> set (ss[j := s]). sv_Name x = name"
    using assms(1,4) set_update_subset_insert [of ss j s] by (auto simp: list_ok_def list_all_iff)
  ultimately show ?thesis using assms(1) by (simp add: list_ok_def list_all_iff)
qed

lemma cache_inv_update_add:
  assumes "cache_inv c" and ok: "list_ok (sv_Name s) ss"
  shows "cache_inv (update_add now s ss c)"
proof (cases "find_version (sv_Version s) 0 None ss")
  case None
  then have "list_ok (sv_Name s) (ss @ [s])"
    using ok by (auto simp: find_version_None list_ok_def)
  with None assms(1) show ?thesis by (simp add: update_add_def cache_inv_set)
next
  case (Some p)
  obtain x j where p: "p = (x, j)" by (cases p)
  note f = find_version_0 [OF Some [unfolded p]]
  with assms Some p show ?thesis
    by (simp add: update_add_def Let_def cache_inv_set list_ok_list_update)
qed

lemma cache_inv_update_delete:
  assumes "cache_inv c" and ok: "list_ok (sv_Name s) ss"
  shows "cache_inv (update_delete now s ss c)"
proof (cases "find_version (sv_Version s) 0 None ss")
  case (Some p)
  obtain x j where p: "p = (x, j)" by (cases p)
  note f = find_version_0 [OF Some [unfolded p]]
  from f ok have name: "sv_Name x = sv_Name s" by (auto simp: list_ok_def list_all_iff)
  have "list_ok (sv_Name s) (filter P ss)" for P
    using ok by (auto simp: list_ok_def list_all_iff distinct_map_filter)
  with assms(1) f name ok Some p show ?thesis
    by (auto simp: update_delete_def Let_def intro!: cache_inv_set cache_inv_del list_ok_list_update)
qed (use assms in \<open>simp add: update_delete_def\<close>)

lemma cache_inv_update: "cache_inv c \<Longrightarrow> cache_inv (cache_update now res c)"
  unfolding cache_update_def Let_def
  by (auto intro!: cache_inv_update_add cache_inv_update_delete cache_inv_del dest: cache_inv_lookup
      split: option.splits)

lemma cache_inv_watch_event: "cache_inv c \<Longrightarrow> cache_inv (watch_event c ev)"
  by (simp add: watch_event_def Let_def cache_inv_update)

lemma cache_inv_watch: "cache_inv c \<Longrightarrow> cache_inv (cache_watch evs c)"
  unfolding cache_watch_def by (induction evs arbitrary: c) (auto intro: cache_inv_watch_event)

lemma cache_inv_run_loop: "cache_inv c \<Longrightarrow> cache_inv (fst (run_loop service a b sl rds c))"
proof (induction service a b sl rds c rule: run_loop.induct)
  case (2 service a b sleeps rd rds c)
  have [simp]: "cache_inv (stop_if x d) = cache_inv d" "cache_inv (run_exit service d) = cache_inv d" for x d
    by (rule cache_inv_cong, simp_all add: stop_if_def run_exit_def)+
  from 2 show ?case
    by (auto simp: Let_def cache_inv_watch split: option.splits)
qed simp

section \<open>Node ids in the cache\<close>

definition ids_in :: "service list \<Rightarrow> string \<Rightarrow> string set" where
  "ids_in ss v = node_ids (concat (map sv_Nodes (filter (\<lambda>s. sv_Version s = v) ss)))"

definition cached_ids :: "cache \<Rightarrow> string \<Rightarrow> string \<Rightarrow> string set" where
  "cached_ids c name v = (case map_of (ca_cache c) name of None \<Rightarrow> {} | Some ss \<Rightarrow> ids_in ss v)"

lemma version_ids_eq:
  "version_ids m name v = (case GetService name m of Inl _ \<Rightarrow> {} | Inr ss \<Rightarrow> ids_in ss v)"
  by (simp add: version_ids_def ids_in_def split: sum.splits)

lemma ids_in_iff: "i \<in> ids_in ss v \<longleftrightarrow> (\<exists>s \<in> set ss. sv_Version s = v \<and> i \<in> node_ids (sv_Nodes s))"
  by (auto simp: ids_in_def node_ids_def)

lemma ids_in_version:
  assumes "distinct (map sv_Version ss)" and "j < length ss"
  shows "ids_in ss (sv_Version (ss ! j)) = node_ids (sv_Nodes (ss ! j))"
proof -
  have "s = ss ! j" if "s \<in> set ss" "sv_Version s = sv_Version (ss ! j)" for s
    using assms that by (auto simp: distinct_map inj_on_def)
  with assms(2) show ?thesis by (auto simp: ids_in_iff set_eq_iff)
qed

lemma ids_in_list_update:
  assumes "distinct (map sv_Version ss)" and "j < length ss" and "sv_Version s = sv_Version (ss ! j)"
  shows "ids_in (ss[j := s]) v = (if v = sv_Version s then node_ids (sv_Nodes s) else ids_in ss v)"
proof -
  have "set (ss[j := s]) = insert s (set ss - {ss ! j})"
    using assms(1,2) by (intro set_update_distinct) (auto simp: distinct_map)
  moreover have "sv_Version x \<noteq> sv_Version s" if "x \<in> set ss - {ss ! j}" for x
    using that assms by (auto simp: distinct_map inj_on_def)
  ultimately show ?thesis using assms(3) by (auto simp: ids_in_iff set_eq_iff)
qed

lemma node_ids_addNodes_loop: "node_ids (addNodes_loop new old) = node_ids new \<union> node_ids old"
  by (auto simp: node_map_not_None node_map_addNodes_loop split: option.splits)

lemma node_ids_delNodes: "node_ids (delNodes old del) = node_ids old - node_ids del"
  by (auto simp: delNodes_filter node_ids_def)

lemma cached_ids_set [simp]:
  "cached_ids (cache_set now name ss c) n v = (if n = name then ids_in ss v else cached_ids c n v)"
  by (simp add: cached_ids_def cache_set_def)

lemma cached_ids_del [simp]:
  "ca_status c = None \<Longrightarrow> cached_ids (cache_del name c) n v = (if n = name then {} else cached_ids c n v)"
  by (simp add: cached_ids_def cache_del_def)

lemma node_ids_Nil_iff: "node_ids ns = {} \<longleftrightarrow> ns = []"
  by (simp add: node_ids_def)

lemma cached_ids_update_add:
  assumes "cache_inv c" and ss: "map_of (ca_cache c) (sv_Name s) = Some ss"
  shows "cached_ids (update_add now s ss c) n v =
    cached_ids c n v \<union> (if n = sv_Name s \<and> v = sv_Version s then node_ids (sv_Nodes s) else {})"
proof (cases "find_version (sv_Version s) 0 None ss")
  case None
  then have "sv_Version s \<notin> sv_Version ` set ss" by (simp add: find_version_None)
  moreover have "cached_ids c (sv_Name s) v = ids_in ss v" using ss by (simp add: cached_ids_def)
  moreover have "ids_in (ss @ [s]) v = ids_in ss v \<union> (if v = sv_Version s then node_ids (sv_Nodes s) else {})"
    by (auto simp: ids_in_def)
  ultimately show ?thesis using None by (simp add: update_add_def)
next
  case (Some p)
  obtain x j where p: "p = (x, j)" by (cases p)
  note f = find_version_0 [OF Some [unfolded p]]
  from cache_inv_lookup [OF assms] have d: "distinct (map sv_Version ss)" by (simp add: list_ok_def)
  have x: "ids_in ss (sv_Version s) = node_ids (sv_Nodes x)" using ids_in_version [OF d f(1)] f by simp
  have cs: "cached_ids c (sv_Name s) v = ids_in ss v" using ss by (simp add: cached_ids_def)
  let ?s = "s\<lparr>sv_Nodes := addNodes_loop (sv_Nodes s) (sv_Nodes x)\<rparr>"
  have "ids_in (ss[j := ?s]) v = ids_in ss v \<union> (if v = sv_Version s then node_ids (sv_Nodes s) else {})"
    using ids_in_list_update [OF d f(1), of ?s v] f(2,3) x by (auto simp: node_ids_addNodes_loop)
  with Some p cs show ?thesis by (simp add: update_add_def Let_def append_old_eq)
qed

lemma cached_ids_update_delete:
  assumes "cache_inv c" and ss: "map_of (ca_cache c) (sv_Name s) = Some ss" and "ca_status c = None"
  shows "cached_ids (update_delete now s ss c) n v =
    cached_ids c n v - (if n = sv_Name s \<and> v = sv_Version s then node_ids (sv_Nodes s) else {})"
proof (cases "find_version (sv_Version s) 0 None ss")
  case None
  then have "\<forall>x \<in> set ss. sv_Version x \<noteq> sv_Version s" by (metis find_version_None image_eqI)
  with None ss show ?thesis by (auto simp: update_delete_def ids_in_iff cached_ids_def)
next
  case (Some p)
  obtain x j where p: "p = (x, j)" by (cases p)
  note f = find_version_0 [OF Some [unfolded p]]
  from cache_inv_lookup [OF assms(1,2)] have ok: "list_ok (sv_Name s) ss" .
  then have d: "distinct (map sv_Version ss)" by (simp add: list_ok_def)
  have name: "sv_Name x = sv_Name s" using ok f by (auto simp: list_ok_def list_all_iff)
  let ?ns = "delNodes (sv_Nodes x) (sv_Nodes s)"
  have x: "ids_in ss (sv_Version s) = node_ids (sv_Nodes x)" using ids_in_version [OF d f(1)] f by simp
  show ?thesis
  proof (cases "?ns = []")
    case False
    have cs: "cached_ids c (sv_Name s) v = ids_in ss v" using ss by (simp add: cached_ids_def)
    have "ids_in (ss[j := x\<lparr>sv_Nodes := ?ns\<rparr>]) v =
        ids_in ss v - (if v = sv_Version s then node_ids (sv_Nodes s) else {})"
      using ids_in_list_update [OF d f(1), of "x\<lparr>sv_Nodes := ?ns\<rparr>" v] f(2,3) x by (auto simp: node_ids_delNodes)
    with False Some p cs name show ?thesis by (simp add: update_delete_def Let_def keep_nodes_eq)
  next
    case True
    then have gone: "node_ids (sv_Nodes x) \<subseteq> node_ids (sv_Nodes s)"
      using node_ids_delNodes [of "sv_Nodes x" "sv_Nodes s"] by auto
    show ?thesis
    proof (cases "length ss = 1")
      case True
      with f have "ss = [x]" by (cases ss) auto
      with True \<open>?ns = []\<close> Some p f x gone name ss assms(3) show ?thesis
        by (auto simp: update_delete_def keep_nodes_eq Let_def cached_ids_def ids_in_iff cache_del_def)
    next
      case False
      have cs: "cached_ids c (sv_Name s) v = ids_in ss v" using ss by (simp add: cached_ids_def)
      have "ids_in (filter (\<lambda>y. sv_Version y \<noteq> sv_Version s) ss) v = (if v = sv_Version s then {} else ids_in ss v)"
        by (auto simp: ids_in_iff)
      with False \<open>?ns = []\<close> Some p f x gone name cs show ?thesis
        by (auto simp: update_delete_def keep_nodes_eq Let_def)
    qed
  qed
qed

text \<open>The effect of one event on the ids of a watched and cached service.\<close>

lemma watch_event_watched [simp]: "ca_watched (watch_event c ev) = ca_watched c"
  by (auto simp: watch_event_def cache_update_def Let_def setStatus_def update_add_def update_delete_def
      cache_set_def cache_del_def split: option.splits)

lemma set_del_other:
  "n \<noteq> name \<Longrightarrow> map_of (ca_cache (cache_set now n ss c)) name = map_of (ca_cache c) name"
  "n \<noteq> name \<Longrightarrow> map_of (ca_cache (cache_del n c)) name = map_of (ca_cache c) name"
  by (simp_all add: cache_set_def cache_del_def)

lemma find_version_name: "list_ok name ss \<Longrightarrow> find_version v 0 None ss = Some (x, j) \<Longrightarrow> sv_Name x = name"
  using find_version_0 [of v ss x j] by (auto simp: list_ok_def list_all_iff)

lemma update_add_other:
  "sv_Name s \<noteq> name \<Longrightarrow> map_of (ca_cache (update_add now s ss c)) name = map_of (ca_cache c) name"
  by (simp add: update_add_def Let_def set_del_other split: option.split prod.split)

lemma update_delete_other:
  assumes "sv_Name s \<noteq> name" and "list_ok (sv_Name s) ss"
  shows "map_of (ca_cache (update_delete now s ss c)) name = map_of (ca_cache c) name"
proof (cases "find_version (sv_Version s) 0 None ss")
  case (Some p)
  obtain x j where p: "p = (x, j)" by (cases p)
  with Some assms have "sv_Name x \<noteq> name" by (auto dest: find_version_name)
  with Some p show ?thesis by (simp add: update_delete_def Let_def set_del_other)
qed (simp add: update_delete_def)

lemma cache_update_other:
  assumes "sv_Name (rs_Service r) \<noteq> name" and inv: "cache_inv c"
  shows "map_of (ca_cache (cache_update now (Some r) c)) name = map_of (ca_cache c) name"
proof (cases "map_of (ca_cache c) (sv_Name (rs_Service r))")
  case (Some ss)
  note ok = cache_inv_lookup [OF inv Some]
  have "map_of (ca_cache (case find_version v 0 None ss of None \<Rightarrow> c
      | Some (service, _) \<Rightarrow> cache_del (sv_Name service) c)) name = map_of (ca_cache c) name" for v
  proof (cases "find_version v 0 None ss")
    case (Some p)
    obtain x j where p: "p = (x, j)" by (cases p)
    with Some assms(1) have "sv_Name x \<noteq> name" by (auto dest: find_version_name [OF ok])
    with Some p show ?thesis by (simp add: set_del_other)
  qed simp
  with Some ok assms(1) show ?thesis
    by (simp add: cache_update_def Let_def update_add_other update_delete_other set_del_other)
qed (simp add: cache_update_def Let_def)

lemma watch_event_other:
  assumes "sv_Name (rs_Service r) \<noteq> name" and "cache_inv c"
  shows "map_of (ca_cache (watch_event c (now, Some r))) name = map_of (ca_cache c) name"
proof -
  have "cache_inv (setStatus None c)" "ca_cache (setStatus None c) = ca_cache c"
    using assms(2) by simp (simp add: setStatus_def)
  then show ?thesis
    using assms cache_update_other [OF assms(1), of "setStatus None c"] cache_update_other [OF assms]
    by (simp add: watch_event_def Let_def)
qed

lemma watch_event_add:
  assumes "cache_inv c" and "rs_Action r = ''update''" and "s = rs_Service r"
    and "map_of (ca_watched c) (sv_Name s) \<noteq> None" and "map_of (ca_cache c) (sv_Name s) = Some ss"
  shows "cached_ids (watch_event c (now, Some r)) n v =
    cached_ids c n v \<union> (if n = sv_Name s \<and> v = sv_Version s then node_ids (sv_Nodes s) else {})"
proof -
  define d where "d = (if ca_status c \<noteq> None then setStatus None c else c)"
  have c: "cache_inv d" "map_of (ca_cache d) (sv_Name s) = Some ss" "map_of (ca_watched d) (sv_Name s) \<noteq> None"
    "cached_ids d = cached_ids c"
    using assms(1,4,5) by (auto simp: d_def setStatus_def cached_ids_def cache_inv_def intro!: ext)
  have "watch_event c (now, Some r) = cache_update now (Some r) d"
    by (simp add: watch_event_def d_def Let_def)
  also have "\<dots> = (if sv_Nodes s = [] then d else update_add now s ss d)"
    using c(2,3) assms(2,3) by (auto simp: cache_update_def Let_def)
  finally have "watch_event c (now, Some r) = (if sv_Nodes s = [] then d else update_add now s ss d)" .
  with cached_ids_update_add [OF c(1,2)] c(4) show ?thesis by simp
qed

lemma watch_event_delete:
  assumes "cache_inv c" and "rs_Action r = ''delete''" and "s = rs_Service r"
    and "map_of (ca_watched c) (sv_Name s) \<noteq> None" and "map_of (ca_cache c) (sv_Name s) = Some ss"
    and "sv_Nodes s \<noteq> []"
  shows "cached_ids (watch_event c (now, Some r)) n v =
    cached_ids c n v - (if n = sv_Name s \<and> v = sv_Version s then node_ids (sv_Nodes s) else {})"
proof -
  define d where "d = (if ca_status c \<noteq> None then setStatus None c else c)"
  have c: "cache_inv d" "map_of (ca_cache d) (sv_Name s) = Some ss" "map_of (ca_watched d) (sv_Name s) \<noteq> None"
    "cached_ids d = cached_ids c" "ca_status d = None"
    using assms(1,4,5) by (auto simp: d_def setStatus_def cached_ids_def cache_inv_def intro!: ext)
  have "watch_event c (now, Some r) = cache_update now (Some r) d"
    by (simp add: watch_event_def d_def Let_def)
  also have "\<dots> = update_delete now s ss d"
    using c(2,3) assms(2,3,6) by (auto simp: cache_update_def Let_def)
  finally have "watch_event c (now, Some r) = update_delete now s ss d" .
  with cached_ids_update_delete [OF c(1,2,5)] c(4) show ?thesis by simp
qed

section \<open>Interleavings\<close>

text \<open>
  The critical sections of the cache, in any order: callers of \<open>GetService\<close> (whose write of
  \<open>watched\<close> and whose answer from the registry are separate sections, so a caller may come back with
  any list it copied before), watchers and \<open>Stop\<close>.  Answers of the registry satisfy its contract.
\<close>

inductive cache_step :: "cache \<Rightarrow> cache \<Rightarrow> bool" where
  cs_watch_service: "cache_step c (watch_service name c)"
| cs_answer: "(\<And>ss. answer = Inr ss \<Longrightarrow> list_ok name ss) \<Longrightarrow>
    cache_step c (fst (get_from_registry now answer name cached c))"
| cs_status: "cache_step c (setStatus e c)"
| cs_update: "cache_step c (cache_update now res c)"
| cs_run: "cache_step c (c\<lparr>ca_running := AList.update name True (ca_running c)\<rparr>)"
| cs_run_exit: "cache_step c (run_exit name c)"
| cs_stop: "cache_step c (cache_Stop c)"

inductive cache_reachable :: "cache \<Rightarrow> bool" where
  cr_new: "cache_reachable (cache_New ttl)"
| cr_step: "cache_reachable c \<Longrightarrow> cache_step c c' \<Longrightarrow> cache_reachable c'"

lemma cache_step_inv: "cache_step c c' \<Longrightarrow> cache_inv c \<Longrightarrow> cache_inv c'"
proof (induction rule: cache_step.induct)
  case (cs_answer answer name c now cached)
  then show ?case
    by (auto simp: get_from_registry_def Let_def cache_inv_set split: sum.splits)
next
  case (cs_run c name)
  then show ?case by (simp add: cache_inv_def)
next
  case (cs_run_exit c name)
  then show ?case by (simp add: cache_inv_def run_exit_def)
next
  case (cs_stop c)
  then show ?case by (simp add: cache_inv_def cache_Stop_def)
qed (simp_all add: cache_inv_update)

lemma cache_reachable_inv: "cache_reachable c \<Longrightarrow> cache_inv c"
  by (induction rule: cache_reachable.induct) (auto intro: cache_step_inv)

section \<open>Pauses of the watch loop\<close>

lemma next_attempt_le: "a \<le> 4 \<Longrightarrow> next_attempt a \<le> 4"
  by (simp add: next_attempt_def)

lemma backoff_mono: "a \<le> b \<Longrightarrow> backoff a \<le> backoff b"
  by (auto simp: backoff_def intro: power_increasing)

lemma backoff_bound: "a \<le> 4 \<Longrightarrow> 0 \<le> backoff a \<and> backoff a \<le> 10 * 1000000000"
  using backoff_mono [of a 4] backoff_mono [of 0 a] by (simp add: backoff_def [of 4] backoff_def [of 0])

lemma run_loop_sleeps:
  "a \<le> 4 \<Longrightarrow> b \<le> 4 \<Longrightarrow> list_all (\<lambda>t. 0 \<le> t \<and> t \<le> 10 * 1000000000) sl \<Longrightarrow>
     list_all (\<lambda>rd. 0 \<le> rd_jitter rd \<and> rd_jitter rd < 100) rds \<Longrightarrow>
     list_all (\<lambda>t. 0 \<le> t \<and> t \<le> 10 * 1000000000) (fst (snd (run_loop service a b sl rds c)))"
proof (induction service a b sl rds c rule: run_loop.induct)
  case (2 service a b sleeps rd rds c)
  have b: "list_all (\<lambda>t. 0 \<le> t \<and> t \<le> 10 * 1000000000) (sleeps @ [rd_jitter rd * 1000000])"
    "list_all (\<lambda>t. 0 \<le> t \<and> t \<le> 10 * 1000000000) ((sleeps @ [rd_jitter rd * 1000000]) @ [backoff a])"
    "list_all (\<lambda>t. 0 \<le> t \<and> t \<le> 10 * 1000000000) ((sleeps @ [rd_jitter rd * 1000000]) @ [backoff b])"
    using 2(3-6) backoff_bound by auto
  show ?case
  proof (cases "quit (stop_if (rd_stop rd) c)")
    case True
    with 2(5) show ?thesis by (simp add: Let_def)
  next
    case nq: False
    show ?thesis
    proof (cases "rd_Watch rd")
      case None
      from 2(1) [OF refl nq refl None refl] 2(3-6) b nq None next_attempt_le show ?thesis
        by (simp add: Let_def)
    next
      case (Some e)
      from 2(2) [OF refl nq refl Some refl] 2(3-6) b nq Some next_attempt_le show ?thesis
        by (simp add: Let_def)
    qed
  qed
qed simp

lemma run_loop_stops:
  "ca_exit c \<Longrightarrow> rds \<noteq> [] \<Longrightarrow>
     run_loop service a b sl rds c = (run_exit service c, sl, True)"
  by (cases rds; cases c) (auto simp: Let_def stop_if_def quit_def)

section \<open>Properties\<close>

text \<open>
  What \<open>GetService\<close> of the cache returns.  An entry that is not empty and not past its expiry
  is returned without asking the registry and nothing changes.  Otherwise the registry decides:
  its services are returned and stored with a new expiry, an empty list is \<open>ErrNotFound\<close>, and on
  an error the old services are returned and kept if there are any, the error if not.
\<close>

lemma cache_GetService_answers:
  "let old = (case map_of (ca_cache c) name of None \<Rightarrow> [] | Some ss \<Rightarrow> ss);
       ttl = map_of (ca_ttls c) name;
       (c', r) = cache_GetService now answer name c
   in if isValid now old ttl then c' = c \<and> r = Inr old
      else case answer of
        Inr ss \<Rightarrow> r = (if ss = [] then Inl ErrNotFound else Inr ss) \<and> ca_status c' = None \<and>
          ca_cache c' = AList.update name ss (ca_cache c) \<and>
          ca_ttls c' = AList.update name (now + ca_TTL c) (ca_ttls c)
      | Inl e \<Rightarrow> r = (if old = [] then Inl e else Inr old) \<and>
          ca_status c' = (if old = [] then ca_status c else Some e) \<and>
          ca_cache c' = ca_cache c \<and> ca_ttls c' = ca_ttls c"
proof -
  have w: "ca_cache (watch_service name c) = ca_cache c" "ca_ttls (watch_service name c) = ca_ttls c"
    "ca_TTL (watch_service name c) = ca_TTL c" "ca_status (watch_service name c) = ca_status c"
    by (simp_all add: watch_service_def Let_def)
  have v: "isValid now [] t \<longleftrightarrow> False" for t by (simp add: isValid_def)
  define old where "old = (case map_of (ca_cache c) name of None \<Rightarrow> [] | Some ss \<Rightarrow> ss)"
  show ?thesis
    unfolding cache_GetService_def cache_get_def get_from_registry_def Let_def old_def [symmetric]
    by (cases "isValid now old (map_of (ca_ttls c) name)"; cases answer; cases "old = []")
      (auto simp: v w setStatus_def cache_set_def)
qed

text \<open>
  C32.  In every state the cache can reach, under any interleaving of lookups, watchers and stops,
  with a registry that answers a lookup with services of that name of distinct versions: services
  and expiry times are kept for the same names, and every list holds services of its own name,
  one per version.
\<close>

theorem cache_reachable_invariant:
  assumes "cache_reachable c"
  shows "cache_inv c"
  using assms by (rule cache_reachable_inv)

theorem cache_reachable_invariant_witness:
  "\<exists>c s. cache_reachable c \<and> map_of (ca_cache c) ''a'' = Some [s] \<and> cache_inv c"
proof -
  let ?s = "\<lparr>sv_Name = ''a'', sv_Version = ''1'', sv_Metadata = [], sv_Endpoints = [], sv_Nodes = []\<rparr>"
  let ?c = "fst (get_from_registry 0 (Inr [?s]) ''a'' [] (cache_New None))"
  have "cache_reachable ?c"
    by (rule cr_step [OF cr_new cs_answer]) (simp add: list_ok_def)
  moreover have "map_of (ca_cache ?c) ''a'' = Some [?s]"
    by (simp add: get_from_registry_def Let_def cache_set_def cache_New_def)
  ultimately show ?thesis using cache_reachable_invariant by blast
qed

text \<open>
  The watch loop of the cache pauses at most ten seconds at a time, however often \<open>Watch\<close> and
  \<open>Next\<close> fail (both attempt counters restart after the fifth failure), and it returns in the first
  round that starts after \<open>Stop\<close>.
\<close>

lemma cache_run_pauses:
  assumes "list_all (\<lambda>rd. 0 \<le> rd_jitter rd \<and> rd_jitter rd < 100) rounds"
  shows "list_all (\<lambda>t. 0 \<le> t \<and> t \<le> 10 * 1000000000) (fst (snd (cache_run service rounds c))) \<and>
    (rounds = [] \<or> snd (snd (cache_run service rounds (cache_Stop c))))"
proof
  show "list_all (\<lambda>t. 0 \<le> t \<and> t \<le> 10 * 1000000000) (fst (snd (cache_run service rounds c)))"
    unfolding cache_run_def using assms by (intro run_loop_sleeps) simp_all
  have "ca_exit ((cache_Stop c)\<lparr>ca_running := x\<rparr>)" for x by (simp add: cache_Stop_def)
  then have "rounds \<noteq> [] \<Longrightarrow> snd (snd (cache_run service rounds (cache_Stop c)))"
    unfolding cache_run_def by (simp add: run_loop_stops)
  then show "rounds = [] \<or> snd (snd (cache_run service rounds (cache_Stop c)))" by blast
qed

end
