(* ===== verification/Registry_Sync.thy ===== *)
theory Registry_Sync
  imports Registry_Cache
begin

text \<open>
  The registry and the cache together: the in-memory registry of \<open>Memory_Registry\<close> behind the
  cache of \<open>Registry_Cache\<close>, with the events of the one sent, late, in any order or not at all, to the watcher of the other.
\<close>

section \<open>The registry and its cache\<close>

text \<open>
  The pair for one watched name.  The registry takes its steps of \<open>mem_step\<close>; its queued events are sent by
  goroutines of their own, in any order, and each reaches the cache's watcher (with the id \<open>wid\<close>) or is lost, because the
  watcher was not ready in time.  A lookup that asks the registry has its answer on the way (\<open>fs_answers\<close>) until it is stored.
  An event carries a copy of the service.

  Two sets of (name, version, node id) say what has gone wrong so far.  \<open>fs_missed\<close>: the update was lost, or was handled while an
  answer was on its way, or the node was registered while a delete of it was queued, or without an event.  \<open>fs_stale\<close>: the
  delete was lost, or was handled while an answer was on its way, or the node was deregistered while an update of it was queued, or it
  expired without an event, or it was announced and not stored.
\<close>

record follow_st =
  fs_reg :: memRegistry
  fs_cache :: cache
  fs_answers :: "service list list"
  fs_missed :: "(string \<times> string \<times> string) set"
  fs_stale :: "(string \<times> string \<times> string) set"

definition queued :: "string \<Rightarrow> memRegistry \<Rightarrow> (string \<times> string \<times> string) set" where
  "queued action m = (\<Union>r \<in> {r \<in> set (mr_events m). rs_Action r = action}. service_ids (rs_Service r))"

definition went_wrong :: "string \<Rightarrow> bool \<Rightarrow> result \<Rightarrow> (string \<times> string \<times> string) set" where
  "went_wrong action b r = (if b \<and> rs_Action r = action then service_ids (rs_Service r) else {})"

inductive follow_step :: "string \<Rightarrow> string \<Rightarrow> follow_st \<Rightarrow> follow_st \<Rightarrow> bool" for wid name where
  fw_register: "Register now ttl s (fs_reg st) = Inr m' \<Longrightarrow>
    follow_step wid name st (st\<lparr>fs_reg := m', fs_missed := fs_missed st \<union> service_ids s \<inter> queued ''delete'' (fs_reg st),
      fs_stale := fs_stale st \<union> (service_ids s - registered m')\<rparr>)"
| fw_deregister: "follow_step wid name st (st\<lparr>fs_reg := Deregister s (fs_reg st), fs_stale := fs_stale st \<union> service_ids s \<inter> queued ''update'' (fs_reg st)\<rparr>)"
| fw_registry: "mem_step (fs_reg st) m' \<Longrightarrow> mr_events m' = mr_events (fs_reg st) \<Longrightarrow>
    follow_step wid name st (st\<lparr>fs_reg := m', fs_missed := fs_missed st \<union> (registered m' - registered (fs_reg st)),
      fs_stale := fs_stale st \<union> (registered (fs_reg st) - registered m')\<rparr>)"
| fw_send: "r \<in> set (mr_events (fs_reg st)) \<Longrightarrow> sendEvent ready r (fs_reg st) = (m', receivers) \<Longrightarrow>
    got = ((wid, r) \<in> set receivers) \<Longrightarrow> lossy = (\<not> got \<or> fs_answers st \<noteq> []) \<Longrightarrow>
    follow_step wid name st (st\<lparr>fs_reg := m'\<lparr>mr_events := remove1 r (mr_events m')\<rparr>,
      fs_cache := (if got \<and> sv_Name (rs_Service r) = name then watch_event (fs_cache st) (now, Some r) else fs_cache st),
      fs_missed := fs_missed st \<union> went_wrong ''update'' lossy r, fs_stale := fs_stale st \<union> went_wrong ''delete'' lossy r\<rparr>)"
| fw_ask: "GetService name (fs_reg st) = Inr ss \<Longrightarrow> follow_step wid name st (st\<lparr>fs_answers := fs_answers st @ [ss]\<rparr>)"
| fw_store: "fs_answers st = as @ ss # bs \<Longrightarrow>
    follow_step wid name st (st\<lparr>fs_answers := as @ bs, fs_cache := fst (get_from_registry now (Inr ss) name cached (fs_cache st))\<rparr>)"
| fw_cache: "cache_step (fs_cache st) c' \<Longrightarrow> map_of (ca_cache c') name = map_of (ca_cache (fs_cache st)) name \<Longrightarrow>
    map_of (ca_watched c') name \<noteq> None \<Longrightarrow> follow_step wid name st (st\<lparr>fs_cache := c'\<rparr>)"

text \<open>The cache has no entry for the name, or one with the registry's nodes.\<close>

definition in_sync :: "string \<Rightarrow> memRegistry \<times> cache \<Rightarrow> bool" where
  "in_sync name st \<longleftrightarrow>
     (case map_of (ca_cache (snd st)) name of
        None \<Rightarrow> True
      | Some ss \<Rightarrow> \<forall>v. ids_in ss v = version_ids (fst st) name v)"

lemma in_syncI:
  assumes "\<And>v. map_of (ca_cache c) name \<noteq> None \<Longrightarrow> cached_ids c name v = version_ids m name v"
  shows "in_sync name (m, c)"
  using assms by (auto simp: in_sync_def cached_ids_def split: option.splits)

text \<open>What the registry just answered is in sync.\<close>

lemma in_sync_fetched:
  "map_of (ca_cache c) name = Some ss \<Longrightarrow> GetService name m = Inr ss \<Longrightarrow> in_sync name (m, c)"
  by (simp add: in_sync_def version_ids_eq)

lemma in_syncD:
  "in_sync name (m, c) \<Longrightarrow> map_of (ca_cache c) name = Some ss \<Longrightarrow> cached_ids c name v = version_ids m name v"
  by (simp add: in_sync_def cached_ids_def)

lemma version_ids_registered: "version_ids m name v = {i. (name, v, i) \<in> registered m}"
  by (simp add: registered_def)

text \<open>A registration that queues no event changes no node id.\<close>

lemma Register_events:
  assumes inv: "mem_inv m" and R: "Register now ttl s m = Inr m'"
  shows "mr_events m' = mr_events m @ [\<lparr>rs_Action = ''update'', rs_Service = s\<rparr>] \<or>
    mr_events m' = mr_events m \<and> service_ids s \<subseteq> registered m"
proof (cases "find_record (mr_records m) (sv_Name s) (sv_Version s)")
  case None
  with R show ?thesis by (auto simp: Register_def Let_def)
next
  case (Some r)
  obtain a ns where reg: "register_nodes now ttl (False, rc_Nodes r) (sv_Nodes s) = (a, ns)" by fastforce
  show ?thesis
  proof (cases a)
    case True
    with R Some reg show ?thesis by (auto simp: Register_def Let_def)
  next
    case False
    with register_nodes_ids [OF reg] have "node_ids (sv_Nodes s) \<subseteq> map_ids (rc_Nodes r)" by auto
    then have "service_ids s \<subseteq> registered m"
      using Some by (auto simp: service_ids_def registered_def version_ids_find [OF inv])
    with False R Some reg show ?thesis by (auto simp: Register_def Let_def sum_bind_eq_Inr)
  qed
qed

lemma Deregister_events:
  "mr_events (Deregister s m) = mr_events m @ [\<lparr>rs_Action = ''delete'', rs_Service = s\<rparr>] \<or>
   Deregister s m = m"
  by (simp add: Deregister_def Let_def split: option.splits)

lemma watch_event_delete_all:
  assumes "sv_Nodes s = []" and "map_of (ca_watched c) (sv_Name s) \<noteq> None"
  shows "map_of (ca_cache (watch_event c (now, Some \<lparr>rs_Action = ''delete'', rs_Service = s\<rparr>))) (sv_Name s) = None"
  using assms
  by (auto simp: watch_event_def cache_update_def Let_def cache_del_def setStatus_def split: option.splits)

lemma watch_event_no_entry:
  assumes "map_of (ca_cache c) (sv_Name (rs_Service r)) = None"
  shows "map_of (ca_cache (watch_event c (now, Some r))) (sv_Name (rs_Service r)) = None"
  using assms by (auto simp: watch_event_def cache_update_def Let_def setStatus_def)

lemma watch_event_unaffected:
  assumes "cache_inv c" and "name \<noteq> sv_Name (rs_Service r) \<or> map_of (ca_cache c) name = None"
  shows "map_of (ca_cache (watch_event c (now, Some r))) name = map_of (ca_cache c) name"
  using assms watch_event_no_entry [of c r now] watch_event_other [of r name c now]
  by (cases "name = sv_Name (rs_Service r)") auto

section \<open>What the cache knows\<close>

text \<open>
  A set of nodes tracks the registry for the name, up to the queued events and what went wrong.
\<close>

definition named :: "string \<Rightarrow> (string \<Rightarrow> string set) \<Rightarrow> (string \<times> string \<times> string) set" where
  "named name f = {(n, v, i). n = name \<and> i \<in> f v}"

definition tracks :: "string \<Rightarrow> follow_st \<Rightarrow> (string \<Rightarrow> string set) \<Rightarrow> bool" where
  "tracks name st f \<longleftrightarrow> named name f \<subseteq> registered (fs_reg st) \<union> queued ''delete'' (fs_reg st) \<union> fs_stale st \<and>
     {t \<in> registered (fs_reg st). fst t = name} \<subseteq> named name f \<union> queued ''update'' (fs_reg st) \<union> fs_missed st"

definition follow_inv :: "string \<Rightarrow> follow_st \<Rightarrow> bool" where
  "follow_inv name st \<longleftrightarrow> mem_inv (fs_reg st) \<and> cache_inv (fs_cache st) \<and> map_of (ca_watched (fs_cache st)) name \<noteq> None \<and>
     (\<forall>r \<in> set (mr_events (fs_reg st)). rs_Action r = ''update'' \<or> rs_Action r = ''delete'') \<and>
     queued ''update'' (fs_reg st) \<subseteq> registered (fs_reg st) \<union> fs_stale st \<and>
     queued ''delete'' (fs_reg st) \<inter> registered (fs_reg st) \<subseteq> fs_missed st \<and>
     (map_of (ca_cache (fs_cache st)) name \<noteq> None \<longrightarrow> tracks name st (cached_ids (fs_cache st) name)) \<and>
     (\<forall>ss \<in> set (fs_answers st). list_ok name ss \<and> tracks name st (ids_in ss))"

lemmas follow_defs = follow_inv_def tracks_def queued_def went_wrong_def

lemma follow_invD:
  assumes "follow_inv name st"
  shows "mem_inv (fs_reg st)" "cache_inv (fs_cache st)" "map_of (ca_watched (fs_cache st)) name \<noteq> None"
    "\<forall>r \<in> set (mr_events (fs_reg st)). rs_Action r = ''update'' \<or> rs_Action r = ''delete''"
    "queued ''update'' (fs_reg st) \<subseteq> registered (fs_reg st) \<union> fs_stale st"
    "queued ''delete'' (fs_reg st) \<inter> registered (fs_reg st) \<subseteq> fs_missed st"
    "map_of (ca_cache (fs_cache st)) name \<noteq> None \<Longrightarrow> tracks name st (cached_ids (fs_cache st) name)"
    "\<And>ss. ss \<in> set (fs_answers st) \<Longrightarrow> list_ok name ss \<and> tracks name st (ids_in ss)"
  using assms unfolding follow_inv_def by blast+

text \<open>Steps that do not touch the cache: it is enough that they keep the three relations between the sets.\<close>

lemma follow_inv_registry:
  assumes "follow_inv name st" and "st' = st\<lparr>fs_reg := m', fs_missed := M, fs_stale := X\<rparr>" and "mem_inv m'"
    and "\<forall>r \<in> set (mr_events m'). rs_Action r = ''update'' \<or> rs_Action r = ''delete''"
    and "queued ''update'' m' \<subseteq> registered m' \<union> X" and "queued ''delete'' m' \<inter> registered m' \<subseteq> M"
    and "\<And>f. tracks name st f \<Longrightarrow> tracks name st' f"
  shows "follow_inv name st'"
  unfolding follow_inv_def using assms follow_invD [OF assms(1)] by simp

lemma queued_append:
  assumes "mr_events m' = mr_events m @ [\<lparr>rs_Action = a, rs_Service = s\<rparr>]"
  shows "queued b m' = queued b m \<union> (if a = b then service_ids s else {})"
proof -
  have "{r \<in> set (mr_events m'). rs_Action r = b} =
      {r \<in> set (mr_events m). rs_Action r = b} \<union> (if a = b then {\<lparr>rs_Action = a, rs_Service = s\<rparr>} else {})" using assms by auto
  then show ?thesis by (simp add: queued_def)
qed

lemma queued_cong: "mr_events m' = mr_events m \<Longrightarrow> queued b m' = queued b m"
  by (simp add: queued_def)

lemma follow_inv_register:
  assumes inv: "follow_inv name st" and R: "Register now ttl s (fs_reg st) = Inr m'"
  shows "follow_inv name (st\<lparr>fs_reg := m', fs_missed := fs_missed st \<union> service_ids s \<inter> queued ''delete'' (fs_reg st),
      fs_stale := fs_stale st \<union> (service_ids s - registered m')\<rparr>)" (is "follow_inv name ?st")
proof -
  note D = follow_invD [OF inv]
  have b: "registered (fs_reg st) \<subseteq> registered m'" "registered m' \<subseteq> registered (fs_reg st) \<union> service_ids s"
    using mem.register_bounds [OF D(1), of "(now, ttl)" s m'] R by simp_all
  have m': "mem_inv m'" using registered_Register(1) [OF D(1) R] .
  show ?thesis
  proof (rule follow_inv_registry [OF inv refl m'])
    from Register_events [OF D(1) R] show "\<forall>r \<in> set (mr_events m'). rs_Action r = ''update'' \<or> rs_Action r = ''delete''"
      using D(4) by (elim disjE conjE) simp_all
    have q: "queued ''update'' (fs_reg st) \<subseteq> queued ''update'' m'" "queued ''update'' m' \<subseteq> queued ''update'' (fs_reg st) \<union> service_ids s"
      "queued ''delete'' m' = queued ''delete'' (fs_reg st)" "registered m' \<subseteq> registered (fs_reg st) \<union> queued ''update'' m'"
      using Register_events [OF D(1) R] b queued_append [of m' "fs_reg st" "''update''" s] queued_cong [of m' "fs_reg st"] by auto
    show "queued ''update'' m' \<subseteq> registered m' \<union> (fs_stale st \<union> (service_ids s - registered m'))" using q(2) D(5) b(1) by auto
    show "queued ''delete'' m' \<inter> registered m' \<subseteq> fs_missed st \<union> service_ids s \<inter> queued ''delete'' (fs_reg st)" using q(3) D(6) b(2) by auto
    show "tracks name ?st f" if "tracks name st f" for f using that q b unfolding tracks_def by auto
  qed
qed

lemma follow_inv_deregister:
  assumes inv: "follow_inv name st"
  shows "follow_inv name (st\<lparr>fs_reg := Deregister s (fs_reg st), fs_stale := fs_stale st \<union> service_ids s \<inter> queued ''update'' (fs_reg st)\<rparr>)"
    (is "follow_inv name ?st")
proof -
  let ?m' = "Deregister s (fs_reg st)"
  note D = follow_invD [OF inv]
  have R: "registered ?m' = registered (fs_reg st) - service_ids s" by (rule mem.deregister_exact [OF D(1)])
  have q: "queued ''update'' ?m' = queued ''update'' (fs_reg st)" "queued ''delete'' (fs_reg st) \<subseteq> queued ''delete'' ?m'"
    "queued ''delete'' ?m' \<subseteq> queued ''delete'' (fs_reg st) \<union> service_ids s" "registered (fs_reg st) \<subseteq> registered ?m' \<union> queued ''delete'' ?m'"
    using Deregister_events [of s "fs_reg st"] R queued_append [of ?m' "fs_reg st" "''delete''" s] by auto
  have st: "?st = st\<lparr>fs_reg := ?m', fs_missed := fs_missed st, fs_stale := fs_stale st \<union> service_ids s \<inter> queued ''update'' (fs_reg st)\<rparr>" by simp
  show ?thesis
  proof (rule follow_inv_registry [OF inv st mem.deregister_inv [OF D(1)]])
    show "\<forall>r \<in> set (mr_events ?m'). rs_Action r = ''update'' \<or> rs_Action r = ''delete''" using Deregister_events [of s "fs_reg st"] D(4) by (elim disjE) simp_all
    show "queued ''update'' ?m' \<subseteq> registered ?m' \<union> (fs_stale st \<union> service_ids s \<inter> queued ''update'' (fs_reg st))" using q(1) D(5) R by auto
    show "queued ''delete'' ?m' \<inter> registered ?m' \<subseteq> fs_missed st" using q(3) D(6) R by auto
    show "tracks name ?st f" if "tracks name st f" for f using that q R unfolding tracks_def by auto
  qed
qed

lemma follow_inv_other:
  assumes inv: "follow_inv name st" and step: "mem_step (fs_reg st) m'" and ev: "mr_events m' = mr_events (fs_reg st)"
  shows "follow_inv name (st\<lparr>fs_reg := m', fs_missed := fs_missed st \<union> (registered m' - registered (fs_reg st)),
      fs_stale := fs_stale st \<union> (registered (fs_reg st) - registered m')\<rparr>)" (is "follow_inv name ?st")
proof -
  note D = follow_invD [OF inv]
  note q = queued_cong [OF ev]
  show ?thesis
  proof (rule follow_inv_registry [OF inv refl mem_step_inv [OF step D(1)]])
    show "\<forall>r \<in> set (mr_events m'). rs_Action r = ''update'' \<or> rs_Action r = ''delete''" using D(4) ev by simp
    show "queued ''update'' m' \<subseteq> registered m' \<union> (fs_stale st \<union> (registered (fs_reg st) - registered m'))" using D(5) q by auto
    show "queued ''delete'' m' \<inter> registered m' \<subseteq> fs_missed st \<union> (registered m' - registered (fs_reg st))" using D(6) q by auto
    show "tracks name ?st f" if "tracks name st f" for f using that q unfolding tracks_def by auto
  qed
qed

text \<open>An event that reaches the watcher, on the nodes that are cached.\<close>

lemma registered_cong: "mr_records m' = mr_records m \<Longrightarrow> registered m' = registered m"
  by (simp add: registered_def version_ids_def GetService_def)

lemma without_sent:
  assumes "A \<subseteq> B \<union> Q \<union> Z" and "Q \<subseteq> Q' \<union> S" and "B \<subseteq> B'" and "Z \<subseteq> Z'" and "\<And>t. t \<in> A \<Longrightarrow> t \<in> S \<Longrightarrow> t \<in> B' \<union> Z'"
  shows "A \<subseteq> B' \<union> Q' \<union> Z'"
  using assms by blast

lemma watch_event_named:
  assumes "cache_inv c" and "map_of (ca_watched c) name \<noteq> None" and "map_of (ca_cache c) name \<noteq> None" and "sv_Name (rs_Service r) = name"
    and "map_of (ca_cache (watch_event c (now, Some r))) name \<noteq> None"
  shows "rs_Action r = ''update'' \<Longrightarrow>
      named name (cached_ids (watch_event c (now, Some r)) name) = named name (cached_ids c name) \<union> service_ids (rs_Service r)"
    and "rs_Action r = ''delete'' \<Longrightarrow>
      named name (cached_ids (watch_event c (now, Some r)) name) = named name (cached_ids c name) - service_ids (rs_Service r)"
proof -
  from assms(3) obtain ss where ss: "map_of (ca_cache c) (sv_Name (rs_Service r)) = Some ss" using assms(4) by auto
  have w: "map_of (ca_watched c) (sv_Name (rs_Service r)) \<noteq> None" using assms(2,4) by simp
  show "named name (cached_ids (watch_event c (now, Some r)) name) = named name (cached_ids c name) \<union> service_ids (rs_Service r)"
    if "rs_Action r = ''update''"
    using watch_event_add [OF assms(1) that refl w ss, of now] assms(4) by (auto simp: named_def service_ids_def split: if_splits)
  show "named name (cached_ids (watch_event c (now, Some r)) name) = named name (cached_ids c name) - service_ids (rs_Service r)"
    if d: "rs_Action r = ''delete''"
  proof (cases "sv_Nodes (rs_Service r) = []")
    case True
    have "r = \<lparr>rs_Action = ''delete'', rs_Service = rs_Service r\<rparr>" using d by simp
    then show ?thesis using watch_event_delete_all [OF True w, of now] assms(4,5) by simp
  next
    case False
    show ?thesis using watch_event_delete [OF assms(1) d refl w ss False, of now] assms(4) by (auto simp: named_def service_ids_def split: if_splits)
  qed
qed

lemma queued_remove:
  assumes "r \<in> set (mr_events m)" and "mr_events m' = remove1 r (mr_events m)"
  shows "queued a m' \<subseteq> queued a m" and "rs_Action r \<noteq> a \<Longrightarrow> queued a m' = queued a m"
    and "rs_Action r = a \<Longrightarrow> queued a m \<subseteq> queued a m' \<union> service_ids (rs_Service r) \<and> service_ids (rs_Service r) \<subseteq> queued a m"
proof -
  have sub: "set (mr_events m') \<subseteq> set (mr_events m)" using assms(2) set_remove1_subset by metis
  have sup: "set (mr_events m) \<subseteq> insert r (set (mr_events m'))" unfolding assms(2) by (metis in_set_remove1 insertCI subsetI)
  show "queued a m' \<subseteq> queued a m" using sub by (auto simp: queued_def)
  show "queued a m' = queued a m" if "rs_Action r \<noteq> a" using sub sup that by (fastforce simp: queued_def)
  show "queued a m \<subseteq> queued a m' \<union> service_ids (rs_Service r) \<and> service_ids (rs_Service r) \<subseteq> queued a m" if "rs_Action r = a"
    using sup that assms(1) by (fastforce simp: queued_def)
qed

lemma follow_inv_send:
  assumes inv: "follow_inv name st" and r: "r \<in> set (mr_events (fs_reg st))" and send: "sendEvent ready r (fs_reg st) = (m', receivers)"
    and lossy: "lossy = (\<not> got \<or> fs_answers st \<noteq> [])"
    and st': "st' = st\<lparr>fs_reg := m'\<lparr>mr_events := remove1 r (mr_events m')\<rparr>,
      fs_cache := (if got \<and> sv_Name (rs_Service r) = name then watch_event (fs_cache st) (now, Some r) else fs_cache st),
      fs_missed := fs_missed st \<union> went_wrong ''update'' lossy r, fs_stale := fs_stale st \<union> went_wrong ''delete'' lossy r\<rparr>"
  shows "follow_inv name st'"
proof -
  note D = follow_invD [OF inv]
  let ?S = "service_ids (rs_Service r)" let ?c = "fs_cache st" let ?c' = "fs_cache st'"
  have m': "mr_events m' = mr_events (fs_reg st)" "mr_records m' = mr_records (fs_reg st)"
    using sendEvent_eq [OF D(1), of ready r] send by auto
  have reg: "registered (fs_reg st') = registered (fs_reg st)" using m'(2) st' by (intro registered_cong) simp
  have ev: "mr_events (fs_reg st') = remove1 r (mr_events (fs_reg st))" using m'(1) st' by simp
  note q = queued_remove [OF r ev]
  have act: "rs_Action r = ''update'' \<or> rs_Action r = ''delete''" using D(4) r by blast
  have wrong: "fs_missed st' = fs_missed st \<union> (if lossy \<and> rs_Action r = ''update'' then ?S else {})"
    "fs_stale st' = fs_stale st \<union> (if lossy \<and> rs_Action r = ''delete'' then ?S else {})" using st' by (simp_all add: went_wrong_def)
  have other: "t \<notin> ?S" if "fst t = name" "sv_Name (rs_Service r) \<noteq> name" for t using that by (auto simp: service_ids_def)
  have disj: "t \<notin> ?S" if "t \<in> named name f" "sv_Name (rs_Service r) \<noteq> name" for t f using that by (auto simp: named_def service_ids_def)
  let ?R = "registered (fs_reg st)" let ?Rn = "{t \<in> ?R. fst t = name}"
  have trackI: "tracks name st' f" if "named name f \<subseteq> ?R \<union> queued ''delete'' (fs_reg st') \<union> fs_stale st'"
      "?Rn \<subseteq> named name f \<union> queued ''update'' (fs_reg st') \<union> fs_missed st'" for f
    unfolding tracks_def reg using that by blast
  have lost: "tracks name st' f" if t: "tracks name st f" and l: "lossy \<or> sv_Name (rs_Service r) \<noteq> name" for f
    using act
  proof
    note t = t [unfolded tracks_def]
    assume a: "rs_Action r = ''update''"
    show ?thesis
    proof (rule trackI)
      show "named name f \<subseteq> ?R \<union> queued ''delete'' (fs_reg st') \<union> fs_stale st'" using t q(2) [of "''delete''"] a wrong(2) by simp
      show "?Rn \<subseteq> named name f \<union> queued ''update'' (fs_reg st') \<union> fs_missed st'"
        by (rule without_sent [OF conjunct2 [OF t] conjunct1 [OF q(3) [OF a]] subset_refl]) (use a l wrong(1) other in auto)
    qed
  next
    note t = t [unfolded tracks_def]
    assume a: "rs_Action r = ''delete''"
    show ?thesis
    proof (rule trackI)
      show "named name f \<subseteq> ?R \<union> queued ''delete'' (fs_reg st') \<union> fs_stale st'"
        by (rule without_sent [OF conjunct1 [OF t] conjunct1 [OF q(3) [OF a]] subset_refl]) (use a l wrong(2) disj in \<open>auto split: if_splits\<close>)
      show "?Rn \<subseteq> named name f \<union> queued ''update'' (fs_reg st') \<union> fs_missed st'" using t q(2) [of "''update''"] a wrong(1) by simp
    qed
  qed
  have cached: "tracks name st' (cached_ids ?c' name)" if some: "map_of (ca_cache ?c') name \<noteq> None"
  proof (cases "got \<and> sv_Name (rs_Service r) = name")
    case False
    then show ?thesis using lost [of "cached_ids ?c name"] D(7) some lossy st' by auto
  next
    case True
    then have c': "?c' = watch_event ?c (now, Some r)" using st' by simp
    have some0: "map_of (ca_cache ?c) name \<noteq> None" using some watch_event_no_entry [of ?c r now] True unfolding c' by (elim contrapos_nn) simp
    note t = D(7) [OF some0]
    note n = watch_event_named [OF D(2,3) some0 conjunct2 [OF True], of now, folded c', OF some]
    from act show ?thesis
    proof
      assume a: "rs_Action r = ''update''"
      have S: "?S \<subseteq> ?R \<union> fs_stale st" using q(3) [OF a] D(5) by blast
      show ?thesis
      proof (rule trackI)
        show "named name (cached_ids ?c' name) \<subseteq> ?R \<union> queued ''delete'' (fs_reg st') \<union> fs_stale st'"
          unfolding n(1) [OF a] using conjunct1 [OF t [unfolded tracks_def]] S q(2) [of "''delete''"] a wrong(2) by auto
        show "?Rn \<subseteq> named name (cached_ids ?c' name) \<union> queued ''update'' (fs_reg st') \<union> fs_missed st'"
          unfolding n(1) [OF a] by (rule without_sent [OF conjunct2 [OF t [unfolded tracks_def]] conjunct1 [OF q(3) [OF a]]]) (use wrong(1) in auto)
      qed
    next
      assume a: "rs_Action r = ''delete''"
      have S: "?S \<inter> ?R \<subseteq> fs_missed st" using q(3) [OF a] D(6) by blast
      show ?thesis
      proof (rule trackI)
        have "named name (cached_ids ?c name) - ?S \<subseteq> ?R \<union> queued ''delete'' (fs_reg st) \<union> fs_stale st"
          using conjunct1 [OF t [unfolded tracks_def]] by blast
        then show "named name (cached_ids ?c' name) \<subseteq> ?R \<union> queued ''delete'' (fs_reg st') \<union> fs_stale st'"
          unfolding n(2) [OF a] by (rule without_sent [OF _ conjunct1 [OF q(3) [OF a]] subset_refl]) (use wrong(2) in auto)
        show "?Rn \<subseteq> named name (cached_ids ?c' name) \<union> queued ''update'' (fs_reg st') \<union> fs_missed st'"
          unfolding n(2) [OF a] using conjunct2 [OF t [unfolded tracks_def]] S q(2) [of "''update''"] a wrong(1) by auto
      qed
    qed
  qed
  have "mem_inv (fs_reg st')" using mem_step_inv [OF step_send [OF r, of ready] D(1)] send m' st' by simp
  moreover have "cache_inv ?c'" "ca_watched ?c' = ca_watched ?c" using D(2) st' by (simp_all add: cache_inv_watch_event)
  moreover have "\<forall>r \<in> set (mr_events (fs_reg st')). rs_Action r = ''update'' \<or> rs_Action r = ''delete''"
    using D(4) ev by (metis notin_set_remove1)
  moreover have "queued ''update'' (fs_reg st') \<subseteq> registered (fs_reg st') \<union> fs_stale st'" using D(5) q(1) [of "''update''"] reg wrong by fastforce
  moreover have "queued ''delete'' (fs_reg st') \<inter> registered (fs_reg st') \<subseteq> fs_missed st'" using D(6) q(1) [of "''delete''"] reg wrong by fastforce
  moreover have "\<forall>ss \<in> set (fs_answers st'). list_ok name ss \<and> tracks name st' (ids_in ss)"
  proof
    fix ss assume "ss \<in> set (fs_answers st')"
    then have ss: "ss \<in> set (fs_answers st)" using st' by simp
    then have lossy using lossy by auto
    then show "list_ok name ss \<and> tracks name st' (ids_in ss)" using D(8) [OF ss] lost by blast
  qed
  ultimately show ?thesis using cached D(3) unfolding follow_inv_def by simp
qed

lemma follow_step_inv:
  assumes "follow_step wid name st st'" and inv: "follow_inv name st"
  shows "follow_inv name st'"
  using assms(1)
proof cases
  case (fw_register now ttl s m')
  then show ?thesis using follow_inv_register [OF inv] by simp
next
  case (fw_deregister s)
  then show ?thesis using follow_inv_deregister [OF inv] by simp
next
  case (fw_registry m')
  then show ?thesis using follow_inv_other [OF inv] by simp
next
  case (fw_send r ready m' receivers got lossy now)
  show ?thesis by (rule follow_inv_send [OF inv fw_send(2,3,5,1)])
next
  case (fw_ask ss)
  have "ids_in ss = version_ids (fs_reg st) name" using fw_ask(2) by (auto simp: version_ids_eq)
  then have "tracks name st (ids_in ss)" by (auto simp: tracks_def named_def registered_def)
  moreover have "list_ok name ss" using mem_lookup.lookup_ok [OF follow_invD(1) [OF inv] fw_ask(2)] .
  ultimately show ?thesis using inv fw_ask(1) by (auto simp: follow_inv_def tracks_def)
next
  case (fw_store as ss bs now cached)
  have ss: "list_ok name ss" "tracks name st (ids_in ss)" using follow_invD(8) [OF inv, of ss] fw_store(2) by auto
  let ?c' = "fst (get_from_registry now (Inr ss) name cached (fs_cache st))"
  have c': "cached_ids ?c' name = ids_in ss" "ca_watched ?c' = ca_watched (fs_cache st)"
    by (auto simp: get_from_registry_def Let_def cached_ids_def cache_set_def setStatus_def)
  have "cache_inv ?c'" using cache_step_inv [OF cs_answer [of "Inr ss" name "fs_cache st" now cached]] follow_invD(2) [OF inv] ss(1) by simp
  then show ?thesis using inv fw_store ss c' unfolding follow_inv_def tracks_def by simp
next
  case (fw_cache c')
  have "cached_ids c' name = cached_ids (fs_cache st) name" using fw_cache(3) by (auto simp: cached_ids_def)
  then show ?thesis using inv fw_cache cache_step_inv [OF fw_cache(2)] unfolding follow_inv_def tracks_def by simp
qed

definition follow_start :: "memRegistry \<Rightarrow> cache \<Rightarrow> follow_st" where
  "follow_start m c = \<lparr>fs_reg = m, fs_cache = c, fs_answers = [], fs_missed = {}, fs_stale = {}\<rparr>"

lemma follow_steps_inv:
  assumes "(follow_step wid name)\<^sup>*\<^sup>* (follow_start m c) st" and "mem_inv m" and "cache_inv c" and "mr_events m = []"
    and "map_of (ca_watched c) name \<noteq> None" and "in_sync name (m, c)"
  shows "follow_inv name st"
  using assms(1)
proof (induction rule: rtranclp_induct)
  case base
  have "tracks name (follow_start m c) (cached_ids c name)" if "map_of (ca_cache c) name \<noteq> None"
  proof -
    have "cached_ids c name = version_ids m name" using that in_syncD [OF assms(6)] by auto
    then show ?thesis by (auto simp: tracks_def named_def registered_def follow_start_def)
  qed
  then show ?case using assms(2-5) by (simp add: follow_inv_def follow_start_def queued_def)
qed (rule follow_step_inv)

lemma tracks_ids:
  assumes "tracks name st f"
  shows "i \<in> f v \<Longrightarrow> i \<in> version_ids (fs_reg st) name v \<or> (name, v, i) \<in> queued ''delete'' (fs_reg st) \<union> fs_stale st"
    and "i \<in> version_ids (fs_reg st) name v \<Longrightarrow> i \<in> f v \<or> (name, v, i) \<in> queued ''update'' (fs_reg st) \<union> fs_missed st"
proof -
  have "i \<in> f v \<Longrightarrow> (name, v, i) \<in> named name f" by (simp add: named_def)
  then show "i \<in> f v \<Longrightarrow> i \<in> version_ids (fs_reg st) name v \<or> (name, v, i) \<in> queued ''delete'' (fs_reg st) \<union> fs_stale st"
    using assms unfolding tracks_def by (auto simp: registered_def)
  have "i \<in> version_ids (fs_reg st) name v \<Longrightarrow> (name, v, i) \<in> {t \<in> registered (fs_reg st). fst t = name}" by (simp add: registered_def)
  then have "i \<in> version_ids (fs_reg st) name v \<Longrightarrow> (name, v, i) \<in> named name f \<union> queued ''update'' (fs_reg st) \<union> fs_missed st"
    using assms unfolding tracks_def by blast
  then show "i \<in> version_ids (fs_reg st) name v \<Longrightarrow> i \<in> f v \<or> (name, v, i) \<in> queued ''update'' (fs_reg st) \<union> fs_missed st"
    by (auto simp: named_def)
qed

text \<open>
  A node that is deregistered and registered again: when the delete is handled after the update, the cache has lost the
  node, which the registry has.
\<close>

lemma swapped_events_lose_node:
  assumes "cache_inv c" and "map_of (ca_watched c) (sv_Name s) \<noteq> None" and "sv_Nodes s \<noteq> []"
  shows "cached_ids (watch_event (watch_event c (t, Some \<lparr>rs_Action = ''update'', rs_Service = s\<rparr>)) (t', Some \<lparr>rs_Action = ''delete'', rs_Service = s\<rparr>))
      (sv_Name s) (sv_Version s) \<inter> node_ids (sv_Nodes s) = {}"
    and "mem_inv m \<Longrightarrow> Register now ttl s (Deregister s m) = Inr m' \<Longrightarrow> list_all (\<lambda>n. nd_md n \<noteq> []) (sv_Nodes s) \<Longrightarrow>
      node_ids (sv_Nodes s) \<subseteq> version_ids m' (sv_Name s) (sv_Version s)"
proof -
  let ?c = "watch_event c (t, Some \<lparr>rs_Action = ''update'', rs_Service = s\<rparr>)" let ?del = "\<lparr>rs_Action = ''delete'', rs_Service = s\<rparr>"
  show "cached_ids (watch_event ?c (t', Some ?del)) (sv_Name s) (sv_Version s) \<inter> node_ids (sv_Nodes s) = {}"
  proof (cases "map_of (ca_cache ?c) (sv_Name s)")
    case None
    then show ?thesis using watch_event_no_entry [of ?c ?del t'] by (simp add: cached_ids_def)
  next
    case (Some ss)
    then show ?thesis
      using watch_event_delete [of ?c ?del s ss t' "sv_Name s" "sv_Version s"] assms by (auto simp: cache_inv_watch_event)
  qed
  show "node_ids (sv_Nodes s) \<subseteq> version_ids m' (sv_Name s) (sv_Version s)"
    if "mem_inv m" "Register now ttl s (Deregister s m) = Inr m'" "list_all (\<lambda>n. nd_md n \<noteq> []) (sv_Nodes s)"
    using mem.register_complete [OF mem.deregister_inv [OF that(1)], of "(now, ttl)" s s m'] that by (auto simp: service_ids_def registered_def)
qed

text \<open>Steps with which nothing goes wrong.\<close>

lemma clean_register:
  assumes "Register now ttl s m = Inr m'" and "service_ids s \<inter> queued ''delete'' m = {}" and "service_ids s \<subseteq> registered m'"
  shows "follow_step wid name (follow_start m c) (follow_start m' c)"
proof -
  have eq: "(follow_start m c)\<lparr>fs_reg := m', fs_missed := fs_missed (follow_start m c) \<union> service_ids s \<inter> queued ''delete'' (fs_reg (follow_start m c)),
      fs_stale := fs_stale (follow_start m c) \<union> (service_ids s - registered m')\<rparr> = follow_start m' c" using assms(2,3) by (simp add: follow_start_def)
  have "Register now ttl s (fs_reg (follow_start m c)) = Inr m'" using assms(1) by (simp add: follow_start_def)
  from fw_register [OF this, of wid name] show ?thesis unfolding eq .
qed

lemma clean_deregister:
  assumes "service_ids s \<inter> queued ''update'' m = {}"
  shows "follow_step wid name (follow_start m c) (follow_start (Deregister s m) c)"
  using fw_deregister [of wid name "follow_start m c" s] assms by (simp add: follow_start_def)

lemma clean_send:
  assumes "r \<in> set (mr_events m)" and "(wid, r) \<in> set (snd (sendEvent ready r m))" and "sv_Name (rs_Service r) = name"
    and "m' = (fst (sendEvent ready r m))\<lparr>mr_events := remove1 r (mr_events (fst (sendEvent ready r m)))\<rparr>"
  shows "follow_step wid name (follow_start m c) (follow_start m' (watch_event c (now, Some r)))"
  using fw_send [of r "follow_start m c" ready "fst (sendEvent ready r m)" "snd (sendEvent ready r m)" True wid False name now] assms
  by (simp add: follow_start_def went_wrong_def)

text \<open>A lookup through the cache, when what the cache has lies between two sets of ids and so do the registry's.\<close>

lemma lookup_between:
  assumes "lo \<subseteq> version_ids m name v" "version_ids m name v \<subseteq> hi" and "\<And>ss. map_of (ca_cache c) name = Some ss \<Longrightarrow> lo \<subseteq> ids_in ss v \<and> ids_in ss v \<subseteq> hi"
  shows "case snd (cache_GetService now (GetService name m) name c) of Inl _ \<Rightarrow> lo = {} | Inr ss \<Rightarrow> lo \<subseteq> ids_in ss v \<and> ids_in ss v \<subseteq> hi"
proof -
  have [simp]: "ids_in [] v = {}" by (simp add: ids_in_def)
  show ?thesis using assms
    by (auto simp: cache_GetService_def cache_get_def get_from_registry_def Let_def version_ids_eq
        isValid_def split: sum.splits option.splits if_splits)
qed

end
