(* ===== verification/Node_Selector.thy ===== *)
theory Node_Selector
  imports Registry_Sync "HOL-Library.Word" "HOL-Library.Multiset"
begin

text \<open>
  The selector, \<open>selector/default.go\<close>, \<open>selector/strategy.go\<close>, \<open>selector/filter.go\<close> and the filter
  of \<open>wrapper/select/dc/dc_filter.go\<close>: look a service up through the registry cache, filter the
  services, and hand out their nodes one by one.

  A \<open>Next\<close> closure is its captured state with a step function.  \<open>rand.Int()\<close> is an argument of the
  call, a non-negative \<open>int\<close>; the counter of \<open>RoundRobin\<close> is a 64-bit word read as a signed number,
  because it is incremented without bound.  An index outside the slice is \<open>Panic_index\<close>.
\<close>

section \<open>Strategies\<close>

datatype select_error =
    SelNotFound
  | ErrNoneAvailable
  | SelErr registry_error
  | Panic_index

definition index_node :: "node list \<Rightarrow> int \<Rightarrow> select_error + node" where
  "index_node nodes i =
     (if i < 0 \<or> int (length nodes) \<le> i then Inl Panic_index else Inr (nodes ! nat i))"

definition collect_nodes :: "service list \<Rightarrow> node list" where
  "collect_nodes services = foldl (\<lambda>nodes s. nodes @ sv_Nodes s) [] services"

definition Random :: "service list \<Rightarrow> node list" where
  "Random services = collect_nodes services"

definition Random_next :: "int \<Rightarrow> node list \<Rightarrow> node list \<times> (select_error + node)" where
  "Random_next r nodes =
     (nodes, if length nodes = 0 then Inl ErrNoneAvailable
             else index_node nodes (go_rem r (int (length nodes))))"

definition RoundRobin :: "int \<Rightarrow> service list \<Rightarrow> node list \<times> 64 word" where
  "RoundRobin r services = (collect_nodes services, word_of_int r)"

definition RoundRobin_next :: "node list \<times> 64 word \<Rightarrow> (node list \<times> 64 word) \<times> (select_error + node)" where
  "RoundRobin_next st =
     (let (nodes, i) = st
      in if length nodes = 0 then (st, Inl ErrNoneAvailable)
         else case index_node nodes (go_rem (sint i) (int (length nodes))) of
                Inl e \<Rightarrow> (st, Inl e)
              | Inr n \<Rightarrow> ((nodes, i + 1), Inr n))"

section \<open>Filters\<close>

fun has_endpoint :: "string \<Rightarrow> endpoint list \<Rightarrow> bool" where
  "has_endpoint name [] = False"
| "has_endpoint name (ep # eps) = (if ep_Name ep = name then True else has_endpoint name eps)"

fun FilterEndpoint :: "string \<Rightarrow> service list \<Rightarrow> service list" where
  "FilterEndpoint name [] = []"
| "FilterEndpoint name (s # old) =
     (if has_endpoint name (sv_Endpoints s) then [s] else []) @ FilterEndpoint name old"

definition label_nodes :: "string \<Rightarrow> string \<Rightarrow> node list \<Rightarrow> node list" where
  "label_nodes key v nodes =
     filter (\<lambda>n. case nd_Metadata n of None \<Rightarrow> False | Some m \<Rightarrow> md_at m key = v) nodes"

fun FilterLabel :: "string \<Rightarrow> string \<Rightarrow> service list \<Rightarrow> service list" where
  "FilterLabel key v [] = []"
| "FilterLabel key v (s # old) =
     (let nodes = label_nodes key v (sv_Nodes s)
      in (if length nodes > 0 then [s\<lparr>sv_Nodes := nodes\<rparr>] else []) @ FilterLabel key v old)"

fun FilterVersion :: "string \<Rightarrow> service list \<Rightarrow> service list" where
  "FilterVersion version [] = []"
| "FilterVersion version (s # old) =
     (if sv_Version s = version then [s] else []) @ FilterVersion version old"

text \<open>
  The filter of \<open>dcWrapper.Call\<close>.  \<open>dc_env\<close> is the caller's environment from the request's
  metadata; a node without one counts as \<open>prod\<close>.  Unlike \<open>FilterLabel\<close> it keeps a service that has
  no node left (and logs it).
\<close>

definition dc_env :: "(string, string) go_map \<Rightarrow> string" where
  "dc_env md = (case map_of md ''Env'' of None \<Rightarrow> ''prod'' | Some e \<Rightarrow> if length e = 0 then ''prod'' else e)"

definition dc_node_ok :: "string \<Rightarrow> node \<Rightarrow> bool" where
  "dc_node_ok env n =
     (case nd_Metadata n of
        None \<Rightarrow> False
      | Some m \<Rightarrow> (let nodeEnv = md_at m ''env''
                   in env = (if length nodeEnv = 0 then ''prod'' else nodeEnv)))"

definition dc_filter :: "string \<Rightarrow> service list \<Rightarrow> service list" where
  "dc_filter env old = map (\<lambda>s. s\<lparr>sv_Nodes := filter (dc_node_ok env) (sv_Nodes s)\<rparr>) old"

section \<open>The selector\<close>

text \<open>\<open>rsel_ttl\<close> is the \<open>selector_ttl\<close> of the options' context, if any.\<close>

record registrySelector =
  rsel_ttl :: "int option"
  rsel_rc :: cache

definition newCache :: "int option \<Rightarrow> cache" where
  "newCache ttl = cache_New ttl"

definition NewSelector :: "int option \<Rightarrow> registrySelector" where
  "NewSelector ttl = \<lparr>rsel_ttl = ttl, rsel_rc = newCache ttl\<rparr>"

text \<open>\<open>Init\<close> also returns the cache it stopped, whose watchers end.\<close>

definition selector_Init :: "int option \<Rightarrow> registrySelector \<Rightarrow> registrySelector \<times> cache" where
  "selector_Init ttl c =
     (let old = cache_Stop (rsel_rc c)
      in (c\<lparr>rsel_ttl := ttl, rsel_rc := newCache ttl\<rparr>, old))"

definition selector_Close :: "registrySelector \<Rightarrow> registrySelector" where
  "selector_Close c = c\<lparr>rsel_rc := cache_Stop (rsel_rc c)\<rparr>"

definition Select ::
  "int \<Rightarrow> registry_error + service list \<Rightarrow> string \<Rightarrow> (service list \<Rightarrow> 'next) \<Rightarrow>
   (service list \<Rightarrow> service list) list \<Rightarrow> registrySelector \<Rightarrow> registrySelector \<times> (select_error + 'next)" where
  "Select now answer service strategy filters c =
     (let (rc, r) = cache_GetService now answer service (rsel_rc c);
          c' = c\<lparr>rsel_rc := rc\<rparr>
      in case r of
           Inl err \<Rightarrow> (c', Inl (if err = ErrNotFound then SelNotFound else SelErr err))
         | Inr services \<Rightarrow>
             (let services' = foldl (\<lambda>ss f. f ss) services filters
              in if length services' = 0 then (c', Inl ErrNoneAvailable)
                 else (c', Inr (strategy services'))))"

section \<open>The contract of a strategy\<close>

text \<open>
  A strategy holds on to the nodes of the services and hands out one of them per call, or says
  that there is none.  \<open>ok\<close> is the condition under which a call picks a node.
\<close>

locale node_strategy =
  fixes start :: "service list \<Rightarrow> 'st" and step :: "'i \<Rightarrow> 'st \<Rightarrow> 'st \<times> (select_error + node)"
    and ok :: "'i \<Rightarrow> 'st \<Rightarrow> bool" and nodes_of :: "'st \<Rightarrow> node list"
  assumes start_nodes: "nodes_of (start ss) = concat (map sv_Nodes ss)"
    and step_keeps: "nodes_of (fst (step i st)) = nodes_of st"
    and step_none: "nodes_of st = [] \<Longrightarrow> snd (step i st) = Inl ErrNoneAvailable"
    and step_some: "nodes_of st \<noteq> [] \<Longrightarrow> ok i st \<Longrightarrow> \<exists>n \<in> set (nodes_of st). snd (step i st) = Inr n"
begin

lemma picks_from_services:
  assumes "concat (map sv_Nodes ss) \<noteq> []" and "ok i (start ss)"
  shows "\<exists>s \<in> set ss. \<exists>n \<in> set (sv_Nodes s). snd (step i (start ss)) = Inr n"
  using step_some [of "start ss" i] assms by (auto simp: start_nodes)

end

lemma collect_nodes_eq [simp]: "collect_nodes ss = concat (map sv_Nodes ss)"
proof -
  have "foldl (\<lambda>nodes s. nodes @ sv_Nodes s) acc ss = acc @ concat (map sv_Nodes ss)" for acc
    by (induction ss arbitrary: acc) auto
  then show ?thesis by (simp add: collect_nodes_def)
qed

lemma index_node_mod:
  "ns \<noteq> [] \<Longrightarrow> 0 \<le> a \<Longrightarrow> index_node ns (go_rem a (int (length ns))) = Inr (ns ! nat (a mod int (length ns)))"
  by (simp add: index_node_def go_rem_nonneg not_less not_le)

lemma nat_mod_less: "ns \<noteq> [] \<Longrightarrow> nat (a mod int (length ns)) < length ns"
  by (simp add: nat_less_iff)

interpretation random: node_strategy Random Random_next "\<lambda>r _. 0 \<le> r" "\<lambda>ns. ns"
  by unfold_locales (auto simp: Random_def Random_next_def index_node_mod nat_mod_less)

interpretation round_robin: node_strategy "RoundRobin r" "\<lambda>_. RoundRobin_next" "\<lambda>_ st. 0 \<le> sint (snd st)" fst for r
  by unfold_locales
    (auto simp: RoundRobin_def RoundRobin_next_def index_node_mod nat_mod_less split: sum.splits prod.splits)

section \<open>The contract of a filter\<close>

text \<open>
  Every service that comes out of a filter is one that went in, perhaps with fewer nodes, and
  filtering twice is filtering once.
\<close>

definition derived :: "service list \<Rightarrow> service list \<Rightarrow> bool" where
  "derived ss' ss \<longleftrightarrow> (\<forall>s' \<in> set ss'. \<exists>s \<in> set ss. sv_Name s' = sv_Name s \<and> sv_Version s' = sv_Version s \<and>
     set (sv_Nodes s') \<subseteq> set (sv_Nodes s))"

lemma derived_refl [simp]: "derived ss ss"
  by (auto simp: derived_def)

lemma derived_trans: "derived ss2 ss1 \<Longrightarrow> derived ss1 ss \<Longrightarrow> derived ss2 ss"
  unfolding derived_def by fastforce

lemma derived_nodes: "derived ss' ss \<Longrightarrow> set (concat (map sv_Nodes ss')) \<subseteq> set (concat (map sv_Nodes ss))"
  unfolding derived_def by fastforce

locale service_filter =
  fixes F :: "service list \<Rightarrow> service list"
  assumes F_derived: "derived (F ss) ss" and F_idem: "F (F ss) = F ss"
begin

lemma F_twice: "foldl (\<lambda>ss f. f ss) ss (fs @ [F, F]) = foldl (\<lambda>ss f. f ss) ss (fs @ [F])"
  by (simp add: F_idem)

end

lemma foldl_filters:
  "list_all service_filter fs \<Longrightarrow> derived (foldl (\<lambda>ss f. f ss) ss fs) ss"
proof (induction fs arbitrary: ss)
  case (Cons f fs)
  then have "derived (foldl (\<lambda>ss f. f ss) (f ss) fs) (f ss)" by simp
  moreover have "derived (f ss) ss" using Cons.prems by (simp add: service_filter_def)
  ultimately show ?case by (auto intro: derived_trans)
qed simp

lemma FilterEndpoint_eq: "FilterEndpoint name ss = filter (\<lambda>s. has_endpoint name (sv_Endpoints s)) ss"
  by (induction ss) auto

lemma FilterVersion_eq: "FilterVersion v ss = filter (\<lambda>s. sv_Version s = v) ss"
  by (induction ss) auto

lemma FilterLabel_eq:
  "FilterLabel key v ss =
     filter (\<lambda>s. sv_Nodes s \<noteq> []) (map (\<lambda>s. s\<lparr>sv_Nodes := label_nodes key v (sv_Nodes s)\<rparr>) ss)"
  by (induction ss) (auto simp: Let_def)

lemma label_nodes_idem [simp]: "label_nodes k v (label_nodes k v ns) = label_nodes k v ns"
  by (simp add: label_nodes_def)

lemma map_filter_id: "(\<And>x. x \<in> set xs \<Longrightarrow> f x = x) \<Longrightarrow> (\<And>x. x \<in> set xs \<Longrightarrow> P x) \<Longrightarrow> filter P (map f xs) = xs"
  by (simp add: map_idI)

interpretation endpoint_filter: service_filter "FilterEndpoint name" for name
  by unfold_locales (auto simp: FilterEndpoint_eq derived_def)

interpretation version_filter: service_filter "FilterVersion v" for v
  by unfold_locales (auto simp: FilterVersion_eq derived_def)

interpretation label_filter: service_filter "FilterLabel key v" for key v
proof
  fix ss
  show "derived (FilterLabel key v ss) ss"
    by (fastforce simp: FilterLabel_eq derived_def label_nodes_def)
  have *: "sv_Nodes s \<noteq> [] \<and> s\<lparr>sv_Nodes := label_nodes key v (sv_Nodes s)\<rparr> = s" if "s \<in> set (FilterLabel key v ss)" for s
    using that by (auto simp: FilterLabel_eq)
  show "FilterLabel key v (FilterLabel key v ss) = FilterLabel key v ss"
    unfolding FilterLabel_eq [of key v "FilterLabel key v ss"] by (rule map_filter_id) (use * in blast)+
qed

interpretation dc: service_filter "dc_filter env" for env
  by unfold_locales (fastforce simp: dc_filter_def derived_def)+

section \<open>Nodes offered\<close>

text \<open>The nodes of a list of services with the version they belong to.\<close>

definition offers :: "service list \<Rightarrow> (string \<times> node) list" where
  "offers ss = concat (map (\<lambda>s. map (Pair (sv_Version s)) (sv_Nodes s)) ss)"

lemma offers_simps [simp]:
  "offers [] = []" "offers (s # ss) = map (Pair (sv_Version s)) (sv_Nodes s) @ offers ss"
  by (simp_all add: offers_def)

lemma collect_offers: "concat (map sv_Nodes ss) = map snd (offers ss)"
  by (induction ss) (simp_all add: comp_def)

section \<open>Runs of the round-robin strategy\<close>

fun rr_calls :: "nat \<Rightarrow> node list \<times> 64 word \<Rightarrow> (select_error + node) list" where
  "rr_calls 0 st = []"
| "rr_calls (Suc k) st = (let (st', r) = RoundRobin_next st in r # rr_calls k st')"

lemma sint_succ:
  fixes i :: "64 word"
  assumes "sint i < 2 ^ 63 - 1"
  shows "sint (i + 1) = sint i + 1"
proof -
  have "- (2 ^ 63) \<le> sint i" using sint_ge [of i] by simp
  moreover have "i + 1 = word_of_int (sint i + 1)" by simp
  ultimately show ?thesis using assms by (simp only: int_word_sint) simp
qed

lemma RoundRobin_next_eq:
  "ns \<noteq> [] \<Longrightarrow> 0 \<le> sint i \<Longrightarrow>
     RoundRobin_next (ns, i) = ((ns, i + 1), Inr (ns ! nat (sint i mod int (length ns))))"
  by (simp add: RoundRobin_next_def index_node_mod)

lemma rr_calls_eq:
  assumes "ns \<noteq> []"
  shows "0 \<le> sint i \<Longrightarrow> sint i + int k \<le> 2 ^ 63 - 1 \<Longrightarrow>
    rr_calls k (ns, i) = map (\<lambda>j. Inr (ns ! nat ((sint i + int j) mod int (length ns)))) [0..<k]"
proof (induction k arbitrary: i)
  case (Suc k)
  have i: "sint (i + 1) = sint i + 1" using Suc.prems by (intro sint_succ) simp
  then have "rr_calls k (ns, i + 1) =
      map (\<lambda>j. Inr (ns ! nat ((sint i + 1 + int j) mod int (length ns)))) [0..<k]"
    using Suc.IH [of "i + 1"] Suc.prems by simp
  also have "\<dots> = map (\<lambda>j. Inr (ns ! nat ((sint i + int j) mod int (length ns)))) [1..<Suc k]"
    by (simp add: map_Suc_upt [symmetric] comp_def add.assoc del: upt_Suc)
  finally show ?case
    using assms Suc.prems by (simp add: RoundRobin_next_eq upt_conv_Cons del: upt_Suc)
qed simp

lemma rotate_picks:
  "0 \<le> a \<Longrightarrow> map (\<lambda>j. ns ! nat ((a + int j) mod int (length ns))) [0..<length ns] = rotate (nat a) ns"
  by (rule nth_equalityI) (simp_all add: nth_rotate nat_mod_distrib nat_add_distrib)

lemma mset_rotate: "mset (rotate k xs) = mset xs"
  by (metis append_take_drop_id mset_append rotate_drop_take union_commute)

section \<open>Properties\<close>

text \<open>
  Round robin is fair: on services with \<open>n\<close> nodes in all, \<open>n\<close> calls in a row return every node
  exactly once (as often as the services list it), as long as the counter does not pass the
  largest \<open>int\<close>.
\<close>

lemma RoundRobin_fair:
  assumes "0 \<le> r" and "r + int (length (collect_nodes ss)) \<le> 2 ^ 63 - 1"
  shows "\<exists>picks. rr_calls (length (collect_nodes ss)) (RoundRobin r ss) = map Inr picks \<and>
    mset picks = mset (collect_nodes ss)"
proof (cases "collect_nodes ss = []")
  case False
  let ?ns = "collect_nodes ss"
  have r: "sint (word_of_int r :: 64 word) = r" using assms by (simp add: int_word_sint)
  have "rr_calls (length ?ns) (?ns, word_of_int r) = map Inr (rotate (nat r) ?ns)"
    using rr_calls_eq [OF False, of "word_of_int r" "length ?ns"] assms rotate_picks [OF assms(1), of ?ns]
    by (simp add: r) (metis (no_types, lifting) comp_apply list.map_comp map_eq_conv)
  then show ?thesis by (auto simp: RoundRobin_def mset_rotate)
next
  case True
  then show ?thesis unfolding True by (intro exI [of _ "[]"]) simp
qed

text \<open>
  The counter of the round-robin strategy starts at a random \<open>int\<close> and is only ever
  incremented.  When it has passed the largest \<open>int\<close> it is negative, the remainder is negative
  too, and the call panics (unless the number of nodes divides the counter).
\<close>

lemma RoundRobin_wraps:
  assumes "\<not> int (length (collect_nodes ss)) dvd 2 ^ 63" and "collect_nodes ss \<noteq> []"
  shows "\<exists>n. rr_calls 2 (RoundRobin (2 ^ 63 - 1) ss) = [Inr n, Inl Panic_index]"
proof -
  let ?ns = "collect_nodes ss" and ?i = "word_of_int (2 ^ 63 - 1) :: 64 word"
  have i: "sint ?i = 2 ^ 63 - 1" by (simp add: int_word_sint)
  have "?i + 1 = word_of_int (2 ^ 63)" by (metis diff_add_cancel of_int_1 of_int_add)
  then have "sint (?i + 1) = - (2 ^ 63)" by (simp only:) (simp add: int_word_sint)
  moreover have "(2 ^ 63 :: int) mod int (length ?ns) > 0"
  proof -
    have "0 < int (length ?ns)" using assms(2) by (simp del: collect_nodes_eq)
    from pos_mod_sign [OF this, of "2 ^ 63"] assms(1) show ?thesis
      unfolding dvd_eq_mod_eq_0 by linarith
  qed
  ultimately have "go_rem (sint (?i + 1)) (int (length ?ns)) < 0" by (simp add: go_rem_def)
  then have "index_node ?ns (go_rem (sint (?i + 1)) (int (length ?ns))) = Inl Panic_index"
    by (simp only: index_node_def) simp
  then have "snd (RoundRobin_next (?ns, ?i + 1)) = Inl Panic_index"
    using assms(2) by (simp only: RoundRobin_next_def Let_def case_prod_conv) simp
  moreover have "RoundRobin_next (?ns, ?i) = ((?ns, ?i + 1), Inr (?ns ! nat (sint ?i mod int (length ?ns))))"
    using assms(2) i by (intro RoundRobin_next_eq) simp_all
  ultimately show ?thesis
    unfolding RoundRobin_def numeral_2_eq_2 rr_calls.simps Let_def by (simp only: case_prod_beta) simp
qed

text \<open>
  Which nodes the filters let through: a version filter keeps the nodes of the services of
  that version, a label filter the nodes that have metadata with that label, the data-centre
  filter the nodes that have metadata and the caller's environment; in each case exactly these,
  in their order, so that filters may be applied in any order.
\<close>

lemma filters_select_nodes:
  "offers (FilterVersion v ss) = filter (\<lambda>(v', _). v' = v) (offers ss) \<and>
   offers (FilterLabel key w ss) =
     filter (\<lambda>(_, n). case nd_Metadata n of None \<Rightarrow> False | Some m \<Rightarrow> md_at m key = w) (offers ss) \<and>
   offers (dc_filter env ss) = filter (\<lambda>(_, n). dc_node_ok env n) (offers ss) \<and>
   collect_nodes ss = map snd (offers ss)"
proof (intro conjI)
  have f: "filter (\<lambda>(v', _). v' = v) (map (Pair u) ns) = (if u = v then map (Pair u) ns else [])"
    "filter (\<lambda>(_, n). P n) (map (Pair u) ns) = map (Pair u) (filter P ns)" for u ns P
    by (induction ns) auto
  show "offers (FilterVersion v ss) = filter (\<lambda>(v', _). v' = v) (offers ss)"
    by (induction ss) (auto simp: f)
  show "offers (FilterLabel key w ss) =
     filter (\<lambda>(_, n). case nd_Metadata n of None \<Rightarrow> False | Some m \<Rightarrow> md_at m key = w) (offers ss)"
    by (induction ss) (auto simp: f Let_def label_nodes_def)
  show "offers (dc_filter env ss) = filter (\<lambda>(_, n). dc_node_ok env n) (offers ss)"
    by (induction ss) (auto simp: f dc_filter_def)
  show "collect_nodes ss = map snd (offers ss)" by (simp add: collect_offers)
qed

end
