(* ===== verification/Ring_Buffers.thy ===== *)
theory Ring_Buffers
  imports Go_Prelude
begin

text \<open>
  Fixed-size buffers that keep the latest items: the ring of \<open>common/util/collection/ring.go\<close>, the
  buffer with streams of \<open>common/util/collection/ring/buffer.go\<close>, and the error window of
  \<open>common/util/breaker/breaker.go\<close>.  All three meet one contract, the locale \<open>recent_items\<close>.

  Indices that only grow (\<open>Ring.index\<close>) are natural numbers: the machine integer would overflow
  after 2 to the 63 additions.  An element of a ring is an \<open>interface{}\<close>, \<open>None\<close> when it is nil, as in
  a fresh ring.  The clock is an argument.
\<close>

section \<open>The contract\<close>

text \<open>
  A buffer of capacity \<open>cap\<close>: after any sequence of additions, reading it yields the latest \<open>cap\<close>
  of them in order.  \<open>holds b xs\<close> says that \<open>b\<close> has been given the items \<open>xs\<close>.
\<close>

definition latest :: "nat \<Rightarrow> 'a list \<Rightarrow> 'a list" where
  "latest n xs = drop (length xs - n) xs"

lemma latest_Nil [simp]: "latest n [] = []"
  by (simp add: latest_def)

lemma length_latest [simp]: "length (latest n xs) = min n (length xs)"
  by (simp add: latest_def)

lemma latest_nth: "i < min n (length xs) \<Longrightarrow> latest n xs ! i = xs ! (length xs - min n (length xs) + i)"
  by (auto simp: latest_def min_def)

lemma latest_short: "length xs \<le> n \<Longrightarrow> latest n xs = xs"
  by (simp add: latest_def)

locale recent_items =
  fixes cap :: nat and empty :: 'b and add :: "'a \<Rightarrow> 'b \<Rightarrow> 'b" and items :: "'b \<Rightarrow> 'a list"
    and holds :: "'b \<Rightarrow> 'a list \<Rightarrow> bool"
  assumes holds_empty: "holds empty []"
    and holds_add: "holds b xs \<Longrightarrow> holds (add x b) (xs @ [x])"
    and items_holds: "holds b xs \<Longrightarrow> items b = latest cap xs"
begin

lemma holds_foldl: "holds b xs \<Longrightarrow> holds (foldl (\<lambda>b x. add x b) b ys) (xs @ ys)"
proof (induction ys arbitrary: b xs)
  case (Cons y ys)
  then show ?case using holds_add [OF Cons.prems, of y] Cons.IH [of "add y b" "xs @ [y]"] by simp
qed simp

lemma items_after: "items (foldl (\<lambda>b x. add x b) empty xs) = latest cap xs"
  using holds_foldl [OF holds_empty, of xs] items_holds by simp

lemma length_items_after: "length (items (foldl (\<lambda>b x. add x b) empty xs)) \<le> cap"
  by (simp add: items_after)

end

section \<open>Ring\<close>

record 'a ring =
  rg_elements :: "'a option list"
  rg_index :: nat

text \<open>\<open>NewRing\<close> panics below one.\<close>

definition NewRing :: "int \<Rightarrow> 'a ring option" where
  "NewRing n = (if n < 1 then None else Some \<lparr>rg_elements = replicate (nat n) None, rg_index = 0\<rparr>)"

definition ring_Add :: "'a option \<Rightarrow> 'a ring \<Rightarrow> 'a ring" where
  "ring_Add v r = r\<lparr>rg_elements := (rg_elements r)[rg_index r mod length (rg_elements r) := v],
     rg_index := rg_index r + 1\<rparr>"

definition ring_Take :: "'a ring \<Rightarrow> 'a option list" where
  "ring_Take r =
     (let len = length (rg_elements r);
          (size, start) = (if rg_index r > len then (len, rg_index r mod len) else (rg_index r, 0))
      in map (\<lambda>i. rg_elements r ! ((start + i) mod len)) [0..<size])"

section \<open>Error window\<close>

definition numHistoryReasons :: nat where
  "numHistoryReasons = 5"

record errorWindow =
  ew_reasons :: "string list"
  ew_index :: nat
  ew_count :: nat

definition new_errorWindow :: errorWindow where
  "new_errorWindow = \<lparr>ew_reasons = replicate numHistoryReasons [], ew_index = 0, ew_count = 0\<rparr>"

text \<open>\<open>time\<close> is the formatted time of the call.\<close>

definition ew_put :: "string \<Rightarrow> errorWindow \<Rightarrow> errorWindow" where
  "ew_put line ew = ew\<lparr>ew_reasons := (ew_reasons ew)[ew_index ew := line],
     ew_index := (ew_index ew + 1) mod numHistoryReasons,
     ew_count := min (ew_count ew + 1) numHistoryReasons\<rparr>"

definition ew_add :: "string \<Rightarrow> string \<Rightarrow> errorWindow \<Rightarrow> errorWindow" where
  "ew_add time reason ew = ew_put (time @ '' '' @ reason) ew"

text \<open>The loop \<open>for i := index-1; i >= index-count; i--\<close>, with signed \<open>i\<close>.\<close>

fun ew_loop :: "string list \<Rightarrow> int \<Rightarrow> nat \<Rightarrow> string list" where
  "ew_loop reasons i 0 = []"
| "ew_loop reasons i (Suc k) =
     reasons ! nat ((i + int numHistoryReasons) mod int numHistoryReasons) # ew_loop reasons (i - 1) k"

definition ew_list :: "errorWindow \<Rightarrow> string list" where
  "ew_list ew = ew_loop (ew_reasons ew) (int (ew_index ew) - 1) (ew_count ew)"

definition ew_String :: "errorWindow \<Rightarrow> string" where
  "ew_String ew = go_join [CHR 0x0A] (ew_list ew)"

section \<open>Buffer with streams\<close>

record 'a entry =
  en_Value :: 'a
  en_Timestamp :: int

text \<open>
  A stream: the entries its reader has not taken from the channel (which has room for 128),
  whether \<open>Stop\<close> was closed, and whether \<open>Entries\<close> is.
\<close>

record 'a stream =
  st_Id :: string
  st_Entries :: "'a entry list"
  st_Stop :: bool

record 'a buffer =
  bf_size :: int
  bf_vals :: "'a entry list"
  bf_streams :: "(string, 'a stream) go_map"

definition stream_cap :: nat where
  "stream_cap = 128"

definition buffer_New :: "int \<Rightarrow> 'a buffer" where
  "buffer_New i = \<lparr>bf_size = i, bf_vals = [], bf_streams = []\<rparr>"

definition put_vals :: "'a entry \<Rightarrow> 'a buffer \<Rightarrow> 'a buffer" where
  "put_vals entry b =
     (let vals = bf_vals b @ [entry]
      in b\<lparr>bf_vals := (if int (length vals) > bf_size b then drop 1 vals else vals)\<rparr>)"

text \<open>
  The \<open>select\<close> for one stream.  When both cases are ready, \<open>sel id\<close> tells which one is taken;
  \<open>None\<close>: neither is, the stream is not stopped and its channel is full, and the call waits.
\<close>

definition put_stream ::
  "(string \<Rightarrow> bool) \<Rightarrow> 'a entry \<Rightarrow> 'a stream \<Rightarrow> (string, 'a stream) go_map \<Rightarrow> (string, 'a stream) go_map option" where
  "put_stream sel entry s streams =
     (let full = length (st_Entries s) \<ge> stream_cap
      in if st_Stop s \<and> (full \<or> sel (st_Id s)) then Some (AList.delete (st_Id s) streams)
         else if \<not> full then Some (AList.update (st_Id s) (s\<lparr>st_Entries := st_Entries s @ [entry]\<rparr>) streams)
         else None)"

fun put_streams ::
  "(string \<Rightarrow> bool) \<Rightarrow> 'a entry \<Rightarrow> 'a stream list \<Rightarrow> (string, 'a stream) go_map \<Rightarrow> (string, 'a stream) go_map option" where
  "put_streams sel entry [] streams = Some streams"
| "put_streams sel entry (s # todo) streams =
     (case put_stream sel entry s streams of
        None \<Rightarrow> None
      | Some streams' \<Rightarrow> put_streams sel entry todo streams')"

definition buffer_Put :: "(string \<Rightarrow> bool) \<Rightarrow> int \<Rightarrow> 'a \<Rightarrow> 'a buffer \<Rightarrow> 'a buffer option" where
  "buffer_Put sel now v b =
     (let entry = \<lparr>en_Value = v, en_Timestamp = now\<rparr>;
          b' = put_vals entry b
      in map_option (\<lambda>streams. b'\<lparr>bf_streams := streams\<rparr>)
           (put_streams sel entry (map snd (bf_streams b')) (bf_streams b')))"

definition buffer_Get :: "int \<Rightarrow> 'a buffer \<Rightarrow> 'a entry list" where
  "buffer_Get n b =
     (let n' = (if n > int (length (bf_vals b)) \<or> n < 0 then int (length (bf_vals b)) else n);
          delta = int (length (bf_vals b)) - n'
      in drop (nat delta) (bf_vals b))"

text \<open>\<open>Since\<close>: the zero time is \<open>None\<close>.\<close>

fun since_loop :: "int \<Rightarrow> 'a entry list \<Rightarrow> 'a entry list" where
  "since_loop t [] = []"
| "since_loop t (v # vals) = (if en_Timestamp v - t > 0 then v # vals else since_loop t vals)"

definition buffer_Since :: "int \<Rightarrow> int option \<Rightarrow> 'a buffer \<Rightarrow> 'a entry list" where
  "buffer_Since now t b =
     (case t of
        None \<Rightarrow> bf_vals b
      | Some t \<Rightarrow> if now - t < 0 then [] else since_loop t (bf_vals b))"

definition buffer_Stream :: "string \<Rightarrow> 'a buffer \<Rightarrow> 'a buffer" where
  "buffer_Stream uuid b =
     b\<lparr>bf_streams := AList.update uuid \<lparr>st_Id = uuid, st_Entries = [], st_Stop = False\<rparr> (bf_streams b)\<rparr>"

definition buffer_Size :: "'a buffer \<Rightarrow> int" where
  "buffer_Size b = bf_size b"

section \<open>Circular arrays\<close>

text \<open>Slot \<open>i mod n\<close> of an array of \<open>n\<close> slots holds item \<open>i\<close>, for the latest \<open>n\<close> items.\<close>

definition circular :: "'a list \<Rightarrow> 'a list \<Rightarrow> bool" where
  "circular els xs \<longleftrightarrow> els \<noteq> [] \<and>
     (\<forall>i < length xs. length xs \<le> i + length els \<longrightarrow> els ! (i mod length els) = xs ! i)"

lemma mod_neq_near:
  fixes i j n :: nat
  assumes "i < j" and "j < i + n"
  shows "i mod n \<noteq> j mod n"
proof
  assume "i mod n = j mod n"
  then have "n dvd j - i" using assms(1) by (metis mod_eq_dvd_iff_nat less_imp_le)
  then have "n \<le> j - i" using assms(1) by (auto intro: dvd_imp_le)
  with assms show False by simp
qed

lemma circular_Nil: "els \<noteq> [] \<Longrightarrow> circular els []"
  by (simp add: circular_def)

lemma circular_add:
  assumes "circular els xs"
  shows "circular (els[length xs mod length els := x]) (xs @ [x])"
  unfolding circular_def
proof (intro conjI allI impI)
  fix i
  assume i: "i < length (xs @ [x])" "length (xs @ [x]) \<le> i + length (els[length xs mod length els := x])"
  from assms have els: "els \<noteq> []" by (simp add: circular_def)
  show "els[length xs mod length els := x] ! (i mod length (els[length xs mod length els := x])) = (xs @ [x]) ! i"
  proof (cases "i = length xs")
    case True
    with els show ?thesis by simp
  next
    case False
    with i have lt: "i < length xs" "length xs < i + length els" by auto
    from mod_neq_near [OF lt] lt assms show ?thesis by (simp add: circular_def nth_append)
  qed
qed (use assms in \<open>simp add: circular_def\<close>)

lemma circular_nth:
  "circular els xs \<Longrightarrow> j < min (length els) (length xs) \<Longrightarrow>
     els ! ((length xs - 1 - j) mod length els) = xs ! (length xs - 1 - j)"
  by (auto simp: circular_def)

text \<open>Reading a circular array from the oldest slot.\<close>

lemma circular_read:
  assumes "circular els xs"
  shows "map (\<lambda>i. els ! ((length xs - min (length els) (length xs) + i) mod length els))
      [0..<min (length els) (length xs)] = latest (length els) xs"
  using assms
  by (intro nth_equalityI) (auto simp: circular_def latest_nth min_def)

section \<open>The three buffers meet the contract\<close>

definition ring_holds :: "nat \<Rightarrow> 'a ring \<Rightarrow> 'a option list \<Rightarrow> bool" where
  "ring_holds n r xs \<longleftrightarrow> circular (rg_elements r) xs \<and> length (rg_elements r) = n \<and> rg_index r = length xs"

lemma ring_Take_eq:
  "ring_Take r =
     (let len = length (rg_elements r)
      in map (\<lambda>i. rg_elements r ! ((rg_index r - min len (rg_index r) + i) mod len)) [0..<min len (rg_index r)])"
proof (cases "rg_index r > length (rg_elements r)")
  case True
  let ?l = "length (rg_elements r)"
  have "(rg_index r mod ?l + i) mod ?l = (rg_index r - ?l + i) mod ?l" for i
    using True by (metis le_mod_geq less_imp_le mod_add_left_eq)
  with True show ?thesis by (simp add: ring_Take_def Let_def min_def)
qed (simp add: ring_Take_def Let_def min_def)

interpretation ring: recent_items "Suc n" "the (NewRing (int (Suc n)))" ring_Add ring_Take "ring_holds (Suc n)" for n
proof
  show "ring_holds (Suc n) (the (NewRing (int (Suc n)))) []"
    by (simp add: NewRing_def ring_holds_def circular_Nil nat_add_distrib)
  fix b :: "'a ring" and xs x
  assume "ring_holds (Suc n) b xs"
  then show "ring_holds (Suc n) (ring_Add x b) (xs @ [x])" "ring_Take b = latest (Suc n) xs"
    using circular_add [of "rg_elements b" xs x] circular_read [of "rg_elements b" xs]
    by (auto simp: ring_holds_def ring_Add_def ring_Take_eq)
qed

definition ew_holds :: "errorWindow \<Rightarrow> string list \<Rightarrow> bool" where
  "ew_holds ew xs \<longleftrightarrow> circular (ew_reasons ew) xs \<and> length (ew_reasons ew) = numHistoryReasons \<and>
     ew_index ew = length xs mod numHistoryReasons \<and> ew_count ew = min (length xs) numHistoryReasons"

lemma ew_loop_eq:
  "ew_loop reasons i k = map (\<lambda>j. reasons ! nat ((i - int j + int numHistoryReasons) mod int numHistoryReasons)) [0..<k]"
proof (induction k arbitrary: i)
  case (Suc k)
  show ?case
    unfolding ew_loop.simps Suc.IH
    by (simp add: upt_conv_Cons map_Suc_upt [symmetric] comp_def algebra_simps del: upt_Suc)
qed simp

lemma ew_slot:
  assumes "j < n" and "0 < N"
  shows "nat ((int (n mod N) - 1 - int j + int N) mod int N) = (n - 1 - j) mod N"
proof -
  have "(int (n mod N) - 1 - int j + int N) mod int N = (int n - 1 - int j) mod int N"
    by (simp add: zmod_int diff_diff_eq mod_diff_left_eq)
  also have "\<dots> = int ((n - 1 - j) mod N)"
    using assms(1) by (simp add: zmod_int of_nat_diff diff_diff_eq)
  finally show ?thesis by simp
qed

lemma ew_list_holds:
  assumes "ew_holds ew xs"
  shows "ew_list ew = rev (latest numHistoryReasons xs)"
proof (rule nth_equalityI)
  let ?N = numHistoryReasons
  from assms have ew: "circular (ew_reasons ew) xs" "length (ew_reasons ew) = ?N"
    "ew_index ew = length xs mod ?N" "ew_count ew = min (length xs) ?N" by (auto simp: ew_holds_def)
  have N: "0 < ?N" by (simp add: numHistoryReasons_def)
  show "length (ew_list ew) = length (rev (latest ?N xs))"
    using ew by (simp add: ew_list_def ew_loop_eq min.commute)
  fix j
  assume "j < length (ew_list ew)"
  then have j: "j < min (length xs) ?N" using ew by (simp add: ew_list_def ew_loop_eq)
  then have "ew_list ew ! j = ew_reasons ew ! ((length xs - 1 - j) mod ?N)"
    using ew ew_slot [OF _ N, of j "length xs"] by (simp add: ew_list_def ew_loop_eq)
  also have "\<dots> = xs ! (length xs - 1 - j)"
    using circular_nth [OF ew(1), of j] ew(2) j by (simp add: min.commute)
  also have "\<dots> = rev (latest ?N xs) ! j"
    using j by (subst rev_nth) (auto simp: latest_def)
  finally show "ew_list ew ! j = rev (latest ?N xs) ! j" .
qed

interpretation errwin: recent_items numHistoryReasons new_errorWindow ew_put "\<lambda>ew. rev (ew_list ew)" ew_holds
proof
  show "ew_holds new_errorWindow []"
    by (simp add: new_errorWindow_def ew_holds_def circular_Nil numHistoryReasons_def)
  fix b xs x
  assume h: "ew_holds b xs"
  then show "ew_holds (ew_put x b) (xs @ [x])"
    using circular_add [of "ew_reasons b" xs x] by (simp add: ew_holds_def ew_put_def mod_Suc_eq)
  show "rev (ew_list b) = latest numHistoryReasons xs" by (simp add: ew_list_holds [OF h])
qed

definition buffer_holds :: "int \<Rightarrow> 'a buffer \<Rightarrow> 'a entry list \<Rightarrow> bool" where
  "buffer_holds i b xs \<longleftrightarrow> bf_size b = i \<and> bf_vals b = latest (nat i) xs"

lemma latest_snoc:
  "latest n (xs @ [x]) = (if length (latest n xs @ [x]) > n then drop 1 (latest n xs @ [x]) else latest n xs @ [x])"
  by (auto simp: latest_def Suc_diff_le)

interpretation buffer: recent_items "nat i" "buffer_New i" put_vals bf_vals "buffer_holds i" for i
proof
  fix b :: "'a buffer" and xs x
  assume h: "buffer_holds i b xs"
  then show "buffer_holds i (put_vals x b) (xs @ [x])"
    by (auto simp: buffer_holds_def put_vals_def Let_def latest_snoc)
  show "bf_vals b = latest (nat i) xs" using h by (simp add: buffer_holds_def)
qed (simp add: buffer_holds_def buffer_New_def)

section \<open>Streams of a buffer\<close>

definition stream_stuck :: "'a stream \<Rightarrow> bool" where
  "stream_stuck s \<longleftrightarrow> \<not> st_Stop s \<and> stream_cap \<le> length (st_Entries s)"

lemma put_stream_None: "put_stream sel e s streams = None \<longleftrightarrow> stream_stuck s"
  by (auto simp: put_stream_def stream_stuck_def Let_def)

lemma put_streams_None: "put_streams sel e todo streams = None \<longleftrightarrow> list_ex stream_stuck todo"
proof (induction todo arbitrary: streams)
  case (Cons s todo)
  then show ?case
    using put_stream_None [of sel e s streams] by (auto split: option.splits)
qed simp

lemma since_loop_eq: "since_loop t vals = dropWhile (\<lambda>v. en_Timestamp v \<le> t) vals"
  by (induction vals) auto

lemma dropWhile_sorted_filter:
  "sorted (map f xs) \<Longrightarrow> dropWhile (\<lambda>x. f x \<le> (t :: int)) xs = filter (\<lambda>x. t < f x) xs"
proof (induction xs)
  case (Cons x xs)
  then show ?case by (auto simp: filter_id_conv intro!: filter_True [symmetric])
qed simp

section \<open>Runs of a buffer\<close>

text \<open>
  The histories of a buffer of size \<open>i\<close>: calls of \<open>Put\<close> that return, new streams (with an id that no stream has), readers that take the
  next entry of their channel, and readers that stop, in any order.  \<open>es\<close> are all entries that were put, in order; \<open>got\<close> is for the id of a stream
  what its reader has taken, and how many entries had been put when it was opened.  A \<open>Put\<close> that has to wait for a reader is a \<open>Put\<close> after it.
\<close>

inductive buffer_run :: "int \<Rightarrow> 'a entry list \<Rightarrow> (string \<Rightarrow> 'a entry list \<times> nat) \<Rightarrow> 'a buffer \<Rightarrow> bool" for i where
  run_New: "buffer_run i [] got (buffer_New i)"
| run_Put: "buffer_run i es got b \<Longrightarrow> buffer_Put sel now v b = Some b' \<Longrightarrow> buffer_run i (es @ [\<lparr>en_Value = v, en_Timestamp = now\<rparr>]) got b'"
| run_Stream: "buffer_run i es got b \<Longrightarrow> map_of (bf_streams b) u = None \<Longrightarrow> buffer_run i es (got(u := ([], length es))) (buffer_Stream u b)"
| run_take: "buffer_run i es got b \<Longrightarrow> map_of (bf_streams b) u = Some s \<Longrightarrow> st_Entries s = e # rest \<Longrightarrow>
    buffer_run i es (got(u := (fst (got u) @ [e], snd (got u)))) (b\<lparr>bf_streams := AList.update u (s\<lparr>st_Entries := rest\<rparr>) (bf_streams b)\<rparr>)"
| run_stop: "buffer_run i es got b \<Longrightarrow> map_of (bf_streams b) u = Some s \<Longrightarrow>
    buffer_run i es got (b\<lparr>bf_streams := AList.update u (s\<lparr>st_Stop := True\<rparr>) (bf_streams b)\<rparr>)"

definition stream_ok :: "'a entry list \<Rightarrow> (string \<Rightarrow> 'a entry list \<times> nat) \<Rightarrow> string \<Rightarrow> 'a stream \<Rightarrow> bool" where
  "stream_ok es got u s \<longleftrightarrow> st_Id s = u \<and> length (st_Entries s) \<le> stream_cap \<and> snd (got u) \<le> length es \<and>
     fst (got u) @ st_Entries s = drop (snd (got u)) es"

definition streams_ok :: "'a entry list \<Rightarrow> (string \<Rightarrow> 'a entry list \<times> nat) \<Rightarrow> 'a buffer \<Rightarrow> bool" where
  "streams_ok es got b \<longleftrightarrow> go_map (bf_streams b) \<and> (\<forall>u s. map_of (bf_streams b) u = Some s \<longrightarrow> stream_ok es got u s)"

lemma put_streams_map:
  assumes "put_streams sel e todo streams = Some streams'" and "go_map streams" and "distinct (map st_Id todo)"
  shows "go_map streams' \<and> (\<forall>u s'. map_of streams' u = Some s' \<longrightarrow>
    (if u \<in> st_Id ` set todo
     then \<exists>s \<in> set todo. st_Id s = u \<and> s' = s\<lparr>st_Entries := st_Entries s @ [e]\<rparr> \<and> length (st_Entries s) < stream_cap
     else map_of streams u = Some s'))"
  using assms
proof (induction todo arbitrary: streams)
  case (Cons s todo)
  from Cons.prems(1) obtain st1 where st1: "put_stream sel e s streams = Some st1" "put_streams sel e todo st1 = Some streams'"
    by (auto split: option.splits)
  have m: "go_map st1 \<and> (\<forall>u s'. map_of st1 u = Some s' \<longrightarrow>
      (if u = st_Id s then s' = s\<lparr>st_Entries := st_Entries s @ [e]\<rparr> \<and> length (st_Entries s) < stream_cap else map_of streams u = Some s'))"
    using st1(1) Cons.prems(2) by (auto simp: put_stream_def Let_def delete_conv' split: if_splits intro!: go_map_intros)
  with Cons.IH [OF st1(2)] Cons.prems(3) show ?case by (auto split: if_splits)
qed simp

lemma buffer_Put_streams:
  assumes "streams_ok es got b" and "buffer_Put sel now v b = Some b'"
  shows "streams_ok (es @ [\<lparr>en_Value = v, en_Timestamp = now\<rparr>]) got b'"
proof -
  let ?e = "\<lparr>en_Value = v, en_Timestamp = now\<rparr>" let ?todo = "map snd (bf_streams b)"
  from assms(2) have p: "put_streams sel ?e ?todo (bf_streams b) = Some (bf_streams b')"
    by (auto simp: buffer_Put_def put_vals_def Let_def)
  have g: "go_map (bf_streams b)" and ok: "\<And>u s. (u, s) \<in> set (bf_streams b) \<Longrightarrow> stream_ok es got u s"
    using assms(1) by (auto simp: streams_ok_def go_map_def)
  have ids: "map st_Id ?todo = map fst (bf_streams b)" using ok by (auto simp: stream_ok_def)
  then have d: "distinct (map st_Id ?todo)" using g by (simp only: go_map_def)
  have ids': "st_Id ` set ?todo = fst ` set (bf_streams b)" using ids by (metis set_map)
  note m = put_streams_map [OF p g d, unfolded ids']
  have "stream_ok (es @ [?e]) got u s'" if s': "map_of (bf_streams b') u = Some s'" for u s'
  proof (cases "u \<in> fst ` set (bf_streams b)")
    case True
    with conjunct2 [OF m, rule_format, OF s'] obtain s where "s \<in> set ?todo" and s: "st_Id s = u" "s' = s\<lparr>st_Entries := st_Entries s @ [?e]\<rparr>" "length (st_Entries s) < stream_cap"
      unfolding if_P [OF True] by (elim bexE conjE)
    then have "stream_ok es got u s" using ok by (auto simp: stream_ok_def)
    then show ?thesis using s by (auto simp: stream_ok_def)
  next
    case False
    then show ?thesis using m s' by (metis map_of_eq_None_iff option.distinct(1))
  qed
  then show ?thesis using m by (simp add: streams_ok_def)
qed

lemma buffer_run_ok: "buffer_run i es got b \<Longrightarrow> buffer_holds i b es \<and> streams_ok es got b"
proof (induction rule: buffer_run.induct)
  case (run_New got)
  then show ?case using buffer.holds_empty by (simp add: streams_ok_def buffer_New_def go_map_def)
next
  case (run_Put es got b sel now v b')
  then have "buffer_holds i (put_vals \<lparr>en_Value = v, en_Timestamp = now\<rparr> b) (es @ [\<lparr>en_Value = v, en_Timestamp = now\<rparr>])"
    using buffer.holds_add by blast
  moreover have "streams_ok (es @ [\<lparr>en_Value = v, en_Timestamp = now\<rparr>]) got b'"
    by (rule buffer_Put_streams [OF conjunct2 [OF run_Put.IH] run_Put.hyps(2)])
  ultimately show ?case using run_Put.hyps(2) by (auto simp: buffer_Put_def buffer_holds_def Let_def)
next
  case (run_Stream es got b u)
  then show ?case
    by (auto simp: buffer_holds_def streams_ok_def stream_ok_def buffer_Stream_def split: if_splits intro!: go_map_intros)
next
  case (run_take es got b u s e rest)
  then have "stream_ok es got u s" by (simp add: streams_ok_def)
  moreover define g where "g = got(u := (fst (got u) @ [e], snd (got u)))"
  ultimately have "stream_ok es g u (s\<lparr>st_Entries := rest\<rparr>)" using run_take.hyps(3) by (simp add: stream_ok_def)
  moreover have "stream_ok es g u' s' = stream_ok es got u' s'" if "u' \<noteq> u" for u' s' using that by (simp add: g_def stream_ok_def)
  ultimately show ?case unfolding g_def [symmetric] using run_take.IH
    by (auto simp: buffer_holds_def streams_ok_def split: if_splits intro!: go_map_intros)
next
  case (run_stop es got b u s)
  then show ?case
    by (auto simp: buffer_holds_def streams_ok_def stream_ok_def split: if_splits intro!: go_map_intros)
qed

lemma latest_latest: "latest n (latest m xs) = latest (min n m) xs"
proof -
  have "length xs - (length xs - m) - n + (length xs - m) = length xs - min n m" by auto
  then show ?thesis by (simp add: latest_def)
qed

lemma buffer_Get_latest: "buffer_Get n b = (if n < 0 then bf_vals b else latest (nat n) (bf_vals b))"
  by (auto simp: buffer_Get_def Let_def latest_def nat_diff_distrib)

section \<open>Properties\<close>

text \<open>
  C35.  The ring of size \<open>n + 1\<close>, the buffer of size \<open>i\<close> and the error window all keep exactly the
  latest items.  After any sequence of additions, \<open>Take\<close> returns the latest \<open>n + 1\<close> items in order, and the error window prints the latest five
  lines, newest first.  After any run of a buffer, with streams opened, read and stopped between the calls of Put, \<open>Get k\<close> returns the latest \<open>k\<close>
  of all entries that were put, at most \<open>i\<close> of them, in order (and the latest \<open>i\<close> for a negative \<open>k\<close>); and a stream that is
  still served has handed its reader, with what waits in its channel, every entry put since it was opened, once and in order.
\<close>

theorem buffers_keep_latest:
  "ring_Take (foldl (\<lambda>r x. ring_Add x r) (the (NewRing (int (Suc n)))) xs) = latest (Suc n) xs \<and>
   (\<forall>es got b. buffer_run i es got b \<longrightarrow>
      (\<forall>k. buffer_Get k b = latest (if k < 0 then nat i else min (nat k) (nat i)) es) \<and>
      (\<forall>u s. map_of (bf_streams b) u = Some s \<longrightarrow> fst (got u) @ st_Entries s = drop (snd (got u)) es)) \<and>
   ew_String (foldl (\<lambda>ew (t, r). ew_add t r ew) new_errorWindow ls) =
     go_join [CHR 0x0A] (rev (latest numHistoryReasons (map (\<lambda>(t, r). t @ '' '' @ r) ls)))"
proof (intro conjI allI impI)
  show "ring_Take (foldl (\<lambda>r x. ring_Add x r) (the (NewRing (int (Suc n)))) xs) = latest (Suc n) xs"
    by (rule ring.items_after)
  have "foldl (\<lambda>ew (t, r). ew_add t r ew) ew ls = foldl (\<lambda>ew l. ew_put l ew) ew (map (\<lambda>(t, r). t @ '' '' @ r) ls)"
    for ew by (induction ls arbitrary: ew) (auto simp: ew_add_def)
  then have "rev (ew_list (foldl (\<lambda>ew (t, r). ew_add t r ew) new_errorWindow ls)) =
      latest numHistoryReasons (map (\<lambda>(t, r). t @ '' '' @ r) ls)"
    using errwin.items_after [of "map (\<lambda>(t, r). t @ '' '' @ r) ls"] by simp
  then show "ew_String (foldl (\<lambda>ew (t, r). ew_add t r ew) new_errorWindow ls) =
     go_join [CHR 0x0A] (rev (latest numHistoryReasons (map (\<lambda>(t, r). t @ '' '' @ r) ls)))"
    by (metis ew_String_def rev_rev_ident)
next
  fix es :: "'b entry list" and got b k
  assume "buffer_run i es got b"
  then have "bf_vals b = latest (nat i) es" using buffer_run_ok by (auto simp: buffer_holds_def)
  then show "buffer_Get k b = latest (if k < 0 then nat i else min (nat k) (nat i)) es"
    by (simp add: buffer_Get_latest latest_latest)
next
  fix es :: "'b entry list" and got b u s
  assume "buffer_run i es got b" "map_of (bf_streams b) u = Some s"
  then show "fst (got u) @ st_Entries s = drop (snd (got u)) es"
    using buffer_run_ok [of i es got b] by (auto simp: streams_ok_def stream_ok_def)
qed

theorem buffers_keep_latest_witness:
  "\<exists>got b. buffer_run 1 [\<lparr>en_Value = CHR ''x'', en_Timestamp = 4\<rparr>, \<lparr>en_Value = CHR ''y'', en_Timestamp = 5\<rparr>] got b \<and>
     buffer_Get 7 b = [\<lparr>en_Value = CHR ''y'', en_Timestamp = 5\<rparr>]"
proof -
  let ?b1 = "\<lparr>bf_size = 1, bf_vals = [\<lparr>en_Value = CHR ''x'', en_Timestamp = 4\<rparr>], bf_streams = []\<rparr>"
  let ?b2 = "\<lparr>bf_size = 1, bf_vals = [\<lparr>en_Value = CHR ''y'', en_Timestamp = 5\<rparr>], bf_streams = []\<rparr>"
  have "buffer_Put (\<lambda>_. True) 4 (CHR ''x'') (buffer_New 1) = Some ?b1" "buffer_Put (\<lambda>_. True) 5 (CHR ''y'') ?b1 = Some ?b2"
    by (simp_all add: buffer_Put_def buffer_New_def put_vals_def)
  then have run: "buffer_run 1 ([] @ [\<lparr>en_Value = CHR ''x'', en_Timestamp = 4\<rparr>] @ [\<lparr>en_Value = CHR ''y'', en_Timestamp = 5\<rparr>]) (\<lambda>_. ([], 0)) ?b2"
    unfolding append_assoc [symmetric] by (intro run_Put) (rule run_New)
  have "buffer_Get 7 ?b2 = latest (min 7 1) [\<lparr>en_Value = CHR ''x'', en_Timestamp = 4\<rparr>, \<lparr>en_Value = CHR ''y'', en_Timestamp = 5\<rparr>]"
    using buffers_keep_latest [where i = 1 and n = 0 and xs = "[] :: nat option list" and ls = "[]"] run by fastforce
  then show ?thesis using run by (auto simp: latest_def)
qed

text \<open>
  \<open>Since\<close> on a buffer whose entries are in the order of their times (as a clock that does not
  go back makes them) returns exactly the entries later than the time asked for, and nothing for a
  time in the future; \<open>Get\<close> returns the latest \<open>n\<close> entries, all of them when \<open>n\<close> is negative or
  too large.
\<close>

lemma buffer_queries:
  assumes "sorted (map en_Timestamp (bf_vals b))"
  shows "buffer_Since now (Some t) b = (if now < t then [] else filter (\<lambda>v. t < en_Timestamp v) (bf_vals b)) \<and>
    buffer_Get n b = (if n < 0 then bf_vals b else latest (nat n) (bf_vals b))"
  using dropWhile_sorted_filter [OF assms, of t]
  by (auto simp: buffer_Since_def since_loop_eq buffer_Get_latest)

text \<open>
  \<open>Put\<close> returns unless some stream is not stopped and has 128 entries that its reader has not
  taken: then the send waits, with the buffer's lock held, until that reader takes one.  So a
  reader that neither reads nor stops makes every writer wait.
\<close>

lemma buffer_Put_waits:
  "buffer_Put sel now v b = None \<longleftrightarrow> list_ex (\<lambda>(_, s). \<not> st_Stop s \<and> 128 \<le> length (st_Entries s)) (bf_streams b)"
proof -
  have "bf_streams (put_vals e b) = bf_streams b" for e by (simp add: put_vals_def Let_def)
  then show ?thesis
    by (simp add: buffer_Put_def Let_def put_streams_None list_ex_iff stream_stuck_def stream_cap_def
        case_prod_beta)
qed

end
