(* ===== verification/Circuit_Breaker.thy ===== *)
theory Circuit_Breaker
  imports Complex_Main Ring_Buffers
begin

text \<open>
  The circuit breaker of \<open>common/util/breaker\<close> on the rolling window of
  \<open>common/util/collection/rollingwindow\<close>.

  Times are integers (nanoseconds of \<open>mtime.ReNow\<close>).  An operation that adds reads the clock twice, once for the number of
  intervals that have passed and once for the start of the current one, and takes the pair of readings as its argument; one that
  only looks reads it once, the argument \<open>now\<close>.  The sum of a bucket is a \<open>float64\<close> in the code; the breaker adds only 0 and 1,
  which are exact there, and the model uses integers.  The drop ratio is a rational number where
  the code rounds to a \<open>float64\<close>.  The random number of \<open>TrueOnProba\<close> is the argument \<open>draw\<close>, in
  [0, 1).
\<close>

section \<open>Rolling window\<close>

record bucket =
  bk_Sum :: int
  bk_Count :: int

record rollingWindow =
  rw_size :: int
  rw_buckets :: "bucket list"
  rw_interval :: int
  rw_offset :: int
  rw_ignoreCurrent :: bool
  rw_lastTime :: int

definition bucket_zero :: bucket where
  "bucket_zero = \<lparr>bk_Sum = 0, bk_Count = 0\<rparr>"

definition bucket_add :: "int \<Rightarrow> bucket \<Rightarrow> bucket" where
  "bucket_add v b = b\<lparr>bk_Sum := bk_Sum b + v, bk_Count := bk_Count b + 1\<rparr>"

definition bucket_reset :: "bucket \<Rightarrow> bucket" where
  "bucket_reset b = b\<lparr>bk_Sum := 0, bk_Count := 0\<rparr>"

text \<open>\<open>New\<close> panics when the size is below one.\<close>

definition window_New :: "int \<Rightarrow> int \<Rightarrow> bool \<Rightarrow> int \<Rightarrow> rollingWindow option" where
  "window_New sz interval ignoreCurrent now =
     (if sz < 1 then None
      else Some \<lparr>rw_size = sz, rw_buckets = replicate (nat sz) bucket_zero, rw_interval = interval,
        rw_offset = 0, rw_ignoreCurrent = ignoreCurrent, rw_lastTime = now\<rparr>)"

definition rw_span :: "int \<Rightarrow> rollingWindow \<Rightarrow> int" where
  "rw_span now rw =
     (let offset = go_quot (now - rw_lastTime rw) (rw_interval rw)
      in if 0 \<le> offset \<and> offset < rw_size rw then offset else rw_size rw)"

text \<open>The loop of \<open>updateOffset\<close> that resets the expired buckets, \<open>k\<close> of them.\<close>

definition resetBucket :: "int \<Rightarrow> int \<Rightarrow> bucket list \<Rightarrow> bucket list" where
  "resetBucket sz offset bs = bs[nat (offset mod sz) := bucket_reset (bs ! nat (offset mod sz))]"

fun reset_loop :: "int \<Rightarrow> int \<Rightarrow> nat \<Rightarrow> bucket list \<Rightarrow> bucket list" where
  "reset_loop sz offset 0 bs = bs"
| "reset_loop sz offset (Suc k) bs =
     resetBucket sz ((offset + int k + 1) mod sz) (reset_loop sz offset k bs)"

type_synonym readings = "int \<times> int"

definition updateOffset :: "readings \<Rightarrow> rollingWindow \<Rightarrow> rollingWindow" where
  "updateOffset clock rw =
     (let span = rw_span (fst clock) rw; now = snd clock
      in if span \<le> 0 then rw
         else rw\<lparr>rw_buckets := reset_loop (rw_size rw) (rw_offset rw) (nat span) (rw_buckets rw),
                 rw_offset := (rw_offset rw + span) mod rw_size rw,
                 rw_lastTime := now - go_rem (now - rw_lastTime rw) (rw_interval rw)\<rparr>)"

definition window_Add :: "readings \<Rightarrow> int \<Rightarrow> rollingWindow \<Rightarrow> rollingWindow" where
  "window_Add clock v rw =
     (let rw' = updateOffset clock rw;
          i = nat (rw_offset rw' mod rw_size rw')
      in rw'\<lparr>rw_buckets := (rw_buckets rw')[i := bucket_add v (rw_buckets rw' ! i)]\<rparr>)"

text \<open>\<open>Reduce\<close>: the buckets that the callback is given, in order.\<close>

definition window_Reduce :: "int \<Rightarrow> rollingWindow \<Rightarrow> bucket list" where
  "window_Reduce now rw =
     (let span = rw_span now rw;
          diff = (if span = 0 \<and> rw_ignoreCurrent rw then rw_size rw - 1 else rw_size rw - span)
      in if diff > 0
         then let offset = (rw_offset rw + span + 1) mod rw_size rw
              in map (\<lambda>i. rw_buckets rw ! nat ((offset + int i) mod rw_size rw)) [0..<nat diff]
         else [])"

section \<open>Google breaker\<close>

definition bk_window :: int where "bk_window = 10 * 1000000000"
definition bk_buckets :: int where "bk_buckets = 40"
definition bk_protection :: int where "bk_protection = 5"

definition newGoogleBreaker :: "int \<Rightarrow> rollingWindow" where
  "newGoogleBreaker now = the (window_New bk_buckets (bk_window div bk_buckets) False now)"

definition history :: "int \<Rightarrow> rollingWindow \<Rightarrow> int \<times> int" where
  "history now st =
     foldl (\<lambda>(accepts, tot) b. (accepts + bk_Sum b, tot + bk_Count b)) (0, 0) (window_Reduce now st)"

definition dropRatio :: "int \<Rightarrow> int \<Rightarrow> rat" where
  "dropRatio accepts tot =
     max 0 ((of_int (tot - bk_protection) - 3 / 2 * of_int accepts) / of_int (tot + 1))"

text \<open>\<open>TrueOnProba\<close> and \<open>accept\<close>: whether the request is let through.\<close>

definition TrueOnProba :: "rat \<Rightarrow> rat \<Rightarrow> bool" where
  "TrueOnProba draw proba \<longleftrightarrow> draw < proba"

definition gb_accept :: "int \<Rightarrow> rat \<Rightarrow> rollingWindow \<Rightarrow> bool" where
  "gb_accept now draw st =
     (let (accepts, tot) = history now st; ratio = dropRatio accepts tot
      in if ratio \<le> 0 then True else \<not> TrueOnProba draw ratio)"

definition markSuccess :: "readings \<Rightarrow> rollingWindow \<Rightarrow> rollingWindow" where
  "markSuccess clock st = window_Add clock 1 st"

definition markFailure :: "readings \<Rightarrow> rollingWindow \<Rightarrow> rollingWindow" where
  "markFailure clock st = window_Add clock 0 st"

section \<open>Logged throttle\<close>

text \<open>
  The breaker with its error window.  A request returns an error (or nil, \<open>None\<close>) or panics; the
  result of a call is the same, or the breaker's own error.  \<open>time\<close> is the formatted time of a line
  in the error window, \<open>later\<close> the readings of the clock when the request is over.
\<close>

datatype brk_error = ErrServiceUnavailable | ReqError string

fun err_Error :: "brk_error \<Rightarrow> string" where
  "err_Error ErrServiceUnavailable = ''circuit breaker is open''"
| "err_Error (ReqError s) = s"

datatype outcome = Returns "brk_error option" | Panics string

record breaker =
  br_stat :: rollingWindow
  br_errWin :: errorWindow

definition breaker_New :: "int \<Rightarrow> breaker" where
  "breaker_New now = \<lparr>br_stat = newGoogleBreaker now, br_errWin = new_errorWindow\<rparr>"

definition defaultAcceptable :: "brk_error option \<Rightarrow> bool" where
  "defaultAcceptable err \<longleftrightarrow> err = None"

text \<open>
  \<open>doReq\<close> of \<open>loggedThrottle\<close> around \<open>doReq\<close> of \<open>googleBreaker\<close>.  The wrapped \<open>acceptable\<close> writes an
  unacceptable error to the window; on an unacceptable nil error it follows a nil pointer, which
  the deferred function counts as a failure and raises again.
\<close>

definition doReq ::
  "int \<Rightarrow> rat \<Rightarrow> outcome \<Rightarrow> (brk_error \<Rightarrow> outcome) option \<Rightarrow> (brk_error option \<Rightarrow> bool) \<Rightarrow> string \<Rightarrow> readings \<Rightarrow>
   breaker \<Rightarrow> breaker \<times> outcome" where
  "doReq now draw req fallback acceptable time later b =
     (if \<not> gb_accept now draw (br_stat b)
      then (b, case fallback of None \<Rightarrow> Returns (Some ErrServiceUnavailable) | Some f \<Rightarrow> f ErrServiceUnavailable)
      else case req of
        Panics e \<Rightarrow> (b\<lparr>br_stat := markFailure later (br_stat b)\<rparr>, Panics e)
      | Returns err \<Rightarrow>
          if acceptable err then (b\<lparr>br_stat := markSuccess later (br_stat b)\<rparr>, Returns err)
          else case err of
            None \<Rightarrow> (b\<lparr>br_stat := markFailure later (br_stat b)\<rparr>, Panics ''nil pointer dereference'')
          | Some e \<Rightarrow> (b\<lparr>br_errWin := ew_add time (err_Error e) (br_errWin b),
                         br_stat := markFailure later (br_stat b)\<rparr>, Returns err))"

text \<open>\<open>Allow\<close> and the two methods of the promise it returns.\<close>

definition brk_allow :: "int \<Rightarrow> rat \<Rightarrow> breaker \<Rightarrow> brk_error option" where
  "brk_allow now draw b = (if gb_accept now draw (br_stat b) then None else Some ErrServiceUnavailable)"

definition promise_Accept :: "readings \<Rightarrow> breaker \<Rightarrow> breaker" where
  "promise_Accept now b = b\<lparr>br_stat := markSuccess now (br_stat b)\<rparr>"

definition promise_Reject :: "string \<Rightarrow> string \<Rightarrow> readings \<Rightarrow> breaker \<Rightarrow> breaker" where
  "promise_Reject time reason now b =
     b\<lparr>br_errWin := ew_add time reason (br_errWin b), br_stat := markFailure now (br_stat b)\<rparr>"

text \<open>The four ways to call, and the breakers by name of \<open>breakers.go\<close>.\<close>

definition brk_Do where
  "brk_Do now draw req time later b = doReq now draw req None defaultAcceptable time later b"

definition brk_DoWithAcceptable where
  "brk_DoWithAcceptable now draw req acceptable time later b = doReq now draw req None acceptable time later b"

definition brk_DoWithFallback where
  "brk_DoWithFallback now draw req fallback time later b = doReq now draw req (Some fallback) defaultAcceptable time later b"

definition brk_DoWithFallbackAcceptable where
  "brk_DoWithFallbackAcceptable now draw req fallback acceptable time later b =
     doReq now draw req (Some fallback) acceptable time later b"

definition GetBreaker :: "int \<Rightarrow> string \<Rightarrow> (string, breaker) go_map \<Rightarrow> (string, breaker) go_map \<times> breaker" where
  "GetBreaker now name bs =
     (case map_of bs name of
        Some b \<Rightarrow> (bs, b)
      | None \<Rightarrow> (AList.update name (breaker_New now) bs, breaker_New now))"

definition named_do ::
  "int \<Rightarrow> string \<Rightarrow> (breaker \<Rightarrow> breaker \<times> outcome) \<Rightarrow> (string, breaker) go_map \<Rightarrow> (string, breaker) go_map \<times> outcome" where
  "named_do now name execute bs =
     (let (bs', b) = GetBreaker now name bs; (b', r) = execute b in (AList.update name b' bs', r))"

section \<open>What a window holds\<close>

text \<open>
  The specification: a list of events with their times.  Slot \<open>j\<close> of the window, counted backwards
  from the current one, holds the events of the interval \<open>j\<close> intervals ago.
\<close>

definition agg :: "(int \<Rightarrow> bool) \<Rightarrow> (int \<times> int) list \<Rightarrow> bucket" where
  "agg P H = \<lparr>bk_Sum = sum_list (map snd (filter (P \<circ> fst) H)), bk_Count = int (length (filter (P \<circ> fst) H))\<rparr>"

definition in_slot :: "int \<Rightarrow> int \<Rightarrow> int \<Rightarrow> int \<Rightarrow> bool" where
  "in_slot L d j t \<longleftrightarrow> L - j * d \<le> t \<and> t < L - j * d + d"

definition slot :: "rollingWindow \<Rightarrow> int \<Rightarrow> bucket" where
  "slot rw z = rw_buckets rw ! nat (z mod rw_size rw)"

definition window_ok :: "rollingWindow \<Rightarrow> bool" where
  "window_ok rw \<longleftrightarrow> 0 < rw_size rw \<and> 0 < rw_interval rw \<and> length (rw_buckets rw) = nat (rw_size rw) \<and>
     0 \<le> rw_offset rw \<and> rw_offset rw < rw_size rw"

definition window_holds :: "rollingWindow \<Rightarrow> (int \<times> int) list \<Rightarrow> bool" where
  "window_holds rw H \<longleftrightarrow> window_ok rw \<and>
     list_all (\<lambda>(t, _). t < rw_lastTime rw + rw_interval rw) H \<and>
     (\<forall>j. 0 \<le> j \<longrightarrow> j < rw_size rw \<longrightarrow>
        slot rw (rw_offset rw - j) = agg (in_slot (rw_lastTime rw) (rw_interval rw) j) H)"

lemma bucket_reset_zero: "bucket_reset b = bucket_zero"
  by (cases b) (simp add: bucket_reset_def bucket_zero_def)

lemma agg_none: "list_all (\<lambda>(t, _). \<not> P t) H \<Longrightarrow> agg P H = bucket_zero"
  by (induction H) (auto simp: agg_def bucket_zero_def)

lemma agg_cong: "(\<And>t. P t \<longleftrightarrow> Q t) \<Longrightarrow> agg P H = agg Q H"
  by (simp add: agg_def comp_def)

lemma agg_snoc: "agg P (H @ [(t, v)]) = (if P t then bucket_add v (agg P H) else agg P H)"
  by (simp add: agg_def bucket_add_def)

lemma nat_mod_less_size: "0 < n \<Longrightarrow> nat (z mod n) < nat n" for z n :: int
  by (simp add: nat_less_iff)

lemma nat_mod_eq_iff: "0 < n \<Longrightarrow> nat (a mod n) = nat (b mod n) \<longleftrightarrow> a mod n = b mod n" for a b n :: int
  by (simp add: eq_nat_nat_iff)

lemma length_reset_loop [simp]: "length (reset_loop sz off k bs) = length bs"
  by (induction k) (simp_all add: resetBucket_def)

lemma reset_loop_slot:
  assumes "0 < sz" and "length bs = nat sz"
  shows "reset_loop sz off k bs ! nat (z mod sz) =
    (if \<exists>i. 1 \<le> i \<and> i \<le> int k \<and> (off + i) mod sz = z mod sz then bucket_zero else bs ! nat (z mod sz))"
proof (induction k)
  case (Suc k)
  have lt: "nat (z mod sz) < nat sz" using assms(1) by (rule nat_mod_less_size)
  have "(\<exists>i. 1 \<le> i \<and> i \<le> int (Suc k) \<and> (off + i) mod sz = z mod sz) \<longleftrightarrow>
      (off + (int k + 1)) mod sz = z mod sz \<or> (\<exists>i. 1 \<le> i \<and> i \<le> int k \<and> (off + i) mod sz = z mod sz)"
    (is "?l \<longleftrightarrow> ?r")
  proof
    assume ?l
    then obtain i where "1 \<le> i" "i \<le> int (Suc k)" "(off + i) mod sz = z mod sz" by blast
    then show ?r by (cases "i = int k + 1") auto
  qed (auto intro: exI [of _ "int k + 1"])
  then show ?case
    using Suc assms lt
    by (auto simp: resetBucket_def bucket_reset_zero nth_list_update nat_mod_eq_iff add.assoc)
qed auto

lemma int_mod_near:
  fixes a b n :: int
  assumes "a mod n = b mod n" and "\<bar>a - b\<bar> < n"
  shows "a = b"
proof -
  from assms(1) have "n dvd a - b" by (simp add: mod_eq_dvd_iff)
  with assms(2) show ?thesis using dvd_imp_le_int [of "a - b" n] by force
qed

text \<open>The clock moves on: the window shifts to the interval of \<open>now\<close> and still holds the events.\<close>

lemma updateOffset_holds:
  assumes H: "window_holds rw H" and now: "rw_lastTime rw \<le> now"
  defines "k \<equiv> (now - rw_lastTime rw) div rw_interval rw"
  shows "window_holds (updateOffset (now, now) rw) H" (is ?holds)
    and "rw_lastTime (updateOffset (now, now) rw) = rw_lastTime rw + k * rw_interval rw" (is ?last)
    and "rw_size (updateOffset (now, now) rw) = rw_size rw \<and> rw_interval (updateOffset (now, now) rw) = rw_interval rw"
proof -
  let ?L = "rw_lastTime rw" and ?d = "rw_interval rw" and ?n = "rw_size rw" and ?o = "rw_offset rw"
  let ?rw = "updateOffset (now, now) rw"
  from H have ok: "0 < ?n" "0 < ?d" "length (rw_buckets rw) = nat ?n" "0 \<le> ?o" "?o < ?n"
    and times: "list_all (\<lambda>(t, _). t < ?L + ?d) H"
    and slots: "\<And>j. 0 \<le> j \<Longrightarrow> j < ?n \<Longrightarrow> slot rw (?o - j) = agg (in_slot ?L ?d j) H"
    by (auto simp: window_holds_def window_ok_def)
  have k0: "0 \<le> k" using now ok by (simp add: k_def pos_imp_zdiv_nonneg_iff)
  have span: "rw_span now rw = min k ?n"
    using now k0 by (simp add: rw_span_def Let_def go_quot_nonneg k_def min_def)
  show size: "rw_size ?rw = ?n \<and> rw_interval ?rw = ?d" by (simp add: updateOffset_def Let_def)
  have "now - (now - ?L) mod ?d = ?L + k * ?d"
    using div_mult_mod_eq [of "now - ?L" ?d] unfolding k_def by linarith
  then show last: ?last
    using now k0 ok by (auto simp: updateOffset_def Let_def span go_rem_nonneg min_def)
  show ?holds
  proof (cases "k = 0")
    case True
    then have "?rw = rw" using ok by (simp add: updateOffset_def Let_def span)
    with H show ?thesis by simp
  next
    case False
    let ?s = "min k ?n"
    from False k0 ok have s: "0 < ?s" by simp
    then have s': "(?s \<le> 0) = False" by (metis not_le)
    have rw: "rw_offset ?rw = (?o + ?s) mod ?n" "rw_buckets ?rw = reset_loop ?n ?o (nat ?s) (rw_buckets rw)"
      by (simp_all add: updateOffset_def Let_def span s')
    have "slot ?rw (rw_offset ?rw - j) = agg (in_slot (?L + k * ?d) ?d j) H" if j: "0 \<le> j" "j < ?n" for j
    proof -
      let ?z = "?o + ?s - j"
      have z: "(rw_offset ?rw - j) mod ?n = ?z mod ?n" by (simp add: rw mod_diff_left_eq)
      have hit: "(\<exists>i. 1 \<le> i \<and> i \<le> int (nat ?s) \<and> (?o + i) mod ?n = ?z mod ?n) \<longleftrightarrow> j < ?s"
      proof
        assume "j < ?s"
        moreover have "int (nat ?s) = ?s" "?o + (?s - j) = ?z" using s by auto
        ultimately have "1 \<le> ?s - j" "?s - j \<le> int (nat ?s)" "(?o + (?s - j)) mod ?n = ?z mod ?n"
          using j(1) by (linarith, linarith, simp only:)
        then show "\<exists>i. 1 \<le> i \<and> i \<le> int (nat ?s) \<and> (?o + i) mod ?n = ?z mod ?n" by blast
      next
        assume "\<exists>i. 1 \<le> i \<and> i \<le> int (nat ?s) \<and> (?o + i) mod ?n = ?z mod ?n"
        then obtain i where i: "1 \<le> i" "i \<le> ?s" "(?o + i) mod ?n = ?z mod ?n" using s by auto
        show "j < ?s"
        proof (rule ccontr)
          assume "\<not> j < ?s"
          with i j have "\<bar>?o + i - ?z\<bar> < ?n" by auto
          from int_mod_near [OF i(3) this] i \<open>\<not> j < ?s\<close> show False by simp
        qed
      qed
      have slot: "slot ?rw (rw_offset ?rw - j) = (if j < ?s then bucket_zero else slot rw ?z)"
        unfolding slot_def size [THEN conjunct1] z rw(2) reset_loop_slot [OF ok(1,3)] hit ..
      show ?thesis
      proof (cases "j < ?s")
        case True
        then have "(k - j) * ?d \<ge> 1 * ?d" using ok by (intro mult_right_mono) auto
        then have "list_all (\<lambda>(t, _). \<not> in_slot (?L + k * ?d) ?d j t) H"
          using times by (fastforce simp: list_all_iff in_slot_def algebra_simps)
        with True slot show ?thesis by (simp add: agg_none)
      next
        case False
        with j have kn: "?s = k" by auto
        have "slot rw ?z = agg (in_slot ?L ?d (j - k)) H"
          using slots [of "j - k"] False j kn k0 by (simp add: algebra_simps)
        also have "\<dots> = agg (in_slot (?L + k * ?d) ?d j) H"
          by (rule agg_cong) (simp add: in_slot_def algebra_simps)
        finally show ?thesis unfolding slot by (simp only: False if_False)
      qed
    qed
    moreover have "list_all (\<lambda>(t, _). t < ?L + k * ?d + ?d) H"
    proof -
      have "0 \<le> k * ?d" using k0 ok by simp
      with times show ?thesis by (fastforce simp: list_all_iff)
    qed
    moreover have "window_ok ?rw" using ok rw size by (simp add: window_ok_def)
    ultimately show ?thesis using last size by (simp add: window_holds_def)
  qed
qed

lemma window_Add_holds:
  assumes H: "window_holds rw H" and now: "rw_lastTime rw \<le> now"
  shows "window_holds (window_Add (now, now) v rw) (H @ [(now, v)])"
    and "rw_lastTime (window_Add (now, now) v rw) =
      rw_lastTime rw + (now - rw_lastTime rw) div rw_interval rw * rw_interval rw"
    and "rw_size (window_Add (now, now) v rw) = rw_size rw" and "rw_interval (window_Add (now, now) v rw) = rw_interval rw"
proof -
  let ?u = "updateOffset (now, now) rw" and ?d = "rw_interval rw" and ?n = "rw_size rw"
  note u = updateOffset_holds [OF H now]
  let ?L = "rw_lastTime ?u" and ?o = "rw_offset ?u"
  from u(1,3) have ok: "0 < ?n" "0 < ?d" "length (rw_buckets ?u) = nat ?n" "0 \<le> ?o" "?o < ?n"
    and times: "list_all (\<lambda>(t, _). t < ?L + ?d) H"
    and slots: "\<And>j. 0 \<le> j \<Longrightarrow> j < ?n \<Longrightarrow> slot ?u (?o - j) = agg (in_slot ?L ?d j) H"
    by (auto simp: window_holds_def window_ok_def)
  have rem: "?L \<le> now" "now < ?L + ?d"
    using u(2) div_mult_mod_eq [of "now - rw_lastTime rw" ?d] ok
      pos_mod_sign [of ?d "now - rw_lastTime rw"] pos_mod_bound [of ?d "now - rw_lastTime rw"] by linarith+
  let ?rw = "window_Add (now, now) v rw"
  have f: "rw_lastTime ?rw = ?L" "rw_size ?rw = ?n" "rw_interval ?rw = ?d" "rw_offset ?rw = ?o"
    "rw_buckets ?rw = (rw_buckets ?u)[nat ?o := bucket_add v (rw_buckets ?u ! nat ?o)]"
    using u(3) ok by (simp_all add: window_Add_def Let_def)
  show "rw_lastTime ?rw = rw_lastTime rw + (now - rw_lastTime rw) div ?d * ?d" using f(1) u(2) by simp
  show "rw_size ?rw = ?n" "rw_interval ?rw = ?d" by (fact f)+
  have "slot ?rw (?o - j) = agg (in_slot ?L ?d j) (H @ [(now, v)])" if j: "0 \<le> j" "j < ?n" for j
  proof (cases "j = 0")
    case True
    have "rw_buckets ?u ! nat ?o = agg (in_slot ?L ?d 0) H"
      using slots [of 0] ok u(3) by (simp add: slot_def)
    with True rem ok u(3) show ?thesis by (simp add: slot_def f agg_snoc in_slot_def)
  next
    case False
    have "(?o - j) mod ?n \<noteq> ?o mod ?n"
    proof
      assume "(?o - j) mod ?n = ?o mod ?n"
      from int_mod_near [OF this] j False show False by simp
    qed
    then have "nat ((?o - j) mod ?n) \<noteq> nat ?o" using ok nat_mod_eq_iff [OF ok(1), of "?o - j" ?o] by simp
    then have "slot ?rw (?o - j) = slot ?u (?o - j)" using u(3) by (simp add: slot_def f)
    moreover have "\<not> in_slot ?L ?d j now"
    proof -
      have "1 * ?d \<le> j * ?d" using j False ok by (intro mult_right_mono) auto
      with rem show ?thesis unfolding in_slot_def by linarith
    qed
    ultimately show ?thesis using slots [OF j] by (simp add: agg_snoc)
  qed
  with times rem ok show "window_holds ?rw (H @ [(now, v)])"
    by (simp add: window_holds_def window_ok_def f)
qed

text \<open>
  The second reading of the clock may fall into a later interval than the first.  Then the window has moved by fewer buckets than its
  start: everything in it counts as that much younger.
\<close>

definition younger :: "int \<Rightarrow> (int \<times> int) list \<Rightarrow> (int \<times> int) list" where
  "younger c H = map (\<lambda>(t, v). (t + c, v)) H"

lemma agg_younger: "agg P (younger c H) = agg (\<lambda>t. P (t + c)) H"
  by (induction H) (auto simp: agg_def younger_def)

lemma window_holds_younger:
  assumes "window_holds rw H"
  shows "window_holds (rw\<lparr>rw_lastTime := rw_lastTime rw + c\<rparr>) (younger c H)"
proof -
  have "agg (in_slot (rw_lastTime rw + c) (rw_interval rw) j) (younger c H) = agg (in_slot (rw_lastTime rw) (rw_interval rw) j) H" for j
    unfolding agg_younger by (rule agg_cong) (auto simp: in_slot_def)
  moreover have "list_all (\<lambda>(t, _). t < rw_lastTime rw + c + rw_interval rw) (younger c H)"
    using assms by (auto simp: window_holds_def younger_def list_all_iff)
  ultimately show ?thesis using assms by (simp add: window_holds_def window_ok_def slot_def)
qed

lemma window_Add_readings:
  fixes v :: int
  assumes H: "window_holds rw H" and now: "rw_lastTime rw \<le> now" "now \<le> later"
  defines "d \<equiv> rw_interval rw" and "one \<equiv> window_Add (now, now) v rw"
  shows "\<exists>c\<ge>0. window_Add (now, later) v rw = one\<lparr>rw_lastTime := rw_lastTime one + c * d\<rparr> \<and> rw_lastTime one + c * d \<le> later \<and>
    ((now - rw_lastTime rw) div d = (later - rw_lastTime rw) div d \<longrightarrow> c = 0)"
proof -
  let ?L = "rw_lastTime rw"
  let ?k = "(now - ?L) div d" and ?k' = "(later - ?L) div d"
  have d: "0 < d" "0 < rw_size rw" using H by (simp_all add: window_holds_def window_ok_def d_def)
  have k: "0 \<le> ?k" "?k \<le> ?k'" using now d by (simp_all add: pos_imp_zdiv_nonneg_iff zdiv_mono1)
  have span: "rw_span now rw = min ?k (rw_size rw)"
    using now k(1) by (simp add: rw_span_def Let_def go_quot_nonneg min_def d_def)
  have one: "rw_lastTime one = ?L + ?k * d" using window_Add_holds(2) [OF H now(1), of v] by (simp add: one_def d_def)
  have le: "?L + q * d \<le> later" if "q \<le> ?k'" for q
  proof -
    have "q * d \<le> ?k' * d" using that d by simp
    also have "\<dots> \<le> later - ?L" using div_mult_mod_eq [of "later - ?L" d] pos_mod_sign [OF d(1), of "later - ?L"] by linarith
    finally show ?thesis by simp
  qed
  show ?thesis
  proof (cases "?k = 0")
    case True
    then have "window_Add (now, later) v rw = one" using d by (simp add: one_def window_Add_def updateOffset_def Let_def span)
    then show ?thesis using one le [of ?k] k True by (intro exI [of _ 0]) simp
  next
    case False
    then have "\<not> rw_span now rw \<le> 0" using k d span by auto
    moreover have "later - (later - ?L) mod d = ?L + ?k * d + (?k' - ?k) * d"
      using div_mult_mod_eq [of "later - ?L" d] unfolding left_diff_distrib by linarith
    moreover have "go_rem (later - ?L) (rw_interval rw) = (later - ?L) mod d" using now d by (simp add: go_rem_nonneg d_def)
    ultimately have "window_Add (now, later) v rw = one\<lparr>rw_lastTime := rw_lastTime one + (?k' - ?k) * d\<rparr>"
      unfolding one unfolding one_def by (simp add: window_Add_def updateOffset_def Let_def)
    then show ?thesis using k one le [of ?k'] by (intro exI [of _ "?k' - ?k"]) (simp add: left_diff_distrib)
  qed
qed

text \<open>Reading: the buckets of the latest intervals add up to the events in them.\<close>

definition bucket_sum :: "bucket list \<Rightarrow> bucket" where
  "bucket_sum bs = \<lparr>bk_Sum = sum_list (map bk_Sum bs), bk_Count = sum_list (map bk_Count bs)\<rparr>"

lemma bucket_sum_snoc:
  "bucket_sum (bs @ [b]) = \<lparr>bk_Sum = bk_Sum (bucket_sum bs) + bk_Sum b, bk_Count = bk_Count (bucket_sum bs) + bk_Count b\<rparr>"
  by (simp add: bucket_sum_def)

lemma bucket_sum_rev: "bucket_sum (rev bs) = bucket_sum bs"
  by (simp add: bucket_sum_def rev_map [symmetric] sum_list_rev)

lemma agg_split:
  assumes "\<And>t. P t \<longleftrightarrow> Q t \<or> R t" and "\<And>t. \<not> (Q t \<and> R t)"
  shows "agg P H = \<lparr>bk_Sum = bk_Sum (agg Q H) + bk_Sum (agg R H), bk_Count = bk_Count (agg Q H) + bk_Count (agg R H)\<rparr>"
  using assms by (induction H) (auto simp: agg_def)

lemma bucket_sum_slots:
  assumes "0 < d" and times: "list_all (\<lambda>(t, _). t < L + d) H"
  shows "bucket_sum (map (\<lambda>j. agg (in_slot L d (int j)) H) [0..<m]) = agg (\<lambda>t. L - int m * d + d \<le> t) H"
proof (induction m)
  case 0
  have "list_all (\<lambda>(t, _). \<not> L + d \<le> t) H" using times by (auto simp: list_all_iff)
  then show ?case by (simp add: bucket_sum_def agg_none bucket_zero_def)
next
  case (Suc m)
  have "agg (\<lambda>t. L - int (Suc m) * d + d \<le> t) H =
      \<lparr>bk_Sum = bk_Sum (agg (\<lambda>t. L - int m * d + d \<le> t) H) + bk_Sum (agg (in_slot L d (int m)) H),
       bk_Count = bk_Count (agg (\<lambda>t. L - int m * d + d \<le> t) H) + bk_Count (agg (in_slot L d (int m)) H)\<rparr>"
    using assms(1) by (intro agg_split) (auto simp: in_slot_def algebra_simps)
  with Suc show ?case by (simp add: bucket_sum_snoc)
qed

lemma window_Reduce_holds:
  assumes H: "window_holds rw H" and now: "rw_lastTime rw \<le> now" and "\<not> rw_ignoreCurrent rw"
  shows "bucket_sum (window_Reduce now rw) =
    agg (\<lambda>t. rw_lastTime rw + (now - rw_lastTime rw) div rw_interval rw * rw_interval rw -
               (rw_size rw - 1) * rw_interval rw \<le> t) H"
proof -
  let ?L = "rw_lastTime rw" and ?d = "rw_interval rw" and ?n = "rw_size rw" and ?o = "rw_offset rw"
  let ?k = "(now - ?L) div ?d"
  from H have ok: "0 < ?n" "0 < ?d" "0 \<le> ?o" "?o < ?n"
    and times: "list_all (\<lambda>(t, _). t < ?L + ?d) H"
    and slots: "\<And>j. 0 \<le> j \<Longrightarrow> j < ?n \<Longrightarrow> slot rw (?o - j) = agg (in_slot ?L ?d j) H"
    by (auto simp: window_holds_def window_ok_def)
  have k0: "0 \<le> ?k" using now ok by (simp add: pos_imp_zdiv_nonneg_iff)
  have span: "rw_span now rw = min ?k ?n"
    using now k0 by (simp add: rw_span_def Let_def go_quot_nonneg min_def)
  show ?thesis
  proof (cases "?k < ?n")
    case False
    then have "window_Reduce now rw = []" using assms(3) by (simp add: window_Reduce_def Let_def span)
    moreover have "1 * ?d \<le> (?k - ?n + 1) * ?d" using False ok by (intro mult_right_mono) auto
    then have "list_all (\<lambda>(t, _). \<not> ?L + ?k * ?d - (?n - 1) * ?d \<le> t) H"
      using times by (fastforce simp: list_all_iff algebra_simps)
    ultimately show ?thesis by (simp add: agg_none bucket_sum_def bucket_zero_def)
  next
    case True
    let ?m = "nat (?n - ?k)"
    have idx: "((?o + ?k + 1) mod ?n + int i) mod ?n = (?o - int (?m - 1 - i)) mod ?n" if "i < ?m" for i
    proof -
      have "?o + ?k + 1 + int i = ?o - int (?m - 1 - i) + ?n" using that True k0 by (simp add: of_nat_diff)
      then show ?thesis by (metis mod_add_left_eq mod_add_self2)
    qed
    have "window_Reduce now rw = map (\<lambda>i. slot rw (?o - int (?m - 1 - i))) [0..<?m]"
      using True assms(3) span k0 idx by (auto simp: window_Reduce_def Let_def slot_def min_def)
    also have "\<dots> = rev (map (\<lambda>j. slot rw (?o - int j)) [0..<?m])"
      by (rule nth_equalityI) (simp_all add: rev_nth)
    also have "map (\<lambda>j. slot rw (?o - int j)) [0..<?m] = map (\<lambda>j. agg (in_slot ?L ?d (int j)) H) [0..<?m]"
      using k0 by (intro map_cong refl) (auto intro!: slots)
    finally have "bucket_sum (window_Reduce now rw) = agg (\<lambda>t. ?L - int ?m * ?d + ?d \<le> t) H"
      using bucket_sum_slots [OF ok(2) times] by (simp add: bucket_sum_rev)
    then show ?thesis using True k0 by (simp add: algebra_simps)
  qed
qed

text \<open>A run of additions from a new window, each with its two readings.\<close>

definition window_run :: "rollingWindow \<Rightarrow> (readings \<times> int) list \<Rightarrow> rollingWindow" where
  "window_run rw H = foldl (\<lambda>rw (clock, v). window_Add clock v rw) rw H"

definition all_readings :: "(readings \<times> int) list \<Rightarrow> int list" where
  "all_readings H = concat (map (\<lambda>((t, t'), _). [t, t']) H)"

text \<open>No addition reads the clock on both sides of a boundary of intervals.\<close>

definition steady :: "int \<Rightarrow> int \<Rightarrow> (readings \<times> int) list \<Rightarrow> bool" where
  "steady t0 d H \<longleftrightarrow> list_all (\<lambda>((t, t'), _). (t - t0) div d = (t' - t0) div d) H"

text \<open>\<open>G\<close> is \<open>H\<close> with times that may be younger, and are the times of the additions themselves when all of them are steady.\<close>

definition seen_as :: "int \<Rightarrow> int \<Rightarrow> (readings \<times> int) list \<Rightarrow> (int \<times> int) list \<Rightarrow> bool" where
  "seen_as t0 d H G \<longleftrightarrow> list_all2 (\<lambda>((t, _), v) (u, w). v = w \<and> t \<le> u) H G \<and>
     (steady t0 d H \<longrightarrow> G = map (\<lambda>((t, _), v). (t, v)) H)"

lemma seen_as_snoc:
  assumes "seen_as t0 d H G" and "0 \<le> c" and "(t - t0) div d = (t' - t0) div d \<Longrightarrow> c = 0"
  shows "seen_as t0 d (H @ [((t, t'), v)]) (younger c (G @ [(t, v)]))"
proof -
  have "list_all2 (\<lambda>((t, _), v) (u, w). v = w \<and> t \<le> u) H (younger c G)"
    using assms(1,2) unfolding seen_as_def younger_def by (auto simp: list_all2_map2 elim!: list_all2_mono)
  moreover have "younger 0 G = G" by (simp add: younger_def case_prod_unfold)
  ultimately show ?thesis
    using assms by (auto simp: seen_as_def steady_def younger_def list_all2_appendI)
qed

lemma window_run_holds:
  assumes "window_holds rw G" and "seen_as t0 (rw_interval rw) H0 G" and "\<exists>c. rw_lastTime rw = t0 + c * rw_interval rw"
    and "sorted (rw_lastTime rw # all_readings H)" and "\<not> rw_ignoreCurrent rw"
  shows "\<exists>G'. let rw' = window_run rw H
    in window_holds rw' G' \<and> seen_as t0 (rw_interval rw) (H0 @ H) G' \<and> (\<exists>c. rw_lastTime rw' = t0 + c * rw_interval rw') \<and>
       rw_lastTime rw' \<le> last (rw_lastTime rw # all_readings H) \<and> \<not> rw_ignoreCurrent rw' \<and>
       rw_size rw' = rw_size rw \<and> rw_interval rw' = rw_interval rw"
  using assms
proof (induction H arbitrary: rw G H0)
  case Nil
  then show ?case by (intro exI [of _ G]) (simp add: window_run_def Let_def all_readings_def)
next
  case (Cons e H)
  obtain t t' v where e: "e = ((t, t'), v)" by (metis surj_pair)
  let ?d = "rw_interval rw" and ?one = "window_Add (t, t) v rw" and ?rw = "window_Add (t, t') v rw"
  from Cons.prems(4) e have t: "rw_lastTime rw \<le> t" "t \<le> t'" and srt: "sorted (t' # all_readings H)" by (simp_all add: all_readings_def)
  note A = window_Add_holds [OF Cons.prems(1) t(1), of v]
  have d: "0 < ?d" using Cons.prems(1) by (simp add: window_holds_def window_ok_def)
  obtain q where q: "rw_lastTime rw = t0 + q * ?d" using Cons.prems(3) by blast
  have same: "(x - t0) div ?d = (x - rw_lastTime rw) div ?d + q" for x
  proof -
    have "(x - t0) div ?d = (x - rw_lastTime rw + q * ?d) div ?d" by (simp add: q)
    also have "\<dots> = (x - rw_lastTime rw) div ?d + q" using d by (subst div_mult_self1) simp_all
    finally show ?thesis .
  qed
  obtain c where c: "0 \<le> c" "?rw = ?one\<lparr>rw_lastTime := rw_lastTime ?one + c * ?d\<rparr>" "rw_lastTime ?one + c * ?d \<le> t'"
      "(t - rw_lastTime rw) div ?d = (t' - rw_lastTime rw) div ?d \<Longrightarrow> c = 0"
    using window_Add_readings [OF Cons.prems(1) t, of v] by blast
  have f: "rw_lastTime ?rw = rw_lastTime ?one + c * ?d" "rw_interval ?rw = ?d" "rw_size ?rw = rw_size rw" "\<not> rw_ignoreCurrent ?rw"
    using A(3,4) Cons.prems(5) unfolding c(2) by (simp_all add: window_Add_def updateOffset_def Let_def)
  have holds: "window_holds ?rw (younger (c * ?d) (G @ [(t, v)]))" unfolding c(2) by (rule window_holds_younger [OF A(1)])
  have seen: "seen_as t0 (rw_interval ?rw) (H0 @ [e]) (younger (c * ?d) (G @ [(t, v)]))"
    unfolding e f(2) by (rule seen_as_snoc [OF Cons.prems(2)]) (use c(1,4) d same [of t] same [of t'] in simp_all)
  have "rw_lastTime ?rw = t0 + (q + (t - rw_lastTime rw) div ?d + c) * rw_interval ?rw"
    unfolding f A(2) distrib_right using q by simp
  then have al: "\<exists>c. rw_lastTime ?rw = t0 + c * rw_interval ?rw" by blast
  have le: "rw_lastTime ?rw \<le> t'" using c(3) f(1) by simp
  then have "sorted (rw_lastTime ?rw # all_readings H)" using srt by auto
  from Cons.IH [OF holds seen al this f(4)] obtain G' where "let rw' = window_run ?rw H
    in window_holds rw' G' \<and> seen_as t0 (rw_interval ?rw) ((H0 @ [e]) @ H) G' \<and> (\<exists>c. rw_lastTime rw' = t0 + c * rw_interval rw') \<and>
       rw_lastTime rw' \<le> last (rw_lastTime ?rw # all_readings H) \<and> \<not> rw_ignoreCurrent rw' \<and>
       rw_size rw' = rw_size ?rw \<and> rw_interval rw' = rw_interval ?rw" by blast
  moreover have "last (rw_lastTime ?rw # all_readings H) \<le> last (rw_lastTime rw # all_readings (e # H))"
    using le e by (simp add: all_readings_def)
  ultimately show ?case using f(2,3) e by (intro exI [of _ G']) (auto simp: Let_def window_run_def)
qed

lemma window_New_holds:
  "0 < n \<Longrightarrow> 0 < d \<Longrightarrow> window_holds (the (window_New n d ic t0)) []"
  by (auto simp: window_New_def window_holds_def window_ok_def slot_def agg_def bucket_zero_def nat_less_iff)

lemma window_reads_recent:
  assumes "0 < n" and "0 < d" and srt: "sorted (t0 # all_readings H @ [now])"
  shows "\<exists>G. seen_as t0 d H G \<and> bucket_sum (window_Reduce now (window_run (the (window_New n d False t0)) H)) =
    agg (\<lambda>t. t0 + (now - t0) div d * d - (n - 1) * d \<le> t) G"
proof -
  let ?w = "the (window_New n d False t0)" and ?rw = "window_run (the (window_New n d False t0)) H"
  have w: "rw_lastTime ?w = t0" "rw_interval ?w = d" "rw_size ?w = n" "\<not> rw_ignoreCurrent ?w"
    using assms(1) by (simp_all add: window_New_def)
  have "sorted (rw_lastTime ?w # all_readings H)" using srt w by (auto simp: sorted_append)
  moreover have "\<exists>c. rw_lastTime ?w = t0 + c * rw_interval ?w" using w by (intro exI [of _ 0]) simp
  moreover have "seen_as t0 (rw_interval ?w) [] []" by (simp add: seen_as_def)
  ultimately obtain G where R: "window_holds ?rw G" "seen_as t0 d H G" "\<exists>c. rw_lastTime ?rw = t0 + c * d"
    "rw_lastTime ?rw \<le> last (t0 # all_readings H)" "\<not> rw_ignoreCurrent ?rw" "rw_size ?rw = n" "rw_interval ?rw = d"
    using window_run_holds [OF window_New_holds [OF assms(1,2), of False t0], of t0 "[]" H] w by (auto simp: Let_def)
  from srt have "last (t0 # all_readings H) \<le> now"
    by (cases "all_readings H = []") (auto simp: sorted_append)
  with R(4) have le: "rw_lastTime ?rw \<le> now" by simp
  from R(3) obtain c where c: "rw_lastTime ?rw = t0 + c * d" by blast
  have "(now - (t0 + c * d)) div d = (now - t0 + (- c) * d) div d" by (simp add: algebra_simps)
  also have "\<dots> = (now - t0) div d - c" using assms(2) by (subst div_mult_self1) simp_all
  finally have "rw_lastTime ?rw + (now - rw_lastTime ?rw) div d * d = t0 + c * d + ((now - t0) div d - c) * d"
    by (simp only: c)
  then have "rw_lastTime ?rw + (now - rw_lastTime ?rw) div d * d = t0 + (now - t0) div d * d"
    by (simp add: left_diff_distrib)
  with window_Reduce_holds [OF R(1) le R(5)] R(2,6,7) show ?thesis by auto
qed

lemma seen_as_count:
  assumes "seen_as t0 d H G" and "\<And>t u. t \<le> u \<Longrightarrow> P t \<Longrightarrow> P u"
  shows "length (filter (\<lambda>((t, _), _). P t) H) \<le> length (filter (P \<circ> fst) G)"
proof -
  have "list_all2 (\<lambda>((t, _), v) (u, w). v = w \<and> t \<le> u) H G" using assms(1) by (simp add: seen_as_def)
  then show ?thesis by (induction rule: list_all2_induct) (auto dest: assms(2))
qed

lemma agg_steady:
  assumes "seen_as t0 d H G" and "steady t0 d H"
  shows "agg P G = \<lparr>bk_Sum = sum_list (map snd (filter (\<lambda>((t, _), _). P t) H)), bk_Count = int (length (filter (\<lambda>((t, _), _). P t) H))\<rparr>"
proof -
  have "G = map (\<lambda>((t, _), v). (t, v)) H" using assms by (simp add: seen_as_def)
  then show ?thesis by (simp add: agg_def filter_map comp_def case_prod_unfold)
qed

lemma history_bucket_sum:
  "history now st = (bk_Sum (bucket_sum (window_Reduce now st)), bk_Count (bucket_sum (window_Reduce now st)))"
proof -
  have "foldl (\<lambda>(accepts, tot) b. (accepts + bk_Sum b, tot + bk_Count b)) (x, y) bs =
      (x + sum_list (map bk_Sum bs), y + sum_list (map bk_Count bs))" for x y and bs :: "bucket list"
    by (induction bs arbitrary: x y) auto
  then show ?thesis by (simp add: history_def bucket_sum_def)
qed

lemma dropRatio_le_0: "0 \<le> tot \<Longrightarrow> dropRatio accepts tot \<le> 0 \<longleftrightarrow> 2 * (tot - 5) \<le> 3 * accepts"
proof -
  assume "0 \<le> tot"
  then have "(0 :: rat) < of_int (tot + 1)" by simp
  then have "dropRatio accepts tot \<le> 0 \<longleftrightarrow> (of_int (tot - 5) :: rat) \<le> 3 / 2 * of_int accepts"
    by (auto simp: dropRatio_def bk_protection_def divide_le_0_iff)
  also have "\<dots> \<longleftrightarrow> (of_int (2 * (tot - 5)) :: rat) \<le> of_int (3 * accepts)" by (simp add: field_simps)
  finally show ?thesis by (simp only: of_int_le_iff)
qed

section \<open>Properties\<close>

text \<open>
  C15.  The rolling window: whatever was added at times in order, reading it at \<open>now\<close> counts every addition made in the current
  interval and the \<open>n - 1\<close> intervals before it, intervals being counted from the creation of the window; and when no addition read
  the clock on both sides of a boundary of intervals, the sum and the count are exactly those of these additions.
\<close>

theorem rolling_window_exact:
  assumes "0 < n" and "0 < d" and "sorted (t0 # all_readings H @ [now])"
  shows "let recent = filter (\<lambda>((t, _), _). t0 + (now - t0) div d * d - (n - 1) * d \<le> t) H;
      bs = window_Reduce now (window_run (the (window_New n d False t0)) H)
    in int (length recent) \<le> sum_list (map bk_Count bs) \<and>
       (steady t0 d H \<longrightarrow> sum_list (map bk_Sum bs) = sum_list (map snd recent) \<and> sum_list (map bk_Count bs) = int (length recent))"
proof -
  let ?P = "\<lambda>t. t0 + (now - t0) div d * d - (n - 1) * d \<le> t"
  let ?bs = "window_Reduce now (window_run (the (window_New n d False t0)) H)"
  obtain G where G: "seen_as t0 d H G" "bucket_sum ?bs = agg ?P G" using window_reads_recent [OF assms] by blast
  have "sum_list (map bk_Count ?bs) = int (length (filter (?P \<circ> fst) G))" using G(2) by (simp add: bucket_sum_def agg_def)
  then have "int (length (filter (\<lambda>((t, _), _). ?P t) H)) \<le> sum_list (map bk_Count ?bs)"
    using seen_as_count [OF G(1), of ?P] by simp
  moreover have "steady t0 d H \<Longrightarrow> sum_list (map bk_Sum ?bs) = sum_list (map snd (filter (\<lambda>((t, _), _). ?P t) H)) \<and>
      sum_list (map bk_Count ?bs) = int (length (filter (\<lambda>((t, _), _). ?P t) H))"
    using G(2) agg_steady [OF G(1), of ?P] by (simp add: bucket_sum_def)
  ultimately show ?thesis unfolding Let_def by blast
qed

theorem rolling_window_exact_witness:
  "let bs = window_Reduce 35 (window_run (the (window_New 3 10 False 0)) [((1, 1), 1), ((12, 13), 0), ((21, 21), 1), ((34, 34), 1)])
   in sum_list (map bk_Sum bs) = 2 \<and> sum_list (map bk_Count bs) = 3"
  using rolling_window_exact [of 3 10 0 "[((1, 1), 1), ((12, 13), 0), ((21, 21), 1), ((34, 34), 1)]" 35]
  by (simp add: Let_def all_readings_def steady_def)

text \<open>
  Exactness needs the readings of an addition in one interval: an addition whose readings are 19 and 21, in intervals of 10, leaves
  an addition of the first interval counted in the fourth.
\<close>

lemma straddled_reading_counts_stale:
  "sum_list (map bk_Count (window_Reduce 35 (window_run (the (window_New 3 10 False 0)) [((5, 5), 1), ((19, 21), 1)]))) = 2"
  by code_simp

text \<open>
  When the breaker lets a request through.  With \<open>n\<close> requests finished in the last ten seconds
  (40 intervals) and \<open>a\<close> of them accepted, a request is dropped exactly when
  \<open>2 (n - 5) > 3 a\<close> and the random draw is below the drop ratio.  In particular nothing is dropped
  before more than five requests have finished, and a drop is never certain.
\<close>

lemma breaker_drops:
  assumes "sorted (t0 # all_readings H @ [now])" and "steady t0 250000000 H" and "list_all (\<lambda>(_, v). v = 0 \<or> v = 1) H"
  shows "let st = window_run (newGoogleBreaker t0) H; d = 250000000;
      recent = filter (\<lambda>((t, _), _). t0 + (now - t0) div d * d - 39 * d \<le> t) H;
      n = int (length recent); a = sum_list (map snd recent)
    in (gb_accept now draw st \<longleftrightarrow> 2 * (n - 5) \<le> 3 * a \<or> dropRatio a n \<le> draw) \<and>
       dropRatio a n < 1 \<and> (5 < n \<or> gb_accept now draw st)"
proof -
  let ?d = "250000000 :: int"
  let ?rec = "filter (\<lambda>((t, _), _). t0 + (now - t0) div ?d * ?d - 39 * ?d \<le> t) H"
  let ?n = "int (length ?rec)" and ?a = "sum_list (map snd ?rec)"
  have new: "newGoogleBreaker t0 = the (window_New 40 ?d False t0)"
    by (simp add: newGoogleBreaker_def bk_buckets_def bk_window_def)
  obtain G where G: "seen_as t0 ?d H G" "bucket_sum (window_Reduce now (window_run (newGoogleBreaker t0) H)) =
      agg (\<lambda>t. t0 + (now - t0) div ?d * ?d - 39 * ?d \<le> t) G"
    using window_reads_recent [of 40 ?d t0 H now] assms(1) unfolding new by auto
  have "history now (window_run (newGoogleBreaker t0) H) = (?a, ?n)"
    using G(2) agg_steady [OF G(1) assms(2)] by (simp add: history_bucket_sum)
  then have A: "gb_accept now draw (window_run (newGoogleBreaker t0) H) \<longleftrightarrow>
      2 * (?n - 5) \<le> 3 * ?a \<or> dropRatio ?a ?n \<le> draw"
    using dropRatio_le_0 [of ?n ?a] by (auto simp: gb_accept_def TrueOnProba_def Let_def)
  have a0: "0 \<le> ?a" using assms(3) by (intro sum_list_nonneg) (auto simp: list_all_iff)
  have "dropRatio ?a ?n < 1"
  proof -
    have "(0 :: rat) < of_int (?n + 1)" by simp
    moreover have "of_int (?n - 5) - 3 / 2 * of_int ?a < (of_int (?n + 1) :: rat)"
      using a0 by (simp add: of_int_diff add_strict_increasing2)
    ultimately show ?thesis by (simp add: dropRatio_def bk_protection_def divide_less_eq)
  qed
  moreover have "5 < n \<or> 2 * (n - 5) \<le> 3 * a" if "0 \<le> a" for n a :: int using that by arith
  then have "5 < ?n \<or> 2 * (?n - 5) \<le> 3 * ?a" using a0 by blast
  ultimately show ?thesis unfolding Let_def using A by blast
qed

text \<open>
  A call through the breaker: when it is not let through, the request is not run, nothing is
  recorded, and the fallback's result or \<open>ErrServiceUnavailable\<close> is returned; when it is, exactly
  one sample is recorded, 1 if and only if the request returned with an acceptable error, a
  panic of the request is passed on, and a request's own result is returned unchanged.
\<close>

lemma doReq_effect:
  "let (b', r) = doReq now draw req fallback acceptable time later b
   in if gb_accept now draw (br_stat b)
      then (let good = (case req of Returns err \<Rightarrow> acceptable err | Panics _ \<Rightarrow> False)
            in br_stat b' = window_Add later (if good then 1 else 0) (br_stat b) \<and>
               (r = req \<or> req = Returns None \<and> \<not> acceptable None) \<and>
               (br_errWin b' = br_errWin b \<or> (\<exists>e. req = Returns (Some e) \<and> \<not> acceptable (Some e) \<and>
                  br_errWin b' = ew_add time (err_Error e) (br_errWin b))))
      else b' = b \<and> r = (case fallback of None \<Rightarrow> Returns (Some ErrServiceUnavailable)
                                       | Some f \<Rightarrow> f ErrServiceUnavailable)"
  by (cases req; cases fallback)
    (auto simp: doReq_def Let_def markSuccess_def markFailure_def split: option.splits)

end
