(* ===== verification/Search_Tree.thy ===== *)
theory Search_Tree
  imports Go_Prelude
begin

text \<open>
  The route search tree of \<open>common/util/search/tree.go\<close>: routes such as \<open>/user/:id\<close> are added with
  an item and looked up with a concrete path, which binds the named segments.

  A node owns its children, so the in-place updates of the code are updates of a tree value.  A Go
  map of children is an association list in the order in which \<open>range\<close> visits it.  The code never
  stores a nil child (\<open>newNode\<close> returns a fresh node), so children are nodes; the branch for
  \<open>errInvalidState\<close> has no counterpart.  \<open>add\<close> may fail after it has created nodes: it
  returns the changed node together with the error.  The result of a search is written only on the
  way back from a successful match, so \<open>next\<close> returns it as a value.
\<close>

section \<open>The model\<close>

datatype search_err =
  errDupItem | errDupSlash | errEmptyItem | errNotFromRoot
  | duplicatedItem string | duplicatedSlash string

record innerResult =
  ir_key :: string
  ir_value :: string
  ir_named :: bool
  ir_found :: bool

datatype 'i snode =
  SNode (sn_item: "'i option") (sn_static: "(string \<times> 'i snode) list") (sn_named: "(string \<times> 'i snode) list")

record 'i search_result =
  sr_Item :: 'i
  sr_Params :: "(string, string) go_map"

definition newNode :: "'i option \<Rightarrow> 'i snode" where
  "newNode item = SNode item [] []"

definition NewTree :: "'i snode" where
  "NewTree = newNode None"

definition is_colon :: "string \<Rightarrow> bool" where
  "is_colon s \<longleftrightarrow> s \<noteq> [] \<and> hd s = CHR '':''"

definition getChildren :: "string \<Rightarrow> 'i snode \<Rightarrow> (string \<times> 'i snode) list" where
  "getChildren route nd = (if is_colon route then sn_named nd else sn_static nd)"

text \<open>\<open>children[token] = child\<close> on the map that \<open>getChildren\<close> returns.\<close>

definition setChild :: "string \<Rightarrow> 'i snode \<Rightarrow> 'i snode \<Rightarrow> 'i snode" where
  "setChild route child nd =
     (if is_colon route then SNode (sn_item nd) (sn_static nd) (AList.update route child (sn_named nd))
      else SNode (sn_item nd) (AList.update route child (sn_static nd)) (sn_named nd))"

definition setItem :: "'i \<Rightarrow> 'i snode \<Rightarrow> 'i snode \<times> search_err option" where
  "setItem item nd =
     (case sn_item nd of
        Some _ \<Rightarrow> (nd, Some errDupItem)
      | None \<Rightarrow> (SNode (Some item) (sn_static nd) (sn_named nd), None))"

text \<open>The position of the first slash: the loop over \<open>route\<close> that skips every other byte.\<close>

definition first_slash :: "string \<Rightarrow> nat option" where
  "first_slash route = index_any route ''/''"

lemma first_slash_less: "first_slash s = Some i \<Longrightarrow> i < length s"
  by (auto simp: first_slash_def dest: index_any_Some)

function add :: "'i snode \<Rightarrow> string \<Rightarrow> 'i \<Rightarrow> 'i snode \<times> search_err option" where
  "add nd route item =
     (if route = [] then setItem item nd
      else if hd route = CHR ''/'' then (nd, Some errDupSlash)
      else case first_slash route of
        Some i \<Rightarrow>
          let token = take i route;
              child = (case map_of (getChildren token nd) token of Some c \<Rightarrow> c | None \<Rightarrow> newNode None);
              (child', err) = add child (drop (i + 1) route) item
          in (setChild token child' nd, err)
      | None \<Rightarrow>
          (case map_of (getChildren route nd) route of
             Some child \<Rightarrow> let (child', err) = setItem item child in (setChild route child' nd, err)
           | None \<Rightarrow> (setChild route (newNode (Some item)) nd, None)))"
  by pat_completeness auto

termination
  by (relation "measure (\<lambda>(nd, route, item). length route)") (auto dest: first_slash_less)

declare add.simps [simp del]

definition tree_Add :: "string \<Rightarrow> 'i option \<Rightarrow> 'i snode \<Rightarrow> 'i snode \<times> search_err option" where
  "tree_Add route item root =
     (if route = [] \<or> hd route \<noteq> CHR ''/'' then (root, Some errNotFromRoot)
      else case item of
        None \<Rightarrow> (root, Some errEmptyItem)
      | Some it \<Rightarrow>
          let (root', err) = add root (tl route) it
          in (root', case err of
                Some errDupItem \<Rightarrow> Some (duplicatedItem route)
              | Some errDupSlash \<Rightarrow> Some (duplicatedSlash route)
              | _ \<Rightarrow> err))"

text \<open>\<open>match\<close> reads the first byte of the pattern: \<open>None\<close> is the panic on an empty one.\<close>

definition match_token :: "string \<Rightarrow> string \<Rightarrow> innerResult option" where
  "match_token pat token =
     (if pat = [] then None
      else if hd pat = CHR '':'' then
        Some \<lparr>ir_key = tl pat, ir_value = token, ir_named = True, ir_found = True\<rparr>
      else Some \<lparr>ir_key = [], ir_value = [], ir_named = False, ir_found = (pat = token)\<rparr>)"

definition addParam :: "string \<Rightarrow> string \<Rightarrow> 'i search_result \<Rightarrow> 'i search_result" where
  "addParam k v res = res\<lparr>sr_Params := AList.update k v (sr_Params res)\<rparr>"

definition name_param :: "innerResult \<Rightarrow> 'i search_result \<Rightarrow> 'i search_result" where
  "name_param r res = (if ir_named r then addParam (ir_key r) (ir_value r) res else res)"

text \<open>
  \<open>forEach\<close> stops at the first child for which the callback succeeds.  Outer \<open>None\<close>: panic; inner
  \<open>None\<close>: the callback returned false.
\<close>

fun each_child :: "(string \<Rightarrow> 'n \<Rightarrow> 'r option option) \<Rightarrow> (string \<times> 'n) list \<Rightarrow> 'r option option" where
  "each_child fn [] = Some None"
| "each_child fn ((k, v) # cs) =
     (case fn k v of None \<Rightarrow> None | Some (Some r) \<Rightarrow> Some (Some r) | Some None \<Rightarrow> each_child fn cs)"

definition forEach ::
  "(string \<Rightarrow> 'i snode \<Rightarrow> 'r option option) \<Rightarrow> 'i snode \<Rightarrow> 'r option option" where
  "forEach fn nd = each_child fn (sn_static nd @ sn_named nd)"

function tree_next :: "'i snode \<Rightarrow> string \<Rightarrow> 'i search_result option option" where
  "tree_next n route =
     (if route = [] \<and> sn_item n \<noteq> None then Some (Some \<lparr>sr_Item = the (sn_item n), sr_Params = []\<rparr>)
      else case first_slash route of
        Some i \<Rightarrow>
          forEach (\<lambda>k v. case match_token k (take i route) of
              None \<Rightarrow> None
            | Some r \<Rightarrow>
                if ir_found r then map_option (map_option (name_param r)) (tree_next v (drop (i + 1) route))
                else Some None) n
      | None \<Rightarrow>
          forEach (\<lambda>k v. case match_token k route of
              None \<Rightarrow> None
            | Some r \<Rightarrow>
                if ir_found r \<and> sn_item v \<noteq> None
                then Some (Some (name_param r \<lparr>sr_Item = the (sn_item v), sr_Params = []\<rparr>))
                else Some None) n)"
  by pat_completeness auto

termination
  by (relation "measure (\<lambda>(n, route). length route)") (auto dest: first_slash_less)

declare tree_next.simps [simp del]

definition tree_Search :: "string \<Rightarrow> 'i snode \<Rightarrow> 'i search_result option option" where
  "tree_Search route root =
     (if route = [] \<or> hd route \<noteq> CHR ''/'' then Some None else tree_next root (tl route))"

section \<open>Abstract view: a route table\<close>

text \<open>
  A route without its leading slash is cut at the slashes; one trailing slash is ignored.  A tree
  stands for the table from such segment lists to items.
\<close>

definition route_tokens :: "string \<Rightarrow> string list" where
  "route_tokens s = (let ts = go_split (CHR ''/'') s in if last ts = [] then butlast ts else ts)"

fun route_item :: "'i snode \<Rightarrow> string list \<Rightarrow> 'i option" where
  "route_item nd [] = sn_item nd"
| "route_item nd (k # ks) =
     (case map_of (getChildren k nd) k of None \<Rightarrow> None | Some c \<Rightarrow> route_item c ks)"

text \<open>
  When a path, cut at the slashes, is an instance of a route: segment by segment, a named segment
  matching anything, and one trailing slash of the path ignored.  The bindings of the
  named segments; of two segments of one name the first one counts.
\<close>

definition token_match :: "string \<Rightarrow> string \<Rightarrow> bool" where
  "token_match k t \<longleftrightarrow> is_colon k \<or> k = t"

fun route_match :: "string list \<Rightarrow> string list \<Rightarrow> bool" where
  "route_match [] ts \<longleftrightarrow> ts = [] \<or> ts = [[]]"
| "route_match (k # ks) [] \<longleftrightarrow> False"
| "route_match (k # ks) (t # ts) \<longleftrightarrow> token_match k t \<and> route_match ks ts"

fun route_params :: "string list \<Rightarrow> string list \<Rightarrow> (string, string) go_map" where
  "route_params (k # ks) (t # ts) =
     (if is_colon k then AList.update (tl k) t (route_params ks ts) else route_params ks ts)"
| "route_params ks ts = []"

text \<open>
  A route is more specific than another when it ends where the other goes on, or has a literal
  segment at the first place where they differ and the other a named one.
\<close>

fun more_specific :: "string list \<Rightarrow> string list \<Rightarrow> bool" where
  "more_specific [] ks \<longleftrightarrow> ks \<noteq> []"
| "more_specific (j # js) [] \<longleftrightarrow> False"
| "more_specific (j # js) (k # ks) \<longleftrightarrow>
     (if j = k then more_specific js ks else \<not> is_colon j \<and> is_colon k)"

text \<open>The shape of every tree that is built by \<open>Add\<close>.\<close>

fun wf_tree :: "'i snode \<Rightarrow> bool" where
  "wf_tree (SNode it ss ps) \<longleftrightarrow>
     go_map ss \<and> list_all (\<lambda>p. fst p \<noteq> [] \<and> \<not> is_colon (fst p)) ss \<and> list_all (\<lambda>p. wf_tree (snd p)) ss \<and>
     go_map ps \<and> list_all (\<lambda>p. is_colon (fst p)) ps \<and> list_all (\<lambda>p. wf_tree (snd p)) ps"

section \<open>Cutting at slashes\<close>

lemma first_slash_split:
  "first_slash s = Some i \<Longrightarrow> go_split (CHR ''/'') s = take i s # go_split (CHR ''/'') (drop (i + 1) s)"
proof -
  assume "first_slash s = Some i"
  then have i: "i < length s" "s ! i = CHR ''/''" "\<forall>j < i. s ! j \<noteq> CHR ''/''"
    by (auto simp: first_slash_def dest!: index_any_Some)
  then have "s = take i s @ CHR ''/'' # drop (i + 1) s"
    by (metis id_take_nth_drop Suc_eq_plus1)
  moreover have "CHR ''/'' \<notin> set (take i s)"
    using i by (auto simp: in_set_conv_nth)
  ultimately show ?thesis by (metis go_split_append_sep)
qed

lemma first_slash_None: "first_slash s = None \<Longrightarrow> go_split (CHR ''/'') s = [s]"
  by (simp add: first_slash_def index_any_None go_split_no_sep)

lemma route_tokens_Nil [simp]: "route_tokens [] = []"
  by (simp add: route_tokens_def)

lemma route_tokens_last: "first_slash s = None \<Longrightarrow> s \<noteq> [] \<Longrightarrow> route_tokens s = [s]"
  by (simp add: route_tokens_def first_slash_None)

lemma route_tokens_slash:
  "first_slash s = Some i \<Longrightarrow> route_tokens s = take i s # route_tokens (drop (i + 1) s)"
  by (simp add: route_tokens_def first_slash_split Let_def)

lemma first_slash_pos: "first_slash s = Some i \<Longrightarrow> hd s \<noteq> CHR ''/'' \<Longrightarrow> take i s \<noteq> []"
  by (cases s) (auto simp: first_slash_def split: if_splits)

lemma first_slash_zero: "hd s = CHR ''/'' \<Longrightarrow> s \<noteq> [] \<Longrightarrow> first_slash s = Some 0"
  by (cases s) (auto simp: first_slash_def)

section \<open>Adding\<close>

lemma wf_newNode [simp]: "wf_tree (newNode it)"
  by (simp add: newNode_def)

lemma wf_child: "wf_tree nd \<Longrightarrow> map_of (getChildren k nd) k' = Some c \<Longrightarrow> wf_tree c"
  by (cases nd) (auto simp: getChildren_def split: if_splits dest: list_all_map_of)

lemma wf_setChild: "wf_tree nd \<Longrightarrow> t \<noteq> [] \<Longrightarrow> wf_tree c \<Longrightarrow> wf_tree (setChild t c nd)"
  by (cases nd) (auto simp: setChild_def intro!: go_map_intros)

lemma sn_item_setChild [simp]: "sn_item (setChild t c nd) = sn_item nd"
  by (simp add: setChild_def)

lemma route_item_setChild:
  "route_item (setChild t c nd) ks =
     (case ks of k # ks' \<Rightarrow> if k = t then route_item c ks' else route_item nd ks | [] \<Rightarrow> sn_item nd)"
  by (cases ks) (auto simp: setChild_def getChildren_def)

lemma route_item_newNode [simp]:
  "route_item (newNode it) ks = (if ks = [] then it else None)"
  by (cases ks) (auto simp: newNode_def getChildren_def)

lemma route_item_setItem: "ks \<noteq> [] \<Longrightarrow> route_item (SNode it (sn_static nd) (sn_named nd)) ks = route_item nd ks"
  by (cases ks) (auto simp: getChildren_def)

definition add_spec ::
  "(string list \<rightharpoonup> 'i) \<Rightarrow> string list \<Rightarrow> 'i \<Rightarrow> (string list \<rightharpoonup> 'i) \<times> search_err option" where
  "add_spec m ts item =
     (if [] \<in> set ts then (m, Some errDupSlash)
      else if m ts \<noteq> None then (m, Some errDupItem) else (m(ts \<mapsto> item), None))"

lemma setItem_refines:
  "wf_tree nd \<Longrightarrow> setItem item nd = (nd', err) \<Longrightarrow>
     wf_tree nd' \<and> add_spec (route_item nd) [] item = (route_item nd', err)"
proof (cases nd)
  case (SNode it ss ps)
  assume wf: "wf_tree nd" and eq: "setItem item nd = (nd', err)"
  have "route_item (SNode (Some item) ss ps) = (route_item nd)([] \<mapsto> item)"
    using route_item_setItem [of _ "Some item" nd] SNode by (auto simp: fun_eq_iff)
  with wf eq SNode show ?thesis
    by (auto simp: setItem_def add_spec_def split: option.splits)
qed

lemma child_of_route: "map_of (getChildren t nd) t = Some c \<Longrightarrow> route_item c ks = route_item nd (t # ks)"
  by simp

lemma add_spec_child:
  assumes "add_spec (route_item c) ts item = (route_item c', err)" and "t \<noteq> []"
    and "\<And>ks. route_item c ks = route_item nd (t # ks)"
  shows "add_spec (route_item nd) (t # ts) item = (route_item (setChild t c' nd), err)"
proof -
  have upd: "route_item (setChild t c' nd) ks =
      (case ks of k # ks' \<Rightarrow> if k = t then route_item c' ks' else route_item nd ks | [] \<Rightarrow> sn_item nd)" for ks
    by (rule route_item_setChild)
  show ?thesis
    using assms by (auto simp: add_spec_def fun_eq_iff upd split: if_splits list.splits)
qed

lemma add_refines:
  "wf_tree nd \<Longrightarrow> add nd route item = (nd', err) \<Longrightarrow>
     wf_tree nd' \<and> add_spec (route_item nd) (route_tokens route) item = (route_item nd', err)"
proof (induction nd route item arbitrary: nd' err rule: add.induct)
  case (1 nd route item)
  consider "route = []" | "route \<noteq> []" "hd route = CHR ''/''"
    | i where "route \<noteq> []" "hd route \<noteq> CHR ''/''" "first_slash route = Some i"
    | "route \<noteq> []" "hd route \<noteq> CHR ''/''" "first_slash route = None"
    by blast
  then show ?case
  proof cases
    case 1
    then show ?thesis using 1 "1.prems" setItem_refines [of nd item nd' err] by (simp add: add.simps)
  next
    case 2
    then show ?thesis using "1.prems" first_slash_zero [of route]
      by (auto simp: add.simps route_tokens_slash add_spec_def)
  next
    case (3 i)
    let ?t = "take i route"
    let ?c = "case map_of (getChildren ?t nd) ?t of Some c \<Rightarrow> c | None \<Rightarrow> newNode None"
    obtain c' where c': "add ?c (drop (i + 1) route) item = (c', err)" "nd' = setChild ?t c' nd"
      using "1.prems"(2) 3 by (subst (asm) add.simps) (auto simp: Let_def split: prod.splits)
    have t: "?t \<noteq> []" by (rule first_slash_pos [OF 3(3,2)])
    have wf: "wf_tree ?c" using "1.prems"(1) by (auto split: option.splits intro: wf_child)
    have "wf_tree c' \<and> add_spec (route_item ?c) (route_tokens (drop (i + 1) route)) item = (route_item c', err)"
      using "1.IH" [OF 3(1,2,3) refl refl wf c'(1)] .
    moreover have "route_item ?c ks = route_item nd (?t # ks)" for ks
      by (auto split: option.splits)
    ultimately show ?thesis
      using add_spec_child [OF _ t, of ?c _ item c' err nd] c'(2) wf_setChild [OF "1.prems"(1) t] 3
      by (simp add: route_tokens_slash)
  next
    case 4
    let ?c = "case map_of (getChildren route nd) route of Some c \<Rightarrow> c | None \<Rightarrow> newNode None"
    obtain c' where c': "setItem item ?c = (c', err)" "nd' = setChild route c' nd"
      using "1.prems"(2) 4 by (subst (asm) add.simps)
        (auto simp: setItem_def newNode_def split: prod.splits option.splits)
    have wf: "wf_tree ?c" using "1.prems"(1) by (auto split: option.splits intro: wf_child)
    have "route_item ?c ks = route_item nd (route # ks)" for ks
      by (auto split: option.splits)
    then show ?thesis
      using setItem_refines [OF wf c'(1)] add_spec_child [OF _ 4(1), of ?c "[]" item c' err nd] c'(2)
        wf_setChild [OF "1.prems"(1) 4(1)] 4
      by (simp add: route_tokens_last)
  qed
qed

section \<open>Searching\<close>

lemma each_child_append:
  "each_child fn (xs @ ys) = (case each_child fn xs of Some None \<Rightarrow> each_child fn ys | r \<Rightarrow> r)"
  by (induction xs) (auto split: option.splits)

lemma each_child_None:
  "list_all (\<lambda>(k, v). fn k v \<noteq> None) cs \<Longrightarrow> each_child fn cs \<noteq> None"
  by (induction cs) (auto split: option.splits)

lemma each_child_fails:
  "each_child fn cs = Some None \<longleftrightarrow> list_all (\<lambda>(k, v). fn k v = Some None) cs"
  by (induction cs) (auto split: option.splits)

lemma each_child_finds:
  "each_child fn cs = Some (Some r) \<Longrightarrow> \<exists>k v. (k, v) \<in> set cs \<and> fn k v = Some (Some r)"
proof (induction cs)
  case (Cons p cs)
  obtain k v where p: "p = (k, v)" by (cases p)
  show ?case
  proof (cases "fn k v = Some None")
    case True
    then show ?thesis using Cons p by auto
  next
    case False
    then have "fn k v = Some (Some r)" using Cons.prems p by (auto split: option.splits)
    then show ?thesis using p by auto
  qed
qed simp

text \<open>What a search of a path has to answer, given the table of routes.\<close>

definition search_ok :: "(string list \<rightharpoonup> 'i) \<Rightarrow> string list \<Rightarrow> 'i search_result option \<Rightarrow> bool" where
  "search_ok m path res \<longleftrightarrow>
     (case res of
        None \<Rightarrow> \<forall>ks. m ks \<noteq> None \<longrightarrow> \<not> route_match ks path
      | Some r \<Rightarrow> \<exists>ks. m ks = Some (sr_Item r) \<and> route_match ks path \<and> sr_Params r = route_params ks path \<and>
          (\<forall>js. m js \<noteq> None \<longrightarrow> route_match js path \<longrightarrow> \<not> more_specific js ks))"

lemma match_token_named:
  "is_colon k \<Longrightarrow> match_token k t = Some \<lparr>ir_key = tl k, ir_value = t, ir_named = True, ir_found = True\<rparr>"
  by (simp add: match_token_def is_colon_def)

lemma match_token_literal:
  "k \<noteq> [] \<Longrightarrow> \<not> is_colon k \<Longrightarrow>
     match_token k t = Some \<lparr>ir_key = [], ir_value = [], ir_named = False, ir_found = (k = t)\<rparr>"
  by (simp add: match_token_def is_colon_def)

definition all_children :: "'i snode \<Rightarrow> (string \<times> 'i snode) list" where
  "all_children n = sn_static n @ sn_named n"

lemma child_iff:
  "wf_tree n \<Longrightarrow> map_of (getChildren k n) k = Some c \<longleftrightarrow> (k, c) \<in> set (all_children n)"
  by (cases n) (auto simp: getChildren_def all_children_def go_map_lookup list_all_iff)

lemma child_key: "wf_tree n \<Longrightarrow> (k, c) \<in> set (all_children n) \<Longrightarrow> k \<noteq> []"
  by (cases n) (auto simp: all_children_def list_all_iff is_colon_def)

lemma child_static: "wf_tree n \<Longrightarrow> (k, c) \<in> set (all_children n) \<Longrightarrow>
    (k, c) \<in> set (if is_colon k then sn_named n else sn_static n)"
  by (cases n) (auto simp: all_children_def list_all_iff)

text \<open>
  The common step of both loops of \<open>next\<close>: the children whose key matches the segment are searched
  for the rest of the path.
\<close>

definition visit ::
  "string \<Rightarrow> ('i snode \<Rightarrow> 'i search_result option option) \<Rightarrow> string \<Rightarrow> 'i snode \<Rightarrow> 'i search_result option option" where
  "visit t sub k v =
     (case match_token k t of
        None \<Rightarrow> None
      | Some r \<Rightarrow> if ir_found r then map_option (map_option (name_param r)) (sub v) else Some None)"

lemma visit_eq:
  assumes "k \<noteq> []"
  shows "visit t sub k v =
    (if token_match k t then
       map_option (map_option (\<lambda>res. if is_colon k then res\<lparr>sr_Params := AList.update (tl k) t (sr_Params res)\<rparr> else res)) (sub v)
     else Some None)"
proof -
  have lit: "name_param \<lparr>ir_key = a, ir_value = b, ir_named = False, ir_found = f\<rparr> = (\<lambda>res. res)" for a b f
    by (rule ext) (simp add: name_param_def)
  have named: "name_param \<lparr>ir_key = a, ir_value = b, ir_named = True, ir_found = f\<rparr> =
      (\<lambda>res. res\<lparr>sr_Params := AList.update a b (sr_Params res)\<rparr>)" for a b f
    by (rule ext) (simp add: name_param_def addParam_def)
  show ?thesis
    using assms by (cases "is_colon k")
      (auto simp: visit_def token_match_def match_token_named match_token_literal named lit)
qed

lemma forEach_visit_ok:
  assumes wf: "wf_tree n"
    and sub: "\<And>k v. (k, v) \<in> set (all_children n) \<Longrightarrow> \<exists>res. sub v = Some res \<and> search_ok (route_item v) rest res"
    and no_item: "t # rest = [[]] \<Longrightarrow> sn_item n = None"
  shows "\<exists>res. forEach (visit t sub) n = Some res \<and> search_ok (route_item n) (t # rest) res"
proof -
  let ?fn = "visit t sub"
  have total: "list_all (\<lambda>(k, v). ?fn k v \<noteq> None) (all_children n)"
    using sub child_key [OF wf] by (fastforce simp: list_all_iff visit_eq)
  then obtain res where res: "forEach ?fn n = Some res"
    using each_child_None by (fastforce simp: forEach_def all_children_def)
  have step: "\<exists>k c ks. js = k # ks \<and> (k, c) \<in> set (all_children n) \<and> route_item c ks = route_item n js \<and>
      token_match k t \<and> route_match ks rest \<and> k \<noteq> []"
    if js: "route_item n js \<noteq> None" "route_match js (t # rest)" for js
  proof (cases js)
    case Nil
    then show ?thesis using js no_item by auto
  next
    case (Cons k ks)
    then obtain c where "map_of (getChildren k n) k = Some c" "route_item c ks \<noteq> None"
      using js(1) by (auto split: option.splits)
    then show ?thesis using js Cons child_iff [OF wf, of k c] child_key [OF wf, of k c] by auto
  qed
  have miss: "?fn k c \<noteq> Some None"
    if "(k, c) \<in> set (all_children n)" "token_match k t" "route_match ks rest" "route_item c ks \<noteq> None" for k c ks
    using sub [OF that(1)] that child_key [OF wf that(1)] by (auto simp: visit_eq search_ok_def)
  show ?thesis
  proof (cases res)
    case None
    with res have "list_all (\<lambda>(k, v). ?fn k v = Some None) (all_children n)"
      by (simp add: forEach_def each_child_fails all_children_def)
    then have "search_ok (route_item n) (t # rest) None"
      using step miss by (fastforce simp: search_ok_def list_all_iff)
    with res None show ?thesis by blast
  next
    case (Some r)
    from res Some have each: "each_child ?fn (sn_static n @ sn_named n) = Some (Some r)"
      by (simp add: forEach_def)
    obtain k c where kc: "(k, c) \<in> set (all_children n)" "?fn k c = Some (Some r)"
        "is_colon k \<longrightarrow> each_child ?fn (sn_static n) = Some None"
    proof (cases "each_child ?fn (sn_static n) = Some None")
      case True
      with each have "each_child ?fn (sn_named n) = Some (Some r)" by (simp add: each_child_append)
      from each_child_finds [OF this] that True show ?thesis by (auto simp: all_children_def)
    next
      case False
      with each have "each_child ?fn (sn_static n) = Some (Some r)"
        by (auto simp: each_child_append split: option.splits)
      from each_child_finds [OF this] obtain k c where "(k, c) \<in> set (sn_static n)" "?fn k c = Some (Some r)"
        by blast
      moreover from this(1) have "\<not> is_colon k" using wf by (cases n) (auto simp: list_all_iff)
      ultimately show ?thesis using that [of k c] by (auto simp: all_children_def)
    qed
    have k: "k \<noteq> []" using child_key [OF wf kc(1)] .
    from kc(2) k have match: "token_match k t" by (auto simp: visit_eq split: if_splits)
    obtain r' where r': "sub c = Some (Some r')" and r: "r = (if is_colon k then r'\<lparr>sr_Params := AList.update (tl k) t (sr_Params r')\<rparr> else r')"
      using kc(2) k match by (auto simp: visit_eq)
    obtain ks where ks: "route_item c ks = Some (sr_Item r')" "route_match ks rest" "sr_Params r' = route_params ks rest"
        "\<And>js. route_item c js \<noteq> None \<Longrightarrow> route_match js rest \<Longrightarrow> \<not> more_specific js ks"
      using sub [OF kc(1)] r' by (auto simp: search_ok_def)
    have best: "\<not> more_specific js (k # ks)" if js: "route_item n js \<noteq> None" "route_match js (t # rest)" for js
    proof -
      from step [OF js] obtain k' c' ks' where
        *: "js = k' # ks'" "(k', c') \<in> set (all_children n)" "route_item c' ks' = route_item n js"
           "token_match k' t" "route_match ks' rest" "k' \<noteq> []" by blast
      show ?thesis
      proof (cases "k' = k")
        case True
        then have "c' = c" using *(2) kc(1) child_iff [OF wf] by (metis option.inject)
        then show ?thesis using True *(1,3,5) ks(4) [of ks'] js(1) by simp
      next
        case False
        have "?fn k' c' \<noteq> Some None" using miss [OF *(2,4,5)] *(3) js(1) by simp
        then have "\<not> (\<not> is_colon k' \<and> is_colon k)"
          using kc(3) child_static [OF wf *(2)] by (auto simp: each_child_fails list_all_iff)
        then show ?thesis using False *(1) by simp
      qed
    qed
    have "route_item n (k # ks) = Some (sr_Item r)"
      using ks(1) kc(1) child_iff [OF wf, of k c] r by simp
    then have "search_ok (route_item n) (t # rest) (Some r)"
      using ks match best r by (auto simp: search_ok_def intro!: exI [of _ "k # ks"])
    with res Some show ?thesis by blast
  qed
qed

lemma tree_next_slash:
  assumes "first_slash route = Some i"
  shows "tree_next n route = forEach (visit (take i route) (\<lambda>v. tree_next v (drop (i + 1) route))) n"
proof -
  have "\<not> (route = [] \<and> sn_item n \<noteq> None)" using first_slash_less [OF assms] by auto
  then show ?thesis by (subst tree_next.simps) (simp only: if_False assms option.case visit_def [abs_def])
qed

lemma tree_next_last:
  assumes "first_slash route = None" and "route \<noteq> [] \<or> sn_item n = None"
  shows "tree_next (n :: 'i snode) route =
    forEach (visit route (\<lambda>v. Some (map_option (\<lambda>it. \<lparr>sr_Item = it, sr_Params = []\<rparr>) (sn_item v)))) n"
proof -
  have "(\<lambda>k (v :: 'i snode). case match_token k route of None \<Rightarrow> None
      | Some r \<Rightarrow> if ir_found r \<and> sn_item v \<noteq> None
                  then Some (Some (name_param r \<lparr>sr_Item = the (sn_item v), sr_Params = []\<rparr>)) else Some None) =
    visit route (\<lambda>v. Some (map_option (\<lambda>it. \<lparr>sr_Item = it, sr_Params = []\<rparr>) (sn_item v)))"
    by (auto simp: visit_def fun_eq_iff split: option.splits)
  moreover have "\<not> (route = [] \<and> sn_item n \<noteq> None)" using assms(2) by simp
  ultimately show ?thesis by (subst tree_next.simps) (simp only: if_False assms(1) option.case)
qed

lemma wf_all_children: "wf_tree n \<Longrightarrow> (k, v) \<in> set (all_children n) \<Longrightarrow> wf_tree v"
  using child_iff [of n k v] wf_child by blast

lemma tree_next_ok:
  "wf_tree n \<Longrightarrow> \<exists>res. tree_next n route = Some res \<and> search_ok (route_item n) (go_split (CHR ''/'') route) res"
proof (induction "length route" arbitrary: n route rule: less_induct)
  case less
  show ?case
  proof (cases "first_slash route")
    case (Some i)
    then have shorter: "length (drop (i + 1) route) < length route"
      by (auto dest: first_slash_less)
    have nonempty: "take i route # go_split (CHR ''/'') (drop (i + 1) route) \<noteq> [[]]" by simp
    have "\<exists>res. forEach (visit (take i route) (\<lambda>v. tree_next v (drop (i + 1) route))) n = Some res \<and>
        search_ok (route_item n) (take i route # go_split (CHR ''/'') (drop (i + 1) route)) res"
      by (rule forEach_visit_ok [OF less.prems]) (use less.hyps [OF shorter wf_all_children [OF less.prems]] nonempty in auto)
    then show ?thesis by (simp only: tree_next_slash [OF Some] first_slash_split [OF Some])
  next
    case None
    show ?thesis
    proof (cases "route = [] \<and> sn_item n \<noteq> None")
      case True
      then have "search_ok (route_item n) [[]] (Some \<lparr>sr_Item = the (sn_item n), sr_Params = []\<rparr>)"
        by (auto simp: search_ok_def intro!: exI [of _ "[]"] elim: more_specific.elims)
      with True show ?thesis by (simp add: tree_next.simps)
    next
      case False
      let ?sub = "\<lambda>v. Some (map_option (\<lambda>it. \<lparr>sr_Item = it, sr_Params = []\<rparr>) (sn_item v))"
      have "search_ok (route_item v) [] (map_option (\<lambda>it. \<lparr>sr_Item = it, sr_Params = []\<rparr>) (sn_item v))" for v :: "'a snode"
        by (cases "sn_item v")
          (auto simp: search_ok_def intro!: exI [of _ "[]"] elim: route_match.elims more_specific.elims)
      then have "\<exists>res. forEach (visit route ?sub) n = Some res \<and> search_ok (route_item n) [route] res"
        using forEach_visit_ok [OF less.prems, of ?sub "[]" route] False by auto
      then show ?thesis using False by (simp add: tree_next_last [OF None] first_slash_None [OF None])
    qed
  qed
qed

section \<open>Histories of additions\<close>

definition table_add :: "(string list \<rightharpoonup> 'i) \<Rightarrow> string \<times> 'i \<Rightarrow> (string list \<rightharpoonup> 'i)" where
  "table_add m p = (case p of (route, item) \<Rightarrow>
     if route \<noteq> [] \<and> hd route = CHR ''/'' then fst (add_spec m (route_tokens (tl route)) item) else m)"

lemma tree_Add_refines:
  assumes "wf_tree n"
  shows "wf_tree (fst (tree_Add route (Some item) n)) \<and>
    route_item (fst (tree_Add route (Some item) n)) = table_add (route_item n) (route, item)"
proof (cases "add n (tl route) item")
  case (Pair n' err)
  from add_refines [OF assms Pair] have "wf_tree n'"
    "add_spec (route_item n) (route_tokens (tl route)) item = (route_item n', err)" by auto
  then show ?thesis using assms Pair by (simp add: tree_Add_def table_add_def Let_def)
qed

definition tree_of :: "(string \<times> 'i) list \<Rightarrow> 'i snode" where
  "tree_of adds = foldl (\<lambda>n (route, item). fst (tree_Add route (Some item) n)) NewTree adds"

definition table_of :: "(string \<times> 'i) list \<Rightarrow> (string list \<rightharpoonup> 'i)" where
  "table_of adds = foldl table_add Map.empty adds"

lemma tree_of_refines: "wf_tree (tree_of adds) \<and> route_item (tree_of adds) = table_of adds"
proof -
  have "wf_tree n \<Longrightarrow> wf_tree (foldl (\<lambda>n (route, item). fst (tree_Add route (Some item) n)) n adds) \<and>
     route_item (foldl (\<lambda>n (route, item). fst (tree_Add route (Some item) n)) n adds) = foldl table_add (route_item n) adds"
    for n :: "'a snode"
  proof (induction adds arbitrary: n)
    case (Cons p adds)
    obtain route item where p: "p = (route, item)" by (cases p)
    from Cons tree_Add_refines [OF Cons.prems, of route item] p show ?case by simp
  qed simp
  moreover have "wf_tree (NewTree :: 'a snode)" "route_item (NewTree :: 'a snode) = Map.empty"
    by (simp_all add: NewTree_def fun_eq_iff)
  ultimately show ?thesis by (simp add: tree_of_def table_of_def)
qed

lemma starts_with_slash: "has_prefix route ''/'' \<longleftrightarrow> route \<noteq> [] \<and> hd route = CHR ''/''"
  by (cases route) (auto simp: has_prefix_def)

section \<open>Properties\<close>

text \<open>
  Adding to a tree that was built by any sequence of additions, on every branch: which error
  \<open>Add\<close> returns, and that the table of routes changes only when it returns none, by exactly the
  new route (also where the failing addition has created inner nodes).  Routes that differ in one
  trailing slash are the same route.
\<close>

lemma tree_Add_effect:
  "case tree_Add route item (tree_of adds) of (t', err) \<Rightarrow>
     (route_item t', err) =
       (if has_prefix route ''/'' then case item of
          None \<Rightarrow> (table_of adds, Some errEmptyItem)
        | Some it \<Rightarrow>
            let ts = route_tokens (tl route)
            in if [] \<in> set ts then (table_of adds, Some (duplicatedSlash route))
               else if table_of adds ts \<noteq> None then (table_of adds, Some (duplicatedItem route))
               else ((table_of adds)(ts \<mapsto> it), None)
        else (table_of adds, Some errNotFromRoot))"
proof (cases item)
  case None
  then show ?thesis using tree_of_refines [of adds] by (simp add: tree_Add_def starts_with_slash)
next
  case (Some it)
  obtain t' err where t': "add (tree_of adds) (tl route) it = (t', err)" by fastforce
  from add_refines [OF _ t'] tree_of_refines [of adds]
  have "add_spec (table_of adds) (route_tokens (tl route)) it = (route_item t', err)" by simp
  with Some t' tree_of_refines [of adds] show ?thesis
    by (auto simp: tree_Add_def starts_with_slash add_spec_def Let_def split: if_splits)
qed

text \<open>
  C16.  A search in a tree that was built by any sequence of additions never panics and is decided
  by the table of routes: it fails exactly when no route matches the path, and otherwise returns
  the item and the bindings of a matching route such that no other matching route is
  more specific, whatever the iteration order of the maps of children.
\<close>

theorem tree_Search_best:
  "\<exists>res. tree_Search route (tree_of adds) = Some res \<and>
     (if has_prefix route ''/'' then search_ok (table_of adds) (go_split (CHR ''/'') (tl route)) res
      else res = None)"
  using tree_of_refines [of adds] tree_next_ok [of "tree_of adds" "tl route"]
  by (auto simp: tree_Search_def starts_with_slash)

end
