(* ===== verification/Metadata.thy ===== *)
theory Metadata
  imports Go_Prelude
begin

text \<open>
  Message headers, \<open>metadata/metadata.go\<close>.  A \<open>Metadata\<close> is a non-nil \<open>map[string]string\<close>.  Of a
  \<open>context.Context\<close> the modelled packages use the value stored under each package's private key, so a
  context is a record with one field per key, extended by the packages that add one; \<open>None\<close>
  is a key without a value.  \<open>context.WithValue\<close> shadows the old value: it is a record update.
\<close>

section \<open>The model\<close>

type_synonym metadata = "(string, string) go_map"

record ctx =
  cx_md :: "metadata option"

text \<open>
  \<open>strings.Title\<close> on ASCII text: the first letter of every word in upper case, a word being a run of
  letters, digits and underscores (other bytes are left alone and taken as word characters).
\<close>

definition is_separator :: "char \<Rightarrow> bool" where
  "is_separator c =
     (let n = of_char c :: nat
      in n < 128 \<and> \<not> (48 \<le> n \<and> n \<le> 57 \<or> 65 \<le> n \<and> n \<le> 90 \<or> 97 \<le> n \<and> n \<le> 122 \<or> n = 95))"

definition char_upper :: "char \<Rightarrow> char" where
  "char_upper c = (if 97 \<le> (of_char c :: nat) \<and> (of_char c :: nat) \<le> 122
                   then char_of ((of_char c :: nat) - 32) else c)"

fun title_from :: "char \<Rightarrow> string \<Rightarrow> string" where
  "title_from prev [] = []"
| "title_from prev (c # cs) = (if is_separator prev then char_upper c else c) # title_from c cs"

definition go_title :: "string \<Rightarrow> string" where
  "go_title s = title_from (CHR '' '') s"

definition md_Get :: "metadata \<Rightarrow> string \<Rightarrow> string option" where
  "md_Get md key = (case map_of md key of Some val \<Rightarrow> Some val | None \<Rightarrow> map_of md (go_title key))"

definition md_Set :: "string \<Rightarrow> string \<Rightarrow> metadata \<Rightarrow> metadata" where
  "md_Set key val md = AList.update key val md"

definition md_Delete :: "string \<Rightarrow> metadata \<Rightarrow> metadata" where
  "md_Delete key md = AList.delete (go_title key) (AList.delete key md)"

definition md_Copy :: "metadata \<Rightarrow> metadata" where
  "md_Copy md = map_copy md"

definition FromContext :: "'z ctx_scheme \<Rightarrow> metadata option" where
  "FromContext ctx = map_option map_copy (cx_md ctx)"

definition NewContext :: "metadata \<Rightarrow> 'z ctx_scheme \<Rightarrow> 'z ctx_scheme" where
  "NewContext md ctx = ctx\<lparr>cx_md := Some md\<rparr>"

definition ctx_Set :: "string \<Rightarrow> string \<Rightarrow> 'z ctx_scheme \<Rightarrow> 'z ctx_scheme" where
  "ctx_Set k v ctx =
     (let md = (case FromContext ctx of Some md \<Rightarrow> md | None \<Rightarrow> [])
      in ctx\<lparr>cx_md := Some (if v = [] then AList.delete k md else AList.update k v md)\<rparr>)"

definition ctx_Delete :: "string \<Rightarrow> 'z ctx_scheme \<Rightarrow> 'z ctx_scheme" where
  "ctx_Delete k ctx = ctx_Set k [] ctx"

definition ctx_Get :: "'z ctx_scheme \<Rightarrow> string \<Rightarrow> string option" where
  "ctx_Get ctx key =
     (case FromContext ctx of
        None \<Rightarrow> None
      | Some md \<Rightarrow> (case map_of md key of Some val \<Rightarrow> Some val | None \<Rightarrow> map_of md (go_title key)))"

text \<open>One round of the loop over the patch.\<close>

definition merge_step :: "bool \<Rightarrow> metadata \<Rightarrow> string \<times> string \<Rightarrow> metadata" where
  "merge_step overwrite cmd p =
     (case p of (k, v) \<Rightarrow>
        if map_of cmd k \<noteq> None \<and> \<not> overwrite then cmd
        else if v \<noteq> [] then AList.update k v cmd
        else AList.delete k cmd)"

definition MergeContext :: "metadata \<Rightarrow> bool \<Rightarrow> 'z ctx_scheme \<Rightarrow> 'z ctx_scheme" where
  "MergeContext patchMd overwrite ctx =
     (let md = (case cx_md ctx of Some md \<Rightarrow> md | None \<Rightarrow> [])
      in ctx\<lparr>cx_md := Some (foldl (merge_step overwrite) (map_copy md) patchMd)\<rparr>)"

section \<open>Lemmas\<close>

definition ctx_md :: "'z ctx_scheme \<Rightarrow> metadata" where
  "ctx_md ctx = (case cx_md ctx of Some md \<Rightarrow> md | None \<Rightarrow> [])"

definition ctx_ok :: "'z ctx_scheme \<Rightarrow> bool" where
  "ctx_ok ctx \<longleftrightarrow> go_map (ctx_md ctx)"

lemma FromContext_ok: "ctx_ok ctx \<Longrightarrow> FromContext ctx = cx_md ctx"
  by (cases "cx_md ctx") (auto simp: FromContext_def ctx_ok_def ctx_md_def)

lemma go_map_merge_step [go_map_intros]: "go_map cmd \<Longrightarrow> go_map (merge_step overwrite cmd p)"
  by (auto simp: merge_step_def split: prod.splits intro: go_map_intros)

lemma go_map_merge [go_map_intros]: "go_map cmd \<Longrightarrow> go_map (foldl (merge_step overwrite) cmd ps)"
  by (induction ps arbitrary: cmd) (auto intro: go_map_intros)

lemma map_of_merge_step:
  "map_of (merge_step overwrite cmd (k', v)) k =
     (if k = k' \<and> (overwrite \<or> map_of cmd k = None) then (if v = [] then None else Some v) else map_of cmd k)"
  by (auto simp: merge_step_def)

lemma map_of_merge:
  assumes "go_map ps"
  shows "map_of (foldl (merge_step overwrite) cmd ps) k =
    (case map_of ps k of
       Some v \<Rightarrow> if overwrite \<or> map_of cmd k = None then (if v = [] then None else Some v) else map_of cmd k
     | None \<Rightarrow> map_of cmd k)"
  using assms
proof (induction ps arbitrary: cmd)
  case (Cons p ps)
  obtain k' v where p: "p = (k', v)" by (cases p)
  from Cons.prems p have "go_map ps" and new: "map_of ps k' = None" by (auto simp: map_of_eq_None_iff)
  with Cons.IH [of "merge_step overwrite cmd p"] p show ?case
    by (auto simp: map_of_merge_step split: option.splits)
qed simp

lemma ctx_ok_intros [go_map_intros]:
  "ctx_ok (ctx_Set k v ctx)" "go_map md \<Longrightarrow> ctx_ok (NewContext md ctx)" "ctx_ok (MergeContext md overwrite ctx)"
  by (auto simp: ctx_ok_def ctx_md_def ctx_Set_def NewContext_def MergeContext_def FromContext_def Let_def
      split: option.splits intro!: go_map_intros)

section \<open>Properties\<close>

text \<open>
  What a key stands for after each operation on the metadata of a context, whatever the
  iteration order of the maps: setting a key (to the empty value: removing it), deleting it, and
  merging a patch, which with \<open>overwrite\<close> replaces or (empty value) removes the keys of the
  patch, and without it only adds the missing ones.
\<close>

lemma metadata_lookup:
  assumes "ctx_ok ctx" and "go_map patch"
  shows "map_of (ctx_md (ctx_Set k v ctx)) j =
      (if j = k then if v = [] then None else Some v else map_of (ctx_md ctx) j) \<and>
    map_of (ctx_md (ctx_Delete k ctx)) j = (if j = k then None else map_of (ctx_md ctx) j) \<and>
    map_of (ctx_md (MergeContext patch True ctx)) j =
      (case map_of patch j of
         Some v \<Rightarrow> if v = [] then None else Some v
       | None \<Rightarrow> map_of (ctx_md ctx) j) \<and>
    map_of (ctx_md (MergeContext patch False ctx)) j =
      (case map_of (ctx_md ctx) j of
         Some v \<Rightarrow> Some v
       | None \<Rightarrow> (case map_of patch j of Some v \<Rightarrow> if v = [] then None else Some v | None \<Rightarrow> None))"
proof -
  have set: "map_of (ctx_md (ctx_Set k w ctx)) j =
      (if j = k then if w = [] then None else Some w else map_of (ctx_md ctx) j)" for w
    using FromContext_ok [OF assms(1)] by (auto simp: ctx_Set_def ctx_md_def Let_def split: option.splits)
  have merge: "ctx_md (MergeContext patch ow ctx) = foldl (merge_step ow) (ctx_md ctx) patch" for ow
    using assms(1) by (auto simp: MergeContext_def ctx_md_def ctx_ok_def Let_def split: option.splits)
  show ?thesis
    using set [of v] set [of "[]"]
    by (auto simp: ctx_Delete_def merge map_of_merge [OF assms(2)] split: option.splits)
qed

end
