(* ===== verification/Micro_Errors.thy ===== *)
theory Micro_Errors
  imports Go_Prelude
begin

text \<open>
  The errors of RPC calls, \<open>errors/errors.go\<close>: the struct, its constructors and comparison.  A Go
  \<open>error\<close> is either such an \<open>*Error\<close> or some other error value, which has an identity (errors made by
  different calls of \<open>errors.New\<close> differ) and a message.  The JSON text form of an \<open>Error\<close>
  is not modelled.
\<close>

record merror =
  er_Id :: string
  er_Code :: int
  er_Detail :: string
  er_Status :: string

datatype err = Merr merror | Plain nat string

text \<open>\<open>http.StatusText\<close>.\<close>

definition status_table :: "(int \<times> string) list" where
  "status_table =
    [(100, ''Continue''), (101, ''Switching Protocols''), (102, ''Processing''), (103, ''Early Hints''),
     (200, ''OK''), (201, ''Created''), (202, ''Accepted''), (203, ''Non-Authoritative Information''),
     (204, ''No Content''), (205, ''Reset Content''), (206, ''Partial Content''), (207, ''Multi-Status''),
     (208, ''Already Reported''), (226, ''IM Used''),
     (300, ''Multiple Choices''), (301, ''Moved Permanently''), (302, ''Found''), (303, ''See Other''),
     (304, ''Not Modified''), (305, ''Use Proxy''), (307, ''Temporary Redirect''), (308, ''Permanent Redirect''),
     (400, ''Bad Request''), (401, ''Unauthorized''), (402, ''Payment Required''), (403, ''Forbidden''),
     (404, ''Not Found''), (405, ''Method Not Allowed''), (406, ''Not Acceptable''),
     (407, ''Proxy Authentication Required''), (408, ''Request Timeout''), (409, ''Conflict''), (410, ''Gone''),
     (411, ''Length Required''), (412, ''Precondition Failed''), (413, ''Request Entity Too Large''),
     (414, ''Request URI Too Long''), (415, ''Unsupported Media Type''), (416, ''Requested Range Not Satisfiable''),
     (417, ''Expectation Failed''), (418, ''I'' @ [CHR 0x27] @ ''m a teapot''), (421, ''Misdirected Request''),
     (422, ''Unprocessable Entity''), (423, ''Locked''), (424, ''Failed Dependency''), (425, ''Too Early''),
     (426, ''Upgrade Required''), (428, ''Precondition Required''), (429, ''Too Many Requests''),
     (431, ''Request Header Fields Too Large''), (451, ''Unavailable For Legal Reasons''),
     (500, ''Internal Server Error''), (501, ''Not Implemented''), (502, ''Bad Gateway''),
     (503, ''Service Unavailable''), (504, ''Gateway Timeout''), (505, ''HTTP Version Not Supported''),
     (506, ''Variant Also Negotiates''), (507, ''Insufficient Storage''), (508, ''Loop Detected''),
     (510, ''Not Extended''), (511, ''Network Authentication Required'')]"

definition StatusText :: "int \<Rightarrow> string" where
  "StatusText code = (case map_of status_table code of Some s \<Rightarrow> s | None \<Rightarrow> [])"

text \<open>
  \<open>fmt.Sprintf\<close> with string arguments and the verbs \<open>%s\<close>, \<open>%v\<close> and \<open>%%\<close>, the only ones in the formats
  of the modelled code; a verb without an argument and an argument without a verb are
  reported in the text as Go does.
\<close>

fun go_sprintf :: "string \<Rightarrow> string list \<Rightarrow> string" where
  "go_sprintf [] [] = []"
| "go_sprintf [] (a # as) = ''%!(EXTRA '' @ go_join '', '' (map (\<lambda>x. ''string='' @ x) (a # as)) @ '')''"
| "go_sprintf [c] as = c # go_sprintf [] as"
| "go_sprintf (c # d # cs) as =
     (if c = CHR ''%'' \<and> d = CHR ''%'' then CHR ''%'' # go_sprintf cs as
      else if c = CHR ''%'' \<and> (d = CHR ''s'' \<or> d = CHR ''v'') then
        (case as of
           [] \<Rightarrow> ''%!'' @ [d] @ ''(MISSING)'' @ go_sprintf cs []
         | a # as' \<Rightarrow> a @ go_sprintf cs as')
      else c # go_sprintf (d # cs) as)"

definition errors_New :: "string \<Rightarrow> string \<Rightarrow> int \<Rightarrow> err" where
  "errors_New i detail code =
     Merr \<lparr>er_Id = i, er_Code = code, er_Detail = detail, er_Status = StatusText code\<rparr>"

definition newError :: "string \<Rightarrow> int \<Rightarrow> string \<Rightarrow> string list \<Rightarrow> err" where
  "newError i code detail as =
     (let detail' = (if as \<noteq> [] then go_sprintf detail as else detail)
      in Merr \<lparr>er_Id = i, er_Code = code, er_Detail = detail', er_Status = StatusText code\<rparr>)"

definition BadRequest :: "string \<Rightarrow> string \<Rightarrow> string list \<Rightarrow> err" where
  "BadRequest i format as = newError i 400 format as"

definition Unauthorized :: "string \<Rightarrow> string \<Rightarrow> string list \<Rightarrow> err" where
  "Unauthorized i format as = newError i 401 format as"

definition Forbidden :: "string \<Rightarrow> string \<Rightarrow> string list \<Rightarrow> err" where
  "Forbidden i format as = newError i 403 format as"

definition NotFound :: "string \<Rightarrow> string \<Rightarrow> string list \<Rightarrow> err" where
  "NotFound i format as = newError i 404 format as"

definition MethodNotAllowed :: "string \<Rightarrow> string \<Rightarrow> string list \<Rightarrow> err" where
  "MethodNotAllowed i format as = newError i 405 format as"

definition Timeout :: "string \<Rightarrow> string \<Rightarrow> string list \<Rightarrow> err" where
  "Timeout i format as = newError i 408 format as"

definition Conflict :: "string \<Rightarrow> string \<Rightarrow> string list \<Rightarrow> err" where
  "Conflict i format as = newError i 409 format as"

definition InternalServerError :: "string \<Rightarrow> string \<Rightarrow> string list \<Rightarrow> err" where
  "InternalServerError i format as = newError i 500 format as"

text \<open>\<open>Equal\<close>; \<open>None\<close> is a nil error.\<close>

fun errors_Equal :: "err option \<Rightarrow> err option \<Rightarrow> bool" where
  "errors_Equal (Some (Merr e1)) (Some (Merr e2)) \<longleftrightarrow> er_Code e1 = er_Code e2"
| "errors_Equal (Some (Merr _)) _ \<longleftrightarrow> False"
| "errors_Equal _ (Some (Merr _)) \<longleftrightarrow> False"
| "errors_Equal e1 e2 \<longleftrightarrow> e1 = e2"

fun err_code :: "err \<Rightarrow> int option" where
  "err_code (Merr e) = Some (er_Code e)"
| "err_code (Plain _ _) = None"

lemma err_code_constructors [simp]:
  "err_code (newError i c f as) = Some c" "err_code (errors_New i f c) = Some c"
  "err_code (BadRequest i f as) = Some 400" "err_code (Unauthorized i f as) = Some 401"
  "err_code (Forbidden i f as) = Some 403" "err_code (NotFound i f as) = Some 404"
  "err_code (MethodNotAllowed i f as) = Some 405" "err_code (Timeout i f as) = Some 408"
  "err_code (Conflict i f as) = Some 409" "err_code (InternalServerError i f as) = Some 500"
  by (simp_all add: newError_def errors_New_def Let_def BadRequest_def Unauthorized_def Forbidden_def NotFound_def
      MethodNotAllowed_def Timeout_def Conflict_def InternalServerError_def)

lemma err_code_neq: "err_code e \<noteq> err_code e' \<Longrightarrow> e \<noteq> e'"
  by auto

lemma errors_Equal_equiv:
  "errors_Equal e e" "errors_Equal e f \<Longrightarrow> errors_Equal f e"
  "errors_Equal e f \<Longrightarrow> errors_Equal f g \<Longrightarrow> errors_Equal e g"
  by (cases "(e, e)" rule: errors_Equal.cases; simp) (cases "(e, f)" rule: errors_Equal.cases; auto elim: errors_Equal.elims)+

end
