(* ===== verification/Auth.thy ===== *)
theory Auth
  imports Metadata Micro_Errors
begin

text \<open>
  Access control: the rules of \<open>auth/rules.go\<close>, the types and the no-op provider of \<open>auth/auth.go\<close>,
  \<open>auth/options.go\<close> and \<open>auth/noop.go\<close>, and the wrappers of \<open>wrapper/auth\<close> that put a bearer token into
  the metadata of outgoing calls and check it for incoming ones.

  An auth provider is an interface: its methods are arguments of the definitions that call
  them.  A nil pointer is \<open>None\<close>; rules and resources are not nil.
\<close>

section \<open>Accounts, resources, rules\<close>

datatype auth_err = ErrInvalidToken | ErrForbidden | AuthOther string

fun auth_text :: "auth_err \<Rightarrow> string" where
  "auth_text ErrInvalidToken = ''invalid token provided''"
| "auth_text ErrForbidden = ''resource forbidden''"
| "auth_text (AuthOther s) = s"

record account =
  ac_Metadata :: "(string, string) go_map"
  ac_ID :: string
  ac_Type :: string
  ac_Issuer :: string
  ac_Secret :: string
  ac_Scopes :: "string list"

text \<open>Times are in nanoseconds since the epoch.\<close>

record token =
  tk_Created :: int
  tk_Expiry :: int
  tk_AccessToken :: string
  tk_RefreshToken :: string

definition token_Expired :: "int \<Rightarrow> token \<Rightarrow> bool" where
  "token_Expired now t \<longleftrightarrow> tk_Expiry t div 1000000000 < now div 1000000000"

record resource =
  rs_Name :: string
  rs_Type :: string
  rs_Endpoint :: string

text \<open>\<open>Access\<close> is an \<open>int\<close> with two named values.\<close>

definition AccessGranted :: int where "AccessGranted = 0"
definition AccessDenied :: int where "AccessDenied = 1"

record rule =
  ru_Resource :: resource
  ru_ID :: string
  ru_Scope :: string
  ru_Access :: int
  ru_Priority :: int

definition ScopePublic :: string where "ScopePublic = []"
definition ScopeAccount :: string where "ScopeAccount = ''*''"

section \<open>Verify\<close>

definition include_str :: "string list \<Rightarrow> string \<Rightarrow> bool" where
  "include_str slice val \<longleftrightarrow> list_ex (\<lambda>s. equal_fold s val) slice"

definition validEndpoints :: "string \<Rightarrow> string list" where
  "validEndpoints endpoint =
     (let comps = go_split (CHR ''/'') endpoint
      in [''*'', endpoint] @
         (if length comps > 1
          then map (\<lambda>i. go_join ''/'' (take i comps) @ ''/*'') [1..<length comps + 1] else []))"

definition rule_matches :: "resource \<Rightarrow> rule \<Rightarrow> bool" where
  "rule_matches res r \<longleftrightarrow>
     include_str [''*'', rs_Type res] (rs_Type (ru_Resource r)) \<and>
     include_str [''*'', rs_Name res] (rs_Name (ru_Resource r)) \<and>
     include_str (validEndpoints (rs_Endpoint res)) (rs_Endpoint (ru_Resource r))"

text \<open>The loop over the sorted rules; \<open>None\<close> is the nil error (access granted).\<close>

fun verify_loop :: "account option \<Rightarrow> rule list \<Rightarrow> auth_err option" where
  "verify_loop acc [] = Some ErrForbidden"
| "verify_loop acc (r # rs) =
     (if ru_Scope r = ScopePublic \<and> ru_Access r = AccessDenied then Some ErrForbidden
      else if ru_Scope r = ScopePublic \<and> ru_Access r = AccessGranted then None
      else case acc of
        None \<Rightarrow> verify_loop acc rs
      | Some a \<Rightarrow>
          if ru_Scope r = ScopeAccount \<and> ru_Access r = AccessDenied then Some ErrForbidden
          else if ru_Scope r = ScopeAccount \<and> ru_Access r = AccessGranted then None
          else if include_str (ac_Scopes a) (ru_Scope r) \<and> ru_Access r = AccessDenied then Some ErrForbidden
          else if include_str (ac_Scopes a) (ru_Scope r) \<and> ru_Access r = AccessGranted then None
          else verify_loop acc rs)"

text \<open>\<open>sort.SliceStable\<close> with the highest priority first.\<close>

definition Verify :: "rule list \<Rightarrow> account option \<Rightarrow> resource \<Rightarrow> auth_err option" where
  "Verify rules acc res =
     verify_loop acc (sort_key (\<lambda>r. - ru_Priority r) (filter (rule_matches res) rules))"

section \<open>The no-op provider and the token options\<close>

record tokenOptions =
  to_ID :: string
  to_Secret :: string
  to_RefreshToken :: string
  to_Expiry :: int

record generateOptions =
  go_Metadata :: "(string, string) go_map"
  go_Provider :: string
  go_Type :: string
  go_Secret :: string
  go_Scopes :: "string list"


definition WithSecret :: "string \<Rightarrow> generateOptions \<Rightarrow> generateOptions" where
  "WithSecret s g = g\<lparr>go_Secret := s\<rparr>"
definition WithType :: "string \<Rightarrow> generateOptions \<Rightarrow> generateOptions" where
  "WithType t g = g\<lparr>go_Type := t\<rparr>"
definition WithMetadata :: "(string, string) go_map \<Rightarrow> generateOptions \<Rightarrow> generateOptions" where
  "WithMetadata md g = g\<lparr>go_Metadata := md\<rparr>"
definition WithProvider :: "string \<Rightarrow> generateOptions \<Rightarrow> generateOptions" where
  "WithProvider p g = g\<lparr>go_Provider := p\<rparr>"
definition WithScopes :: "string list \<Rightarrow> generateOptions \<Rightarrow> generateOptions" where
  "WithScopes s g = g\<lparr>go_Scopes := s\<rparr>"


definition noop_Inspect :: "string \<Rightarrow> string \<Rightarrow> string \<Rightarrow> auth_err + account option" where
  "noop_Inspect namespace uuid tok =
     Inr (Some \<lparr>ac_Metadata = [], ac_ID = uuid, ac_Type = [], ac_Issuer = namespace,
                ac_Secret = [], ac_Scopes = []\<rparr>)"

text \<open>The zero \<open>time.Time\<close> is the start of year 1.\<close>

definition zero_time :: int where "zero_time = - 62135596800 * 1000000000"

definition noop_Token :: "(tokenOptions \<Rightarrow> tokenOptions) list \<Rightarrow> auth_err + token" where
  "noop_Token opts =
     Inr \<lparr>tk_Created = zero_time, tk_Expiry = zero_time, tk_AccessToken = [], tk_RefreshToken = []\<rparr>"

definition noopRules_Verify :: "account option \<Rightarrow> resource \<Rightarrow> auth_err option" where
  "noopRules_Verify acc res = None"

definition WithExpiry :: "int \<Rightarrow> tokenOptions \<Rightarrow> tokenOptions" where
  "WithExpiry ex t = t\<lparr>to_Expiry := ex\<rparr>"
definition WithCredentials :: "string \<Rightarrow> string \<Rightarrow> tokenOptions \<Rightarrow> tokenOptions" where
  "WithCredentials i secret t = t\<lparr>to_ID := i, to_Secret := secret\<rparr>"
definition WithToken :: "string \<Rightarrow> tokenOptions \<Rightarrow> tokenOptions" where
  "WithToken rt t = t\<lparr>to_RefreshToken := rt\<rparr>"

definition NewTokenOptions :: "(tokenOptions \<Rightarrow> tokenOptions) list \<Rightarrow> tokenOptions" where
  "NewTokenOptions opts =
     (let t = foldl (\<lambda>o' f. f o') \<lparr>to_ID = [], to_Secret = [], to_RefreshToken = [], to_Expiry = 0\<rparr> opts
      in if to_Expiry t = 0 then t\<lparr>to_Expiry := 60 * 1000000000\<rparr> else t)"

section \<open>The wrappers\<close>

text \<open>
  The account stored in a context: outer \<open>None\<close> when there is none, inner \<open>None\<close> when a nil pointer
  was stored.
\<close>

record actx = ctx +
  cx_account :: "account option option"

definition AccountFromContext :: "'z actx_scheme \<Rightarrow> account option option" where
  "AccountFromContext ctx = cx_account ctx"

definition ContextWithAccount :: "account option \<Rightarrow> 'z actx_scheme \<Rightarrow> 'z actx_scheme" where
  "ContextWithAccount acc ctx = ctx\<lparr>cx_account := Some acc\<rparr>"

definition MetadataKeyAuthorization :: string where "MetadataKeyAuthorization = ''Authorization''"
definition BearerPrefix :: string where "BearerPrefix = ''Bearer ''"

datatype token_err = ErrMissingToken | ErrTokenFormat

fun token_err_text :: "token_err \<Rightarrow> string" where
  "token_err_text ErrMissingToken = ''missing authorization token in metadata''"
| "token_err_text ErrTokenFormat =
     ''invalid token format, expected '' @ [CHR 0x27] @ ''Bearer <token>'' @ [CHR 0x27]"

definition TokenFromMetadata :: "metadata \<Rightarrow> token_err + string" where
  "TokenFromMetadata md =
     (case (case md_Get md MetadataKeyAuthorization of
              Some h \<Rightarrow> Some h
            | None \<Rightarrow> md_Get md (map char_lower MetadataKeyAuthorization)) of
        None \<Rightarrow> Inl ErrMissingToken
      | Some authHeader \<Rightarrow>
          if \<not> has_prefix authHeader BearerPrefix then Inl ErrTokenFormat
          else let tok = trim_prefix authHeader BearerPrefix
               in if tok = [] then Inl ErrTokenFormat else Inr tok)"

definition TokenToMetadata :: "metadata option \<Rightarrow> string \<Rightarrow> metadata" where
  "TokenToMetadata md tok =
     md_Set MetadataKeyAuthorization (BearerPrefix @ tok) (case md of Some m \<Rightarrow> m | None \<Rightarrow> [])"

datatype account_err = FromToken token_err | FromAuth auth_err

definition AccountFromMetadata ::
  "metadata \<Rightarrow> (string \<Rightarrow> auth_err + account option) \<Rightarrow> account_err + account option" where
  "AccountFromMetadata md inspect =
     (case TokenFromMetadata md of
        Inl e \<Rightarrow> Inl (FromToken e)
      | Inr tok \<Rightarrow> (case inspect tok of Inl e \<Rightarrow> Inl (FromAuth e) | Inr acc \<Rightarrow> Inr acc))"

record request =
  rq_Service :: string
  rq_Endpoint :: string

record handlerOptions =
  ho_Auth :: "(string \<Rightarrow> auth_err + account option) option"
  ho_Rules :: "(account option \<Rightarrow> resource \<Rightarrow> auth_err option) option"
  ho_SkipEndpoints :: "string list"

text \<open>
  The wrapped handler: \<open>Inl\<close> when the wrapper answers itself with an error, \<open>Inr\<close> with the result of
  the handler when that is called.
\<close>

definition inspect_account ::
  "handlerOptions \<Rightarrow> string \<Rightarrow> string \<Rightarrow> err + account option" where
  "inspect_account opts service tok =
     (case ho_Auth opts of
        None \<Rightarrow> Inr None
      | Some inspect \<Rightarrow>
          (case inspect tok of
             Inl ErrInvalidToken \<Rightarrow> Inl (Unauthorized service ''invalid token'' [])
           | Inl e \<Rightarrow> Inl (Unauthorized service ''token verification failed: %v'' [auth_text e])
           | Inr acc \<Rightarrow> Inr acc))"

definition check_rules :: "handlerOptions \<Rightarrow> request \<Rightarrow> account option \<Rightarrow> err option" where
  "check_rules opts req acc =
     (case (ho_Rules opts, acc) of
        (Some verify, Some a) \<Rightarrow>
          (case verify (Some a) \<lparr>rs_Name = rq_Service req, rs_Type = ''service'', rs_Endpoint = rq_Endpoint req\<rparr> of
             None \<Rightarrow> None
           | Some ErrForbidden \<Rightarrow> Some (Forbidden (rq_Service req) ''access denied to %s'' [rq_Endpoint req])
           | Some e \<Rightarrow> Some (Forbidden (rq_Service req) ''authorization failed: %v'' [auth_text e]))
      | _ \<Rightarrow> None)"

definition AuthHandler ::
  "handlerOptions \<Rightarrow> ('z actx_scheme \<Rightarrow> request \<Rightarrow> 'r) \<Rightarrow> 'z actx_scheme \<Rightarrow> request \<Rightarrow> err + 'r" where
  "AuthHandler opts h ctx req =
     (if rq_Endpoint req \<in> set (ho_SkipEndpoints opts) then Inr (h ctx req)
      else case FromContext ctx of
        None \<Rightarrow> Inl (Unauthorized (rq_Service req) ''missing metadata'' [])
      | Some md \<Rightarrow>
          (case TokenFromMetadata md of
             Inl ErrMissingToken \<Rightarrow> Inl (Unauthorized (rq_Service req) ''missing authorization token'' [])
           | Inl e \<Rightarrow> Inl (Unauthorized (rq_Service req) ''invalid authorization token: %v'' [token_err_text e])
           | Inr tok \<Rightarrow>
               (case inspect_account opts (rq_Service req) tok of
                  Inl e \<Rightarrow> Inl e
                | Inr acc \<Rightarrow>
                    (case check_rules opts req acc of
                       Some e \<Rightarrow> Inl e
                     | None \<Rightarrow>
                         Inr (h (if acc \<noteq> None then ContextWithAccount acc ctx else ctx) req)))))"

definition PublicEndpoints where
  "PublicEndpoints auth rules endpoints =
     \<lparr>ho_Auth = auth, ho_Rules = rules, ho_SkipEndpoints = endpoints\<rparr>"

definition AuthRequired where
  "AuthRequired auth rules = \<lparr>ho_Auth = auth, ho_Rules = rules, ho_SkipEndpoints = []\<rparr>"

definition AuthOptional ::
  "(string \<Rightarrow> auth_err + account option) \<Rightarrow> ('z actx_scheme \<Rightarrow> request \<Rightarrow> 'r) \<Rightarrow> 'z actx_scheme \<Rightarrow> request \<Rightarrow> 'r" where
  "AuthOptional inspect h ctx req =
     (case FromContext ctx of
        None \<Rightarrow> h ctx req
      | Some md \<Rightarrow>
          (case TokenFromMetadata md of
             Inl _ \<Rightarrow> h ctx req
           | Inr tok \<Rightarrow>
               (case inspect tok of
                  Inl _ \<Rightarrow> h ctx req
                | Inr acc \<Rightarrow> h (ContextWithAccount acc ctx) req)))"

text \<open>
  The client side.  \<open>cl_Auth\<close> is the provider's \<open>Token\<close> method.  The three methods of the
  wrapper prepare the context in the same way; \<open>None\<close> is the panic on a nil account.
\<close>

record clientOptions =
  cl_Auth :: "((tokenOptions \<Rightarrow> tokenOptions) list \<Rightarrow> auth_err + token) option"
  cl_Token :: string

definition client_token :: "clientOptions \<Rightarrow> 'z actx_scheme \<Rightarrow> string option" where
  "client_token opts ctx =
     (if cl_Token opts \<noteq> [] then Some (cl_Token opts)
      else case cl_Auth opts of
        None \<Rightarrow> Some []
      | Some gen \<Rightarrow>
          (case AccountFromContext ctx of
             None \<Rightarrow> Some []
           | Some None \<Rightarrow> None
           | Some (Some acc) \<Rightarrow>
               (case gen [WithCredentials (ac_ID acc) (ac_Secret acc)] of
                  Inl _ \<Rightarrow> Some []
                | Inr t \<Rightarrow> Some (tk_AccessToken t))))"

definition client_ctx :: "clientOptions \<Rightarrow> 'z actx_scheme \<Rightarrow> 'z actx_scheme option" where
  "client_ctx opts ctx =
     (case client_token opts ctx of
        None \<Rightarrow> None
      | Some tok \<Rightarrow>
          Some (if tok \<noteq> [] then NewContext (TokenToMetadata (FromContext ctx) tok) ctx else ctx))"


definition authClient_Stream ::
  "clientOptions \<Rightarrow> ('z actx_scheme \<Rightarrow> 'q \<Rightarrow> 'r) \<Rightarrow> 'z actx_scheme \<Rightarrow> 'q \<Rightarrow> 'r option" where
  "authClient_Stream opts stream ctx req = map_option (\<lambda>c. stream c req) (client_ctx opts ctx)"

definition authClient_Publish ::
  "clientOptions \<Rightarrow> ('z actx_scheme \<Rightarrow> 'm \<Rightarrow> 'r) \<Rightarrow> 'z actx_scheme \<Rightarrow> 'm \<Rightarrow> 'r option" where
  "authClient_Publish opts publish ctx msg = map_option (\<lambda>c. publish c msg) (client_ctx opts ctx)"


definition FromContext_options :: "((tokenOptions \<Rightarrow> tokenOptions) list \<Rightarrow> auth_err + token) \<Rightarrow> clientOptions" where
  "FromContext_options gen = \<lparr>cl_Auth = Some gen, cl_Token = []\<rparr>"

section \<open>The rule that decides\<close>

text \<open>
  Declaratively: an endpoint of a rule covers an endpoint of a resource when it is \<open>*\<close>, the same (up
  to case), or a wildcard \<open>q/*\<close> where the resource's endpoint is a path that is \<open>q\<close> or continues it
  after a slash.
\<close>

definition endpoint_covers :: "string \<Rightarrow> string \<Rightarrow> bool" where
  "endpoint_covers e ep \<longleftrightarrow> equal_fold ''*'' e \<or> equal_fold ep e \<or>
     CHR ''/'' \<in> set ep \<and> (\<exists>q. equal_fold (q @ ''/*'') e \<and> (q = ep \<or> has_prefix ep (q @ ''/'')))"

definition rule_covers :: "rule \<Rightarrow> resource \<Rightarrow> bool" where
  "rule_covers r res \<longleftrightarrow>
     (equal_fold ''*'' (rs_Type (ru_Resource r)) \<or> equal_fold (rs_Type res) (rs_Type (ru_Resource r))) \<and>
     (equal_fold ''*'' (rs_Name (ru_Resource r)) \<or> equal_fold (rs_Name res) (rs_Name (ru_Resource r))) \<and>
     endpoint_covers (rs_Endpoint (ru_Resource r)) (rs_Endpoint res)"

text \<open>A rule applies to everyone, to any account, or to the accounts with its scope.\<close>

definition rule_applies :: "account option \<Rightarrow> rule \<Rightarrow> bool" where
  "rule_applies acc r \<longleftrightarrow> ru_Access r \<in> {AccessGranted, AccessDenied} \<and>
     (ru_Scope r = [] \<or>
      (case acc of None \<Rightarrow> False | Some a \<Rightarrow> ru_Scope r = ''*'' \<or> include_str (ac_Scopes a) (ru_Scope r)))"

lemma verify_loop_first:
  "verify_loop acc rs =
     (case filter (rule_applies acc) rs of
        [] \<Rightarrow> Some ErrForbidden
      | r # _ \<Rightarrow> if ru_Access r = AccessGranted then None else Some ErrForbidden)"
  by (induction rs)
    (auto simp: rule_applies_def ScopePublic_def ScopeAccount_def AccessGranted_def AccessDenied_def split: option.splits)

lemma sort_key_hd:
  fixes f :: "'a \<Rightarrow> 'b :: linorder"
  assumes "xs \<noteq> []"
  shows "hd (sort_key f xs) = hd (filter (\<lambda>x. f x = Min (f ` set xs)) xs)"
proof -
  let ?m = "Min (f ` set xs)"
  from assms have ne: "sort_key f xs \<noteq> []" by (metis length_0_conv length_sort)
  then obtain y ys where y: "sort_key f xs = y # ys" by (cases "sort_key f xs") auto
  with sorted_sort_key [of f xs] have "\<forall>x \<in> set (sort_key f xs). f y \<le> f x" by auto
  then have "\<forall>x \<in> set xs. f (hd (sort_key f xs)) \<le> f x" unfolding set_sort by (simp add: y)
  then have "f (hd (sort_key f xs)) = ?m"
  proof (intro Min_eqI [symmetric])
    show "f (hd (sort_key f xs)) \<in> f ` set xs" using ne by (metis hd_in_set imageI set_sort)
  qed auto
  then have "hd (filter (\<lambda>x. f x = ?m) (sort_key f xs)) = hd (sort_key f xs)"
    using ne by (cases "sort_key f xs") auto
  then show ?thesis by (simp add: sort_key_stable)
qed

lemma Min_minus_image:
  fixes f :: "'a \<Rightarrow> int"
  assumes "finite A" and "A \<noteq> {}"
  shows "Min ((\<lambda>x. - f x) ` A) = - Max (f ` A)"
proof (rule Min_eqI)
  show "- Max (f ` A) \<in> (\<lambda>x. - f x) ` A" 
    using Max_in [of "f ` A"] assms by (metis (mono_tags, lifting) finite_imageI image_iff image_is_empty)
  show "- Max (f ` A) \<le> y" if "y \<in> (\<lambda>x. - f x) ` A" for y
    using that assms(1) by auto
qed (use assms in simp)

lemma endpoint_wildcards:
  "(\<exists>i \<in> {1..<length (go_split (CHR ''/'') ep) + 1}. q = go_join ''/'' (take i (go_split (CHR ''/'') ep))) \<longleftrightarrow>
     q = ep \<or> has_prefix ep (q @ ''/'')"
  (is "(\<exists>i \<in> ?I. q = ?join i) \<longleftrightarrow> _")
proof
  let ?cs = "go_split (CHR ''/'') ep"
  assume "\<exists>i \<in> ?I. q = ?join i"
  then obtain i where i: "1 \<le> i" "i \<le> length ?cs" "q = ?join i" by auto
  show "q = ep \<or> has_prefix ep (q @ ''/'')"
  proof (cases "i = length ?cs")
    case True
    then show ?thesis using i go_join_split [of "CHR ''/''" ep] by simp
  next
    case False
    have "go_join ''/'' (take i ?cs @ drop i ?cs) = q @ ''/'' @ go_join ''/'' (drop i ?cs)"
      unfolding i(3) by (rule go_join_append) (use i False in auto)
    then have "ep = (q @ ''/'') @ go_join ''/'' (drop i ?cs)"
      using go_join_split [of "CHR ''/''" ep] by simp
    then show ?thesis by (metis has_prefix_append)
  qed
next
  let ?cs = "go_split (CHR ''/'') ep"
  assume "q = ep \<or> has_prefix ep (q @ ''/'')"
  then show "\<exists>i \<in> ?I. q = ?join i"
  proof
    assume "q = ep"
    then show ?thesis
      using go_join_split [of "CHR ''/''" ep] by (intro bexI [of _ "length ?cs"]) (auto simp: Suc_le_eq)
  next
    assume "has_prefix ep (q @ ''/'')"
    then obtain t where "ep = q @ CHR ''/'' # t" by (auto simp: has_prefix_iff)
    then have "?cs = go_split (CHR ''/'') q @ go_split (CHR ''/'') t" by (simp add: go_split_append)
    then show ?thesis
      using go_join_split [of "CHR ''/''" q]
      by (intro bexI [of _ "length (go_split (CHR ''/'') q)"]) (auto simp: Suc_le_eq)
  qed
qed

lemma go_split_single: "length (go_split c s) > 1 \<longleftrightarrow> c \<in> set s"
  by (induction s) (auto simp: Suc_lessI)

lemma rule_matches_covers: "rule_matches res r \<longleftrightarrow> rule_covers r res"
proof -
  have "include_str (validEndpoints ep) e \<longleftrightarrow> endpoint_covers e ep" for ep e
  proof -
    let ?cs = "go_split (CHR ''/'') ep"
    have "(\<exists>i \<in> {1..<length ?cs + 1}. equal_fold (go_join ''/'' (take i ?cs) @ ''/*'') e) \<longleftrightarrow>
        (\<exists>q. equal_fold (q @ ''/*'') e \<and> (q = ep \<or> has_prefix ep (q @ ''/'')))"
      unfolding endpoint_wildcards [symmetric] by blast
    then have "list_ex (\<lambda>s. equal_fold s e) (map (\<lambda>i. go_join ''/'' (take i ?cs) @ ''/*'') [1..<length ?cs + 1]) \<longleftrightarrow>
        (\<exists>q. equal_fold (q @ ''/*'') e \<and> (q = ep \<or> has_prefix ep (q @ ''/'')))"
      by (simp only: list_ex_iff set_map set_upt bex_simps)
    then show ?thesis
      unfolding include_str_def validEndpoints_def endpoint_covers_def Let_def go_split_single by simp
  qed
  then show ?thesis by (simp add: rule_matches_def rule_covers_def include_str_def)
qed

lemma Verify_by_priority:
  "Verify rules acc res =
     (let app = filter (\<lambda>r. rule_covers r res \<and> rule_applies acc r) rules
      in if app \<noteq> [] \<and> ru_Access (hd (filter (\<lambda>r. ru_Priority r = Max (ru_Priority ` set app)) app)) = AccessGranted
         then None else Some ErrForbidden)"
proof -
  let ?app = "filter (\<lambda>r. rule_covers r res \<and> rule_applies acc r) rules"
  let ?sorted = "sort_key (\<lambda>r. - ru_Priority r) ?app"
  have app: "filter (rule_applies acc) (sort_key (\<lambda>r. - ru_Priority r) (filter (rule_matches res) rules)) = ?sorted"
    by (simp add: filter_sort rule_matches_covers conj_commute)
  show ?thesis
  proof (cases "?app = []")
    case True
    then show ?thesis by (simp only: Verify_def verify_loop_first app) simp
  next
    case False
    have "Min ((\<lambda>r. - ru_Priority r) ` set ?app) = - Max (ru_Priority ` set ?app)"
      by (rule Min_minus_image) (simp_all only: finite_set set_empty False not_False_eq_True)
    then have hd: "hd ?sorted = hd (filter (\<lambda>r. ru_Priority r = Max (ru_Priority ` set ?app)) ?app)"
      by (subst sort_key_hd [OF False]) (simp only: neg_equal_iff_equal)
    obtain r rs where r: "?sorted = r # rs"
      using False by (metis length_0_conv length_sort neq_Nil_conv)
    have "Verify rules acc res = (if ru_Access (hd ?sorted) = AccessGranted then None else Some ErrForbidden)"
      by (simp only: Verify_def verify_loop_first app r list.case list.sel)
    then show ?thesis unfolding hd Let_def using False by simp
  qed
qed

section \<open>Properties\<close>

text \<open>
  C25.  \<open>Verify\<close> is decided by the rules that cover the resource and apply to the account: access is
  granted exactly when there are some, and the first one in the given order among those of
  the highest priority grants it.
\<close>

theorem Verify_decides:
  "Verify rules acc res =
     (let app = filter (\<lambda>r. rule_covers r res \<and> rule_applies acc r) rules
      in if app \<noteq> [] \<and> ru_Access (hd (filter (\<lambda>r. ru_Priority r = Max (ru_Priority ` set app)) app)) = AccessGranted
         then None else Some ErrForbidden)"
  by (rule Verify_by_priority)


text \<open>
  Without a provider, or for a token that the provider accepts without an account, the rules are not asked: every
  well-formed token reaches the handler.
\<close>

lemma rules_need_an_account:
  assumes "FromContext ctx = Some md" and "TokenFromMetadata md = Inr tok"
    and "ho_Auth opts = None \<or> (\<exists>inspect. ho_Auth opts = Some inspect \<and> inspect tok = Inr None)"
  shows "AuthHandler opts h ctx req = Inr (h ctx req)"
  using assms by (auto simp: AuthHandler_def inspect_account_def check_rules_def split: option.split)






end
