(* ===== verification/Memory_Store.thy ===== *)
theory Memory_Store
  imports Go_Prelude "HOL-Library.Word"
begin

text \<open>
  The in-memory key-value store, \<open>store/memory.go\<close>, with the types of \<open>store/store.go\<close> and the options
  of \<open>store/options.go\<close>.

  The items live in a cache of the package \<open>go-cache\<close>, which is not part of the repository: its
  operations are the fields of a record that the definitions take as an argument, and the
  documented behaviour that the store relies on is the predicate \<open>cache_laws\<close>.  The state is
  the store's default names and the cache.  The clock is an argument: \<open>Write\<close> reads it up to three times (for the time until an
  expiry, for the time stored with the record, and in the cache), \<open>Read\<close> twice for a record (in the cache and for the time that is left; one pair
  of readings serves all records of a call).  Times and durations are
  nanoseconds, the zero \<open>time.Time\<close> is \<open>None\<close>.  The options of a call are the list of functions
  that the code applies in order.
\<close>

section \<open>filepath.Join\<close>

text \<open>\<open>filepath.Clean\<close> on the elements between the slashes; the accumulator is reversed.\<close>

fun clean_elems :: "bool \<Rightarrow> string list \<Rightarrow> string list \<Rightarrow> string list" where
  "clean_elems rooted acc [] = rev acc"
| "clean_elems rooted acc (e # es) =
     (if e = [] \<or> e = ''.'' then clean_elems rooted acc es
      else if e = ''..'' then
        (case acc of
           [] \<Rightarrow> clean_elems rooted (if rooted then [] else [''..'']) es
         | a # as \<Rightarrow> clean_elems rooted (if a = ''..'' then ''..'' # acc else as) es)
      else clean_elems rooted (e # acc) es)"

definition clean_path :: "string \<Rightarrow> string" where
  "clean_path p =
     (let rooted = has_prefix p ''/'';
          q = (if rooted then ''/'' else []) @ go_join ''/'' (clean_elems rooted [] (go_split (CHR ''/'') p))
      in if q = [] then ''.'' else q)"

definition path_join :: "string \<Rightarrow> string \<Rightarrow> string" where
  "path_join a b =
     (if a = [] \<and> b = [] then [] else clean_path (go_join ''/'' (filter (\<lambda>e. e \<noteq> []) [a, b])))"

section \<open>Types and options\<close>

record 'm srecord =
  rd_Metadata :: "(string, 'm) go_map"
  rd_Key :: string
  rd_Value :: string
  rd_Expiry :: int

record 'm storeRecord =
  st_expiresAt :: "int option"
  st_metadata :: "(string, 'm) go_map"
  st_key :: string
  st_value :: string

record ('c, 'v) kvcache =
  kc_New :: 'c
  kc_Get :: "int \<Rightarrow> string \<Rightarrow> 'c \<Rightarrow> 'v option"
  kc_Set :: "int \<Rightarrow> string \<Rightarrow> 'v \<Rightarrow> int \<Rightarrow> 'c \<Rightarrow> 'c"
  kc_Delete :: "string \<Rightarrow> 'c \<Rightarrow> 'c"
  kc_Items :: "int \<Rightarrow> 'c \<Rightarrow> (string, 'v) go_map"
  kc_Flush :: "'c \<Rightarrow> 'c"

record store_options =
  so_Database :: string
  so_Table :: string

record 'c memoryStore =
  ms_options :: store_options
  ms_store :: 'c

datatype store_err = ErrNotFound

definition opt_Database :: "string \<Rightarrow> store_options \<Rightarrow> store_options" where
  "opt_Database db o' = o'\<lparr>so_Database := db\<rparr>"
definition opt_Table :: "string \<Rightarrow> store_options \<Rightarrow> store_options" where
  "opt_Table t o' = o'\<lparr>so_Table := t\<rparr>"

record readOptions =
  ro_Database :: string
  ro_Table :: string
  ro_Prefix :: bool
  ro_Suffix :: bool
  ro_Limit :: "64 word"
  ro_Offset :: "64 word"

definition ReadFrom :: "string \<Rightarrow> string \<Rightarrow> readOptions \<Rightarrow> readOptions" where
  "ReadFrom db t r = r\<lparr>ro_Database := db, ro_Table := t\<rparr>"
definition ReadPrefix :: "readOptions \<Rightarrow> readOptions" where "ReadPrefix r = r\<lparr>ro_Prefix := True\<rparr>"
definition ReadSuffix :: "readOptions \<Rightarrow> readOptions" where "ReadSuffix r = r\<lparr>ro_Suffix := True\<rparr>"
definition ReadLimit :: "64 word \<Rightarrow> readOptions \<Rightarrow> readOptions" where "ReadLimit l r = r\<lparr>ro_Limit := l\<rparr>"
definition ReadOffset :: "64 word \<Rightarrow> readOptions \<Rightarrow> readOptions" where "ReadOffset l r = r\<lparr>ro_Offset := l\<rparr>"

record writeOptions =
  wo_Database :: string
  wo_Table :: string
  wo_Expiry :: "int option"
  wo_TTL :: int

definition WriteTo :: "string \<Rightarrow> string \<Rightarrow> writeOptions \<Rightarrow> writeOptions" where
  "WriteTo db t w = w\<lparr>wo_Database := db, wo_Table := t\<rparr>"
definition WriteExpiry :: "int option \<Rightarrow> writeOptions \<Rightarrow> writeOptions" where
  "WriteExpiry t w = w\<lparr>wo_Expiry := t\<rparr>"
definition WriteTTL :: "int \<Rightarrow> writeOptions \<Rightarrow> writeOptions" where "WriteTTL d w = w\<lparr>wo_TTL := d\<rparr>"

record deleteOptions =
  do_Database :: string
  do_Table :: string

definition DeleteFrom :: "string \<Rightarrow> string \<Rightarrow> deleteOptions \<Rightarrow> deleteOptions" where
  "DeleteFrom db t d = d\<lparr>do_Database := db, do_Table := t\<rparr>"

record listOptions =
  lo_Database :: string
  lo_Table :: string
  lo_Prefix :: string
  lo_Suffix :: string
  lo_Limit :: "64 word"
  lo_Offset :: "64 word"

definition ListFrom :: "string \<Rightarrow> string \<Rightarrow> listOptions \<Rightarrow> listOptions" where
  "ListFrom db t l = l\<lparr>lo_Database := db, lo_Table := t\<rparr>"
definition ListPrefix :: "string \<Rightarrow> listOptions \<Rightarrow> listOptions" where "ListPrefix p l = l\<lparr>lo_Prefix := p\<rparr>"
definition ListSuffix :: "string \<Rightarrow> listOptions \<Rightarrow> listOptions" where "ListSuffix s l = l\<lparr>lo_Suffix := s\<rparr>"
definition ListLimit :: "64 word \<Rightarrow> listOptions \<Rightarrow> listOptions" where "ListLimit n l = l\<lparr>lo_Limit := n\<rparr>"
definition ListOffset :: "64 word \<Rightarrow> listOptions \<Rightarrow> listOptions" where "ListOffset n l = l\<lparr>lo_Offset := n\<rparr>"

text \<open>\<open>for _, o := range opts { o(&options) }\<close>.\<close>

definition apply_opts :: "('o \<Rightarrow> 'o) list \<Rightarrow> 'o \<Rightarrow> 'o" where
  "apply_opts opts o' = foldl (\<lambda>x f. f x) o' opts"

section \<open>Operations\<close>

definition NewMemoryStore ::
  "('c, 'v) kvcache \<Rightarrow> (store_options \<Rightarrow> store_options) list \<Rightarrow> 'c memoryStore" where
  "NewMemoryStore kc opts =
     \<lparr>ms_options = apply_opts opts \<lparr>so_Database = ''realmicro'', so_Table = ''realmicro''\<rparr>, ms_store = kc_New kc\<rparr>"

definition store_Init :: "(store_options \<Rightarrow> store_options) list \<Rightarrow> 'c memoryStore \<Rightarrow> 'c memoryStore" where
  "store_Init opts m = m\<lparr>ms_options := apply_opts opts (ms_options m)\<rparr>"

definition store_Close :: "('c, 'v) kvcache \<Rightarrow> 'c memoryStore \<Rightarrow> 'c memoryStore" where
  "store_Close kc m = m\<lparr>ms_store := kc_Flush kc (ms_store m)\<rparr>"

definition store_key :: "string \<Rightarrow> string \<Rightarrow> string" where
  "store_key pfx key = path_join pfx key"

definition store_prefix :: "'c memoryStore \<Rightarrow> string \<Rightarrow> string \<Rightarrow> string" where
  "store_prefix m database table =
     path_join (if database = [] then so_Database (ms_options m) else database)
               (if table = [] then so_Table (ms_options m) else table)"

definition store_get ::
  "('c, 'm storeRecord) kvcache \<Rightarrow> int \<times> int \<Rightarrow> string \<Rightarrow> string \<Rightarrow> 'c memoryStore \<Rightarrow> store_err + 'm srecord" where
  "store_get kc now pfx key m =
     (case kc_Get kc (fst now) (store_key pfx key) (ms_store m) of
        None \<Rightarrow> Inl ErrNotFound
      | Some sr \<Rightarrow>
          Inr \<lparr>rd_Metadata = map_copy (st_metadata sr), rd_Key = trim_prefix (st_key sr) (pfx @ ''/''),
               rd_Value = st_value sr,
               rd_Expiry = (case st_expiresAt sr of None \<Rightarrow> 0 | Some e \<Rightarrow> e - snd now)\<rparr>)"

definition store_set ::
  "('c, 'm storeRecord) kvcache \<Rightarrow> int \<times> int \<Rightarrow> string \<Rightarrow> 'm srecord \<Rightarrow> 'c memoryStore \<Rightarrow> 'c memoryStore" where
  "store_set kc now pfx r m =
     (let i = \<lparr>st_expiresAt = (if rd_Expiry r \<noteq> 0 then Some (fst now + rd_Expiry r) else None),
               st_metadata = map_copy (rd_Metadata r), st_key = rd_Key r, st_value = rd_Value r\<rparr>
      in m\<lparr>ms_store := kc_Set kc (snd now) (store_key pfx (rd_Key r)) i (rd_Expiry r) (ms_store m)\<rparr>)"

definition store_delete :: "('c, 'v) kvcache \<Rightarrow> string \<Rightarrow> string \<Rightarrow> 'c memoryStore \<Rightarrow> 'c memoryStore" where
  "store_delete kc pfx key m = m\<lparr>ms_store := kc_Delete kc (store_key pfx key) (ms_store m)\<rparr>"

text \<open>
  \<open>list\<close>: \<open>allKeys\<close> has one slot per item of the cache, of which the first \<open>i\<close> are filled with the
  keys under the prefix; \<open>None\<close> is the panic of a slice expression whose bounds are out of
  order.
\<close>

fun fill_keys :: "string \<Rightarrow> string list \<Rightarrow> nat \<Rightarrow> string list \<Rightarrow> string list" where
  "fill_keys pfx [] i allKeys = allKeys"
| "fill_keys pfx (k # ks) i allKeys =
     (if \<not> has_prefix k (pfx @ ''/'') then fill_keys pfx ks i allKeys
      else fill_keys pfx ks (i + 1) (allKeys[i := trim_prefix k (pfx @ ''/'')]))"

definition store_list ::
  "('c, 'v) kvcache \<Rightarrow> int \<Rightarrow> string \<Rightarrow> 64 word \<Rightarrow> 64 word \<Rightarrow> 'c memoryStore \<Rightarrow> string list option" where
  "store_list kc now pfx limit offset m =
     (let allItems = kc_Items kc now (ms_store m);
          allKeys = fill_keys pfx (map fst allItems) 0 (replicate (length allItems) [])
      in if limit \<noteq> 0 \<or> offset \<noteq> 0 then
           (let ks = sort allKeys; hi = min (unat limit) (length allKeys)
            in if unat offset \<le> hi then Some (drop (unat offset) (take hi ks)) else None)
         else Some allKeys)"

text \<open>
  The loop of \<open>Read\<close> over the listed keys between \<open>offset\<close> and \<open>limit\<close>, which are converted to
  signed numbers; indexing with a negative one panics.
\<close>

definition read_slice :: "64 word \<Rightarrow> 64 word \<Rightarrow> string list \<Rightarrow> string list option" where
  "read_slice l o' k =
     (let limit = min (sint l) (int (length k)); offset = min (sint o') (int (length k))
      in if offset < 0 \<and> offset < limit then None
         else Some (drop (nat offset) (take (nat limit) k)))"

fun read_all ::
  "('c, 'm storeRecord) kvcache \<Rightarrow> int \<times> int \<Rightarrow> string \<Rightarrow> 'c memoryStore \<Rightarrow> string list \<Rightarrow> 'm srecord list
     \<Rightarrow> 'm srecord list \<times> store_err option" where
  "read_all kc now pfx m [] results = (results, None)"
| "read_all kc now pfx m (k # ks) results =
     (case store_get kc now pfx k m of
        Inl e \<Rightarrow> (results, Some e)
      | Inr r \<Rightarrow> read_all kc now pfx m ks (results @ [r]))"

definition store_Read ::
  "('c, 'm storeRecord) kvcache \<Rightarrow> int \<times> int \<Rightarrow> string \<Rightarrow> (readOptions \<Rightarrow> readOptions) list \<Rightarrow> 'c memoryStore
     \<Rightarrow> ('m srecord list \<times> store_err option) option" where
  "store_Read kc now key opts m =
     (let ro = apply_opts opts \<lparr>ro_Database = [], ro_Table = [], ro_Prefix = False, ro_Suffix = False, ro_Limit = 0, ro_Offset = 0\<rparr>;
          pfx = store_prefix m (ro_Database ro) (ro_Table ro)
      in if ro_Prefix ro \<or> ro_Suffix ro then
           (case store_list kc (fst now) pfx 0 0 m of
              None \<Rightarrow> None
            | Some k \<Rightarrow>
                (case read_slice (ro_Limit ro) (ro_Offset ro) k of
                   None \<Rightarrow> None
                 | Some ks \<Rightarrow>
                     let keys = filter (\<lambda>kk. (ro_Prefix ro \<longrightarrow> has_prefix kk key) \<and> (ro_Suffix ro \<longrightarrow> has_suffix kk key)) ks
                     in Some (read_all kc now pfx m keys [])))
         else Some (read_all kc now pfx m [key] []))"

definition store_Write ::
  "('c, 'm storeRecord) kvcache \<Rightarrow> int \<times> int \<times> int \<Rightarrow> 'm srecord \<Rightarrow> (writeOptions \<Rightarrow> writeOptions) list \<Rightarrow> 'c memoryStore
     \<Rightarrow> 'c memoryStore" where
  "store_Write kc now r opts m =
     (let wo = apply_opts opts \<lparr>wo_Database = [], wo_Table = [], wo_Expiry = None, wo_TTL = 0\<rparr>;
          pfx = store_prefix m (wo_Database wo) (wo_Table wo)
      in if opts \<noteq> [] then
           (let e = rd_Expiry r;
                e = (case wo_Expiry wo of None \<Rightarrow> e | Some t \<Rightarrow> t - fst now);
                e = (if wo_TTL wo \<noteq> 0 then wo_TTL wo else e)
            in store_set kc (snd now) pfx (r\<lparr>rd_Metadata := map_copy (rd_Metadata r), rd_Expiry := e\<rparr>) m)
         else store_set kc (snd now) pfx r m)"

definition store_Delete ::
  "('c, 'v) kvcache \<Rightarrow> string \<Rightarrow> (deleteOptions \<Rightarrow> deleteOptions) list \<Rightarrow> 'c memoryStore \<Rightarrow> 'c memoryStore" where
  "store_Delete kc key opts m =
     (let d = apply_opts opts \<lparr>do_Database = [], do_Table = []\<rparr>
      in store_delete kc (store_prefix m (do_Database d) (do_Table d)) key m)"

definition store_List ::
  "('c, 'v) kvcache \<Rightarrow> int \<Rightarrow> (listOptions \<Rightarrow> listOptions) list \<Rightarrow> 'c memoryStore \<Rightarrow> string list option" where
  "store_List kc now opts m =
     (let l = apply_opts opts \<lparr>lo_Database = [], lo_Table = [], lo_Prefix = [], lo_Suffix = [], lo_Limit = 0, lo_Offset = 0\<rparr>
      in map_option
           (\<lambda>keys.
              let keys = (if lo_Prefix l \<noteq> [] then filter (\<lambda>k. has_prefix k (lo_Prefix l)) keys else keys)
              in if lo_Suffix l \<noteq> [] then filter (\<lambda>k. has_suffix k (lo_Suffix l)) keys else keys)
           (store_list kc now (store_prefix m (lo_Database l) (lo_Table l)) (lo_Limit l) (lo_Offset l) m))"

section \<open>What the store relies on\<close>

text \<open>
  The documented behaviour of \<open>go-cache\<close> for a cache without default expiration: an item with a positive
  duration is gone after it, any other item stays; \<open>Items\<close> are the unexpired ones.
\<close>

definition cache_laws :: "('c, 'v) kvcache \<Rightarrow> bool" where
  "cache_laws kc \<longleftrightarrow>
     (\<forall>t k. kc_Get kc t k (kc_New kc) = None) \<and>
     (\<forall>now t k k' v d c. now \<le> t \<longrightarrow> kc_Get kc t k (kc_Set kc now k' v d c) =
        (if k = k' then if 0 < d \<and> now + d < t then None else Some v else kc_Get kc t k c)) \<and>
     (\<forall>t k k' c. kc_Get kc t k (kc_Delete kc k' c) = (if k = k' then None else kc_Get kc t k c)) \<and>
     (\<forall>t k c. kc_Get kc t k (kc_Flush kc c) = None) \<and>
     (\<forall>t c. go_map (kc_Items kc t c) \<and> (\<forall>k. map_of (kc_Items kc t c) k = kc_Get kc t k c))"

text \<open>A cache with these laws, for evaluation: an association list with the times of expiry.\<close>

definition alist_cache :: "((string \<times> 'v \<times> int option) list, 'v) kvcache" where
  "alist_cache = \<lparr>
     kc_New = [],
     kc_Get = (\<lambda>t k c. case map_of c k of
        Some (v, e) \<Rightarrow> (case e of Some x \<Rightarrow> if x < t then None else Some v | None \<Rightarrow> Some v) | None \<Rightarrow> None),
     kc_Set = (\<lambda>now k v d c. AList.update k (v, if 0 < d then Some (now + d) else None) c),
     kc_Delete = (\<lambda>k c. AList.delete k c),
     kc_Items = (\<lambda>t c. map (\<lambda>(k, v, e). (k, v))
        (filter (\<lambda>(k, v, e). case e of Some x \<Rightarrow> \<not> x < t | None \<Rightarrow> True) (AList.clearjunk c))),
     kc_Flush = (\<lambda>c. [])\<rparr>"

lemma map_of_unexpired:
  "go_map c \<Longrightarrow> map_of (map (\<lambda>(k, v, e). (k, v)) (filter (\<lambda>(k, v, e). P e) c)) k =
     (case map_of c k of Some (v, e) \<Rightarrow> if P e then Some v else None | None \<Rightarrow> None)"
proof (induction c)
  case (Cons p c)
  obtain k' v e where p: "p = (k', v, e)" by (cases p) auto
  from Cons.prems p have "go_map c" "map_of c k' = None" by (auto simp: map_of_eq_None_iff)
  with Cons.IH p show ?case by (auto split: option.splits)
qed simp

lemma alist_cache_laws: "cache_laws alist_cache"
proof -
  have items: "go_map (kc_Items alist_cache t c) \<and> map_of (kc_Items alist_cache t c) k = kc_Get alist_cache t k c" for t k c
  proof -
    have d: "go_map (AList.clearjunk c)" by (simp add: go_map_def distinct_clearjunk)
    then have "go_map (map (\<lambda>(k, v, e). (k, v)) (filter (\<lambda>(k, v, e). case e of Some x \<Rightarrow> \<not> x < t | None \<Rightarrow> True) (AList.clearjunk c)))"
      by (simp add: go_map_def distinct_map_filter case_prod_unfold comp_def)
    then show ?thesis
      using map_of_unexpired [OF d, of "\<lambda>e. case e of Some x \<Rightarrow> \<not> x < t | None \<Rightarrow> True" k]
      by (auto simp: alist_cache_def map_of_clearjunk split: option.splits)
  qed
  then show ?thesis
    by (auto simp: cache_laws_def) (auto simp: alist_cache_def)
qed

section \<open>Keys\<close>

definition plain_elem :: "string \<Rightarrow> bool" where
  "plain_elem e \<longleftrightarrow> e \<noteq> [] \<and> e \<noteq> ''.'' \<and> e \<noteq> ''..''"

definition clean_key :: "string \<Rightarrow> bool" where
  "clean_key k \<longleftrightarrow> list_all plain_elem (go_split (CHR ''/'') k)"

definition plain_name :: "string \<Rightarrow> bool" where
  "plain_name n \<longleftrightarrow> plain_elem n \<and> CHR ''/'' \<notin> set n"

lemma clean_elems_plain: "list_all plain_elem es \<Longrightarrow> clean_elems rooted acc es = rev acc @ es"
  by (induction es arbitrary: acc) (auto simp: plain_elem_def)

lemma clean_key_not_Nil: "clean_key k \<Longrightarrow> k \<noteq> []"
  by (auto simp: clean_key_def plain_elem_def)

lemma clean_path_clean: "clean_key k \<Longrightarrow> clean_path k = k"
proof -
  assume k: "clean_key k"
  then have "\<not> has_prefix k ''/''"
    by (cases k) (auto simp: clean_key_def plain_elem_def has_prefix_def split: if_splits)
  with k clean_key_not_Nil [OF k] show ?thesis
    by (simp add: clean_path_def clean_elems_plain clean_key_def go_join_split)
qed

lemma path_join_clean: "clean_key a \<Longrightarrow> clean_key b \<Longrightarrow> path_join a b = a @ ''/'' @ b \<and> clean_key (a @ ''/'' @ b)"
proof -
  assume ab: "clean_key a" "clean_key b"
  then have "clean_key (a @ ''/'' @ b)" by (simp add: clean_key_def go_split_append)
  with ab show ?thesis by (simp add: path_join_def clean_key_not_Nil clean_path_clean)
qed

lemma plain_name_clean: "plain_name n \<Longrightarrow> clean_key n"
  by (simp add: plain_name_def clean_key_def go_split_no_sep)

lemma full_key:
  assumes "plain_name d" and "plain_name t" and "clean_key k"
  shows "path_join (path_join d t) k = d @ ''/'' @ t @ ''/'' @ k"
  using path_join_clean [OF assms(1,2) [THEN plain_name_clean]]
    path_join_clean [of "d @ ''/'' @ t" k] assms(3) by simp

lemma full_key_inj:
  assumes "plain_name d" "plain_name t" "clean_key k" "plain_name d'" "plain_name t'" "clean_key k'"
  shows "path_join (path_join d t) k = path_join (path_join d' t') k' \<longleftrightarrow> d = d' \<and> t = t' \<and> k = k'"
proof
  assume "path_join (path_join d t) k = path_join (path_join d' t') k'"
  then have "go_split (CHR ''/'') (d @ CHR ''/'' # t @ CHR ''/'' # k) = go_split (CHR ''/'') (d' @ CHR ''/'' # t' @ CHR ''/'' # k')"
    using assms by (simp add: full_key)
  then have "d = d' \<and> t = t' \<and> go_split (CHR ''/'') k = go_split (CHR ''/'') k'"
    using assms by (simp add: plain_name_def go_split_append_sep)
  then show "d = d' \<and> t = t' \<and> k = k'" by (metis go_join_split)
qed auto

section \<open>Reading and writing\<close>

text \<open>
  Where a call with given options operates: the database and the table of its options, or the
  defaults of the store.  The expiry with which a record is written.
\<close>

definition place :: "string \<Rightarrow> string \<Rightarrow> 'c memoryStore \<Rightarrow> string \<times> string" where
  "place db t m = (if db = [] then so_Database (ms_options m) else db, if t = [] then so_Table (ms_options m) else t)"

definition plain_place :: "string \<times> string \<Rightarrow> bool" where
  "plain_place p \<longleftrightarrow> plain_name (fst p) \<and> plain_name (snd p)"

abbreviation "ro0 \<equiv> \<lparr>ro_Database = [], ro_Table = [], ro_Prefix = False, ro_Suffix = False, ro_Limit = 0, ro_Offset = 0\<rparr>"
abbreviation "wo0 \<equiv> \<lparr>wo_Database = [], wo_Table = [], wo_Expiry = None, wo_TTL = 0\<rparr>"
abbreviation "do0 \<equiv> \<lparr>do_Database = [], do_Table = []\<rparr>"

definition read_place :: "(readOptions \<Rightarrow> readOptions) list \<Rightarrow> 'c memoryStore \<Rightarrow> string \<times> string" where
  "read_place opts m = (let ro = apply_opts opts ro0 in place (ro_Database ro) (ro_Table ro) m)"

definition write_place :: "(writeOptions \<Rightarrow> writeOptions) list \<Rightarrow> 'c memoryStore \<Rightarrow> string \<times> string" where
  "write_place opts m = (let wo = apply_opts opts wo0 in place (wo_Database wo) (wo_Table wo) m)"

definition delete_place :: "(deleteOptions \<Rightarrow> deleteOptions) list \<Rightarrow> 'c memoryStore \<Rightarrow> string \<times> string" where
  "delete_place opts m = (let d = apply_opts opts do0 in place (do_Database d) (do_Table d) m)"

definition write_expiry :: "int \<Rightarrow> 'm srecord \<Rightarrow> (writeOptions \<Rightarrow> writeOptions) list \<Rightarrow> int" where
  "write_expiry now r opts =
     (let wo = apply_opts opts wo0
      in if wo_TTL wo \<noteq> 0 then wo_TTL wo else case wo_Expiry wo of Some t \<Rightarrow> t - now | None \<Rightarrow> rd_Expiry r)"

definition single_read :: "(readOptions \<Rightarrow> readOptions) list \<Rightarrow> bool" where
  "single_read opts = (let ro = apply_opts opts ro0 in \<not> ro_Prefix ro \<and> \<not> ro_Suffix ro)"

lemma store_prefix_place: "store_prefix m db t = path_join (fst (place db t m)) (snd (place db t m))"
  by (simp add: store_prefix_def place_def)

lemma store_set_options [simp]: "ms_options (store_set kc now p r m) = ms_options m"
  by (simp add: store_set_def Let_def)

lemma store_Write_set:
  "go_map (rd_Metadata r) \<Longrightarrow>
   store_Write kc now r opts m =
     store_set kc (snd now) (path_join (fst (write_place opts m)) (snd (write_place opts m)))
       (r\<lparr>rd_Expiry := write_expiry (fst now) r opts\<rparr>) m"
  by (cases "opts = []")
    (auto simp: store_Write_def write_place_def write_expiry_def store_prefix_place Let_def apply_opts_def
      split: option.splits)

lemma store_Read_get:
  "single_read opts \<Longrightarrow>
   store_Read kc now k opts m =
     Some (case store_get kc now (path_join (fst (read_place opts m)) (snd (read_place opts m))) k m of
             Inl e \<Rightarrow> ([], Some e) | Inr r \<Rightarrow> ([r], None))"
  by (auto simp: store_Read_def single_read_def read_place_def store_prefix_place Let_def split: sum.splits)

lemma read_place_cong: "ms_options m = ms_options m' \<Longrightarrow> read_place opts m = read_place opts m'"
  by (simp add: read_place_def place_def Let_def)

lemma store_Delete_options [simp]: "ms_options (store_Delete kc k opts m) = ms_options m"
  by (simp add: store_Delete_def store_delete_def Let_def)

lemma store_get_Delete:
  assumes "cache_laws kc"
  shows "store_get kc now p k (store_Delete kc k' opts m) =
    (if path_join p k = path_join (path_join (fst (delete_place opts m)) (snd (delete_place opts m))) k'
     then Inl ErrNotFound else store_get kc now p k m)"
  using assms
  by (simp add: store_get_def store_Delete_def store_delete_def store_key_def cache_laws_def delete_place_def
      store_prefix_place Let_def)

section \<open>Listing\<close>

lemma fill_keys_eq:
  assumes "i + length (filter (\<lambda>k. has_prefix k (p @ ''/'')) ks) \<le> length xs"
  shows "fill_keys p ks i xs =
    take i xs @ map (\<lambda>k. trim_prefix k (p @ ''/'')) (filter (\<lambda>k. has_prefix k (p @ ''/'')) ks) @
    drop (i + length (filter (\<lambda>k. has_prefix k (p @ ''/'')) ks)) xs"
  using assms
proof (induction ks arbitrary: i xs)
  case (Cons k ks)
  show ?case
  proof (cases "has_prefix k (p @ ''/'')")
    case True
    let ?xs = "xs[i := trim_prefix k (p @ ''/'')]"
    from Cons.prems True have "i < length xs" by simp
    then have "take (Suc i) ?xs = take i xs @ [trim_prefix k (p @ ''/'')]" by (simp add: take_Suc_conv_app_nth)
    with Cons.IH [of "Suc i" ?xs] Cons.prems True show ?thesis by (simp add: drop_update_cancel)
  next
    case False
    with Cons show ?thesis by simp
  qed
qed simp

definition table_keys :: "('c, 'v) kvcache \<Rightarrow> int \<Rightarrow> string \<Rightarrow> 'c memoryStore \<Rightarrow> string list" where
  "table_keys kc now p m =
     map (\<lambda>k. trim_prefix k (p @ ''/''))
       (filter (\<lambda>k. has_prefix k (p @ ''/'')) (map fst (kc_Items kc now (ms_store m))))"

definition padded_keys :: "('c, 'v) kvcache \<Rightarrow> int \<Rightarrow> string \<Rightarrow> 'c memoryStore \<Rightarrow> string list" where
  "padded_keys kc now p m =
     table_keys kc now p m @ replicate (length (kc_Items kc now (ms_store m)) - length (table_keys kc now p m)) []"

lemma length_padded_keys: "length (padded_keys kc now p m) = length (kc_Items kc now (ms_store m))"
proof -
  have "length (table_keys kc now p m) \<le> length (kc_Items kc now (ms_store m))"
    unfolding table_keys_def by (metis length_filter_le length_map)
  then show ?thesis by (simp add: padded_keys_def)
qed

lemma store_list_eq:
  "store_list kc now p limit offset m =
     (if limit \<noteq> 0 \<or> offset \<noteq> 0 then
        if unat offset \<le> min (unat limit) (length (padded_keys kc now p m))
        then Some (drop (unat offset) (take (unat limit) (sort (padded_keys kc now p m)))) else None
      else Some (padded_keys kc now p m))"
proof -
  let ?items = "kc_Items kc now (ms_store m)"
  have "fill_keys p (map fst ?items) 0 (replicate (length ?items) []) = padded_keys kc now p m"
    by (subst fill_keys_eq) (auto simp: padded_keys_def table_keys_def intro: le_trans [OF length_filter_le])
  then show ?thesis
    using length_padded_keys [of kc now p m]
    by (simp add: store_list_def Let_def min_def)
qed

section \<open>Properties\<close>

text \<open>
  An expiry that is not in the future, and a key that begins with the names of its database and table, are
  not kept: the record stays for ever, and it comes back under another key.
\<close>

lemma past_expiry_stays:
  assumes "cache_laws kc" and "go_map (rd_Metadata r)" and "t \<le> t1" and "t3 \<le> t4"
  shows "kc_Get kc t4 (path_join (path_join (fst (write_place [WriteExpiry (Some t)] m)) (snd (write_place [WriteExpiry (Some t)] m))) (rd_Key r))
    (ms_store (store_Write kc (t1, t2, t3) r [WriteExpiry (Some t)] m)) \<noteq> None"
  using assms by (simp add: store_Write_set write_expiry_def apply_opts_def WriteExpiry_def store_set_def store_key_def cache_laws_def Let_def)

lemma names_cut_from_key:
  assumes "kc_Get kc (fst now) (store_key pfx key) (ms_store m) = Some sr" and "st_key sr = pfx @ ''/'' @ k"
  shows "\<exists>r. store_get kc now pfx key m = Inr r \<and> rd_Key r = k"
  using assms by (simp add: store_get_def trim_prefix_def has_prefix_def)

text \<open>The lifetime that a write asks for is none at all, or it is positive.\<close>

definition proper_expiry :: "int \<Rightarrow> 'm srecord \<Rightarrow> (writeOptions \<Rightarrow> writeOptions) list \<Rightarrow> bool" where
  "proper_expiry now r opts \<longleftrightarrow>
     0 < write_expiry now r opts \<or> write_expiry now r opts = 0 \<and> wo_Expiry (apply_opts opts wo0) = None"

text \<open>
  C30.  Reading after writing, for names without slashes, clean keys that do not themselves begin with the names of the database and
  the table, and a lifetime that is absent or positive when it is asked for: the key that was written, in
  the database and table it was written to, holds exactly the written record (with the time that is left to
  live) until its lifetime has passed, and is not found after that; without a lifetime it stays.  Every other key, table and database reads as before.
\<close>

theorem store_Read_after_Write:
  assumes "cache_laws kc" and "go_map (rd_Metadata r)" and "t3 \<le> t4" and "single_read ropts"
    and "plain_place (write_place wopts m)" and "plain_place (read_place ropts m)"
    and "clean_key (rd_Key r)" and "clean_key k"
    and "\<not> has_prefix (rd_Key r) (fst (write_place wopts m) @ ''/'' @ snd (write_place wopts m) @ ''/'')"
    and "proper_expiry t1 r wopts"
  shows "store_Read kc (t4, t5) k ropts (store_Write kc (t1, t2, t3) r wopts m) =
    (if read_place ropts m = write_place wopts m \<and> k = rd_Key r then
       Some (if write_expiry t1 r wopts = 0 then ([r\<lparr>rd_Expiry := 0\<rparr>], None)
             else if t3 + write_expiry t1 r wopts < t4 then ([], Some ErrNotFound)
             else ([r\<lparr>rd_Expiry := t2 + write_expiry t1 r wopts - t5\<rparr>], None))
     else store_Read kc (t4, t5) k ropts m)"
proof -
  let ?w = "write_place wopts m" and ?r = "read_place ropts m" and ?e = "write_expiry t1 r wopts"
  let ?m = "store_Write kc (t1, t2, t3) r wopts m"
  have m: "?m = store_set kc (t2, t3) (path_join (fst ?w) (snd ?w)) (r\<lparr>rd_Expiry := ?e\<rparr>) m"
    using store_Write_set [OF assms(2), of kc "(t1, t2, t3)" wopts m] by simp
  have rp: "read_place ropts ?m = ?r" by (rule read_place_cong) (simp add: m)
  have same: "path_join (path_join (fst ?r) (snd ?r)) k = path_join (path_join (fst ?w) (snd ?w)) (rd_Key r) \<longleftrightarrow>
      ?r = ?w \<and> k = rd_Key r"
    using full_key_inj [of "fst ?r" "snd ?r" k "fst ?w" "snd ?w" "rd_Key r"] assms(5-8)
    by (simp add: plain_place_def prod_eq_iff)
  have pre: "path_join (fst ?r) (snd ?r) = fst ?r @ ''/'' @ snd ?r"
    using path_join_clean [of "fst ?r" "snd ?r"] assms(6) by (simp add: plain_place_def plain_name_clean)
  have key: "trim_prefix (rd_Key r) ((fst ?w @ ''/'' @ snd ?w) @ ''/'') = rd_Key r" using assms(9) by (simp add: trim_prefix_def)
  have e: "0 \<le> ?e" using assms(10) by (auto simp: proper_expiry_def)
  have get: "kc_Get kc t4 k' (ms_store ?m) =
      (if k' = path_join (path_join (fst ?w) (snd ?w)) (rd_Key r)
       then if 0 < ?e \<and> t3 + ?e < t4 then None
            else Some \<lparr>st_expiresAt = (if ?e \<noteq> 0 then Some (t2 + ?e) else None), st_metadata = rd_Metadata r,
                       st_key = rd_Key r, st_value = rd_Value r\<rparr>
       else kc_Get kc t4 k' (ms_store m))" for k'
    using assms(1-3) by (simp add: m store_set_def store_key_def cache_laws_def)
  show ?thesis
    unfolding store_Read_get [OF assms(4)] rp store_get_def store_key_def fst_conv snd_conv get same
    using pre assms(2) key e by (auto split: option.splits)
qed

theorem store_Read_after_Write_witness:
  "\<exists>(r :: nat srecord) m'. m' = store_Write alist_cache (5, 5, 6) r [WriteTTL 10] (NewMemoryStore alist_cache []) \<and>
     store_Read alist_cache (7, 7) ''k'' [] m' = Some ([r\<lparr>rd_Expiry := 8\<rparr>], None) \<and>
     store_Read alist_cache (17, 17) ''k'' [] m' = Some ([], Some ErrNotFound) \<and>
     store_Read alist_cache (7, 7) ''l'' [] m' = Some ([], Some ErrNotFound)"
proof -
  let ?r = "\<lparr>rd_Metadata = [], rd_Key = ''k'', rd_Value = ''v'', rd_Expiry = 0\<rparr> :: nat srecord"
  let ?m = "NewMemoryStore alist_cache [] :: (string \<times> nat storeRecord \<times> int option) list memoryStore"
  have wp: "write_place [WriteTTL 10] ?m = (''realmicro'', ''realmicro'')"
    and rp: "read_place [] ?m = (''realmicro'', ''realmicro'')"
    by (simp_all add: write_place_def read_place_def place_def NewMemoryStore_def apply_opts_def WriteTTL_def Let_def)
  have e: "write_expiry 5 ?r [WriteTTL 10] = 10" by (simp add: write_expiry_def apply_opts_def WriteTTL_def)
  have laws: "cache_laws (alist_cache :: (_, nat storeRecord) kvcache)" by (rule alist_cache_laws)
  have read: "store_Read alist_cache (t4, t4) k [] (store_Write alist_cache (5, 5, 6) ?r [WriteTTL 10] ?m) =
    (if read_place [] ?m = write_place [WriteTTL 10] ?m \<and> k = rd_Key ?r then
       Some (if write_expiry 5 ?r [WriteTTL 10] = 0 then ([?r\<lparr>rd_Expiry := 0\<rparr>], None)
             else if 6 + write_expiry 5 ?r [WriteTTL 10] < t4 then ([], Some ErrNotFound)
             else ([?r\<lparr>rd_Expiry := 5 + write_expiry 5 ?r [WriteTTL 10] - t4\<rparr>], None))
     else store_Read alist_cache (t4, t4) k [] ?m)"
    if "6 \<le> t4" "clean_key k" for t4 k
    by (rule store_Read_after_Write [OF laws])
      (use that in \<open>simp_all add: wp rp e proper_expiry_def plain_place_def plain_name_def plain_elem_def clean_key_def single_read_def apply_opts_def has_prefix_def\<close>)
  have k: "clean_key ''k''" "clean_key ''l''" by (simp_all add: clean_key_def plain_elem_def)
  have none: "store_Read alist_cache (7, 7) ''l'' [] ?m = Some ([], Some ErrNotFound)"
    by (simp add: store_Read_get single_read_def apply_opts_def store_get_def NewMemoryStore_def alist_cache_def)
  show ?thesis
    using read [OF _ k(1), of 7] read [OF _ k(1), of 17] read [OF _ k(2), of 7] none
    unfolding wp rp e by (intro exI [of _ ?r] exI [of _ "store_Write alist_cache (5, 5, 6) ?r [WriteTTL 10] ?m"]) simp
qed

text \<open>
  What listing returns: without limit and offset, the keys of the table and one empty
  key for every record of another table; with them, the part of the sorted padded list from
  the offset up to the limit (so that at most limit minus offset keys come back), and a panic when the
  offset exceeds the limit or the number of records.  A read by prefix or suffix without a limit
  returns no record at all.
\<close>

lemma store_List_result:
  "store_List kc now [ListFrom d t, ListLimit l, ListOffset n] m =
     (let keys = padded_keys kc now (store_prefix m d t) m
      in if l = 0 \<and> n = 0 then Some keys
         else if unat n \<le> min (unat l) (length (kc_Items kc now (ms_store m)))
         then Some (drop (unat n) (take (unat l) (sort keys)))
         else None) \<and>
   store_Read kc rd k [ReadFrom d t, ReadPrefix] m = Some ([], None)"
proof
  show "store_List kc now [ListFrom d t, ListLimit l, ListOffset n] m =
     (let keys = padded_keys kc now (store_prefix m d t) m
      in if l = 0 \<and> n = 0 then Some keys
         else if unat n \<le> min (unat l) (length (kc_Items kc now (ms_store m)))
         then Some (drop (unat n) (take (unat l) (sort keys)))
         else None)"
    by (auto simp: store_List_def apply_opts_def ListFrom_def ListLimit_def ListOffset_def store_list_eq
        length_padded_keys Let_def)
  show "store_Read kc rd k [ReadFrom d t, ReadPrefix] m = Some ([], None)"
    by (auto simp: store_Read_def apply_opts_def ReadFrom_def ReadPrefix_def store_list_eq read_slice_def Let_def min_def)
qed

end
