(* ===== verification/Conn_Pool.thy ===== *)
theory Conn_Pool
  imports Go_Prelude "HOL-Library.Multiset"
begin

text \<open>
  The client's connection pool, \<open>common/util/pool/default.go\<close>.

  A connection is known by its unique id, the time it was created and the remote address that its
  transport reports.  The transport is a parameter: the outcome of a dial, and for every
  connection whether it closes in time and with which error.  The clock and the uuid are
  arguments.  Each operation returns, beside its results, the connections that it has
  closed.  The mutex makes the operations atomic.
\<close>

section \<open>The model\<close>

record poolConn =
  pc_id :: string
  pc_created :: int
  pc_remote :: string

record pool =
  po_conns :: "(string, poolConn list) go_map"
  po_size :: int
  po_ttl :: int

text \<open>\<open>newPool\<close>: the transport and the close timeout are parameters of the operations.\<close>

definition newPool :: "int \<Rightarrow> int \<Rightarrow> pool" where
  "newPool size' ttl = \<lparr>po_conns = [], po_size = size', po_ttl = ttl\<rparr>"

text \<open>
  The private \<open>close\<close> of a connection: whichever comes first of the timer and the result of the
  transport's \<open>Close\<close>; \<open>cl c\<close> is \<open>None\<close> when the timer comes first.
\<close>

definition conn_close :: "(poolConn \<Rightarrow> string option option) \<Rightarrow> poolConn \<Rightarrow> string option" where
  "conn_close cl c = (case cl c of None \<Rightarrow> Some ''unable to close in time'' | Some err \<Rightarrow> err)"

definition conns_at :: "string \<Rightarrow> pool \<Rightarrow> poolConn list" where
  "conns_at addr p = (case map_of (po_conns p) addr of Some cs \<Rightarrow> cs | None \<Rightarrow> [])"

definition newConn ::
  "(string \<Rightarrow> string + string) \<Rightarrow> int \<Rightarrow> string \<Rightarrow> string \<Rightarrow> string + poolConn" where
  "newConn dial now uuid addr =
     (case dial addr of
        Inl err \<Rightarrow> Inl err
      | Inr remote \<Rightarrow> Inr \<lparr>pc_id = uuid, pc_created = now, pc_remote = remote\<rparr>)"

text \<open>
  The loop of \<open>Get\<close>, over the reversed slice (the code takes connections from its end): what is left
  of the slice, what was closed, and how the loop ended: with a connection, with the
  error of a failed close, or with no connection left.
\<close>

datatype got = Conn poolConn | CloseFailed string | NoConn

fun get_loop ::
  "(poolConn \<Rightarrow> string option option) \<Rightarrow> int \<Rightarrow> int \<Rightarrow> poolConn list \<Rightarrow> poolConn list \<times> poolConn list \<times> got" where
  "get_loop cl ttl now [] = ([], [], NoConn)"
| "get_loop cl ttl now (c # cs) =
     (if now - pc_created c > ttl then
        (case conn_close cl c of
           Some err \<Rightarrow> (cs, [c], CloseFailed err)
         | None \<Rightarrow> (case get_loop cl ttl now cs of (rest, closed, g) \<Rightarrow> (rest, c # closed, g)))
      else (cs, [], Conn c))"

definition pool_Get ::
  "(poolConn \<Rightarrow> string option option) \<Rightarrow> (string \<Rightarrow> string + string) \<Rightarrow> int \<Rightarrow> string \<Rightarrow> string \<Rightarrow> pool
     \<Rightarrow> pool \<times> poolConn list \<times> poolConn option \<times> string option" where
  "pool_Get cl dial now uuid addr p =
     (case get_loop cl (po_ttl p) now (rev (conns_at addr p)) of (rest, closed, g) \<Rightarrow>
        let p' = (if conns_at addr p = [] then p else p\<lparr>po_conns := AList.update addr (rev rest) (po_conns p)\<rparr>)
        in case g of
             Conn c \<Rightarrow> (p', closed, Some c, None)
           | CloseFailed err \<Rightarrow>
               (case newConn dial now uuid addr of
                  Inl errConn \<Rightarrow> (p', closed, None, Some errConn)
                | Inr c \<Rightarrow> (p', closed, Some c, Some err))
           | NoConn \<Rightarrow>
               (case newConn dial now uuid addr of
                  Inl err \<Rightarrow> (p', closed, None, Some err)
                | Inr c \<Rightarrow> (p', closed, Some c, None)))"

definition pool_Release ::
  "(poolConn \<Rightarrow> string option option) \<Rightarrow> poolConn \<Rightarrow> string option \<Rightarrow> pool \<Rightarrow> pool \<times> poolConn list \<times> string option" where
  "pool_Release cl conn err p =
     (if err \<noteq> None then (p, [conn], conn_close cl conn)
      else let conns = conns_at (pc_remote conn) p
           in if int (length conns) \<ge> po_size p then (p, [conn], conn_close cl conn)
              else (p\<lparr>po_conns := AList.update (pc_remote conn) (conns @ [conn]) (po_conns p)\<rparr>, [], None))"

text \<open>\<open>Close\<close>: the error of the last connection that failed to close, in iteration order.\<close>

definition pool_Close ::
  "(poolConn \<Rightarrow> string option option) \<Rightarrow> pool \<Rightarrow> pool \<times> poolConn list \<times> string option" where
  "pool_Close cl p =
     (let cs = concat (map snd (po_conns p));
          err = foldl (\<lambda>err c. case conn_close cl c of Some nerr \<Rightarrow> Some nerr | None \<Rightarrow> err) None cs
      in (p\<lparr>po_conns := foldl (\<lambda>m k. AList.delete k m) (po_conns p) (map fst (po_conns p))\<rparr>, cs, err))"

section \<open>Reachable states\<close>

text \<open>
  The pool together with the connections its clients hold and those that were closed.  Clients
  release connections that they hold; uuids are fresh; the transport and the clock are
  unconstrained.
\<close>

record pool_sys =
  sy_pool :: pool
  sy_out :: "poolConn list"
  sy_closed :: "poolConn list"

definition pooled :: "pool \<Rightarrow> poolConn list" where
  "pooled p = concat (map snd (po_conns p))"

definition all_conns :: "pool_sys \<Rightarrow> poolConn multiset" where
  "all_conns s = mset (pooled (sy_pool s)) + mset (sy_out s) + mset (sy_closed s)"

definition fresh :: "string \<Rightarrow> pool_sys \<Rightarrow> bool" where
  "fresh uuid s \<longleftrightarrow> uuid \<notin> pc_id ` set_mset (all_conns s)"

inductive pool_step :: "pool_sys \<Rightarrow> pool_sys \<Rightarrow> bool" where
  step_Get: "fresh uuid s \<Longrightarrow> pool_Get cl dial now uuid addr (sy_pool s) = (p', closed, res, err) \<Longrightarrow>
     pool_step s \<lparr>sy_pool = p', sy_out = sy_out s @ (case res of Some c \<Rightarrow> [c] | None \<Rightarrow> []), sy_closed = sy_closed s @ closed\<rparr>"
| step_Release: "c \<in> set (sy_out s) \<Longrightarrow> pool_Release cl c err (sy_pool s) = (p', closed, res) \<Longrightarrow>
     pool_step s \<lparr>sy_pool = p', sy_out = remove1 c (sy_out s), sy_closed = sy_closed s @ closed\<rparr>"
| step_Close: "pool_Close cl (sy_pool s) = (p', closed, err) \<Longrightarrow>
     pool_step s \<lparr>sy_pool = p', sy_out = sy_out s, sy_closed = sy_closed s @ closed\<rparr>"

inductive pool_reachable :: "int \<Rightarrow> int \<Rightarrow> pool_sys \<Rightarrow> bool" for size' ttl where
  init: "pool_reachable size' ttl \<lparr>sy_pool = newPool size' ttl, sy_out = [], sy_closed = []\<rparr>"
| step: "pool_reachable size' ttl s \<Longrightarrow> pool_step s s' \<Longrightarrow> pool_reachable size' ttl s'"

section \<open>Lemmas\<close>

lemma mset_pooled_update:
  "go_map m \<Longrightarrow> mset (concat (map snd (AList.update k v m))) + mset (case map_of m k of Some w \<Rightarrow> w | None \<Rightarrow> []) =
     mset (concat (map snd m)) + mset v"
proof (induction m)
  case (Cons p m)
  obtain k' w where p: "p = (k', w)" by (cases p)
  with Cons have "go_map m" by simp
  with Cons.IH p show ?case by (auto simp: ac_simps)
qed simp

lemma pooled_update:
  "go_map (po_conns p) \<Longrightarrow>
     mset (pooled (p\<lparr>po_conns := AList.update addr cs (po_conns p)\<rparr>)) + mset (conns_at addr p) = mset (pooled p) + mset cs"
  using mset_pooled_update [of "po_conns p" addr cs] by (simp add: pooled_def conns_at_def)

lemma get_loop_split:
  "get_loop cl ttl now cs = (rest, closed, g) \<Longrightarrow>
     cs = closed @ (case g of Conn c \<Rightarrow> [c] | _ \<Rightarrow> []) @ rest \<and> (\<forall>c \<in> set closed. ttl < now - pc_created c) \<and>
     (case g of Conn c \<Rightarrow> now - pc_created c \<le> ttl | CloseFailed _ \<Rightarrow> True | NoConn \<Rightarrow> rest = [])"
  by (induction cs arbitrary: rest closed g) (auto split: if_splits option.splits prod.splits)

definition pool_ok :: "int \<Rightarrow> int \<Rightarrow> pool \<Rightarrow> bool" where
  "pool_ok size' ttl p \<longleftrightarrow> po_size p = size' \<and> po_ttl p = ttl \<and> go_map (po_conns p) \<and>
     list_all (\<lambda>(addr, cs). int (length cs) \<le> max 0 size' \<and> list_all (\<lambda>c. pc_remote c = addr) cs) (po_conns p)"

lemma pool_ok_at:
  "pool_ok size' ttl p \<Longrightarrow> int (length (conns_at addr p)) \<le> max 0 size' \<and> list_all (\<lambda>c. pc_remote c = addr) (conns_at addr p)"
  by (auto simp: pool_ok_def conns_at_def split: option.splits dest: list_all_map_of)

lemma pool_ok_update:
  "pool_ok size' ttl p \<Longrightarrow> int (length cs) \<le> max 0 size' \<Longrightarrow> list_all (\<lambda>c. pc_remote c = addr) cs \<Longrightarrow>
     pool_ok size' ttl (p\<lparr>po_conns := AList.update addr cs (po_conns p)\<rparr>)"
  by (auto simp: pool_ok_def intro!: go_map_intros)

text \<open>\<open>Get\<close>: what becomes of the connections at the address.\<close>

lemma pool_Get_cases:
  assumes "pool_Get cl dial now uuid addr p = (p', closed, res, err)"
  obtains rest g where
    "get_loop cl (po_ttl p) now (rev (conns_at addr p)) = (rest, closed, g)"
    "p' = (if conns_at addr p = [] then p else p\<lparr>po_conns := AList.update addr (rev rest) (po_conns p)\<rparr>)"
    "case g of
       Conn c \<Rightarrow> res = Some c \<and> err = None
     | CloseFailed e \<Rightarrow> (case newConn dial now uuid addr of Inl e' \<Rightarrow> res = None \<and> err = Some e' | Inr c \<Rightarrow> res = Some c \<and> err = Some e)
     | NoConn \<Rightarrow> (case newConn dial now uuid addr of Inl e' \<Rightarrow> res = None \<and> err = Some e' | Inr c \<Rightarrow> res = Some c \<and> err = None)"
proof -
  obtain rest closed' g where l: "get_loop cl (po_ttl p) now (rev (conns_at addr p)) = (rest, closed', g)"
    by (cases "get_loop cl (po_ttl p) now (rev (conns_at addr p))") auto
  with assms show ?thesis
    by (intro that [of rest g]) (auto simp: pool_Get_def Let_def split: got.splits sum.splits)
qed

lemma newConn_new: "newConn dial now uuid addr = Inr c \<Longrightarrow> pc_id c = uuid \<and> pc_created c = now"
  by (auto simp: newConn_def split: sum.splits)

lemma pool_Get_conserves:
  assumes ok: "pool_ok size' ttl p" and get: "pool_Get cl dial now uuid addr p = (p', closed, res, err)"
  shows "pool_ok size' ttl p' \<and>
    (\<exists>new. mset (pooled p') + mset closed + mset (case res of Some c \<Rightarrow> [c] | None \<Rightarrow> []) = mset (pooled p) + mset new \<and>
      (new = [] \<or> (\<exists>c. new = [c] \<and> pc_id c = uuid)))"
proof -
  from get obtain rest g where l: "get_loop cl (po_ttl p) now (rev (conns_at addr p)) = (rest, closed, g)"
    and p': "p' = (if conns_at addr p = [] then p else p\<lparr>po_conns := AList.update addr (rev rest) (po_conns p)\<rparr>)"
    and g: "case g of
       Conn c \<Rightarrow> res = Some c \<and> err = None
     | CloseFailed e \<Rightarrow> (case newConn dial now uuid addr of Inl e' \<Rightarrow> res = None \<and> err = Some e' | Inr c \<Rightarrow> res = Some c \<and> err = Some e)
     | NoConn \<Rightarrow> (case newConn dial now uuid addr of Inl e' \<Rightarrow> res = None \<and> err = Some e' | Inr c \<Rightarrow> res = Some c \<and> err = None)"
    by (rule pool_Get_cases)
  let ?taken = "case g of Conn c \<Rightarrow> [c] | _ \<Rightarrow> []"
  from get_loop_split [OF l] have cs: "rev (conns_at addr p) = closed @ ?taken @ rest" by blast
  then have cs': "conns_at addr p = rev rest @ rev ?taken @ rev closed" by (simp add: rev_swap)
  have "pool_ok size' ttl p'"
    using pool_ok_at [OF ok, of addr] pool_ok_update [OF ok, of "rev rest" addr] ok p'
    by (auto simp: cs' list_all_iff)
  moreover have "mset (pooled p') + mset closed + mset ?taken = mset (pooled p)"
  proof (cases "conns_at addr p = []")
    case True
    then show ?thesis using p' cs by simp
  next
    case False
    have "go_map (po_conns p)" using ok by (simp add: pool_ok_def)
    from pooled_update [OF this, of addr "rev rest"] have
      "mset (pooled p') + mset closed + mset ?taken + mset rest = mset (pooled p) + mset rest"
      using False p' by (simp add: cs' ac_simps)
    then show ?thesis by simp
  qed
  moreover have "\<exists>new. mset (case res of Some c \<Rightarrow> [c] | None \<Rightarrow> []) = mset ?taken + mset new \<and>
      (new = [] \<or> (\<exists>c. new = [c] \<and> pc_id c = uuid))"
  proof (cases g)
    case (Conn c)
    then show ?thesis using g by (intro exI [of _ "[]"]) simp
  qed (use g newConn_new in \<open>auto split: sum.splits\<close>)
  ultimately show ?thesis by (metis add.assoc)
qed

lemma pool_Release_conserves:
  assumes ok: "pool_ok size' ttl p" and rel: "pool_Release cl c err p = (p', closed, res)"
  shows "pool_ok size' ttl p' \<and> mset (pooled p') + mset closed = mset (pooled p) + {#c#}"
proof (cases "err \<noteq> None \<or> int (length (conns_at (pc_remote c) p)) \<ge> po_size p")
  case True
  then show ?thesis using ok rel by (auto simp: pool_Release_def Let_def split: if_splits)
next
  case False
  let ?a = "pc_remote c"
  from False rel have p': "p' = p\<lparr>po_conns := AList.update ?a (conns_at ?a p @ [c]) (po_conns p)\<rparr>" "closed = []"
    by (auto simp: pool_Release_def Let_def)
  have "go_map (po_conns p)" "po_size p = size'" using ok by (simp_all add: pool_ok_def)
  with pooled_update [of p ?a "conns_at ?a p @ [c]"] have
    "mset (pooled p') + mset (conns_at ?a p) = mset (pooled p) + {#c#} + mset (conns_at ?a p)" by (simp add: p')
  moreover have "pool_ok size' ttl p'"
    unfolding p'(1) using pool_ok_at [OF ok, of ?a] False \<open>po_size p = size'\<close>
    by (intro pool_ok_update [OF ok]) auto
  ultimately show ?thesis using p'(2) by simp
qed

lemma delete_all_keys: "foldl (\<lambda>m k. AList.delete k m) m ks = filter (\<lambda>p. fst p \<notin> set ks) m"
  by (induction ks arbitrary: m) (auto simp: AList.delete_eq intro: filter_cong)

lemma pool_Close_conserves:
  assumes "pool_ok size' ttl p" and "pool_Close cl p = (p', closed, err)"
  shows "pool_ok size' ttl p' \<and> mset (pooled p') + mset closed = mset (pooled p)"
proof -
  have "filter (\<lambda>q. fst q \<notin> fst ` set (po_conns p)) (po_conns p) = []"
    by (auto simp: filter_empty_conv)
  with assms show ?thesis by (auto simp: pool_Close_def Let_def delete_all_keys pool_ok_def pooled_def)
qed

definition sys_ok :: "int \<Rightarrow> int \<Rightarrow> pool_sys \<Rightarrow> bool" where
  "sys_ok size' ttl s \<longleftrightarrow> pool_ok size' ttl (sy_pool s) \<and> (\<forall>i. count (image_mset pc_id (all_conns s)) i \<le> 1)"

lemma all_conns_make [simp]:
  "all_conns \<lparr>sy_pool = p, sy_out = os, sy_closed = cs\<rparr> = mset (pooled p) + mset os + mset cs"
  by (simp add: all_conns_def)

lemma pool_step_ok: "pool_step s s' \<Longrightarrow> sys_ok size' ttl s \<Longrightarrow> sys_ok size' ttl s'"
proof (induction rule: pool_step.induct)
  case (step_Get uuid s cl dial now addr p' closed res err)
  then have "pool_ok size' ttl (sy_pool s)" by (simp add: sys_ok_def)
  from pool_Get_conserves [OF this step_Get(2)] obtain new where
    ok: "pool_ok size' ttl p'"
    and eq: "mset (pooled p') + mset closed + mset (case res of Some c \<Rightarrow> [c] | None \<Rightarrow> []) = mset (pooled (sy_pool s)) + mset new"
    and new: "new = [] \<or> (\<exists>c. new = [c] \<and> pc_id c = uuid)" by blast
  let ?s' = "\<lparr>sy_pool = p', sy_out = sy_out s @ (case res of Some c \<Rightarrow> [c] | None \<Rightarrow> []), sy_closed = sy_closed s @ closed\<rparr>"
  have "all_conns ?s' = (mset (pooled p') + mset closed + mset (case res of Some c \<Rightarrow> [c] | None \<Rightarrow> [])) +
      mset (sy_out s) + mset (sy_closed s)" by (simp add: ac_simps)
  also have "\<dots> = all_conns s + mset new" unfolding eq by (simp add: all_conns_def ac_simps)
  finally have all: "all_conns ?s' = all_conns s + mset new" .
  have "count (image_mset pc_id (all_conns s)) uuid = 0"
    using step_Get(1) by (simp add: fresh_def count_eq_zero_iff)
  then have "count (image_mset pc_id (all_conns ?s')) i \<le> 1" for i
    using new step_Get(3) unfolding all by (auto simp: sys_ok_def)
  with ok show ?case by (simp add: sys_ok_def)
next
  case (step_Release c s cl err p' closed res)
  then have "pool_ok size' ttl (sy_pool s)" by (simp add: sys_ok_def)
  from pool_Release_conserves [OF this step_Release(2)] have ok: "pool_ok size' ttl p'"
    and eq: "mset (pooled p') + mset closed = mset (pooled (sy_pool s)) + {#c#}" by auto
  have "{#c#} + mset (remove1 c (sy_out s)) = mset (sy_out s)" using step_Release(1) by simp
  note out = this
  have "all_conns \<lparr>sy_pool = p', sy_out = remove1 c (sy_out s), sy_closed = sy_closed s @ closed\<rparr> =
      (mset (pooled p') + mset closed) + mset (remove1 c (sy_out s)) + mset (sy_closed s)"
    by (simp only: all_conns_make mset_append ac_simps)
  also have "\<dots> = all_conns s" unfolding eq all_conns_def out [symmetric] by (simp only: ac_simps)
  finally have "all_conns \<lparr>sy_pool = p', sy_out = remove1 c (sy_out s), sy_closed = sy_closed s @ closed\<rparr> = all_conns s" .
  with ok step_Release(3) show ?case by (simp add: sys_ok_def)
next
  case (step_Close cl s p' closed err)
  then have "pool_ok size' ttl (sy_pool s)" by (simp add: sys_ok_def)
  from pool_Close_conserves [OF this step_Close(1)] have ok: "pool_ok size' ttl p'"
    and eq: "mset (pooled p') + mset closed = mset (pooled (sy_pool s))" by auto
  have "all_conns \<lparr>sy_pool = p', sy_out = sy_out s, sy_closed = sy_closed s @ closed\<rparr> = all_conns s"
    unfolding all_conns_def eq [symmetric] by (simp add: ac_simps)
  with ok step_Close(2) show ?case by (simp add: sys_ok_def)
qed

lemma pool_reachable_ok: "pool_reachable size' ttl s \<Longrightarrow> sys_ok size' ttl s"
proof (induction rule: pool_reachable.induct)
  case init
  then show ?case by (simp add: sys_ok_def newPool_def pool_ok_def pooled_def)
next
  case (step s s')
  then show ?case by (blast intro: pool_step_ok)
qed

lemma distinct_count: "(\<forall>x. count (mset xs) x \<le> 1) \<longleftrightarrow> distinct xs"
proof -
  have "count (mset xs) x \<le> 1 \<longleftrightarrow> count (mset xs) x = (if x \<in> set xs then 1 else 0)" for x
    using count_mset_0_iff [of xs x] by (cases "x \<in> set xs") (auto simp: le_Suc_eq)
  then show ?thesis by (simp add: distinct_count_atmost_1)
qed

section \<open>Properties\<close>

text \<open>
  C26.  In every reachable state of the pool and its clients: no connection is twice in the pool, or
  in the pool and in a client's hands, or used in either way after it was closed; no address has more
  idle connections than the size of the pool; and an idle connection is kept under its own
  remote address.  A \<open>Get\<close> then hands out a connection that was idle at the
  address and not older than the time to live, or a newly dialled one.
\<close>

theorem pool_reachable_safe:
  assumes "pool_reachable size' ttl s"
  shows "distinct (map pc_id (pooled (sy_pool s) @ sy_out s @ sy_closed s)) \<and>
    length (conns_at addr (sy_pool s)) \<le> nat size' \<and>
    list_all (\<lambda>c. pc_remote c = addr) (conns_at addr (sy_pool s)) \<and>
    (case pool_Get cl dial now uuid addr (sy_pool s) of
       (_, _, Some c, err) \<Rightarrow>
         (c \<in> set (conns_at addr (sy_pool s)) \<and> now - pc_created c \<le> ttl \<and> err = None) \<or>
         (pc_id c = uuid \<and> pc_created c = now)
     | (_, _, None, err) \<Rightarrow> err \<noteq> None)"
proof -
  let ?p = "sy_pool s"
  from pool_reachable_ok [OF assms] have ok: "pool_ok size' ttl ?p"
    and "\<forall>i. count (image_mset pc_id (all_conns s)) i \<le> 1" by (simp_all add: sys_ok_def)
  moreover have "image_mset pc_id (all_conns s) = mset (map pc_id (pooled ?p @ sy_out s @ sy_closed s))"
    by (simp add: all_conns_def)
  ultimately have distinct: "distinct (map pc_id (pooled ?p @ sy_out s @ sy_closed s))"
    by (simp only: distinct_count)
  obtain p' closed res err where get: "pool_Get cl dial now uuid addr ?p = (p', closed, res, err)"
    by (cases "pool_Get cl dial now uuid addr ?p") auto
  from get obtain rest g where l: "get_loop cl (po_ttl ?p) now (rev (conns_at addr ?p)) = (rest, closed, g)"
    and g: "case g of
       Conn c \<Rightarrow> res = Some c \<and> err = None
     | CloseFailed e \<Rightarrow> (case newConn dial now uuid addr of Inl e' \<Rightarrow> res = None \<and> err = Some e' | Inr c \<Rightarrow> res = Some c \<and> err = Some e)
     | NoConn \<Rightarrow> (case newConn dial now uuid addr of Inl e' \<Rightarrow> res = None \<and> err = Some e' | Inr c \<Rightarrow> res = Some c \<and> err = None)"
    by (rule pool_Get_cases)
  have "po_ttl ?p = ttl" using ok by (simp add: pool_ok_def)
  moreover have "c \<in> set (conns_at addr ?p) \<and> now - pc_created c \<le> po_ttl ?p" if "g = Conn c" for c
  proof -
    from get_loop_split [OF l] that have "rev (conns_at addr ?p) = closed @ [c] @ rest" "now - pc_created c \<le> po_ttl ?p"
      by auto
    then have "c \<in> set (rev (conns_at addr ?p))" by simp
    with \<open>now - pc_created c \<le> po_ttl ?p\<close> show ?thesis by simp
  qed
  ultimately have "case (p', closed, res, err) of
       (_, _, Some c, err) \<Rightarrow>
         (c \<in> set (conns_at addr ?p) \<and> now - pc_created c \<le> ttl \<and> err = None) \<or> (pc_id c = uuid \<and> pc_created c = now)
     | (_, _, None, err) \<Rightarrow> err \<noteq> None"
    using g newConn_new [of dial now uuid addr] by (cases g) (auto split: sum.splits)
  moreover have "length (conns_at addr ?p) \<le> nat size'" using pool_ok_at [OF ok, of addr] by linarith
  ultimately show ?thesis using distinct pool_ok_at [OF ok, of addr] get by simp
qed

theorem pool_reachable_safe_witness:
  "\<exists>s c. pool_reachable 1 10 s \<and> conns_at ''a'' (sy_pool s) = [c] \<and> sy_out s = [] \<and>
     length (conns_at ''a'' (sy_pool s)) \<le> 1 \<and> pc_remote c = ''a''"
proof -
  let ?cl = "\<lambda>_ :: poolConn. Some None :: string option option" and ?dial = "\<lambda>a. Inr a :: string + string"
  let ?c = "\<lparr>pc_id = ''u'', pc_created = 0, pc_remote = ''a''\<rparr>"
  let ?s0 = "\<lparr>sy_pool = newPool 1 10, sy_out = [], sy_closed = []\<rparr>"
  let ?s1 = "\<lparr>sy_pool = newPool 1 10, sy_out = [?c], sy_closed = []\<rparr>"
  let ?s2 = "\<lparr>sy_pool = (newPool 1 10)\<lparr>po_conns := [(''a'', [?c])]\<rparr>, sy_out = [], sy_closed = []\<rparr>"
  have "pool_Get ?cl ?dial 0 ''u'' ''a'' (newPool 1 10) = (newPool 1 10, [], Some ?c, None)"
    by (simp add: pool_Get_def newPool_def conns_at_def newConn_def)
  from step_Get [of "''u''" ?s0, simplified, OF _ this] have "pool_step ?s0 ?s1"
    by (simp add: fresh_def pooled_def newPool_def)
  moreover have "pool_Release ?cl ?c None (newPool 1 10) = ((newPool 1 10)\<lparr>po_conns := [(''a'', [?c])]\<rparr>, [], None)"
    by (simp add: pool_Release_def newPool_def conns_at_def)
  from step_Release [of ?c ?s1, simplified, OF this] have "pool_step ?s1 ?s2" by simp
  ultimately have r: "pool_reachable 1 10 ?s2" by (meson pool_reachable.intros)
  from pool_reachable_safe [OF r, where addr = "''a''" and cl = ?cl and dial = ?dial and now = 0 and uuid = "''v''"] r show ?thesis
    by (intro exI [of _ ?s2] exI [of _ ?c]) (simp add: conns_at_def)
qed

end
