(* ===== verification/Rpc_Client.thy ===== *)
theory Rpc_Client
  imports Node_Selector Micro_Errors
begin

text \<open>
  The retry logic of the RPC client, \<open>client/rpc_client.go\<close> (\<open>next\<close>, \<open>Call\<close> and \<open>Stream\<close>), with
  \<open>client/retry.go\<close>, the call options it uses and \<open>net.Proxy\<close> of \<open>common/util/net/net.go\<close>.

  Everything outside the loop is a parameter that acts on a world \<open>'w\<close>: the selector, the low-level
  call, sleeping, the clock, the process environment, and the outcome of the \<open>select\<close> between the
  context and the result channel of attempt \<open>i\<close> (\<open>ce_done\<close>; when it is true the result
  of that attempt is not waited for, and the effects of the goroutine that still runs are not part of
  the returned world).  Outer \<open>None\<close> is a panic: of the selector's index, or of
  \<open>make(chan error, retries+1)\<close> with a negative size.
\<close>

section \<open>Options and environment\<close>

type_synonym ('w, 'r) callfn = "int \<Rightarrow> node \<Rightarrow> 'w \<Rightarrow> 'w \<times> (err + 'r)"

record ('w, 'r) callOptions =
  co_Backoff :: "int \<Rightarrow> string + int"
  co_Retry :: "int \<Rightarrow> err \<Rightarrow> bool \<times> err option"
  co_Address :: "string list"
  co_CallWrappers :: "(('w, 'r) callfn \<Rightarrow> ('w, 'r) callfn) list"
  co_RequestTimeout :: int
  co_Retries :: int

definition WithAddress :: "string list \<Rightarrow> ('w, 'r) callOptions \<Rightarrow> ('w, 'r) callOptions" where
  "WithAddress a c = c\<lparr>co_Address := a\<rparr>"
definition WithCallWrapper ::
  "(('w, 'r) callfn \<Rightarrow> ('w, 'r) callfn) list \<Rightarrow> ('w, 'r) callOptions \<Rightarrow> ('w, 'r) callOptions" where
  "WithCallWrapper cw c = c\<lparr>co_CallWrappers := co_CallWrappers c @ cw\<rparr>"
definition WithBackoff :: "(int \<Rightarrow> string + int) \<Rightarrow> ('w, 'r) callOptions \<Rightarrow> ('w, 'r) callOptions" where
  "WithBackoff fn c = c\<lparr>co_Backoff := fn\<rparr>"
definition WithRetry :: "(int \<Rightarrow> err \<Rightarrow> bool \<times> err option) \<Rightarrow> ('w, 'r) callOptions \<Rightarrow> ('w, 'r) callOptions" where
  "WithRetry fn c = c\<lparr>co_Retry := fn\<rparr>"
definition WithRetries :: "int \<Rightarrow> ('w, 'r) callOptions \<Rightarrow> ('w, 'r) callOptions" where
  "WithRetries i c = c\<lparr>co_Retries := i\<rparr>"
definition WithRequestTimeout :: "int \<Rightarrow> ('w, 'r) callOptions \<Rightarrow> ('w, 'r) callOptions" where
  "WithRequestTimeout d c = c\<lparr>co_RequestTimeout := d\<rparr>"

definition RetryAlways :: "int \<Rightarrow> err \<Rightarrow> bool \<times> err option" where
  "RetryAlways retryCount err = (True, None)"

type_synonym 'w next_fn = "'w \<Rightarrow> 'w \<times> (select_error + node)"

record 'w call_env =
  ce_getenv :: "string \<Rightarrow> string"
  ce_select :: "string \<Rightarrow> 'w \<Rightarrow> 'w \<times> (select_error + 'w next_fn)"
  ce_mark :: "string \<Rightarrow> node \<Rightarrow> err option \<Rightarrow> 'w \<Rightarrow> 'w"
  ce_sleep :: "int \<Rightarrow> 'w \<Rightarrow> 'w"
  ce_now :: "'w \<Rightarrow> int"
  ce_deadline :: "int option"
  ce_expired :: bool
  ce_done :: "int \<Rightarrow> 'w \<Rightarrow> bool"
  ce_ctxErr :: string

definition packageID :: string where "packageID = ''real.micro.client''"

fun sel_text :: "select_error \<Rightarrow> string" where
  "sel_text SelNotFound = ''not found''"
| "sel_text ErrNoneAvailable = ''none available''"
| "sel_text (SelErr Memory_Registry.ErrNotFound) = ''service not found''"
| "sel_text (SelErr ErrWatcherStopped) = ''watcher stopped''"
| "sel_text (SelErr (ErrOther s)) = s"
| "sel_text _ = []"

section \<open>Choosing the nodes\<close>

definition net_Proxy :: "(string \<Rightarrow> string) \<Rightarrow> string \<Rightarrow> string list \<Rightarrow> string \<times> string list \<times> bool" where
  "net_Proxy getenv service address =
     (let prx = getenv ''MICRO_PROXY''
      in if length prx > 0 then
           (let address = (if prx = ''service'' then [] else address);
                prx = (if prx = ''service'' then ''real.micro.proxy'' else prx);
                address = (if length (go_split (CHR '':'') prx) > 1 then [prx] else address)
            in (prx, address, True))
         else
           (let net = getenv ''MICRO_NETWORK'';
                (service, hasProxy) =
                  (if length net > 0
                   then (if net = ''service'' then ''real.micro.network'' else net, True)
                   else (service, False));
                addr = getenv ''MICRO_NETWORK_ADDRESS''
            in if length addr > 0 then (service, [addr], True) else (service, address, hasProxy)))"

definition address_node :: "string \<Rightarrow> node" where
  "address_node addr = \<lparr>nd_Metadata = Some [(''protocol'', ''mucp'')], nd_Id = [], nd_Address = addr, nd_Port = 0\<rparr>"

definition client_next ::
  "'w call_env \<Rightarrow> string \<Rightarrow> string list \<Rightarrow> 'w \<Rightarrow> 'w \<times> (err + 'w next_fn)" where
  "client_next env request address w =
     (let (service, address, _) = net_Proxy (ce_getenv env) request address
      in if length address > 0 then
           (let nodes = map address_node address
            in (w, Inr (\<lambda>w. (w, index_node nodes (go_rem (ce_now env w div 1000000000) (int (length nodes)))))))
         else
           (case ce_select env service w of
              (w, Inl SelNotFound) \<Rightarrow>
                (w, Inl (InternalServerError packageID ''service %s: %s'' [service, sel_text SelNotFound]))
            | (w, Inl e) \<Rightarrow>
                (w, Inl (InternalServerError packageID ''error selecting %s node: %s'' [service, sel_text e]))
            | (w, Inr nxt) \<Rightarrow> (w, Inr nxt)))"

section \<open>One attempt and the loop\<close>

definition attempt ::
  "'w call_env \<Rightarrow> (int \<Rightarrow> string + int) \<Rightarrow> string \<Rightarrow> 'w next_fn \<Rightarrow> (node \<Rightarrow> 'w \<Rightarrow> 'w \<times> (err + 'r)) \<Rightarrow> int \<Rightarrow> 'w
     \<Rightarrow> ('w \<times> (err + 'r)) option" where
  "attempt env boff service nxt send i w =
     (case boff i of
        Inl e \<Rightarrow> Some (w, Inl (InternalServerError packageID ''backoff error: %v'' [e]))
      | Inr t \<Rightarrow>
          (let w = (if t > 0 then ce_sleep env t w else w)
           in case nxt w of
                (_, Inl Panic_index) \<Rightarrow> None
              | (w, Inl SelNotFound) \<Rightarrow>
                  Some (w, Inl (InternalServerError packageID ''service %s: %s'' [service, sel_text SelNotFound]))
              | (w, Inl e) \<Rightarrow>
                  Some (w, Inl (InternalServerError packageID ''error getting next %s node: %s'' [service, sel_text e]))
              | (w, Inr node) \<Rightarrow>
                  (case send node w of
                     (w, r) \<Rightarrow> Some (ce_mark env service node (case r of Inl e \<Rightarrow> Some e | Inr _ \<Rightarrow> None) w, r))))"

text \<open>
  The loop from attempt \<open>i\<close> with \<open>n\<close> attempts left.  \<open>Inr\<close>: an attempt succeeded; \<open>Inl\<close>: the error
  that is returned (\<open>None\<close>: nil).
\<close>

fun call_loop ::
  "(int \<Rightarrow> 'w \<Rightarrow> ('w \<times> (err + 'r)) option) \<Rightarrow> (int \<Rightarrow> 'w \<Rightarrow> bool) \<Rightarrow> string \<Rightarrow> (int \<Rightarrow> err \<Rightarrow> bool \<times> err option)
     \<Rightarrow> nat \<Rightarrow> int \<Rightarrow> err option \<Rightarrow> 'w \<Rightarrow> ('w \<times> (err option + 'r)) option" where
  "call_loop call done' ctxErr retry 0 i gerr w = Some (w, Inl gerr)"
| "call_loop call done' ctxErr retry (Suc n) i gerr w =
     (if done' i w then Some (w, Inl (Some (Timeout packageID (''call timeout: '' @ ctxErr) [])))
      else case call i w of
        None \<Rightarrow> None
      | Some (w, Inr r) \<Rightarrow> Some (w, Inr r)
      | Some (w, Inl e) \<Rightarrow>
          (case retry i e of
             (_, Some rerr) \<Rightarrow> Some (w, Inl (Some rerr))
           | (retry', None) \<Rightarrow>
               if \<not> retry' then Some (w, Inl (Some e))
               else call_loop call done' ctxErr retry n (i + 1) (Some e) w))"

text \<open>\<open>for i := len(callWrappers); i > 0; i-- { rcall = callWrappers[i-1](rcall) }\<close>.\<close>

fun wrap_loop :: "('f \<Rightarrow> 'f) list \<Rightarrow> nat \<Rightarrow> 'f \<Rightarrow> 'f" where
  "wrap_loop ws 0 f = f"
| "wrap_loop ws (Suc i) f = wrap_loop ws i ((ws ! i) f)"

definition rpc_Call ::
  "'w call_env \<Rightarrow> ('w, unit) callOptions \<Rightarrow> (('w, unit) callOptions \<Rightarrow> ('w, unit) callOptions) list
     \<Rightarrow> ('w, unit) callfn \<Rightarrow> string \<Rightarrow> 'w \<Rightarrow> ('w \<times> err option) option" where
  "rpc_Call env base opts call service w =
     (let callOpts = foldl (\<lambda>o' f. f o') base opts
      in case client_next env service (co_Address callOpts) w of
           (w, Inl err) \<Rightarrow> Some (w, Some err)
         | (w, Inr nxt) \<Rightarrow>
             (let callOpts = (case ce_deadline env of
                                None \<Rightarrow> callOpts
                              | Some d \<Rightarrow> WithRequestTimeout (d - ce_now env w) callOpts)
              in if ce_expired env then Some (w, Some (Timeout packageID (ce_ctxErr env) []))
                 else
                   (let rcall = wrap_loop (co_CallWrappers callOpts) (length (co_CallWrappers callOpts)) call;
                        retries = co_Retries callOpts
                    in if retries + 1 < 0 then None
                       else map_option (\<lambda>(w, r). (w, case r of Inl e \<Rightarrow> e | Inr _ \<Rightarrow> None))
                         (call_loop (attempt env (co_Backoff callOpts) service nxt (rcall (co_RequestTimeout callOpts)))
                            (ce_done env) (ce_ctxErr env) (co_Retry callOpts) (nat (retries + 1)) 0 None w))))"

definition rpc_Stream ::
  "'w call_env \<Rightarrow> ('w, 's) callOptions \<Rightarrow> (('w, 's) callOptions \<Rightarrow> ('w, 's) callOptions) list
     \<Rightarrow> ('w, 's) callfn \<Rightarrow> string \<Rightarrow> 'w \<Rightarrow> ('w \<times> (err option + 's)) option" where
  "rpc_Stream env base opts stream service w =
     (let callOpts = foldl (\<lambda>o' f. f o') base opts
      in case client_next env service (co_Address callOpts) w of
           (w, Inl err) \<Rightarrow> Some (w, Inl (Some err))
         | (w, Inr nxt) \<Rightarrow>
             if ce_expired env then Some (w, Inl (Some (Timeout packageID (ce_ctxErr env) [])))
             else
               (let retries = (if snd (snd (net_Proxy (ce_getenv env) service (co_Address callOpts)))
                               then 0 else co_Retries callOpts)
                in if retries + 1 < 0 then None
                   else call_loop (attempt env (co_Backoff callOpts) service nxt (stream (co_RequestTimeout callOpts)))
                          (ce_done env) (ce_ctxErr env) (co_Retry callOpts) (nat (retries + 1)) 0 None w))"

section \<open>The run of the loop\<close>

lemma wrap_loop_foldr: "i \<le> length ws \<Longrightarrow> wrap_loop ws i f = foldr (\<lambda>w f. w f) (take i ws) f"
  by (induction ws i f rule: wrap_loop.induct) (auto simp: take_Suc_conv_app_nth)

text \<open>The world before attempt \<open>i + k\<close> when the attempts before it were all made.\<close>

fun world_at :: "(int \<Rightarrow> 'w \<Rightarrow> ('w \<times> (err + 'r)) option) \<Rightarrow> int \<Rightarrow> nat \<Rightarrow> 'w \<Rightarrow> 'w option" where
  "world_at call i 0 w = Some w"
| "world_at call i (Suc k) w = (case call i w of None \<Rightarrow> None | Some (w', _) \<Rightarrow> world_at call (i + 1) k w')"

lemma world_at_const: "(\<And>i w. call i w = Some (w, r)) \<Longrightarrow> world_at call i k w = Some w"
  by (induction k arbitrary: i) simp_all

text \<open>An attempt that failed and is to be repeated.\<close>

definition goes_on ::
  "(int \<Rightarrow> 'w \<Rightarrow> ('w \<times> (err + 'r)) option) \<Rightarrow> (int \<Rightarrow> 'w \<Rightarrow> bool) \<Rightarrow> (int \<Rightarrow> err \<Rightarrow> bool \<times> err option) \<Rightarrow> int \<Rightarrow> 'w \<Rightarrow> bool" where
  "goes_on call done' retry i w \<longleftrightarrow> \<not> done' i w \<and>
     (case call i w of Some (_, Inl e) \<Rightarrow> retry i e = (True, None) | _ \<Rightarrow> False)"

text \<open>What the loop returns when it ends with attempt \<open>i\<close>.\<close>

definition ends_with ::
  "(int \<Rightarrow> 'w \<Rightarrow> ('w \<times> (err + 'r)) option) \<Rightarrow> (int \<Rightarrow> 'w \<Rightarrow> bool) \<Rightarrow> string \<Rightarrow> (int \<Rightarrow> err \<Rightarrow> bool \<times> err option)
     \<Rightarrow> int \<Rightarrow> 'w \<Rightarrow> ('w \<times> (err option + 'r)) option" where
  "ends_with call done' ctxErr retry i w =
     (if done' i w then Some (w, Inl (Some (Timeout packageID (''call timeout: '' @ ctxErr) [])))
      else case call i w of
        None \<Rightarrow> None
      | Some (w', Inr r) \<Rightarrow> Some (w', Inr r)
      | Some (w', Inl e) \<Rightarrow> Some (w', Inl (Some (case snd (retry i e) of Some rerr \<Rightarrow> rerr | None \<Rightarrow> e))))"

definition run_ok ::
  "(int \<Rightarrow> 'w \<Rightarrow> ('w \<times> (err + 'r)) option) \<Rightarrow> (int \<Rightarrow> 'w \<Rightarrow> bool) \<Rightarrow> (int \<Rightarrow> err \<Rightarrow> bool \<times> err option)
     \<Rightarrow> int \<Rightarrow> nat \<Rightarrow> 'w \<Rightarrow> bool" where
  "run_ok call done' retry i k w \<longleftrightarrow>
     list_all (\<lambda>j. case world_at call i j w of None \<Rightarrow> False | Some v \<Rightarrow> goes_on call done' retry (i + int j) v) [0..<k]"

lemma run_ok_Suc:
  assumes "goes_on call done' retry i w" and "call i w = Some (w', r)" and "run_ok call done' retry (i + 1) k w'"
  shows "run_ok call done' retry i (Suc k) w"
proof -
  have "(case world_at call i j w of None \<Rightarrow> False | Some v \<Rightarrow> goes_on call done' retry (i + int j) v)"
    if "j < Suc k" for j
  proof (cases j)
    case 0
    then show ?thesis using assms(1) by simp
  next
    case (Suc m)
    then have "i + int j = (i + 1) + int m" by simp
    moreover have "case world_at call (i + 1) m w' of None \<Rightarrow> False | Some v \<Rightarrow> goes_on call done' retry ((i + 1) + int m) v"
      using assms(3) that Suc by (simp add: run_ok_def list_all_iff)
    ultimately show ?thesis using assms(2) Suc by (simp only: world_at.simps option.case prod.case)
  qed
  then show ?thesis by (simp add: run_ok_def list_all_iff del: upt_Suc)
qed

lemma goes_onE:
  assumes "goes_on call done' retry i w"
  obtains w' e where "call i w = Some (w', Inl e)" "retry i e = (True, None)" "\<not> done' i w"
  using assms that by (cases "call i w") (auto simp: goes_on_def split: sum.splits prod.splits)

lemma call_loop_run:
  "\<exists>k v. k \<le> n \<and> world_at call i k w = Some v \<and> run_ok call done' retry i k w \<and>
     call_loop call done' ctxErr retry (Suc n) i gerr w = ends_with call done' ctxErr retry (i + int k) v \<and>
     (k = n \<or> \<not> goes_on call done' retry (i + int k) v)"
proof (induction n arbitrary: i gerr w)
  case 0
  show ?case
    by (intro exI [of _ 0] exI [of _ w])
      (auto simp: run_ok_def ends_with_def split: option.splits prod.splits sum.splits)
next
  case (Suc n)
  show ?case
  proof (cases "goes_on call done' retry i w")
    case False
    then show ?thesis
      by (intro exI [of _ 0] exI [of _ w])
        (auto simp: run_ok_def ends_with_def goes_on_def split: option.splits prod.splits sum.splits)
  next
    case True
    then obtain w' e where c: "call i w = Some (w', Inl e)" "retry i e = (True, None)" "\<not> done' i w"
      by (rule goes_onE)
    from Suc.IH [where i = "i + 1" and gerr = "Some e" and w = w'] obtain k v where
      k: "k \<le> n" "world_at call (i + 1) k w' = Some v" "run_ok call done' retry (i + 1) k w'"
        "call_loop call done' ctxErr retry (Suc n) (i + 1) (Some e) w' = ends_with call done' ctxErr retry (i + 1 + int k) v"
        "k = n \<or> \<not> goes_on call done' retry (i + 1 + int k) v" by blast
    have "call_loop call done' ctxErr retry (Suc (Suc n)) i gerr w =
        call_loop call done' ctxErr retry (Suc n) (i + 1) (Some e) w'"
      using c by (subst call_loop.simps(2)) simp
    then show ?thesis
      using k c run_ok_Suc [OF True c(1) k(3)]
      by (intro exI [of _ "Suc k"] exI [of _ v]) (auto simp: ac_simps)
  qed
qed

lemma rpc_Call_loop:
  assumes "callOpts = foldl (\<lambda>o' f. f o') base opts"
    and "client_next env service (co_Address callOpts) w = (w0, Inr nxt)"
    and "\<not> ce_expired env" and "ce_deadline env = None" and "- 1 \<le> co_Retries callOpts"
  shows "rpc_Call env base opts call service w =
    map_option (\<lambda>(w, r). (w, case r of Inl e \<Rightarrow> e | Inr _ \<Rightarrow> None))
      (call_loop (attempt env (co_Backoff callOpts) service nxt
          (foldr (\<lambda>w f. w f) (co_CallWrappers callOpts) call (co_RequestTimeout callOpts)))
        (ce_done env) (ce_ctxErr env) (co_Retry callOpts) (nat (co_Retries callOpts + 1)) 0 None w0)"
  using assms(2-5) by (simp add: rpc_Call_def assms(1) [symmetric] wrap_loop_foldr)

text \<open>
  With a negative number of retries the loop body never runs: for \<open>-1\<close> the call returns nil although
  nothing was sent.
\<close>

lemma rpc_Call_negative_retries:
  assumes "callOpts = foldl (\<lambda>o' f. f o') base opts"
    and "client_next env service (co_Address callOpts) w = (w0, Inr nxt)"
    and "\<not> ce_expired env" and "ce_deadline env = None" and "co_Retries callOpts = - 1"
  shows "rpc_Call env base opts call service w = Some (w0, None)"
  using rpc_Call_loop [OF assms(1-4)] assms(5) by simp

section \<open>Retrying over round-robin nodes\<close>

text \<open>
  The world is the state of the call's own \<open>next\<close> function, which nothing else changes, and the rest.  The function
  works on the first part; waiting, sending and marking work on the second.
\<close>

type_synonym 'x rr_world = "(node list \<times> 64 word) \<times> 'x"

definition on_selector :: "('s \<Rightarrow> 's \<times> 'r) \<Rightarrow> 's \<times> 'x \<Rightarrow> ('s \<times> 'x) \<times> 'r" where
  "on_selector f w = ((fst (f (fst w)), snd w), snd (f (fst w)))"

definition timed_out :: "string \<Rightarrow> err" where
  "timed_out ctxErr = Timeout packageID (''call timeout: '' @ ctxErr) []"

lemma round_robin_attempt:
  fixes env :: "'x rr_world call_env"
  assumes "ns \<noteq> []" and "0 \<le> sint c" and "\<exists>t. boff i = Inr t"
    and "\<And>t w. fst (ce_sleep env t w) = fst w" and "\<And>sv n e w. fst (ce_mark env sv n e w) = fst w"
    and "\<And>n w. fst (fst (send n w)) = fst w \<and> (healthy n \<longrightarrow> snd (send n w) = Inr ())"
  shows "\<exists>x' res. attempt env boff service (on_selector RoundRobin_next) send i ((ns, c), x) = Some (((ns, c + 1), x'), res) \<and>
    (healthy (ns ! nat (sint c mod int (length ns))) \<longrightarrow> res = Inr ())"
proof -
  obtain t where t: "boff i = Inr t" using assms(3) by blast
  let ?w = "if t > 0 then ce_sleep env t ((ns, c), x) else ((ns, c), x)"
  let ?n = "ns ! nat (sint c mod int (length ns))"
  have "fst ?w = (ns, c)" using assms(4) by simp
  then have nxt: "on_selector RoundRobin_next ?w = (((ns, c + 1), snd ?w), Inr ?n)"
    using RoundRobin_next_eq [OF assms(1,2)] by (simp add: on_selector_def)
  obtain w' res where send: "send ?n ((ns, c + 1), snd ?w) = (w', res)" by (cases "send ?n ((ns, c + 1), snd ?w)")
  then have keep: "fst w' = (ns, c + 1)" "healthy ?n \<longrightarrow> res = Inr ()" using assms(6) [of ?n "((ns, c + 1), snd ?w)"] by simp_all
  have att: "attempt env boff service (on_selector RoundRobin_next) send i ((ns, c), x) =
      Some (ce_mark env service ?n (case res of Inl e \<Rightarrow> Some e | Inr _ \<Rightarrow> None) w', res)"
    by (simp only: attempt_def t sum.case Let_def nxt send prod.case)
  show ?thesis unfolding att using keep assms(5)
    by (intro exI [of _ "snd (ce_mark env service ?n (case res of Inl e \<Rightarrow> Some e | Inr _ \<Rightarrow> None) w')"] exI [of _ res]) (simp add: prod_eq_iff)
qed

lemma round_robin_reaches:
  fixes env :: "'x rr_world call_env"
  assumes "ns \<noteq> []" and "\<And>i. \<exists>t. boff i = Inr t" and "\<And>t w. fst (ce_sleep env t w) = fst w" and "\<And>sv n e w. fst (ce_mark env sv n e w) = fst w"
    and "\<And>n w. fst (fst (send n w)) = fst w \<and> (healthy n \<longrightarrow> snd (send n w) = Inr ())" and "\<And>i e. retry i e = (True, None)"
    and "call = attempt env boff service (on_selector RoundRobin_next) send"
  shows "0 \<le> sint c \<Longrightarrow> sint c + int m \<le> 2 ^ 63 - 1 \<Longrightarrow> j < m \<Longrightarrow> healthy (ns ! nat ((sint c + int j) mod int (length ns))) \<Longrightarrow>
    \<exists>w res. call_loop call done' ctxErr retry m i gerr ((ns, c), x) = Some (w, res) \<and>
      (res = Inr () \<or> res = Inl (Some (timed_out ctxErr)) \<and>
         (\<exists>k v. k \<le> j \<and> world_at call i k ((ns, c), x) = Some v \<and> done' (i + int k) v))"
proof (induction j arbitrary: c i gerr x m)
  case (0 c i gerr x m)
  obtain m' where m: "m = Suc m'" using 0 by (cases m) auto
  have "\<exists>x' res. call i ((ns, c), x) = Some (((ns, c + 1), x'), res) \<and> (healthy (ns ! nat (sint c mod int (length ns))) \<longrightarrow> res = Inr ())"
    unfolding assms(7) by (rule round_robin_attempt [OF assms(1) 0(1) assms(2-5)])
  then obtain x' where "call i ((ns, c), x) = Some (((ns, c + 1), x'), Inr ())" using 0(4) by auto
  then show ?case by (cases "done' i ((ns, c), x)") (simp_all add: m timed_out_def)
next
  case (Suc j c i gerr x m)
  obtain m' where m: "m = Suc m'" using Suc.prems by (cases m) auto
  have "\<exists>x' res. call i ((ns, c), x) = Some (((ns, c + 1), x'), res) \<and> (healthy (ns ! nat (sint c mod int (length ns))) \<longrightarrow> res = Inr ())"
    unfolding assms(7) by (rule round_robin_attempt [OF assms(1) Suc.prems(1) assms(2-5)])
  then obtain x' res where a: "call i ((ns, c), x) = Some (((ns, c + 1), x'), res)" by blast
  show ?case
  proof (cases "done' i ((ns, c), x)")
    case True
    then show ?thesis by (auto simp: m timed_out_def intro!: exI [of _ 0])
  next
    case False
    show ?thesis
    proof (cases res)
      case (Inr u)
      then show ?thesis using False a by (simp add: m)
    next
      case (Inl e)
      have c: "sint (c + 1) = sint c + 1" using Suc.prems by (intro sint_succ) simp
      have "healthy (ns ! nat ((sint (c + 1) + int j) mod int (length ns)))" using Suc.prems(4) c by (simp add: ac_simps)
      moreover have "0 \<le> sint (c + 1)" "sint (c + 1) + int m' \<le> 2 ^ 63 - 1" "j < m'" using Suc.prems c m by simp_all
      ultimately obtain w res' where
        w: "call_loop call done' ctxErr retry m' (i + 1) (Some e) ((ns, c + 1), x') = Some (w, res')"
          "res' = Inr () \<or> res' = Inl (Some (timed_out ctxErr)) \<and>
            (\<exists>k v. k \<le> j \<and> world_at call (i + 1) k ((ns, c + 1), x') = Some v \<and> done' (i + 1 + int k) v)" using Suc.IH [of "c + 1" m' "i + 1" "Some e" x'] by blast
      have "call_loop call done' ctxErr retry m i gerr ((ns, c), x) = Some (w, res')"
        using False a Inl w(1) assms(6) by (simp add: m)
      moreover have "\<exists>k v. k \<le> Suc j \<and> world_at call i k ((ns, c), x) = Some v \<and> done' (i + int k) v"
        if "k \<le> j" "world_at call (i + 1) k ((ns, c + 1), x') = Some v" "done' (i + 1 + int k) v" for k v
        using that a by (intro exI [of _ "Suc k"] exI [of _ v]) (simp add: ac_simps)
      ultimately show ?thesis using w(2) by blast
    qed
  qed
qed

lemma mod_hits:
  fixes r :: int
  assumes "p < n"
  shows "\<exists>j < n. nat ((r + int j) mod int n) = p"
proof (intro exI [of _ "nat ((int p - r) mod int n)"] conjI)
  have n: "0 < int n" using assms by simp
  then show "nat ((int p - r) mod int n) < n" by (simp add: nat_less_iff)
  have "(r + (int p - r) mod int n) mod int n = int p mod int n" by (simp add: mod_add_right_eq)
  then show "nat ((r + int (nat ((int p - r) mod int n))) mod int n) = p"
    using n assms by simp
qed

section \<open>Properties\<close>

text \<open>
  C36.  A call makes its attempts one after the other, at least one and at most one more than the
  number of retries.  It goes on exactly as long as an attempt fails in time and the retry function
  asks for another, and what it returns is decided by the last attempt: nil when that
  succeeded, else the error of the retry function or of the attempt, or a timeout (408) when the
  context ended first.  The call wrappers are applied with the first one outermost.
\<close>

theorem rpc_Call_attempts:
  assumes "callOpts = foldl (\<lambda>o' f. f o') base opts"
    and "client_next env service (co_Address callOpts) w = (w0, Inr nxt)"
    and "\<not> ce_expired env" and "ce_deadline env = None" and "0 \<le> co_Retries callOpts"
    and "call' = attempt env (co_Backoff callOpts) service nxt
      (foldr (\<lambda>w f. w f) (co_CallWrappers callOpts) call (co_RequestTimeout callOpts))"
  shows "\<exists>k v. int k \<le> co_Retries callOpts \<and> world_at call' 0 k w0 = Some v \<and>
    run_ok call' (ce_done env) (co_Retry callOpts) 0 k w0 \<and>
    rpc_Call env base opts call service w =
      map_option (\<lambda>(w, r). (w, case r of Inl e \<Rightarrow> e | Inr _ \<Rightarrow> None))
        (ends_with call' (ce_done env) (ce_ctxErr env) (co_Retry callOpts) (int k) v) \<and>
    (int k = co_Retries callOpts \<or> \<not> goes_on call' (ce_done env) (co_Retry callOpts) (int k) v)"
proof -
  let ?n = "nat (co_Retries callOpts)"
  have n: "nat (co_Retries callOpts + 1) = Suc ?n" using assms(5) by (simp add: nat_add_distrib)
  have loop: "rpc_Call env base opts call service w =
      map_option (\<lambda>(w, r). (w, case r of Inl e \<Rightarrow> e | Inr _ \<Rightarrow> None))
        (call_loop call' (ce_done env) (ce_ctxErr env) (co_Retry callOpts) (Suc ?n) 0 None w0)"
    using rpc_Call_loop [OF assms(1-4)] assms(5) unfolding assms(6) n [symmetric] by simp
  obtain k v where k: "k \<le> ?n" "world_at call' 0 k w0 = Some v" "run_ok call' (ce_done env) (co_Retry callOpts) 0 k w0"
      "call_loop call' (ce_done env) (ce_ctxErr env) (co_Retry callOpts) (Suc ?n) 0 None w0 =
        ends_with call' (ce_done env) (ce_ctxErr env) (co_Retry callOpts) (0 + int k) v"
      "k = ?n \<or> \<not> goes_on call' (ce_done env) (co_Retry callOpts) (0 + int k) v"
    using call_loop_run [of ?n call' 0 w0 "ce_done env" "co_Retry callOpts" "ce_ctxErr env" None] by blast
  have "int k \<le> co_Retries callOpts" "k = ?n \<longleftrightarrow> int k = co_Retries callOpts" using k(1) assms(5) by auto
  with k show ?thesis unfolding loop by (intro exI [of _ k] exI [of _ v]) auto
qed

theorem rpc_Call_attempts_witness:
  "\<exists>(env :: nat call_env) base e. co_Retries base = 2 \<and>
     rpc_Call env base [] (\<lambda>_ _ w. (w, Inl e)) ''s'' 7 = Some (7, Some e)"
proof -
  let ?e = "Plain 0 ''down''"
  let ?env = "\<lparr>ce_getenv = (\<lambda>_. []), ce_select = (\<lambda>_ w. (w, Inl SelNotFound)), ce_mark = (\<lambda>_ _ _ w. w),
    ce_sleep = (\<lambda>_ w. w), ce_now = (\<lambda>_. 0), ce_deadline = None, ce_expired = False,
    ce_done = (\<lambda>_ _. False), ce_ctxErr = []\<rparr> :: nat call_env"
  let ?base = "\<lparr>co_Backoff = (\<lambda>_. Inr 0), co_Retry = RetryAlways, co_Address = [''a''], co_CallWrappers = [],
    co_RequestTimeout = 1, co_Retries = 2\<rparr> :: (nat, unit) callOptions"
  let ?nxt = "\<lambda>w :: nat. (w, index_node [address_node ''a''] (go_rem 0 1))"
  have nxt: "client_next ?env ''s'' [''a''] 7 = (7, Inr ?nxt)"
    by (simp add: client_next_def net_Proxy_def)
  let ?call = "attempt ?env (co_Backoff ?base) ''s'' ?nxt
    (foldr (\<lambda>w f. w f) (co_CallWrappers ?base) (\<lambda>_ _ w. (w, Inl ?e)) (co_RequestTimeout ?base))"
  have fails: "?call i w = Some (w, Inl ?e)" for i w
    by (simp add: attempt_def index_node_def go_rem_def)
  have "\<exists>k v. int k \<le> co_Retries ?base \<and> world_at ?call 0 k 7 = Some v \<and>
    run_ok ?call (ce_done ?env) (co_Retry ?base) 0 k 7 \<and>
    rpc_Call ?env ?base [] (\<lambda>_ _ w. (w, Inl ?e)) ''s'' 7 =
      map_option (\<lambda>(w, r). (w, case r of Inl e \<Rightarrow> e | Inr _ \<Rightarrow> None))
        (ends_with ?call (ce_done ?env) (ce_ctxErr ?env) (co_Retry ?base) (int k) v) \<and>
    (int k = co_Retries ?base \<or> \<not> goes_on ?call (ce_done ?env) (co_Retry ?base) (int k) v)"
    by (rule rpc_Call_attempts [where callOpts = ?base and nxt = ?nxt]) (simp_all add: nxt)
  then obtain k v where v: "world_at ?call 0 k 7 = Some v" and call:
    "rpc_Call ?env ?base [] (\<lambda>_ _ w. (w, Inl ?e)) ''s'' 7 =
      map_option (\<lambda>(w, r). (w, case r of Inl e \<Rightarrow> e | Inr _ \<Rightarrow> None))
        (ends_with ?call (ce_done ?env) (ce_ctxErr ?env) (co_Retry ?base) (int k) v)" by blast
  have "v = 7" using v world_at_const [where call = ?call and i = 0 and k = k and w = 7, OF fails] by (simp only: option.inject)
  with call have "rpc_Call ?env ?base [] (\<lambda>_ _ w. (w, Inl ?e)) ''s'' 7 = Some (7, Some ?e)"
    unfolding ends_with_def fails by (simp add: RetryAlways_def)
  then show ?thesis by (intro exI [of _ ?env] exI [of _ ?base] exI [of _ ?e]) simp
qed

text \<open>
  C18.  Calls reach a healthy node, unless the context ends first.  Over the round-robin strategy, with a retry function that always asks for another attempt, a backoff that gives no
  error, any call wrappers and any number of retries that is enough to try every node once: when, through the wrappers, one node of the service always
  answers, the call returns nil, wherever the counter stands (below the largest \<open>int\<close>), however long the waits are and whatever the other nodes do; or it returns the timeout (408), and then the
  context was done before or during an attempt that comes no later than the first round over the nodes.  No address and no proxy is set, and the call starts before its deadline.
\<close>

theorem rpc_Call_reaches_healthy:
  fixes env :: "'x rr_world call_env"
  assumes "callOpts = foldl (\<lambda>o' f. f o') base opts" and "net_Proxy (ce_getenv env) service (co_Address callOpts) = (service', [], proxied)"
    and "ce_select env service' w = ((RoundRobin r ss, x), Inr (on_selector RoundRobin_next))" and "\<not> ce_expired env"
    and "timeout = (case ce_deadline env of None \<Rightarrow> co_RequestTimeout callOpts | Some d \<Rightarrow> d - ce_now env (RoundRobin r ss, x))"
    and "send = foldr (\<lambda>w f. w f) (co_CallWrappers callOpts) call timeout"
    and "0 \<le> r" and "r + (co_Retries callOpts + 1) \<le> 2 ^ 63 - 1"
    and "n \<in> set (collect_nodes ss)" and "healthy n" and "int (length (collect_nodes ss)) \<le> co_Retries callOpts + 1"
    and "\<And>i. \<exists>t. co_Backoff callOpts i = Inr t" and "\<And>t w. fst (ce_sleep env t w) = fst w" and "\<And>sv n e w. fst (ce_mark env sv n e w) = fst w"
    and "\<And>n w. fst (fst (send n w)) = fst w \<and> (healthy n \<longrightarrow> snd (send n w) = Inr ())" and "\<And>i e. co_Retry callOpts i e = (True, None)"
  shows "\<exists>w' e. rpc_Call env base opts call service w = Some (w', e) \<and>
    (e = None \<or> e = Some (timed_out (ce_ctxErr env)) \<and>
       (\<exists>k v. k < length (collect_nodes ss) \<and>
          world_at (attempt env (co_Backoff callOpts) service (on_selector RoundRobin_next) send) 0 k (RoundRobin r ss, x) = Some v \<and>
          ce_done env (int k) v))"
proof -
  let ?ns = "collect_nodes ss" and ?c = "word_of_int r :: 64 word"
  let ?call = "attempt env (co_Backoff callOpts) service (on_selector RoundRobin_next) send"
  let ?m = "nat (co_Retries callOpts + 1)"
  have rr: "RoundRobin r ss = (?ns, ?c)" by (simp add: RoundRobin_def del: collect_nodes_eq)
  from assms(9) obtain p where p: "p < length ?ns" "?ns ! p = n" by (meson in_set_conv_nth)
  have c: "sint ?c = r" using assms(7,8,11) p(1) by (simp add: int_word_sint)
  from mod_hits [OF p(1), of r] obtain j where j: "j < length ?ns" "nat ((r + int j) mod int (length ?ns)) = p" by blast
  have nxt: "client_next env service (co_Address callOpts) w = ((RoundRobin r ss, x), Inr (on_selector RoundRobin_next))"
    using assms(2,3) by (simp add: client_next_def)
  have loop: "rpc_Call env base opts call service w = map_option (\<lambda>(w, r). (w, case r of Inl e \<Rightarrow> e | Inr _ \<Rightarrow> None))
      (call_loop ?call (ce_done env) (ce_ctxErr env) (co_Retry callOpts) ?m 0 None (RoundRobin r ss, x))"
    using nxt assms(4,5,6,11) p(1)
    by (cases "ce_deadline env") (simp_all add: rpc_Call_def assms(1) [symmetric] wrap_loop_foldr WithRequestTimeout_def del: collect_nodes_eq)
  have "\<exists>w' res. call_loop ?call (ce_done env) (ce_ctxErr env) (co_Retry callOpts) ?m 0 None ((?ns, ?c), x) = Some (w', res) \<and>
      (res = Inr () \<or> res = Inl (Some (timed_out (ce_ctxErr env))) \<and>
         (\<exists>k v. k \<le> j \<and> world_at ?call 0 k ((?ns, ?c), x) = Some v \<and> ce_done env (0 + int k) v))"
  proof (rule round_robin_reaches [OF _ assms(12-16) refl])
    show "?ns \<noteq> []" using p(1) by (metis length_0_conv not_less_zero)
    show "healthy (?ns ! nat ((sint ?c + int j) mod int (length ?ns)))" using j p(2) assms(10) unfolding c by simp
  qed (use assms(7,8,11) c j(1) in \<open>simp_all del: collect_nodes_eq\<close>)
  then obtain w' res where res: "call_loop ?call (ce_done env) (ce_ctxErr env) (co_Retry callOpts) ?m 0 None ((?ns, ?c), x) = Some (w', res)"
      "res = Inr () \<or> res = Inl (Some (timed_out (ce_ctxErr env))) \<and>
         (\<exists>k v. k \<le> j \<and> world_at ?call 0 k ((?ns, ?c), x) = Some v \<and> ce_done env (0 + int k) v)" by blast
  have k: "\<exists>k v. k < length ?ns \<and> world_at ?call 0 k ((?ns, ?c), x) = Some v \<and> ce_done env (int k) v"
    if "\<exists>k v. k \<le> j \<and> world_at ?call 0 k ((?ns, ?c), x) = Some v \<and> ce_done env (0 + int k) v"
  proof -
    from that obtain k v where "k \<le> j" "world_at ?call 0 k ((?ns, ?c), x) = Some v" "ce_done env (0 + int k) v" by (elim exE conjE)
    with j(1) show ?thesis by (intro exI [of _ k] exI [of _ v]) simp
  qed
  show ?thesis unfolding loop rr res(1) using res(2) k
    by (intro exI [of _ w'] exI [of _ "case res of Inl e \<Rightarrow> e | Inr _ \<Rightarrow> None"]) (auto simp del: collect_nodes_eq)
qed

theorem rpc_Call_reaches_healthy_witness:
  "\<exists>(env :: unit rr_world call_env) base ss w. length (collect_nodes ss) = 2 \<and>
     rpc_Call env base [] (\<lambda>_ n w. (w, if nd_Id n = ''y'' then Inr () else Inl (Plain 0 ''down''))) ''s'' (RoundRobin 0 ss, ()) = Some (w, None)"
proof -
  let ?n = "\<lambda>i. \<lparr>nd_Metadata = None, nd_Id = i, nd_Address = [], nd_Port = 0\<rparr>"
  let ?ss = "[\<lparr>sv_Name = ''s'', sv_Version = ''1'', sv_Metadata = [], sv_Endpoints = [], sv_Nodes = [?n ''x'', ?n ''y'']\<rparr>]"
  let ?env = "\<lparr>ce_getenv = (\<lambda>_. []), ce_select = (\<lambda>_ _. ((RoundRobin 0 ?ss, ()), Inr (on_selector RoundRobin_next))),
    ce_mark = (\<lambda>_ _ _ w. w), ce_sleep = (\<lambda>_ w. w), ce_now = (\<lambda>_. 0), ce_deadline = Some 9,
    ce_expired = False, ce_done = (\<lambda>i _. i > 3), ce_ctxErr = []\<rparr> :: unit rr_world call_env"
  let ?base = "\<lparr>co_Backoff = (\<lambda>_. Inr 1), co_Retry = RetryAlways, co_Address = [], co_CallWrappers = [],
    co_RequestTimeout = 1, co_Retries = 1\<rparr> :: (unit rr_world, unit) callOptions"
  let ?call = "\<lambda>_ n w. (w, if nd_Id n = ''y'' then Inr () else Inl (Plain 0 ''down''))"
  let ?send = "?call (9 :: int)"
  have len: "length (collect_nodes ?ss) = 2" by simp
  have "\<exists>w' e. rpc_Call ?env ?base [] ?call ''s'' (RoundRobin 0 ?ss, ()) = Some (w', e) \<and>
    (e = None \<or> e = Some (timed_out (ce_ctxErr ?env)) \<and>
       (\<exists>k v. k < length (collect_nodes ?ss) \<and>
          world_at (attempt ?env (co_Backoff ?base) ''s'' (on_selector RoundRobin_next) ?send) 0 k (RoundRobin 0 ?ss, ()) = Some v \<and> ce_done ?env (int k) v))"
    by (rule rpc_Call_reaches_healthy [where r = 0 and n = "?n ''y''" and ss = ?ss and callOpts = ?base and healthy = "\<lambda>n. nd_Id n = ''y''" and timeout = 9
          and service' = "''s''" and proxied = False])
      (simp_all add: net_Proxy_def RetryAlways_def)
  then show ?thesis using len by (intro exI [of _ ?env] exI [of _ ?base] exI [of _ ?ss]) auto
qed

end
