(* ===== verification/Keyword_Trie.thy ===== *)
theory Keyword_Trie
  imports Go_Prelude "HOL-Library.Product_Lexorder"
begin

text \<open>
  Keyword search of \<open>common/util/strings\<close>: the Aho-Corasick automaton of \<open>node.go\<close>, and the filter
  (\<open>trie.go\<close>) and the replacer (\<open>replacer.go\<close>) on top of it.

  Texts and keywords are given as their runes: \<open>[]rune(s)\<close> and \<open>string(chars)\<close> convert between the
  two views of a valid string.  The nodes live in a heap; the address of a node is the path of
  runes that leads to it from the root, whose address is the empty path, and the child of the node
  at \<open>p\<close> under key \<open>c\<close> is the node at \<open>p @ [c]\<close>.  A nil pointer is \<open>None\<close>.  \<open>range\<close> over the
  children visits them in an order chosen by the argument \<open>rng\<close>.  The loops that follow failure links
  are partial functions whose value \<open>None\<close> stands for not returning or dereferencing nil.
\<close>

section \<open>The model\<close>

type_synonym rune = int

record tnode =
  tn_children :: "rune list"
  tn_fail :: "rune list option"
  tn_depth :: int
  tn_end :: bool

type_synonym heap = "(rune list, tnode) go_map"

definition new_tnode :: "int \<Rightarrow> tnode" where
  "new_tnode depth = \<lparr>tn_children = [], tn_fail = None, tn_depth = depth, tn_end = False\<rparr>"

definition node_at :: "heap \<Rightarrow> rune list \<Rightarrow> tnode" where
  "node_at h p = (case map_of h p of Some n \<Rightarrow> n | None \<Rightarrow> new_tnode 0)"

definition new_root :: heap where
  "new_root = [([], new_tnode 0)]"

definition put_child :: "rune list \<Rightarrow> rune \<Rightarrow> int \<Rightarrow> heap \<Rightarrow> heap" where
  "put_child nd c depth h =
     AList.update (nd @ [c]) (new_tnode depth)
       (AList.update nd ((node_at h nd)\<lparr>tn_children := tn_children (node_at h nd) @ [c]\<rparr>) h)"

fun add_loop :: "heap \<Rightarrow> rune list \<Rightarrow> int \<Rightarrow> rune list \<Rightarrow> heap" where
  "add_loop h nd i [] = AList.update nd ((node_at h nd)\<lparr>tn_end := True\<rparr>) h"
| "add_loop h nd i (c # cs) =
     (if c \<in> set (tn_children (node_at h nd)) then add_loop h (nd @ [c]) (i + 1) cs
      else add_loop (put_child nd c (i + 1) h) (nd @ [c]) (i + 1) cs)"

definition node_add :: "rune list \<Rightarrow> heap \<Rightarrow> heap" where
  "node_add word h = (if length word = 0 then h else add_loop h [] 0 word)"

definition set_fail :: "rune list \<Rightarrow> rune list \<Rightarrow> heap \<Rightarrow> heap" where
  "set_fail p f h = AList.update p ((node_at h p)\<lparr>tn_fail := Some f\<rparr>) h"

text \<open>The innermost loop of \<open>build\<close>: the failure link of the child of \<open>nd\<close> under \<open>key\<close>.\<close>

partial_function (option) fail_search :: "heap \<Rightarrow> rune list \<Rightarrow> rune \<Rightarrow> rune list option" where
  "fail_search h cur key =
     (case tn_fail (node_at h cur) of
        None \<Rightarrow> Some []
      | Some f \<Rightarrow>
          if key \<in> set (tn_children (node_at h f)) then Some (f @ [key]) else fail_search h f key)"

fun link_children :: "heap \<Rightarrow> rune list \<Rightarrow> rune list \<Rightarrow> heap option" where
  "link_children h nd [] = Some h"
| "link_children h nd (key # keys) =
     Option.bind (fail_search h nd key) (\<lambda>f. link_children (set_fail (nd @ [key]) f h) nd keys)"

partial_function (option) build_loop ::
  "(rune list \<Rightarrow> rune list \<Rightarrow> rune list) \<Rightarrow> heap \<Rightarrow> rune list list \<Rightarrow> heap option" where
  "build_loop rng h nodes =
     (case nodes of
        [] \<Rightarrow> Some h
      | nd # rest \<Rightarrow>
          (let keys = rng nd (tn_children (node_at h nd))
           in Option.bind (link_children h nd keys)
                (\<lambda>h'. build_loop rng h' (rest @ map (\<lambda>c. nd @ [c]) keys))))"

definition node_build :: "(rune list \<Rightarrow> rune list \<Rightarrow> rune list) \<Rightarrow> heap \<Rightarrow> heap option" where
  "node_build rng h =
     (let keys = rng [] (tn_children (node_at h []))
      in build_loop rng (foldl (\<lambda>h c. set_fail [c] [] h) h keys) (map (\<lambda>c. [c]) keys))"

text \<open>
  \<open>find\<close>: the loop that falls back along failure links, the loop that collects the keywords that end
  here, and the loop over the text.  A scope is a pair of start and stop.
\<close>

partial_function (option) fall_back :: "heap \<Rightarrow> rune list \<Rightarrow> rune \<Rightarrow> (rune list \<times> rune list option) option" where
  "fall_back h cur c =
     (if cur = [] then Some (cur, None)
      else case tn_fail (node_at h cur) of
        None \<Rightarrow> None
      | Some f \<Rightarrow>
          if c \<in> set (tn_children (node_at h f)) then Some (f @ [c], Some (f @ [c])) else fall_back h f c)"

partial_function (option) collect :: "heap \<Rightarrow> int \<Rightarrow> rune list \<Rightarrow> (int \<times> int) list option" where
  "collect h i child =
     (if child = [] then Some []
      else case tn_fail (node_at h child) of
        None \<Rightarrow> None
      | Some f \<Rightarrow>
          Option.bind (collect h i f)
            (\<lambda>scopes. Some ((if tn_end (node_at h child) then [(i + 1 - tn_depth (node_at h child), i + 1)] else []) @ scopes)))"

fun find_loop :: "heap \<Rightarrow> rune list \<Rightarrow> int \<Rightarrow> rune list \<Rightarrow> (int \<times> int) list \<Rightarrow> (int \<times> int) list option" where
  "find_loop h cur i [] scopes = Some scopes"
| "find_loop h cur i (c # cs) scopes =
     Option.bind
       (if c \<in> set (tn_children (node_at h cur)) then Some (cur @ [c], Some (cur @ [c])) else fall_back h cur c)
       (\<lambda>(cur', child).
          case child of
            None \<Rightarrow> find_loop h cur' (i + 1) cs scopes
          | Some ch \<Rightarrow> Option.bind (collect h i ch) (\<lambda>ss. find_loop h cur' (i + 1) cs (scopes @ ss)))"

definition node_find :: "heap \<Rightarrow> rune list \<Rightarrow> (int \<times> int) list option" where
  "node_find h chars = find_loop h [] 0 chars []"

subsection \<open>Filter\<close>

definition runes_between :: "rune list \<Rightarrow> int \<times> int \<Rightarrow> rune list" where
  "runes_between chars s = drop (nat (fst s)) (take (nat (snd s)) chars)"

text \<open>A mask of 0 is the default mask, an asterisk.\<close>

definition NewTrie ::
  "(rune list \<Rightarrow> rune list \<Rightarrow> rune list) \<Rightarrow> rune list list \<Rightarrow> rune \<Rightarrow> (heap \<times> rune) option" where
  "NewTrie rng words mk =
     map_option (\<lambda>h. (h, if mk = 0 then 42 else mk))
       (node_build rng (foldl (\<lambda>h w. node_add w h) new_root words))"

definition collectKeywords :: "rune list \<Rightarrow> (int \<times> int) list \<Rightarrow> rune list list" where
  "collectKeywords chars scopes =
     map fst (foldl (\<lambda>m v. AList.update (runes_between chars v) () m) [] scopes)"

definition replaceWithAsterisk :: "rune \<Rightarrow> rune list \<Rightarrow> int \<times> int \<Rightarrow> rune list" where
  "replaceWithAsterisk mk chars s =
     foldl (\<lambda>cs i. cs[i := mk]) chars [nat (fst s)..<nat (snd s)]"

definition trie_Filter :: "heap \<times> rune \<Rightarrow> rune list \<Rightarrow> (rune list \<times> rune list list \<times> bool) option" where
  "trie_Filter t chars =
     (if length chars = 0 then Some (chars, [], False)
      else map_option
        (\<lambda>scopes.
           let keywords = collectKeywords chars scopes
           in (foldl (replaceWithAsterisk (snd t)) chars scopes, keywords, length keywords > 0))
        (node_find (fst t) chars))"

definition trie_FindKeywords :: "heap \<times> rune \<Rightarrow> rune list \<Rightarrow> rune list list option" where
  "trie_FindKeywords t chars =
     (if length chars = 0 then Some []
      else map_option (collectKeywords chars) (node_find (fst t) chars))"

subsection \<open>Replace\<close>

definition replaceTimes :: nat where "replaceTimes = 2"

record replacer =
  rp_node :: heap
  rp_mapping :: "(rune list, rune list) go_map"

definition NewReplacer ::
  "(rune list \<Rightarrow> rune list \<Rightarrow> rune list) \<Rightarrow> (rune list, rune list) go_map \<Rightarrow> replacer option" where
  "NewReplacer rng mapping =
     map_option (\<lambda>h. \<lparr>rp_node = h, rp_mapping = mapping\<rparr>)
       (node_build rng (foldl (\<lambda>h (k, _). node_add k h) new_root mapping))"

definition mapped :: "(rune list, rune list) go_map \<Rightarrow> rune list \<Rightarrow> rune list" where
  "mapped m k = (case map_of m k of Some v \<Rightarrow> v | None \<Rightarrow> [])"

text \<open>The loop over the sorted scopes; the result is the buffer and the final index.\<close>

fun replace_loop ::
  "(rune list, rune list) go_map \<Rightarrow> rune list \<Rightarrow> (int \<times> int) list \<Rightarrow> int \<Rightarrow> rune list \<Rightarrow> rune list \<times> int" where
  "replace_loop m chars [] index buf = (buf, index)"
| "replace_loop m chars (scp # scopes) index buf =
     (if fst scp < index then replace_loop m chars scopes index buf
      else replace_loop m chars scopes (snd scp)
             (buf @ runes_between chars (index, fst scp) @ mapped m (runes_between chars scp)))"

text \<open>\<open>sort.Slice\<close>: by start, and of the same start the longest first.\<close>

definition sort_scopes :: "(int \<times> int) list \<Rightarrow> (int \<times> int) list" where
  "sort_scopes scopes = sort_key (\<lambda>s. (fst s, - snd s)) scopes"

definition doReplace :: "replacer \<Rightarrow> rune list \<Rightarrow> (rune list \<times> bool) option" where
  "doReplace r chars =
     Option.bind (node_find (rp_node r) chars)
       (\<lambda>scopes.
          if length scopes = 0 then Some (chars, False)
          else let (buf, index) = replace_loop (rp_mapping r) chars (sort_scopes scopes) 0 []
               in Some (buf @ (if index < int (length chars) then drop (nat index) chars else []), True))"

fun Replace_loop :: "replacer \<Rightarrow> nat \<Rightarrow> rune list \<Rightarrow> rune list option" where
  "Replace_loop r 0 text = Some text"
| "Replace_loop r (Suc n) text =
     Option.bind (doReplace r text) (\<lambda>(text', replaced). if \<not> replaced then Some text' else Replace_loop r n text')"

definition replacer_Replace :: "replacer \<Rightarrow> rune list \<Rightarrow> rune list option" where
  "replacer_Replace r text = Replace_loop r replaceTimes text"

section \<open>The longest suffix in a set of paths\<close>

definition prefix_closed :: "rune list set \<Rightarrow> bool" where
  "prefix_closed N \<longleftrightarrow> [] \<in> N \<and> (\<forall>p c. p @ [c] \<in> N \<longrightarrow> p \<in> N)"

fun long_suffix :: "rune list set \<Rightarrow> rune list \<Rightarrow> rune list" where
  "long_suffix N [] = []"
| "long_suffix N (x # xs) = (if x # xs \<in> N then x # xs else long_suffix N xs)"

lemma long_suffix_in: "prefix_closed N \<Longrightarrow> long_suffix N xs \<in> N"
  by (induction xs) (auto simp: prefix_closed_def)

lemma long_suffix_length: "length (long_suffix N xs) \<le> length xs"
  by (induction xs) auto

lemma long_suffix_id: "xs \<in> N \<Longrightarrow> long_suffix N xs = xs"
  by (cases xs) auto

lemma long_suffix_step:
  assumes "prefix_closed N"
  shows "long_suffix N (xs @ [c]) = long_suffix N (long_suffix N xs @ [c])"
proof (induction xs)
  case (Cons x xs)
  show ?case
  proof (cases "x # xs \<in> N")
    case False
    then have "x # xs @ [c] \<notin> N" using assms by (metis append_Cons prefix_closed_def)
    with False Cons show ?thesis by simp
  qed simp
qed simp

text \<open>Going on with \<open>c\<close> from a node without such a child is going on from its failure link.\<close>

lemma long_suffix_fail:
  assumes "prefix_closed N" and "cur \<noteq> []" and "cur @ [c] \<notin> N"
  shows "long_suffix N (cur @ [c]) = long_suffix N (long_suffix N (tl cur) @ [c])"
  using assms long_suffix_step [OF assms(1), of "tl cur" c] by (cases cur) auto

lemma long_suffix_root: "[c] \<notin> N \<Longrightarrow> long_suffix N [c] = []"
  by simp

text \<open>The nonempty suffixes of a list, the longest first.\<close>

fun tails :: "'a list \<Rightarrow> 'a list list" where
  "tails [] = []"
| "tails (x # xs) = (x # xs) # tails xs"

lemma tails_long_suffix:
  "E \<subseteq> N \<Longrightarrow> filter (\<lambda>s. s \<in> E) (tails (long_suffix N xs)) = filter (\<lambda>s. s \<in> E) (tails xs)"
  by (induction xs) auto

lemma set_tails: "s \<in> set (tails xs) \<longleftrightarrow> s \<noteq> [] \<and> suffix s xs"
  by (induction xs) (auto simp: suffix_Cons)

section \<open>The heap as a set of paths\<close>

text \<open>
  A heap holds the paths \<open>N\<close> with the keywords \<open>E\<close>; nothing is said about the failure links.
\<close>

definition holds :: "heap \<Rightarrow> rune list set \<Rightarrow> rune list set \<Rightarrow> bool" where
  "holds h N E \<longleftrightarrow>
     (\<forall>p. map_of h p \<noteq> None \<longleftrightarrow> p \<in> N) \<and>
     (\<forall>p \<in> N. set (tn_children (node_at h p)) = {c. p @ [c] \<in> N} \<and> distinct (tn_children (node_at h p)) \<and>
        tn_depth (node_at h p) = int (length p) \<and> (tn_end (node_at h p) \<longleftrightarrow> p \<in> E))"

lemma node_at_update [simp]:
  "node_at (AList.update q n h) p = (if p = q then n else node_at h p)"
  by (simp add: node_at_def)

lemma holdsD:
  assumes "holds h N E" and "p \<in> N"
  shows "c \<in> set (tn_children (node_at h p)) \<longleftrightarrow> p @ [c] \<in> N" "distinct (tn_children (node_at h p))"
    "tn_depth (node_at h p) = int (length p)" "tn_end (node_at h p) \<longleftrightarrow> p \<in> E"
  using assms by (auto simp: holds_def)

lemma holds_set_fail: "holds h N E \<Longrightarrow> p \<in> N \<Longrightarrow> holds (set_fail p f h) N E"
  by (auto simp: holds_def set_fail_def)

lemma holds_new_root: "holds new_root {[]} {}"
  by (auto simp: holds_def new_root_def node_at_def new_tnode_def)

lemma holds_put_child:
  assumes h: "holds h N E" and nd: "nd \<in> N" and new: "nd @ [c] \<notin> N" and closed: "prefix_closed N" and E: "E \<subseteq> N"
  shows "holds (put_child nd c (int (length nd) + 1) h) (insert (nd @ [c]) N) E"
proof -
  have child: "p @ [d] \<in> insert (nd @ [c]) N \<longleftrightarrow> p @ [d] \<in> N \<or> (p = nd \<and> d = c)" for p d by auto
  have leaf: "nd @ [c] @ [d] \<notin> N" for d using new closed by (metis append_assoc prefix_closed_def)
  then show ?thesis
    using h nd new E unfolding holds_def put_child_def
    by (auto simp: new_tnode_def child)
qed

lemma prefix_closed_insert: "prefix_closed N \<Longrightarrow> p \<in> N \<Longrightarrow> prefix_closed (insert (p @ [c]) N)"
  by (auto simp: prefix_closed_def)

lemma add_loop_holds:
  assumes "holds h N E" and "nd \<in> N" and "prefix_closed N" and "E \<subseteq> N"
  shows "\<exists>N'. holds (add_loop h nd (int (length nd)) cs) N' (insert (nd @ cs) E) \<and> prefix_closed N' \<and>
    insert (nd @ cs) E \<subseteq> N' \<and> (finite N \<longrightarrow> finite N')"
  using assms
proof (induction cs arbitrary: h nd N)
  case Nil
  then have "holds (add_loop h nd (int (length nd)) []) N (insert nd E)"
    by (auto simp: holds_def)
  with Nil show ?case by (intro exI [of _ N]) auto
next
  case (Cons c cs)
  show ?case
  proof (cases "nd @ [c] \<in> N")
    case True
    then have "add_loop h nd (int (length nd)) (c # cs) = add_loop h (nd @ [c]) (int (length (nd @ [c]))) cs"
      using holdsD(1) [OF Cons.prems(1,2)] by (simp add: add.commute)
    with Cons.IH [OF Cons.prems(1) True Cons.prems(3,4)] show ?thesis by simp
  next
    case False
    let ?h = "put_child nd c (int (length nd) + 1) h"
    have "add_loop h nd (int (length nd)) (c # cs) = add_loop ?h (nd @ [c]) (int (length (nd @ [c]))) cs"
      using holdsD(1) [OF Cons.prems(1,2)] False by (simp add: add.commute)
    moreover have "\<exists>N'. holds (add_loop ?h (nd @ [c]) (int (length (nd @ [c]))) cs) N' (insert ((nd @ [c]) @ cs) E) \<and>
        prefix_closed N' \<and> insert ((nd @ [c]) @ cs) E \<subseteq> N' \<and> (finite (insert (nd @ [c]) N) \<longrightarrow> finite N')"
      using Cons.prems False
      by (intro Cons.IH holds_put_child prefix_closed_insert) auto
    ultimately show ?thesis by simp
  qed
qed

lemma node_adds_hold:
  assumes "holds h N E" and "prefix_closed N" and "E \<subseteq> N" and "finite N"
  shows "\<exists>N'. holds (foldl (\<lambda>h w. node_add w h) h ws) N' (E \<union> (set ws - {[]})) \<and> prefix_closed N' \<and>
    E \<union> (set ws - {[]}) \<subseteq> N' \<and> finite N'"
  using assms
proof (induction ws arbitrary: h N E)
  case Nil
  then show ?case by (intro exI [of _ N]) auto
next
  case (Cons w ws)
  show ?case
  proof (cases "w = []")
    case True
    with Cons show ?thesis by (simp add: node_add_def)
  next
    case False
    have "[] \<in> N" using Cons.prems(2) by (simp add: prefix_closed_def)
    from add_loop_holds [OF Cons.prems(1) this Cons.prems(2,3), of w] Cons.prems(4) obtain N1 where
      "holds (add_loop h [] 0 w) N1 (insert w E)" "prefix_closed N1" "insert w E \<subseteq> N1" "finite N1" by auto
    from Cons.IH [OF this] False show ?thesis by (simp add: node_add_def Un_insert_left insert_Diff_if)
  qed
qed

section \<open>Failure links\<close>

definition fail_ok :: "heap \<Rightarrow> rune list set \<Rightarrow> rune list \<Rightarrow> bool" where
  "fail_ok h N p \<longleftrightarrow> tn_fail (node_at h p) = Some (long_suffix N (tl p))"

lemma fail_search_eq:
  assumes h: "holds h N E" and closed: "prefix_closed N"
    and ok: "\<And>p. p \<in> N \<Longrightarrow> p \<noteq> [] \<Longrightarrow> length p \<le> n \<Longrightarrow> fail_ok h N p" and root: "tn_fail (node_at h []) = None"
  shows "cur \<in> N \<Longrightarrow> cur \<noteq> [] \<Longrightarrow> length cur \<le> n \<Longrightarrow>
    fail_search h cur key = Some (long_suffix N (tl cur @ [key]))"
proof (induction "length cur" arbitrary: cur rule: less_induct)
  case less
  let ?f = "long_suffix N (tl cur)"
  have f: "?f \<in> N" "length ?f < length cur"
    using long_suffix_in [OF closed] long_suffix_length [of N "tl cur"] less.prems(2) by (auto simp: le_less_trans)
  have unfold: "fail_search h cur key =
      (if ?f @ [key] \<in> N then Some (?f @ [key]) else fail_search h ?f key)"
    using ok [OF less.prems] holdsD(1) [OF h f(1)] by (subst fail_search.simps) (simp add: fail_ok_def)
  have step: "long_suffix N (tl cur @ [key]) = long_suffix N (?f @ [key])"
    by (rule long_suffix_step [OF closed])
  show ?case
  proof (cases "?f @ [key] \<in> N")
    case True
    then show ?thesis using unfold step long_suffix_id [OF True] by simp
  next
    case False
    show ?thesis
    proof (cases "?f = []")
      case True
      have "fail_search h [] key = Some []" using root by (subst fail_search.simps) simp
      with True False unfold step show ?thesis by simp
    next
      case nonempty: False
      then have "long_suffix N (?f @ [key]) = long_suffix N (tl ?f @ [key])"
        using False by (cases ?f) auto
      with less.hyps [OF f(2,1) nonempty] less.prems(3) f(2) unfold False step show ?thesis by simp
    qed
  qed
qed

lemma node_at_set_fail: "node_at (set_fail q f h) p = (if p = q then (node_at h p)\<lparr>tn_fail := Some f\<rparr> else node_at h p)"
  by (simp add: set_fail_def)

text \<open>The links that a heap has below a queue of nodes still to be expanded.\<close>

definition below :: "rune list set \<Rightarrow> rune list list \<Rightarrow> rune list set" where
  "below N q = {p \<in> N. \<exists>e \<in> set q. prefix e p}"

lemma link_children_ok:
  assumes "holds h N E" and "prefix_closed N" and "tn_fail (node_at h []) = None"
    and "\<And>p. p \<in> N \<Longrightarrow> p \<noteq> [] \<Longrightarrow> length p \<le> length nd \<Longrightarrow> fail_ok h N p"
    and "nd \<in> N" and "nd \<noteq> []" and "\<forall>c \<in> set keys. nd @ [c] \<in> N"
  shows "\<exists>h'. link_children h nd keys = Some h' \<and> holds h' N E \<and> tn_fail (node_at h' []) = None \<and>
    (\<forall>p. fail_ok h' N p \<longleftrightarrow> fail_ok h N p \<or> (\<exists>c \<in> set keys. p = nd @ [c])) \<and>
    (\<forall>p. tn_children (node_at h' p) = tn_children (node_at h p))"
  using assms
proof (induction keys arbitrary: h)
  case (Cons key keys)
  let ?f = "long_suffix N (tl nd @ [key])" and ?p = "nd @ [key]"
  have f: "fail_search h nd key = Some ?f"
    using fail_search_eq [OF Cons.prems(1,2) _ Cons.prems(3,5,6) order_refl, of key] Cons.prems(4) by blast
  let ?h = "set_fail ?p ?f h"
  have ok: "fail_ok ?h N q \<longleftrightarrow> fail_ok h N q \<or> q = ?p" for q
    using Cons.prems(6) by (auto simp: fail_ok_def node_at_set_fail)
  have "\<exists>h'. link_children ?h nd keys = Some h' \<and> holds h' N E \<and> tn_fail (node_at h' []) = None \<and>
    (\<forall>p. fail_ok h' N p \<longleftrightarrow> fail_ok ?h N p \<or> (\<exists>c \<in> set keys. p = nd @ [c])) \<and>
    (\<forall>p. tn_children (node_at h' p) = tn_children (node_at ?h p))"
  proof (rule Cons.IH)
    show "holds ?h N E" using Cons.prems(1,7) by (intro holds_set_fail) auto
    show "tn_fail (node_at ?h []) = None" using Cons.prems(3) by (simp add: node_at_set_fail)
    show "\<And>p. p \<in> N \<Longrightarrow> p \<noteq> [] \<Longrightarrow> length p \<le> length nd \<Longrightarrow> fail_ok ?h N p"
      using Cons.prems(4) ok by blast
  qed (use Cons.prems in auto)
  then show ?case using f ok by (auto simp: node_at_set_fail)
qed simp

subsection \<open>Breadth-first order\<close>

definition perm_order :: "(rune list \<Rightarrow> rune list \<Rightarrow> rune list) \<Rightarrow> bool" where
  "perm_order rng \<longleftrightarrow> (\<forall>p xs. distinct xs \<longrightarrow> set (rng p xs) = set xs \<and> distinct (rng p xs))"

definition queue_ok :: "rune list set \<Rightarrow> rune list list \<Rightarrow> bool" where
  "queue_ok N q \<longleftrightarrow> set q \<subseteq> N - {[]} \<and> distinct q \<and> (\<forall>e \<in> set q. \<forall>e' \<in> set q. prefix e e' \<longrightarrow> e = e') \<and>
     sorted (map length q) \<and> (\<forall>e \<in> set q. length e \<le> length (hd q) + 1)"

lemma prefix_snoc_cases: "prefix e (nd @ [c]) \<longleftrightarrow> e = nd @ [c] \<or> prefix e nd"
  by (auto simp: prefix_snoc)

lemma queue_step:
  assumes q: "queue_ok N (nd # rest)" and keys: "set keys = {c. nd @ [c] \<in> N}" "distinct keys"
  shows "queue_ok N (rest @ map (\<lambda>c. nd @ [c]) keys)"
proof -
  let ?q = "rest @ map (\<lambda>c. nd @ [c]) keys"
  from q have nd: "nd \<in> N" "nd \<noteq> []" "nd \<notin> set rest" and rest: "set rest \<subseteq> N - {[]}" "distinct rest" "sorted (map length rest)"
    and inc: "\<And>e e'. e \<in> set (nd # rest) \<Longrightarrow> e' \<in> set (nd # rest) \<Longrightarrow> prefix e e' \<Longrightarrow> e = e'"
    and len: "\<And>e. e \<in> set rest \<Longrightarrow> length nd \<le> length e \<and> length e \<le> length nd + 1"
    unfolding queue_ok_def by (simp_all add: Ball_def) blast+
  have fresh: "nd @ [c] \<notin> set rest" for c using inc [of nd "nd @ [c]"] by auto
  have "e = e'" if "e \<in> set ?q" "e' \<in> set ?q" "prefix e e'" for e e'
  proof -
    consider "e \<in> set rest" "e' \<in> set rest" | c where "e \<in> set rest" "e' = nd @ [c]"
      | c where "e = nd @ [c]" "e' \<in> set rest" | c d where "e = nd @ [c]" "e' = nd @ [d]"
      using \<open>e \<in> set ?q\<close> \<open>e' \<in> set ?q\<close> by auto
    then show ?thesis
    proof cases
      case 1
      then show ?thesis using inc \<open>prefix e e'\<close> by simp
    next
      case (2 c)
      then show ?thesis using \<open>prefix e e'\<close> inc [of e nd] nd(3) by (auto simp: prefix_snoc_cases)
    next
      case (3 c)
      then have "prefix nd e'" using \<open>prefix e e'\<close> by (metis append_prefixD)
      then show ?thesis using inc [of nd e'] 3 nd(3) by auto
    next
      case (4 c d)
      then show ?thesis using \<open>prefix e e'\<close> by simp
    qed
  qed
  moreover have "distinct ?q"
    using rest(2) keys(2) fresh by (auto simp: distinct_map inj_on_def)
  moreover have "sorted (map length ?q)"
    using rest(3) len by (auto simp: sorted_append) (simp add: sorted_iff_nth_mono)
  moreover have "length e \<le> length (hd ?q) + 1" if "e \<in> set ?q" for e
  proof -
    have "length e \<le> length nd + 1" using that len by auto
    moreover have "length nd \<le> length (hd ?q)"
    proof -
      have "hd ?q \<in> set ?q" using that by (intro hd_in_set) auto
      then show ?thesis using len by auto
    qed
    ultimately show ?thesis by simp
  qed
  ultimately show ?thesis using rest(1) keys(1) by (auto simp: queue_ok_def)
qed

lemma below_step:
  assumes "queue_ok N (nd # rest)" and "prefix_closed N" and "set keys = {c. nd @ [c] \<in> N}"
  shows "below N (rest @ map (\<lambda>c. nd @ [c]) keys) = below N (nd # rest) - {nd}"
proof -
  have closed: "p @ r \<in> N \<Longrightarrow> p \<in> N" for p r
    using assms(2) by (induction r rule: rev_induct) (auto simp: prefix_closed_def simp flip: append_assoc)
  have inc: "e \<in> set rest \<Longrightarrow> \<not> prefix e nd" for e using assms(1) by (auto simp: queue_ok_def)
  have ext: "(\<exists>c. nd @ [c] \<in> N \<and> prefix (nd @ [c]) p) \<longleftrightarrow> prefix nd p \<and> p \<noteq> nd" if "p \<in> N" for p
  proof
    assume "prefix nd p \<and> p \<noteq> nd"
    then obtain c r where "p = nd @ c # r" by (metis prefixE self_append_conv neq_Nil_conv)
    then have "p = (nd @ [c]) @ r" by simp
    with that closed show "\<exists>c. nd @ [c] \<in> N \<and> prefix (nd @ [c]) p" by (metis prefixI)
  qed (auto dest: append_prefixD)
  show ?thesis
  proof (rule set_eqI)
    fix p
    have "p \<in> below N (rest @ map (\<lambda>c. nd @ [c]) keys) \<longleftrightarrow>
        p \<in> N \<and> ((\<exists>e \<in> set rest. prefix e p) \<or> (\<exists>c. nd @ [c] \<in> N \<and> prefix (nd @ [c]) p))"
      using assms(3) by (auto simp: below_def)
    also have "\<dots> \<longleftrightarrow> p \<in> N \<and> ((\<exists>e \<in> set rest. prefix e p) \<or> prefix nd p \<and> p \<noteq> nd)" using ext by blast
    also have "\<dots> \<longleftrightarrow> p \<in> below N (nd # rest) - {nd}" using inc by (auto simp: below_def)
    finally show "p \<in> below N (rest @ map (\<lambda>c. nd @ [c]) keys) \<longleftrightarrow> p \<in> below N (nd # rest) - {nd}" .
  qed
qed

lemma build_loop_ok:
  assumes "holds h N E" and "prefix_closed N" and "finite N" and "tn_fail (node_at h []) = None"
    and "perm_order rng" and "queue_ok N q"
    and "\<And>p. p \<in> N \<Longrightarrow> p \<noteq> [] \<Longrightarrow> (p \<in> below N q \<longrightarrow> p \<in> set q) \<Longrightarrow> fail_ok h N p"
  shows "\<exists>h'. build_loop rng h q = Some h' \<and> holds h' N E \<and> (\<forall>p \<in> N. p \<noteq> [] \<longrightarrow> fail_ok h' N p)"
  using assms
proof (induction "card (below N q)" arbitrary: h q rule: less_induct)
  case less
  show ?case
  proof (cases q)
    case Nil
    then show ?thesis using less.prems by (subst build_loop.simps) (simp add: below_def)
  next
    case (Cons nd rest)
    let ?keys = "rng nd (tn_children (node_at h nd))"
    let ?q = "rest @ map (\<lambda>c. nd @ [c]) ?keys"
    have qok: "queue_ok N (nd # rest)" using less.prems(6) Cons by simp
    then have nd: "nd \<in> N" "nd \<noteq> []" by (auto simp: queue_ok_def)
    have keys: "set ?keys = {c. nd @ [c] \<in> N}" "distinct ?keys"
      using holdsD(1,2) [OF less.prems(1) nd(1)] less.prems(5) by (auto simp: perm_order_def)
    have shorter: "fail_ok h N p" if "p \<in> N" "p \<noteq> []" "length p \<le> length nd" for p
    proof (rule less.prems(7) [OF that(1,2)], rule)
      assume "p \<in> below N q"
      then obtain e where e: "e \<in> set q" "prefix e p" by (auto simp: below_def)
      then have "length nd \<le> length e" using qok Cons by (auto simp: queue_ok_def)
      with e(2) that(3) have "e = p" by (metis le_trans prefix_length_le order_antisym prefix_order.eq_iff same_prefix_nil prefixE append_eq_conv_conj take_all)
      with e(1) show "p \<in> set q" by simp
    qed
    from link_children_ok [OF less.prems(1,2,4) shorter nd, of ?keys] keys(1) obtain h' where
      h': "link_children h nd ?keys = Some h'" "holds h' N E" "tn_fail (node_at h' []) = None"
        "\<And>p. fail_ok h' N p \<longleftrightarrow> fail_ok h N p \<or> (\<exists>c \<in> set ?keys. p = nd @ [c])" by auto
    have bel: "below N ?q = below N q - {nd}"
      unfolding Cons by (rule below_step [OF qok less.prems(2) keys(1)])
    have "nd \<in> below N q" using nd Cons by (auto simp: below_def)
    moreover have "finite (below N q)" using less.prems(3) by (simp add: below_def)
    ultimately have smaller: "card (below N ?q) < card (below N q)"
      unfolding bel by (intro psubset_card_mono) auto
    have ok': "fail_ok h' N p" if "p \<in> N" "p \<noteq> []" "p \<in> below N ?q \<longrightarrow> p \<in> set ?q" for p
    proof (cases "\<exists>c \<in> set ?keys. p = nd @ [c]")
      case False
      have "fail_ok h N p"
        by (rule less.prems(7) [OF that(1,2)]) (use that(3) False bel Cons in auto)
      then show ?thesis by (simp add: h'(4))
    qed (simp add: h'(4))
    have "\<exists>h''. build_loop rng h' ?q = Some h'' \<and> holds h'' N E \<and> (\<forall>p \<in> N. p \<noteq> [] \<longrightarrow> fail_ok h'' N p)"
      by (rule less.hyps [OF smaller h'(2) less.prems(2,3) h'(3) less.prems(5) queue_step [OF qok keys] ok'])
    moreover have "build_loop rng h q = build_loop rng h' ?q"
      using h'(1) Cons by (subst build_loop.simps) (simp add: Let_def)
    ultimately show ?thesis by simp
  qed
qed

text \<open>The automaton after \<open>build\<close>.\<close>

definition automaton :: "heap \<Rightarrow> rune list set \<Rightarrow> rune list set \<Rightarrow> bool" where
  "automaton h N E \<longleftrightarrow> holds h N E \<and> prefix_closed N \<and> E \<subseteq> N \<and> [] \<notin> E \<and> (\<forall>p \<in> N. p \<noteq> [] \<longrightarrow> fail_ok h N p)"

definition no_links :: "heap \<Rightarrow> bool" where
  "no_links h \<longleftrightarrow> (\<forall>p. tn_fail (node_at h p) = None)"

lemma no_links_add_loop: "no_links h \<Longrightarrow> no_links (add_loop h nd i cs)"
proof (induction cs arbitrary: h nd i)
  case (Cons c cs)
  then have "no_links (put_child nd c (i + 1) h)" by (simp add: no_links_def put_child_def new_tnode_def)
  with Cons show ?case by simp
qed (simp add: no_links_def)

lemma no_links_adds: "no_links h \<Longrightarrow> no_links (foldl (\<lambda>h w. node_add w h) h ws)"
  by (induction ws arbitrary: h) (auto simp: node_add_def no_links_add_loop)

lemma root_links:
  assumes "holds h N E" and "\<forall>c \<in> set keys. [c] \<in> N" and "tn_fail (node_at h []) = None"
  shows "holds (foldl (\<lambda>h c. set_fail [c] [] h) h keys) N E \<and>
    tn_fail (node_at (foldl (\<lambda>h c. set_fail [c] [] h) h keys) []) = None \<and>
    (\<forall>c. c \<in> set keys \<or> fail_ok h N [c] \<longrightarrow> fail_ok (foldl (\<lambda>h c. set_fail [c] [] h) h keys) N [c])"
  using assms
proof (induction keys arbitrary: h)
  case (Cons c keys)
  let ?h = "set_fail [c] [] h"
  have "holds ?h N E" "tn_fail (node_at ?h []) = None" "fail_ok ?h N [d] \<longleftrightarrow> d = c \<or> fail_ok h N [d]" for d
    using Cons.prems by (auto intro: holds_set_fail simp: node_at_set_fail fail_ok_def)
  with Cons.IH [of ?h] Cons.prems show ?case by auto
qed simp

lemma node_build_ok:
  assumes "holds h N E" and "prefix_closed N" and "E \<subseteq> N" and "[] \<notin> E" and "finite N" and "no_links h" and "perm_order rng"
  shows "\<exists>h'. node_build rng h = Some h' \<and> automaton h' N E"
proof -
  let ?keys = "rng [] (tn_children (node_at h []))"
  let ?h = "foldl (\<lambda>h c. set_fail [c] [] h) h ?keys" and ?q = "map (\<lambda>c. [c]) ?keys"
  have root: "[] \<in> N" using assms(2) by (simp add: prefix_closed_def)
  have keys: "set ?keys = {c. [c] \<in> N}" "distinct ?keys"
    using holdsD(1,2) [OF assms(1) root] assms(7) by (auto simp: perm_order_def)
  have h: "holds ?h N E" "tn_fail (node_at ?h []) = None" "\<And>c. c \<in> set ?keys \<Longrightarrow> fail_ok ?h N [c]"
    using root_links [OF assms(1), of ?keys] keys(1) assms(6) by (auto simp: no_links_def)
  have "queue_ok N ?q"
    using keys by (auto simp: queue_ok_def distinct_map inj_on_def sorted_iff_nth_mono hd_map)
  moreover have "fail_ok ?h N p" if asm: "p \<in> N" "p \<noteq> []" "p \<in> below N ?q \<longrightarrow> p \<in> set ?q" for p
  proof -
    obtain c r where p: "p = [c] @ r" using asm(2) by (cases p) auto
    have "p @ r \<in> N \<Longrightarrow> p \<in> N" for p r
      using assms(2) by (induction r rule: rev_induct) (auto simp: prefix_closed_def simp flip: append_assoc)
    then have "[c] \<in> N" using asm(1) p by blast
    then have "p \<in> below N ?q" using asm(1) p keys(1) by (auto simp: below_def)
    with asm(3) show ?thesis using h(3) by auto
  qed
  ultimately obtain h' where "build_loop rng ?h ?q = Some h'" "holds h' N E" "\<forall>p \<in> N. p \<noteq> [] \<longrightarrow> fail_ok h' N p"
    using build_loop_ok [OF h(1) assms(2,5) h(2) assms(7)] by blast
  then show ?thesis using assms(2-4) by (simp add: node_build_def Let_def automaton_def)
qed

lemma built_automaton:
  assumes "perm_order rng"
  shows "\<exists>h N. node_build rng (foldl (\<lambda>h w. node_add w h) new_root ws) = Some h \<and> automaton h N (set ws - {[]})"
proof -
  have "prefix_closed {[]}" by (simp add: prefix_closed_def)
  from node_adds_hold [OF holds_new_root this, of ws] obtain N where
    "holds (foldl (\<lambda>h w. node_add w h) new_root ws) N (set ws - {[]})" "prefix_closed N" "set ws - {[]} \<subseteq> N" "finite N" by auto
  moreover have "no_links new_root" by (simp add: no_links_def new_root_def node_at_def new_tnode_def)
  ultimately show ?thesis using node_build_ok [OF _ _ _ _ _ no_links_adds assms] by blast
qed

section \<open>Searching\<close>

lemma fall_back_eq:
  assumes A: "automaton h N E"
  shows "cur \<in> N \<Longrightarrow> cur @ [c] \<notin> N \<Longrightarrow>
    fall_back h cur c =
      Some (long_suffix N (cur @ [c]), if long_suffix N (cur @ [c]) = [] then None else Some (long_suffix N (cur @ [c])))"
proof (induction "length cur" arbitrary: cur rule: less_induct)
  case less
  have closed: "prefix_closed N" and h: "holds h N E" using A by (simp_all add: automaton_def)
  show ?case
  proof (cases "cur = []")
    case True
    then show ?thesis using less.prems by (subst fall_back.simps) simp
  next
    case False
    let ?f = "long_suffix N (tl cur)"
    have f: "?f \<in> N" "length ?f < length cur"
      using long_suffix_in [OF closed] long_suffix_length [of N "tl cur"] False by (auto simp: le_less_trans)
    have step: "long_suffix N (cur @ [c]) = long_suffix N (?f @ [c])"
      by (rule long_suffix_fail [OF closed False less.prems(2)])
    have link: "tn_fail (node_at h cur) = Some ?f" using A False less.prems(1) by (simp add: automaton_def fail_ok_def)
    show ?thesis
    proof (cases "?f @ [c] \<in> N")
      case True
      then show ?thesis
        using False link holdsD(1) [OF h f(1)] long_suffix_id [OF True] step by (subst fall_back.simps) simp
    next
      case no_child: False
      with less.hyps [OF f(2,1)] show ?thesis
        using False link holdsD(1) [OF h f(1)] step by (subst fall_back.simps) simp
    qed
  qed
qed

definition ends_at :: "rune list set \<Rightarrow> int \<Rightarrow> rune list \<Rightarrow> (int \<times> int) list" where
  "ends_at E i xs = map (\<lambda>s. (i + 1 - int (length s), i + 1)) (filter (\<lambda>s. s \<in> E) (tails xs))"

lemma ends_at_long_suffix: "E \<subseteq> N \<Longrightarrow> ends_at E i (long_suffix N xs) = ends_at E i xs"
  by (simp add: ends_at_def tails_long_suffix)

lemma collect_eq:
  assumes A: "automaton h N E"
  shows "child \<in> N \<Longrightarrow> collect h i child = Some (ends_at E i child)"
proof (induction "length child" arbitrary: child rule: less_induct)
  case less
  have closed: "prefix_closed N" and h: "holds h N E" and E: "E \<subseteq> N" using A by (simp_all add: automaton_def)
  show ?case
  proof (cases child)
    case Nil
    then show ?thesis by (subst collect.simps) (simp add: ends_at_def)
  next
    case (Cons x xs)
    let ?f = "long_suffix N xs"
    have "?f \<in> N" "length ?f < length child"
      using long_suffix_in [OF closed] long_suffix_length [of N xs] Cons by (auto simp: less_Suc_eq_le)
    from less.hyps [OF this(2,1)] have "collect h i ?f = Some (ends_at E i xs)"
      by (simp add: ends_at_long_suffix [OF E])
    moreover have "tn_fail (node_at h child) = Some ?f" using A Cons less.prems by (simp add: automaton_def fail_ok_def)
    ultimately show ?thesis
      using holdsD(3,4) [OF h less.prems] Cons by (subst collect.simps) (simp add: ends_at_def)
  qed
qed

lemma find_loop_eq:
  assumes A: "automaton h N E"
  shows "find_loop h (long_suffix N xs) (int (length xs)) cs scopes =
    Some (scopes @ concat (map (\<lambda>k. ends_at E (int (length xs + k)) (xs @ take (Suc k) cs)) [0..<length cs]))"
proof (induction cs arbitrary: xs scopes)
  case (Cons c cs)
  have closed: "prefix_closed N" and h: "holds h N E" and E: "E \<subseteq> N" using A by (simp_all add: automaton_def)
  let ?cur = "long_suffix N xs" and ?new = "long_suffix N (xs @ [c])"
  have cur: "?cur \<in> N" and new: "?new \<in> N" using long_suffix_in [OF closed] by auto
  have step: "?new = long_suffix N (?cur @ [c])" by (rule long_suffix_step [OF closed])
  have goto: "(if c \<in> set (tn_children (node_at h ?cur)) then Some (?cur @ [c], Some (?cur @ [c])) else fall_back h ?cur c) =
      Some (?new, if ?new = [] then None else Some ?new)"
    using holdsD(1) [OF h cur, of c] fall_back_eq [OF A cur, of c] step long_suffix_id [of "?cur @ [c]" N]
    by auto
  have coll: "collect h (int (length xs)) ?new = Some (ends_at E (int (length xs)) (xs @ [c]))"
    using collect_eq [OF A new] by (simp add: ends_at_long_suffix [OF E])
  have none: "?new = [] \<Longrightarrow> ends_at E (int (length xs)) (xs @ [c]) = []"
    using ends_at_long_suffix [OF E, of "int (length xs)" "xs @ [c]"] by (simp add: ends_at_def)
  have IH: "find_loop h ?new (int (length xs) + 1) cs ss =
      Some (ss @ concat (map (\<lambda>k. ends_at E (int (length xs + Suc k)) (xs @ take (Suc (Suc k)) (c # cs))) [0..<length cs]))" for ss
    using Cons.IH [of "xs @ [c]" ss] by (simp add: add.commute)
  have "find_loop h ?cur (int (length xs)) (c # cs) scopes =
      find_loop h ?new (int (length xs) + 1) cs (scopes @ ends_at E (int (length xs)) (xs @ [c]))"
    using goto coll none by (cases "?new = []") simp_all
  also have "\<dots> = Some (scopes @ concat (map (\<lambda>k. ends_at E (int (length xs + k)) (xs @ take (Suc k) (c # cs))) [0..<Suc (length cs)]))"
    unfolding IH by (simp add: upt_conv_Cons map_Suc_upt [symmetric] comp_def algebra_simps del: upt_Suc)
  finally show ?case by simp
qed simp

lemma node_find_eq:
  "automaton h N E \<Longrightarrow>
     node_find h chars = Some (concat (map (\<lambda>k. ends_at E (int k) (take (Suc k) chars)) [0..<length chars]))"
  using find_loop_eq [of h N E "[]" chars "[]"] by (simp add: node_find_def)

text \<open>The places where a keyword of \<open>E\<close> stands in a text.\<close>

definition occurrences :: "rune list set \<Rightarrow> rune list \<Rightarrow> (int \<times> int) set" where
  "occurrences E chars =
     {(a, b). 0 \<le> a \<and> a < b \<and> b \<le> int (length chars) \<and> runes_between chars (a, b) \<in> E}"

lemma set_ends_at:
  assumes "k < length chars"
  shows "(a, b) \<in> set (ends_at E (int k) (take (Suc k) chars)) \<longleftrightarrow> b = int k + 1 \<and> (a, b) \<in> occurrences E chars"
    (is "?l \<longleftrightarrow> ?r")
proof
  assume ?l
  then obtain s where s: "s \<in> E" "s \<noteq> []" "suffix s (take (Suc k) chars)" "a = int k + 1 - int (length s)" "b = int k + 1"
    by (auto simp: ends_at_def set_tails)
  then obtain q where q: "take (Suc k) chars = q @ s" by (auto simp: suffix_def)
  from arg_cong [OF q, of length] assms have len: "Suc k = length q + length s" by simp
  with s(4) have "nat a = length q" "0 \<le> a" by auto
  moreover have "nat b = Suc k" using s(5) by simp
  ultimately have "runes_between chars (a, b) = s" using q by (simp add: runes_between_def)
  moreover have "Suc 0 \<le> length s" using s(2) by (cases s) auto
  ultimately show ?r using s \<open>0 \<le> a\<close> assms by (simp add: occurrences_def)
next
  assume r: ?r
  then have b: "nat b = Suc k" "b = int k + 1" and ab: "0 \<le> a" "a < b" "runes_between chars (a, b) \<in> E"
    by (auto simp: occurrences_def)
  let ?s = "drop (nat a) (take (Suc k) chars)"
  have "?s \<in> E" using ab(3) b(1) by (simp add: runes_between_def)
  moreover have len: "length ?s = Suc k - nat a" using assms by simp
  moreover have "?s \<noteq> []" "int k + 1 - int (length ?s) = a" using len ab(1,2) b(2) by auto
  ultimately show ?l
    using b(2) by (auto simp: ends_at_def set_tails suffix_drop intro!: image_eqI [of _ _ ?s])
qed

lemma distinct_ends_at: "distinct (ends_at E i xs)"
proof -
  have len: "distinct (map length (tails xs))"
  proof (induction xs)
    case (Cons x xs)
    have "length s \<le> length xs" if "s \<in> set (tails xs)" for s
      using that by (auto simp: set_tails suffix_length_le)
    then show ?case using Cons by fastforce
  qed simp
  have "inj_on (\<lambda>s. (i + 1 - int (length s), i + 1)) (set (tails xs))"
    using len by (auto simp: inj_on_def distinct_map)
  with len show ?thesis
    by (auto simp: ends_at_def distinct_map intro: inj_on_subset)
qed

lemma node_find_exact:
  assumes "automaton h N E"
  shows "\<exists>scopes. node_find h chars = Some scopes \<and> set scopes = occurrences E chars \<and> distinct scopes"
proof -
  let ?e = "\<lambda>k. ends_at E (int k) (take (Suc k) chars)"
  have "set (concat (map ?e [0..<length chars])) = occurrences E chars"
  proof (intro set_eqI, rule iffI)
    fix p assume "p \<in> set (concat (map ?e [0..<length chars]))"
    then obtain k where "k < length chars" "p \<in> set (?e k)" by auto
    then show "p \<in> occurrences E chars" using set_ends_at by (cases p) blast
  next
    fix p assume p: "p \<in> occurrences E chars"
    obtain a b where ab: "p = (a, b)" by (cases p)
    with p have "0 < b" "b \<le> int (length chars)" by (auto simp: occurrences_def)
    then have k: "nat b - 1 < length chars" "b = int (nat b - 1) + 1" by auto
    then have "p \<in> set (?e (nat b - 1))" using set_ends_at [OF k(1)] p ab by blast
    with k(1) show "p \<in> set (concat (map ?e [0..<length chars]))" by auto
  qed
  moreover have "distinct (concat (map ?e [0..<length chars]))"
  proof -
    have disj: "set (?e k) \<inter> set (?e l) = {}" if "k < length chars" "l < length chars" "k \<noteq> l" for k l
    proof (rule ccontr)
      assume "set (?e k) \<inter> set (?e l) \<noteq> {}"
      then obtain a b where "(a, b) \<in> set (?e k)" "(a, b) \<in> set (?e l)" by auto
      then have "b = int k + 1" "b = int l + 1"
        using set_ends_at [OF that(1), of a b E] set_ends_at [OF that(2), of a b E] by simp_all
      with that(3) show False by simp
    qed
    have "distinct (concat (map ?e ks))" if "distinct ks" "set ks \<subseteq> {..<length chars}" for ks
      using that
    proof (induction ks)
      case (Cons k ks)
      then have "set (?e k) \<inter> set (concat (map ?e ks)) = {}" 
        using disj [of k] by (auto simp: disjoint_iff)
      with Cons show ?case by (simp add: distinct_ends_at)
    qed simp
    then show ?thesis by (auto simp: atLeast0LessThan)
  qed
  ultimately show ?thesis using node_find_eq [OF assms] by blast
qed

section \<open>Filtering\<close>

lemma length_mask: "length (foldl (\<lambda>cs i. cs[i := mk]) cs is) = length cs"
  by (induction "is" arbitrary: cs) auto

lemma nth_mask:
  "j < length cs \<Longrightarrow> foldl (\<lambda>cs i. cs[i := mk]) cs is ! j = (if j \<in> set is then mk else cs ! j)"
  by (induction "is" arbitrary: cs) auto

lemma length_masks [simp]: "length (foldl (replaceWithAsterisk mk) cs scopes) = length cs"
  by (induction scopes arbitrary: cs) (auto simp: replaceWithAsterisk_def length_mask)

lemma nth_masks:
  assumes "j < length cs"
  shows "foldl (replaceWithAsterisk mk) cs scopes ! j =
    (if \<exists>s \<in> set scopes. nat (fst s) \<le> j \<and> j < nat (snd s) then mk else cs ! j)"
  using assms
proof (induction scopes arbitrary: cs)
  case (Cons s scopes)
  have "length (replaceWithAsterisk mk cs s) = length cs" by (simp add: replaceWithAsterisk_def length_mask)
  with Cons show ?case by (auto simp: replaceWithAsterisk_def nth_mask)
qed simp

lemma collectKeywords_set: "set (collectKeywords chars scopes) = runes_between chars ` set scopes"
  and collectKeywords_distinct: "distinct (collectKeywords chars scopes)"
proof -
  have "go_map m \<Longrightarrow> go_map (foldl (\<lambda>m v. AList.update (runes_between chars v) () m) m scopes) \<and>
    fst ` set (foldl (\<lambda>m v. AList.update (runes_between chars v) () m) m scopes) = fst ` set m \<union> runes_between chars ` set scopes" for m
  proof (induction scopes arbitrary: m)
    case (Cons v scopes)
    let ?m = "AList.update (runes_between chars v) () m"
    have "go_map ?m" using Cons.prems by (rule go_map_update)
    from Cons.IH [OF this] show ?case using dom_update [of "runes_between chars v" "()" m] by simp
  qed simp
  from this [of "[]"] show "set (collectKeywords chars scopes) = runes_between chars ` set scopes"
    "distinct (collectKeywords chars scopes)"
    by (simp_all add: collectKeywords_def go_map_def)
qed

lemma occurrences_sublist:
  "(\<exists>s \<in> occurrences E chars. runes_between chars s = w) \<longleftrightarrow> w \<in> E \<and> w \<noteq> [] \<and> sublist w chars"
proof
  assume "\<exists>s \<in> occurrences E chars. runes_between chars s = w"
  then obtain a b where ab: "0 \<le> a" "a < b" "b \<le> int (length chars)" "w \<in> E" "w = drop (nat a) (take (nat b) chars)"
    by (auto simp: occurrences_def runes_between_def)
  then have "sublist w chars" by (metis sublist_drop sublist_take sublist_order.order.trans)
  moreover have "w \<noteq> []" using ab by auto
  ultimately show "w \<in> E \<and> w \<noteq> [] \<and> sublist w chars" using ab(4) by blast
next
  assume w: "w \<in> E \<and> w \<noteq> [] \<and> sublist w chars"
  then obtain p q where "chars = p @ w @ q" by (auto simp: sublist_def)
  with w show "\<exists>s \<in> occurrences E chars. runes_between chars s = w"
    by (intro bexI [of _ "(int (length p), int (length p + length w))"])
      (auto simp: occurrences_def runes_between_def nat_add_distrib)
qed

section \<open>Replacing\<close>

text \<open>
  The reference: at every position from the left, the longest keyword that stands there is
  replaced and skipped, and a rune where none stands is kept.
\<close>

definition longest_key :: "rune list set \<Rightarrow> rune list \<Rightarrow> nat option" where
  "longest_key K xs =
     (case filter (\<lambda>k. 0 < k \<and> take k xs \<in> K) (rev [0..<Suc (length xs)]) of [] \<Rightarrow> None | k # _ \<Rightarrow> Some k)"

lemma longest_key_None: "longest_key K xs = None \<longleftrightarrow> (\<forall>k. 0 < k \<longrightarrow> k \<le> length xs \<longrightarrow> take k xs \<notin> K)"
proof -
  have "longest_key K xs = None \<longleftrightarrow> filter (\<lambda>k. 0 < k \<and> take k xs \<in> K) (rev [0..<Suc (length xs)]) = []"
    unfolding longest_key_def by (simp split: list.split del: upt_Suc)
  also have "\<dots> \<longleftrightarrow> (\<forall>k. 0 < k \<longrightarrow> k \<le> length xs \<longrightarrow> take k xs \<notin> K)"
    by (simp add: filter_empty_conv Ball_def less_Suc_eq_le imp_conjL del: upt_Suc) blast
  finally show ?thesis .
qed

lemma longest_key_Some:
  assumes "0 < k" and "k \<le> length xs" and "take k xs \<in> K" and "\<And>j. k < j \<Longrightarrow> j \<le> length xs \<Longrightarrow> take j xs \<notin> K"
  shows "longest_key K xs = Some k"
proof -
  have "rev [0..<Suc (length xs)] = rev [Suc k..<Suc (length xs)] @ k # rev [0..<k]"
    using assms(2) by (metis Suc_le_mono le0 le_imp_less_Suc less_imp_le_nat rev.simps(2) rev_append rev_rev_ident upt_add_eq_append upt_Suc append_assoc append_Cons append_Nil upt_conv_Cons add_0 le_add_diff_inverse)
  moreover have "filter (\<lambda>k. 0 < k \<and> take k xs \<in> K) (rev [Suc k..<Suc (length xs)]) = []"
    using assms(4) by (auto simp: filter_empty_conv less_Suc_eq_le Suc_le_eq)
  ultimately show ?thesis using assms(1,3) by (simp add: longest_key_def del: upt_Suc)
qed

lemma longest_key_pos: "longest_key K xs = Some k \<Longrightarrow> 0 < k \<and> k \<le> length xs"
proof -
  assume "longest_key K xs = Some k"
  then have "k \<in> set (filter (\<lambda>k. 0 < k \<and> take k xs \<in> K) (rev [0..<Suc (length xs)]))"
    by (auto simp: longest_key_def simp del: upt_Suc set_filter filter.simps split: list.splits)
  then show ?thesis by (auto simp: less_Suc_eq_le simp del: upt_Suc)
qed

function ref_replace :: "(rune list, rune list) go_map \<Rightarrow> rune list \<Rightarrow> rune list" where
  "ref_replace m xs =
     (if xs = [] then []
      else case longest_key (fst ` set m) xs of
        None \<Rightarrow> hd xs # ref_replace m (tl xs)
      | Some k \<Rightarrow> mapped m (take k xs) @ ref_replace m (drop k xs))"
  by pat_completeness auto

termination
  by (relation "measure (\<lambda>(m, xs). length xs)") (auto dest: longest_key_pos)

declare ref_replace.simps [simp del]

text \<open>No keyword stands at any position of a part: the part is kept.\<close>

lemma ref_replace_skip:
  "(\<And>j. j < n \<Longrightarrow> longest_key (fst ` set m) (drop j xs) = None) \<Longrightarrow> n \<le> length xs \<Longrightarrow>
     ref_replace m xs = take n xs @ ref_replace m (drop n xs)"
proof (induction n arbitrary: xs)
  case (Suc n)
  then obtain x ys where xs: "xs = x # ys" by (cases xs) auto
  have "ref_replace m xs = x # ref_replace m ys"
    using Suc.prems(1) [of 0] xs by (subst ref_replace.simps) simp
  also have "ref_replace m ys = take n ys @ ref_replace m (drop n ys)"
    using Suc.prems(1) [of "Suc _"] Suc.prems(2) xs by (intro Suc.IH) auto
  finally show ?case using xs by simp
qed simp

lemma ref_replace_hit:
  "longest_key (fst ` set m) xs = Some k \<Longrightarrow> ref_replace m xs = mapped m (take k xs) @ ref_replace m (drop k xs)"
  using longest_key_pos [of "fst ` set m" xs k] by (subst ref_replace.simps) auto

lemma occurrence_at:
  assumes "0 \<le> a" and "0 < k"
  shows "(a, a + int k) \<in> occurrences K chars \<longleftrightarrow> k \<le> length (drop (nat a) chars) \<and> take k (drop (nat a) chars) \<in> K"
  using assms by (auto simp: occurrences_def runes_between_def nat_add_distrib take_drop add.commute)

lemma no_occurrence_None:
  assumes "0 \<le> a" and "\<And>b. (a, b) \<notin> occurrences K chars"
  shows "longest_key K (drop (nat a) chars) = None"
  unfolding longest_key_None
proof (intro allI impI notI)
  fix k assume k: "0 < k" "k \<le> length (drop (nat a) chars)" "take k (drop (nat a) chars) \<in> K"
  with occurrence_at [OF assms(1) k(1), of K chars] have "(a, a + int k) \<in> occurrences K chars" by blast
  with assms(2) show False by blast
qed

lemma longest_occurrence_Some:
  assumes "(a, b) \<in> occurrences K chars" and "\<And>b'. (a, b') \<in> occurrences K chars \<Longrightarrow> b' \<le> b"
  shows "longest_key K (drop (nat a) chars) = Some (nat (b - a))"
proof -
  have ab: "0 \<le> a" "a < b" using assms(1) by (auto simp: occurrences_def)
  then have b: "b = a + int (nat (b - a))" "0 < nat (b - a)" by auto
  have hit: "nat (b - a) \<le> length (drop (nat a) chars)" "take (nat (b - a)) (drop (nat a) chars) \<in> K"
    using occurrence_at [OF ab(1) b(2), of K chars] assms(1) b(1) by simp_all
  show ?thesis
  proof (rule longest_key_Some [OF b(2) hit])
    fix j assume j: "nat (b - a) < j" "j \<le> length (drop (nat a) chars)"
    show "take j (drop (nat a) chars) \<notin> K"
    proof
      assume "take j (drop (nat a) chars) \<in> K"
      with j have "(a, a + int j) \<in> occurrences K chars" using occurrence_at [OF ab(1), of j K chars] by simp
      from assms(2) [OF this] j(1) show False by linarith
    qed
  qed
qed

lemma scope_order:
  "sorted (map (\<lambda>s. (fst s, - snd s)) (s # ss)) \<Longrightarrow> (t :: int \<times> int) \<in> set ss \<Longrightarrow>
     fst s < fst t \<or> (fst s = fst t \<and> snd t \<le> snd s)"
  by (auto simp: less_eq_prod_def)

lemma replace_loop_ref:
  assumes "sorted (map (\<lambda>s. (fst s, - snd s)) scopes)" and "set scopes \<subseteq> occurrences (fst ` set m) chars"
    and "\<And>s. s \<in> occurrences (fst ` set m) chars \<Longrightarrow> index \<le> fst s \<Longrightarrow> s \<in> set scopes"
    and "0 \<le> index" and "index \<le> int (length chars)"
    and "replace_loop m chars scopes index buf = (buf', index')"
  shows "0 \<le> index' \<and> buf' @ drop (nat index') chars = buf @ ref_replace m (drop (nat index) chars)"
  using assms
proof (induction scopes arbitrary: index buf)
  case Nil
  let ?xs = "drop (nat index) chars"
  have "ref_replace m ?xs = take (length ?xs) ?xs @ ref_replace m (drop (length ?xs) ?xs)"
  proof (rule ref_replace_skip)
    fix j assume "j < length ?xs"
    have "longest_key (fst ` set m) (drop (nat (index + int j)) chars) = None"
      using Nil.prems(3) [of "(index + int j, _)"] Nil.prems(4) by (intro no_occurrence_None) auto
    then show "longest_key (fst ` set m) (drop j ?xs) = None"
      using Nil.prems(4) by (simp add: nat_add_distrib add.commute)
  qed simp
  then show ?case using Nil.prems by (simp add: ref_replace.simps [of m "[]"])
next
  case (Cons s scopes)
  let ?K = "fst ` set m"
  obtain a b where s: "s = (a, b)" by (cases s)
  have occ: "(a, b) \<in> occurrences ?K chars" using Cons.prems(2) s by simp
  then have ab: "0 \<le> a" "a < b" "b \<le> int (length chars)" by (auto simp: occurrences_def)
  have order: "a < fst t \<or> (a = fst t \<and> snd t \<le> b)" if "t \<in> set scopes" for t
    using scope_order [OF Cons.prems(1) that] s by simp
  show ?case
  proof (cases "a < index")
    case True
    have "replace_loop m chars scopes index buf = (buf', index')" using Cons.prems(6) True s by simp
    with True s show ?thesis using Cons.prems(1-5) by (intro Cons.IH) auto
  next
    case False
    let ?xs = "drop (nat index) chars" and ?n = "nat (a - index)"
    have none: "longest_key ?K (drop j ?xs) = None" if "j < ?n" for j
    proof -
      have "(index + int j, b') \<notin> occurrences ?K chars" for b'
      proof
        assume "(index + int j, b') \<in> occurrences ?K chars"
        then have "(index + int j, b') \<in> set (s # scopes)" by (rule Cons.prems(3)) simp
        then show False using order [of "(index + int j, b')"] s that by auto
      qed
      then have "longest_key ?K (drop (nat (index + int j)) chars) = None"
        using Cons.prems(4) by (intro no_occurrence_None) auto
      then show ?thesis using Cons.prems(4) by (simp add: nat_add_distrib add.commute)
    qed
    have drop_a: "drop ?n ?xs = drop (nat a) chars" using False Cons.prems(4) by (simp add: nat_diff_distrib)
    have skip: "ref_replace m ?xs = runes_between chars (index, a) @ ref_replace m (drop (nat a) chars)"
      using ref_replace_skip [of ?n m ?xs] none False Cons.prems(4) ab drop_a
      by (simp add: runes_between_def drop_take nat_diff_distrib)
    have long: "longest_key ?K (drop (nat a) chars) = Some (nat (b - a))"
    proof (rule longest_occurrence_Some [OF occ])
      fix b' assume "(a, b') \<in> occurrences ?K chars"
      then have "(a, b') \<in> set (s # scopes)" by (rule Cons.prems(3)) (use False in simp)
      then show "b' \<le> b" using order [of "(a, b')"] s by auto
    qed
    have hit: "ref_replace m (drop (nat a) chars) = mapped m (runes_between chars (a, b)) @ ref_replace m (drop (nat b) chars)"
      unfolding ref_replace_hit [OF long] using ab
      by (simp add: runes_between_def drop_take nat_diff_distrib)
    have loop: "replace_loop m chars scopes b (buf @ runes_between chars (index, a) @ mapped m (runes_between chars (a, b))) = (buf', index')"
      using Cons.prems(6) False s by simp
    have "0 \<le> index' \<and> buf' @ drop (nat index') chars =
        (buf @ runes_between chars (index, a) @ mapped m (runes_between chars (a, b))) @ ref_replace m (drop (nat b) chars)"
    proof (rule Cons.IH [OF _ _ _ _ _ loop])
      fix t assume "t \<in> occurrences ?K chars" "b \<le> fst t"
      then have "t \<in> set (s # scopes)" using Cons.prems(3) [of t] False ab by simp
      then show "t \<in> set scopes" using \<open>b \<le> fst t\<close> ab s by auto
    qed (use Cons.prems(1,2) ab in auto)
    then show ?thesis by (simp add: skip hit)
  qed
qed

lemma doReplace_ref:
  assumes A: "automaton (rp_node r) N (fst ` set (rp_mapping r) - {[]})"
  shows "doReplace r chars =
    Some (ref_replace (rp_mapping r) chars, \<exists>k \<in> fst ` set (rp_mapping r). k \<noteq> [] \<and> sublist k chars)"
proof -
  let ?m = "rp_mapping r" and ?K = "fst ` set (rp_mapping r)"
  have same: "occurrences (?K - {[]}) chars = occurrences ?K chars"
    by (auto simp: occurrences_def runes_between_def)
  from node_find_exact [OF A, of chars] obtain scopes where
    f: "node_find (rp_node r) chars = Some scopes" "set scopes = occurrences ?K chars" unfolding same by blast
  obtain buf index where loop: "replace_loop ?m chars (sort_scopes scopes) 0 [] = (buf, index)" by fastforce
  have ref: "0 \<le> index \<and> buf @ drop (nat index) chars = [] @ ref_replace ?m (drop (nat 0) chars)"
    by (rule replace_loop_ref [OF _ _ _ _ _ loop]) (auto simp: sort_scopes_def f(2))
  have flag: "(\<exists>k \<in> ?K. k \<noteq> [] \<and> sublist k chars) \<longleftrightarrow> scopes \<noteq> []"
    using occurrences_sublist [of ?K chars] f(2) by (metis empty_iff equals0I set_empty)
  have tail: "(if index < int (length chars) then drop (nat index) chars else []) = drop (nat index) chars"
    using ref by simp
  show ?thesis
  proof (cases "scopes = []")
    case True
    then have "buf = []" "index = 0" using loop by (simp_all add: sort_scopes_def)
    with ref True f(1) flag show ?thesis by (simp add: doReplace_def)
  next
    case False
    with ref f(1) flag loop tail show ?thesis by (simp add: doReplace_def)
  qed
qed

lemma foldl_fst: "foldl (\<lambda>h (k, _). node_add k h) h m = foldl (\<lambda>h w. node_add w h) h (map fst m)"
  by (induction m arbitrary: h) auto

lemma NewReplacer_automaton:
  assumes "perm_order rng"
  shows "\<exists>h N. NewReplacer rng m = Some \<lparr>rp_node = h, rp_mapping = m\<rparr> \<and> automaton h N (fst ` set m - {[]})"
  using built_automaton [OF assms, of "map fst m"] by (auto simp: NewReplacer_def foldl_fst)

section \<open>Properties\<close>

text \<open>
  C10.  The keyword filter is exact, for every list of keywords, every text and every iteration order
  of the maps: building the automaton and every search return, the reported keywords are
  exactly the nonempty ones that occur in the text, each once, and the filtered text is the text
  with exactly the runes that lie in an occurrence of a keyword masked.
\<close>

theorem trie_Filter_exact:
  assumes "perm_order rng"
  shows "\<exists>t kws. NewTrie rng ws mk = Some t \<and> trie_FindKeywords t chars = Some kws \<and>
    trie_Filter t chars =
      Some (map (\<lambda>i. if \<exists>(a, b) \<in> occurrences (set ws) chars. a \<le> int i \<and> int i < b
                     then if mk = 0 then 42 else mk else chars ! i) [0..<length chars],
            kws, kws \<noteq> []) \<and>
    distinct kws \<and> set kws = {w \<in> set ws. w \<noteq> [] \<and> sublist w chars}"
proof -
  let ?E = "set ws - {[]}"
  have same: "occurrences ?E chars = occurrences (set ws) chars"
    by (auto simp: occurrences_def runes_between_def)
  from built_automaton [OF assms, of ws] obtain h N where
    h: "node_build rng (foldl (\<lambda>h w. node_add w h) new_root ws) = Some h" "automaton h N ?E" by blast
  let ?t = "(h, if mk = 0 then 42 else mk)"
  from node_find_exact [OF h(2), of chars] obtain scopes where
    f: "node_find h chars = Some scopes" "set scopes = occurrences (set ws) chars" unfolding same by blast
  let ?kws = "collectKeywords chars scopes"
  have kws: "set ?kws = {w \<in> set ws. w \<noteq> [] \<and> sublist w chars}"
  proof (rule set_eqI)
    fix w
    have "w \<in> set ?kws \<longleftrightarrow> (\<exists>s \<in> occurrences (set ws) chars. runes_between chars s = w)"
      by (auto simp: collectKeywords_set f(2) image_iff)
    then show "w \<in> set ?kws \<longleftrightarrow> w \<in> {w \<in> set ws. w \<noteq> [] \<and> sublist w chars}"
      by (simp add: occurrences_sublist)
  qed
  let ?mask = "\<lambda>i. if \<exists>(a, b) \<in> occurrences (set ws) chars. a \<le> int i \<and> int i < b
                   then if mk = 0 then 42 else mk else chars ! i"
  have "foldl (replaceWithAsterisk (snd ?t)) chars scopes = map ?mask [0..<length chars]"
  proof (rule nth_equalityI)
    fix i assume "i < length (foldl (replaceWithAsterisk (snd ?t)) chars scopes)"
    then have i: "i < length chars" by simp
    have "(\<exists>s \<in> set scopes. nat (fst s) \<le> i \<and> i < nat (snd s)) \<longleftrightarrow>
        (\<exists>(a, b) \<in> occurrences (set ws) chars. a \<le> int i \<and> int i < b)"
      unfolding f(2) by (intro bex_cong refl) (auto simp: nat_le_iff zless_nat_eq_int_zless)
    then show "foldl (replaceWithAsterisk (snd ?t)) chars scopes ! i = map ?mask [0..<length chars] ! i"
      using i by (simp add: nth_masks [OF i])
  qed simp
  moreover have "chars = [] \<Longrightarrow> scopes = []" using f(2) by (auto simp: occurrences_def set_empty [symmetric] simp del: set_empty)
  ultimately have "trie_Filter ?t chars = Some (map ?mask [0..<length chars], ?kws, ?kws \<noteq> [])"
    "trie_FindKeywords ?t chars = Some ?kws"
    using f(1) by (auto simp: trie_Filter_def trie_FindKeywords_def collectKeywords_def)
  moreover have "NewTrie rng ws mk = Some ?t" using h(1) by (simp add: NewTrie_def)
  ultimately show ?thesis using kws collectKeywords_distinct by blast
qed

theorem trie_Filter_exact_witness:
  "\<exists>t kws. NewTrie (\<lambda>_ xs. rev xs) [[1, 2], [2, 3], [2]] 0 = Some t \<and> trie_FindKeywords t [1, 2, 4] = Some kws \<and>
     set kws = {[1, 2], [2]}"
proof -
  have "perm_order (\<lambda>_ xs. rev xs)" by (simp add: perm_order_def)
  from trie_Filter_exact [OF this, of "[[1, 2], [2, 3], [2]]" 0 "[1, 2, 4]"] show ?thesis
    by (auto simp: sublist_code cong: conj_cong)
qed

text \<open>
  C27.  \<open>Replace\<close> is leftmost-longest replacement, applied twice, for every mapping, every text and
  every iteration order of the maps: each round of the automaton, the sorted scopes and the loop over
  them gives the text of the reference, and tells whether a keyword occurred.
\<close>

theorem replacer_Replace_exact:
  assumes "perm_order rng"
  shows "\<exists>r. NewReplacer rng m = Some r \<and>
    doReplace r chars = Some (ref_replace m chars, \<exists>k \<in> fst ` set m. k \<noteq> [] \<and> sublist k chars) \<and>
    replacer_Replace r chars = Some (ref_replace m (ref_replace m chars))"
proof -
  from NewReplacer_automaton [OF assms, of m] obtain h N where
    r: "NewReplacer rng m = Some \<lparr>rp_node = h, rp_mapping = m\<rparr>" "automaton h N (fst ` set m - {[]})" by blast
  let ?r = "\<lparr>rp_node = h, rp_mapping = m\<rparr>"
  have once: "doReplace ?r xs = Some (ref_replace m xs, \<exists>k \<in> fst ` set m. k \<noteq> [] \<and> sublist k xs)" for xs
    using doReplace_ref [of ?r N xs] r(2) by simp
  have id: "ref_replace m xs = xs" if "\<not> (\<exists>k \<in> fst ` set m. k \<noteq> [] \<and> sublist k xs)" for xs
  proof -
    have "doReplace ?r xs = Some (ref_replace m xs, False)" using once [of xs] that by simp
    then show ?thesis by (auto simp: doReplace_def bind_eq_Some_conv split: if_splits prod.splits)
  qed
  have "replacer_Replace ?r chars = Some (ref_replace m (ref_replace m chars))"
    using id [of chars] by (simp add: replacer_Replace_def replaceTimes_def numeral_2_eq_2 once)
  with r(1) once show ?thesis by blast
qed

theorem replacer_Replace_exact_witness:
  "\<exists>r. NewReplacer (\<lambda>_ xs. xs) [([1, 2], [2]), ([1], [3])] = Some r \<and> replacer_Replace r [1, 1, 2] = Some [3, 2]"
proof -
  have "perm_order (\<lambda>_ xs. xs)" by (simp add: perm_order_def)
  from replacer_Replace_exact [OF this, of "[([1, 2], [2]), ([1], [3])]" "[1, 1, 2]"] show ?thesis
    by (simp add: ref_replace.simps longest_key_def mapped_def upt_rec) blast
qed

end
