(* ===== verification/Api_Router.thy ===== *)
theory Api_Router
  imports Path_Match Memory_Registry Metadata
begin

text \<open>
  The router of the API gateway: the endpoint descriptions of \<open>api/router/endpoint.go\<close> and
  \<open>api/api.go\<close>, the router over the registry of \<open>api/router/registry/registry.go\<close>, and the path resolver
  of \<open>api/resolver/vpath/vpath.go\<close>.  Path templates are those of \<open>Path_Template\<close> and \<open>Path_Pattern\<close>.

  POSIX regular expressions are a parameter, a compile function and a match function about
  which nothing is assumed.  The registry cache and the resolver are arguments of \<open>Route\<close>.  A panic
  is an \<open>Inl\<close> with its cause.  Log lines are left out; \<open>strings.TrimSpace\<close> is exact on
  ASCII.  The goroutines \<open>watch\<close> and \<open>refresh\<close> call \<open>store\<close> with what the cache returns, which is the step
  relation below.
\<close>

section \<open>Endpoints and their metadata\<close>

record rendpoint =
  re_Name :: string
  re_Description :: string
  re_Handler :: string
  re_Host :: "string list"
  re_Method :: "string list"
  re_Path :: "string list"
  re_Stream :: bool

definition is_space :: "char \<Rightarrow> bool" where
  "is_space c \<longleftrightarrow> of_char c \<in> {9, 10, 11, 12, 13, 32 :: nat}"

definition strip :: "string \<Rightarrow> string" where
  "strip s = rev (dropWhile is_space (rev (dropWhile is_space s)))"

definition slice :: "string \<Rightarrow> string list" where
  "slice s = foldl (\<lambda>sl p. if length (strip p) > 0 then sl @ [strip p] else sl) [] (go_split (CHR '','') s)"

definition set_val :: "string \<Rightarrow> string \<Rightarrow> (string, string) go_map \<Rightarrow> (string, string) go_map" where
  "set_val k v em = (if length v = 0 then em else AList.update k v em)"

definition Encode :: "rendpoint option \<Rightarrow> (string, string) go_map option" where
  "Encode e =
     (case e of
        None \<Rightarrow> None
      | Some e \<Rightarrow>
          Some (set_val ''host'' (go_join '','' (re_Host e))
               (set_val ''path'' (go_join '','' (re_Path e))
               (set_val ''method'' (go_join '','' (re_Method e))
               (set_val ''handler'' (re_Handler e)
               (set_val ''description'' (re_Description e)
               (set_val ''endpoint'' (re_Name e) [])))))))"

definition Decode :: "(string, string) go_map option \<Rightarrow> rendpoint option" where
  "Decode e =
     (case e of
        None \<Rightarrow> None
      | Some e \<Rightarrow>
          Some \<lparr>re_Name = md_at e ''endpoint'', re_Description = md_at e ''description'', re_Handler = md_at e ''handler'',
                re_Host = slice (md_at e ''host''), re_Method = slice (md_at e ''method''), re_Path = slice (md_at e ''path''),
                re_Stream = False\<rparr>)"

record 're regexps =
  rx_compile :: "string \<Rightarrow> 're option"
  rx_match :: "'re \<Rightarrow> string \<Rightarrow> bool"

text \<open>\<open>Validate\<close>: \<open>Inl\<close> is the panic of \<open>p[0]\<close> on an empty path, \<open>Inr None\<close> the nil error.\<close>

fun validate_paths :: "'re regexps \<Rightarrow> string list \<Rightarrow> string + string option" where
  "validate_paths rx [] = Inr None"
| "validate_paths rx (p # ps) =
     (if p = [] then Inl ''index out of range''
      else if hd p = CHR ''^'' \<and> last p = CHR ''$'' then
        (if rx_compile rx p = None then Inr (Some ''invalid regexp'') else validate_paths rx ps)
      else if hd p = CHR ''^'' \<and> last p \<noteq> CHR ''$'' then Inr (Some ''invalid path'')
      else if hd p \<noteq> CHR ''^'' \<and> last p = CHR ''$'' then Inr (Some ''invalid path'')
      else validate_paths rx ps)"

definition Validate :: "'re regexps \<Rightarrow> rendpoint option \<Rightarrow> string + string option" where
  "Validate rx e =
     (case e of
        None \<Rightarrow> Inr (Some ''endpoint is nil'')
      | Some e \<Rightarrow>
          if length (re_Name e) = 0 then Inr (Some ''name required'')
          else case validate_paths rx (re_Path e) of
            Inl p \<Rightarrow> Inl p
          | Inr (Some err) \<Rightarrow> Inr (Some err)
          | Inr None \<Rightarrow> if length (re_Handler e) = 0 then Inr (Some ''invalid handler'') else Inr None)"

section \<open>The routing table\<close>

record route =
  rt_Service :: string
  rt_Endpoint :: rendpoint
  rt_Versions :: "service list"

record 're cendpoint =
  cp_hostregs :: "'re list"
  cp_pathregs :: "pattern list"
  cp_pcreregs :: "'re list"

record 're registryRouter =
  rr_eps :: "(string, route) go_map"
  rr_ceps :: "(string, 're cendpoint) go_map"
  rr_exit :: bool
  rr_Handler :: string

definition newRouter :: "string \<Rightarrow> 're registryRouter" where
  "newRouter handler = \<lparr>rr_eps = [], rr_ceps = [], rr_exit = False, rr_Handler = handler\<rparr>"

definition router_Stop :: "'re registryRouter \<Rightarrow> 're registryRouter" where
  "router_Stop r = r\<lparr>rr_exit := True\<rparr>"

text \<open>One endpoint of one service in the first loop of \<open>store\<close>.\<close>

definition add_endpoint ::
  "'re regexps \<Rightarrow> service \<Rightarrow> (string, route) go_map \<Rightarrow> endpoint \<Rightarrow> string + (string, route) go_map" where
  "add_endpoint rx service eps sep =
     (let key = sv_Name service @ ''.'' @ ep_Name sep; e = Decode (Some (ep_Metadata sep))
      in case Validate rx e of
           Inl p \<Rightarrow> Inl p
         | Inr (Some err) \<Rightarrow> Inr eps
         | Inr None \<Rightarrow>
             let ep = (case map_of eps key of
                         Some ep \<Rightarrow> ep
                       | None \<Rightarrow> \<lparr>rt_Service = sv_Name service, rt_Endpoint = the e, rt_Versions = []\<rparr>)
             in Inr (AList.update key (ep\<lparr>rt_Endpoint := the e, rt_Versions := rt_Versions ep @ [service]\<rparr>) eps))"

definition service_endpoints :: "'re regexps \<Rightarrow> service list \<Rightarrow> string + (string, route) go_map" where
  "service_endpoints rx services =
     sum_fold (\<lambda>eps service. sum_fold (add_endpoint rx service) eps (sv_Endpoints service)) [] services"

text \<open>One path of an endpoint: its regular expression and its compiled pattern, where they exist.\<close>

definition path_pcre :: "'re regexps \<Rightarrow> string \<Rightarrow> 're option" where
  "path_pcre rx p = (if hd p = CHR ''^'' \<and> last p = CHR ''$'' then rx_compile rx p else None)"

definition path_pattern :: "string \<Rightarrow> pattern option" where
  "path_pattern p =
     (case Parse p of
        Inl _ \<Rightarrow> None
      | Inr rule \<Rightarrow>
          (let tpl = template_Compile rule
           in case NewPattern (Version tpl) (OpCodes tpl) (Pool tpl) [] [PatternLogger []] of
                Inl _ \<Rightarrow> None
              | Inr pathreg \<Rightarrow> Some pathreg))"

definition compile_path :: "'re regexps \<Rightarrow> 're cendpoint \<Rightarrow> string \<Rightarrow> string + 're cendpoint" where
  "compile_path rx cep p =
     (if p = [] then Inl ''index out of range''
      else
        (let cep = (case path_pcre rx p of Some re \<Rightarrow> cep\<lparr>cp_pcreregs := cp_pcreregs cep @ [re]\<rparr> | None \<Rightarrow> cep)
         in Inr (case path_pattern p of Some pt \<Rightarrow> cep\<lparr>cp_pathregs := cp_pathregs cep @ [pt]\<rparr> | None \<Rightarrow> cep)))"

definition compile_hosts :: "'re regexps \<Rightarrow> string list \<Rightarrow> 're list" where
  "compile_hosts rx hosts =
     foldl (\<lambda>regs h. if h = [] \<or> h = ''*'' then regs
                      else case rx_compile rx h of None \<Rightarrow> regs | Some re \<Rightarrow> regs @ [re]) [] hosts"

definition compile_endpoint :: "'re regexps \<Rightarrow> rendpoint \<Rightarrow> string + 're cendpoint" where
  "compile_endpoint rx ep =
     sum_fold (compile_path rx) \<lparr>cp_hostregs = compile_hosts rx (re_Host ep), cp_pathregs = [], cp_pcreregs = []\<rparr> (re_Path ep)"

definition set_endpoint ::
  "'re regexps \<Rightarrow> 're registryRouter \<Rightarrow> string \<times> route \<Rightarrow> string + 're registryRouter" where
  "set_endpoint rx r p =
     (case p of (name, ep) \<Rightarrow>
        sum_bind (compile_endpoint rx (rt_Endpoint ep))
          (\<lambda>cep. Inr (r\<lparr>rr_eps := AList.update name ep (rr_eps r), rr_ceps := AList.update name cep (rr_ceps r)\<rparr>)))"

definition router_store :: "'re regexps \<Rightarrow> service list \<Rightarrow> 're registryRouter \<Rightarrow> string + 're registryRouter" where
  "router_store rx services r =
     sum_bind (service_endpoints rx services)
       (\<lambda>eps.
          let names = map sv_Name services;
              r' = r\<lparr>rr_eps := filter (\<lambda>(_, rt). rt_Service rt \<notin> set names) (rr_eps r)\<rparr>
          in sum_fold (set_endpoint rx) r' eps)"

definition router_process ::
  "'re regexps \<Rightarrow> (string \<Rightarrow> registry_error + service list) \<Rightarrow> string option \<Rightarrow> 're registryRouter \<Rightarrow> string + 're registryRouter" where
  "router_process rx getService name r =
     (case name of
        None \<Rightarrow> Inr r
      | Some name \<Rightarrow> (case getService name of Inl _ \<Rightarrow> Inr r | Inr services \<Rightarrow> router_store rx services r))"

text \<open>One round of \<open>refresh\<close>, on the names of the listed services.\<close>

definition router_refresh ::
  "'re regexps \<Rightarrow> (string \<Rightarrow> registry_error + service list) \<Rightarrow> string list \<Rightarrow> 're registryRouter \<Rightarrow> string + 're registryRouter" where
  "router_refresh rx getService names r =
     sum_fold (\<lambda>r name. case getService name of Inl _ \<Rightarrow> Inr r | Inr services \<Rightarrow> router_store rx services r) r names"

section \<open>Routing a request\<close>

record 'c hreq =
  hr_Method :: string
  hr_Path :: string
  hr_URLHost :: string
  hr_Host :: string
  hr_URL :: string
  hr_ctx :: 'c

fun host_loop :: "'re regexps \<Rightarrow> 're list \<Rightarrow> string \<Rightarrow> nat \<Rightarrow> string list \<Rightarrow> string + bool" where
  "host_loop rx regs host idx [] = Inr False"
| "host_loop rx regs host idx (h # hs) =
     (if h = [] \<or> h = ''*'' then Inr True
      else if length regs \<le> idx then Inl ''index out of range''
      else if rx_match rx (regs ! idx) host then Inr True
      else host_loop rx regs host (idx + 1) hs)"

definition host_match :: "'re regexps \<Rightarrow> 're list \<Rightarrow> string \<Rightarrow> string list \<Rightarrow> string + bool" where
  "host_match rx regs host hosts = (if hosts = [] then Inr True else host_loop rx regs host 0 hosts)"

fun gpath_loop :: "string list \<Rightarrow> pattern list \<Rightarrow> string + (string, string) go_map option" where
  "gpath_loop path [] = Inr None"
| "gpath_loop path (pt # pts) =
     (case Match pt path [] of
        Inl MatchPanic \<Rightarrow> Inl ''index out of range''
      | Inl _ \<Rightarrow> gpath_loop path pts
      | Inr matches \<Rightarrow> Inr (Some matches))"

definition add_fields :: "(string, string) go_map \<Rightarrow> 'z ctx_scheme \<Rightarrow> 'z ctx_scheme" where
  "add_fields matches ctx =
     (let md = (case FromContext ctx of Some md \<Rightarrow> md | None \<Rightarrow> [])
      in NewContext (foldl (\<lambda>md (k, v). AList.update (''x-api-field-'' @ k) v md) md matches) ctx)"

definition request_path :: "string \<Rightarrow> string list" where
  "request_path path =
     (let idx = (if length path > 0 \<and> path \<noteq> ''/'' then 1 else 0) in go_split (CHR ''/'') (drop idx path))"

text \<open>The loop over the table: the first route that matches, with the request's new context.\<close>

fun endpoint_loop ::
  "'re regexps \<Rightarrow> (string, 're cendpoint) go_map \<Rightarrow> 'z ctx_scheme hreq \<Rightarrow> (string, route) go_map
     \<Rightarrow> string + (route \<times> 'z ctx_scheme hreq) option" where
  "endpoint_loop rx ceps req [] = Inr None"
| "endpoint_loop rx ceps req ((n, rt) # eps) =
     (case map_of ceps n of
        None \<Rightarrow> endpoint_loop rx ceps req eps
      | Some cep \<Rightarrow>
          let ep = rt_Endpoint rt
          in if hr_Method req \<notin> set (re_Method ep) then endpoint_loop rx ceps req eps
             else case host_match rx (cp_hostregs cep) (hr_URLHost req) (re_Host ep) of
               Inl p \<Rightarrow> Inl p
             | Inr False \<Rightarrow> endpoint_loop rx ceps req eps
             | Inr True \<Rightarrow>
                 (case gpath_loop (request_path (hr_Path req)) (cp_pathregs cep) of
                    Inl p \<Rightarrow> Inl p
                  | Inr (Some matches) \<Rightarrow> Inr (Some (rt, req\<lparr>hr_ctx := add_fields matches (hr_ctx req)\<rparr>))
                  | Inr None \<Rightarrow>
                      if list_ex (\<lambda>re. rx_match rx re (hr_Path req)) (cp_pcreregs cep) then Inr (Some (rt, req))
                      else endpoint_loop rx ceps req eps))"

datatype route_err = RouterClosed | RouteNotFound | UnknownHandler | ResolveErr string | LookupErr registry_error

definition router_Endpoint ::
  "'re regexps \<Rightarrow> 're registryRouter \<Rightarrow> 'z ctx_scheme hreq \<Rightarrow> string + (route_err + route \<times> 'z ctx_scheme hreq)" where
  "router_Endpoint rx r req =
     (if rr_exit r then Inr (Inl RouterClosed)
      else case endpoint_loop rx (rr_ceps r) req (rr_eps r) of
        Inl p \<Rightarrow> Inl p
      | Inr None \<Rightarrow> Inr (Inl RouteNotFound)
      | Inr (Some res) \<Rightarrow> Inr (Inr res))"

record rvEndpoint =
  rv_Name :: string
  rv_Host :: string
  rv_Method :: string
  rv_Path :: string

text \<open>The regular expression \<open>^v[0-9]+$\<close>.\<close>

definition is_vpart :: "string \<Rightarrow> bool" where
  "is_vpart s \<longleftrightarrow> (case s of [] \<Rightarrow> False | c # cs \<Rightarrow> c = CHR ''v'' \<and> cs \<noteq> [] \<and> list_all (\<lambda>d. 48 \<le> (of_char d :: nat) \<and> (of_char d :: nat) \<le> 57) cs)"

definition withNamespace :: "string \<Rightarrow> string list \<Rightarrow> string" where
  "withNamespace ns parts = (if length ns = 0 then go_join ''.'' parts else go_join ''.'' (ns # parts))"

text \<open>\<open>Resolve\<close> of the vpath resolver; \<open>Inl\<close> is the panic of \<open>Path[1:]\<close> on an empty path.\<close>

definition vpath_Resolve :: "('c hreq \<Rightarrow> string) \<Rightarrow> 'c hreq \<Rightarrow> string + (string + rvEndpoint)" where
  "vpath_Resolve namespace req =
     (if hr_Path req = ''/'' then Inr (Inl ''unknown name'')
      else if hr_Path req = [] then Inl ''slice bounds out of range''
      else
        (let parts = go_split (CHR ''/'') (drop 1 (hr_Path req));
             name = (if length parts = 1 then withNamespace (namespace req) parts
                     else if is_vpart (hd parts) then withNamespace (namespace req) (take 2 parts)
                     else withNamespace (namespace req) [hd parts])
         in Inr (Inr \<lparr>rv_Name = name, rv_Host = hr_Host req, rv_Method = hr_Method req, rv_Path = hr_Path req\<rparr>)))"

definition rpc_name :: "rvEndpoint \<Rightarrow> string" where
  "rpc_name rsp =
     (let comps = go_split (CHR ''/'') (rv_Path rsp)
      in if length comps = 3 then comps ! 1 @ ''.'' @ comps ! 2
         else if length comps = 4 then comps ! 2 @ ''.'' @ comps ! 3
         else rv_Method rsp)"

definition router_Route ::
  "'re regexps \<Rightarrow> ('z ctx_scheme hreq \<Rightarrow> string + (string + rvEndpoint)) \<Rightarrow> (string \<Rightarrow> registry_error + service list)
     \<Rightarrow> 're registryRouter \<Rightarrow> 'z ctx_scheme hreq \<Rightarrow> string + (route_err + route \<times> 'z ctx_scheme hreq)" where
  "router_Route rx resolve getService r req =
     (if rr_exit r then Inr (Inl RouterClosed)
      else case router_Endpoint rx r req of
        Inl p \<Rightarrow> Inl p
      | Inr (Inr res) \<Rightarrow> Inr (Inr res)
      | Inr (Inl _) \<Rightarrow>
          (case resolve req of
             Inl p \<Rightarrow> Inl p
           | Inr (Inl e) \<Rightarrow> Inr (Inl (ResolveErr e))
           | Inr (Inr rsp) \<Rightarrow>
               (case getService (rv_Name rsp) of
                  Inl e \<Rightarrow> Inr (Inl (LookupErr e))
                | Inr services \<Rightarrow>
                    if rr_Handler r \<in> {''meta'', ''api'', ''rpc''} then
                      Inr (Inr (\<lparr>rt_Service = rv_Name rsp,
                        rt_Endpoint = \<lparr>re_Name = rpc_name rsp, re_Description = [],
                          re_Handler = (if rr_Handler r = ''meta'' then ''rpc'' else rr_Handler r),
                          re_Host = [], re_Method = [], re_Path = [], re_Stream = False\<rparr>,
                        rt_Versions = services\<rparr>, req))
                    else if rr_Handler r \<in> {''http'', ''proxy'', ''web''} then
                      Inr (Inr (\<lparr>rt_Service = rv_Name rsp,
                        rt_Endpoint = \<lparr>re_Name = hr_URL req, re_Description = [], re_Handler = rr_Handler r,
                          re_Host = [hr_Host req], re_Method = [hr_Method req], re_Path = [hr_Path req], re_Stream = False\<rparr>,
                        rt_Versions = services\<rparr>, req))
                    else Inr (Inl UnknownHandler))))"


section \<open>Endpoint descriptions survive the registry\<close>

definition clean :: "string \<Rightarrow> bool" where
  "clean s \<longleftrightarrow> s \<noteq> [] \<and> CHR '','' \<notin> set s \<and> strip s = s"

definition clean_endpoint :: "rendpoint \<Rightarrow> bool" where
  "clean_endpoint e \<longleftrightarrow> list_all clean (re_Host e) \<and> list_all clean (re_Method e) \<and> list_all clean (re_Path e)"

lemma slice_filter: "slice s = filter (\<lambda>p. p \<noteq> []) (map strip (go_split (CHR '','') s))"
proof -
  have "foldl (\<lambda>sl p. if length (strip p) > 0 then sl @ [strip p] else sl) acc ps =
      acc @ filter (\<lambda>p. p \<noteq> []) (map strip ps)" for acc ps
    by (induction ps arbitrary: acc) auto
  then show ?thesis by (simp add: slice_def)
qed

lemma slice_nonempty: "p \<in> set (slice s) \<Longrightarrow> p \<noteq> []"
  by (auto simp: slice_filter)

lemma slice_join: "list_all clean xs \<Longrightarrow> slice (go_join '','' xs) = xs"
proof (cases "xs = []")
  case True
  then show ?thesis by (simp add: slice_filter strip_def)
next
  case False
  assume xs: "list_all clean xs"
  then have "go_split (CHR '','') (go_join '','' xs) = xs"
    using False by (intro go_split_join) (auto simp: clean_def list_all_iff)
  moreover have "map strip xs = xs"
    using xs by (auto simp: clean_def list_all_iff intro: map_idI)
  ultimately show ?thesis
    using xs by (auto simp: slice_filter clean_def list_all_iff intro: filter_True)
qed

lemma md_at_set_val:
  "md_at (set_val k v em) k' = (if k' = k \<and> v \<noteq> [] then v else md_at em k')"
  by (simp add: set_val_def md_at_def)

lemma md_at_Nil: "md_at [] k = []"
  by (simp add: md_at_def)

lemma Decode_Encode:
  assumes "clean_endpoint e"
  shows "Decode (Encode (Some e)) = Some (e\<lparr>re_Stream := False\<rparr>)"
proof -
  obtain m where m: "Encode (Some e) = Some m" by (simp add: Encode_def)
  then have "md_at m ''host'' = go_join '','' (re_Host e)" "md_at m ''path'' = go_join '','' (re_Path e)"
      "md_at m ''method'' = go_join '','' (re_Method e)" "md_at m ''handler'' = re_Handler e"
      "md_at m ''description'' = re_Description e" "md_at m ''endpoint'' = re_Name e"
    unfolding Encode_def option.case option.inject by (auto simp: md_at_set_val md_at_Nil)
  with m assms show ?thesis
    by (simp add: Decode_def clean_endpoint_def slice_join)
qed

section \<open>The table is built without panics\<close>

lemma validate_paths_safe: "list_all (\<lambda>p. p \<noteq> []) ps \<Longrightarrow> \<exists>v. validate_paths rx ps = Inr v"
  by (induction rx ps rule: validate_paths.induct) auto

lemma Validate_Decode_safe: "\<exists>v. Validate rx (Decode (Some em)) = Inr v"
proof -
  have "list_all (\<lambda>p. p \<noteq> []) (slice (md_at em ''path''))"
    by (auto simp: list_all_iff dest: slice_nonempty)
  from validate_paths_safe [OF this, of rx] show ?thesis
    by (auto simp: Validate_def Decode_def split: option.splits)
qed

definition served :: "(string, route) go_map \<Rightarrow> bool" where
  "served eps \<longleftrightarrow> list_all (\<lambda>(n, rt). list_all (\<lambda>p. p \<noteq> []) (re_Path (rt_Endpoint rt))) eps"

lemma Decode_paths: "Decode (Some em) = Some e \<Longrightarrow> list_all (\<lambda>p. p \<noteq> []) (re_Path e)"
  by (auto simp: Decode_def list_all_iff dest: slice_nonempty)

lemma add_endpoint_ok:
  assumes "go_map eps" and "served eps"
  shows "\<exists>eps'. add_endpoint rx service eps sep = Inr eps' \<and> go_map eps' \<and> served eps'"
proof -
  obtain e where e: "Decode (Some (ep_Metadata sep)) = Some e" by (simp add: Decode_def)
  obtain v where v: "Validate rx (Some e) = Inr v" using Validate_Decode_safe e by metis
  have "list_all (\<lambda>p. p \<noteq> []) (re_Path e)" by (rule Decode_paths [OF e])
  with assms e v show ?thesis
    by (cases v) (auto simp: add_endpoint_def Let_def served_def intro!: go_map_intros)
qed

lemma sum_fold_ok:
  assumes "P s" and "\<And>s x. P s \<Longrightarrow> x \<in> set xs \<Longrightarrow> \<exists>s'. f s x = Inr s' \<and> P s'"
  shows "\<exists>s'. sum_fold f s xs = Inr s' \<and> P s'"
  using assms
proof (induction xs arbitrary: s)
  case (Cons x xs)
  then obtain s' where "f s x = Inr s'" "P s'" by fastforce
  with Cons.IH [of s'] Cons.prems(2) show ?case by fastforce
qed simp

lemma service_endpoints_ok:
  "\<exists>eps. service_endpoints rx services = Inr eps \<and> go_map eps \<and> served eps"
proof -
  have inner: "\<exists>eps'. sum_fold (add_endpoint rx service) eps (sv_Endpoints service) = Inr eps' \<and>
      go_map eps' \<and> served eps'" if "go_map eps \<and> served eps" for service eps
    using that add_endpoint_ok by (intro sum_fold_ok) auto
  have "go_map [] \<and> served []" by (simp add: served_def)
  then show ?thesis unfolding service_endpoints_def by (rule sum_fold_ok) (rule inner)
qed

lemma compile_path_fold:
  assumes "list_all (\<lambda>p. p \<noteq> []) ps"
  shows "sum_fold (compile_path rx) cep ps =
    Inr (cep\<lparr>cp_pathregs := cp_pathregs cep @ List.map_filter path_pattern ps,
             cp_pcreregs := cp_pcreregs cep @ List.map_filter (path_pcre rx) ps\<rparr>)"
  using assms
  by (induction ps arbitrary: cep) (auto simp: compile_path_def Let_def map_filter_simps split: option.splits)

lemma compile_endpoint_fold:
  "list_all (\<lambda>p. p \<noteq> []) (re_Path ep) \<Longrightarrow> compile_endpoint rx ep =
     Inr \<lparr>cp_hostregs = compile_hosts rx (re_Host ep), cp_pathregs = List.map_filter path_pattern (re_Path ep),
          cp_pcreregs = List.map_filter (path_pcre rx) (re_Path ep)\<rparr>"
  by (simp add: compile_endpoint_def compile_path_fold)

definition table_inv :: "'re regexps \<Rightarrow> 're registryRouter \<Rightarrow> bool" where
  "table_inv rx r \<longleftrightarrow> go_map (rr_eps r) \<and> served (rr_eps r) \<and>
     list_all (\<lambda>(n, rt). \<exists>cep. map_of (rr_ceps r) n = Some cep \<and> compile_endpoint rx (rt_Endpoint rt) = Inr cep) (rr_eps r)"

lemma set_endpoint_ok:
  assumes "table_inv rx r" and "list_all (\<lambda>p. p \<noteq> []) (re_Path (rt_Endpoint rt))"
  shows "\<exists>r'. set_endpoint rx r (n, rt) = Inr r' \<and> table_inv rx r' \<and> rr_eps r' = AList.update n rt (rr_eps r) \<and>
    rr_exit r' = rr_exit r"
proof -
  from compile_endpoint_fold [OF assms(2), of rx] obtain cep where cep: "compile_endpoint rx (rt_Endpoint rt) = Inr cep"
    by blast
  have "go_map (AList.update n rt (rr_eps r))" "served (AList.update n rt (rr_eps r))"
    using assms by (auto simp: table_inv_def served_def intro!: go_map_intros)
  moreover have "\<exists>c. map_of (AList.update n cep (rr_ceps r)) n' = Some c \<and> compile_endpoint rx (rt_Endpoint rt') = Inr c"
    if "(n', rt') \<in> set (AList.update n rt (rr_eps r))" for n' rt'
  proof (cases "n' = n")
    case True
    then show ?thesis
      using map_of_is_SomeI [OF _ that] calculation(1) cep by (auto simp: go_map_def)
  next
    case False
    then have "(n', rt') \<in> set (rr_eps r)" using that set_update_go [of n rt "rr_eps r"] by auto
    with assms(1) False show ?thesis by (auto simp: table_inv_def list_all_iff)
  qed
  ultimately show ?thesis
    using cep by (auto simp: set_endpoint_def table_inv_def list_all_iff)
qed


lemma set_endpoints_ok:
  assumes "table_inv rx r" and "served eps"
  shows "\<exists>r'. sum_fold (set_endpoint rx) r eps = Inr r' \<and> table_inv rx r' \<and> rr_exit r' = rr_exit r \<and>
    map_of (rr_eps r') = map_of (rr_eps r) ++ map_of (rev eps)"
  using assms
proof (induction eps arbitrary: r)
  case (Cons x eps)
  obtain n rt where x: "x = (n, rt)" by (cases x)
  with Cons.prems have "list_all (\<lambda>p. p \<noteq> []) (re_Path (rt_Endpoint rt))" "served eps"
    by (simp_all add: served_def)
  with set_endpoint_ok [OF Cons.prems(1), of rt n] obtain r1 where
    r1: "set_endpoint rx r x = Inr r1" "table_inv rx r1" "rr_eps r1 = AList.update n rt (rr_eps r)" "rr_exit r1 = rr_exit r"
    by (auto simp: x)
  have "map_of (rr_eps r1) = (map_of (rr_eps r))(n \<mapsto> rt)" by (simp add: r1(3) fun_eq_iff)
  then have eps: "map_of (rr_eps r) ++ map_of (rev (x # eps)) = map_of (rr_eps r1) ++ map_of (rev eps)"
    by (simp add: x del: fun_upd_apply)
  from Cons.IH [OF r1(2) \<open>served eps\<close>] r1(1,4) show ?case unfolding eps by simp
qed simp

lemma router_store_ok:
  assumes "table_inv rx r" and "service_endpoints rx services = Inr eps"
  shows "\<exists>r'. router_store rx services r = Inr r' \<and> table_inv rx r' \<and> rr_exit r' = rr_exit r \<and>
    map_of (rr_eps r') = map_of (filter (\<lambda>(_, rt). rt_Service rt \<notin> sv_Name ` set services) (rr_eps r)) ++ map_of eps"
proof -
  have eps: "go_map eps" "served eps" using service_endpoints_ok [of rx services] assms(2) by auto
  let ?r = "r\<lparr>rr_eps := filter (\<lambda>(_, rt). rt_Service rt \<notin> sv_Name ` set services) (rr_eps r)\<rparr>"
  have "table_inv rx ?r"
    using assms(1) by (auto simp: table_inv_def served_def list_all_iff go_map_def distinct_map_filter)
  moreover have "map_of (rev eps) = map_of eps" using eps(1) by (metis map_copy_id map_of_map_copy)
  ultimately show ?thesis
    using set_endpoints_ok [of rx ?r eps] eps(2) assms(2) by (auto simp: router_store_def Let_def)
qed

section \<open>Routers that can arise\<close>

text \<open>Events of the watcher and rounds of \<open>refresh\<close> store what the cache returned; \<open>Stop\<close> closes the router.\<close>

inductive router_reachable :: "'re regexps \<Rightarrow> 're registryRouter \<Rightarrow> bool" for rx where
  new: "router_reachable rx (newRouter handler)"
| event: "router_reachable rx r \<Longrightarrow> router_process rx getService name r = Inr r' \<Longrightarrow> router_reachable rx r'"
| round: "router_reachable rx r \<Longrightarrow> router_refresh rx getService names r = Inr r' \<Longrightarrow> router_reachable rx r'"
| stop: "router_reachable rx r \<Longrightarrow> router_reachable rx (router_Stop r)"

lemma router_store_inv: "table_inv rx r \<Longrightarrow> \<exists>r'. router_store rx services r = Inr r' \<and> table_inv rx r'"
  using service_endpoints_ok [of rx services] router_store_ok by blast

lemma router_process_inv: "table_inv rx r \<Longrightarrow> \<exists>r'. router_process rx getService name r = Inr r' \<and> table_inv rx r'"
  using router_store_inv by (auto simp: router_process_def split: option.splits sum.splits)

lemma router_refresh_inv: "table_inv rx r \<Longrightarrow> \<exists>r'. router_refresh rx getService names r = Inr r' \<and> table_inv rx r'"
  unfolding router_refresh_def using router_store_inv by (intro sum_fold_ok) (auto split: sum.splits)

lemma router_reachable_inv: "router_reachable rx r \<Longrightarrow> table_inv rx r"
proof (induction rule: router_reachable.induct)
  case (new handler)
  show ?case by (simp add: newRouter_def table_inv_def served_def)
next
  case (event r getService name r')
  then show ?case using router_process_inv by (metis sum.inject(2))
next
  case (round r getService names r')
  then show ?case using router_refresh_inv by (metis sum.inject(2))
next
  case (stop r)
  then show ?case by (simp add: router_Stop_def table_inv_def)
qed

section \<open>What an endpoint describes\<close>

definition wild_host :: "string \<Rightarrow> bool" where
  "wild_host h \<longleftrightarrow> h = [] \<or> h = ''*''"

definition host_described :: "'re regexps \<Rightarrow> string \<Rightarrow> string \<Rightarrow> bool" where
  "host_described rx host h \<longleftrightarrow> wild_host h \<or> (case rx_compile rx h of None \<Rightarrow> False | Some re \<Rightarrow> rx_match rx re host)"

text \<open>The verb of a template plays no part, as the code drops it when it makes the pattern.\<close>

definition path_described :: "'re regexps \<Rightarrow> string \<Rightarrow> string \<Rightarrow> bool" where
  "path_described rx path p \<longleftrightarrow>
     (\<exists>t bs. Parse p = Inr t \<and> segs_match (t_segments t) (request_path path) bs) \<or>
     (\<exists>re. path_pcre rx p = Some re \<and> rx_match rx re path)"

definition describes :: "'re regexps \<Rightarrow> rendpoint \<Rightarrow> 'c hreq \<Rightarrow> bool" where
  "describes rx ep req \<longleftrightarrow> hr_Method req \<in> set (re_Method ep) \<and>
     (re_Host ep = [] \<or> list_ex (host_described rx (hr_URLHost req)) (re_Host ep)) \<and>
     list_ex (path_described rx (hr_Path req)) (re_Path ep)"

text \<open>The hosts compile and the templates have no nested variables and at most one deep wildcard.\<close>

definition regular :: "'re regexps \<Rightarrow> rendpoint \<Rightarrow> bool" where
  "regular rx ep \<longleftrightarrow> list_all (\<lambda>h. wild_host h \<or> rx_compile rx h \<noteq> None) (re_Host ep) \<and>
     list_all (\<lambda>p. case Parse p of Inl _ \<Rightarrow> True
        | Inr t \<Rightarrow> list_all seg_flat (t_segments t) \<and> deeps (t_segments t) \<le> 1) (re_Path ep)"

lemma compile_hosts_regs:
  "compile_hosts rx hosts = List.map_filter (\<lambda>h. if wild_host h then None else rx_compile rx h) hosts"
proof -
  have "foldl (\<lambda>regs h. if h = [] \<or> h = ''*'' then regs
      else case rx_compile rx h of None \<Rightarrow> regs | Some re \<Rightarrow> regs @ [re]) acc hs =
      acc @ List.map_filter (\<lambda>h. if wild_host h then None else rx_compile rx h) hs" for acc hs
    by (induction hs arbitrary: acc) (auto simp: map_filter_simps wild_host_def split: option.splits)
  then show ?thesis by (simp add: compile_hosts_def)
qed

lemma host_loop_decides:
  assumes "list_all (\<lambda>h. wild_host h \<or> rx_compile rx h \<noteq> None) hs"
    and "length pre = idx"
    and "regs = pre @ compile_hosts rx hs"
  shows "host_loop rx regs host idx hs = Inr (list_ex (host_described rx host) hs)"
  using assms
proof (induction hs arbitrary: pre idx)
  case (Cons h hs)
  show ?case
  proof (cases "wild_host h")
    case True
    then show ?thesis by (auto simp: host_described_def wild_host_def)
  next
    case False
    with Cons.prems(1) obtain re where re: "rx_compile rx h = Some re" by auto
    then have regs: "regs = (pre @ [re]) @ compile_hosts rx hs"
      using Cons.prems(3) False by (simp add: compile_hosts_regs map_filter_simps)
    then have "idx < length regs" "regs ! idx = re" using Cons.prems(2) by (auto simp: nth_append)
    with Cons.IH [of "pre @ [re]" "idx + 1"] Cons.prems regs re False show ?thesis
      by (auto simp: host_described_def wild_host_def)
  qed
qed simp

lemma host_match_decides:
  assumes "regular rx ep"
  shows "host_match rx (compile_hosts rx (re_Host ep)) host (re_Host ep) =
    Inr (re_Host ep = [] \<or> list_ex (host_described rx host) (re_Host ep))"
  using assms host_loop_decides [of rx "re_Host ep" "[]" 0] by (auto simp: host_match_def regular_def)

lemma path_pattern_decides:
  assumes "Parse p = Inr t" and "list_all seg_flat (t_segments t)" and "deeps (t_segments t) \<le> 1"
  shows "\<exists>pt. path_pattern p = Some pt \<and>
    (\<forall>cs b. Match pt cs [] = Inr b \<longleftrightarrow> (\<exists>bs. segs_match (t_segments t) cs bs \<and> b = bind_all bs))"
proof -
  let ?t = "t\<lparr>t_verb := []\<rparr>"
  have "segs_wf (t_segments ?t)" using Parse_good [of p] assms(1) by simp
  then obtain pt where pt: "compile_pattern ?t [PatternLogger []] = Inr pt" "pt_verb pt = []"
      "\<And>cs b. match_run pt cs = Inr b \<longleftrightarrow> (\<exists>bs. segs_match (t_segments t) cs bs \<and> b = bind_all bs)"
    using compile_pattern_match [of ?t "[PatternLogger []]"] assms(2,3) by auto
  then have "path_pattern p = Some pt"
    using assms(1) by (simp add: path_pattern_def compile_pattern_def template_Compile_def Let_def)
  with pt show ?thesis by (auto simp: Match_def)
qed

lemma path_pattern_safe: "path_pattern p = Some pt \<Longrightarrow> Match pt cs [] \<noteq> Inl MatchPanic"
  using match_run_no_panic by (auto simp: path_pattern_def Match_def Let_def split: sum.splits)


text \<open>The result of looking for a template: the bindings of a template that describes the path.\<close>

definition binds :: "string \<Rightarrow> string list \<Rightarrow> (string, string) go_map \<Rightarrow> bool" where
  "binds path ps m \<longleftrightarrow> (\<exists>p t bs. p \<in> set ps \<and> Parse p = Inr t \<and> segs_match (t_segments t) (request_path path) bs \<and> m = bind_all bs)"

lemma path_pattern_unparsed: "Parse p = Inl e \<Longrightarrow> path_pattern p = None"
  by (simp add: path_pattern_def)

lemma gpath_loop_decides:
  assumes "list_all (\<lambda>p. case Parse p of Inl _ \<Rightarrow> True
        | Inr t \<Rightarrow> list_all seg_flat (t_segments t) \<and> deeps (t_segments t) \<le> 1) ps"
  shows "case gpath_loop (request_path path) (List.map_filter path_pattern ps) of
      Inl _ \<Rightarrow> False
    | Inr None \<Rightarrow> \<not> (\<exists>m. binds path ps m)
    | Inr (Some m) \<Rightarrow> binds path ps m"
  using assms
proof (induction ps)
  case Nil
  then show ?case by (simp add: binds_def map_filter_simps)
next
  case (Cons p ps)
  show ?case
  proof (cases "Parse p")
    case (Inl e)
    with Cons show ?thesis by (auto simp: path_pattern_unparsed map_filter_simps binds_def split: sum.splits option.splits)
  next
    case (Inr t)
    with Cons.prems obtain pt where pt: "path_pattern p = Some pt"
        "\<And>cs b. Match pt cs [] = Inr b \<longleftrightarrow> (\<exists>bs. segs_match (t_segments t) cs bs \<and> b = bind_all bs)"
      using path_pattern_decides [of p t] by auto
    show ?thesis
    proof (cases "Match pt (request_path path) []")
      case (Inl e)
      then have "\<nexists>bs. segs_match (t_segments t) (request_path path) bs" using pt(2) by (metis sum.distinct(1))
      then have same: "binds path (p # ps) m \<longleftrightarrow> binds path ps m" for m using Inr by (auto simp: binds_def)
      have "gpath_loop (request_path path) (List.map_filter path_pattern (p # ps)) =
          gpath_loop (request_path path) (List.map_filter path_pattern ps)"
        using Inl pt(1) path_pattern_safe [OF pt(1), of "request_path path"] by (cases e) (auto simp: map_filter_simps)
      moreover have "list_all (\<lambda>p. case Parse p of Inl _ \<Rightarrow> True
          | Inr t \<Rightarrow> list_all seg_flat (t_segments t) \<and> deeps (t_segments t) \<le> 1) ps"
        using Cons.prems by simp
      ultimately show ?thesis using Cons.IH unfolding same by metis
    next
      case (Inr m)
      then obtain bs where "segs_match (t_segments t) (request_path path) bs" "m = bind_all bs"
        using pt(2) by blast
      with \<open>Parse p = Inr t\<close> have "binds path (p # ps) m" unfolding binds_def by fastforce
      with Inr pt(1) show ?thesis by (simp add: map_filter_simps)
    qed
  qed
qed

text \<open>What a found route and the request left behind must satisfy.\<close>

definition routed :: "'re regexps \<Rightarrow> 'z ctx_scheme hreq \<Rightarrow> route \<Rightarrow> 'z ctx_scheme hreq \<Rightarrow> bool" where
  "routed rx req rt req' \<longleftrightarrow> describes rx (rt_Endpoint rt) req \<and>
     (req' = req \<or> (\<exists>m. binds (hr_Path req) (re_Path (rt_Endpoint rt)) m \<and> req' = req\<lparr>hr_ctx := add_fields m (hr_ctx req)\<rparr>))"

lemma path_described_cases:
  "list_ex (path_described rx path) ps \<longleftrightarrow>
     (\<exists>m. binds path ps m) \<or> list_ex (\<lambda>re. rx_match rx re path) (List.map_filter (path_pcre rx) ps)"
proof -
  have "list_ex (\<lambda>re. rx_match rx re path) (List.map_filter (path_pcre rx) ps) \<longleftrightarrow>
      (\<exists>p \<in> set ps. \<exists>re. path_pcre rx p = Some re \<and> rx_match rx re path)"
    by (induction ps) (auto simp: map_filter_simps split: option.splits)
  moreover have "(\<exists>m. binds path ps m) \<longleftrightarrow>
      (\<exists>p \<in> set ps. \<exists>t bs. Parse p = Inr t \<and> segs_match (t_segments t) (request_path path) bs)"
    unfolding binds_def by blast
  ultimately show ?thesis unfolding list_ex_iff path_described_def by blast
qed

lemma endpoint_loop_decides:
  assumes "list_all (\<lambda>(n, rt). regular rx (rt_Endpoint rt) \<and> list_all (\<lambda>p. p \<noteq> []) (re_Path (rt_Endpoint rt)) \<and>
      (\<exists>cep. map_of ceps n = Some cep \<and> compile_endpoint rx (rt_Endpoint rt) = Inr cep)) eps"
  shows "case endpoint_loop rx ceps req eps of
      Inl _ \<Rightarrow> False
    | Inr None \<Rightarrow> \<not> list_ex (\<lambda>(n, rt). describes rx (rt_Endpoint rt) req) eps
    | Inr (Some (rt, req')) \<Rightarrow> rt \<in> snd ` set eps \<and> routed rx req rt req'"
  using assms
proof (induction eps)
  case (Cons x eps)
  obtain n rt where x: "x = (n, rt)" by (cases x)
  let ?ep = "rt_Endpoint rt"
  from Cons.prems have reg: "regular rx ?ep" and "list_all (\<lambda>p. p \<noteq> []) (re_Path ?ep)"
    and cep: "map_of ceps n = Some \<lparr>cp_hostregs = compile_hosts rx (re_Host ?ep),
        cp_pathregs = List.map_filter path_pattern (re_Path ?ep), cp_pcreregs = List.map_filter (path_pcre rx) (re_Path ?ep)\<rparr>"
    by (auto simp: x compile_endpoint_fold)
  have path: "case gpath_loop (request_path (hr_Path req)) (List.map_filter path_pattern (re_Path ?ep)) of
      Inl _ \<Rightarrow> False
    | Inr None \<Rightarrow> \<not> (\<exists>m. binds (hr_Path req) (re_Path ?ep) m)
    | Inr (Some m) \<Rightarrow> binds (hr_Path req) (re_Path ?ep) m"
    using reg by (intro gpath_loop_decides) (simp add: regular_def)
  from Cons have IH: "case endpoint_loop rx ceps req eps of
      Inl _ \<Rightarrow> False
    | Inr None \<Rightarrow> \<not> list_ex (\<lambda>(n, rt). describes rx (rt_Endpoint rt) req) eps
    | Inr (Some (rt, req')) \<Rightarrow> rt \<in> snd ` set eps \<and> routed rx req rt req'"
    by simp
  then have skip: ?case if "\<not> describes rx ?ep req" "endpoint_loop rx ceps req (x # eps) = endpoint_loop rx ceps req eps"
    using that by (auto simp: x split: sum.splits option.splits)
  have take: ?case if "describes rx ?ep req" "endpoint_loop rx ceps req (x # eps) = Inr (Some (rt, req'))"
      "routed rx req rt req'" for req'
    using that by (simp add: x)
  note spec = describes_def path_described_cases
  show ?case
  proof (cases "hr_Method req \<in> set (re_Method ?ep) \<and> (re_Host ?ep = [] \<or> list_ex (host_described rx (hr_URLHost req)) (re_Host ?ep))")
    case False
    then show ?thesis
      by (intro skip) (auto simp: x cep spec host_match_decides [OF reg] Let_def)
  next
    case True
    show ?thesis
    proof (cases "gpath_loop (request_path (hr_Path req)) (List.map_filter path_pattern (re_Path ?ep))")
      case (Inl e)
      with path show ?thesis by simp
    next
      case (Inr res)
      then show ?thesis
      proof (cases res)
        case None
        show ?thesis
        proof (cases "list_ex (\<lambda>re. rx_match rx re (hr_Path req)) (List.map_filter (path_pcre rx) (re_Path ?ep))")
          case True': True
          with True None Inr show ?thesis
            by (intro take [of req]) (auto simp: x cep spec host_match_decides [OF reg] Let_def routed_def)
        next
          case False
          with True None Inr path show ?thesis
            by (intro skip) (auto simp: x cep spec host_match_decides [OF reg] Let_def)
        qed
      next
        case (Some m)
        with True Inr path show ?thesis
          by (intro take [of "req\<lparr>hr_ctx := add_fields m (hr_ctx req)\<rparr>"])
             (auto simp: x cep spec host_match_decides [OF reg] Let_def routed_def)
      qed
    qed
  qed
qed simp


definition regular_table :: "'re regexps \<Rightarrow> 're registryRouter \<Rightarrow> bool" where
  "regular_table rx r \<longleftrightarrow> list_all (\<lambda>(n, rt). regular rx (rt_Endpoint rt)) (rr_eps r)"

lemma table_routes:
  assumes "table_inv rx r" and "regular_table rx r"
  shows "case endpoint_loop rx (rr_ceps r) req (rr_eps r) of
      Inl _ \<Rightarrow> False
    | Inr None \<Rightarrow> \<not> list_ex (\<lambda>(n, rt). describes rx (rt_Endpoint rt) req) (rr_eps r)
    | Inr (Some (rt, req')) \<Rightarrow> rt \<in> snd ` set (rr_eps r) \<and> routed rx req rt req'"
  using assms by (intro endpoint_loop_decides) (auto simp: table_inv_def served_def regular_table_def list_all_iff)

lemma add_endpoint_other:
  assumes "add_endpoint rx s eps x = Inr eps'" and "ep_Name x \<noteq> n"
  shows "map_of eps' (sv_Name s @ ''.'' @ n) = map_of eps (sv_Name s @ ''.'' @ n)"
  using assms by (auto simp: add_endpoint_def Let_def split: sum.splits option.splits)

lemma add_endpoints_other:
  assumes "sum_fold (add_endpoint rx s) eps xs = Inr eps'" and "n \<notin> ep_Name ` set xs"
  shows "map_of eps' (sv_Name s @ ''.'' @ n) = map_of eps (sv_Name s @ ''.'' @ n)"
  using assms(1)
proof (rule sum_fold_invariant)
  fix e x e' assume "map_of e (sv_Name s @ ''.'' @ n) = map_of eps (sv_Name s @ ''.'' @ n)" "x \<in> set xs"
    "add_endpoint rx s e x = Inr e'"
  then show "map_of e' (sv_Name s @ ''.'' @ n) = map_of eps (sv_Name s @ ''.'' @ n)"
    using add_endpoint_other [of rx s e x e' n] assms(2) by auto
qed simp

lemma service_endpoints_published:
  assumes "clean_endpoint e" and "Validate rx (Some (e\<lparr>re_Stream := False\<rparr>)) = Inr None"
    and "sep \<in> set (sv_Endpoints s)" and "distinct (map ep_Name (sv_Endpoints s))"
    and "Some (ep_Metadata sep) = Encode (Some e)"
  shows "\<exists>eps. service_endpoints rx [s] = Inr eps \<and> map_of eps (sv_Name s @ ''.'' @ ep_Name sep) =
    Some \<lparr>rt_Service = sv_Name s, rt_Endpoint = e\<lparr>re_Stream := False\<rparr>, rt_Versions = [s]\<rparr>"
proof -
  let ?key = "sv_Name s @ ''.'' @ ep_Name sep"
  obtain xs ys where split: "sv_Endpoints s = xs @ sep # ys" using assms(3) by (metis split_list)
  obtain eps where eps: "service_endpoints rx [s] = Inr eps" using service_endpoints_ok by blast
  then obtain e1 e2 where fold: "sum_fold (add_endpoint rx s) [] xs = Inr e1"
      "add_endpoint rx s e1 sep = Inr e2" "sum_fold (add_endpoint rx s) e2 ys = Inr eps"
    by (auto simp: service_endpoints_def split sum_fold_append sum_bind_eq_Inr)
  have "ep_Name sep \<notin> ep_Name ` set xs" "ep_Name sep \<notin> ep_Name ` set ys" using assms(4) by (auto simp: split)
  with fold(1,3) have "map_of e1 ?key = None" "map_of eps ?key = map_of e2 ?key"
    using add_endpoints_other by fastforce+
  moreover have "Decode (Some (ep_Metadata sep)) = Some (e\<lparr>re_Stream := False\<rparr>)"
    using Decode_Encode [OF assms(1)] assms(5) by simp
  ultimately show ?thesis
    using eps fold(2) assms(2) by (auto simp: add_endpoint_def Let_def)
qed

text \<open>
  Without the hypothesis on hosts the index of \<open>hostregs\<close> is off: a host that does not compile is
  skipped when the table is built, and not when it is read.
\<close>

lemma host_match_skipped_panics:
  assumes "\<not> wild_host h" and "rx_compile rx h = None"
  shows "host_match rx (compile_hosts rx [h]) host [h] = Inl ''index out of range''"
  using assms by (simp add: host_match_def compile_hosts_def wild_host_def)

section \<open>A sample router\<close>

definition sample_rx :: "string regexps" where
  "sample_rx = \<lparr>rx_compile = Some, rx_match = (=)\<rparr>"

definition sample_endpoint :: rendpoint where
  "sample_endpoint = \<lparr>re_Name = ''Say.Hello'', re_Description = [], re_Handler = ''rpc'', re_Host = [''api.io''],
     re_Method = [''GET'', ''POST''], re_Path = [''/hello/{name}''], re_Stream = True\<rparr>"

definition sample_sep :: endpoint where
  "sample_sep = \<lparr>ep_Request = None, ep_Response = None, ep_Metadata = the (Encode (Some sample_endpoint)), ep_Name = ''Say.Hello''\<rparr>"

definition sample_service :: service where
  "sample_service = \<lparr>sv_Name = ''greeter'', sv_Version = ''1'', sv_Metadata = [], sv_Endpoints = [sample_sep], sv_Nodes = []\<rparr>"

definition sample_router :: "string registryRouter" where
  "sample_router = (case router_process sample_rx (\<lambda>_. Inr [sample_service]) (Some ''greeter'') (newRouter ''meta'') of
     Inl _ \<Rightarrow> newRouter ''meta'' | Inr r \<Rightarrow> r)"

definition sample_req :: "string \<Rightarrow> ctx hreq" where
  "sample_req host = \<lparr>hr_Method = ''GET'', hr_Path = ''/hello/bob'', hr_URLHost = host, hr_Host = host,
     hr_URL = ''/hello/bob'', hr_ctx = \<lparr>cx_md = None\<rparr>\<rparr>"

lemma sample_router_reachable: "router_reachable sample_rx sample_router"
proof -
  have "table_inv sample_rx (newRouter ''meta'')" using router_reachable.new by (rule router_reachable_inv)
  from router_process_inv [OF this, of "\<lambda>_. Inr [sample_service]" "Some ''greeter''"]
  have "router_process sample_rx (\<lambda>_. Inr [sample_service]) (Some ''greeter'') (newRouter ''meta'') = Inr sample_router"
    by (auto simp: sample_router_def)
  then show ?thesis by (rule router_reachable.event [OF router_reachable.new])
qed

section \<open>Properties\<close>

text \<open>
  C17.  Routing decides the table: for a router reached by any history of events, refresh rounds and
  \<open>Stop\<close>, whose routes have host expressions that compile and templates without nested variables
  and with at most one deep wildcard, \<open>Endpoint\<close> never panics.  It reports a closed router exactly after \<open>Stop\<close>, reports
  "not found" only if no route of the table describes the request, and otherwise
  returns a route of the table that describes it by method, host and path (the route's own
  template or regular expression), the request being unchanged except for the template's bindings, added to its context.
\<close>

theorem router_Endpoint_decides:
  assumes "router_reachable rx r" and "regular_table rx r"
  shows "case router_Endpoint rx r req of
      Inl _ \<Rightarrow> False
    | Inr (Inl e) \<Rightarrow>
        if rr_exit r then e = RouterClosed
        else e = RouteNotFound \<and> \<not> list_ex (\<lambda>(n, rt). describes rx (rt_Endpoint rt) req) (rr_eps r)
    | Inr (Inr (rt, req')) \<Rightarrow> \<not> rr_exit r \<and> rt \<in> snd ` set (rr_eps r) \<and> routed rx req rt req'"
  using table_routes [OF router_reachable_inv [OF assms(1)] assms(2), of req]
  by (auto simp: router_Endpoint_def split: sum.splits option.splits)

theorem router_Endpoint_decides_witness:
  "(\<exists>rt req'. router_Endpoint sample_rx sample_router (sample_req ''api.io'') = Inr (Inr (rt, req')) \<and>
      routed sample_rx (sample_req ''api.io'') rt req') \<and>
   \<not> list_ex (\<lambda>(n, rt). describes sample_rx (rt_Endpoint rt) (sample_req ''other.io'')) (rr_eps sample_router)"
proof -
  have reg: "regular_table sample_rx sample_router" by code_simp
  have exit: "\<not> rr_exit sample_router" by code_simp
  have found: "case router_Endpoint sample_rx sample_router (sample_req ''api.io'') of Inr (Inr _) \<Rightarrow> True | _ \<Rightarrow> False"
    by code_simp
  have missed: "case router_Endpoint sample_rx sample_router (sample_req ''other.io'') of Inr (Inl _) \<Rightarrow> True | _ \<Rightarrow> False"
    by code_simp
  show ?thesis
    using router_Endpoint_decides [OF sample_router_reachable reg, of "sample_req ''api.io''"]
      router_Endpoint_decides [OF sample_router_reachable reg, of "sample_req ''other.io''"] found missed exit
    by (auto split: sum.splits)
qed

text \<open>
  C37.  A published endpoint is served: a service that publishes the encoding of a valid
  endpoint, whose host, method and path entries are non-empty, trimmed and free of commas, is stored without a
  panic; the table then has a route to that endpoint, decoded without loss (the stream flag is not
  part of the encoding), and a running router over regular routes finds a route for every request that the
  endpoint describes.
\<close>

theorem published_endpoint_served:
  assumes "router_reachable rx r" and "clean_endpoint e" and "Validate rx (Some (e\<lparr>re_Stream := False\<rparr>)) = Inr None"
    and "sep \<in> set (sv_Endpoints s)" and "distinct (map ep_Name (sv_Endpoints s))"
    and "Some (ep_Metadata sep) = Encode (Some e)"
  shows "\<exists>r'. router_store rx [s] r = Inr r' \<and>
    map_of (rr_eps r') (sv_Name s @ ''.'' @ ep_Name sep) =
      Some \<lparr>rt_Service = sv_Name s, rt_Endpoint = e\<lparr>re_Stream := False\<rparr>, rt_Versions = [s]\<rparr> \<and>
    (\<not> rr_exit r \<and> regular_table rx r' \<and> describes rx e req \<longrightarrow>
      (\<exists>rt req'. router_Endpoint rx r' req = Inr (Inr (rt, req')) \<and> routed rx req rt req'))"
proof -
  let ?key = "sv_Name s @ ''.'' @ ep_Name sep" and ?e = "e\<lparr>re_Stream := False\<rparr>"
  obtain eps where eps: "service_endpoints rx [s] = Inr eps"
      "map_of eps ?key = Some \<lparr>rt_Service = sv_Name s, rt_Endpoint = ?e, rt_Versions = [s]\<rparr>"
    using service_endpoints_published [OF assms(2-6)] by blast
  obtain r' where r': "router_store rx [s] r = Inr r'" "table_inv rx r'" "rr_exit r' = rr_exit r"
      "map_of (rr_eps r') ?key = Some \<lparr>rt_Service = sv_Name s, rt_Endpoint = ?e, rt_Versions = [s]\<rparr>"
    using router_store_ok [OF router_reachable_inv [OF assms(1)] eps(1)] eps(2) by fastforce
  have "\<exists>rt req'. router_Endpoint rx r' req = Inr (Inr (rt, req')) \<and> routed rx req rt req'"
    if run: "\<not> rr_exit r \<and> regular_table rx r' \<and> describes rx e req"
  proof -
    have "describes rx ?e req" using run by (simp add: describes_def)
    with map_of_SomeD [OF r'(4)] have "list_ex (\<lambda>(n, rt). describes rx (rt_Endpoint rt) req) (rr_eps r')"
      unfolding list_ex_iff by (intro bexI) auto
    with table_routes [OF r'(2), of req] run r'(3) show ?thesis
      by (auto simp: router_Endpoint_def split: sum.splits option.splits)
  qed
  with r' show ?thesis by blast
qed


theorem published_endpoint_served_witness:
  "\<exists>r' rt req'. router_store sample_rx [sample_service] (newRouter ''meta'') = Inr r' \<and>
     map_of (rr_eps r') ''greeter.Say.Hello'' =
       Some \<lparr>rt_Service = ''greeter'', rt_Endpoint = sample_endpoint\<lparr>re_Stream := False\<rparr>, rt_Versions = [sample_service]\<rparr> \<and>
     router_Endpoint sample_rx r' (sample_req ''api.io'') = Inr (Inr (rt, req')) \<and> routed sample_rx (sample_req ''api.io'') rt req'"
proof -
  have clean: "clean_endpoint sample_endpoint" by code_simp
  have valid: "Validate sample_rx (Some (sample_endpoint\<lparr>re_Stream := False\<rparr>)) = Inr None" by code_simp
  have sep: "sample_sep \<in> set (sv_Endpoints sample_service)" "distinct (map ep_Name (sv_Endpoints sample_service))"
      "Some (ep_Metadata sample_sep) = Encode (Some sample_endpoint)"
    by (simp_all add: sample_service_def sample_sep_def Encode_def)
  have key: "ep_Name sample_sep = ''Say.Hello''" "sv_Name sample_service = ''greeter''"
    by (simp_all add: sample_service_def sample_sep_def)
  have "\<not> rr_exit (newRouter ''meta'')" by (simp add: newRouter_def)
  moreover have "case router_store sample_rx [sample_service] (newRouter ''meta'') of
      Inl _ \<Rightarrow> False | Inr r' \<Rightarrow> regular_table sample_rx r'"
    by code_simp
  moreover have "describes sample_rx sample_endpoint (sample_req ''api.io'')"
  proof -
    have "plains_match [Wildcard] ([''bob''] @ []) [''bob'']" by (intro plains_match.intros plain_match.intros)
    then have "segs_match [Literal ''hello'', Variable ''name'' [Wildcard]] ([''hello''] @ ([''bob''] @ []) @ [])
        [(''name'', go_join ''/'' [''bob''])]"
      by (intro sm_plain [OF pm_literal] sm_var sm_Nil)
    moreover have "request_path ''/hello/bob'' = [''hello'', ''bob'']" by code_simp
    ultimately have "segs_match (t_segments \<lparr>t_verb = [], t_template = ''/hello/{name}'',
        t_segments = [Literal ''hello'', Variable ''name'' [Wildcard]]\<rparr>) (request_path ''/hello/bob'') [(''name'', ''bob'')]"
      by simp
    moreover have "Parse ''/hello/{name}'' = Inr \<lparr>t_verb = [], t_template = ''/hello/{name}'',
        t_segments = [Literal ''hello'', Variable ''name'' [Wildcard]]\<rparr>"
      by code_simp
    ultimately have "path_described sample_rx ''/hello/bob'' ''/hello/{name}''"
      unfolding path_described_def by blast
    then show ?thesis
      by (simp add: describes_def sample_endpoint_def sample_req_def sample_rx_def host_described_def wild_host_def)
  qed
  ultimately show ?thesis
    using published_endpoint_served [OF router_reachable.new [of _ "''meta''"] clean valid sep, where req = "sample_req ''api.io''"]
    by (auto simp: key split: sum.splits)
qed

end
