(* ===== verification/Codecs.thy ===== *)
theory Codecs
  imports Go_Prelude "HOL-Library.Word"
begin

text \<open>
  Message encoding: the packages \<open>codec\<close>, \<open>codec/bytes\<close>, \<open>codec/proto\<close>, \<open>codec/grpc\<close> and \<open>codec/protorpc\<close>.

  A connection of a codec is a pair of \<open>bytes.Buffer\<close>s, as both RPC ends use it: the unread bytes and the
  bytes written so far.  \<open>Buffer.Read\<close> copies what there is and fails only on an empty buffer.  The marshallers of
  \<open>encoding/json\<close> and \<open>golang/protobuf\<close> are parameters, a record of functions.  A codec is a record of its
  operations over its own struct, which extends the connection.  Each operation returns the new struct, the
  message or body it filled in, and the error; a panic is an error of its own.
\<close>

unbundle bit_operations_syntax

section \<open>Messages\<close>

type_synonym byte = "8 word"
type_synonym bytes = "byte list"
type_synonym hdr = "(string, string) go_map"

datatype messageType = Error_t | Request_t | Response_t | Event_t | Other_t int

record message =
  cm_Header :: "hdr option"
  cm_Id :: string
  cm_Target :: string
  cm_Method :: string
  cm_Endpoint :: string
  cm_Error :: string
  cm_Body :: bytes
  cm_Type :: messageType

text \<open>Reading from a nil map gives the empty string, writing to one panics.\<close>

definition hget :: "message \<Rightarrow> string \<Rightarrow> string" where
  "hget m k = (case cm_Header m of None \<Rightarrow> [] | Some h \<Rightarrow> md_at h k)"

definition hsets :: "(string \<times> string) list \<Rightarrow> message \<Rightarrow> message option" where
  "hsets kvs m = map_option (\<lambda>h. m\<lparr>cm_Header := Some (foldl (\<lambda>h (k, v). AList.update k v h) h kvs)\<rparr>) (cm_Header m)"

datatype cerr = IO_EOF | UnexpectedEOF | ErrInvalidMessage | CErr string | CPanic

text \<open>Values of type \<open>interface{}\<close>: nil, the byte types of \<open>codec/bytes\<close>, protobuf messages, anything else.\<close>

datatype 'v body = BNil | BFrame bytes | BPtr bytes | BBytes bytes | BProto 'v | BOther 'v

section \<open>Buffers\<close>

record conn =
  cn_r :: bytes
  cn_w :: bytes

definition buf_Read :: "nat \<Rightarrow> bytes \<Rightarrow> bytes \<times> bytes option" where
  "buf_Read n b =
     (if b = [] then if n = 0 then ([], Some []) else ([], None)
      else (drop n b, Some (take n b @ replicate (n - length b) 0)))"

definition conn_Write :: "bytes \<Rightarrow> 'z conn_scheme \<Rightarrow> 'z conn_scheme" where
  "conn_Write p c = c\<lparr>cn_w := cn_w c @ p\<rparr>"

definition PutUint32 :: "32 word \<Rightarrow> bytes" where
  "PutUint32 w = [ucast (drop_bit 24 w), ucast (drop_bit 16 w), ucast (drop_bit 8 w), ucast w]"

definition Uint32 :: "bytes \<Rightarrow> 32 word" where
  "Uint32 b = ucast (b ! 3) OR push_bit 8 (ucast (b ! 2)) OR push_bit 16 (ucast (b ! 1)) OR push_bit 24 (ucast (b ! 0))"

section \<open>Netstrings\<close>

definition WriteNetString :: "bytes \<Rightarrow> 'z conn_scheme \<Rightarrow> 'z conn_scheme" where
  "WriteNetString data w = conn_Write data (conn_Write (PutUint32 (word_of_nat (length data))) w)"

definition ReadNetString :: "'z conn_scheme \<Rightarrow> 'z conn_scheme \<times> (cerr + bytes)" where
  "ReadNetString r =
     (case buf_Read 4 (cn_r r) of
        (b, None) \<Rightarrow> (r\<lparr>cn_r := b\<rparr>, Inl IO_EOF)
      | (b, Some sizeBuf) \<Rightarrow>
          let size' = Uint32 sizeBuf
          in if size' = 0 then (r\<lparr>cn_r := b\<rparr>, Inr [])
             else case buf_Read (unat size') b of
               (b, None) \<Rightarrow> (r\<lparr>cn_r := b\<rparr>, Inl IO_EOF)
             | (b, Some data) \<Rightarrow> (r\<lparr>cn_r := b\<rparr>, Inr data))"

section \<open>gRPC frames\<close>

definition MaxMessageSize :: int where
  "MaxMessageSize = 1024 * 1024 * 4"

definition maxInt :: int where
  "maxInt = 2 ^ 63 - 1"

definition grpc_decode :: "'z conn_scheme \<Rightarrow> 'z conn_scheme \<times> (cerr + byte \<times> bytes)" where
  "grpc_decode r =
     (case buf_Read 5 (cn_r r) of
        (b, None) \<Rightarrow> (r\<lparr>cn_r := b\<rparr>, Inl IO_EOF)
      | (b, Some header) \<Rightarrow>
          let cf = header ! 0; len = Uint32 (drop 1 header); r = r\<lparr>cn_r := b\<rparr>
          in if len = 0 then (r, Inr (cf, []))
             else if uint len > maxInt then (r, Inl (CErr ''grpc: received message larger than max length allowed on current machine''))
             else if uint len > MaxMessageSize then (r, Inl (CErr ''grpc: received message larger than max''))
             else case buf_Read (unat len) b of
               (b, None) \<Rightarrow> (r\<lparr>cn_r := b\<rparr>, Inl UnexpectedEOF)
             | (b, Some msg) \<Rightarrow> (r\<lparr>cn_r := b\<rparr>, Inr (cf, msg)))"

definition grpc_encode :: "byte \<Rightarrow> bytes \<Rightarrow> 'z conn_scheme \<Rightarrow> 'z conn_scheme" where
  "grpc_encode cf buf w = conn_Write buf (conn_Write (cf # PutUint32 (word_of_nat (length buf))) w)"

section \<open>Codecs\<close>

record ('c, 'v) codec_if =
  ci_Write :: "message \<Rightarrow> 'v body \<Rightarrow> 'c \<Rightarrow> 'c \<times> message \<times> cerr option"
  ci_ReadHeader :: "message \<Rightarrow> messageType \<Rightarrow> 'c \<Rightarrow> 'c \<times> message \<times> cerr option"
  ci_ReadBody :: "'v body \<Rightarrow> 'c \<Rightarrow> 'c \<times> 'v body \<times> cerr option"
  ci_String :: string

text \<open>
  The marshallers: JSON and protobuf of a body, and protobuf of the two header messages of
  \<open>protorpc\<close>, \<open>Request\<close> (method, sequence number) and \<open>Response\<close> (with an error).
\<close>

record 'v marshalling =
  json_Marshal :: "'v body \<Rightarrow> string + bytes"
  json_Unmarshal :: "bytes \<Rightarrow> 'v body \<Rightarrow> string + 'v body"
  proto_Marshal :: "'v \<Rightarrow> string + bytes"
  proto_Unmarshal :: "bytes \<Rightarrow> 'v \<Rightarrow> string + 'v"
  Request_Marshal :: "string \<times> 64 word \<Rightarrow> string + bytes"
  Request_Unmarshal :: "bytes \<Rightarrow> string + string \<times> 64 word"
  Response_Marshal :: "string \<times> 64 word \<times> string \<Rightarrow> string + bytes"
  Response_Unmarshal :: "bytes \<Rightarrow> string + string \<times> 64 word \<times> string"

subsection \<open>Raw bytes\<close>

definition bytes_ReadHeader :: "message \<Rightarrow> messageType \<Rightarrow> conn \<Rightarrow> conn \<times> message \<times> cerr option" where
  "bytes_ReadHeader m t c = (c, m, None)"

definition bytes_ReadBody :: "'v body \<Rightarrow> conn \<Rightarrow> conn \<times> 'v body \<times> cerr option" where
  "bytes_ReadBody b c =
     (let buf = cn_r c; c = c\<lparr>cn_r := []\<rparr>
      in case b of
           BPtr _ \<Rightarrow> (c, BPtr buf, None)
         | BFrame _ \<Rightarrow> (c, BFrame buf, None)
         | _ \<Rightarrow> (c, b, Some (CErr ''failed to read body'')))"

definition bytes_Write :: "message \<Rightarrow> 'v body \<Rightarrow> conn \<Rightarrow> conn \<times> message \<times> cerr option" where
  "bytes_Write m b c =
     (case b of
        BFrame v \<Rightarrow> (conn_Write v c, m, None)
      | BPtr v \<Rightarrow> (conn_Write v c, m, None)
      | BBytes v \<Rightarrow> (conn_Write v c, m, None)
      | _ \<Rightarrow> (c, m, Some (CErr ''failed to write'')))"

definition bytes_codec :: "(conn, 'v) codec_if" where
  "bytes_codec = \<lparr>ci_Write = bytes_Write, ci_ReadHeader = bytes_ReadHeader, ci_ReadBody = bytes_ReadBody, ci_String = ''bytes''\<rparr>"

text \<open>The marshaller of \<open>codec/bytes\<close>; \<open>BOther\<close> stands for a \<open>*Message\<close>, whose body is kept.\<close>

definition bytes_Marshal :: "bytes body \<Rightarrow> cerr + bytes" where
  "bytes_Marshal v = (case v of BPtr ve \<Rightarrow> Inr ve | BBytes ve \<Rightarrow> Inr ve | BOther ve \<Rightarrow> Inr ve | _ \<Rightarrow> Inl ErrInvalidMessage)"

definition bytes_Unmarshal :: "bytes \<Rightarrow> bytes body \<Rightarrow> bytes body \<times> cerr option" where
  "bytes_Unmarshal d v =
     (case v of BPtr _ \<Rightarrow> (BPtr d, Some ErrInvalidMessage) | BOther _ \<Rightarrow> (BOther d, Some ErrInvalidMessage)
      | _ \<Rightarrow> (v, Some ErrInvalidMessage))"

subsection \<open>Protobuf\<close>

definition proto_ReadHeader :: "message \<Rightarrow> messageType \<Rightarrow> conn \<Rightarrow> conn \<times> message \<times> cerr option" where
  "proto_ReadHeader m t c = (c, m, None)"

definition proto_ReadBody :: "'v marshalling \<Rightarrow> 'v body \<Rightarrow> conn \<Rightarrow> conn \<times> 'v body \<times> cerr option" where
  "proto_ReadBody mar b c =
     (if b = BNil then (c, b, None)
      else let buf = cn_r c; c = c\<lparr>cn_r := []\<rparr>
        in case b of
             BProto m \<Rightarrow> (case proto_Unmarshal mar buf m of Inl e \<Rightarrow> (c, b, Some (CErr e)) | Inr m' \<Rightarrow> (c, BProto m', None))
           | _ \<Rightarrow> (c, b, Some ErrInvalidMessage))"

definition proto_Write :: "'v marshalling \<Rightarrow> message \<Rightarrow> 'v body \<Rightarrow> conn \<Rightarrow> conn \<times> message \<times> cerr option" where
  "proto_Write mar m b c =
     (case b of
        BNil \<Rightarrow> (c, m, None)
      | BProto p \<Rightarrow> (case proto_Marshal mar p of Inl e \<Rightarrow> (c, m, Some (CErr e)) | Inr buf \<Rightarrow> (conn_Write buf c, m, None))
      | _ \<Rightarrow> (c, m, Some ErrInvalidMessage))"

definition proto_codec :: "'v marshalling \<Rightarrow> (conn, 'v) codec_if" where
  "proto_codec mar = \<lparr>ci_Write = proto_Write mar, ci_ReadHeader = proto_ReadHeader, ci_ReadBody = proto_ReadBody mar, ci_String = ''proto''\<rparr>"

subsection \<open>gRPC\<close>

record grpcCodec = conn +
  gc_ContentType :: string

definition grpc_NewCodec :: "bytes \<Rightarrow> grpcCodec" where
  "grpc_NewCodec r = \<lparr>cn_r = r, cn_w = [], gc_ContentType = ''application/grpc''\<rparr>"

definition grpc_contentType :: "message \<Rightarrow> grpcCodec \<Rightarrow> grpcCodec" where
  "grpc_contentType m c =
     (let c = (if hget m ''Content-Type'' \<noteq> [] then c\<lparr>gc_ContentType := hget m ''Content-Type''\<rparr> else c)
      in if hget m ''content-type'' \<noteq> [] then c\<lparr>gc_ContentType := hget m ''content-type''\<rparr> else c)"

definition grpc_ReadHeader :: "message \<Rightarrow> messageType \<Rightarrow> grpcCodec \<Rightarrow> grpcCodec \<times> message \<times> cerr option" where
  "grpc_ReadHeader m t c =
     (let c = grpc_contentType m c; path = hget m '':path''
      in if path = [] \<or> hd path \<noteq> CHR ''/'' then
           (c, m\<lparr>cm_Target := hget m ''Micro-Service'', cm_Endpoint := hget m ''Micro-Endpoint''\<rparr>, None)
         else
           let parts = go_split (CHR ''/'') path
           in if length parts \<noteq> 3 then (c, m, Some (CErr ''unknown request path''))
              else let service = go_split (CHR ''.'') (parts ! 1)
                in (c, m\<lparr>cm_Endpoint := go_join ''.'' [last service, parts ! 2], cm_Target := go_join ''.'' (butlast service)\<rparr>, None))"

definition grpc_ReadBody :: "'v marshalling \<Rightarrow> 'v body \<Rightarrow> grpcCodec \<Rightarrow> grpcCodec \<times> 'v body \<times> cerr option" where
  "grpc_ReadBody mar b c =
     (if b = BNil then (c, b, None)
      else case grpc_decode c of
        (c, Inl e) \<Rightarrow> (c, b, Some e)
      | (c, Inr (_, buf)) \<Rightarrow>
          if gc_ContentType c = ''application/grpc+json'' then
            (case json_Unmarshal mar buf b of Inl e \<Rightarrow> (c, b, Some (CErr e)) | Inr b' \<Rightarrow> (c, b', None))
          else if gc_ContentType c = ''application/grpc+proto'' \<or> gc_ContentType c = ''application/grpc'' then
            (case b of
               BProto p \<Rightarrow> (case proto_Unmarshal mar buf p of Inl e \<Rightarrow> (c, b, Some (CErr e)) | Inr p' \<Rightarrow> (c, BProto p', None))
             | _ \<Rightarrow> (c, b, Some CPanic))
          else (c, b, Some (CErr ''Unsupported Content-Type'')))"

text \<open>\<open>Write\<close>: the pseudo headers by message type, the marshalled content, and the frame.\<close>

definition grpc_headers :: "message \<Rightarrow> grpcCodec \<Rightarrow> message option" where
  "grpc_headers m c =
     (case cm_Type m of
        Request_t \<Rightarrow>
          (case go_split (CHR ''.'') (cm_Endpoint m) of
             p0 # p1 # _ \<Rightarrow>
               hsets [('':method'', ''POST''), ('':path'', ''/'' @ cm_Target m @ ''.'' @ p0 @ ''/'' @ p1), ('':proto'', ''HTTP/2.0''),
                      (''te'', ''trailers''), (''user-agent'', ''grpc-go/1.0.0''), ('':authority'', cm_Target m),
                      (''content-type'', gc_ContentType c)] m
           | _ \<Rightarrow> None)
      | Response_t \<Rightarrow>
          hsets [(''Trailer'', ''grpc-status''), (''content-type'', gc_ContentType c), ('':status'', ''200''), (''grpc-status'', ''0'')] m
      | Error_t \<Rightarrow>
          hsets ((''Trailer'', ''grpc-status, grpc-message'') #
            (if cm_Error m = ''EOS'' then [(''grpc-status'', ''0'')]
             else [(''grpc-message'', cm_Error m), (''grpc-status'', ''13'')])) m
      | _ \<Rightarrow> Some m)"

definition grpc_marshal :: "'v marshalling \<Rightarrow> string \<Rightarrow> 'v body \<Rightarrow> string + bytes" where
  "grpc_marshal mar ct b =
     (if ct = ''application/grpc+json'' then json_Marshal mar b
      else if ct = ''application/grpc+proto'' \<or> ct = ''application/grpc'' then
        (case b of BProto p \<Rightarrow> proto_Marshal mar p | _ \<Rightarrow> Inr [])
      else Inl ''Unsupported Content-Type'')"

definition grpc_Write :: "'v marshalling \<Rightarrow> message \<Rightarrow> 'v body \<Rightarrow> grpcCodec \<Rightarrow> grpcCodec \<times> message \<times> cerr option" where
  "grpc_Write mar m b c =
     (let c = grpc_contentType m c
      in case grpc_headers m c of
           None \<Rightarrow> (c, m, Some CPanic)
         | Some m \<Rightarrow>
             if cm_Type m = Error_t then (c, m, None)
             else case grpc_marshal mar (gc_ContentType c) b of
               Inl e \<Rightarrow>
                 (case hsets [(''grpc-status'', ''8''), (''grpc-message'', e)] m of
                    None \<Rightarrow> (c, m, Some CPanic)
                  | Some m \<Rightarrow> (c, m, Some (CErr e)))
             | Inr buf \<Rightarrow> if buf = [] then (c, m, None) else (grpc_encode 0 buf c, m, None))"

definition grpc_codec :: "'v marshalling \<Rightarrow> (grpcCodec, 'v) codec_if" where
  "grpc_codec mar = \<lparr>ci_Write = grpc_Write mar, ci_ReadHeader = grpc_ReadHeader, ci_ReadBody = grpc_ReadBody mar, ci_String = ''grpc''\<rparr>"


subsection \<open>Numbers in decimal\<close>

definition digit :: "nat \<Rightarrow> char" where
  "digit n = char_of (48 + n)"

fun go_dec :: "nat \<Rightarrow> string" where
  "go_dec n = (if n < 10 then [digit n] else go_dec (n div 10) @ [digit (n mod 10)])"

declare go_dec.simps [simp del]

definition is_dec :: "char \<Rightarrow> bool" where
  "is_dec c \<longleftrightarrow> 48 \<le> (of_char c :: nat) \<and> (of_char c :: nat) \<le> 57"

definition dec_val :: "string \<Rightarrow> nat" where
  "dec_val s = foldl (\<lambda>n c. n * 10 + (of_char c - 48)) 0 s"

text \<open>\<open>strconv.ParseInt(s, 10, 64)\<close>; \<open>None\<close> is a syntax or range error.\<close>

definition ParseInt :: "string \<Rightarrow> int option" where
  "ParseInt s =
     (let neg = (s \<noteq> [] \<and> hd s = CHR ''-'');
          ds = (if s \<noteq> [] \<and> (hd s = CHR ''-'' \<or> hd s = CHR ''+'') then tl s else s);
          v = (if neg then - int (dec_val ds) else int (dec_val ds))
      in if ds = [] \<or> \<not> list_all is_dec ds then None
         else if v < - (2 ^ 63) \<or> 2 ^ 63 \<le> v then None
         else Some v)"

subsection \<open>protorpc\<close>

record protoCodec = conn +
  pb_buf :: bytes
  pb_mt :: messageType

definition protorpc_NewCodec :: "bytes \<Rightarrow> protoCodec" where
  "protorpc_NewCodec r = \<lparr>cn_r = r, cn_w = [], pb_buf = [], pb_mt = Error_t\<rparr>"

definition seq_id :: "string \<Rightarrow> 64 word" where
  "seq_id s = word_of_int (case ParseInt s of None \<Rightarrow> 0 | Some p \<Rightarrow> p)"

definition protorpc_Write :: "'v marshalling \<Rightarrow> message \<Rightarrow> 'v body \<Rightarrow> protoCodec \<Rightarrow> protoCodec \<times> message \<times> cerr option" where
  "protorpc_Write mar m b c =
     (case cm_Type m of
        Request_t \<Rightarrow>
          (case Request_Marshal mar (cm_Method m, seq_id (cm_Id m)) of
             Inl e \<Rightarrow> (c, m, Some (CErr e))
           | Inr data \<Rightarrow>
               let c = WriteNetString data c
               in case b of
                    BProto p \<Rightarrow>
                      (case proto_Marshal mar p of
                         Inl e \<Rightarrow> (c, m, Some (CErr e))
                       | Inr data \<Rightarrow> (WriteNetString data c, m, None))
                  | _ \<Rightarrow> (c, m, Some ErrInvalidMessage))
      | Event_t \<Rightarrow>
          (case b of
             BProto p \<Rightarrow> (case proto_Marshal mar p of Inl e \<Rightarrow> (c, m, Some (CErr e)) | Inr data \<Rightarrow> (conn_Write data c, m, None))
           | _ \<Rightarrow> (c, m, Some ErrInvalidMessage))
      | Other_t _ \<Rightarrow> (c, m, Some (CErr ''unrecognized message type''))
      | _ \<Rightarrow>
          (case Response_Marshal mar (cm_Method m, seq_id (cm_Id m), cm_Error m) of
             Inl e \<Rightarrow> (c, m, Some (CErr e))
           | Inr data \<Rightarrow>
               let c = WriteNetString data c
               in case b of
                    BProto p \<Rightarrow>
                      (case proto_Marshal mar p of
                         Inl e \<Rightarrow> (c, m, Some (CErr e))
                       | Inr data \<Rightarrow> (WriteNetString data c, m, None))
                  | _ \<Rightarrow> (WriteNetString [] c, m, None)))"

definition protorpc_ReadHeader :: "'v marshalling \<Rightarrow> message \<Rightarrow> messageType \<Rightarrow> protoCodec \<Rightarrow> protoCodec \<times> message \<times> cerr option" where
  "protorpc_ReadHeader mar m mt c =
     (let c = c\<lparr>pb_buf := [], pb_mt := mt\<rparr>
      in case mt of
           Request_t \<Rightarrow>
             (case ReadNetString c of
                (c, Inl e) \<Rightarrow> (c, m, Some e)
              | (c, Inr data) \<Rightarrow>
                  (case Request_Unmarshal mar data of
                     Inl e \<Rightarrow> (c, m, Some (CErr e))
                   | Inr (method, sq) \<Rightarrow> (c, m\<lparr>cm_Method := method, cm_Id := go_dec (unat sq)\<rparr>, None)))
         | Response_t \<Rightarrow>
             (case ReadNetString c of
                (c, Inl e) \<Rightarrow> (c, m, Some e)
              | (c, Inr data) \<Rightarrow>
                  (case Response_Unmarshal mar data of
                     Inl e \<Rightarrow> (c, m, Some (CErr e))
                   | Inr (method, sq, er) \<Rightarrow> (c, m\<lparr>cm_Method := method, cm_Id := go_dec (unat sq), cm_Error := er\<rparr>, None)))
         | Event_t \<Rightarrow> (c\<lparr>pb_buf := pb_buf c @ cn_r c, cn_r := []\<rparr>, m, None)
         | _ \<Rightarrow> (c, m, Some (CErr ''unrecognized message type'')))"

definition protorpc_fill :: "'v marshalling \<Rightarrow> bytes \<Rightarrow> 'v body \<Rightarrow> protoCodec \<Rightarrow> protoCodec \<times> 'v body \<times> cerr option" where
  "protorpc_fill mar data b c =
     (case b of
        BNil \<Rightarrow> (c, b, None)
      | BProto p \<Rightarrow> (case proto_Unmarshal mar data p of Inl e \<Rightarrow> (c, b, Some (CErr e)) | Inr p' \<Rightarrow> (c, BProto p', None))
      | _ \<Rightarrow> (c, b, Some CPanic))"

definition protorpc_ReadBody :: "'v marshalling \<Rightarrow> 'v body \<Rightarrow> protoCodec \<Rightarrow> protoCodec \<times> 'v body \<times> cerr option" where
  "protorpc_ReadBody mar b c =
     (if pb_mt c = Request_t \<or> pb_mt c = Response_t then
        (case ReadNetString c of
           (c, Inl e) \<Rightarrow> (c, b, Some e)
         | (c, Inr data) \<Rightarrow> protorpc_fill mar data b c)
      else if pb_mt c = Event_t then protorpc_fill mar (pb_buf c) b c
      else (c, b, Some (CErr ''unrecognized message type'')))"

definition protorpc_codec :: "'v marshalling \<Rightarrow> (protoCodec, 'v) codec_if" where
  "protorpc_codec mar = \<lparr>ci_Write = protorpc_Write mar, ci_ReadHeader = protorpc_ReadHeader mar,
     ci_ReadBody = protorpc_ReadBody mar, ci_String = ''proto-rpc''\<rparr>"

section \<open>Frames and netstrings are read back\<close>

lemma Uint32_PutUint32: "Uint32 (PutUint32 w) = w"
proof (rule bit_word_eqI)
  fix n assume "n < LENGTH(32)"
  then consider "n < 8" | "8 \<le> n" "n < 16" | "16 \<le> n" "n < 24" | "24 \<le> n" "n < 32" by fastforce
  then show "bit (Uint32 (PutUint32 w)) n \<longleftrightarrow> bit w n"
    by cases (auto simp: Uint32_def PutUint32_def bit_or_iff bit_push_bit_iff bit_ucast_iff bit_drop_bit_eq)
qed

lemma length_PutUint32 [simp]: "length (PutUint32 w) = 4"
  by (simp add: PutUint32_def)

lemma PutUint32_not_Nil [simp]: "PutUint32 w \<noteq> []"
  by (simp add: PutUint32_def)

lemma buf_Read_append: "length p = n \<Longrightarrow> p \<noteq> [] \<Longrightarrow> buf_Read n (p @ b) = (b, Some p)"
  by (simp add: buf_Read_def)

lemma unat_length: "length d < 2 ^ 32 \<Longrightarrow> unat (word_of_nat (length d) :: 32 word) = length d"
  by (simp add: unat_of_nat take_bit_nat_eq_self)

lemma ReadNetString_Write:
  assumes "cn_r r = cn_w (WriteNetString d \<lparr>cn_r = [], cn_w = []\<rparr>) @ rest" and "length d < 2 ^ 32"
  shows "ReadNetString r = (r\<lparr>cn_r := rest\<rparr>, Inr d)"
proof -
  let ?w = "word_of_nat (length d) :: 32 word"
  have r: "cn_r r = PutUint32 ?w @ d @ rest"
    using assms(1) by (simp add: WriteNetString_def conn_Write_def)
  show ?thesis
  proof (cases "d = []")
    case True
    then show ?thesis by (simp add: ReadNetString_def r buf_Read_append Uint32_PutUint32)
  next
    case False
    with assms(2) have "unat ?w = length d" "?w \<noteq> 0"
      using unat_length [OF assms(2)] by (auto simp: unat_eq_0 [symmetric])
    with False show ?thesis by (simp add: ReadNetString_def r buf_Read_append Uint32_PutUint32)
  qed
qed

end
