(* ===== verification/Rpc_Codec.thy ===== *)
theory Rpc_Codec
  imports Codecs Micro_Errors
begin

text \<open>
  The codecs of the two ends of an RPC connection, \<open>client/rpc_codec.go\<close> and \<open>server/rpc_codec.go\<close>, with the message
  headers of \<open>transport/headers\<close>, and the client's stream, \<open>client/rpc_stream.go\<close>.  They wrap a codec of \<open>Codecs\<close>,
  any record of codec operations, and move the fields of a message through the headers of a transport message.

  The transport is an argument: whether \<open>Send\<close> fails, and what \<open>Recv\<close> returns.  \<open>None\<close> as the whole
  result is a panic.  Buffer pools and locks are left out.
\<close>

section \<open>Headers\<close>

record tmsg =
  tm_Header :: hdr
  tm_Body :: bytes

abbreviation H_Message :: string where "H_Message \<equiv> ''Micro-Topic''"
abbreviation H_Request :: string where "H_Request \<equiv> ''Micro-Service''"
abbreviation H_Error :: string where "H_Error \<equiv> ''Micro-Error''"
abbreviation H_Endpoint :: string where "H_Endpoint \<equiv> ''Micro-Endpoint''"
abbreviation H_Method :: string where "H_Method \<equiv> ''Micro-Method''"
abbreviation H_ID :: string where "H_ID \<equiv> ''Micro-Id''"
abbreviation H_Protocol :: string where "H_Protocol \<equiv> ''Micro-Protocol''"
abbreviation H_Target :: string where "H_Target \<equiv> ''Micro-Target''"
abbreviation H_Stream :: string where "H_Stream \<equiv> ''Micro-Stream''"

definition or_header :: "message \<Rightarrow> string \<Rightarrow> string \<Rightarrow> string" where
  "or_header m v h = (if v \<noteq> [] then v else hget m h)"

definition put_header :: "string \<Rightarrow> string \<Rightarrow> hdr \<Rightarrow> hdr" where
  "put_header h v hs = (if v = [] then hs else AList.update h v hs)"

definition put_header_x :: "string \<Rightarrow> string \<Rightarrow> hdr \<Rightarrow> hdr" where
  "put_header_x h v hs = (if v = [] then hs else AList.update (''X-'' @ h) v (AList.update h v hs))"

section \<open>The client's codec\<close>

record 'c clientCodec =
  cc_codec :: 'c
  cc_req :: tmsg
  cc_stream :: string

definition cerr_text :: "cerr \<Rightarrow> string" where
  "cerr_text e =
     (case e of IO_EOF \<Rightarrow> ''EOF'' | UnexpectedEOF \<Rightarrow> ''unexpected EOF'' | ErrInvalidMessage \<Rightarrow> ''invalid message''
      | CErr t \<Rightarrow> t | CPanic \<Rightarrow> [])"

definition client_getHeaders :: "message \<Rightarrow> message" where
  "client_getHeaders m =
     m\<lparr>cm_Error := or_header m (cm_Error m) H_Error, cm_Endpoint := or_header m (cm_Endpoint m) H_Endpoint,
       cm_Method := or_header m (cm_Method m) H_Method, cm_Id := or_header m (cm_Id m) H_ID\<rparr>"

definition client_setHeaders :: "message \<Rightarrow> string \<Rightarrow> hdr \<Rightarrow> hdr" where
  "client_setHeaders m stream hs =
     put_header H_Stream stream
    (put_header H_Error (cm_Error m)
    (put_header H_Endpoint (cm_Endpoint m)
    (put_header H_Method (cm_Method m)
    (put_header H_Request (cm_Target m)
    (put_header H_ID (cm_Id m) hs)))))"

text \<open>
  \<open>setupProtocol\<close>: the request with its new content type, and the content type whose default codec is
  returned, if any.
\<close>

definition client_setupProtocol :: "tmsg \<Rightarrow> hdr \<Rightarrow> tmsg \<times> string option" where
  "client_setupProtocol msg node_md =
     (if md_at node_md ''protocol'' \<noteq> [] then (msg, None)
      else if md_at (tm_Header msg) H_Message \<noteq> [] then (msg, None)
      else let ct = md_at (tm_Header msg) ''Content-Type'';
               msg = (if ct = ''application/json'' then msg\<lparr>tm_Header := AList.update ''Content-Type'' ''application/json-rpc'' (tm_Header msg)\<rparr>
                      else if ct = ''application/protobuf'' then msg\<lparr>tm_Header := AList.update ''Content-Type'' ''application/proto-rpc'' (tm_Header msg)\<rparr>
                      else msg)
           in (msg, if md_at (tm_Header msg) ''Content-Type'' \<in>
                       {''application/grpc'', ''application/grpc+json'', ''application/grpc+proto'', ''application/protobuf'',
                        ''application/json'', ''application/json-rpc'', ''application/octet-stream''}
                    then Some (md_at (tm_Header msg) ''Content-Type'') else None))"

definition client_newRpcCodec :: "tmsg \<Rightarrow> 'z conn_scheme \<Rightarrow> string \<Rightarrow> 'z conn_scheme clientCodec" where
  "client_newRpcCodec req c stream = \<lparr>cc_codec = c, cc_req = req, cc_stream = stream\<rparr>"

definition client_header :: "'c clientCodec \<Rightarrow> message \<Rightarrow> hdr" where
  "client_header cc m =
     client_setHeaders m (cc_stream cc)
       (foldl (\<lambda>hs (k, v). AList.update k v hs) (case cm_Header m of None \<Rightarrow> [] | Some hs \<Rightarrow> hs) (tm_Header (cc_req cc)))"

definition client_send ::
  "(tmsg \<Rightarrow> string option) \<Rightarrow> 'c clientCodec \<Rightarrow> message \<Rightarrow> 'c clientCodec \<times> (err + tmsg)" where
  "client_send send cc m =
     (let msg = \<lparr>tm_Header = the (cm_Header m), tm_Body = cm_Body m\<rparr>
      in case send msg of
           Some e \<Rightarrow> (cc, Inl (InternalServerError ''real.micro.client.transport'' e []))
         | None \<Rightarrow> (cc, Inr msg))"

definition client_Write ::
  "('z conn_scheme, 'v) codec_if \<Rightarrow> (tmsg \<Rightarrow> string option) \<Rightarrow> message \<Rightarrow> 'v body \<Rightarrow> 'z conn_scheme clientCodec
     \<Rightarrow> ('z conn_scheme clientCodec \<times> (err + tmsg)) option" where
  "client_Write C send m body cc =
     (let c = (cc_codec cc)\<lparr>cn_w := []\<rparr>;
          cc = cc\<lparr>cc_codec := c\<rparr>;
          m = m\<lparr>cm_Header := Some (client_header cc m)\<rparr>
      in case body of
           BNil \<Rightarrow> Some (client_send send cc m)
         | BFrame d \<Rightarrow> Some (client_send send cc (m\<lparr>cm_Body := d\<rparr>))
         | _ \<Rightarrow>
             (case ci_Write C m body c of
                (c, m, Some CPanic) \<Rightarrow> None
              | (c, m, Some e) \<Rightarrow> Some (cc\<lparr>cc_codec := c\<rparr>, Inl (InternalServerError ''real.micro.client.codec'' (cerr_text e) []))
              | (c, m, None) \<Rightarrow> Some (client_send send (cc\<lparr>cc_codec := c\<rparr>) (m\<lparr>cm_Body := cn_w c\<rparr>))))"

definition client_ReadHeader ::
  "('z conn_scheme, 'v) codec_if \<Rightarrow> string + tmsg \<Rightarrow> message \<Rightarrow> messageType \<Rightarrow> 'z conn_scheme clientCodec
     \<Rightarrow> ('z conn_scheme clientCodec \<times> message \<times> err option) option" where
  "client_ReadHeader C recv m r cc =
     (case recv of
        Inl e \<Rightarrow> Some (cc, m, Some (InternalServerError ''real.micro.client.transport'' e []))
      | Inr tm \<Rightarrow>
          (case ci_ReadHeader C (m\<lparr>cm_Header := Some (tm_Header tm)\<rparr>) r ((cc_codec cc)\<lparr>cn_r := tm_Body tm\<rparr>) of
             (c, m, Some CPanic) \<Rightarrow> None
           | (c, m, Some e) \<Rightarrow>
               Some (cc\<lparr>cc_codec := c\<rparr>, client_getHeaders m, Some (InternalServerError ''real.micro.client.codec'' (cerr_text e) []))
           | (c, m, None) \<Rightarrow> Some (cc\<lparr>cc_codec := c\<rparr>, client_getHeaders m, None)))"

definition client_ReadBody ::
  "('z conn_scheme, 'v) codec_if \<Rightarrow> 'v body \<Rightarrow> 'z conn_scheme clientCodec
     \<Rightarrow> ('z conn_scheme clientCodec \<times> 'v body \<times> err option) option" where
  "client_ReadBody C b cc =
     (case b of
        BFrame _ \<Rightarrow> Some (cc, BFrame (cn_r (cc_codec cc)), None)
      | _ \<Rightarrow>
          (case ci_ReadBody C b (cc_codec cc) of
             (c, b, Some CPanic) \<Rightarrow> None
           | (c, b, Some e) \<Rightarrow> Some (cc\<lparr>cc_codec := c\<rparr>, b, Some (InternalServerError ''real.micro.client.codec'' (cerr_text e) []))
           | (c, b, None) \<Rightarrow> Some (cc\<lparr>cc_codec := c\<rparr>, b, None)))"

definition client_Close :: "'z conn_scheme clientCodec \<Rightarrow> 'z conn_scheme clientCodec" where
  "client_Close cc = cc\<lparr>cc_codec := (cc_codec cc)\<lparr>cn_r := [], cn_w := []\<rparr>\<rparr>"

section \<open>The server's codec\<close>

record 'c serverCodec =
  sc_codec :: 'c
  sc_req :: tmsg
  sc_first :: bool
  sc_protocol :: string

text \<open>\<open>sc_first\<close>: the channel \<open>first\<close> is still open, that is, the first message is preloaded.\<close>

definition getHeader :: "string \<Rightarrow> hdr \<Rightarrow> string" where
  "getHeader h md = (if md_at md h \<noteq> [] then md_at md h else md_at md (''X-'' @ h))"

definition server_getHeaders :: "message \<Rightarrow> message" where
  "server_getHeaders m =
     (let m = m\<lparr>cm_Id := or_header m (cm_Id m) H_ID, cm_Error := or_header m (cm_Error m) H_Error,
                cm_Endpoint := or_header m (cm_Endpoint m) H_Endpoint, cm_Method := or_header m (cm_Method m) H_Method,
                cm_Target := or_header m (cm_Target m) H_Request\<rparr>
      in if cm_Endpoint m = [] then m\<lparr>cm_Endpoint := cm_Method m\<rparr> else m)"

definition server_setHeaders :: "message \<Rightarrow> hdr \<Rightarrow> hdr" where
  "server_setHeaders r hs =
     put_header_x H_Error (cm_Error r)
    (put_header_x H_Endpoint (cm_Endpoint r)
    (put_header_x H_Method (cm_Method r)
    (put_header_x H_Request (cm_Target r)
    (put_header_x H_ID (cm_Id r) hs))))"

definition server_default_codecs :: "string set" where
  "server_default_codecs =
     {''application/grpc'', ''application/grpc+json'', ''application/grpc+proto'', ''application/json'',
      ''application/protobuf'', ''application/octet-stream''}"

definition server_setupProtocol :: "tmsg \<Rightarrow> tmsg \<times> string option" where
  "server_setupProtocol msg =
     (let h = tm_Header msg; service = getHeader H_Request h; method = getHeader H_Method h;
          endpoint = getHeader H_Endpoint h; protocol = getHeader H_Protocol h; target = getHeader H_Target h;
          topic = getHeader H_Message h; ct = md_at h ''Content-Type'';
          default = (if ct \<in> server_default_codecs then Some ct else None)
      in if protocol \<noteq> [] then (msg, None)
         else if topic \<noteq> [] then (msg, None)
         else if service = [] \<and> method = [] \<and> endpoint = [] then (msg, default)
         else if target \<noteq> [] then (msg, default)
         else let h = (if method = [] then AList.update H_Method endpoint h else h);
                  h = (if endpoint = [] then AList.update H_Endpoint method h else h)
              in (msg\<lparr>tm_Header := h\<rparr>, None))"

definition server_newRpcCodec :: "('z conn_scheme, 'v) codec_if \<Rightarrow> tmsg \<Rightarrow> 'z conn_scheme \<Rightarrow> 'z conn_scheme serverCodec" where
  "server_newRpcCodec C req c =
     (if ci_String C = ''grpc''
      then \<lparr>sc_codec = c\<lparr>cn_r := tm_Body req, cn_w := []\<rparr>, sc_req = req, sc_first = True, sc_protocol = ''grpc''\<rparr>
      else \<lparr>sc_codec = c\<lparr>cn_r := [], cn_w := []\<rparr>, sc_req = req, sc_first = False, sc_protocol = ''mucp''\<rparr>)"

definition new_message :: "hdr \<Rightarrow> bytes \<Rightarrow> message" where
  "new_message h b =
     \<lparr>cm_Header = Some h, cm_Id = [], cm_Target = [], cm_Method = [], cm_Endpoint = [], cm_Error = [], cm_Body = b, cm_Type = Error_t\<rparr>"

definition server_ReadHeader ::
  "('z conn_scheme, 'v) codec_if \<Rightarrow> cerr + tmsg \<Rightarrow> 'z conn_scheme serverCodec
     \<Rightarrow> 'z conn_scheme serverCodec \<times> (cerr + message)" where
  "server_ReadHeader C recv sc =
     (let read = (\<lambda>sc.
            case ci_ReadHeader C (server_getHeaders (new_message (tm_Header (sc_req sc)) (tm_Body (sc_req sc)))) Request_t (sc_codec sc) of
              (c, m, Some e) \<Rightarrow> (sc\<lparr>sc_codec := c\<rparr>, Inl e)
            | (c, m, None) \<Rightarrow> (sc\<lparr>sc_codec := c\<rparr>, Inr (if cm_Endpoint m = [] then m\<lparr>cm_Endpoint := cm_Method m\<rparr> else m)))
      in if sc_first sc then read (sc\<lparr>sc_first := False\<rparr>)
         else case recv of
           Inl e \<Rightarrow> (sc, Inl e)
         | Inr tm \<Rightarrow> read (sc\<lparr>sc_codec := (sc_codec sc)\<lparr>cn_r := tm_Body tm\<rparr>, sc_req := tm\<rparr>))"

definition server_ReadBody ::
  "('z conn_scheme, 'v) codec_if \<Rightarrow> 'v body \<Rightarrow> 'z conn_scheme serverCodec \<Rightarrow> 'z conn_scheme serverCodec \<times> 'v body \<times> cerr option" where
  "server_ReadBody C b sc =
     (if tm_Body (sc_req sc) = [] then (sc, b, None)
      else case b of
        BFrame _ \<Rightarrow> (sc, BFrame (tm_Body (sc_req sc)), None)
      | _ \<Rightarrow> (case ci_ReadBody C b (sc_codec sc) of (c, b, e) \<Rightarrow> (sc\<lparr>sc_codec := c\<rparr>, b, e)))"

text \<open>
  \<open>Write\<close>: the message's own header map is extended.  The outcome is the transport message handed to \<open>Send\<close> with the
  error of \<open>Send\<close>, or the error that kept it from being sent.
\<close>

definition server_body ::
  "('z conn_scheme, 'v) codec_if \<Rightarrow> message \<Rightarrow> message \<Rightarrow> 'v body \<Rightarrow> 'z conn_scheme
     \<Rightarrow> 'z conn_scheme \<times> (cerr + message \<times> bytes)" where
  "server_body C r m b c =
     (case b of
        BFrame d \<Rightarrow> (c, Inr (m, d))
      | _ \<Rightarrow>
          if cm_Body r \<noteq> [] then (c, Inr (m, cm_Body r))
          else case ci_Write C m b c of
            (c, m, None) \<Rightarrow> (c, Inr (m, cn_w c))
          | (c, m, Some CPanic) \<Rightarrow> (c, Inl CPanic)
          | (c, m, Some e) \<Rightarrow>
              let c = c\<lparr>cn_w := []\<rparr>; text' = ''Unable to encode body: '' @ cerr_text e;
                  m = m\<lparr>cm_Error := text', cm_Header := map_option (AList.update H_Error text') (cm_Header m)\<rparr>
              in case ci_Write C m BNil c of
                   (c, m, Some e) \<Rightarrow> (c, Inl e)
                 | (c, m, None) \<Rightarrow> (c, Inr (m, [])))"

definition server_Write ::
  "('z conn_scheme, 'v) codec_if \<Rightarrow> message \<Rightarrow> 'v body \<Rightarrow> 'z conn_scheme serverCodec
     \<Rightarrow> 'z conn_scheme serverCodec \<times> (cerr + tmsg)" where
  "server_Write C r b sc =
     (let c = (sc_codec sc)\<lparr>cn_w := []\<rparr>;
          h = (case cm_Header r of None \<Rightarrow> [] | Some hs \<Rightarrow> hs);
          m = r\<lparr>cm_Header := Some (server_setHeaders r h), cm_Body := []\<rparr>
      in case server_body C r m b c of
           (c, Inl e) \<Rightarrow> (sc\<lparr>sc_codec := c\<rparr>, Inl e)
         | (c, Inr (m, body)) \<Rightarrow>
             let h = the (cm_Header m);
                 h = (if body \<noteq> [] then AList.update ''Content-Type'' (md_at (tm_Header (sc_req sc)) ''Content-Type'') h else h)
             in (sc\<lparr>sc_codec := c\<rparr>, Inr \<lparr>tm_Header = h, tm_Body = body\<rparr>))"


section \<open>The contract of a codec\<close>

text \<open>The fields a message carries, and how a partly filled message relates to the one that was sent.\<close>

definition same_fields :: "message \<Rightarrow> message \<Rightarrow> bool" where
  "same_fields m m' \<longleftrightarrow> cm_Id m' = cm_Id m \<and> cm_Target m' = cm_Target m \<and> cm_Method m' = cm_Method m \<and>
     cm_Endpoint m' = cm_Endpoint m \<and> cm_Error m' = cm_Error m \<and> cm_Type m' = cm_Type m"

definition blank_or :: "string \<Rightarrow> string \<Rightarrow> bool" where
  "blank_or v w \<longleftrightarrow> v = [] \<or> v = w"

definition part_of :: "message \<Rightarrow> message \<Rightarrow> bool" where
  "part_of r m \<longleftrightarrow> blank_or (cm_Id r) (cm_Id m) \<and> blank_or (cm_Target r) (cm_Target m) \<and>
     blank_or (cm_Method r) (cm_Method m) \<and> blank_or (cm_Endpoint r) (cm_Endpoint m) \<and> blank_or (cm_Error r) (cm_Error m)"

definition hdr_agrees :: "message \<Rightarrow> bool" where
  "hdr_agrees m \<longleftrightarrow> hget m H_ID = cm_Id m \<and> hget m H_Request = cm_Target m \<and> hget m H_Method = cm_Method m \<and>
     hget m H_Endpoint = cm_Endpoint m \<and> hget m H_Error = cm_Error m"

fun reads_as :: "messageType \<Rightarrow> messageType" where
  "reads_as Error_t = Response_t"
| "reads_as t = t"

text \<open>
  What both ends rely on: a message that \<open>fits\<close> is written without an error and keeps its fields and their headers;
  from the bytes and headers written, \<open>ReadHeader\<close> fills no field with another value (and
  blanks none), and \<open>ReadBody\<close> then fills every suitable target with the body.
\<close>

locale wire_codec =
  fixes C :: "('z conn_scheme, 'v) codec_if"
    and fits :: "'z conn_scheme \<Rightarrow> message \<Rightarrow> 'v body \<Rightarrow> bool"
    and target :: "'v body \<Rightarrow> 'v body \<Rightarrow> bool"
  assumes coded: "fits c m b \<Longrightarrow> b \<noteq> BNil \<and> (\<forall>d. b \<noteq> BFrame d)"
    and suited: "target t b \<Longrightarrow> \<forall>d. t \<noteq> BFrame d"
    and write_ok: "fits c m b \<Longrightarrow> cn_w c = [] \<Longrightarrow> hdr_agrees m \<Longrightarrow> cm_Header m = Some h \<Longrightarrow>
      \<exists>c' m' h'. ci_Write C m b c = (c', m', None) \<and> same_fields m m' \<and> cm_Header m' = Some h' \<and> hdr_agrees m'"
    and read_header: "fits c m b \<Longrightarrow> cn_w c = [] \<Longrightarrow> hdr_agrees m \<Longrightarrow> ci_Write C m b c = (c', m', None) \<Longrightarrow>
      cm_Header m' = Some h' \<Longrightarrow> cn_r d = cn_w c' \<Longrightarrow> cm_Header r = Some h \<Longrightarrow> (\<And>k. k \<noteq> ''Content-Type'' \<Longrightarrow> md_at h k = md_at h' k) \<Longrightarrow>
      part_of r m \<Longrightarrow> cm_Header m = Some h0 \<Longrightarrow>
      \<exists>d' r'. ci_ReadHeader C r (reads_as (cm_Type m)) d = (d', r', None) \<and> cm_Header r' = cm_Header r \<and> part_of r' m \<and>
        (part_of m r \<longrightarrow> part_of m r') \<and>
        (\<forall>t. target t b \<longrightarrow> (\<exists>d''. ci_ReadBody C t d' = (d'', b, None)))"

lemmas field_defs = same_fields_def part_of_def blank_or_def hdr_agrees_def

lemma hget_simps [simp]:
  "hget (m\<lparr>cm_Header := Some h\<rparr>) k = md_at h k"
  "hget (m\<lparr>cm_Body := b\<rparr>) k = hget m k"
  by (simp_all add: hget_def)

lemma md_at_update [simp]: "md_at (AList.update k v h) k' = (if k' = k then v else md_at h k')"
  by (simp add: md_at_def)

lemma md_at_put_header: "md_at (put_header h v hs) k = (if k = h \<and> v \<noteq> [] then v else md_at hs k)"
  by (simp add: put_header_def)

lemma md_at_put_header_x:
  "md_at (put_header_x h v hs) k = (if (k = h \<or> k = ''X-'' @ h) \<and> v \<noteq> [] then v else md_at hs k)"
  by (simp add: put_header_x_def)

text \<open>The headers a sender inherits say nothing about a field it leaves blank.\<close>

definition no_stale :: "hdr \<Rightarrow> message \<Rightarrow> bool" where
  "no_stale h m \<longleftrightarrow> list_all (\<lambda>(v, k). v \<noteq> [] \<or> md_at h k = [])
     [(cm_Id m, H_ID), (cm_Target m, H_Request), (cm_Method m, H_Method), (cm_Endpoint m, H_Endpoint), (cm_Error m, H_Error)]"

definition base_header :: "'c clientCodec \<Rightarrow> message \<Rightarrow> hdr" where
  "base_header cc m =
     foldl (\<lambda>hs (k, v). AList.update k v hs) (case cm_Header m of None \<Rightarrow> [] | Some hs \<Rightarrow> hs) (tm_Header (cc_req cc))"

lemma client_header_agrees:
  assumes "no_stale (base_header cc m) m"
  shows "hdr_agrees (m\<lparr>cm_Header := Some (client_header cc m)\<rparr>)"
  using assms unfolding client_header_def base_header_def [symmetric]
  by (auto simp: hdr_agrees_def client_setHeaders_def no_stale_def md_at_put_header)

lemma server_header_agrees:
  assumes "no_stale h m"
  shows "hdr_agrees (m\<lparr>cm_Header := Some (server_setHeaders m h)\<rparr>)"
  using assms by (auto simp: hdr_agrees_def server_setHeaders_def no_stale_def md_at_put_header_x)


definition awaits :: "tmsg \<Rightarrow> 'z conn_scheme serverCodec \<Rightarrow> bool" where
  "awaits tm sc \<longleftrightarrow> (sc_first sc \<longrightarrow> sc_req sc = tm \<and> cn_r (sc_codec sc) = tm_Body tm)"

lemma awaits_new: "awaits tm (server_newRpcCodec C tm c)"
  by (simp add: awaits_def server_newRpcCodec_def)

definition ids :: "message \<Rightarrow> string list" where
  "ids m = [cm_Id m, cm_Method m, cm_Endpoint m, cm_Error m]"

lemma server_getHeaders_agrees:
  assumes "hdr_agrees m'" and "same_fields m m'" and "cm_Header m' = Some h" and "cm_Endpoint m \<noteq> []"
  shows "part_of (server_getHeaders (new_message h b)) m \<and> part_of m (server_getHeaders (new_message h b)) \<and>
    cm_Header (server_getHeaders (new_message h b)) = Some h"
  using assms by (auto simp: server_getHeaders_def new_message_def field_defs or_header_def hget_def Let_def)

lemma blank_or_antisym: "blank_or v w \<Longrightarrow> blank_or w v \<Longrightarrow> v = w"
  by (auto simp: blank_or_def)

lemma part_of_antisym: "part_of m r \<Longrightarrow> part_of r m \<Longrightarrow> ids r = ids m \<and> cm_Target r = cm_Target m"
  by (simp add: part_of_def ids_def blank_or_antisym)

lemma or_header_blank: "blank_or v w \<Longrightarrow> hget m k = w \<Longrightarrow> or_header m v k = w"
  by (auto simp: blank_or_def or_header_def)

context wire_codec
begin

lemma client_Write_ok:
  assumes "fits ((cc_codec cc)\<lparr>cn_w := []\<rparr>) (m\<lparr>cm_Header := Some (client_header cc m)\<rparr>) b"
    and "no_stale (base_header cc m) m" and "\<And>msg. send msg = None"
  obtains c' m' h' where
    "ci_Write C (m\<lparr>cm_Header := Some (client_header cc m)\<rparr>) b ((cc_codec cc)\<lparr>cn_w := []\<rparr>) = (c', m', None)"
    "same_fields m m'" "cm_Header m' = Some h'" "hdr_agrees m'"
    "client_Write C send m b cc = Some (cc\<lparr>cc_codec := c'\<rparr>, Inr \<lparr>tm_Header = h', tm_Body = cn_w c'\<rparr>)"
proof -
  let ?m = "m\<lparr>cm_Header := Some (client_header cc m)\<rparr>" and ?c = "(cc_codec cc)\<lparr>cn_w := []\<rparr>"
  have agrees: "hdr_agrees ?m" by (rule client_header_agrees [OF assms(2)])
  obtain c' m' h' where w: "ci_Write C ?m b ?c = (c', m', None)" "same_fields ?m m'" "cm_Header m' = Some h'" "hdr_agrees m'"
    using write_ok [OF assms(1) _ agrees] by auto
  have "client_header (cc\<lparr>cc_codec := ?c\<rparr>) m = client_header cc m" by (simp add: client_header_def)
  then have "client_Write C send m b cc = Some (cc\<lparr>cc_codec := c'\<rparr>, Inr \<lparr>tm_Header = h', tm_Body = cn_w c'\<rparr>)"
    using w(1,3) assms(3) coded [OF assms(1)] by (cases b) (simp_all add: client_Write_def client_send_def Let_def)
  with w show ?thesis by (intro that) (auto simp: same_fields_def)
qed

lemma request_delivered:
  assumes fit: "fits ((cc_codec cc)\<lparr>cn_w := []\<rparr>) (m\<lparr>cm_Header := Some (client_header cc m)\<rparr>) b"
    and stale: "no_stale (base_header cc m) m" and ok: "\<And>msg. send msg = None"
    and req: "cm_Type m = Request_t" and ep: "cm_Endpoint m \<noteq> []"
  shows "\<exists>cc' tm. client_Write C send m b cc = Some (cc', Inr tm) \<and>
    (\<forall>sc t. awaits tm sc \<longrightarrow> (\<exists>sc' r. server_ReadHeader C (Inr tm) sc = (sc', Inr r) \<and> ids r = ids m \<and> cm_Target r = cm_Target m \<and>
       (target t b \<longrightarrow> (\<exists>sc''. server_ReadBody C t sc' = (sc'', if tm_Body tm = [] then t else b, None)))))"
proof -
  let ?m = "m\<lparr>cm_Header := Some (client_header cc m)\<rparr>"
  obtain c' m' h' where
    w: "ci_Write C ?m b ((cc_codec cc)\<lparr>cn_w := []\<rparr>) = (c', m', None)" "same_fields m m'" "cm_Header m' = Some h'" "hdr_agrees m'"
    and cw: "client_Write C send m b cc = Some (cc\<lparr>cc_codec := c'\<rparr>, Inr \<lparr>tm_Header = h', tm_Body = cn_w c'\<rparr>)"
    by (rule client_Write_ok [OF fit stale ok]) (rule that)
  let ?tm = "\<lparr>tm_Header = h', tm_Body = cn_w c'\<rparr>"
  let ?r = "server_getHeaders (new_message h' (cn_w c'))"
  have r: "part_of ?r ?m" "part_of ?m ?r" "cm_Header ?r = Some h'"
    using server_getHeaders_agrees [OF w(4,2,3) ep, of "cn_w c'"] by (auto simp: part_of_def)
  have read: "\<exists>d' r'. ci_ReadHeader C ?r Request_t d = (d', r', None) \<and> ids r' = ids m \<and> cm_Target r' = cm_Target m \<and>
      (\<forall>t. target t b \<longrightarrow> (\<exists>d''. ci_ReadBody C t d' = (d'', b, None)))" if "cn_r d = cn_w c'" for d
    using read_header [OF fit _ client_header_agrees [OF stale] w(1,3) that r(3) _ r(1)] r(2) req
      part_of_antisym [of ?m] by (fastforce simp: ids_def)
  have "\<exists>sc' r. server_ReadHeader C (Inr ?tm) sc = (sc', Inr r) \<and> ids r = ids m \<and> cm_Target r = cm_Target m \<and>
       (target t b \<longrightarrow> (\<exists>sc''. server_ReadBody C t sc' = (sc'', if tm_Body ?tm = [] then t else b, None)))" if aw: "awaits ?tm sc" for sc t
  proof -
    define sc1 where "sc1 = (if sc_first sc then sc\<lparr>sc_first := False\<rparr>
      else sc\<lparr>sc_codec := (sc_codec sc)\<lparr>cn_r := cn_w c'\<rparr>, sc_req := ?tm\<rparr>)"
    have sc1: "sc_req sc1 = ?tm" "cn_r (sc_codec sc1) = cn_w c'" using aw by (auto simp: sc1_def awaits_def)
    from read [OF sc1(2)] obtain d' r' where
      rh: "ci_ReadHeader C ?r Request_t (sc_codec sc1) = (d', r', None)" "ids r' = ids m" "cm_Target r' = cm_Target m"
      and rb: "target t b \<Longrightarrow> \<exists>d''. ci_ReadBody C t d' = (d'', b, None)"
      by blast
    have "server_ReadHeader C (Inr ?tm) sc = (sc1\<lparr>sc_codec := d'\<rparr>, Inr r')"
      using rh sc1 ep by (auto simp: server_ReadHeader_def sc1_def Let_def ids_def split: if_splits)
    moreover have "\<exists>sc''. server_ReadBody C t (sc1\<lparr>sc_codec := d'\<rparr>) = (sc'', if tm_Body ?tm = [] then t else b, None)" if "target t b"
      using rb [OF that] suited [OF that] sc1(1) by (cases t) (auto simp: server_ReadBody_def)
    ultimately show ?thesis using rh by blast
  qed
  with cw show ?thesis by blast
qed

lemma response_delivered:
  assumes fit: "fits ((sc_codec sc)\<lparr>cn_w := []\<rparr>) (r\<lparr>cm_Header := Some (server_setHeaders r h), cm_Body := []\<rparr>) b"
    and hdr: "cm_Header r = Some h" and stale: "no_stale h r" and body: "cm_Body r = []"
    and rsp: "reads_as (cm_Type r) = Response_t" and m0: "ids m0 = ids (new_message [] [])" "cm_Target m0 = []"
  shows "\<exists>sc' tm. server_Write C r b sc = (sc', Inr tm) \<and>
    (\<exists>cc' m. client_ReadHeader C (Inr tm) m0 Response_t cc = Some (cc', m, None) \<and> ids m = ids r \<and>
       (target t b \<longrightarrow> (\<exists>cc''. client_ReadBody C t cc' = Some (cc'', b, None))))"
proof -
  let ?c = "(sc_codec sc)\<lparr>cn_w := []\<rparr>"
  let ?m = "r\<lparr>cm_Header := Some (server_setHeaders r h), cm_Body := []\<rparr>"
  have agrees: "hdr_agrees ?m"
    using server_header_agrees [OF stale] by (simp add: hdr_agrees_def)
  obtain c' m' h' where w: "ci_Write C ?m b ?c = (c', m', None)" "same_fields ?m m'" "cm_Header m' = Some h'" "hdr_agrees m'"
    using write_ok [OF fit _ agrees] by auto
  define h1 where "h1 = (if cn_w c' \<noteq> [] then AList.update ''Content-Type'' (md_at (tm_Header (sc_req sc)) ''Content-Type'') h' else h')"
  let ?tm = "\<lparr>tm_Header = h1, tm_Body = cn_w c'\<rparr>"
  have "server_body C r ?m b ?c = (c', Inr (m', cn_w c'))"
    using w(1) body coded [OF fit] by (cases b) (simp_all add: server_body_def)
  then have sw: "server_Write C r b sc = (sc\<lparr>sc_codec := c'\<rparr>, Inr ?tm)"
    using w(3) hdr by (simp add: server_Write_def Let_def h1_def)
  have h1: "md_at h1 k = md_at h' k" if "k \<noteq> ''Content-Type''" for k using that by (simp add: h1_def)
  have "part_of (m0\<lparr>cm_Header := Some h1\<rparr>) ?m" using m0 by (auto simp: field_defs ids_def new_message_def)
  from read_header [OF fit _ agrees w(1,3) _ _ h1 this, of "(cc_codec cc)\<lparr>cn_r := cn_w c'\<rparr>"] rsp obtain d' r' where
    rh: "ci_ReadHeader C (m0\<lparr>cm_Header := Some h1\<rparr>) Response_t ((cc_codec cc)\<lparr>cn_r := cn_w c'\<rparr>) = (d', r', None)"
      "cm_Header r' = Some h1" "part_of r' ?m"
    and rb: "\<And>t. target t b \<Longrightarrow> \<exists>d''. ci_ReadBody C t d' = (d'', b, None)"
    by auto
  have "hget r' k = hget m' k" if "k \<noteq> ''Content-Type''" for k using rh(2) w(3) h1 [OF that] by (simp add: hget_def)
  then have "ids (client_getHeaders r') = ids r"
    using w(2,4) rh(3) by (simp add: client_getHeaders_def ids_def part_of_def same_fields_def hdr_agrees_def or_header_blank)
  moreover have "client_ReadHeader C (Inr ?tm) m0 Response_t cc = Some (cc\<lparr>cc_codec := d'\<rparr>, client_getHeaders r', None)"
    using rh(1) by (simp add: client_ReadHeader_def)
  moreover have "\<exists>cc''. client_ReadBody C t (cc\<lparr>cc_codec := d'\<rparr>) = Some (cc'', b, None)" if "target t b"
    using rb [OF that] suited [OF that] by (cases t) (auto simp: client_ReadBody_def)
  ultimately show ?thesis using sw by blast
qed

end


section \<open>The four codecs keep the contract\<close>

definition proto_ok :: "'v marshalling \<Rightarrow> 'v \<Rightarrow> bytes \<Rightarrow> bool" where
  "proto_ok mar p d \<longleftrightarrow> proto_Marshal mar p = Inr d \<and> (\<forall>t. proto_Unmarshal mar d t = Inr p)"

lemma proto_okD: "proto_ok mar p d \<Longrightarrow> proto_Marshal mar p = Inr d" "proto_ok mar p d \<Longrightarrow> proto_Unmarshal mar d t = Inr p"
  by (simp_all add: proto_ok_def)

definition is_ptr :: "'v body \<Rightarrow> bool" where
  "is_ptr b \<longleftrightarrow> (case b of BPtr _ \<Rightarrow> True | _ \<Rightarrow> False)"

definition is_proto :: "'v body \<Rightarrow> bool" where
  "is_proto b \<longleftrightarrow> (case b of BProto _ \<Rightarrow> True | _ \<Rightarrow> False)"

lemma is_ptr_iff: "is_ptr b \<longleftrightarrow> (\<exists>d. b = BPtr d)"
  by (simp add: is_ptr_def split: body.split)

lemma is_proto_iff: "is_proto b \<longleftrightarrow> (\<exists>p. b = BProto p)"
  by (simp add: is_proto_def split: body.split)

definition proto_fits :: "'v marshalling \<Rightarrow> conn \<Rightarrow> message \<Rightarrow> 'v body \<Rightarrow> bool" where
  "proto_fits mar c m b \<longleftrightarrow> (\<exists>p d. b = BProto p \<and> proto_ok mar p d)"

lemma same_fields_refl [simp]: "same_fields m m"
  by (simp add: same_fields_def)

interpretation raw: wire_codec bytes_codec "\<lambda>_ _. is_ptr" "\<lambda>t _. is_ptr t"
  by unfold_locales
    (auto simp: is_ptr_iff bytes_codec_def bytes_Write_def bytes_ReadHeader_def bytes_ReadBody_def conn_Write_def Let_def)

interpretation protobuf: wire_codec "proto_codec mar" "proto_fits mar" "\<lambda>t _. is_proto t" for mar
  by unfold_locales
    (auto simp: is_proto_iff proto_fits_def proto_codec_def proto_Write_def proto_ReadHeader_def proto_ReadBody_def
      conn_Write_def Let_def proto_okD)

subsection \<open>gRPC\<close>

lemma grpc_decode_encode:
  assumes "cn_r r = cn_w (grpc_encode cf d (c\<lparr>cn_w := []\<rparr>)) @ rest" and "d \<noteq> []" and "int (length d) \<le> MaxMessageSize"
  shows "grpc_decode r = (r\<lparr>cn_r := rest\<rparr>, Inr (cf, d))"
proof -
  let ?w = "word_of_nat (length d) :: 32 word"
  have r: "cn_r r = (cf # PutUint32 ?w) @ d @ rest" using assms(1) by (simp add: grpc_encode_def conn_Write_def)
  have len: "unat ?w = length d" using assms(3) by (intro unat_length) (simp add: MaxMessageSize_def)
  then have "?w \<noteq> 0" "uint ?w = int (length d)" using assms(2) by (auto simp: unat_eq_0 [symmetric] uint_nat)
  moreover have "buf_Read 5 (cn_r r) = (d @ rest, Some (cf # PutUint32 ?w))"
    unfolding r by (rule buf_Read_append) simp_all
  ultimately show ?thesis
    using assms(2,3) len by (simp add: grpc_decode_def Uint32_PutUint32 buf_Read_append maxInt_def MaxMessageSize_def)
qed

definition plain_name :: "string \<Rightarrow> bool" where
  "plain_name s \<longleftrightarrow> CHR ''.'' \<notin> set s \<and> CHR ''/'' \<notin> set s"

definition grpc_fits :: "'v marshalling \<Rightarrow> grpcCodec \<Rightarrow> message \<Rightarrow> 'v body \<Rightarrow> bool" where
  "grpc_fits mar c m b \<longleftrightarrow>
     (\<exists>p d. b = BProto p \<and> proto_ok mar p d \<and> d \<noteq> [] \<and> int (length d) \<le> MaxMessageSize) \<and>
     gc_ContentType (grpc_contentType m c) \<in> {''application/grpc'', ''application/grpc+proto''} \<and>
     (cm_Type m = Request_t \<and> CHR ''/'' \<notin> set (cm_Target m) \<and>
        (\<exists>s f. cm_Endpoint m = s @ ''.'' @ f \<and> plain_name s \<and> plain_name f) \<or>
      cm_Type m = Response_t \<and> hget m '':path'' = [])"

lemma go_split_endpoint: "plain_name s \<Longrightarrow> plain_name f \<Longrightarrow> go_split (CHR ''.'') (s @ ''.'' @ f) = [s, f]"
  by (simp add: plain_name_def go_split_append_sep go_split_no_sep)

lemma grpc_path_parts:
  assumes "CHR ''/'' \<notin> set tgt" and "plain_name s" and "plain_name f"
  shows "go_split (CHR ''/'') (''/'' @ tgt @ ''.'' @ s @ ''/'' @ f) = [[], tgt @ ''.'' @ s, f]"
proof -
  have no: "CHR ''/'' \<notin> set (tgt @ ''.'' @ s)" "CHR ''/'' \<notin> set f" using assms by (auto simp: plain_name_def)
  have "go_split (CHR ''/'') ((tgt @ ''.'' @ s) @ CHR ''/'' # f) = [tgt @ ''.'' @ s, f]"
    unfolding go_split_append_sep [OF no(1)] go_split_no_sep [OF no(2)] ..
  then show ?thesis by simp
qed

lemma split_target:
  assumes "plain_name s"
  shows "last (go_split (CHR ''.'') (tgt @ ''.'' @ s)) = s"
    and "go_join ''.'' (butlast (go_split (CHR ''.'') (tgt @ ''.'' @ s))) = tgt"
proof -
  have "go_split (CHR ''.'') (tgt @ ''.'' @ s) = go_split (CHR ''.'') tgt @ [s]"
    using go_split_append [of "CHR ''.''" tgt s] assms by (simp add: plain_name_def go_split_no_sep)
  then show "last (go_split (CHR ''.'') (tgt @ ''.'' @ s)) = s"
    "go_join ''.'' (butlast (go_split (CHR ''.'') (tgt @ ''.'' @ s))) = tgt"
    by (simp_all add: go_join_split)
qed


definition grpc_path :: "message \<Rightarrow> string" where
  "grpc_path m =
     (if cm_Type m = Request_t
      then ''/'' @ cm_Target m @ ''.'' @ hd (go_split (CHR ''.'') (cm_Endpoint m)) @ ''/'' @ go_split (CHR ''.'') (cm_Endpoint m) ! 1
      else [])"

lemma grpc_Write_fits:
  assumes "grpc_fits mar c m b" and "cm_Header m = Some h"
  shows "\<exists>p d h'. b = BProto p \<and> proto_ok mar p d \<and> d \<noteq> [] \<and> int (length d) \<le> MaxMessageSize \<and>
    grpc_Write mar m b c = (grpc_encode 0 d (grpc_contentType m c), m\<lparr>cm_Header := Some h'\<rparr>, None) \<and>
    (\<forall>k \<in> {H_ID, H_Request, H_Method, H_Endpoint, H_Error}. md_at h' k = md_at h k) \<and>
    md_at h' ''content-type'' = gc_ContentType (grpc_contentType m c) \<and> md_at h' '':path'' = grpc_path m"
proof -
  let ?c = "grpc_contentType m c"
  from assms(1) obtain p d where b: "b = BProto p" "proto_ok mar p d" "d \<noteq> []" "int (length d) \<le> MaxMessageSize"
    and ct: "gc_ContentType ?c \<in> {''application/grpc'', ''application/grpc+proto''}"
    unfolding grpc_fits_def by blast
  have marshal: "grpc_marshal mar (gc_ContentType ?c) b = Inr d"
    using b ct by (auto simp: grpc_marshal_def proto_okD)
  consider (req) s f where "cm_Type m = Request_t" "cm_Endpoint m = s @ ''.'' @ f" "plain_name s" "plain_name f"
    | (rsp) "cm_Type m = Response_t" "hget m '':path'' = []"
    using assms(1) unfolding grpc_fits_def by blast
  then have "\<exists>h'. grpc_headers m ?c = Some (m\<lparr>cm_Header := Some h'\<rparr>) \<and>
      (\<forall>k \<in> {H_ID, H_Request, H_Method, H_Endpoint, H_Error}. md_at h' k = md_at h k) \<and>
      md_at h' ''content-type'' = gc_ContentType ?c \<and> md_at h' '':path'' = grpc_path m"
  proof cases
    case req
    have split: "go_split (CHR ''.'') (cm_Endpoint m) = [s, f]"
      unfolding req(2) by (rule go_split_endpoint [OF req(3,4)])
    show ?thesis using assms(2) req(1) unfolding grpc_headers_def grpc_path_def split
      by (simp add: hsets_def) (rule exI, rule conjI, rule refl, simp)
  next
    case rsp
    with assms(2) show ?thesis
      by (simp add: grpc_headers_def hsets_def grpc_path_def hget_def) (rule exI, rule conjI, rule refl, simp)
  qed
  then obtain h' where h': "grpc_headers m ?c = Some (m\<lparr>cm_Header := Some h'\<rparr>)"
    "\<forall>k \<in> {H_ID, H_Request, H_Method, H_Endpoint, H_Error}. md_at h' k = md_at h k"
    "md_at h' ''content-type'' = gc_ContentType ?c" "md_at h' '':path'' = grpc_path m"
    by blast
  have "cm_Type m \<noteq> Error_t" using assms(1) by (auto simp: grpc_fits_def)
  with h' marshal b show ?thesis by (auto simp: grpc_Write_def Let_def)
qed

lemma grpc_ReadHeader_path:
  assumes "grpc_fits mar c m b" and "hdr_agrees m" and "hget r '':path'' = grpc_path m"
    and "hget r H_Request = cm_Target m" and "hget r H_Endpoint = cm_Endpoint m"
  shows "grpc_ReadHeader r t d = (grpc_contentType r d, r\<lparr>cm_Target := cm_Target m, cm_Endpoint := cm_Endpoint m\<rparr>, None)"
proof -
  consider (req) s f where "cm_Type m = Request_t" "CHR ''/'' \<notin> set (cm_Target m)" "cm_Endpoint m = s @ ''.'' @ f" "plain_name s" "plain_name f"
    | (rsp) "cm_Type m = Response_t"
    using assms(1) unfolding grpc_fits_def by blast
  then show ?thesis
  proof cases
    case req
    have split: "go_split (CHR ''.'') (cm_Endpoint m) = [s, f]"
      unfolding req(3) by (rule go_split_endpoint [OF req(4,5)])
    have path: "hget r '':path'' = ''/'' @ cm_Target m @ ''.'' @ s @ ''/'' @ f"
      using assms(3) req(1) by (simp add: grpc_path_def split)
    note parts = grpc_path_parts [OF req(2,4,5)]
    have "hget r '':path'' \<noteq> []" "hd (hget r '':path'') = CHR ''/''" unfolding path by simp_all
    moreover have "go_split (CHR ''/'') (hget r '':path'') = [[], cm_Target m @ ''.'' @ s, f]" unfolding path parts ..
    ultimately show ?thesis
      unfolding grpc_ReadHeader_def Let_def using split_target [OF req(4), of "cm_Target m"] req(3) by simp
  next
    case rsp
    then have "hget r '':path'' = []" using assms(3) by (simp add: grpc_path_def)
    with assms(4,5) show ?thesis by (simp add: grpc_ReadHeader_def Let_def)
  qed
qed

lemma grpc_contentType_w [simp]: "cn_w (grpc_contentType m c) = cn_w c" "cn_r (grpc_contentType m c) = cn_r c"
  by (simp_all add: grpc_contentType_def Let_def)

lemma grpc_contentType_lower: "hget m ''content-type'' \<noteq> [] \<Longrightarrow> gc_ContentType (grpc_contentType m c) = hget m ''content-type''"
  by (simp add: grpc_contentType_def Let_def)

lemma grpc_read:
  assumes "grpc_fits mar c m b" and "cn_w c = []" and "hdr_agrees m" and "grpc_Write mar m b c = (c', m', None)"
    and "cm_Header m' = Some h'" and "cn_r d = cn_w c'" and "cm_Header r = Some h"
    and same: "\<And>k. k \<noteq> ''Content-Type'' \<Longrightarrow> md_at h k = md_at h' k" and "part_of r m" and "cm_Header m = Some h0"
  shows "\<exists>d' r'. grpc_ReadHeader r t d = (d', r', None) \<and> cm_Header r' = cm_Header r \<and> part_of r' m \<and>
    (part_of m r \<longrightarrow> part_of m r') \<and> (\<forall>t. is_proto t \<longrightarrow> (\<exists>d''. grpc_ReadBody mar t d' = (d'', b, None)))"
proof -
  let ?ct = "gc_ContentType (grpc_contentType m c)"
  from grpc_Write_fits [OF assms(1,10)] obtain p data where
    b: "b = BProto p" "proto_ok mar p data" "data \<noteq> []" "int (length data) \<le> MaxMessageSize"
    and c': "c' = grpc_encode 0 data (grpc_contentType m c)"
    and h': "\<forall>k \<in> {H_ID, H_Request, H_Method, H_Endpoint, H_Error}. md_at h' k = md_at h0 k"
      "md_at h' ''content-type'' = ?ct" "md_at h' '':path'' = grpc_path m"
    using assms(4,5) by auto
  have get: "hget r k = md_at h' k" if "k \<noteq> ''Content-Type''" for k using assms(7) same [OF that] by (simp add: hget_def)
  have get0: "hget m k = md_at h0 k" for k using assms(10) by (simp add: hget_def)
  have ct: "?ct \<in> {''application/grpc'', ''application/grpc+proto''}" using assms(1) unfolding grpc_fits_def by blast
  let ?d = "grpc_contentType r d" and ?r = "r\<lparr>cm_Target := cm_Target m, cm_Endpoint := cm_Endpoint m\<rparr>"
  have rh: "grpc_ReadHeader r t d = (?d, ?r, None)"
    using assms(3) h' get get0 by (intro grpc_ReadHeader_path [OF assms(1,3)]) (simp_all add: hdr_agrees_def)
  have dct: "gc_ContentType ?d = ?ct" using get h'(2) ct by (subst grpc_contentType_lower) auto
  have "cn_r ?d = cn_w (grpc_encode 0 data ((grpc_contentType m c)\<lparr>cn_w := []\<rparr>)) @ []"
    using assms(2,6) c' by (simp add: grpc_encode_def conn_Write_def)
  from grpc_decode_encode [OF this b(3,4)] have dec: "grpc_decode ?d = (?d\<lparr>cn_r := []\<rparr>, Inr (0, data))" .
  have "\<exists>d''. grpc_ReadBody mar t ?d = (d'', b, None)" if "is_proto t" for t
    using that dct ct b by (auto simp: is_proto_iff grpc_ReadBody_def dec proto_okD)
  with rh show ?thesis using assms(9) by (auto simp: part_of_def blank_or_def)
qed

lemma grpc_write:
  assumes "grpc_fits mar c m b" and "hdr_agrees m" and "cm_Header m = Some h"
  shows "\<exists>c' m' h'. grpc_Write mar m b c = (c', m', None) \<and> same_fields m m' \<and> cm_Header m' = Some h' \<and> hdr_agrees m'"
proof -
  from grpc_Write_fits [OF assms(1,3)] obtain p d h' where w:
    "grpc_Write mar m b c = (grpc_encode 0 d (grpc_contentType m c), m\<lparr>cm_Header := Some h'\<rparr>, None)"
    "\<forall>k \<in> {H_ID, H_Request, H_Method, H_Endpoint, H_Error}. md_at h' k = md_at h k"
    by blast
  with assms(2,3) show ?thesis by (auto simp: same_fields_def hdr_agrees_def hget_def)
qed


interpretation grpc: wire_codec "grpc_codec mar" "grpc_fits mar" "\<lambda>t _. is_proto t" for mar
proof
  fix c m b assume "grpc_fits mar c m b"
  then show "b \<noteq> BNil \<and> (\<forall>d. b \<noteq> BFrame d)" by (auto simp: grpc_fits_def)
next
  fix t b assume "is_proto t"
  then show "\<forall>d. t \<noteq> BFrame d" by (auto simp: is_proto_iff)
next
  fix c m b h assume "grpc_fits mar c m b" "hdr_agrees m" "cm_Header m = Some h"
  then show "\<exists>c' m' h'. ci_Write (grpc_codec mar) m b c = (c', m', None) \<and> same_fields m m' \<and> cm_Header m' = Some h' \<and> hdr_agrees m'"
    using grpc_write [of mar c m b h] by (simp add: grpc_codec_def)
next
  fix c :: grpcCodec and m b c' m' h' and d :: grpcCodec and r h h0
  assume "grpc_fits mar c m b" "cn_w c = []" "hdr_agrees m" "ci_Write (grpc_codec mar) m b c = (c', m', None)" "cm_Header m' = Some h'"
    "cn_r d = cn_w c'" "cm_Header r = Some h" "\<And>k. k \<noteq> ''Content-Type'' \<Longrightarrow> md_at h k = md_at h' k" "part_of r m" "cm_Header m = Some h0"
  then show "\<exists>d' r'. ci_ReadHeader (grpc_codec mar) r (reads_as (cm_Type m)) d = (d', r', None) \<and> cm_Header r' = cm_Header r \<and>
      part_of r' m \<and> (part_of m r \<longrightarrow> part_of m r') \<and>
      (\<forall>t. is_proto t \<longrightarrow> (\<exists>d''. ci_ReadBody (grpc_codec mar) t d' = (d'', b, None)))"
    using grpc_read [of mar c m b c' m' h' d r h h0] by (simp add: grpc_codec_def)
qed

subsection \<open>protorpc\<close>

lemma of_char_digit: "n < 10 \<Longrightarrow> of_char (digit n) = (48 + n :: nat)"
  by (simp add: digit_def)

lemma dec_val_snoc: "dec_val (s @ [c]) = dec_val s * 10 + (of_char c - 48)"
  by (simp add: dec_val_def)

lemma go_dec_digits: "list_all is_dec (go_dec n) \<and> go_dec n \<noteq> [] \<and> dec_val (go_dec n) = n"
proof (induction n rule: go_dec.induct)
  case (1 n)
  show ?case
  proof (cases "n < 10")
    case True
    then show ?thesis by (simp add: go_dec.simps [of n] is_dec_def of_char_digit dec_val_def)
  next
    case False
    have "is_dec (digit (n mod 10))" by (simp add: is_dec_def of_char_digit)
    with False 1 show ?thesis by (subst (1 2 3) go_dec.simps) (simp add: dec_val_snoc of_char_digit)
  qed
qed

lemma ParseInt_go_dec:
  assumes "n < 2 ^ 63"
  shows "ParseInt (go_dec n) = Some (int n)"
proof -
  obtain c cs where cs: "go_dec n = c # cs" using go_dec_digits by (cases "go_dec n") auto
  have "is_dec c" using go_dec_digits [of n] cs by simp
  then have "c \<noteq> CHR ''-''" "c \<noteq> CHR ''+''" by (auto simp: is_dec_def)
  then show ?thesis using assms go_dec_digits [of n] by (simp add: ParseInt_def Let_def cs)
qed

lemma seq_id_go_dec: "n < 2 ^ 63 \<Longrightarrow> go_dec (unat (seq_id (go_dec n))) = go_dec n"
  by (simp add: seq_id_def ParseInt_go_dec unat_of_nat take_bit_nat_eq_self)

definition protorpc_fits :: "'v marshalling \<Rightarrow> protoCodec \<Rightarrow> message \<Rightarrow> 'v body \<Rightarrow> bool" where
  "protorpc_fits mar c m b \<longleftrightarrow>
     (\<exists>p d. b = BProto p \<and> proto_ok mar p d \<and> length d < 2 ^ 32) \<and>
     (\<exists>n hd'. cm_Id m = go_dec n \<and> n < 2 ^ 63 \<and> length hd' < 2 ^ 32 \<and>
        (cm_Type m = Request_t \<and> Request_Marshal mar (cm_Method m, seq_id (cm_Id m)) = Inr hd' \<and>
           Request_Unmarshal mar hd' = Inr (cm_Method m, seq_id (cm_Id m)) \<or>
         cm_Type m = Response_t \<and> Response_Marshal mar (cm_Method m, seq_id (cm_Id m), cm_Error m) = Inr hd' \<and>
           Response_Unmarshal mar hd' = Inr (cm_Method m, seq_id (cm_Id m), cm_Error m)))"

lemma WriteNetString_w: "cn_w (WriteNetString d c) = cn_w c @ cn_w (WriteNetString d \<lparr>cn_r = [], cn_w = []\<rparr>)"
  by (simp add: WriteNetString_def conn_Write_def)

lemma protorpc_Write_fits:
  assumes "protorpc_fits mar c m b"
  shows "\<exists>c'. protorpc_Write mar m b c = (c', m, None)"
  using assms by (auto simp: protorpc_fits_def protorpc_Write_def proto_okD Let_def)

lemma protorpc_read:
  assumes fit: "protorpc_fits mar c m b" and "cn_w c = []" and w: "protorpc_Write mar m b c = (c', m', None)"
    and r: "cn_r d = cn_w c'" and "part_of r m"
  shows "\<exists>d' r'. protorpc_ReadHeader mar r (reads_as (cm_Type m)) d = (d', r', None) \<and> cm_Header r' = cm_Header r \<and> part_of r' m \<and>
    (part_of m r \<longrightarrow> part_of m r') \<and> (\<forall>t. is_proto t \<longrightarrow> (\<exists>d''. protorpc_ReadBody mar t d' = (d'', b, None)))"
proof -
  from fit obtain p data n hd' where b: "b = BProto p" "proto_ok mar p data" "length data < 2 ^ 32"
    and n: "cm_Id m = go_dec n" "n < 2 ^ 63" "length hd' < 2 ^ 32"
    and ty: "cm_Type m = Request_t \<and> Request_Marshal mar (cm_Method m, seq_id (cm_Id m)) = Inr hd' \<and>
           Request_Unmarshal mar hd' = Inr (cm_Method m, seq_id (cm_Id m)) \<or>
         cm_Type m = Response_t \<and> Response_Marshal mar (cm_Method m, seq_id (cm_Id m), cm_Error m) = Inr hd' \<and>
           Response_Unmarshal mar hd' = Inr (cm_Method m, seq_id (cm_Id m), cm_Error m)"
    unfolding protorpc_fits_def by blast
  have c': "c' = WriteNetString data (WriteNetString hd' c)"
    using w ty b by (auto simp: protorpc_Write_def Let_def proto_okD)
  let ?body = "cn_w (WriteNetString data \<lparr>cn_r = [], cn_w = []\<rparr>)" and ?t = "reads_as (cm_Type m)"
  let ?d = "d\<lparr>pb_buf := [], pb_mt := ?t\<rparr>"
  have "cn_r ?d = cn_w (WriteNetString hd' \<lparr>cn_r = [], cn_w = []\<rparr>) @ ?body"
    using r c' assms(2) WriteNetString_w [of data "WriteNetString hd' c"] WriteNetString_w [of hd' c] by simp
  from ReadNetString_Write [OF this n(3)] have h: "ReadNetString ?d = (?d\<lparr>cn_r := ?body\<rparr>, Inr hd')" .
  have "ReadNetString (?d\<lparr>cn_r := ?body\<rparr>) = (?d\<lparr>cn_r := []\<rparr>, Inr data)"
    using ReadNetString_Write [of "?d\<lparr>cn_r := ?body\<rparr>" data "[]"] b(3) by simp
  then have body: "protorpc_ReadBody mar t (?d\<lparr>cn_r := ?body\<rparr>) = (?d\<lparr>cn_r := []\<rparr>, b, None)" if "is_proto t" for t
    using that ty b by (auto simp: is_proto_iff protorpc_ReadBody_def protorpc_fill_def proto_okD)
  have seq: "go_dec (unat (seq_id (cm_Id m))) = cm_Id m" using n seq_id_go_dec by simp
  from ty show ?thesis
  proof (elim disjE conjE)
    assume "cm_Type m = Request_t" "Request_Unmarshal mar hd' = Inr (cm_Method m, seq_id (cm_Id m))"
    then have "protorpc_ReadHeader mar r ?t d = (?d\<lparr>cn_r := ?body\<rparr>, r\<lparr>cm_Method := cm_Method m, cm_Id := cm_Id m\<rparr>, None)"
      using h by (simp add: protorpc_ReadHeader_def seq)
    with body show ?thesis using assms(5) by (auto simp: part_of_def blank_or_def)
  next
    assume "cm_Type m = Response_t" "Response_Unmarshal mar hd' = Inr (cm_Method m, seq_id (cm_Id m), cm_Error m)"
    then have "protorpc_ReadHeader mar r ?t d =
        (?d\<lparr>cn_r := ?body\<rparr>, r\<lparr>cm_Method := cm_Method m, cm_Id := cm_Id m, cm_Error := cm_Error m\<rparr>, None)"
      using h by (simp add: protorpc_ReadHeader_def seq)
    with body show ?thesis using assms(5) by (auto simp: part_of_def blank_or_def)
  qed
qed

interpretation protorpc: wire_codec "protorpc_codec mar" "protorpc_fits mar" "\<lambda>t _. is_proto t" for mar
proof
  fix c m b assume "protorpc_fits mar c m b"
  then show "b \<noteq> BNil \<and> (\<forall>d. b \<noteq> BFrame d)" by (auto simp: protorpc_fits_def)
next
  fix t b assume "is_proto t"
  then show "\<forall>d. t \<noteq> BFrame d" by (auto simp: is_proto_iff)
next
  fix c m b h assume "protorpc_fits mar c m b" "hdr_agrees m" "cm_Header m = Some h"
  then show "\<exists>c' m' h'. ci_Write (protorpc_codec mar) m b c = (c', m', None) \<and> same_fields m m' \<and> cm_Header m' = Some h' \<and> hdr_agrees m'"
    using protorpc_Write_fits [of mar c m b] by (auto simp: protorpc_codec_def)
next
  fix c :: protoCodec and m b c' m' h' and d :: protoCodec and r h h0
  assume "protorpc_fits mar c m b" "cn_w c = []" "ci_Write (protorpc_codec mar) m b c = (c', m', None)" "cn_r d = cn_w c'" "part_of r m"
  then show "\<exists>d' r'. ci_ReadHeader (protorpc_codec mar) r (reads_as (cm_Type m)) d = (d', r', None) \<and> cm_Header r' = cm_Header r \<and>
      part_of r' m \<and> (part_of m r \<longrightarrow> part_of m r') \<and>
      (\<forall>t. is_proto t \<longrightarrow> (\<exists>d''. ci_ReadBody (protorpc_codec mar) t d' = (d'', b, None)))"
    using protorpc_read [of mar c m b c' m' d r] by (simp add: protorpc_codec_def)
qed


section \<open>The client's stream\<close>

datatype stream_err = SErr err | SEOF | SUnexpectedEOF | SShutdown | SServer string

record 'c rpcStream =
  st_id :: string
  st_closed :: bool
  st_err :: "stream_err option"
  st_Service :: string
  st_Method :: string
  st_Endpoint :: string
  st_codec :: "'c clientCodec"
  st_sendEOS :: bool
  st_sent :: "tmsg list"

text \<open>\<open>st_sent\<close> records what the stream has handed to the transport.\<close>

definition stream_message :: "'c rpcStream \<Rightarrow> messageType \<Rightarrow> string \<Rightarrow> message" where
  "stream_message r t e =
     \<lparr>cm_Header = None, cm_Id = st_id r, cm_Target = st_Service r, cm_Method = st_Method r, cm_Endpoint = st_Endpoint r,
       cm_Error = e, cm_Body = [], cm_Type = t\<rparr>"

definition stream_Send ::
  "('z conn_scheme, 'v) codec_if \<Rightarrow> (tmsg \<Rightarrow> string option) \<Rightarrow> 'v body \<Rightarrow> 'z conn_scheme rpcStream
     \<Rightarrow> ('z conn_scheme rpcStream \<times> stream_err option) option" where
  "stream_Send C send msg r =
     (if st_closed r then Some (r\<lparr>st_err := Some SShutdown\<rparr>, Some SShutdown)
      else case client_Write C send (stream_message r Request_t []) msg (st_codec r) of
        None \<Rightarrow> None
      | Some (cc, Inl e) \<Rightarrow> Some (r\<lparr>st_codec := cc, st_err := Some (SErr e)\<rparr>, Some (SErr e))
      | Some (cc, Inr tm) \<Rightarrow> Some (r\<lparr>st_codec := cc, st_sent := st_sent r @ [tm]\<rparr>, None))"

text \<open>\<open>Recv\<close>; the test \<open>err == io.EOF\<close> is on the codec's error, which is always an \<open>*errors.Error\<close>.\<close>

definition stream_body ::
  "('z conn_scheme, 'v) codec_if \<Rightarrow> 'v body \<Rightarrow> 'z conn_scheme rpcStream \<Rightarrow> ('z conn_scheme rpcStream \<times> 'v body) option" where
  "stream_body C msg r =
     (case client_ReadBody C msg (st_codec r) of
        None \<Rightarrow> None
      | Some (cc, b, None) \<Rightarrow> Some (r\<lparr>st_codec := cc\<rparr>, b)
      | Some (cc, b, Some e) \<Rightarrow> Some (r\<lparr>st_codec := cc, st_err := Some (SErr e)\<rparr>, b))"

definition stream_Recv ::
  "('z conn_scheme, 'v) codec_if \<Rightarrow> string + tmsg \<Rightarrow> 'v body \<Rightarrow> 'z conn_scheme rpcStream
     \<Rightarrow> ('z conn_scheme rpcStream \<times> 'v body \<times> stream_err option) option" where
  "stream_Recv C recv msg r =
     (if st_closed r then Some (r\<lparr>st_err := Some SShutdown\<rparr>, msg, Some SShutdown)
      else case client_ReadHeader C recv ((new_message [] [])\<lparr>cm_Header := None\<rparr>) Response_t (st_codec r) of
        None \<Rightarrow> None
      | Some (cc, resp, Some e) \<Rightarrow> Some (r\<lparr>st_codec := cc, st_err := Some (SErr e)\<rparr>, msg, Some (SErr e))
      | Some (cc, resp, None) \<Rightarrow>
          let r = r\<lparr>st_codec := cc\<rparr>
          in if cm_Error resp \<noteq> [] then
               map_option (\<lambda>(r, _). (r, msg, st_err r))
                 (stream_body C BNil (r\<lparr>st_err := Some (if cm_Error resp = ''EOS'' then SEOF else SServer (cm_Error resp))\<rparr>))
             else map_option (\<lambda>(r, b). (r, b, st_err r)) (stream_body C msg r))"

definition stream_Close ::
  "('z conn_scheme, 'v) codec_if \<Rightarrow> (tmsg \<Rightarrow> string option) \<Rightarrow> 'z conn_scheme rpcStream \<Rightarrow> 'z conn_scheme rpcStream option" where
  "stream_Close C send r =
     (if st_closed r then Some r
      else let r = r\<lparr>st_closed := True\<rparr>
        in if st_sendEOS r then
             (case client_Write C send (stream_message r Error_t ''EOS'') BNil (st_codec r) of
                None \<Rightarrow> None
              | Some (cc, Inl e) \<Rightarrow> Some (r\<lparr>st_codec := client_Close cc\<rparr>)
              | Some (cc, Inr tm) \<Rightarrow> Some (r\<lparr>st_codec := client_Close cc, st_sent := st_sent r @ [tm]\<rparr>))
           else Some (r\<lparr>st_codec := client_Close (st_codec r)\<rparr>))"

text \<open>The end of the stream is announced once: a closed stream sends nothing more, whatever is called.\<close>

lemma closed_stream_silent:
  assumes "st_closed r"
  shows "stream_Close C send r = Some r" "stream_Send C send msg r = Some (r\<lparr>st_err := Some SShutdown\<rparr>, Some SShutdown)"
    "stream_Recv C recv msg r = Some (r\<lparr>st_err := Some SShutdown\<rparr>, msg, Some SShutdown)"
  using assms by (simp_all add: stream_Close_def stream_Send_def stream_Recv_def)

text \<open>Errors are sticky: once a stream has failed, \<open>Recv\<close> never reports success again.\<close>

lemma stream_Recv_sticky:
  assumes "st_err r \<noteq> None" and "stream_Recv C recv msg r = Some (r', b, e)"
  shows "e \<noteq> None \<and> st_err r' = e"
proof -
  have "st_err r2 \<noteq> None" if "stream_body C m r1 = Some (r2, b2)" "st_err r1 \<noteq> None" for m r1 r2 b2
    using that by (auto simp: stream_body_def split: option.splits)
  then show ?thesis
    using assms by (auto simp: stream_Recv_def Let_def split: if_splits option.splits)
qed

section \<open>Truncated frames\<close>

text \<open>
  A frame cut short is not reported: the bytes that are missing are read as zeros, as long as at least one byte of
  the payload has arrived.
\<close>

lemma ReadNetString_truncated:
  assumes "cn_r r = PutUint32 (word_of_nat n) @ d" and "d \<noteq> []" and "length d < n" and "n < 2 ^ 32"
  shows "ReadNetString r = (r\<lparr>cn_r := []\<rparr>, Inr (d @ replicate (n - length d) 0))"
proof -
  have "unat (word_of_nat n :: 32 word) = n" using assms(4) by (simp add: unat_of_nat take_bit_nat_eq_self)
  moreover from this have "(word_of_nat n :: 32 word) \<noteq> 0" using assms(3) by (auto simp: unat_eq_0 [symmetric])
  ultimately show ?thesis
    using assms(2,3) by (simp add: ReadNetString_def assms(1) buf_Read_append Uint32_PutUint32) (simp add: buf_Read_def)
qed

section \<open>Sample messages\<close>

text \<open>Messages that carry their own bytes, as \<open>codec/proto/message.go\<close> has them.\<close>

definition sample_marshalling :: "bytes marshalling" where
  "sample_marshalling =
     \<lparr>json_Marshal = (\<lambda>_. Inl ''unsupported''), json_Unmarshal = (\<lambda>_ _. Inl ''unsupported''),
       proto_Marshal = Inr, proto_Unmarshal = (\<lambda>d _. Inr d),
       Request_Marshal = (\<lambda>_. Inr [1]), Request_Unmarshal = (\<lambda>_. Inr (''Say.Hello'', 7)),
       Response_Marshal = (\<lambda>_. Inr [2]), Response_Unmarshal = (\<lambda>_. Inr (''Say.Hello'', 7, []))\<rparr>"

definition sample_message :: "messageType \<Rightarrow> message" where
  "sample_message t =
     \<lparr>cm_Header = Some [], cm_Id = ''7'', cm_Target = ''go.svc'', cm_Method = ''Say.Hello'', cm_Endpoint = ''Say.Hello'',
       cm_Error = [], cm_Body = [], cm_Type = t\<rparr>"

definition sample_client :: "grpcCodec clientCodec" where
  "sample_client = client_newRpcCodec \<lparr>tm_Header = [(''Content-Type'', ''application/grpc+proto'')], tm_Body = []\<rparr> (grpc_NewCodec []) []"

section \<open>Properties\<close>

lemma grpc_request_body:
  assumes "grpc_fits mar ((cc_codec cc)\<lparr>cn_w := []\<rparr>) (m\<lparr>cm_Header := Some (client_header cc m)\<rparr>) b"
    and "client_Write (grpc_codec mar) (\<lambda>_. None) m b cc = Some (cc', Inr tm)"
  shows "tm_Body tm \<noteq> []"
proof -
  let ?c = "(cc_codec cc)\<lparr>cn_w := []\<rparr>" and ?m = "m\<lparr>cm_Header := Some (client_header cc m)\<rparr>"
  have "client_header (cc\<lparr>cc_codec := ?c\<rparr>) m = client_header cc m" by (simp add: client_header_def)
  moreover obtain p d h' where "b = BProto p"
      "grpc_Write mar ?m b ?c = (grpc_encode 0 d (grpc_contentType ?m ?c), ?m\<lparr>cm_Header := Some h'\<rparr>, None)"
    using grpc_Write_fits [OF assms(1), of "client_header cc m"] by auto
  ultimately show ?thesis
    using assms(2) by (auto simp: client_Write_def grpc_codec_def client_send_def Let_def grpc_encode_def conn_Write_def)
qed

text \<open>
  C11.  A gRPC request arrives: for every marshaller that reads back the message it wrote (at least one byte
  and at most 4 MB of it), every target without a slash and every endpoint of the form service.method, what the client's
  codec sends is read by the server's codec, set up on that message, with the same id, target, method,
  endpoint and error, and its body decodes to the body that was sent.
\<close>

theorem grpc_request_delivered:
  assumes "grpc_fits mar ((cc_codec cc)\<lparr>cn_w := []\<rparr>) (m\<lparr>cm_Header := Some (client_header cc m)\<rparr>) b"
    and "no_stale (base_header cc m) m" and "cm_Type m = Request_t" and "is_proto t"
  shows "\<exists>cc' tm sc' r sc''. client_Write (grpc_codec mar) (\<lambda>_. None) m b cc = Some (cc', Inr tm) \<and>
    server_ReadHeader (grpc_codec mar) recv (server_newRpcCodec (grpc_codec mar) tm c0) = (sc', Inr r) \<and>
    ids r = ids m \<and> cm_Target r = cm_Target m \<and> server_ReadBody (grpc_codec mar) t sc' = (sc'', b, None)"
proof -
  have ep: "cm_Endpoint m \<noteq> []" using assms(1,3) by (auto simp: grpc_fits_def)
  obtain cc' tm where w: "client_Write (grpc_codec mar) (\<lambda>_. None) m b cc = Some (cc', Inr tm)"
    and r: "\<And>sc. awaits tm sc \<Longrightarrow> \<exists>sc' r. server_ReadHeader (grpc_codec mar) (Inr tm) sc = (sc', Inr r) \<and> ids r = ids m \<and>
       cm_Target r = cm_Target m \<and> (\<exists>sc''. server_ReadBody (grpc_codec mar) t sc' = (sc'', if tm_Body tm = [] then t else b, None))"
    using grpc.request_delivered [OF assms(1,2) refl assms(3) ep] assms(4) by blast
  have "tm_Body tm \<noteq> []" using assms(1) w by (rule grpc_request_body)
  moreover have "server_ReadHeader (grpc_codec mar) recv (server_newRpcCodec (grpc_codec mar) tm c0) =
      server_ReadHeader (grpc_codec mar) (Inr tm) (server_newRpcCodec (grpc_codec mar) tm c0)"
    by (simp add: server_ReadHeader_def server_newRpcCodec_def grpc_codec_def Let_def)
  ultimately show ?thesis using w r [OF awaits_new [of tm "grpc_codec mar" c0]] by auto
qed


theorem grpc_request_delivered_witness:
  "\<exists>cc' tm sc' r sc''. client_Write (grpc_codec sample_marshalling) (\<lambda>_. None) (sample_message Request_t) (BProto [1, 2, 3]) sample_client
      = Some (cc', Inr tm) \<and>
    server_ReadHeader (grpc_codec sample_marshalling) (Inl IO_EOF)
      (server_newRpcCodec (grpc_codec sample_marshalling) tm (grpc_NewCodec [])) = (sc', Inr r) \<and>
    ids r = [''7'', ''Say.Hello'', ''Say.Hello'', []] \<and> cm_Target r = ''go.svc'' \<and>
    server_ReadBody (grpc_codec sample_marshalling) (BProto []) sc' = (sc'', BProto [1, 2, 3], None)"
proof -
  let ?m = "sample_message Request_t" and ?cc = sample_client
  have ep: "cm_Endpoint (?m\<lparr>cm_Header := Some (client_header ?cc ?m)\<rparr>) = ''Say'' @ ''.'' @ ''Hello''"
      "plain_name ''Say''" "plain_name ''Hello''"
    by (simp_all add: sample_message_def plain_name_def)
  have body: "proto_ok sample_marshalling [1, 2, 3] [1, 2, 3]" by (simp add: proto_ok_def sample_marshalling_def)
  have ct: "gc_ContentType (grpc_contentType (?m\<lparr>cm_Header := Some (client_header ?cc ?m)\<rparr>) ((cc_codec ?cc)\<lparr>cn_w := []\<rparr>))
      = ''application/grpc+proto''"
    by code_simp
  have "grpc_fits sample_marshalling ((cc_codec ?cc)\<lparr>cn_w := []\<rparr>) (?m\<lparr>cm_Header := Some (client_header ?cc ?m)\<rparr>) (BProto [1, 2, 3])"
    unfolding grpc_fits_def ct using ep body by (fastforce simp: sample_message_def MaxMessageSize_def)
  moreover have "no_stale (base_header ?cc ?m) ?m" by code_simp
  moreover have "cm_Type ?m = Request_t" "ids ?m = [''7'', ''Say.Hello'', ''Say.Hello'', []]" "cm_Target ?m = ''go.svc''"
    by (simp_all add: sample_message_def ids_def)
  moreover have "is_proto (BProto [] :: bytes body)" by (simp add: is_proto_def)
  ultimately show ?thesis
    using grpc_request_delivered [where mar = sample_marshalling and cc = ?cc and m = ?m and b = "BProto [1, 2, 3]" and t = "BProto []"
      and recv = "Inl IO_EOF" and ?c0.0 = "grpc_NewCodec []"]
    by simp
qed

text \<open>
  C38.  A protorpc response arrives: for marshallers that read back the header and the body they wrote (each below
  4 GB) and every decimal id below \<open>2^63\<close>, what the server's codec writes on its socket is read by
  the client's codec with the same id, method, endpoint and error, and the body decodes to
  the body that was sent.
\<close>

theorem protorpc_response_delivered:
  assumes "protorpc_fits mar ((sc_codec sc)\<lparr>cn_w := []\<rparr>) (r\<lparr>cm_Header := Some (server_setHeaders r h), cm_Body := []\<rparr>) b"
    and "cm_Header r = Some h" and "no_stale h r" and "cm_Body r = []" and "cm_Type r = Response_t" and "is_proto t"
  shows "\<exists>sc' tm cc' m cc''. server_Write (protorpc_codec mar) r b sc = (sc', Inr tm) \<and>
    client_ReadHeader (protorpc_codec mar) (Inr tm) (new_message [] []) Response_t cc = Some (cc', m, None) \<and> ids m = ids r \<and>
    client_ReadBody (protorpc_codec mar) t cc' = Some (cc'', b, None)"
  using protorpc.response_delivered [OF assms(1-4), where ?m0.0 = "new_message [] []" and t = t and cc = cc] assms(5,6)
  by (auto simp: new_message_def)

theorem protorpc_response_delivered_witness:
  "\<exists>sc' tm cc' m cc''. server_Write (protorpc_codec sample_marshalling) (sample_message Response_t) (BProto [5])
      (server_newRpcCodec (protorpc_codec sample_marshalling) \<lparr>tm_Header = [], tm_Body = []\<rparr> (protorpc_NewCodec [])) = (sc', Inr tm) \<and>
    client_ReadHeader (protorpc_codec sample_marshalling) (Inr tm) (new_message [] []) Response_t
      (client_newRpcCodec \<lparr>tm_Header = [], tm_Body = []\<rparr> (protorpc_NewCodec []) []) = Some (cc', m, None) \<and>
    ids m = [''7'', ''Say.Hello'', ''Say.Hello'', []] \<and>
    client_ReadBody (protorpc_codec sample_marshalling) (BProto []) cc' = Some (cc'', BProto [5], None)"
proof -
  let ?r = "sample_message Response_t"
  let ?sc = "server_newRpcCodec (protorpc_codec sample_marshalling) \<lparr>tm_Header = [], tm_Body = []\<rparr> (protorpc_NewCodec [])"
  have seven: "go_dec 7 = ''7''" by code_simp
  have body: "\<exists>p d. (BProto [5] :: bytes body) = BProto p \<and> proto_ok sample_marshalling p d \<and> length d < 2 ^ 32"
    by (auto simp: sample_marshalling_def proto_ok_def)
  have "seq_id ''7'' = 7" by (simp add: seq_id_def ParseInt_go_dec [of 7, unfolded seven])
  then have "protorpc_fits sample_marshalling ((sc_codec ?sc)\<lparr>cn_w := []\<rparr>)
      (?r\<lparr>cm_Header := Some (server_setHeaders ?r []), cm_Body := []\<rparr>) (BProto [5])"
    unfolding protorpc_fits_def using seven
    by (intro conjI body exI [of _ "7 :: nat"] exI [of _ "[2] :: bytes"])
      (auto simp: sample_message_def sample_marshalling_def)
  moreover have "cm_Header ?r = Some []" "no_stale [] ?r" "cm_Body ?r = []" "cm_Type ?r = Response_t"
    by (simp_all add: sample_message_def no_stale_def md_at_def)
  moreover have "is_proto (BProto [] :: bytes body)" by (simp add: is_proto_def)
  moreover have "ids ?r = [''7'', ''Say.Hello'', ''Say.Hello'', []]" by (simp add: sample_message_def ids_def)
  ultimately show ?thesis
    using protorpc_response_delivered [where mar = sample_marshalling and sc = ?sc and r = ?r and h = "[]" and b = "BProto [5]" and t = "BProto []"
      and cc = "client_newRpcCodec \<lparr>tm_Header = [], tm_Body = []\<rparr> (protorpc_NewCodec []) []"]
    by simp
qed

end
