(* ===== verification/Server_Conn.thy ===== *)
theory Server_Conn
  imports Rpc_Codec Metadata
begin

text \<open>
  Serving a connection: the pseudo sockets and their pool, \<open>common/util/socket\<close>, and \<open>ServeConn\<close>, \<open>HandleEvent\<close> and
  their helpers in \<open>server/rpc_server.go\<close>, \<open>rpc_events.go\<close> and \<open>rpc_helper.go\<close>.

  A socket's channels are the lists of messages they hold, at most 128.  An operation that selects between channels
  returns the list of its possible outcomes; no outcome means that it blocks.  Sockets are shared by pointer, so the
  pool keeps addresses into a heap.  The two goroutines started for a request run as steps of their own, interleaved with the receiving loop;
  what the handler sends and when it returns is arbitrary.
\<close>

section \<open>Pseudo sockets\<close>

record psock =
  sk_id :: string
  sk_closed :: bool
  sk_local :: string
  sk_remote :: string
  sk_send :: "tmsg list"
  sk_recv :: "tmsg list"

definition chan_cap :: nat where
  "chan_cap = 128"

definition sock_New :: "string \<Rightarrow> psock" where
  "sock_New i = \<lparr>sk_id = i, sk_closed = False, sk_local = ''local'', sk_remote = ''remote'', sk_send = [], sk_recv = []\<rparr>"

text \<open>The flag of an outcome says whether the operation succeeded; it fails with \<open>io.EOF\<close>.\<close>

definition sock_Accept :: "tmsg \<Rightarrow> psock \<Rightarrow> (psock \<times> bool) list" where
  "sock_Accept m s =
     (if length (sk_recv s) < chan_cap then [(s\<lparr>sk_recv := sk_recv s @ [m]\<rparr>, True)] else []) @
     (if sk_closed s then [(s, False)] else [])"

definition sock_Send :: "tmsg \<Rightarrow> psock \<Rightarrow> (psock \<times> bool) list" where
  "sock_Send m s =
     (if length (sk_send s) < chan_cap then [(s\<lparr>sk_send := sk_send s @ [m]\<rparr>, True)] else []) @
     (if sk_closed s then [(s, False)] else [])"

definition sock_Recv :: "psock \<Rightarrow> (psock \<times> tmsg option) list" where
  "sock_Recv s =
     (case sk_recv s of m # ms \<Rightarrow> [(s\<lparr>sk_recv := ms\<rparr>, Some m)] | [] \<Rightarrow> []) @ (if sk_closed s then [(s, None)] else [])"

text \<open>\<open>Process\<close> drains the queue of a closed socket before it fails.\<close>

definition sock_Process :: "psock \<Rightarrow> (psock \<times> tmsg option) list" where
  "sock_Process s =
     (case sk_send s of
        m # ms \<Rightarrow> [(s\<lparr>sk_send := ms\<rparr>, Some m)]
      | [] \<Rightarrow> if sk_closed s then [(s, None)] else [])"

definition sock_Close :: "psock \<Rightarrow> psock" where
  "sock_Close s = (if sk_closed s then s else s\<lparr>sk_closed := True\<rparr>)"

section \<open>The pool\<close>

record spool =
  sp_pool :: "(string, nat) go_map"
  sp_heap :: "psock list"

definition spool_New :: spool where
  "spool_New = \<lparr>sp_pool = [], sp_heap = []\<rparr>"

definition spool_Get :: "string \<Rightarrow> spool \<Rightarrow> spool \<times> nat \<times> bool" where
  "spool_Get i p =
     (case map_of (sp_pool p) i of
        Some a \<Rightarrow> (p, a, True)
      | None \<Rightarrow>
          (\<lparr>sp_pool = AList.update i (length (sp_heap p)) (sp_pool p), sp_heap = sp_heap p @ [sock_New i]\<rparr>, length (sp_heap p), False))"

definition put_sock :: "nat \<Rightarrow> psock \<Rightarrow> spool \<Rightarrow> spool" where
  "put_sock a s p = p\<lparr>sp_heap := (sp_heap p)[a := s]\<rparr>"

definition spool_Release :: "nat \<Rightarrow> spool \<Rightarrow> spool" where
  "spool_Release a p =
     (let s = sp_heap p ! a in (put_sock a (sock_Close s) p)\<lparr>sp_pool := AList.delete (sk_id s) (sp_pool p)\<rparr>)"

definition spool_Close :: "spool \<Rightarrow> spool" where
  "spool_Close p = foldl (\<lambda>p (i, a). (put_sock a (sock_Close (sp_heap p ! a)) p)\<lparr>sp_pool := AList.delete i (sp_pool p)\<rparr>) p (sp_pool p)"

section \<open>Events\<close>

record rpcMessage =
  mg_topic :: string
  mg_contentType :: string
  mg_header :: hdr
  mg_body :: bytes

record server_env =
  se_codecs :: "string set"
  se_ProcessMessage :: "hdr \<Rightarrow> rpcMessage \<Rightarrow> string option"
  se_local :: string
  se_remote :: string

definition DefaultContentType :: string where
  "DefaultContentType = ''application/protobuf''"

definition newCodec :: "server_env \<Rightarrow> string \<Rightarrow> string + string" where
  "newCodec env ct =
     (if ct \<in> se_codecs env \<or> ct \<in> server_default_codecs then Inr ct
      else Inl (''unsupported Content-Type: '' @ ct))"

text \<open>The context of the call holds a copy of the header; the header itself gets the default content type.\<close>

definition HandleEvent :: "server_env \<Rightarrow> tmsg \<Rightarrow> tmsg \<times> string option" where
  "HandleEvent env msg =
     (let msg = (if md_at (tm_Header msg) ''Content-Type'' = []
                 then msg\<lparr>tm_Header := AList.update ''Content-Type'' DefaultContentType (tm_Header msg)\<rparr> else msg);
          ct = md_at (tm_Header msg) ''Content-Type''
      in case newCodec env ct of
           Inl e \<Rightarrow> (msg, Some e)
         | Inr _ \<Rightarrow>
             (msg, se_ProcessMessage env (map_copy (tm_Header msg))
                \<lparr>mg_topic = md_at (tm_Header msg) H_Message, mg_contentType = ct, mg_header = tm_Header msg, mg_body = tm_Body msg\<rparr>))"

section \<open>ServeConn\<close>

record rpcRequest =
  rq_service :: string
  rq_method :: string
  rq_endpoint :: string
  rq_contentType :: string
  rq_header :: hdr
  rq_body :: bytes
  rq_socket :: nat
  rq_stream :: bool
  rq_md :: hdr
  rq_timeout :: "nat option"

text \<open>
  The loop's variables, the message it is about to pass to a known socket, what went out on the connection, the requests started,
  and the sockets whose handler and whose outbound goroutine still run (their number is the wait group's count).
\<close>

record conn_st =
  cs_pool :: spool
  cs_closeConn :: bool
  cs_gerr :: bool
  cs_done :: bool
  cs_pending :: "(nat \<times> tmsg) option"
  cs_out :: "tmsg list"
  cs_requests :: "rpcRequest list"
  cs_serving :: "nat list"
  cs_outbound :: "nat list"

definition conn_init :: conn_st where
  "conn_init = \<lparr>cs_pool = spool_New, cs_closeConn = False, cs_gerr = False, cs_done = False, cs_pending = None, cs_out = [],
     cs_requests = [], cs_serving = [], cs_outbound = []\<rparr>"

text \<open>The deferred function closes the pool and the connection; the wait before it is a condition of the step.\<close>

definition finish :: "conn_st \<Rightarrow> conn_st" where
  "finish st = st\<lparr>cs_done := True, cs_pool := spool_Close (cs_pool st)\<rparr>"

definition ParseUint :: "string \<Rightarrow> nat option" where
  "ParseUint s = (if s = [] \<or> \<not> list_all is_dec s \<or> 2 ^ 64 \<le> dec_val s then None else Some (dec_val s))"

definition stream_id :: "hdr \<Rightarrow> string \<times> bool" where
  "stream_id h = (let v = getHeader H_Stream h in if v \<noteq> [] then (v, True) else (md_at h H_ID, False))"

definition serve_event :: "server_env \<Rightarrow> bool \<Rightarrow> tmsg \<Rightarrow> conn_st \<Rightarrow> conn_st" where
  "serve_event env sent msg st =
     (let (msg, e) = HandleEvent env msg;
          h = (case e of None \<Rightarrow> tm_Header msg | Some t \<Rightarrow> AList.update H_Error t (tm_Header msg))
      in if sent then st\<lparr>cs_out := cs_out st @ [\<lparr>tm_Header = h, tm_Body = []\<rparr>]\<rparr>
         else finish (st\<lparr>cs_gerr := True\<rparr>))"

text \<open>
  A new socket: the message is loaded into it first and its header is completed afterwards, which the loaded
  message shares.
\<close>

definition complete_header :: "tmsg \<Rightarrow> tmsg \<times> string option \<times> string" where
  "complete_header msg =
     (let h = tm_Header msg;
          ct = (if md_at h ''Content-Type'' = [] then DefaultContentType else md_at h ''Content-Type'');
          msg = (if md_at h ''Content-Type'' = [] then msg\<lparr>tm_Header := AList.update ''Content-Type'' ct h\<rparr> else msg);
          (msg, cf) = server_setupProtocol msg
      in (msg, cf, ct))"

definition load_socket :: "server_env \<Rightarrow> nat \<Rightarrow> tmsg \<Rightarrow> spool \<Rightarrow> spool" where
  "load_socket env a msg p =
     put_sock a ((sp_heap p ! a)\<lparr>sk_local := se_local env, sk_remote := se_remote env, sk_recv := [msg]\<rparr>) p"

definition refuse :: "bool \<Rightarrow> string \<Rightarrow> nat \<Rightarrow> conn_st \<Rightarrow> conn_st" where
  "refuse sent e a st =
     (let st = (if sent then st\<lparr>cs_out := cs_out st @ [\<lparr>tm_Header = [(''Content-Type'', ''text/plain'')], tm_Body = map of_char e\<rparr>]\<rparr>
                else st\<lparr>cs_gerr := True\<rparr>)
      in st\<lparr>cs_pool := spool_Release a (cs_pool st)\<rparr>)"

definition start_request :: "server_env \<Rightarrow> hdr \<Rightarrow> tmsg \<Rightarrow> string \<Rightarrow> bool \<Rightarrow> nat \<Rightarrow> conn_st \<Rightarrow> conn_st" where
  "start_request env h0 msg ct stream a st =
     (let h = tm_Header msg
      in st\<lparr>cs_requests := cs_requests st @
              [\<lparr>rq_service = getHeader H_Request h, rq_method = getHeader H_Method h, rq_endpoint = getHeader H_Endpoint h,
                rq_contentType = ct, rq_header = h, rq_body = tm_Body msg, rq_socket = a, rq_stream = stream,
                rq_md = AList.update ''Remote'' (se_remote env) (AList.update ''Local'' (se_local env) (map_copy h0)),
                rq_timeout = (if md_at h0 ''Timeout'' = [] then None else ParseUint (md_at h0 ''Timeout''))\<rparr>],
            cs_serving := cs_serving st @ [a], cs_outbound := cs_outbound st @ [a]\<rparr>)"

definition serve_new :: "server_env \<Rightarrow> bool \<Rightarrow> tmsg \<Rightarrow> bool \<Rightarrow> nat \<Rightarrow> conn_st \<Rightarrow> conn_st" where
  "serve_new env sent msg stream a st =
     (case complete_header msg of (msg', cf, ct) \<Rightarrow>
        let st = st\<lparr>cs_pool := load_socket env a msg' (cs_pool st)\<rparr>
        in case (case cf of Some c \<Rightarrow> Inr c | None \<Rightarrow> newCodec env ct) of
             Inl e \<Rightarrow> refuse sent e a st
           | Inr _ \<Rightarrow> start_request env (tm_Header msg) msg' ct stream a st)"

definition serve_msg :: "server_env \<Rightarrow> bool \<Rightarrow> tmsg \<Rightarrow> conn_st \<Rightarrow> conn_st" where
  "serve_msg env sent msg st =
     (let h = tm_Header msg; (i, stream) = stream_id h
      in if md_at h H_Message \<noteq> [] then serve_event env sent msg st
         else case spool_Get i (cs_pool st) of
           (p, a, True) \<Rightarrow> st\<lparr>cs_pool := p, cs_pending := Some (a, msg)\<rparr>
         | (p, a, False) \<Rightarrow>
             if stream \<and> md_at h H_Error = ''EOS''
             then st\<lparr>cs_closeConn := True, cs_pool := spool_Release a p\<rparr>
             else serve_new env sent msg stream a (st\<lparr>cs_pool := p\<rparr>))"

text \<open>One round of the loop: \<open>recv\<close> is what the connection delivered, \<open>sent\<close> whether a reply could be sent.\<close>

definition serve_round :: "server_env \<Rightarrow> bool \<Rightarrow> string + tmsg \<Rightarrow> conn_st \<Rightarrow> conn_st" where
  "serve_round env sent recv st =
     (if cs_closeConn st then finish st
      else case recv of
        Inl e \<Rightarrow> finish (st\<lparr>cs_gerr := True\<rparr>)
      | Inr msg \<Rightarrow> serve_msg env sent msg (if md_at (tm_Header msg) ''Connection'' = ''close'' then st\<lparr>cs_closeConn := True\<rparr> else st))"

text \<open>Passing a message to a known socket, which may have been released in the meantime.\<close>

definition serve_accept :: "conn_st \<Rightarrow> conn_st list" where
  "serve_accept st =
     (case cs_pending st of
        None \<Rightarrow> []
      | Some (a, msg) \<Rightarrow>
          map (\<lambda>(s, ok). let p = put_sock a s (cs_pool st)
                          in st\<lparr>cs_pending := None, cs_pool := (if ok then p else spool_Release a p)\<rparr>)
            (sock_Accept msg (sp_heap (cs_pool st) ! a)))"

text \<open>The end of a goroutine: \<open>deferer\<close>.\<close>

definition end_serving :: "nat \<Rightarrow> conn_st \<Rightarrow> conn_st" where
  "end_serving a st = st\<lparr>cs_serving := remove1 a (cs_serving st), cs_pool := spool_Release a (cs_pool st)\<rparr>"

definition end_outbound :: "nat \<Rightarrow> conn_st \<Rightarrow> conn_st" where
  "end_outbound a st = st\<lparr>cs_outbound := remove1 a (cs_outbound st), cs_pool := spool_Release a (cs_pool st)\<rparr>"

definition set_sock :: "nat \<Rightarrow> psock \<Rightarrow> conn_st \<Rightarrow> conn_st" where
  "set_sock a s st = st\<lparr>cs_pool := put_sock a s (cs_pool st)\<rparr>"

abbreviation sock_at :: "conn_st \<Rightarrow> nat \<Rightarrow> psock" where
  "sock_at st a \<equiv> sp_heap (cs_pool st) ! a"

text \<open>Once the connection is to be closed the loop's end waits for the wait group, unless there was an error.\<close>

definition may_go_on :: "conn_st \<Rightarrow> bool" where
  "may_go_on st \<longleftrightarrow> (cs_closeConn st \<and> \<not> cs_gerr st \<longrightarrow> cs_serving st = [] \<and> cs_outbound st = [])"

inductive conn_step :: "server_env \<Rightarrow> conn_st \<Rightarrow> conn_st \<Rightarrow> bool" for env where
  round: "\<not> cs_done st \<Longrightarrow> cs_pending st = None \<Longrightarrow> may_go_on st \<Longrightarrow> conn_step env st (serve_round env sent recv st)"
| accept: "\<not> cs_done st \<Longrightarrow> st' \<in> set (serve_accept st) \<Longrightarrow> conn_step env st st'"
| handler_recv: "a \<in> set (cs_serving st) \<Longrightarrow> (s, m) \<in> set (sock_Recv (sock_at st a)) \<Longrightarrow> conn_step env st (set_sock a s st)"
| handler_send: "a \<in> set (cs_serving st) \<Longrightarrow> (s, ok) \<in> set (sock_Send m (sock_at st a)) \<Longrightarrow> conn_step env st (set_sock a s st)"
| handler_end: "a \<in> set (cs_serving st) \<Longrightarrow> conn_step env st (end_serving a st)"
| outbound: "a \<in> set (cs_outbound st) \<Longrightarrow> (s, Some m) \<in> set (sock_Process (sock_at st a)) \<Longrightarrow>
    conn_step env st ((set_sock a s st)\<lparr>cs_out := cs_out st @ [m]\<rparr>)"
| outbound_failed: "a \<in> set (cs_outbound st) \<Longrightarrow> (s, Some m) \<in> set (sock_Process (sock_at st a)) \<Longrightarrow>
    conn_step env st (end_outbound a (set_sock a s st))"
| outbound_end: "a \<in> set (cs_outbound st) \<Longrightarrow> (s, None) \<in> set (sock_Process (sock_at st a)) \<Longrightarrow>
    conn_step env st (end_outbound a st)"

inductive conn_reachable :: "server_env \<Rightarrow> conn_st \<Rightarrow> bool" for env where
  init: "conn_reachable env conn_init"
| step: "conn_reachable env st \<Longrightarrow> conn_step env st st' \<Longrightarrow> conn_reachable env st'"


section \<open>The invariant\<close>

definition msg_id :: "tmsg \<Rightarrow> string" where
  "msg_id m = fst (stream_id (tm_Header m))"

definition sock_ok :: "psock \<Rightarrow> bool" where
  "sock_ok s \<longleftrightarrow> length (sk_recv s) \<le> chan_cap \<and> length (sk_send s) \<le> chan_cap \<and> list_all (\<lambda>m. msg_id m = sk_id s) (sk_recv s)"

definition open_socks :: "spool \<Rightarrow> nat set" where
  "open_socks p = {a. a < length (sp_heap p) \<and> \<not> sk_closed (sp_heap p ! a)}"

definition spool_ok :: "spool \<Rightarrow> bool" where
  "spool_ok p \<longleftrightarrow> go_map (sp_pool p) \<and> list_all sock_ok (sp_heap p) \<and>
     list_all (\<lambda>(i, a). a \<in> open_socks p \<and> sk_id (sp_heap p ! a) = i) (sp_pool p)"

text \<open>What a change of the heap must respect: no socket moves, changes its id or opens again.\<close>

definition evolves :: "spool \<Rightarrow> spool \<Rightarrow> bool" where
  "evolves p p' \<longleftrightarrow> length (sp_heap p) \<le> length (sp_heap p') \<and>
     (\<forall>a < length (sp_heap p). sk_id (sp_heap p' ! a) = sk_id (sp_heap p ! a) \<and> (sk_closed (sp_heap p ! a) \<longrightarrow> sk_closed (sp_heap p' ! a)))"

lemma evolves_refl [simp]: "evolves p p"
  by (simp add: evolves_def)

lemma spool_ok_sock: "spool_ok p \<Longrightarrow> a < length (sp_heap p) \<Longrightarrow> sock_ok (sp_heap p ! a)"
  by (simp add: spool_ok_def list_all_length)

lemma put_sock_simps [simp]:
  "sp_pool (put_sock a s p) = sp_pool p" "length (sp_heap (put_sock a s p)) = length (sp_heap p)"
  "a < length (sp_heap p) \<Longrightarrow> sp_heap (put_sock a s p) ! b = (if b = a then s else sp_heap p ! b)"
  by (simp_all add: put_sock_def nth_list_update)

lemma put_sock_ok:
  assumes "spool_ok p" and "a < length (sp_heap p)" and "sock_ok s"
    and "sk_id s = sk_id (sp_heap p ! a)" and "sk_closed s = sk_closed (sp_heap p ! a)"
  shows "spool_ok (put_sock a s p)" "open_socks (put_sock a s p) = open_socks p" "evolves p (put_sock a s p)"
proof -
  show op: "open_socks (put_sock a s p) = open_socks p" using assms(2,5) by (auto simp: open_socks_def)
  have "list_all sock_ok (sp_heap (put_sock a s p))"
    using assms(1,2,3) by (auto simp: spool_ok_def list_all_length)
  with assms op show "spool_ok (put_sock a s p)" by (auto simp: spool_ok_def list_all_iff)
  show "evolves p (put_sock a s p)" using assms(2,4,5) by (auto simp: evolves_def)
qed

lemma sock_Close_simps [simp]: "sk_id (sock_Close s) = sk_id s" "sk_closed (sock_Close s)" "sock_ok (sock_Close s) = sock_ok s"
  by (simp_all add: sock_Close_def sock_ok_def)

lemma close_delete_ok:
  assumes "spool_ok p" and "a < length (sp_heap p)"
  defines "p' \<equiv> (put_sock a (sock_Close (sp_heap p ! a)) p)\<lparr>sp_pool := AList.delete (sk_id (sp_heap p ! a)) (sp_pool p)\<rparr>"
  shows "spool_ok p'" "open_socks p' = open_socks p - {a}" "evolves p p'" "length (sp_heap p') = length (sp_heap p)"
proof -
  have h: "sp_heap p' ! b = (if b = a then sock_Close (sp_heap p ! a) else sp_heap p ! b)" for b
    using assms(2) by (simp add: p'_def put_sock_def nth_list_update)
  show len: "length (sp_heap p') = length (sp_heap p)" by (simp add: p'_def put_sock_def)
  show op: "open_socks p' = open_socks p - {a}" by (auto simp: open_socks_def h len)
  have "list_all sock_ok (sp_heap p')" using assms(1) by (auto simp: list_all_length len h spool_ok_sock)
  moreover have "b \<in> open_socks p' \<and> sk_id (sp_heap p' ! b) = i" if "(i, b) \<in> set (sp_pool p')" for i b
  proof -
    from that have ib: "(i, b) \<in> set (sp_pool p)" "i \<noteq> sk_id (sp_heap p ! a)" by (auto simp: p'_def set_delete_go)
    with assms(1) have "b \<in> open_socks p" "sk_id (sp_heap p ! b) = i" by (auto simp: spool_ok_def list_all_iff)
    with ib(2) show ?thesis by (auto simp: op h)
  qed
  moreover have "go_map (sp_pool p')" using assms(1) by (simp add: p'_def spool_ok_def go_map_delete)
  ultimately show "spool_ok p'" by (auto simp: spool_ok_def list_all_iff)
  show "evolves p p'" by (auto simp: evolves_def len h)
qed

lemma spool_Release_ok:
  assumes "spool_ok p" and "a < length (sp_heap p)"
  shows "spool_ok (spool_Release a p)" "open_socks (spool_Release a p) = open_socks p - {a}" "evolves p (spool_Release a p)"
    "length (sp_heap (spool_Release a p)) = length (sp_heap p)"
  using close_delete_ok [OF assms] by (simp_all add: spool_Release_def Let_def)

lemma evolves_trans: "evolves p q \<Longrightarrow> evolves q r \<Longrightarrow> evolves p r"
  by (auto simp: evolves_def)

lemma close_fold_ok:
  assumes "spool_ok p" and "set xs \<subseteq> set (sp_pool p)" and "distinct (map fst xs)"
  defines "p' \<equiv> foldl (\<lambda>p (i, a). (put_sock a (sock_Close (sp_heap p ! a)) p)\<lparr>sp_pool := AList.delete i (sp_pool p)\<rparr>) p xs"
  shows "spool_ok p' \<and> open_socks p' \<subseteq> open_socks p \<and> evolves p p' \<and> length (sp_heap p') = length (sp_heap p) \<and>
    fst ` set (sp_pool p') = fst ` set (sp_pool p) - fst ` set xs"
  using assms(1-3) unfolding p'_def
proof (induction xs arbitrary: p)
  case (Cons x xs)
  obtain i a where x: "x = (i, a)" by (cases x)
  have ia: "a < length (sp_heap p)" "sk_id (sp_heap p ! a) = i"
    using Cons.prems(1,2) by (auto simp: x spool_ok_def list_all_iff open_socks_def)
  let ?p = "(put_sock a (sock_Close (sp_heap p ! a)) p)\<lparr>sp_pool := AList.delete i (sp_pool p)\<rparr>"
  have ok: "spool_ok ?p" "open_socks ?p = open_socks p - {a}" "evolves p ?p" "length (sp_heap ?p) = length (sp_heap p)"
    using close_delete_ok [OF Cons.prems(1) ia(1)] by (simp_all add: ia(2))
  have "set xs \<subseteq> set (sp_pool ?p)" using Cons.prems(2,3) by (auto simp: x set_delete_go rev_image_eqI)
  from Cons.IH [OF ok(1) this] Cons.prems(3) ok evolves_trans [OF ok(3)] show ?case
    by (auto simp: x set_delete_go image_iff)
qed simp

lemma spool_Close_ok:
  assumes "spool_ok p"
  shows "spool_ok (spool_Close p)" "open_socks (spool_Close p) \<subseteq> open_socks p" "evolves p (spool_Close p)"
    "length (sp_heap (spool_Close p)) = length (sp_heap p)" "sp_pool (spool_Close p) = []"
  using close_fold_ok [of p "sp_pool p"] assms by (auto simp: spool_Close_def spool_ok_def go_map_def)

lemma spool_Get_new_ok:
  assumes "spool_ok p" and "map_of (sp_pool p) i = None"
  defines "p' \<equiv> \<lparr>sp_pool = AList.update i (length (sp_heap p)) (sp_pool p), sp_heap = sp_heap p @ [sock_New i]\<rparr>"
  shows "spool_ok p'" "open_socks p' = insert (length (sp_heap p)) (open_socks p)" "evolves p p'"
    "length (sp_heap p') = Suc (length (sp_heap p))" "sp_heap p' ! length (sp_heap p) = sock_New i"
proof -
  show op: "open_socks p' = insert (length (sp_heap p)) (open_socks p)"
    by (auto simp: open_socks_def p'_def nth_append sock_New_def less_Suc_eq)
  show nw: "sp_heap p' ! length (sp_heap p) = sock_New i" by (simp add: p'_def)
  have "b \<in> open_socks p' \<and> sk_id (sp_heap p' ! b) = j" if "(j, b) \<in> set (sp_pool p')" for j b
  proof -
    have "(j, b) = (i, length (sp_heap p)) \<or> (j, b) \<in> set (sp_pool p)"
      using that set_update_go [of i "length (sp_heap p)" "sp_pool p"] by (auto simp: p'_def)
    then show ?thesis
    proof
      assume "(j, b) \<in> set (sp_pool p)"
      with assms(1) have "b \<in> open_socks p" "sk_id (sp_heap p ! b) = j" by (auto simp: spool_ok_def list_all_iff)
      then show ?thesis by (auto simp: op p'_def nth_append open_socks_def)
    qed (simp add: op nw sock_New_def)
  qed
  moreover have "list_all sock_ok (sp_heap p')" using assms(1) by (simp add: p'_def spool_ok_def sock_ok_def sock_New_def)
  moreover have "go_map (sp_pool p')" using assms(1) by (simp add: p'_def spool_ok_def go_map_update)
  ultimately show "spool_ok p'" by (auto simp: spool_ok_def list_all_iff)
  show "evolves p p'" by (auto simp: evolves_def p'_def nth_append)
  show "length (sp_heap p') = Suc (length (sp_heap p))" by (simp add: p'_def)
qed


definition conn_inv :: "conn_st \<Rightarrow> bool" where
  "conn_inv st \<longleftrightarrow> spool_ok (cs_pool st) \<and>
     open_socks (cs_pool st) \<subseteq> set (cs_serving st) \<inter> set (cs_outbound st) \<and>
     set (cs_serving st) \<union> set (cs_outbound st) \<subseteq> {..<length (sp_heap (cs_pool st))} \<and>
     (case cs_pending st of None \<Rightarrow> True
      | Some (a, m) \<Rightarrow> a < length (sp_heap (cs_pool st)) \<and> sk_id (sock_at st a) = msg_id m) \<and>
     (cs_done st \<longrightarrow> sp_pool (cs_pool st) = [])"

lemmas conn_invE = conn_inv_def [THEN iffD1, elim_format]

text \<open>Closing sockets keeps the invariant, for any change of the pool that only closes sockets.\<close>

lemma conn_inv_pool:
  assumes "conn_inv st" and "spool_ok p" and "open_socks p \<subseteq> open_socks (cs_pool st)" and "evolves (cs_pool st) p"
    and "cs_done st' \<Longrightarrow> sp_pool p = []"
    and "cs_pool st' = p" "cs_serving st' = cs_serving st" "cs_outbound st' = cs_outbound st" "cs_pending st' = cs_pending st"
  shows "conn_inv st'"
  using assms by (auto simp: conn_inv_def evolves_def split: option.splits)

lemma finish_inv:
  assumes "conn_inv st"
  shows "conn_inv (finish st)"
proof -
  have "spool_ok (cs_pool st)" using assms by (simp add: conn_inv_def)
  note ok = spool_Close_ok [OF this]
  show ?thesis by (rule conn_inv_pool [OF assms ok(1-3)]) (simp_all add: finish_def ok(5))
qed

lemma conn_inv_out [simp]:
  "conn_inv (st\<lparr>cs_out := x\<rparr>) = conn_inv st" "conn_inv (st\<lparr>cs_gerr := g\<rparr>) = conn_inv st"
  "conn_inv (st\<lparr>cs_closeConn := g\<rparr>) = conn_inv st"
  by (simp_all add: conn_inv_def split: option.split)

lemma getHeader_update: "k \<noteq> h \<Longrightarrow> k \<noteq> ''X-'' @ h \<Longrightarrow> getHeader h (AList.update k v md) = getHeader h md"
  by (simp add: getHeader_def)

lemma msg_id_update: "k \<in> {''Content-Type'', H_Method, H_Endpoint} \<Longrightarrow> msg_id (m\<lparr>tm_Header := AList.update k v h\<rparr>) = msg_id (m\<lparr>tm_Header := h\<rparr>)"
  by (auto simp: msg_id_def stream_id_def getHeader_def Let_def)

lemma msg_id_setup: "server_setupProtocol m = (m', c) \<Longrightarrow> msg_id m' = msg_id m"
proof -
  have "msg_id (m\<lparr>tm_Header := tm_Header m\<rparr>) = msg_id m" by simp
  then show "server_setupProtocol m = (m', c) \<Longrightarrow> msg_id m' = msg_id m"
    unfolding server_setupProtocol_def Let_def by (auto simp: msg_id_update split: if_splits)
qed

lemma msg_id_complete: "complete_header m = (m', cf, ct) \<Longrightarrow> msg_id m' = msg_id m"
  using msg_id_update [where k = "''Content-Type''" and m = m and h = "tm_Header m"]
  by (auto simp: complete_header_def Let_def split: prod.splits if_splits dest: msg_id_setup)

lemma serve_new_inv:
  assumes "spool_ok (cs_pool st)" and "a < length (sp_heap (cs_pool st))" and "sock_at st a = sock_New (msg_id msg)"
    and "open_socks (cs_pool st) \<subseteq> insert a (set (cs_serving st) \<inter> set (cs_outbound st))"
    and "set (cs_serving st) \<union> set (cs_outbound st) \<subseteq> {..<length (sp_heap (cs_pool st))}"
    and "cs_pending st = None" and "\<not> cs_done st"
  shows "conn_inv (serve_new env sent msg stream a st)"
proof -
  obtain msg' cf ct where stp: "complete_header msg = (msg', cf, ct)" by (cases "complete_header msg")
  define s where "s = (sock_at st a)\<lparr>sk_local := se_local env, sk_remote := se_remote env, sk_recv := [msg']\<rparr>"
  have s: "sock_ok s" "sk_id s = sk_id (sock_at st a)" "sk_closed s = sk_closed (sock_at st a)"
    using assms(3) msg_id_complete [OF stp] by (simp_all add: s_def sock_ok_def sock_New_def chan_cap_def)
  note put = put_sock_ok [OF assms(1,2) s]
  note rel = spool_Release_ok [OF put(1), of a]
  let ?st = "st\<lparr>cs_pool := put_sock a s (cs_pool st)\<rparr>"
  have "load_socket env a msg' (cs_pool st) = put_sock a s (cs_pool st)" by (simp add: load_socket_def s_def)
  moreover have "conn_inv (refuse sent e a ?st)" for e
    using assms put rel by (auto simp: conn_inv_def refuse_def Let_def)
  moreover have "conn_inv (start_request env h msg' ct stream a ?st)" for h
    using assms put by (auto simp: conn_inv_def start_request_def Let_def)
  ultimately show ?thesis by (simp add: serve_new_def stp Let_def split: sum.split)
qed

lemma spool_Get_cases:
  obtains (known) a where "map_of (sp_pool p) i = Some a" "spool_Get i p = (p, a, True)"
    | (fresh) "map_of (sp_pool p) i = None"
        "spool_Get i p = (\<lparr>sp_pool = AList.update i (length (sp_heap p)) (sp_pool p), sp_heap = sp_heap p @ [sock_New i]\<rparr>, length (sp_heap p), False)"
  by (cases "map_of (sp_pool p) i") (auto simp: spool_Get_def)

lemma serve_msg_inv:
  assumes inv: "conn_inv st" and "cs_pending st = None" and "\<not> cs_done st"
  shows "conn_inv (serve_msg env sent msg st)"
proof (cases "md_at (tm_Header msg) H_Message = []")
  case False
  have "conn_inv (serve_event env sent msg st)"
    using inv finish_inv [of "st\<lparr>cs_gerr := True\<rparr>"] by (simp add: serve_event_def Let_def split: prod.split)
  with False show ?thesis by (simp add: serve_msg_def Let_def split: prod.split)
next
  case True
  obtain i stream where sid: "stream_id (tm_Header msg) = (i, stream)" by (cases "stream_id (tm_Header msg)")
  then have i: "i = msg_id msg" by (simp add: msg_id_def)
  have ok: "spool_ok (cs_pool st)" using inv by (simp add: conn_inv_def)
  show ?thesis
  proof (cases rule: spool_Get_cases [where p = "cs_pool st" and i = i])
    case (known a)
    then have "(i, a) \<in> set (sp_pool (cs_pool st))" by (simp add: map_of_SomeD)
    with ok have "a < length (sp_heap (cs_pool st))" "sk_id (sock_at st a) = i"
      by (auto simp: spool_ok_def list_all_iff open_socks_def)
    with inv True known i show ?thesis by (simp add: serve_msg_def sid conn_inv_def)
  next
    case fresh
    let ?p = "\<lparr>sp_pool = AList.update i (length (sp_heap (cs_pool st))) (sp_pool (cs_pool st)), sp_heap = sp_heap (cs_pool st) @ [sock_New i]\<rparr>"
    let ?a = "length (sp_heap (cs_pool st))"
    note nw = spool_Get_new_ok [OF ok fresh(1)]
    show ?thesis
    proof (cases "stream \<and> md_at (tm_Header msg) H_Error = ''EOS''")
      case eos: True
      have "conn_inv (st\<lparr>cs_closeConn := True, cs_pool := spool_Release ?a ?p\<rparr>)"
        using inv assms(2,3) spool_Release_ok [OF nw(1), of ?a] nw by (auto simp: conn_inv_def open_socks_def)
      with True eos fresh(2) sid show ?thesis by (simp add: serve_msg_def)
    next
      case go: False
      have "conn_inv (serve_new env sent msg stream ?a (st\<lparr>cs_pool := ?p\<rparr>))"
        using inv assms(2,3) nw i by (intro serve_new_inv) (auto simp: conn_inv_def)
      with True go fresh(2) sid show ?thesis by (auto simp: serve_msg_def)
    qed
  qed
qed

lemma serve_round_inv:
  assumes "conn_inv st" and "cs_pending st = None" and "\<not> cs_done st"
  shows "conn_inv (serve_round env sent recv st)"
  using assms finish_inv [of "st\<lparr>cs_gerr := True\<rparr>"] finish_inv [of st]
    serve_msg_inv [of st] serve_msg_inv [of "st\<lparr>cs_closeConn := True\<rparr>"]
  by (auto simp: serve_round_def split: sum.split)

lemma set_sock_inv:
  assumes "conn_inv st" and "a < length (sp_heap (cs_pool st))" and "sock_ok s"
    and "sk_id s = sk_id (sock_at st a)" and "sk_closed s = sk_closed (sock_at st a)"
  shows "conn_inv (set_sock a s st)"
proof -
  have "spool_ok (cs_pool st)" using assms(1) by (simp add: conn_inv_def)
  note put = put_sock_ok [OF this assms(2-5)]
  show ?thesis
    using assms(1) by (intro conn_inv_pool [OF assms(1) put(1) _ put(3)]) (auto simp: put(2) set_sock_def conn_inv_def)
qed

lemma serve_accept_inv:
  assumes inv: "conn_inv st" and "st' \<in> set (serve_accept st)"
  shows "conn_inv st'"
proof -
  from assms(2) obtain a msg where pend: "cs_pending st = Some (a, msg)"
    by (cases "cs_pending st") (auto simp: serve_accept_def)
  with assms(2) obtain s ok where
    acc: "(s, ok) \<in> set (sock_Accept msg (sock_at st a))"
    and st': "st' = st\<lparr>cs_pending := None, cs_pool := (if ok then put_sock a s (cs_pool st) else spool_Release a (put_sock a s (cs_pool st)))\<rparr>"
    by (auto simp: serve_accept_def Let_def)
  have a: "a < length (sp_heap (cs_pool st))" "sk_id (sock_at st a) = msg_id msg" and ok: "spool_ok (cs_pool st)"
    using inv pend by (simp_all add: conn_inv_def)
  have s: "sock_ok s" "sk_id s = sk_id (sock_at st a)" "sk_closed s = sk_closed (sock_at st a)"
    using acc a(2) spool_ok_sock [OF ok a(1)] by (auto simp: sock_Accept_def sock_ok_def split: if_splits)
  note put = put_sock_ok [OF ok a(1) s]
  note rel = spool_Release_ok [OF put(1), of a]
  show ?thesis using inv put rel a unfolding st' by (auto simp: conn_inv_def spool_Release_def)
qed

lemma end_task_inv:
  assumes inv: "conn_inv st" and "a < length (sp_heap (cs_pool st))"
  shows "conn_inv (end_serving a st)" "conn_inv (end_outbound a st)"
proof -
  have "spool_ok (cs_pool st)" using inv by (simp add: conn_inv_def)
  note rel = spool_Release_ok [OF this assms(2)]
  have sub: "set (remove1 a xs) \<subseteq> set xs" for xs :: "nat list" by (rule set_remove1_subset)
  have keep: "case cs_pending st of None \<Rightarrow> True
      | Some (b, m) \<Rightarrow> b < length (sp_heap (spool_Release a (cs_pool st))) \<and> sk_id (sp_heap (spool_Release a (cs_pool st)) ! b) = msg_id m"
    using inv rel(3,4) by (auto simp: conn_inv_def evolves_def split: option.splits)
  have nil: "sp_pool (spool_Release a (cs_pool st)) = []" if "cs_done st"
    using inv that by (simp add: conn_inv_def spool_Release_def Let_def)
  have rm: "set xs - {a} \<subseteq> set (remove1 a xs)" for xs :: "nat list" by (rule subsetI) simp
  have tasks: "open_socks (spool_Release a (cs_pool st)) \<subseteq> set (remove1 a (cs_serving st)) \<inter> set (cs_outbound st)"
      "open_socks (spool_Release a (cs_pool st)) \<subseteq> set (cs_serving st) \<inter> set (remove1 a (cs_outbound st))"
    using inv rm [of "cs_serving st"] rm [of "cs_outbound st"] unfolding rel(2) conn_inv_def by blast+
  have bound: "set (cs_serving st) \<union> set (cs_outbound st) \<subseteq> {..<length (sp_heap (spool_Release a (cs_pool st)))}"
    using inv unfolding rel(4) by (simp add: conn_inv_def)
  have bounds: "set (cs_serving st) \<subseteq> {..<length (sp_heap (spool_Release a (cs_pool st)))}"
      "set (cs_outbound st) \<subseteq> {..<length (sp_heap (spool_Release a (cs_pool st)))}"
      "set (remove1 a (cs_serving st)) \<subseteq> {..<length (sp_heap (spool_Release a (cs_pool st)))}"
      "set (remove1 a (cs_outbound st)) \<subseteq> {..<length (sp_heap (spool_Release a (cs_pool st)))}"
    using bound sub [of "cs_serving st"] sub [of "cs_outbound st"] by (blast, blast, blast, blast)
  note parts = rel(1) tasks bounds keep nil
  show "conn_inv (end_serving a st)" "conn_inv (end_outbound a st)"
    using parts by (simp_all add: conn_inv_def end_serving_def end_outbound_def split: option.splits prod.splits)
qed

lemma sock_Recv_keeps: "(s', m) \<in> set (sock_Recv s) \<Longrightarrow> sock_ok s \<Longrightarrow>
    sock_ok s' \<and> sk_id s' = sk_id s \<and> sk_closed s' = sk_closed s \<and> (case m of None \<Rightarrow> True | Some m \<Rightarrow> msg_id m = sk_id s)"
  by (cases "sk_recv s") (auto simp: sock_Recv_def sock_ok_def split: if_splits)

lemma sock_Send_keeps: "(s', ok) \<in> set (sock_Send m s) \<Longrightarrow> sock_ok s \<Longrightarrow> sock_ok s' \<and> sk_id s' = sk_id s \<and> sk_closed s' = sk_closed s"
  by (auto simp: sock_Send_def sock_ok_def split: if_splits)

lemma sock_Process_keeps: "(s', m) \<in> set (sock_Process s) \<Longrightarrow> sock_ok s \<Longrightarrow> sock_ok s' \<and> sk_id s' = sk_id s \<and> sk_closed s' = sk_closed s"
  by (cases "sk_send s") (auto simp: sock_Process_def sock_ok_def split: if_splits)

lemma conn_step_inv:
  assumes "conn_step env st st'" and inv: "conn_inv st"
  shows "conn_inv st'"
proof -
  have len: "a < length (sp_heap (cs_pool st))" if "a \<in> set (cs_serving st) \<or> a \<in> set (cs_outbound st)" for a
    using inv that by (auto simp: conn_inv_def)
  have ok: "sock_ok (sock_at st a)" if "a \<in> set (cs_serving st) \<or> a \<in> set (cs_outbound st)" for a
    using spool_ok_sock [OF _ len [OF that]] inv by (simp add: conn_inv_def)
  have seta: "conn_inv (set_sock a s st)" if "a \<in> set (cs_serving st) \<or> a \<in> set (cs_outbound st)"
      "sock_ok s \<and> sk_id s = sk_id (sock_at st a) \<and> sk_closed s = sk_closed (sock_at st a)" for a s
    using set_sock_inv [OF inv len [OF that(1)]] that(2) by blast
  from assms(1) show ?thesis
  proof cases
    case round
    with inv show ?thesis by (simp add: serve_round_inv)
  next
    case accept
    with inv show ?thesis by (simp add: serve_accept_inv)
  next
    case (handler_recv a s m)
    with sock_Recv_keeps [OF _ ok] seta show ?thesis by blast
  next
    case (handler_send a s okk m)
    with sock_Send_keeps [OF _ ok] seta show ?thesis by blast
  next
    case (handler_end a)
    with inv len show ?thesis by (simp add: end_task_inv)
  next
    case (outbound a s m)
    with sock_Process_keeps [OF _ ok] seta show ?thesis by simp
  next
    case (outbound_failed a s m)
    then have "conn_inv (set_sock a s st)" using sock_Process_keeps [OF _ ok] seta by blast
    moreover have "a < length (sp_heap (cs_pool (set_sock a s st)))" using outbound_failed len by (simp add: set_sock_def)
    ultimately show ?thesis using outbound_failed by (simp add: end_task_inv)
  next
    case (outbound_end a s)
    with inv len show ?thesis by (simp add: end_task_inv)
  qed
qed

lemma conn_init_inv: "conn_inv conn_init"
  by (simp add: conn_inv_def conn_init_def spool_New_def spool_ok_def open_socks_def)

lemma conn_reachable_inv: "conn_reachable env st \<Longrightarrow> conn_inv st"
  by (induction rule: conn_reachable.induct) (auto intro: conn_init_inv conn_step_inv)


section \<open>A sample connection\<close>

definition sample_env :: server_env where
  "sample_env = \<lparr>se_codecs = {}, se_ProcessMessage = (\<lambda>_ _. None), se_local = ''l'', se_remote = ''r''\<rparr>"

definition sample_msg :: "string \<Rightarrow> tmsg" where
  "sample_msg i = \<lparr>tm_Header = [(H_ID, i), (H_Request, ''s''), (H_Endpoint, ''A.B'')], tm_Body = []\<rparr>"

definition sample_round :: "string \<Rightarrow> conn_st \<Rightarrow> conn_st" where
  "sample_round i st = serve_round sample_env True (Inr (sample_msg i)) st"

lemma sample_round_reachable:
  "conn_reachable sample_env st \<Longrightarrow> \<not> cs_done st \<Longrightarrow> cs_pending st = None \<Longrightarrow> may_go_on st \<Longrightarrow> conn_reachable sample_env (sample_round i st)"
  unfolding sample_round_def by (rule conn_reachable.step [OF _ conn_step.round])

text \<open>
  The two goroutines of a request each release its socket, and releasing deletes the entry of the socket's id, whichever
  socket it now belongs to: a second request under an id that is reused between the two releases is
  served by an open socket the pool has lost, so that later messages of its stream go elsewhere.
\<close>

definition released_twice :: conn_st where
  "released_twice = end_outbound 0 (sample_round ''1'' (end_serving 0 (sample_round ''1'' conn_init)))"

lemma double_release_orphans:
  "conn_reachable sample_env released_twice \<and> \<not> cs_done released_twice \<and> \<not> sk_closed (sock_at released_twice 1) \<and>
   sk_id (sock_at released_twice 1) = ''1'' \<and> map_of (sp_pool (cs_pool released_twice)) ''1'' = None"
proof -
  let ?s1 = "sample_round ''1'' conn_init" let ?s2 = "end_serving 0 ?s1" let ?s3 = "sample_round ''1'' ?s2"
  have "conn_reachable sample_env ?s1"
    by (intro sample_round_reachable conn_reachable.init) (simp_all add: conn_init_def may_go_on_def)
  then have "conn_reachable sample_env ?s2"
    by (rule conn_reachable.step [OF _ conn_step.handler_end]) code_simp
  then have "conn_reachable sample_env ?s3" by (rule sample_round_reachable) code_simp+
  moreover have "0 \<in> set (cs_outbound ?s3)" by code_simp
  moreover have "(sock_at ?s3 0, None) \<in> set (sock_Process (sock_at ?s3 0))" by code_simp
  ultimately have "conn_reachable sample_env released_twice"
    unfolding released_twice_def by (blast intro: conn_reachable.step conn_step.outbound_end)
  moreover have "\<not> cs_done released_twice \<and> \<not> sk_closed (sock_at released_twice 1) \<and> sk_id (sock_at released_twice 1) = ''1'' \<and>
      map_of (sp_pool (cs_pool released_twice)) ''1'' = None"
    by code_simp
  ultimately show ?thesis by blast
qed

section \<open>Properties\<close>

text \<open>
  C12.  The streams of a connection stay apart: in every state the server can reach, for any interleaving of the
  receiving loop, the handlers and the outbound goroutines, the pool maps an id to an open socket of that id; every
  message waiting in a socket bears the socket's stream id (or request id), so a handler never receives
  another stream's message; no queue exceeds 128 messages; every open socket still has both its goroutines, so that none is left
  open when they have ended; and the pool is empty once the connection is done.
\<close>

theorem conn_reachable_safe:
  assumes "conn_reachable env st"
  shows "list_all (\<lambda>(i, a). a < length (sp_heap (cs_pool st)) \<and> sk_id (sock_at st a) = i \<and> \<not> sk_closed (sock_at st a)) (sp_pool (cs_pool st)) \<and>
    list_all (\<lambda>s. length (sk_recv s) \<le> 128 \<and> length (sk_send s) \<le> 128 \<and>
      list_all (\<lambda>m. fst (stream_id (tm_Header m)) = sk_id s) (sk_recv s)) (sp_heap (cs_pool st)) \<and>
    list_all (\<lambda>a. sk_closed (sock_at st a) \<or> a \<in> set (cs_serving st) \<inter> set (cs_outbound st)) [0..<length (sp_heap (cs_pool st))] \<and>
    (if cs_done st then sp_pool (cs_pool st) = [] else True)"
proof -
  have inv: "conn_inv st" by (rule conn_reachable_inv [OF assms])
  then have ok: "spool_ok (cs_pool st)" by (simp add: conn_inv_def)
  have "list_all (\<lambda>(i, a). a < length (sp_heap (cs_pool st)) \<and> sk_id (sock_at st a) = i \<and> \<not> sk_closed (sock_at st a)) (sp_pool (cs_pool st))"
    using ok by (auto simp: spool_ok_def list_all_iff open_socks_def)
  moreover have "list_all (\<lambda>s. length (sk_recv s) \<le> 128 \<and> length (sk_send s) \<le> 128 \<and>
      list_all (\<lambda>m. fst (stream_id (tm_Header m)) = sk_id s) (sk_recv s)) (sp_heap (cs_pool st))"
    using ok by (auto simp: spool_ok_def list_all_iff sock_ok_def msg_id_def chan_cap_def)
  moreover have "list_all (\<lambda>a. sk_closed (sock_at st a) \<or> a \<in> set (cs_serving st) \<inter> set (cs_outbound st)) [0..<length (sp_heap (cs_pool st))]"
    using inv by (auto simp: conn_inv_def list_all_iff open_socks_def)
  ultimately show ?thesis using inv by (simp add: conn_inv_def)
qed

theorem conn_reachable_safe_witness:
  "sp_pool (cs_pool (sample_round ''7'' conn_init)) = [(''7'', 0)] \<and> sk_id (sock_at (sample_round ''7'' conn_init) 0) = ''7'' \<and>
   \<not> sk_closed (sock_at (sample_round ''7'' conn_init) 0) \<and> length (sk_recv (sock_at (sample_round ''7'' conn_init) 0)) \<le> 128"
proof -
  have "conn_reachable sample_env (sample_round ''7'' conn_init)"
    by (intro sample_round_reachable conn_reachable.init) (simp_all add: conn_init_def may_go_on_def)
  moreover have "sp_pool (cs_pool (sample_round ''7'' conn_init)) = [(''7'', 0)]" by code_simp
  moreover have "length (sp_heap (cs_pool (sample_round ''7'' conn_init))) = 1" by code_simp
  ultimately show ?thesis
    using conn_reachable_safe [of sample_env "sample_round ''7'' conn_init"] by (auto simp: list_all_length)
qed

end
