(* ===== verification/Net_Addr.thy ===== *)
theory Net_Addr
  imports Codecs
begin

text \<open>
  Addresses: \<open>common/util/addr\<close> (\<open>isPrivateIP\<close>, \<open>IsLocal\<close>, \<open>Extract\<close>, \<open>IPs\<close>) and \<open>HostPort\<close> and \<open>Listen\<close> of
  \<open>common/util/net\<close>, with \<open>net.SplitHostPort\<close> of the standard library, which they all rest on.

  An IP address is its text.  What the machine's interfaces are, which texts \<open>net.ParseIP\<close> accepts and what it makes of
  them, and which addresses the private blocks contain are arguments (\<open>net_env\<close>).
\<close>

section \<open>The network environment\<close>

datatype net_addr = IPAddr string | IPNet string | OtherAddr

record iface =
  if_Loopback :: bool
  if_Addrs :: "string + net_addr list"

record net_env =
  ne_Interfaces :: "string + iface list"
  ne_ParseIP :: "string \<Rightarrow> string option"
  ne_privateBlocks :: "(string option \<Rightarrow> bool) list"

definition colon :: char where "colon = CHR '':''"
definition lbrack :: char where "lbrack = CHR ''[''"
definition rbrack :: char where "rbrack = CHR '']''"

lemmas addr_chars = colon_def lbrack_def rbrack_def

section \<open>Splitting and joining\<close>

text \<open>
  \<open>net.SplitHostPort\<close>: the port starts after the last colon; a host in brackets must end right before it, any other
  host has no colon; no further brackets are allowed.
\<close>

definition split_tail :: "string \<Rightarrow> nat \<Rightarrow> nat \<Rightarrow> nat \<Rightarrow> string \<Rightarrow> string + string \<times> string" where
  "split_tail hp i j k host =
     (if lbrack \<in> set (drop j hp) then Inl ''unexpected '[' in address''
      else if rbrack \<in> set (drop k hp) then Inl ''unexpected ']' in address''
      else Inr (host, drop (i + 1) hp))"

definition SplitHostPort :: "string \<Rightarrow> string + string \<times> string" where
  "SplitHostPort hp =
     (case last_index hp colon of
        None \<Rightarrow> Inl ''missing port in address''
      | Some i \<Rightarrow>
          if hd hp = lbrack
          then (case index_any hp [rbrack] of
                  None \<Rightarrow> Inl ''missing ']' in address''
                | Some e \<Rightarrow>
                    if e + 1 = length hp then Inl ''missing port in address''
                    else if e + 1 = i then split_tail hp i 1 (e + 1) (take (e - 1) (drop 1 hp))
                    else if hp ! (e + 1) = colon then Inl ''too many colons in address''
                    else Inl ''missing port in address'')
          else if colon \<in> set (take i hp) then Inl ''too many colons in address''
          else split_tail hp i 0 0 (take i hp))"

datatype go_port = PStr string | PInt int

definition show_port :: "go_port \<Rightarrow> string" where
  "show_port p = (case p of PStr s \<Rightarrow> s | PInt n \<Rightarrow> (if n < 0 then ''-'' @ go_dec (nat (- n)) else go_dec (nat n)))"

definition HostPort :: "net_env \<Rightarrow> string \<Rightarrow> go_port \<Rightarrow> string" where
  "HostPort env addr port =
     (let host = (if colon \<in> set addr then ''['' @ addr @ '']'' else addr)
      in if port = PStr [] then host
         else if port = PInt 0 \<and> ne_ParseIP env host = None then host
         else host @ '':'' @ show_port port)"

section \<open>The machine's own addresses\<close>

definition isPrivateIP :: "net_env \<Rightarrow> string \<Rightarrow> bool" where
  "isPrivateIP env ipAddr = list_ex (\<lambda>priv. priv (ne_ParseIP env ipAddr)) (ne_privateBlocks env)"

definition raw_ip :: "net_addr \<Rightarrow> string option" where
  "raw_ip a = (case a of IPAddr ip \<Rightarrow> Some ip | IPNet ip \<Rightarrow> Some ip | OtherAddr \<Rightarrow> None)"

definition IPs :: "net_env \<Rightarrow> string list" where
  "IPs env =
     (case ne_Interfaces env of
        Inl _ \<Rightarrow> []
      | Inr ifaces \<Rightarrow>
          concat (map (\<lambda>i. case if_Addrs i of Inl _ \<Rightarrow> [] | Inr addrs \<Rightarrow> List.map_filter raw_ip addrs) ifaces))"

definition IsLocal :: "net_env \<Rightarrow> string \<Rightarrow> bool" where
  "IsLocal env addr =
     (let addr = (case SplitHostPort addr of Inr (host, _) \<Rightarrow> host | Inl _ \<Rightarrow> addr)
      in addr = ''localhost'' \<or> list_ex (\<lambda>ip. addr = ip) (IPs env))"

text \<open>The addresses of the interfaces, those of loopback interfaces last.\<close>

definition iface_addrs :: "iface list \<Rightarrow> net_addr list" where
  "iface_addrs ifaces =
     (let addrs_of = (\<lambda>i. case if_Addrs i of Inl _ \<Rightarrow> [] | Inr addrs \<Rightarrow> addrs)
      in concat (map addrs_of (filter (\<lambda>i. \<not> if_Loopback i) ifaces)) @ concat (map addrs_of (filter if_Loopback ifaces)))"

text \<open>The loop returns the first private address, otherwise the last public one.\<close>

fun extract_loop :: "net_env \<Rightarrow> string \<Rightarrow> net_addr list \<Rightarrow> string \<times> string" where
  "extract_loop env publicIP [] = ([], publicIP)"
| "extract_loop env publicIP (rawAddr # addrs) =
     (case raw_ip rawAddr of
        None \<Rightarrow> extract_loop env publicIP addrs
      | Some ip \<Rightarrow> if \<not> isPrivateIP env ip then extract_loop env ip addrs else (ip, publicIP))"

definition valid_ip :: "net_env \<Rightarrow> string \<Rightarrow> string + string" where
  "valid_ip env ip = (case ne_ParseIP env ip of None \<Rightarrow> Inl (''ip addr '' @ ip @ '' is invalid'') | Some a \<Rightarrow> Inr a)"

definition addr_Extract :: "net_env \<Rightarrow> string \<Rightarrow> string + string" where
  "addr_Extract env addr =
     (if addr \<noteq> [] \<and> addr \<noteq> ''0.0.0.0'' \<and> addr \<noteq> ''[::]'' \<and> addr \<noteq> ''::'' then Inr addr
      else case ne_Interfaces env of
        Inl e \<Rightarrow> Inl (''Failed to get interfaces! Err: '' @ e)
      | Inr ifaces \<Rightarrow>
          (let (ipAddr, publicIP) = extract_loop env [] (iface_addrs ifaces)
           in if ipAddr \<noteq> [] then valid_ip env ipAddr
              else if publicIP \<noteq> [] then valid_ip env publicIP
              else Inl ''No IP address found, and explicit IP not provided''))"

section \<open>Listening on a port range\<close>

text \<open>
  \<open>fn\<close> binds to one address.  \<open>strconv.Atoi\<close> is \<open>ParseInt\<close> at 64 bits.  The result of the loop is \<open>None\<close> when no
  port was tried.
\<close>

function listen_loop :: "net_env \<Rightarrow> (string \<Rightarrow> string + 'l) \<Rightarrow> string \<Rightarrow> int \<Rightarrow> int \<Rightarrow> (string + 'l) option" where
  "listen_loop env fn host port hi =
     (if port > hi then None
      else case fn (HostPort env host (PInt port)) of
        Inr ln \<Rightarrow> Some (Inr ln)
      | Inl e \<Rightarrow> if port = hi then Some (Inl e) else listen_loop env fn host (port + 1) hi)"
  by auto
termination by (relation "measure (\<lambda>(env, fn, host, port, hi). nat (hi + 1 - port))") auto

declare listen_loop.simps [simp del]

definition net_Listen :: "net_env \<Rightarrow> (string \<Rightarrow> string + 'l) \<Rightarrow> string \<Rightarrow> string + 'l" where
  "net_Listen env fn addr =
     (if length (filter (\<lambda>c. c = colon) addr) = 1 \<and> CHR ''-'' \<notin> set addr then fn addr
      else case SplitHostPort addr of
        Inl e \<Rightarrow> Inl e
      | Inr (host, ports) \<Rightarrow>
          (let prange = go_split (CHR ''-'') ports
           in if length prange < 2 then fn addr
              else case ParseInt (prange ! 0) of
                None \<Rightarrow> Inl ''unable to extract port range''
              | Some lo \<Rightarrow>
                  (case ParseInt (prange ! 1) of
                     None \<Rightarrow> Inl ''unable to extract port range''
                   | Some hi \<Rightarrow>
                       (case listen_loop env fn host lo hi of
                          Some r \<Rightarrow> r
                        | None \<Rightarrow> Inl (''unable to bind to '' @ addr)))))"

section \<open>Round trip\<close>

lemma index_any_append: "set s \<inter> set cs = {} \<Longrightarrow> index_any (s @ t) cs = map_option (\<lambda>i. length s + i) (index_any t cs)"
  by (induction s) (cases "index_any t cs", auto)+

lemma last_index_append: "c \<notin> set t \<Longrightarrow> last_index (s @ c # t) c = Some (length s)"
  by (simp add: last_index_def index_any_append)

lemma SplitHostPort_plain:
  assumes "colon \<notin> set h" "lbrack \<notin> set h" "rbrack \<notin> set h" "colon \<notin> set p" "lbrack \<notin> set p" "rbrack \<notin> set p"
  shows "SplitHostPort (h @ colon # p) = Inr (h, p)"
proof -
  have "last_index (h @ colon # p) colon = Some (length h)" by (rule last_index_append [OF assms(4)])
  moreover have "hd (h @ colon # p) \<noteq> lbrack" using assms by (cases h) (auto simp: addr_chars)
  moreover have "lbrack \<noteq> colon" "rbrack \<noteq> colon" by (simp_all add: addr_chars)
  ultimately show ?thesis using assms by (simp add: SplitHostPort_def split_tail_def)
qed

lemma SplitHostPort_brackets:
  assumes "lbrack \<notin> set h" "rbrack \<notin> set h" "colon \<notin> set p" "lbrack \<notin> set p" "rbrack \<notin> set p"
  shows "SplitHostPort (lbrack # h @ rbrack # colon # p) = Inr (h, p)"
proof -
  have neq: "lbrack \<noteq> colon" "rbrack \<noteq> colon" "lbrack \<noteq> rbrack" by (simp_all add: addr_chars)
  have "last_index (lbrack # h @ rbrack # colon # p) colon = Some (length h + 2)"
    using last_index_append [of colon p "lbrack # h @ [rbrack]"] assms by simp
  moreover have "index_any (lbrack # h @ rbrack # colon # p) [rbrack] = Some (length h + 1)"
    using assms neq index_any_append [of "lbrack # h" "[rbrack]" "rbrack # colon # p"] by simp
  ultimately show ?thesis using assms neq by (simp add: SplitHostPort_def split_tail_def)
qed

text \<open>Whatever \<open>HostPort\<close> joins with a non-empty port, \<open>SplitHostPort\<close> takes apart, IPv6 addresses included.\<close>

lemma SplitHostPort_HostPort:
  assumes "lbrack \<notin> set h" "rbrack \<notin> set h" "p \<noteq> []" "colon \<notin> set p" "lbrack \<notin> set p" "rbrack \<notin> set p"
  shows "SplitHostPort (HostPort env h (PStr p)) = Inr (h, p)"
  using assms SplitHostPort_plain [of h p] SplitHostPort_brackets [of h p]
  by (cases "colon \<in> set h") (simp_all add: HostPort_def show_port_def, simp_all add: addr_chars)

lemma SplitHostPort_clean:
  assumes "SplitHostPort s = Inr (h, p)"
  shows "lbrack \<notin> set h" "rbrack \<notin> set h" "colon \<notin> set p" "lbrack \<notin> set p" "rbrack \<notin> set p"
proof -
  obtain i where i: "last_index s colon = Some i" using assms by (auto simp: SplitHostPort_def split: option.splits)
  have p: "p = drop (i + 1) s"
    using assms i by (auto simp: SplitHostPort_def split_tail_def split: option.splits if_splits)
  show "colon \<notin> set p"
  proof
    assume "colon \<in> set p"
    then obtain k where k: "k < length p" "p ! k = colon" by (auto simp: in_set_conv_nth)
    obtain j where j: "index_any (rev s) [colon] = Some j" "i = length s - 1 - j" using i by (auto simp: last_index_def)
    have js: "j < length s" using index_any_Some [OF j(1)] by simp
    have kl: "i + 1 + k < length s" using k(1) p by simp
    let ?m = "length s - 1 - (i + 1 + k)"
    have "?m < j" using j(2) js kl by simp
    then have "rev s ! ?m \<noteq> colon" using index_any_Some [OF j(1)] by auto
    moreover have "rev s ! ?m = s ! (i + 1 + k)" using kl by (simp add: rev_nth)
    ultimately show False using k p kl by simp
  qed
  have "lbrack \<notin> set p \<and> rbrack \<notin> set p \<and> lbrack \<notin> set h \<and> rbrack \<notin> set h"
  proof -
    have i_len: "i < length s" using last_index_Some [OF i] by simp
    consider (b) e where "hd s = lbrack" "index_any s [rbrack] = Some e" "e + 1 = i" "split_tail s i 1 (e + 1) (take (e - 1) (drop 1 s)) = Inr (h, p)"
      | (n) "split_tail s i 0 0 (take i s) = Inr (h, p)"
      using assms i by (auto simp: SplitHostPort_def split: option.splits if_splits)
    then show ?thesis
    proof (cases)
      case b
      have "lbrack \<notin> set (drop 1 s)" "rbrack \<notin> set (drop i s)" "h = take (e - 1) (drop 1 s)"
        using b by (auto simp: split_tail_def split: if_splits)
      moreover have "set (drop (i + 1) s) \<subseteq> set (drop 1 s)" "set (drop (i + 1) s) \<subseteq> set (drop i s)"
        by (simp_all add: set_drop_subset_set_drop)
      moreover have "rbrack \<notin> set (take (e - 1) (drop 1 s))"
      proof
        assume "rbrack \<in> set (take (e - 1) (drop 1 s))"
        then obtain k where "k < e - 1" "k < length (drop 1 s)" "drop 1 s ! k = rbrack" by (auto simp: in_set_conv_nth)
        then show False using index_any_Some [OF b(2)] by (auto simp: nth_drop)
      qed
      ultimately show ?thesis
        using p by (auto dest: in_set_takeD)
    next
      case n
      then show ?thesis
        using p by (auto simp: split_tail_def split: if_splits dest: in_set_takeD in_set_dropD)
    qed
  qed
  then show "lbrack \<notin> set p" "rbrack \<notin> set p" "lbrack \<notin> set h" "rbrack \<notin> set h" by simp_all
qed

text \<open>The range is tried in order: the first port that binds is the one used.\<close>

lemma listen_loop_first:
  assumes "lo \<le> p" and "p \<le> hi" and "fn (HostPort env host (PInt p)) = Inr ln"
    and "\<And>q. lo \<le> q \<Longrightarrow> q < p \<Longrightarrow> isl (fn (HostPort env host (PInt q)))"
  shows "listen_loop env fn host lo hi = Some (Inr ln)"
  using assms
proof (induction env fn host lo hi rule: listen_loop.induct)
  case (1 env fn host port hi)
  show ?case
  proof (cases "port = p")
    case True
    then show ?thesis using 1 by (simp add: listen_loop.simps)
  next
    case False
    then obtain e where "fn (HostPort env host (PInt port)) = Inl e" using 1 by (metis isl_def order.strict_iff_order order_refl)
    then show ?thesis using 1 False by (subst listen_loop.simps) auto
  qed
qed

end
