(* ===== verification/Http_Broker.thy ===== *)
theory Http_Broker
  imports Memory_Registry Net_Addr
begin

text \<open>
  The HTTP broker, \<open>broker/http.go\<close> with the types of \<open>broker/broker.go\<close>: subscriptions kept in a registry, the inbox of
  messages waiting for delivery, publication and the receiving end.

  The registry is any pair of a \<open>register\<close> and a \<open>deregister\<close> function on a state, as in the locale
  \<open>service_registry\<close>.  HTTP itself is an argument: \<open>post\<close> says whether a request to a node was answered and
  \<open>rnd\<close> is \<open>rand.Int\<close>, both threading a state of the outside world.  The encoder and decoder of messages
  (\<open>opts.Codec\<close>) and binding to an address are arguments too.  A handler is a value of type \<open>'f\<close>; which handlers
  run on which event is what \<open>ServeHTTP\<close> returns.  A subscriber is a pointer, its number is \<open>hs_ptr\<close>.
\<close>

section \<open>Types\<close>

record bmsg =
  bm_Header :: hdr
  bm_Body :: bytes

record 'f httpSubscriber =
  hs_ptr :: nat
  hs_id :: string
  hs_topic :: string
  hs_queue :: string
  hs_fn :: 'f
  hs_svc :: service

record 'f httpBroker =
  hb_id :: string
  hb_address :: string
  hb_addrs :: "string list"
  hb_secure :: bool
  hb_subscribers :: "(string, 'f httpSubscriber list) go_map"
  hb_inbox :: "(string, bytes list) go_map"
  hb_running :: bool
  hb_bound :: string
  hb_alloc :: nat

definition serviceName :: string where "serviceName = ''micro.http.broker''"
definition broadcastVersion :: string where "broadcastVersion = ''ff.http.broadcast''"
definition DefaultAddress :: string where "DefaultAddress = ''127.0.0.1:0''"

definition newHttpBroker :: "string \<Rightarrow> string list \<Rightarrow> bool \<Rightarrow> 'f httpBroker" where
  "newHttpBroker uuid addrs secure =
     \<lparr>hb_id = uuid, hb_address = (if addrs \<noteq> [] \<and> addrs ! 0 \<noteq> [] then addrs ! 0 else DefaultAddress), hb_addrs = addrs,
      hb_secure = secure, hb_subscribers = [], hb_inbox = [], hb_running = False, hb_bound = [], hb_alloc = 0\<rparr>"

definition at_key :: "('k, 'v list) go_map \<Rightarrow> 'k \<Rightarrow> 'v list" where
  "at_key m k = (case map_of m k of None \<Rightarrow> [] | Some v \<Rightarrow> v)"

lemma at_key_update [simp]: "at_key (AList.update k v m) k' = (if k' = k then v else at_key m k')"
  by (simp add: at_key_def)

section \<open>The inbox\<close>

definition saveMessage :: "string \<Rightarrow> bytes \<Rightarrow> 'f httpBroker \<Rightarrow> 'f httpBroker" where
  "saveMessage topic msg h =
     (let c = at_key (hb_inbox h) topic @ [msg];
          c = (if length c > 64 then take 64 c else c)
      in h\<lparr>hb_inbox := AList.update topic c (hb_inbox h)\<rparr>)"

definition getMessage :: "string \<Rightarrow> nat \<Rightarrow> 'f httpBroker \<Rightarrow> bytes list \<times> 'f httpBroker" where
  "getMessage topic num h =
     (case map_of (hb_inbox h) topic of
        None \<Rightarrow> ([], h)
      | Some c \<Rightarrow>
          if length c \<ge> num then (take num c, h\<lparr>hb_inbox := AList.update topic (drop num c) (hb_inbox h)\<rparr>)
          else (c, h\<lparr>hb_inbox := AList.update topic [] (hb_inbox h)\<rparr>))"

section \<open>Subscriptions\<close>

definition hb_subscribe ::
  "('c \<Rightarrow> service \<Rightarrow> 's \<Rightarrow> 'e + 's) \<Rightarrow> 'c \<Rightarrow> 'f httpSubscriber \<Rightarrow> 'f httpBroker \<Rightarrow> 's \<Rightarrow> 'e + 'f httpBroker \<times> 's" where
  "hb_subscribe register c s h m =
     (case register c (hs_svc s) m of
        Inl e \<Rightarrow> Inl e
      | Inr m' \<Rightarrow> Inr (h\<lparr>hb_subscribers := AList.update (hs_topic s) (at_key (hb_subscribers h) (hs_topic s) @ [s]) (hb_subscribers h)\<rparr>, m'))"

fun unsubscribe_loop ::
  "(service \<Rightarrow> 's \<Rightarrow> 's) \<Rightarrow> nat \<Rightarrow> 'f httpSubscriber list \<Rightarrow> 's \<Rightarrow> 'f httpSubscriber list \<times> 's" where
  "unsubscribe_loop deregister p [] m = ([], m)"
| "unsubscribe_loop deregister p (sub # subs) m =
     (if hs_ptr sub = p then unsubscribe_loop deregister p subs (deregister (hs_svc sub) m)
      else let (rest, m') = unsubscribe_loop deregister p subs m in (sub # rest, m'))"

definition hb_unsubscribe :: "(service \<Rightarrow> 's \<Rightarrow> 's) \<Rightarrow> 'f httpSubscriber \<Rightarrow> 'f httpBroker \<Rightarrow> 's \<Rightarrow> 'f httpBroker \<times> 's" where
  "hb_unsubscribe deregister s h m =
     (let (subs, m') = unsubscribe_loop deregister (hs_ptr s) (at_key (hb_subscribers h) (hs_topic s)) m
      in (h\<lparr>hb_subscribers := AList.update (hs_topic s) subs (hb_subscribers h)\<rparr>, m'))"

text \<open>\<open>Subscribe\<close>: the subscription is a node of the broker's service, its queue the version.\<close>

definition sub_node :: "net_env \<Rightarrow> string \<Rightarrow> string \<Rightarrow> string \<Rightarrow> 'f httpBroker \<Rightarrow> node" where
  "sub_node env topic addr port h =
     \<lparr>nd_Metadata = Some [(''secure'', if hb_secure h then ''true'' else ''false''), (''broker'', ''http''), (''topic'', topic)],
      nd_Id = topic @ ''-'' @ hb_id h, nd_Address = HostPort env addr (PStr port), nd_Port = 0\<rparr>"

definition sub_service :: "string \<Rightarrow> node \<Rightarrow> service" where
  "sub_service queue node =
     \<lparr>sv_Name = serviceName, sv_Version = (if queue = [] then broadcastVersion else queue), sv_Metadata = [],
      sv_Endpoints = [], sv_Nodes = [node]\<rparr>"

definition hb_Subscribe ::
  "net_env \<Rightarrow> ('c \<Rightarrow> service \<Rightarrow> 's \<Rightarrow> 'e + 's) \<Rightarrow> 'c \<Rightarrow> string \<Rightarrow> string \<Rightarrow> 'f \<Rightarrow> 'f httpBroker \<Rightarrow> 's \<Rightarrow>
    (string + 'e) + 'f httpSubscriber \<times> 'f httpBroker \<times> 's" where
  "hb_Subscribe env register c topic queue handler h m =
     (case SplitHostPort (hb_address h) of
        Inl e \<Rightarrow> Inl (Inl e)
      | Inr (host, port) \<Rightarrow>
          (case addr_Extract env host of
             Inl e \<Rightarrow> Inl (Inl e)
           | Inr addr \<Rightarrow>
               (let node = sub_node env topic addr port h;
                    s = \<lparr>hs_ptr = hb_alloc h, hs_id = nd_Id node, hs_topic = topic, hs_queue = queue, hs_fn = handler,
                         hs_svc = sub_service queue node\<rparr>
                in case hb_subscribe register c s (h\<lparr>hb_alloc := hb_alloc h + 1\<rparr>) m of
                     Inl e \<Rightarrow> Inl (Inr e)
                   | Inr (h', m') \<Rightarrow> Inr (s, h', m'))))"

text \<open>The two branches of \<open>run\<close>: the heartbeat registers every subscription again; at exit all are deregistered.\<close>

definition all_subs :: "'f httpBroker \<Rightarrow> 'f httpSubscriber list" where
  "all_subs h = concat (map snd (hb_subscribers h))"

definition try_register :: "('c \<Rightarrow> service \<Rightarrow> 's \<Rightarrow> 'e + 's) \<Rightarrow> 'c \<Rightarrow> 's \<Rightarrow> service \<Rightarrow> 's" where
  "try_register register c m s = (case register c s m of Inl _ \<Rightarrow> m | Inr m' \<Rightarrow> m')"

definition hb_heartbeat :: "('c \<Rightarrow> service \<Rightarrow> 's \<Rightarrow> 'e + 's) \<Rightarrow> 'c \<Rightarrow> 'f httpBroker \<Rightarrow> 's \<Rightarrow> 's" where
  "hb_heartbeat register c h m = foldl (try_register register c) m (map hs_svc (all_subs h))"

definition hb_exit :: "(service \<Rightarrow> 's \<Rightarrow> 's) \<Rightarrow> 'f httpBroker \<Rightarrow> 's \<Rightarrow> 's" where
  "hb_exit deregister h m = foldl (\<lambda>m s. deregister s m) m (map hs_svc (all_subs h))"

section \<open>Connecting\<close>

text \<open>\<open>bind\<close> listens on one address and returns the address it got.\<close>

definition hb_Connect :: "net_env \<Rightarrow> (string \<Rightarrow> string + string) \<Rightarrow> 'f httpBroker \<Rightarrow> string option \<times> 'f httpBroker" where
  "hb_Connect env bind h =
     (if hb_running h then (None, h)
      else case net_Listen env bind (hb_address h) of
        Inl e \<Rightarrow> (Some e, h)
      | Inr a \<Rightarrow> (None, h\<lparr>hb_bound := hb_address h, hb_address := a, hb_running := True\<rparr>))"

text \<open>
  \<open>Disconnect\<close> hands over to \<open>run\<close>, which closes the listener (\<open>closed\<close> is the result), deregisters the subscriptions and
  restores the address.  The code deregisters after \<open>Disconnect\<close> has released its lock; here both are one step.
\<close>

definition hb_Disconnect ::
  "(service \<Rightarrow> 's \<Rightarrow> 's) \<Rightarrow> string option \<Rightarrow> 'f httpBroker \<Rightarrow> 's \<Rightarrow> string option \<times> 'f httpBroker \<times> 's" where
  "hb_Disconnect deregister closed h m =
     (if \<not> hb_running h then (None, h, m)
      else (closed, h\<lparr>hb_running := False, hb_addrs := [hb_bound h], hb_address := hb_bound h\<rparr>, hb_exit deregister h m))"

definition hb_Init :: "string \<Rightarrow> string list \<Rightarrow> bool \<Rightarrow> 'f httpBroker \<Rightarrow> string option \<times> 'f httpBroker" where
  "hb_Init uuid addrs secure h =
     (if hb_running h then (Some ''cannot init while connected'', h)
      else let h = h\<lparr>hb_addrs := addrs, hb_secure := secure\<rparr>;
               h = (if addrs \<noteq> [] \<and> addrs ! 0 \<noteq> [] then h\<lparr>hb_address := addrs ! 0\<rparr> else h);
               h = (if hb_id h = [] then h\<lparr>hb_id := ''real.micro.http.broker-'' @ uuid\<rparr> else h)
           in (None, h))"

section \<open>Publishing\<close>

definition H_Topic :: string where "H_Topic = ''Micro-Topic''"

definition pub_message :: "string \<Rightarrow> bmsg \<Rightarrow> bmsg" where
  "pub_message topic msg = \<lparr>bm_Header = AList.update H_Topic topic (map_copy (bm_Header msg)), bm_Body = bm_Body msg\<rparr>"

text \<open>\<open>found\<close> is what \<open>GetService\<close> returns; the result is what the goroutine is started with.\<close>

definition hb_Publish ::
  "(bmsg \<Rightarrow> string + bytes) \<Rightarrow> string + service list \<Rightarrow> string \<Rightarrow> bmsg \<Rightarrow> 'f httpBroker \<Rightarrow> (string + service list) \<times> 'f httpBroker" where
  "hb_Publish marshal found topic msg h =
     (case marshal (pub_message topic msg) of
        Inl e \<Rightarrow> (Inl e, h)
      | Inr b \<Rightarrow> (found, saveMessage topic b h))"

text \<open>Where a node is reached: scheme, address and the id in the query.\<close>

definition pub_target :: "node \<Rightarrow> string \<times> string \<times> string" where
  "pub_target n = (if md_at (nd_md n) ''secure'' = ''true'' then ''https'' else ''http'', nd_Address n, nd_Id n)"

type_synonym 'w poster = "string \<times> string \<times> string \<Rightarrow> bytes \<Rightarrow> 'w \<Rightarrow> bool \<times> 'w"

fun pub_all :: "'w poster \<Rightarrow> bytes \<Rightarrow> node list \<Rightarrow> 'w \<Rightarrow> (node \<times> bool) list \<times> 'w" where
  "pub_all post b [] w = ([], w)"
| "pub_all post b (n # ns) w =
     (let (ok, w) = post (pub_target n) b w; (rs, w) = pub_all post b ns w in ((n, ok) # rs, w))"

definition topic_nodes :: "string \<Rightarrow> service \<Rightarrow> node list" where
  "topic_nodes topic s = filter (\<lambda>n. md_at (nd_md n) ''broker'' = ''http'' \<and> md_at (nd_md n) ''topic'' = topic) (sv_Nodes s)"

definition srv_one ::
  "'w poster \<Rightarrow> ('w \<Rightarrow> nat \<times> 'w) \<Rightarrow> string \<Rightarrow> bytes \<Rightarrow> 'f httpBroker \<times> 'w \<times> (node \<times> bool) list \<Rightarrow> service \<Rightarrow>
    'f httpBroker \<times> 'w \<times> (node \<times> bool) list" where
  "srv_one post rnd topic b st s =
     (case st of (h, w, log) \<Rightarrow>
        let nodes = topic_nodes topic s
        in if nodes = [] then (h, w, log)
           else if sv_Version s = broadcastVersion
           then let (rs, w) = pub_all post b nodes w
                in (if list_ex snd rs then h else saveMessage topic b h, w, log @ rs)
           else let (r, w) = rnd w; node = nodes ! (r mod length nodes); (ok, w) = post (pub_target node) b w
                in (if ok then h else saveMessage topic b h, w, log @ [(node, ok)]))"

definition srv ::
  "'w poster \<Rightarrow> ('w \<Rightarrow> nat \<times> 'w) \<Rightarrow> string \<Rightarrow> service list \<Rightarrow> bytes \<Rightarrow> 'f httpBroker \<times> 'w \<times> (node \<times> bool) list \<Rightarrow>
    'f httpBroker \<times> 'w \<times> (node \<times> bool) list" where
  "srv post rnd topic services b st = foldl (srv_one post rnd topic b) st services"

text \<open>The goroutine as a whole, when nothing interferes.\<close>

definition pub_worker ::
  "'w poster \<Rightarrow> ('w \<Rightarrow> nat \<times> 'w) \<Rightarrow> string \<Rightarrow> service list \<Rightarrow> 'f httpBroker \<Rightarrow> 'w \<Rightarrow> 'f httpBroker \<times> 'w \<times> (node \<times> bool) list" where
  "pub_worker post rnd topic services h w =
     (let (messages, h) = getMessage topic 8 h
      in foldl (\<lambda>st msg. srv post rnd topic services msg st) (h, w, []) messages)"

section \<open>Receiving\<close>

record http_request =
  hr_Method :: string
  hr_Body :: "string + bytes"
  hr_id :: string

text \<open>
  The response's status, and the handlers that run with the topic and message of their event.  A body that decodes to a nil message (the JSON text
  \<open>null\<close>), on which the code panics, is not among the results of the decoder.
\<close>

definition ServeHTTP :: "(bytes \<Rightarrow> string + bmsg) \<Rightarrow> http_request \<Rightarrow> 'f httpBroker \<Rightarrow> nat \<times> ('f \<times> string \<times> bmsg) list" where
  "ServeHTTP unmarshal req h =
     (if hr_Method req \<noteq> ''POST'' then (405, [])
      else case hr_Body req of
        Inl _ \<Rightarrow> (500, [])
      | Inr b \<Rightarrow>
          (case unmarshal b of
             Inl _ \<Rightarrow> (500, [])
           | Inr m \<Rightarrow>
               (let topic = md_at (bm_Header m) H_Topic
                in if topic = [] then (500, [])
                   else (200, map (\<lambda>s. (hs_fn s, topic, m)) (filter (\<lambda>s. hr_id req = hs_id s) (at_key (hb_subscribers h) topic))))))"

section \<open>Publishing concurrently\<close>

text \<open>
  Every publication starts a goroutine; they interleave with each other and with further publications.  A goroutine first
  takes its messages from the inbox, then sends them one by one.  The log records the topic
  each request was made for.
\<close>

record pworker =
  pw_topic :: string
  pw_services :: "service list"
  pw_messages :: "bytes list option"

record 'f pub_sys =
  ps_broker :: "'f httpBroker"
  ps_workers :: "pworker list"
  ps_posts :: "(string \<times> node \<times> bytes) list"
  ps_published :: "(string \<times> bmsg) list"

definition sys_publish ::
  "(bmsg \<Rightarrow> string + bytes) \<Rightarrow> string + service list \<Rightarrow> string \<Rightarrow> bmsg \<Rightarrow> 'f pub_sys \<Rightarrow> 'f pub_sys" where
  "sys_publish marshal found topic msg st =
     (let (r, h) = hb_Publish marshal found topic msg (ps_broker st)
      in st\<lparr>ps_broker := h, ps_published := ps_published st @ [(topic, msg)],
            ps_workers := ps_workers st @ (case r of Inl _ \<Rightarrow> [] | Inr s \<Rightarrow> [\<lparr>pw_topic = topic, pw_services = s, pw_messages = None\<rparr>])\<rparr>)"

definition sys_take :: "nat \<Rightarrow> 'f pub_sys \<Rightarrow> 'f pub_sys" where
  "sys_take i st =
     (let wk = ps_workers st ! i; (ms, h) = getMessage (pw_topic wk) 8 (ps_broker st)
      in st\<lparr>ps_broker := h, ps_workers := (ps_workers st)[i := wk\<lparr>pw_messages := Some ms\<rparr>]\<rparr>)"

definition sys_send :: "'w poster \<Rightarrow> ('w \<Rightarrow> nat \<times> 'w) \<Rightarrow> 'w \<Rightarrow> nat \<Rightarrow> bytes \<Rightarrow> bytes list \<Rightarrow> 'f pub_sys \<Rightarrow> 'f pub_sys" where
  "sys_send post rnd w i b bs st =
     (let wk = ps_workers st ! i; (h, _, log) = srv post rnd (pw_topic wk) (pw_services wk) b (ps_broker st, w, [])
      in st\<lparr>ps_broker := h, ps_workers := (ps_workers st)[i := wk\<lparr>pw_messages := Some bs\<rparr>],
            ps_posts := ps_posts st @ map (\<lambda>(n, _). (pw_topic wk, n, b)) log\<rparr>)"

inductive pub_step :: "(bmsg \<Rightarrow> string + bytes) \<Rightarrow> 'f pub_sys \<Rightarrow> 'f pub_sys \<Rightarrow> bool" for marshal where
  publish: "pub_step marshal st (sys_publish marshal found topic msg st)"
| take_messages: "i < length (ps_workers st) \<Longrightarrow> pw_messages (ps_workers st ! i) = None \<Longrightarrow> pub_step marshal st (sys_take i st)"
| send: "i < length (ps_workers st) \<Longrightarrow> pw_messages (ps_workers st ! i) = Some (b # bs) \<Longrightarrow>
    pub_step marshal st (sys_send (post :: nat poster) rnd w i b bs st)"

inductive pub_reachable :: "(bmsg \<Rightarrow> string + bytes) \<Rightarrow> 'f httpBroker \<Rightarrow> 'f pub_sys \<Rightarrow> bool" for marshal h where
  init: "hb_inbox h = [] \<Longrightarrow> pub_reachable marshal h \<lparr>ps_broker = h, ps_workers = [], ps_posts = [], ps_published = []\<rparr>"
| step: "pub_reachable marshal h st \<Longrightarrow> pub_step marshal st st' \<Longrightarrow> pub_reachable marshal h st'"


section \<open>The life of a broker\<close>

inductive hb_step ::
  "net_env \<Rightarrow> ('c \<Rightarrow> service \<Rightarrow> 's \<Rightarrow> 'e + 's) \<Rightarrow> (service \<Rightarrow> 's \<Rightarrow> 's) \<Rightarrow> 'f httpBroker \<times> 's \<Rightarrow> 'f httpBroker \<times> 's \<Rightarrow> bool"
  for env register deregister where
  subscribe: "hb_Subscribe env register c topic queue fn h m = Inr (s, h', m') \<Longrightarrow> hb_step env register deregister (h, m) (h', m')"
| unsubscribe: "hb_step env register deregister (h, m) (hb_unsubscribe deregister s h m)"
| heartbeat: "hb_step env register deregister (h, m) (h, hb_heartbeat register c h m)"
| connect: "hb_step env register deregister (h, m) (snd (hb_Connect env bind h), m)"
| disconnect: "hb_step env register deregister (h, m) (snd (hb_Disconnect deregister closed h m))"
| init: "hb_step env register deregister (h, m) (snd (hb_Init uuid addrs secure h), m)"

section \<open>The inbox as a bounded queue\<close>

lemma inbox_saveMessage [simp]:
  "at_key (hb_inbox (saveMessage topic b h)) t = (if t = topic then take 64 (at_key (hb_inbox h) t @ [b]) else at_key (hb_inbox h) t)"
  by (simp add: saveMessage_def Let_def)

lemma saveMessage_simps [simp]:
  "hb_subscribers (saveMessage topic b h) = hb_subscribers h" "hb_id (saveMessage topic b h) = hb_id h"
  by (simp_all add: saveMessage_def Let_def)

lemma getMessage_eq:
  assumes "getMessage topic n h = (ms, h')"
  shows "ms = take n (at_key (hb_inbox h) topic)"
    and "at_key (hb_inbox h') t = (if t = topic then drop n (at_key (hb_inbox h) t) else at_key (hb_inbox h) t)"
  using assms by (auto simp: getMessage_def at_key_def split: option.splits if_splits)

section \<open>Delivery\<close>

text \<open>What the requests for one service have to be: one to every node of a broadcast service, one node of a queue.\<close>

definition served :: "string \<Rightarrow> service \<Rightarrow> (node \<times> bool) list \<Rightarrow> bool" where
  "served topic s log \<longleftrightarrow>
     (let nodes = topic_nodes topic s
      in if sv_Version s = broadcastVersion then map fst log = nodes
         else if nodes = [] then log = []
         else length log = 1 \<and> fst (hd log) \<in> set nodes)"

definition failed :: "(node \<times> bool) list \<Rightarrow> bool" where
  "failed log \<longleftrightarrow> log \<noteq> [] \<and> \<not> list_ex snd log"

lemma pub_all_nodes: "map fst (fst (pub_all post b ns w)) = ns"
  by (induction ns arbitrary: w) (auto simp: case_prod_beta Let_def)

lemma srv_one_log:
  "\<exists>l. srv_one post rnd topic b (h, w, log) s =
      ((if failed l then saveMessage topic b h else h), fst (snd (srv_one post rnd topic b (h, w, log) s)), log @ l) \<and> served topic s l"
proof -
  let ?ns = "topic_nodes topic s"
  consider "?ns = []" | "?ns \<noteq> []" "sv_Version s = broadcastVersion" | "?ns \<noteq> []" "sv_Version s \<noteq> broadcastVersion" by blast
  then show ?thesis
  proof cases
    case 1
    then show ?thesis by (intro exI [of _ "[]"]) (simp add: srv_one_def served_def failed_def)
  next
    case 2
    obtain rs w' where rs: "pub_all post b ?ns w = (rs, w')" by (cases "pub_all post b ?ns w")
    then have "map fst rs = ?ns" using pub_all_nodes [of post b ?ns w] by simp
    moreover from this have "rs \<noteq> []" using 2 by auto
    ultimately show ?thesis
      using 2 rs by (intro exI [of _ rs]) (simp add: srv_one_def served_def failed_def)
  next
    case 3
    obtain r w1 where r: "rnd w = (r, w1)" by (cases "rnd w")
    let ?n = "?ns ! (r mod length ?ns)"
    obtain ok w2 where ok: "post (pub_target ?n) b w1 = (ok, w2)" by (cases "post (pub_target ?n) b w1")
    have "?n \<in> set ?ns" using 3 by simp
    then show ?thesis
      using 3 r ok by (intro exI [of _ "[(?n, ok)]"]) (simp add: srv_one_def served_def failed_def Let_def)
  qed
qed

lemma srv_logs:
  assumes "length (at_key (hb_inbox h) topic) \<le> 64"
  shows "\<exists>h' w' logs. srv post rnd topic services b (h, w, log) = (h', w', log @ concat logs) \<and>
    list_all2 (served topic) services logs \<and> hb_subscribers h' = hb_subscribers h \<and>
    (\<forall>t. at_key (hb_inbox h') t = (if t = topic then take 64 (at_key (hb_inbox h) topic @ replicate (length (filter failed logs)) b)
                                else at_key (hb_inbox h) t))"
  using assms
proof (induction services arbitrary: h w log)
  case Nil
  then show ?case by (simp add: srv_def)
next
  case (Cons s services)
  obtain l w1 where l: "srv_one post rnd topic b (h, w, log) s = ((if failed l then saveMessage topic b h else h), w1, log @ l)"
    and served: "served topic s l"
    using srv_one_log [of post rnd topic b h w log s] by metis
  let ?h = "if failed l then saveMessage topic b h else h"
  have "length (at_key (hb_inbox ?h) topic) \<le> 64" using Cons.prems by auto
  from Cons.IH [OF this, of w1 "log @ l"] obtain h' w' logs where
    IH: "srv post rnd topic services b (?h, w1, log @ l) = (h', w', (log @ l) @ concat logs)" "list_all2 (served topic) services logs"
      "hb_subscribers h' = hb_subscribers ?h"
      "\<forall>t. at_key (hb_inbox h') t = (if t = topic then take 64 (at_key (hb_inbox ?h) topic @ replicate (length (filter failed logs)) b)
                                else at_key (hb_inbox ?h) t)"
    by blast
  have cut: "take 64 (take 64 (xs @ [b]) @ ys) = take 64 (xs @ b # ys)" for xs ys
    using Cons.prems by (cases "length xs < 64") simp_all
  show ?case
    by (intro exI [of _ h'] exI [of _ w'] exI [of _ "l # logs"]) (use l served IH in \<open>auto simp: srv_def cut simp del: take_append\<close>)
qed

lemma topic_nodes_topic: "n \<in> set (topic_nodes topic s) \<Longrightarrow> md_at (nd_md n) ''topic'' = topic \<and> md_at (nd_md n) ''broker'' = ''http''"
  by (simp add: topic_nodes_def)

lemma served_nodes:
  assumes "served topic s l" and "(n, ok) \<in> set l"
  shows "n \<in> set (topic_nodes topic s)"
proof (cases "sv_Version s = broadcastVersion")
  case True
  then have "set (topic_nodes topic s) = fst ` set l" using assms(1) by (metis list.set_map served_def)
  then show ?thesis using assms(2) by force
next
  case False
  then show ?thesis using assms by (cases l) (auto simp: served_def Let_def split: if_splits)
qed


section \<open>Topics stay apart\<close>

definition msgs_of :: "(bmsg \<Rightarrow> string + bytes) \<Rightarrow> 'f pub_sys \<Rightarrow> string \<Rightarrow> bytes set" where
  "msgs_of marshal st t = {b. \<exists>msg. (t, msg) \<in> set (ps_published st) \<and> marshal (pub_message t msg) = Inr b}"

definition worker_ok :: "(string \<Rightarrow> bytes set) \<Rightarrow> pworker \<Rightarrow> bool" where
  "worker_ok M wk \<longleftrightarrow> (case pw_messages wk of None \<Rightarrow> True | Some bs \<Rightarrow> length bs \<le> 8 \<and> set bs \<subseteq> M (pw_topic wk))"

definition post_ok :: "(string \<Rightarrow> bytes set) \<Rightarrow> string \<times> node \<times> bytes \<Rightarrow> bool" where
  "post_ok M p \<longleftrightarrow> (case p of (t, n, b) \<Rightarrow> b \<in> M t \<and> md_at (nd_md n) ''topic'' = t \<and> md_at (nd_md n) ''broker'' = ''http'')"

definition inbox_ok :: "(string \<Rightarrow> bytes set) \<Rightarrow> 'f httpBroker \<Rightarrow> bool" where
  "inbox_ok M h \<longleftrightarrow> (\<forall>t. length (at_key (hb_inbox h) t) \<le> 64 \<and> set (at_key (hb_inbox h) t) \<subseteq> M t)"

definition pub_inv :: "(bmsg \<Rightarrow> string + bytes) \<Rightarrow> 'f pub_sys \<Rightarrow> bool" where
  "pub_inv marshal st \<longleftrightarrow> inbox_ok (msgs_of marshal st) (ps_broker st) \<and> list_all (worker_ok (msgs_of marshal st)) (ps_workers st) \<and>
     list_all (post_ok (msgs_of marshal st)) (ps_posts st)"

lemma pub_inv_mono:
  assumes "M \<le> M'"
  shows "inbox_ok M h \<Longrightarrow> inbox_ok M' h" "worker_ok M wk \<Longrightarrow> worker_ok M' wk" "post_ok M p \<Longrightarrow> post_ok M' p"
  using assms by (fastforce simp: le_fun_def inbox_ok_def worker_ok_def post_ok_def split: option.splits)+

lemma inbox_ok_save: "inbox_ok M h \<Longrightarrow> b \<in> M topic \<Longrightarrow> inbox_ok M (saveMessage topic b h)"
  by (fastforce simp: inbox_ok_def simp del: take_append dest!: in_set_takeD)

lemma inbox_ok_take:
  assumes "inbox_ok M h" and "getMessage t n h = (ms, h')"
  shows "inbox_ok M h'" and "length ms \<le> n" and "set ms \<subseteq> M t"
proof -
  note eq = getMessage_eq [OF assms(2)]
  have "length (at_key (hb_inbox h) x) \<le> 64" "set (at_key (hb_inbox h) x) \<subseteq> M x" for x
    using assms(1) by (simp_all add: inbox_ok_def)
  then show "inbox_ok M h'" "length ms \<le> n" "set ms \<subseteq> M t"
    using eq by (auto simp: inbox_ok_def dest!: in_set_takeD in_set_dropD intro: le_trans [OF diff_le_self])
qed

lemma msgs_of_simps [simp]:
  "msgs_of marshal (st\<lparr>ps_broker := h\<rparr>) = msgs_of marshal st"
  "msgs_of marshal (st\<lparr>ps_workers := ws\<rparr>) = msgs_of marshal st"
  "msgs_of marshal (st\<lparr>ps_posts := ps\<rparr>) = msgs_of marshal st"
  by (simp_all add: msgs_of_def fun_eq_iff)

lemma sys_publish_inv:
  assumes "pub_inv marshal st"
  shows "pub_inv marshal (sys_publish marshal found topic msg st)"
proof -
  let ?st = "sys_publish marshal found topic msg st"
  have mono: "msgs_of marshal st \<le> msgs_of marshal ?st"
    by (auto simp: le_fun_def msgs_of_def sys_publish_def case_prod_beta Let_def)
  have "inbox_ok (msgs_of marshal ?st) (ps_broker ?st)"
  proof (cases "marshal (pub_message topic msg)")
    case (Inl e)
    then have "ps_broker ?st = ps_broker st" by (simp add: sys_publish_def hb_Publish_def)
    then show ?thesis using assms pub_inv_mono(1) [OF mono, of "ps_broker st"] by (simp add: pub_inv_def)
  next
    case (Inr b)
    have "b \<in> msgs_of marshal ?st topic" using Inr by (auto simp: msgs_of_def sys_publish_def case_prod_beta Let_def)
    moreover have "inbox_ok (msgs_of marshal ?st) (ps_broker st)" using assms pub_inv_mono(1) [OF mono, of "ps_broker st"] by (simp add: pub_inv_def)
    moreover have "ps_broker ?st = saveMessage topic b (ps_broker st)" using Inr by (simp add: sys_publish_def hb_Publish_def)
    ultimately show ?thesis by (simp add: inbox_ok_save)
  qed
  moreover have "list_all (worker_ok (msgs_of marshal ?st)) (ps_workers st)" "list_all (post_ok (msgs_of marshal ?st)) (ps_posts st)"
    using assms pub_inv_mono(2,3) [OF mono] by (auto simp: pub_inv_def list_all_iff)
  ultimately show ?thesis
    unfolding pub_inv_def by (auto simp: sys_publish_def case_prod_beta Let_def list_all_iff worker_ok_def split: sum.splits)
qed

lemma sys_take_inv:
  assumes "pub_inv marshal st" and "i < length (ps_workers st)"
  shows "pub_inv marshal (sys_take i st)"
proof -
  let ?wk = "ps_workers st ! i"
  obtain ms h where g: "getMessage (pw_topic ?wk) 8 (ps_broker st) = (ms, h)" by (cases "getMessage (pw_topic ?wk) 8 (ps_broker st)")
  have "inbox_ok (msgs_of marshal st) (ps_broker st)" using assms(1) by (simp add: pub_inv_def)
  note taken = inbox_ok_take [OF this g]
  then show ?thesis
    using assms g by (auto simp: pub_inv_def sys_take_def list_all_iff worker_ok_def dest!: set_update_subset_insert [THEN subsetD])
qed

lemma srv_keeps:
  assumes "inbox_ok M h" and "b \<in> M topic" and "srv post rnd topic services b (h, w, []) = (h', w', log)"
  shows "inbox_ok M h' \<and> list_all (\<lambda>(n, _). post_ok M (topic, n, b)) log"
proof -
  have "length (at_key (hb_inbox h) topic) \<le> 64" using assms(1) by (simp add: inbox_ok_def)
  from srv_logs [OF this, of post rnd services b w "[]"] obtain logs where
    logs: "log = concat logs" "list_all2 (served topic) services logs"
      "\<forall>t. at_key (hb_inbox h') t = (if t = topic then take 64 (at_key (hb_inbox h) topic @ replicate (length (filter failed logs)) b)
                                else at_key (hb_inbox h) t)"
    using assms(3) by auto
  have "inbox_ok M h'"
    using assms(1,2) logs(3) by (fastforce simp: inbox_ok_def simp del: take_append dest!: in_set_takeD split: if_splits)
  moreover have "post_ok M (topic, n, b)" if "(n, ok) \<in> set log" for n ok
  proof -
    obtain l where l: "l \<in> set logs" "(n, ok) \<in> set l" using \<open>(n, ok) \<in> set log\<close> logs(1) by auto
    then obtain s where "served topic s l" using logs(2) by (auto simp: list_all2_conv_all_nth in_set_conv_nth)
    from topic_nodes_topic [OF served_nodes [OF this l(2)]] assms(2) show ?thesis by (simp add: post_ok_def)
  qed
  ultimately show ?thesis by (auto simp: list_all_iff)
qed

lemma sys_send_inv:
  assumes "pub_inv marshal st" and "i < length (ps_workers st)" and "pw_messages (ps_workers st ! i) = Some (b # bs)"
  shows "pub_inv marshal (sys_send post rnd w i b bs st)"
proof -
  let ?wk = "ps_workers st ! i" let ?M = "msgs_of marshal st"
  obtain h w' log where r: "srv post rnd (pw_topic ?wk) (pw_services ?wk) b (ps_broker st, w, []) = (h, w', log)"
    by (metis prod_cases3)
  have wk: "worker_ok ?M ?wk" using assms(1,2) by (auto simp: pub_inv_def list_all_length)
  then have b: "b \<in> ?M (pw_topic ?wk)" and bs: "worker_ok ?M (?wk\<lparr>pw_messages := Some bs\<rparr>)"
    using assms(3) by (auto simp: worker_ok_def)
  have "inbox_ok ?M (ps_broker st)" using assms(1) by (simp add: pub_inv_def)
  from srv_keeps [where M = ?M, OF this b r] show ?thesis
    using assms(1) r bs
    by (auto simp: pub_inv_def sys_send_def list_all_iff Let_def dest!: set_update_subset_insert [THEN subsetD])
qed

lemma pub_reachable_inv: "pub_reachable marshal h st \<Longrightarrow> pub_inv marshal st"
proof (induction rule: pub_reachable.induct)
  case init
  then show ?case by (simp add: pub_inv_def inbox_ok_def at_key_def)
next
  case (step st st')
  from step(2,3) show ?case
    by (induction rule: pub_step.induct) (blast intro: sys_publish_inv sys_take_inv sys_send_inv)+
qed


section \<open>Subscriptions and the registry\<close>

definition sub_ids :: "'f httpBroker \<Rightarrow> (string \<times> string \<times> string) set" where
  "sub_ids h = (\<Union>s \<in> set (all_subs h). service_ids (hs_svc s))"

definition sub_ok :: "'f httpSubscriber \<Rightarrow> bool" where
  "sub_ok s \<longleftrightarrow> sv_Name (hs_svc s) = serviceName \<and> list_all (\<lambda>n. nd_md n \<noteq> []) (sv_Nodes (hs_svc s))"

definition subs_ok :: "'f httpBroker \<Rightarrow> bool" where
  "subs_ok h \<longleftrightarrow> go_map (hb_subscribers h) \<and> list_all (\<lambda>(t, subs). list_all (\<lambda>s. hs_topic s = t \<and> sub_ok s \<and> hs_ptr s < hb_alloc h) subs) (hb_subscribers h) \<and>
     inj_on hs_ptr (set (all_subs h))"

lemma service_ids_name: "t \<in> service_ids s \<Longrightarrow> fst t = sv_Name s"
  by (auto simp: service_ids_def)

lemma subs_ok_sub: "subs_ok h \<Longrightarrow> s \<in> set (all_subs h) \<Longrightarrow> sub_ok s"
  by (fastforce simp: subs_ok_def all_subs_def list_all_iff)

lemma subs_ok_ptr: "subs_ok h \<Longrightarrow> s \<in> set (all_subs h) \<Longrightarrow> hs_ptr s < hb_alloc h"
  by (fastforce simp: subs_ok_def all_subs_def list_all_iff)

lemma sub_ids_name: "subs_ok h \<Longrightarrow> t \<in> sub_ids h \<Longrightarrow> fst t = serviceName"
  unfolding sub_ids_def using subs_ok_sub service_ids_name by (fastforce simp: sub_ok_def)

lemma set_update_eq: "go_map m \<Longrightarrow> set (AList.update k v m) = insert (k, v) {p \<in> set m. fst p \<noteq> k}"
  by (induction m) (auto simp: rev_image_eqI)

lemma subs_ok_topic: "subs_ok h \<Longrightarrow> (t, subs) \<in> set (hb_subscribers h) \<Longrightarrow> s \<in> set subs \<Longrightarrow> hs_topic s = t"
  by (fastforce simp: subs_ok_def list_all_iff)

lemma at_key_subs:
  assumes "subs_ok h"
  shows "set (at_key (hb_subscribers h) t) = {s \<in> set (all_subs h). hs_topic s = t}"
proof -
  have "map_of (hb_subscribers h) t = Some subs \<longleftrightarrow> (t, subs) \<in> set (hb_subscribers h)" for subs
    using assms by (simp add: subs_ok_def go_map_def)
  then show ?thesis
    using subs_ok_topic [OF assms] by (force simp: at_key_def all_subs_def split: option.splits dest: map_of_eq_None_iff [THEN iffD1])
qed

lemma all_subs_update:
  assumes "subs_ok h"
  shows "set (all_subs (h\<lparr>hb_subscribers := AList.update t subs (hb_subscribers h)\<rparr>)) =
    set subs \<union> {s \<in> set (all_subs h). hs_topic s \<noteq> t}"
proof -
  have "go_map (hb_subscribers h)" using assms by (simp add: subs_ok_def)
  then show ?thesis
    using subs_ok_topic [OF assms] by (auto simp: all_subs_def set_update_eq)
qed

lemma unsubscribe_loop_eq:
  "unsubscribe_loop deregister p subs m =
     (filter (\<lambda>s. hs_ptr s \<noteq> p) subs, foldl (\<lambda>m s. deregister s m) m (map hs_svc (filter (\<lambda>s. hs_ptr s = p) subs)))"
  by (induction subs arbitrary: m) auto

lemma subs_ok_cong:
  "hb_subscribers h' = hb_subscribers h \<Longrightarrow> hb_alloc h' = hb_alloc h \<Longrightarrow> subs_ok h' = subs_ok h \<and> all_subs h' = all_subs h"
  by (simp add: subs_ok_def all_subs_def)

lemma hb_Connect_keeps [simp]:
  "hb_subscribers (snd (hb_Connect env bind h)) = hb_subscribers h" "hb_alloc (snd (hb_Connect env bind h)) = hb_alloc h"
  by (simp_all add: hb_Connect_def split: sum.split)

lemma hb_Init_keeps [simp]:
  "hb_subscribers (snd (hb_Init uuid addrs secure h)) = hb_subscribers h" "hb_alloc (snd (hb_Init uuid addrs secure h)) = hb_alloc h"
  by (simp_all add: hb_Init_def Let_def)

text \<open>A new subscription.\<close>

lemma hb_Subscribe_ok:
  assumes ok: "subs_ok h" and r: "hb_Subscribe env register c topic queue fn h m = Inr (s, h', m')"
  shows "subs_ok h'" and "set (all_subs h') = insert s (set (all_subs h))" and "register c (hs_svc s) m = Inr m'" and "sub_ok s"
    and "hs_topic s = topic" and "hs_fn s = fn" and "at_key (hb_subscribers h') topic = at_key (hb_subscribers h) topic @ [s]"
proof -
  obtain addr port where split: "SplitHostPort (hb_address h) = Inr (fst port, snd port)" "addr_Extract env (fst port) = Inr addr"
    using r by (auto simp: hb_Subscribe_def split: sum.splits prod.splits)
  define node where "node = sub_node env topic addr (snd port) h"
  have s: "s = \<lparr>hs_ptr = hb_alloc h, hs_id = nd_Id node, hs_topic = topic, hs_queue = queue, hs_fn = fn, hs_svc = sub_service queue node\<rparr>"
      and node: "nd_md node \<noteq> []"
      and reg: "register c (hs_svc s) m = Inr m'"
      and h': "h' = h\<lparr>hb_alloc := hb_alloc h + 1, hb_subscribers := AList.update topic (at_key (hb_subscribers h) topic @ [s]) (hb_subscribers h)\<rparr>"
    using r split
    by (auto simp: hb_Subscribe_def hb_subscribe_def Let_def node_def split: sum.splits prod.splits) (simp add: sub_node_def nd_md_def)
  show "register c (hs_svc s) m = Inr m'" by (rule reg)
  show sub: "sub_ok s" using node s by (simp add: sub_ok_def sub_service_def)
  show "hs_topic s = topic" "hs_fn s = fn" "at_key (hb_subscribers h') topic = at_key (hb_subscribers h) topic @ [s]"
    by (simp_all add: s h')
  have "all_subs h' = all_subs (h\<lparr>hb_subscribers := AList.update topic (at_key (hb_subscribers h) topic @ [s]) (hb_subscribers h)\<rparr>)"
    by (simp add: h' all_subs_def)
  then show set: "set (all_subs h') = insert s (set (all_subs h))"
    using all_subs_update [OF ok] at_key_subs [OF ok] by auto
  have "inj_on hs_ptr (set (all_subs h'))"
    unfolding set using ok subs_ok_ptr [OF ok] by (fastforce simp: subs_ok_def s)
  moreover have "list_all (\<lambda>(t, subs). list_all (\<lambda>s. hs_topic s = t \<and> sub_ok s \<and> hs_ptr s < hb_alloc h') subs) (hb_subscribers h')"
    using ok sub at_key_subs [OF ok] subs_ok_sub [OF ok] subs_ok_ptr [OF ok]
    by (fastforce simp: h' s subs_ok_def set_update_eq list_all_iff less_Suc_eq)
  ultimately show "subs_ok h'" using ok by (simp add: subs_ok_def h' go_map_update)
qed


lemma hb_Subscribe_node:
  assumes "hb_Subscribe env register c topic queue fn h m = Inr (s, h', m')"
  shows "\<exists>node. hs_svc s = sub_service queue node \<and> hs_id s = nd_Id node \<and> topic_nodes topic (hs_svc s) = [node]"
  using assms
  by (auto simp: hb_Subscribe_def hb_subscribe_def Let_def topic_nodes_def sub_service_def sub_node_def nd_md_def md_at_def split: sum.splits prod.splits)

text \<open>An unsubscription takes out the subscription with the pointer.\<close>

lemma hb_unsubscribe_ok:
  assumes ok: "subs_ok h" and r: "hb_unsubscribe deregister s h m = (h', m')"
  shows "subs_ok h'" and "set (all_subs h') = {x \<in> set (all_subs h). \<not> (hs_topic x = hs_topic s \<and> hs_ptr x = hs_ptr s)}"
    and "m' = foldl (\<lambda>m s. deregister s m) m (map hs_svc (filter (\<lambda>x. hs_ptr x = hs_ptr s) (at_key (hb_subscribers h) (hs_topic s))))"
proof -
  let ?keep = "filter (\<lambda>x. hs_ptr x \<noteq> hs_ptr s) (at_key (hb_subscribers h) (hs_topic s))"
  have h': "h' = h\<lparr>hb_subscribers := AList.update (hs_topic s) ?keep (hb_subscribers h)\<rparr>"
    and m': "m' = foldl (\<lambda>m s. deregister s m) m (map hs_svc (filter (\<lambda>x. hs_ptr x = hs_ptr s) (at_key (hb_subscribers h) (hs_topic s))))"
    using r by (auto simp: hb_unsubscribe_def unsubscribe_loop_eq)
  show "m' = foldl (\<lambda>m s. deregister s m) m (map hs_svc (filter (\<lambda>x. hs_ptr x = hs_ptr s) (at_key (hb_subscribers h) (hs_topic s))))"
    by (rule m')
  show set: "set (all_subs h') = {x \<in> set (all_subs h). \<not> (hs_topic x = hs_topic s \<and> hs_ptr x = hs_ptr s)}"
    unfolding h' all_subs_update [OF ok] using at_key_subs [OF ok, of "hs_topic s"] by auto
  have "inj_on hs_ptr (set (all_subs h'))" unfolding set using ok by (auto simp: subs_ok_def inj_on_def)
  moreover have "list_all (\<lambda>(t, subs). list_all (\<lambda>s. hs_topic s = t \<and> sub_ok s \<and> hs_ptr s < hb_alloc h') subs) (hb_subscribers h')"
    using ok at_key_subs [OF ok, of "hs_topic s"] subs_ok_sub [OF ok] subs_ok_ptr [OF ok]
    by (auto simp: h' subs_ok_def set_update_eq list_all_iff)
  ultimately show "subs_ok h'" using ok by (simp add: subs_ok_def h' go_map_update)
qed

definition svcs_ids :: "service list \<Rightarrow> (string \<times> string \<times> string) set" where
  "svcs_ids ss = (\<Union>s \<in> set ss. service_ids s)"

lemma sub_ids_svcs: "sub_ids h = svcs_ids (map hs_svc (all_subs h))"
  by (simp add: sub_ids_def svcs_ids_def)

context service_registry
begin

lemma try_register_ok:
  assumes "inv m" and "list_all (\<lambda>n. nd_md n \<noteq> []) (sv_Nodes s)"
  shows "inv (try_register register c m s) \<and> registered (try_register register c m s) = registered m \<union> service_ids s"
proof -
  obtain m' where m': "register c s m = Inr m'" "inv m'" using register_returns [OF assms(1)] by blast
  then show ?thesis
    using register_bounds [OF assms(1) m'(1)] register_complete [OF assms(1) m'(1) assms(2)] by (auto simp: try_register_def)
qed

lemma register_all:
  "inv m \<Longrightarrow> list_all (\<lambda>s. list_all (\<lambda>n. nd_md n \<noteq> []) (sv_Nodes s)) ss \<Longrightarrow>
     inv (foldl (try_register register c) m ss) \<and> registered (foldl (try_register register c) m ss) = registered m \<union> svcs_ids ss"
proof (induction ss arbitrary: m)
  case Nil
  then show ?case by (simp add: svcs_ids_def)
next
  case (Cons s ss)
  then show ?case using try_register_ok [of m s c] by (auto simp: svcs_ids_def)
qed

lemma deregister_all:
  "inv m \<Longrightarrow> inv (foldl (\<lambda>m s. deregister s m) m ss) \<and> registered (foldl (\<lambda>m s. deregister s m) m ss) = registered m - svcs_ids ss"
  by (induction ss arbitrary: m) (auto simp: svcs_ids_def deregister_inv deregister_exact)

lemma heartbeat_registers:
  "inv m \<Longrightarrow> subs_ok h \<Longrightarrow>
     inv (hb_heartbeat register c h m) \<and> registered (hb_heartbeat register c h m) = registered m \<union> sub_ids h"
  unfolding hb_heartbeat_def sub_ids_svcs
  by (rule register_all) (use subs_ok_sub in \<open>auto simp: list_all_iff sub_ok_def\<close>)

lemma exit_deregisters:
  "inv m \<Longrightarrow> inv (hb_exit deregister h m) \<and> registered (hb_exit deregister h m) = registered m - sub_ids h"
  unfolding hb_exit_def sub_ids_svcs by (rule deregister_all)

lemma Subscribe_registers:
  assumes "inv m" and "subs_ok h" and "hb_Subscribe env register c topic queue fn h m = Inr (s, h', m')"
  shows "inv m' \<and> registered m' = registered m \<union> service_ids (hs_svc s) \<and> sub_ids h' = sub_ids h \<union> service_ids (hs_svc s)"
proof -
  note new = hb_Subscribe_ok [OF assms(2,3)]
  have "inv m'" using register_returns [OF assms(1), of c "hs_svc s"] new(3) by auto
  moreover have "registered m' = registered m \<union> service_ids (hs_svc s)"
    using register_bounds [OF assms(1) new(3)] register_complete [OF assms(1) new(3)] new(4) by (auto simp: sub_ok_def)
  ultimately show ?thesis using new(2) by (auto simp: sub_ids_def)
qed

lemma unsubscribe_deregisters:
  assumes "inv m" and "subs_ok h" and "hb_unsubscribe deregister s h m = (h', m')"
  shows "inv m' \<and> subs_ok h' \<and> registered m \<subseteq> registered m' \<union> sub_ids h \<and> registered m' \<subseteq> registered m \<and>
    registered m' \<inter> sub_ids h \<subseteq> sub_ids h'"
proof -
  let ?gone = "map hs_svc (filter (\<lambda>x. hs_ptr x = hs_ptr s) (at_key (hb_subscribers h) (hs_topic s)))"
  note un = hb_unsubscribe_ok [OF assms(2,3)]
  have "inv m' \<and> registered m' = registered m - svcs_ids ?gone"
    unfolding un(3) by (rule deregister_all [OF assms(1)])
  moreover have "svcs_ids ?gone = (\<Union>x \<in> {x \<in> set (all_subs h). hs_topic x = hs_topic s \<and> hs_ptr x = hs_ptr s}. service_ids (hs_svc x))"
    using at_key_subs [OF assms(2), of "hs_topic s"] by (auto simp: svcs_ids_def)
  ultimately show ?thesis using un(1,2) by (auto simp: sub_ids_def)
qed

lemma unsubscribe_exact:
  assumes "inv m" and "subs_ok h" and "hb_unsubscribe deregister s h m = (h', m')" and s: "s \<in> set (all_subs h)"
  shows "registered m' = registered m - service_ids (hs_svc s) \<and> set (all_subs h') = set (all_subs h) - {s}"
proof -
  let ?gone = "filter (\<lambda>x. hs_ptr x = hs_ptr s) (at_key (hb_subscribers h) (hs_topic s))"
  note un = hb_unsubscribe_ok [OF assms(2,3)]
  have inj: "x = s" if "x \<in> set (all_subs h)" "hs_ptr x = hs_ptr s" for x
    using that s assms(2) by (auto simp: subs_ok_def inj_on_def)
  have "set ?gone = {s}" using at_key_subs [OF assms(2), of "hs_topic s"] s inj by auto
  then have "svcs_ids (map hs_svc ?gone) = service_ids (hs_svc s)" by (simp add: svcs_ids_def)
  moreover have "registered m' = registered m - svcs_ids (map hs_svc ?gone)"
    using deregister_all [OF assms(1), of "map hs_svc ?gone"] un(3) by simp
  ultimately show ?thesis using un(2) inj s by auto
qed

text \<open>
  Two subscriptions of one broker to one topic and queue are the same node, so that the end of one of them deregisters the node while
  the other is still there: it gets no messages until the next heartbeat.
\<close>

lemma unsubscribe_silences_other:
  assumes "inv m" and "subs_ok h" and "hb_Subscribe env register c topic queue fn h m = Inr (s1, h1, m1)"
    and "hb_Subscribe env register c' topic queue fn' h1 m1 = Inr (s2, h2, m2)" and "hb_unsubscribe deregister s1 h2 m2 = (h3, m3)"
  shows "s2 \<in> set (all_subs h3) \<and> registered m3 \<inter> service_ids (hs_svc s2) = {}"
proof -
  note new1 = hb_Subscribe_ok [OF assms(2,3)] and new2 = hb_Subscribe_ok [OF _ assms(4)]
  have m: "inv m1" "inv m2"
    using Subscribe_registers [OF assms(1-3)] Subscribe_registers [OF _ new1(1) assms(4)] by auto
  have same: "hs_svc s1 = hs_svc s2 \<and> hs_ptr s1 \<noteq> hs_ptr s2"
    using assms(3,4)
    by (auto simp: hb_Subscribe_def hb_subscribe_def Let_def sub_node_def split: sum.splits prod.splits)
  have "s1 \<in> set (all_subs h2)" using new1(2) new2(2) [OF new1(1)] by simp
  from unsubscribe_exact [OF m(2) new2(1) [OF new1(1)] assms(5) this] show ?thesis
    using same new2(2) [OF new1(1)] by auto
qed

text \<open>
  One step of a broker: nothing of its service stays registered without a subscription, and what other services registered
  is left alone.
\<close>

lemma hb_step_registered:
  assumes "hb_step env register deregister st st'" and "inv (snd st)" and "subs_ok (fst st)" and "registered (snd st) \<subseteq> R \<union> sub_ids (fst st)"
  shows "inv (snd st') \<and> subs_ok (fst st') \<and> registered (snd st') \<subseteq> R \<union> sub_ids (fst st') \<and>
    (\<forall>t. fst t \<noteq> serviceName \<longrightarrow> (t \<in> registered (snd st') \<longleftrightarrow> t \<in> registered (snd st)))"
  using assms
proof (induction rule: hb_step.induct)
  case (subscribe c topic queue fn h m s h' m')
  note new = hb_Subscribe_ok [OF _ subscribe(1)]
  have "fst t = serviceName" if "t \<in> service_ids (hs_svc s)" for t
    using service_ids_name [OF that] new(4) subscribe.prems by (simp add: sub_ok_def)
  then show ?case using Subscribe_registers [OF _ _ subscribe(1)] new(1) subscribe.prems by auto
next
  case (unsubscribe h m s)
  obtain h' m' where r: "hb_unsubscribe deregister s h m = (h', m')" by (cases "hb_unsubscribe deregister s h m")
  then show ?case
    using unsubscribe_deregisters [OF _ _ r] sub_ids_name [of h] unsubscribe.prems by fastforce
next
  case (heartbeat h m c)
  then show ?case using heartbeat_registers [of m h c] sub_ids_name [of h] by auto
next
  case (connect h m bind)
  then show ?case using subs_ok_cong [of "snd (hb_Connect env bind h)" h] by (simp add: sub_ids_def)
next
  case (disconnect h m closed)
  let ?h = "h\<lparr>hb_running := False, hb_addrs := [hb_bound h], hb_address := hb_bound h\<rparr>"
  have "subs_ok ?h = subs_ok h" "sub_ids ?h = sub_ids h" using subs_ok_cong [of ?h h] by (simp_all add: sub_ids_def)
  then show ?case
    using disconnect exit_deregisters [of m h] sub_ids_name [of h] by (auto simp: hb_Disconnect_def)
next
  case (init h m uuid addrs secure)
  then show ?case using subs_ok_cong [of "snd (hb_Init uuid addrs secure h)" h] by (simp add: sub_ids_def)
qed

lemma hb_steps_registered:
  assumes "(hb_step env register deregister)\<^sup>*\<^sup>* (h0, m0) st" and "inv m0" and "subs_ok h0" and "registered m0 \<subseteq> R \<union> sub_ids h0"
  shows "inv (snd st) \<and> subs_ok (fst st) \<and> registered (snd st) \<subseteq> R \<union> sub_ids (fst st) \<and>
    (\<forall>t. fst t \<noteq> serviceName \<longrightarrow> (t \<in> registered (snd st) \<longleftrightarrow> t \<in> registered m0))"
  using assms(1)
proof (induction rule: rtranclp_induct)
  case base
  then show ?case using assms(2-) by simp
next
  case (step st st')
  then show ?case using hb_step_registered [OF step(2), of R] by simp
qed

end

lemma subs_ok_new: "subs_ok (newHttpBroker uuid addrs secure)"
  by (simp add: subs_ok_def newHttpBroker_def all_subs_def)


section \<open>A sample broker\<close>

definition sample_net :: net_env where
  "sample_net = \<lparr>ne_Interfaces = Inr [], ne_ParseIP = Some, ne_privateBlocks = []\<rparr>"

definition sample_broker :: "nat httpBroker" where
  "sample_broker = newHttpBroker ''b'' [''h:1''] False"

abbreviation mem_register :: "int \<times> int \<Rightarrow> service \<Rightarrow> memRegistry \<Rightarrow> registry_error + memRegistry" where
  "mem_register \<equiv> \<lambda>(now, ttl). Register now ttl"

definition empty_reg :: memRegistry where
  "empty_reg = \<lparr>mr_records = [], mr_watchers = [], mr_events = []\<rparr>"

lemma empty_reg_ok [simp]: "mem_inv empty_reg" "registered empty_reg = {}"
proof -
  have "mem_reachable empty_reg"
    unfolding empty_reg_def by (rule reach_new [of 0 None]) (simp add: NewMemoryRegistry_def getServiceRecords_def)
  then show "mem_inv empty_reg" by (rule mem_reachable_inv)
  show "registered empty_reg = {}" by (simp add: empty_reg_def registered_def version_ids_def GetService_def)
qed

definition sample_node :: "string \<Rightarrow> node" where
  "sample_node topic = sub_node sample_net topic ''h'' ''1'' sample_broker"

definition sample_sub :: "nat \<Rightarrow> string \<Rightarrow> nat httpSubscriber" where
  "sample_sub p topic = \<lparr>hs_ptr = p, hs_id = topic @ ''-b'', hs_topic = topic, hs_queue = [], hs_fn = p, hs_svc = sub_service [] (sample_node topic)\<rparr>"

definition sample_broker1 :: "nat httpBroker" where
  "sample_broker1 = sample_broker\<lparr>hb_alloc := 1, hb_subscribers := [(''t'', [sample_sub 0 ''t''])]\<rparr>"

definition sample_reg :: memRegistry where
  "sample_reg = (case Register 0 0 (sub_service [] (sample_node ''t'')) empty_reg of Inl _ \<Rightarrow> empty_reg | Inr m \<Rightarrow> m)"

lemma sample_subscribes:
  "hb_Subscribe sample_net mem_register (0, 0) ''t'' [] 0 sample_broker empty_reg = Inr (sample_sub 0 ''t'', sample_broker1, sample_reg)"
proof -
  obtain m where m: "Register 0 0 (sub_service [] (sample_node ''t'')) empty_reg = Inr m"
    using mem.register_returns [OF empty_reg_ok(1), of "(0, 0)"] by auto
  have "SplitHostPort (hb_address sample_broker) = Inr (''h'', ''1'')" by code_simp
  moreover have "addr_Extract sample_net ''h'' = Inr ''h''" by code_simp
  moreover have "sub_node sample_net ''t'' ''h'' ''1'' sample_broker = sample_node ''t''" by (simp add: sample_node_def)
  moreover have "nd_Id (sample_node ''t'') = ''t-b''" by code_simp
  ultimately show ?thesis
    using m by (simp add: hb_Subscribe_def hb_subscribe_def Let_def sample_reg_def sample_broker1_def sample_sub_def)
      (simp add: sample_broker_def newHttpBroker_def at_key_def)
qed

section \<open>Properties\<close>

text \<open>
  C9.  A published message is delivered: with nothing waiting for the topic, \<open>Publish\<close> succeeds and its goroutine sends the message once
  to every node of the topic that subscribed without a queue and to exactly one node of each queue, and of nothing else;
  for every service none of whose nodes could be reached the message is back in the inbox, to go out with the
  next publication.  On the receiving side, a broker that subscribed to the topic answers a request with the id of
  the subscription by running its handler on the message.
\<close>

theorem publication_delivered:
  fixes unmarshal :: "bytes \<Rightarrow> string + bmsg"
  assumes "marshal (pub_message topic msg) = Inr b" and "unmarshal b = Inr (pub_message topic msg)" and "topic \<noteq> []"
    and "at_key (hb_inbox h) topic = []" and "subs_ok hB"
    and "hb_Subscribe env register c topic queue fn hB m = Inr (s, hB', m')"
  shows "(\<exists>h1 h2 w' logs. hb_Publish marshal (Inr services) topic msg h = (Inr services, h1) \<and>
      pub_worker post rnd topic services h1 w = (h2, w', concat logs) \<and> list_all2 (served topic) services logs \<and>
      at_key (hb_inbox h2) topic = take 64 (replicate (length (filter failed logs)) b)) \<and>
    map nd_Id (topic_nodes topic (hs_svc s)) = [hs_id s] \<and>
    fst (ServeHTTP unmarshal \<lparr>hr_Method = ''POST'', hr_Body = Inr b, hr_id = hs_id s\<rparr> hB') = 200 \<and>
    (fn, topic, pub_message topic msg) \<in> set (snd (ServeHTTP unmarshal \<lparr>hr_Method = ''POST'', hr_Body = Inr b, hr_id = hs_id s\<rparr> hB'))"
proof (intro conjI)
  let ?h1 = "saveMessage topic b h"
  obtain ms h2 where g: "getMessage topic 8 ?h1 = (ms, h2)" by (cases "getMessage topic 8 ?h1")
  have ms: "ms = [b]" and empty: "at_key (hb_inbox h2) topic = []" using getMessage_eq [OF g] assms(4) by auto
  from srv_logs [of h2 topic post rnd services b w "[]"] empty obtain h3 w3 logs where
    "srv post rnd topic services b (h2, w, []) = (h3, w3, concat logs)" "list_all2 (served topic) services logs"
    "at_key (hb_inbox h3) topic = take 64 (replicate (length (filter failed logs)) b)" by auto
  then show "\<exists>h1 h2 w' logs. hb_Publish marshal (Inr services) topic msg h = (Inr services, h1) \<and>
      pub_worker post rnd topic services h1 w = (h2, w', concat logs) \<and> list_all2 (served topic) services logs \<and>
      at_key (hb_inbox h2) topic = take 64 (replicate (length (filter failed logs)) b)"
    using assms(1) g ms by (intro exI [of _ ?h1] exI [of _ h3] exI [of _ w3] exI [of _ logs]) (simp add: hb_Publish_def pub_worker_def)
  show "map nd_Id (topic_nodes topic (hs_svc s)) = [hs_id s]"
    using hb_Subscribe_node [OF assms(6)] by auto
  have "md_at (bm_Header (pub_message topic msg)) H_Topic = topic" by (simp add: pub_message_def md_at_def)
  then show "fst (ServeHTTP unmarshal \<lparr>hr_Method = ''POST'', hr_Body = Inr b, hr_id = hs_id s\<rparr> hB') = 200"
      "(fn, topic, pub_message topic msg) \<in> set (snd (ServeHTTP unmarshal \<lparr>hr_Method = ''POST'', hr_Body = Inr b, hr_id = hs_id s\<rparr> hB'))"
    using hb_Subscribe_ok(6,7) [OF assms(5,6)] assms(2,3) by (simp_all add: ServeHTTP_def)
qed

definition sample_marshal :: "bmsg \<Rightarrow> string + bytes" where
  "sample_marshal m = (if bm_Header m = [(H_Topic, ''t'')] then Inr (bm_Body m) else Inl [])"

definition sample_unmarshal :: "bytes \<Rightarrow> string + bmsg" where
  "sample_unmarshal b = Inr \<lparr>bm_Header = [(H_Topic, ''t'')], bm_Body = b\<rparr>"

definition sample_bmsg :: bmsg where
  "sample_bmsg = \<lparr>bm_Header = [], bm_Body = [1, 2]\<rparr>"

theorem publication_delivered_witness:
  "\<exists>h1 h2 w' n ok. hb_Publish sample_marshal (Inr [sub_service [] (sample_node ''t'')]) ''t'' sample_bmsg sample_broker = (Inr [sub_service [] (sample_node ''t'')], h1) \<and>
     pub_worker (\<lambda>_ _ w. (True, w)) (\<lambda>w. (0, w)) ''t'' [sub_service [] (sample_node ''t'')] h1 () = (h2, w', [(n, ok)]) \<and> n = sample_node ''t'' \<and>
     (0, ''t'', pub_message ''t'' sample_bmsg) \<in> set (snd (ServeHTTP sample_unmarshal \<lparr>hr_Method = ''POST'', hr_Body = Inr [1, 2], hr_id = ''t-b''\<rparr> sample_broker1))"
proof -
  have "sample_marshal (pub_message ''t'' sample_bmsg) = Inr [1, 2]" "sample_unmarshal [1, 2] = Inr (pub_message ''t'' sample_bmsg)"
    by (simp_all add: sample_marshal_def sample_unmarshal_def pub_message_def sample_bmsg_def map_copy_def)
  moreover have "at_key (hb_inbox sample_broker) ''t'' = []" "subs_ok sample_broker"
    by (simp_all add: sample_broker_def subs_ok_new) (simp add: newHttpBroker_def at_key_def)
  ultimately have delivered: "(\<exists>h1 h2 w' logs. hb_Publish sample_marshal (Inr [sub_service [] (sample_node ''t'')]) ''t'' sample_bmsg sample_broker = (Inr [sub_service [] (sample_node ''t'')], h1) \<and>
      pub_worker (\<lambda>_ _ w. (True, w)) (\<lambda>w. (0, w)) ''t'' [sub_service [] (sample_node ''t'')] h1 () = (h2, w', concat logs) \<and>
      list_all2 (served ''t'') [sub_service [] (sample_node ''t'')] logs) \<and>
    (0, ''t'', pub_message ''t'' sample_bmsg) \<in> set (snd (ServeHTTP sample_unmarshal \<lparr>hr_Method = ''POST'', hr_Body = Inr [1, 2], hr_id = ''t-b''\<rparr> sample_broker1))"
    using publication_delivered [OF _ _ _ _ _ sample_subscribes, of sample_marshal sample_bmsg "[1, 2]" sample_unmarshal sample_broker
        "[sub_service [] (sample_node ''t'')]" "\<lambda>_ _ w. (True, w)" "\<lambda>w. (0, w)" "()"]
    by (auto simp: sample_sub_def)
  moreover have "served ''t'' (sub_service [] (sample_node ''t'')) l \<Longrightarrow> \<exists>ok. l = [(sample_node ''t'', ok)]" for l
  proof -
    assume "served ''t'' (sub_service [] (sample_node ''t'')) l"
    moreover have "sv_Version (sub_service [] (sample_node ''t'')) = broadcastVersion" by code_simp
    moreover have "topic_nodes ''t'' (sub_service [] (sample_node ''t'')) = [sample_node ''t'']" by code_simp
    ultimately show ?thesis by (cases l) (auto simp: served_def)
  qed
  ultimately show ?thesis by (fastforce simp: list_all2_Cons1)
qed

text \<open>
  C13.  Topics stay apart, however publications and their goroutines interleave: every request goes to a node that subscribed over HTTP to the
  topic it was made for and carries a message published on that topic, so that the receiving
  broker runs only handlers subscribed to this topic, on that message; no inbox holds more than 64 messages.
\<close>

theorem topics_isolated:
  fixes st :: "'f pub_sys" and unmarshal :: "bytes \<Rightarrow> string + bmsg" and hB :: "'g httpBroker"
  assumes "pub_reachable marshal h st" and "\<And>m b. marshal m = Inr b \<Longrightarrow> unmarshal b = Inr m"
  shows "list_all (\<lambda>(t, n, b). md_at (nd_md n) ''topic'' = t \<and> md_at (nd_md n) ''broker'' = ''http'' \<and>
      list_ex (\<lambda>(t', msg). t' = t \<and> unmarshal b = Inr (pub_message t msg)) (ps_published st) \<and>
      list_all (\<lambda>(fn, t', m). t' = t \<and> md_at (bm_Header m) H_Topic = t \<and> list_ex (\<lambda>s. hs_fn s = fn \<and> hs_id s = nd_Id n) (at_key (hb_subscribers hB) t))
        (snd (ServeHTTP unmarshal \<lparr>hr_Method = ''POST'', hr_Body = Inr b, hr_id = nd_Id n\<rparr> hB))) (ps_posts st) \<and>
    length (at_key (hb_inbox (ps_broker st)) topic) \<le> 64"
proof
  have inv: "pub_inv marshal st" by (rule pub_reachable_inv [OF assms(1)])
  then show "length (at_key (hb_inbox (ps_broker st)) topic) \<le> 64" by (simp add: pub_inv_def inbox_ok_def)
  have topic: "md_at (bm_Header (pub_message t msg)) H_Topic = t" for t msg by (simp add: pub_message_def md_at_def)
  have posts: "post_ok (msgs_of marshal st) p" if "p \<in> set (ps_posts st)" for p
    using inv that by (auto simp: pub_inv_def list_all_iff)
  show "list_all (\<lambda>(t, n, b). md_at (nd_md n) ''topic'' = t \<and> md_at (nd_md n) ''broker'' = ''http'' \<and>
      list_ex (\<lambda>(t', msg). t' = t \<and> unmarshal b = Inr (pub_message t msg)) (ps_published st) \<and>
      list_all (\<lambda>(fn, t', m). t' = t \<and> md_at (bm_Header m) H_Topic = t \<and> list_ex (\<lambda>s. hs_fn s = fn \<and> hs_id s = nd_Id n) (at_key (hb_subscribers hB) t))
        (snd (ServeHTTP unmarshal \<lparr>hr_Method = ''POST'', hr_Body = Inr b, hr_id = nd_Id n\<rparr> hB))) (ps_posts st)"
    unfolding list_all_iff
  proof (intro ballI, clarify)
    fix t n b
    assume "(t, n, b) \<in> set (ps_posts st)"
    from posts [OF this] obtain msg where msg: "(t, msg) \<in> set (ps_published st)" "unmarshal b = Inr (pub_message t msg)"
      and node: "md_at (nd_md n) ''topic'' = t" "md_at (nd_md n) ''broker'' = ''http''"
      by (auto simp: post_ok_def msgs_of_def assms(2))
    then show "md_at (nd_md n) ''topic'' = t \<and> md_at (nd_md n) ''broker'' = ''http'' \<and>
      list_ex (\<lambda>(t', msg). t' = t \<and> unmarshal b = Inr (pub_message t msg)) (ps_published st) \<and>
      (\<forall>x \<in> set (snd (ServeHTTP unmarshal \<lparr>hr_Method = ''POST'', hr_Body = Inr b, hr_id = nd_Id n\<rparr> hB)).
        case x of (fn, t', m) \<Rightarrow> t' = t \<and> md_at (bm_Header m) H_Topic = t \<and> list_ex (\<lambda>s. hs_fn s = fn \<and> hs_id s = nd_Id n) (at_key (hb_subscribers hB) t))"
      by (auto simp: ServeHTTP_def topic list_ex_iff)
  qed
qed

definition sample_sys :: "nat pub_sys" where
  "sample_sys = sys_send (\<lambda>_ _ w. (True, w)) (\<lambda>w. (0, w)) (0 :: nat) 0 [1, 2] []
     (sys_take 0 (sys_publish sample_marshal (Inr [sub_service [] (sample_node ''t'')]) ''t'' sample_bmsg
       \<lparr>ps_broker = sample_broker, ps_workers = [], ps_posts = [], ps_published = []\<rparr>))"

theorem topics_isolated_witness:
  "ps_posts sample_sys = [(''t'', sample_node ''t'', [1, 2])] \<and> md_at (nd_md (sample_node ''t'')) ''topic'' = ''t'' \<and>
   list_all (\<lambda>(fn, t, m). t = ''t'')
     (snd (ServeHTTP sample_unmarshal \<lparr>hr_Method = ''POST'', hr_Body = Inr [1, 2], hr_id = nd_Id (sample_node ''t'')\<rparr> sample_broker1))"
proof -
  let ?s0 = "\<lparr>ps_broker = sample_broker, ps_workers = [], ps_posts = [], ps_published = []\<rparr>"
  let ?s1 = "sys_publish sample_marshal (Inr [sub_service [] (sample_node ''t'')]) ''t'' sample_bmsg ?s0"
  have "pub_reachable sample_marshal sample_broker ?s0"
    by (rule pub_reachable.init) (simp add: sample_broker_def newHttpBroker_def)
  then have "pub_reachable sample_marshal sample_broker ?s1" by (blast intro: pub_reachable.step pub_step.publish)
  then have "pub_reachable sample_marshal sample_broker (sys_take 0 ?s1)"
    by (rule pub_reachable.step [OF _ pub_step.take_messages]) code_simp+
  then have "pub_reachable sample_marshal sample_broker sample_sys"
    unfolding sample_sys_def by (rule pub_reachable.step [OF _ pub_step.send]) code_simp+
  moreover have "sample_marshal m = Inr b \<Longrightarrow> sample_unmarshal b = Inr m" for m b
    by (auto simp: sample_marshal_def sample_unmarshal_def split: if_splits)
  ultimately have "list_all (\<lambda>(t, n, b). md_at (nd_md n) ''topic'' = t \<and>
      list_all (\<lambda>(fn, t', m). t' = t)
        (snd (ServeHTTP sample_unmarshal \<lparr>hr_Method = ''POST'', hr_Body = Inr b, hr_id = nd_Id n\<rparr> sample_broker1))) (ps_posts sample_sys)"
    using topics_isolated [of sample_marshal sample_broker sample_sys sample_unmarshal sample_broker1]
    by (fastforce simp: list_all_iff)
  moreover have "ps_posts sample_sys = [(''t'', sample_node ''t'', [1, 2])]" by code_simp
  ultimately show ?thesis by simp
qed

text \<open>
  C39.  The registry lists the subscriptions: from a new broker and any sequence of subscriptions, unsubscriptions, heartbeats,
  connections and disconnections over the in-memory registry, every node registered since belongs to a current
  subscription, what other services registered is untouched, a heartbeat
  makes exactly the current subscriptions registered again, disconnecting a running broker takes them all out, and ending a
  subscription removes it and its node only.
\<close>

theorem broker_registrations:
  assumes "(hb_step env mem_register Deregister)\<^sup>*\<^sup>* (newHttpBroker uuid addrs secure, m0) (h, m)" and "mem_inv m0"
  shows "registered m \<subseteq> registered m0 \<union> sub_ids h \<and>
    {t \<in> registered m. fst t \<noteq> serviceName} = {t \<in> registered m0. fst t \<noteq> serviceName} \<and>
    registered (hb_heartbeat mem_register c h m) = registered m \<union> sub_ids h \<and>
    (if hb_running h then registered (snd (snd (hb_Disconnect Deregister closed h m))) = registered m - sub_ids h else True) \<and>
    list_all (\<lambda>s. case hb_unsubscribe Deregister s h m of (h', m') \<Rightarrow>
      registered m' = registered m - service_ids (hs_svc s) \<and> set (all_subs h') = set (all_subs h) - {s}) (all_subs h)"
proof -
  have steps: "mem_inv m \<and> subs_ok h \<and> registered m \<subseteq> registered m0 \<union> sub_ids h \<and>
    (\<forall>t. fst t \<noteq> serviceName \<longrightarrow> (t \<in> registered m \<longleftrightarrow> t \<in> registered m0))"
    using mem.hb_steps_registered [OF assms(1,2) subs_ok_new, of "registered m0"] by simp
  moreover have "registered (hb_heartbeat mem_register c h m) = registered m \<union> sub_ids h"
    using mem.heartbeat_registers steps by blast
  moreover have "registered (hb_exit Deregister h m) = registered m - sub_ids h"
    using mem.exit_deregisters steps by blast
  moreover have "list_all (\<lambda>s. case hb_unsubscribe Deregister s h m of (h', m') \<Rightarrow>
      registered m' = registered m - service_ids (hs_svc s) \<and> set (all_subs h') = set (all_subs h) - {s}) (all_subs h)"
    using mem.unsubscribe_exact [of m h] steps by (auto simp: list_all_iff split: prod.split)
  ultimately show ?thesis by (auto simp: hb_Disconnect_def)
qed

theorem broker_registrations_witness:
  "registered (hb_heartbeat mem_register (0, 0) sample_broker1 sample_reg) = {(serviceName, broadcastVersion, ''t-b'')} \<and>
   registered sample_reg \<subseteq> {(serviceName, broadcastVersion, ''t-b'')}"
proof -
  have "(hb_step sample_net mem_register Deregister)\<^sup>*\<^sup>* (newHttpBroker ''b'' [''h:1''] False, empty_reg) (sample_broker1, sample_reg)"
    using hb_step.subscribe [OF sample_subscribes] by (auto simp: sample_broker_def)
  from broker_registrations [OF this empty_reg_ok(1), of "(0, 0)"]
  have "registered sample_reg \<subseteq> sub_ids sample_broker1"
    "registered (hb_heartbeat mem_register (0, 0) sample_broker1 sample_reg) = registered sample_reg \<union> sub_ids sample_broker1"
    by simp_all
  moreover have "all_subs sample_broker1 = [sample_sub 0 ''t'']" by (simp add: sample_broker1_def all_subs_def)
  then have "sub_ids sample_broker1 = {(serviceName, broadcastVersion, ''t-b'')}"
    by (simp add: sub_ids_def sample_sub_def service_ids_def sub_service_def node_ids_def sample_node_def sub_node_def sample_broker_def newHttpBroker_def)
  ultimately show ?thesis by auto
qed

end
