(* ===== verification/Server_Lifecycle.thy ===== *)
theory Server_Lifecycle
  imports Http_Broker Metadata
begin

text \<open>
  The life of an RPC server: \<open>Register\<close>, \<open>Deregister\<close>, \<open>Start\<close>, \<open>Stop\<close>, \<open>Init\<close>, \<open>Handle\<close>, \<open>Subscribe\<close> and the registrar goroutine of
  \<open>server/rpc_server.go\<close>, \<open>rpc_events.go\<close> and \<open>rpc_helper.go\<close>.

  The registry, the broker and the transport are functions on a state \<open>'w\<close> of the outside world (record \<open>world\<close>); a broker
  subscription is a value of type \<open>'h\<close>.  An operation that can fail returns the error, \<open>None\<close> for nil, and the new
  state.  Which subscribers the router accepts is an argument.  What the contract of the world gives is proved in the locale \<open>server_world\<close>,
  which is interpreted by the HTTP broker on top of the in-memory registry.  The operations of a server are taken one after
  the other: each is one step, although \<open>Register\<close> and \<open>Deregister\<close> release the server's lock around their call of the registry.  This is how
  \<open>Start\<close>, the registrar and \<open>Stop\<close> call them; what a caller of its own can do in between is shown by \<open>overlapping_operations\<close>.
\<close>

section \<open>The outside world\<close>

record ('w, 'h) world =
  wd_net :: net_env
  wd_Register :: "int \<Rightarrow> service \<Rightarrow> 'w \<Rightarrow> string option \<times> 'w"
  wd_Deregister :: "service \<Rightarrow> 'w \<Rightarrow> string option \<times> 'w"
  wd_Subscribe :: "string \<Rightarrow> string \<Rightarrow> bool \<Rightarrow> 'w \<Rightarrow> string + 'h \<times> 'w"
  wd_Unsubscribe :: "'h \<Rightarrow> 'w \<Rightarrow> 'w"
  wd_Connect :: "'w \<Rightarrow> string option \<times> 'w"
  wd_Disconnect :: "'w \<Rightarrow> 'w"
  wd_strings :: "string \<times> string \<times> string"

section \<open>The server\<close>

record options =
  so_Name :: string
  so_Id :: string
  so_Version :: string
  so_Advertise :: string
  so_Address :: string
  so_Metadata :: metadata
  so_Router :: bool
  so_RegisterTTL :: int

record handler =
  hd_Name :: string
  hd_Internal :: bool
  hd_Endpoints :: "endpoint list"

record subscriber =
  sb_ptr :: nat
  sb_Topic :: string
  sb_Queue :: string
  sb_Internal :: bool
  sb_AutoAck :: bool
  sb_Endpoints :: "endpoint list"

text \<open>A nil list of broker subscriptions is the empty list.  \<open>sr_saved\<close> is the address the registrar restores.\<close>

record 'h rpcServer =
  sr_opts :: options
  sr_subscriber :: "'h option"
  sr_handlers :: "(string, handler) go_map"
  sr_subscribers :: "(subscriber, 'h list) go_map"
  sr_router :: "(string, subscriber list) go_map"
  sr_rsvc :: "service option"
  sr_started :: bool
  sr_registered :: bool
  sr_saved :: string

section \<open>What is registered\<close>

definition advertised :: "options \<Rightarrow> string" where
  "advertised cfg = (if so_Advertise cfg \<noteq> [] then so_Advertise cfg else so_Address cfg)"

definition host_port :: "string \<Rightarrow> string + string \<times> string" where
  "host_port advt = (if colon \<in> set advt then SplitHostPort advt else Inr (advt, []))"

definition getAddr :: "net_env \<Rightarrow> options \<Rightarrow> string + string \<times> bool" where
  "getAddr env cfg =
     sum_bind (host_port (advertised cfg)) (\<lambda>(host, port).
       sum_bind (addr_Extract env host) (\<lambda>addr.
         Inr (if port \<noteq> [] then HostPort env addr (PStr port) else addr, ne_ParseIP env host \<noteq> None)))"

definition newNodeMetadata :: "string \<times> string \<times> string \<Rightarrow> string \<Rightarrow> options \<Rightarrow> metadata" where
  "newNodeMetadata names startup cfg =
     (case names of (transport, broker, registry) \<Rightarrow>
        foldl (\<lambda>md (k, v). AList.update k v md) (md_Copy (so_Metadata cfg))
          [(''transport'', transport), (''broker'', broker), (''server'', ''mucp''), (''registry'', registry),
           (''protocol'', ''mucp''), (''startup'', startup)])"

text \<open>Handlers sorted by name, subscribers by topic in descending order; internal ones are left out.\<close>

definition getEndpoints :: "'h rpcServer \<Rightarrow> endpoint list" where
  "getEndpoints s =
     (let handlerList = sort (map fst (filter (\<lambda>(n, e). \<not> hd_Internal e) (sr_handlers s)));
          subscriberList = rev (sort_key sb_Topic (rev (filter (\<lambda>e. \<not> sb_Internal e) (map fst (sr_subscribers s)))))
      in concat (map (\<lambda>n. case map_of (sr_handlers s) n of None \<Rightarrow> [] | Some e \<Rightarrow> hd_Endpoints e) handlerList) @
         concat (map sb_Endpoints subscriberList))"

definition node_id :: "options \<Rightarrow> string" where
  "node_id cfg = so_Name cfg @ ''-'' @ so_Id cfg"

definition reg_service :: "('w, 'h) world \<Rightarrow> string \<Rightarrow> string \<Rightarrow> 'h rpcServer \<Rightarrow> service" where
  "reg_service wd startup addr s =
     (let cfg = sr_opts s
      in \<lparr>sv_Name = so_Name cfg, sv_Version = so_Version cfg, sv_Metadata = [], sv_Endpoints = getEndpoints s,
          sv_Nodes = [\<lparr>nd_Metadata = Some (newNodeMetadata (wd_strings wd) startup cfg), nd_Id = node_id cfg, nd_Address = addr, nd_Port = 0\<rparr>]\<rparr>)"

definition dereg_service :: "string \<Rightarrow> options \<Rightarrow> service" where
  "dereg_service addr cfg =
     \<lparr>sv_Name = so_Name cfg, sv_Version = so_Version cfg, sv_Metadata = [], sv_Endpoints = [],
      sv_Nodes = [\<lparr>nd_Metadata = None, nd_Id = node_id cfg, nd_Address = addr, nd_Port = 0\<rparr>]\<rparr>"

text \<open>\<open>newRegFuc\<close>: up to three attempts.\<close>

fun reg_loop :: "('w, 'h) world \<Rightarrow> int \<Rightarrow> service \<Rightarrow> nat \<Rightarrow> string option \<Rightarrow> 'w \<Rightarrow> string option \<times> 'w" where
  "reg_loop wd ttl service 0 regErr w = (regErr, w)"
| "reg_loop wd ttl service (Suc i) regErr w =
     (case wd_Register wd ttl service w of
        (None, w) \<Rightarrow> (None, w)
      | (Some e, w) \<Rightarrow> reg_loop wd ttl service i (Some e) w)"

definition regFunc :: "('w, 'h) world \<Rightarrow> options \<Rightarrow> service \<Rightarrow> 'w \<Rightarrow> string option \<times> 'w" where
  "regFunc wd cfg service w = reg_loop wd (so_RegisterTTL cfg) service 3 None w"

section \<open>Subscriptions\<close>

text \<open>\<open>router.Subscribe\<close>: \<open>valid\<close> is what the router says to a subscriber.\<close>

definition router_Subscribe ::
  "(subscriber \<Rightarrow> string option) \<Rightarrow> subscriber \<Rightarrow> (string, subscriber list) go_map \<Rightarrow> string option \<times> (string, subscriber list) go_map" where
  "router_Subscribe valid sb r =
     (case valid sb of
        Some e \<Rightarrow> (Some e, r)
      | None \<Rightarrow> (None, AList.update (sb_Topic sb) (at_key r (sb_Topic sb) @ [sb]) r))"

definition server_Subscribe :: "(subscriber \<Rightarrow> string option) \<Rightarrow> subscriber \<Rightarrow> 'h rpcServer \<Rightarrow> string option \<times> 'h rpcServer" where
  "server_Subscribe valid sb s =
     (case router_Subscribe valid sb (sr_router s) of
        (Some e, _) \<Rightarrow> (Some e, s)
      | (None, r) \<Rightarrow> (None, s\<lparr>sr_router := r, sr_subscribers := AList.update sb [] (sr_subscribers s)\<rparr>))"

definition server_Handle :: "(handler \<Rightarrow> string option) \<Rightarrow> handler \<Rightarrow> 'h rpcServer \<Rightarrow> string option \<times> 'h rpcServer" where
  "server_Handle valid h s =
     (case valid h of
        Some e \<Rightarrow> (Some e, s)
      | None \<Rightarrow> (None, s\<lparr>sr_handlers := AList.update (hd_Name h) h (sr_handlers s)\<rparr>))"

definition subscribeServer :: "('w, 'h) world \<Rightarrow> 'h rpcServer \<Rightarrow> 'w \<Rightarrow> string option \<times> 'h rpcServer \<times> 'w" where
  "subscribeServer wd s w =
     (if so_Router (sr_opts s)
      then (case wd_Subscribe wd (so_Name (sr_opts s)) [] True w of
              Inl e \<Rightarrow> (Some e, s, w)
            | Inr (sub, w) \<Rightarrow> (None, s\<lparr>sr_subscriber := Some sub\<rparr>, w))
      else (None, s, w))"

definition resub_one ::
  "('w, 'h) world \<Rightarrow> (subscriber \<Rightarrow> string option) \<Rightarrow> 'h rpcServer \<times> 'w \<Rightarrow> subscriber \<Rightarrow> 'h rpcServer \<times> 'w" where
  "resub_one wd valid st sb =
     (case st of (s, w) \<Rightarrow>
        if at_key (sr_subscribers s) sb \<noteq> [] then (s, w)
        else if list_ex (\<lambda>(other, subs). sb_Topic other = sb_Topic sb \<and> subs \<noteq> []) (sr_subscribers s)
        then (case router_Subscribe valid sb (sr_router s) of
                (Some e, _) \<Rightarrow> (s, w)
              | (None, r) \<Rightarrow> (s\<lparr>sr_router := r, sr_subscribers := AList.update sb [] (sr_subscribers s)\<rparr>, w))
        else (case wd_Subscribe wd (sb_Topic sb) (sb_Queue sb) (sb_AutoAck sb) w of
                Inl e \<Rightarrow> (s, w)
              | Inr (sub, w) \<Rightarrow>
                  (case router_Subscribe valid sb (sr_router s) of
                     (Some e, _) \<Rightarrow> (s, wd_Unsubscribe wd sub w)
                   | (None, r) \<Rightarrow> (s\<lparr>sr_router := r, sr_subscribers := AList.update sb [sub] (sr_subscribers s)\<rparr>, w))))"

definition reSubscribe :: "('w, 'h) world \<Rightarrow> (subscriber \<Rightarrow> string option) \<Rightarrow> 'h rpcServer \<Rightarrow> 'w \<Rightarrow> 'h rpcServer \<times> 'w" where
  "reSubscribe wd valid s w = foldl (resub_one wd valid) (s, w) (map fst (sr_subscribers s))"

section \<open>Register and Deregister\<close>

definition server_Register ::
  "('w, 'h) world \<Rightarrow> (subscriber \<Rightarrow> string option) \<Rightarrow> string \<Rightarrow> 'h rpcServer \<Rightarrow> 'w \<Rightarrow> string option \<times> 'h rpcServer \<times> 'w" where
  "server_Register wd valid startup s w =
     (let cfg = sr_opts s
      in case sr_rsvc s of
           Some rsvc \<Rightarrow>
             (case regFunc wd cfg rsvc w of
                (Some e, w) \<Rightarrow> (Some (''Failed to register service: '' @ e), s, w)
              | (None, w) \<Rightarrow> (None, s, w))
         | None \<Rightarrow>
             (case getAddr (wd_net wd) cfg of
                Inl e \<Rightarrow> (Some e, s, w)
              | Inr (addr, cacheService) \<Rightarrow>
                  (let service = reg_service wd startup addr s
                   in case regFunc wd cfg service w of
                        (Some e, w) \<Rightarrow> (Some (''Failed to register service: '' @ e), s, w)
                      | (None, w) \<Rightarrow>
                          if sr_registered s then (None, s, w)
                          else
                            let s = s\<lparr>sr_registered := True\<rparr>;
                                s = (if cacheService then s\<lparr>sr_rsvc := Some service\<rparr> else s);
                                s = s\<lparr>sr_opts := cfg\<lparr>so_Advertise := addr\<rparr>\<rparr>
                            in case subscribeServer wd s w of
                                 (Some e, s, w) \<Rightarrow> (Some (''Failed to subscribe to service name topic: '' @ e), s, w)
                               | (None, s, w) \<Rightarrow> (case reSubscribe wd valid s w of (s, w) \<Rightarrow> (None, s, w)))))"

definition unsub_all :: "('w, 'h) world \<Rightarrow> 'h list \<Rightarrow> 'w \<Rightarrow> 'w" where
  "unsub_all wd subs w = foldl (\<lambda>w sub. wd_Unsubscribe wd sub w) w subs"

definition release_subs :: "('w, 'h) world \<Rightarrow> 'h rpcServer \<Rightarrow> 'w \<Rightarrow> 'h rpcServer \<times> 'w" where
  "release_subs wd s w =
     (let w = (case sr_subscriber s of None \<Rightarrow> w | Some sub \<Rightarrow> wd_Unsubscribe wd sub w);
          w = unsub_all wd (concat (map snd (sr_subscribers s))) w
      in (s\<lparr>sr_registered := False, sr_subscriber := None, sr_subscribers := map (\<lambda>(sb, _). (sb, [])) (sr_subscribers s)\<rparr>, w))"

definition server_Deregister :: "('w, 'h) world \<Rightarrow> 'h rpcServer \<Rightarrow> 'w \<Rightarrow> string option \<times> 'h rpcServer \<times> 'w" where
  "server_Deregister wd s w =
     (case getAddr (wd_net wd) (sr_opts s) of
        Inl e \<Rightarrow> (Some e, s, w)
      | Inr (addr, _) \<Rightarrow>
          (case wd_Deregister wd (dereg_service addr (sr_opts s)) w of
             (Some e, w) \<Rightarrow> (Some e, s, w)
           | (None, w) \<Rightarrow>
               (let s = s\<lparr>sr_rsvc := None\<rparr>
                in if \<not> sr_registered s then (None, s, w) else (None, release_subs wd s w))))"

section \<open>Start, Stop and the registrar\<close>

text \<open>
  \<open>listen\<close> is the address the transport got; \<open>check\<close> is what \<open>RegisterCheck\<close> returned.  The errors of \<open>Register\<close> are
  only logged.
\<close>

definition server_Start ::
  "('w, 'h) world \<Rightarrow> (subscriber \<Rightarrow> string option) \<Rightarrow> string \<Rightarrow> string + string \<Rightarrow> string option \<Rightarrow> 'h rpcServer \<Rightarrow> 'w \<Rightarrow>
    string option \<times> 'h rpcServer \<times> 'w" where
  "server_Start wd valid startup listen check s w =
     (if sr_started s then (None, s, w)
      else case listen of
        Inl e \<Rightarrow> (Some e, s, w)
      | Inr laddr \<Rightarrow>
          (let addr = so_Address (sr_opts s); s = s\<lparr>sr_opts := (sr_opts s)\<lparr>so_Address := laddr\<rparr>\<rparr>
           in case wd_Connect wd w of
                (Some e, w) \<Rightarrow> (Some e, s, w)
              | (None, w) \<Rightarrow>
                  (let (s, w) = (if check = None then snd (server_Register wd valid startup s w) else (s, w))
                   in (None, s\<lparr>sr_started := True, sr_saved := addr\<rparr>, w))))"

definition registrar_tick ::
  "('w, 'h) world \<Rightarrow> (subscriber \<Rightarrow> string option) \<Rightarrow> string \<Rightarrow> string option \<Rightarrow> 'h rpcServer \<Rightarrow> 'w \<Rightarrow> 'h rpcServer \<times> 'w" where
  "registrar_tick wd valid startup check s w =
     (if check \<noteq> None \<and> \<not> sr_registered s then (s, w)
      else let (s, w) = (if check \<noteq> None then snd (server_Deregister wd s w) else (s, w))
           in snd (server_Register wd valid startup s w))"

definition server_Stop :: "('w, 'h) world \<Rightarrow> string option \<Rightarrow> 'h rpcServer \<Rightarrow> 'w \<Rightarrow> string option \<times> 'h rpcServer \<times> 'w" where
  "server_Stop wd closed s w =
     (if \<not> sr_started s then (None, s, w)
      else let (s, w) = (if sr_registered s then snd (server_Deregister wd s w) else (s, w));
               w = wd_Disconnect wd w
           in (closed, s\<lparr>sr_opts := (sr_opts s)\<lparr>so_Address := sr_saved s\<rparr>, sr_started := False\<rparr>, w))"

definition newRpcServer :: "options \<Rightarrow> 'h rpcServer" where
  "newRpcServer opts =
     \<lparr>sr_opts = opts, sr_subscriber = None, sr_handlers = [], sr_subscribers = [], sr_router = [], sr_rsvc = None,
      sr_started = False, sr_registered = False, sr_saved = []\<rparr>"

text \<open>\<open>Init\<close>: with the default router (no \<open>Router\<close> option) a new one takes over the handlers, not the subscribers.\<close>

definition server_Init :: "(options \<Rightarrow> options) list \<Rightarrow> 'h rpcServer \<Rightarrow> 'h rpcServer" where
  "server_Init opts s =
     (let cfg = foldl (\<lambda>cfg opt. opt cfg) (sr_opts s) opts
      in s\<lparr>sr_opts := cfg, sr_router := (if so_Router cfg then sr_router s else []), sr_rsvc := None\<rparr>)"

section \<open>Invariant\<close>

text \<open>What the server is in the registry, and the broker subscriptions it holds.\<close>

definition ident :: "options \<Rightarrow> string \<times> string \<times> string" where
  "ident cfg = (so_Name cfg, so_Version cfg, node_id cfg)"

definition handles :: "'h rpcServer \<Rightarrow> 'h set" where
  "handles s = set_option (sr_subscriber s) \<union> set (concat (map snd (sr_subscribers s)))"

text \<open>
  The life of a server.  A state has the server and the world, and what only the reasoning needs: what others have
  registered, whether the registry has dropped the server's node since it was last registered, and the broker subscriptions the server has
  lost hold of.  A step is a whole operation of the server (they do not overlap), another order of a map, or something that
  happens in the world meanwhile.  \<open>Init\<close> keeps the name, the id and the version, and the registry and the broker.
\<close>

type_synonym ('w, 'h) life = "('h rpcServer \<times> 'w) \<times> (string \<times> string \<times> string) set \<times> bool \<times> 'h set"

inductive server_op :: "('w, 'h) world \<Rightarrow> (subscriber \<Rightarrow> string option) \<Rightarrow> 'h rpcServer \<times> 'w \<Rightarrow> 'h rpcServer \<times> 'w \<Rightarrow> bool"
  for wd valid where
  register: "server_op wd valid (s, w) (snd (server_Register wd valid startup s w))"
| deregister: "server_op wd valid (s, w) (snd (server_Deregister wd s w))"
| start: "server_op wd valid (s, w) (snd (server_Start wd valid startup listen check s w))"
| tick: "sr_started s \<Longrightarrow> server_op wd valid (s, w) (registrar_tick wd valid startup check s w)"
| stop: "server_op wd valid (s, w) (snd (server_Stop wd closed s w))"
| init: "ident (sr_opts (server_Init opts s)) = ident (sr_opts s) \<Longrightarrow> server_op wd valid (s, w) (server_Init opts s, w)"
| handle: "server_op wd valid (s, w) (snd (server_Handle hvalid h s), w)"
| reorder: "set subs = set (sr_subscribers s) \<Longrightarrow> distinct (map fst subs) \<Longrightarrow> server_op wd valid (s, w) (s\<lparr>sr_subscribers := subs\<rparr>, w)"

inductive life_step ::
  "('w, 'h) world \<Rightarrow> ('w \<Rightarrow> 'w \<Rightarrow> bool) \<Rightarrow> ('w \<Rightarrow> (string \<times> string \<times> string) set) \<Rightarrow> string \<times> string \<times> string \<Rightarrow>
    (subscriber \<Rightarrow> string option) \<Rightarrow> ('w, 'h) life \<Rightarrow> ('w, 'h) life \<Rightarrow> bool"
  for wd elsewhere ids me valid where
  op: "server_op wd valid (s, w) (s', w') \<Longrightarrow>
    life_step wd elsewhere ids me valid ((s, w), R, gone, G) ((s', w'), R, gone \<and> me \<notin> ids w', G)"
| subscribe: "snd (server_Subscribe valid sb s) = s' \<Longrightarrow>
    life_step wd elsewhere ids me valid ((s, w), R, gone, G) ((s', w), R, gone, G \<union> (handles s - handles s'))"
| world: "elsewhere w w' \<Longrightarrow>
    life_step wd elsewhere ids me valid ((s, w), R, gone, G) ((s, w'), ids w' - {me}, (gone \<or> me \<in> ids w) \<and> me \<notin> ids w', G)"

text \<open>No two subscribers hold a broker subscription for the same topic.\<close>

definition topic_once :: "(subscriber, 'h list) go_map \<Rightarrow> bool" where
  "topic_once m \<longleftrightarrow> (\<forall>(sb, subs) \<in> set m. \<forall>(sb', subs') \<in> set m. subs \<noteq> [] \<and> subs' \<noteq> [] \<and> sb_Topic sb = sb_Topic sb' \<longrightarrow> sb = sb') \<and>
     (\<forall>(sb, subs) \<in> set m. length subs \<le> 1)"

text \<open>No broker subscription is held twice.\<close>

definition handles_once :: "'h rpcServer \<Rightarrow> bool" where
  "handles_once s \<longleftrightarrow> (\<forall>(sb, subs) \<in> set (sr_subscribers s). \<forall>(sb', subs') \<in> set (sr_subscribers s). \<forall>h \<in> set subs. h \<in> set subs' \<longrightarrow> sb = sb') \<and>
     (\<forall>(sb, subs) \<in> set (sr_subscribers s). \<forall>h \<in> set subs. sr_subscriber s \<noteq> Some h)"

lemma handles_onceD:
  "handles_once s \<Longrightarrow> (sb, subs) \<in> set (sr_subscribers s) \<Longrightarrow> (sb', subs') \<in> set (sr_subscribers s) \<Longrightarrow> h \<in> set subs \<Longrightarrow> h \<in> set subs' \<Longrightarrow> sb = sb'"
  unfolding handles_once_def by blast

lemma topic_onceD: "topic_once m \<Longrightarrow> (sb, subs) \<in> set m \<Longrightarrow> length subs \<le> 1"
  unfolding topic_once_def by blast

definition svc_of :: "options \<Rightarrow> service \<Rightarrow> bool" where
  "svc_of cfg svc \<longleftrightarrow> sv_Name svc = so_Name cfg \<and> service_ids svc = {ident cfg} \<and> list_all (\<lambda>n. nd_md n \<noteq> []) (sv_Nodes svc)"

lemma at_key_Nil: "at_key m k = [] \<Longrightarrow> go_map m \<Longrightarrow> (k, v) \<in> set m \<Longrightarrow> v = []"
  by (auto simp: at_key_def go_map_def split: option.splits)

lemma handles_update:
  assumes "go_map (sr_subscribers s)" and "at_key (sr_subscribers s) sb = []"
  shows "handles (s\<lparr>sr_subscribers := AList.update sb v (sr_subscribers s), sr_router := r\<rparr>) = handles s \<union> set v"
  using assms at_key_Nil [OF assms(2,1)] by (fastforce simp: handles_def set_update_eq)

lemma topic_once_update:
  assumes "go_map m" and "topic_once m" and "length v \<le> 1" and "v \<noteq> [] \<Longrightarrow> \<not> list_ex (\<lambda>(other, subs). sb_Topic other = sb_Topic sb \<and> subs \<noteq> []) m"
  shows "topic_once (AList.update sb v m)"
  using assms by (fastforce simp: topic_once_def set_update_eq list_ex_iff)

lemma handles_once_update:
  assumes "go_map (sr_subscribers s)" and "handles_once s" and "set v \<inter> handles s = {}"
  shows "handles_once (s\<lparr>sr_subscribers := AList.update sb v (sr_subscribers s), sr_router := r\<rparr>)"
proof -
  have "h \<notin> set v" if "(sb', subs) \<in> set (sr_subscribers s)" "h \<in> set subs" for sb' subs h
    using that assms(3) by (force simp: handles_def)
  moreover have "h \<notin> set v" if "sr_subscriber s = Some h" for h
    using that assms(3) by (auto simp: handles_def)
  ultimately show ?thesis
    using assms(1,2) unfolding handles_once_def by (simp add: set_update_eq) blast
qed

lemma distinct_handles:
  assumes "go_map m" and "\<And>sb subs sb' subs' h. (sb, subs) \<in> set m \<Longrightarrow> (sb', subs') \<in> set m \<Longrightarrow> h \<in> set subs \<Longrightarrow> h \<in> set subs' \<Longrightarrow> sb = sb'"
    and "\<And>sb subs. (sb, subs) \<in> set m \<Longrightarrow> length subs \<le> 1"
  shows "distinct (concat (map snd m))"
  using assms
proof (induction m)
  case (Cons p m)
  obtain sb subs where p: "p = (sb, subs)" by (cases p)
  have "distinct subs" using Cons.prems(3) [of sb subs] p by (cases subs) auto
  moreover have "set subs \<inter> set (concat (map snd m)) = {}"
  proof (rule ccontr)
    assume "set subs \<inter> set (concat (map snd m)) \<noteq> {}"
    then obtain h sb' subs' where h: "h \<in> set subs" "(sb', subs') \<in> set m" "h \<in> set subs'" by auto
    then have "sb = sb'" using Cons.prems(2) [of sb subs sb' subs' h] p by simp
    then show False using Cons.prems(1) p h(2) by force
  qed
  moreover have "distinct (concat (map snd m))"
  proof (rule Cons.IH)
    show "go_map m" using Cons.prems(1) p by simp
    show "sb = sb'" if "(sb, subs) \<in> set m" "(sb', subs') \<in> set m" "h \<in> set subs" "h \<in> set subs'" for sb subs sb' subs' h
      using Cons.prems(2) [of sb subs sb' subs' h] that by simp
    show "length subs \<le> 1" if "(sb, subs) \<in> set m" for sb subs using Cons.prems(3) [of sb subs] that by simp
  qed
  ultimately show ?case using p by simp
qed simp

lemma topic_once_empty [simp]: "topic_once (map (\<lambda>(sb, _). (sb, [])) m)"
  by (auto simp: topic_once_def)

lemma reg_service_of [simp]: "svc_of (sr_opts s) (reg_service wd startup addr s)"
  by (auto simp: svc_of_def reg_service_def service_ids_def node_ids_def ident_def Let_def nd_md_def newNodeMetadata_def split: prod.split)

lemma dereg_service_ids [simp]: "service_ids (dereg_service addr cfg) = {ident cfg}" "sv_Name (dereg_service addr cfg) = so_Name cfg"
  by (auto simp: dereg_service_def service_ids_def node_ids_def ident_def)

locale server_world =
  fixes wd :: "('w, 'h) world"
    and elsewhere :: "'w \<Rightarrow> 'w \<Rightarrow> bool"
    and winv :: "'w \<Rightarrow> bool"
    and ids :: "'w \<Rightarrow> (string \<times> string \<times> string) set"
    and live :: "'w \<Rightarrow> 'h set"
    and reserved :: string
    and me :: "string \<times> string \<times> string"
  assumes register_ok: "winv w \<Longrightarrow> sv_Name s \<noteq> reserved \<Longrightarrow> list_all (\<lambda>n. nd_md n \<noteq> []) (sv_Nodes s) \<Longrightarrow>
      wd_Register wd ttl s w = (None, w') \<Longrightarrow> winv w' \<and> live w' = live w \<and> ids w' = ids w \<union> service_ids s"
    and register_failed: "winv w \<Longrightarrow> wd_Register wd ttl s w = (Some e, w') \<Longrightarrow> winv w' \<and> live w' = live w \<and> ids w' = ids w"
    and deregister_ok: "winv w \<Longrightarrow> sv_Name s \<noteq> reserved \<Longrightarrow> wd_Deregister wd s w = (None, w') \<Longrightarrow>
      winv w' \<and> live w' = live w \<and> ids w' = ids w - service_ids s"
    and deregister_failed: "winv w \<Longrightarrow> wd_Deregister wd s w = (Some e, w') \<Longrightarrow> winv w' \<and> live w' = live w \<and> ids w' = ids w"
    and subscribe_ok: "winv w \<Longrightarrow> wd_Subscribe wd topic queue ack w = Inr (h, w') \<Longrightarrow>
      winv w' \<and> h \<notin> live w \<and> live w' = insert h (live w) \<and> ids w' = ids w"
    and unsubscribe_ok: "winv w \<Longrightarrow> h \<in> live w \<Longrightarrow>
      winv (wd_Unsubscribe wd h w) \<and> live (wd_Unsubscribe wd h w) = live w - {h} \<and> ids (wd_Unsubscribe wd h w) = ids w"
    and connect_ok: "winv w \<Longrightarrow> wd_Connect wd w = (r, w') \<Longrightarrow> winv w' \<and> live w' = live w \<and> ids w' = ids w"
    and disconnect_ok: "winv w \<Longrightarrow> winv (wd_Disconnect wd w) \<and> live (wd_Disconnect wd w) = live w \<and> ids (wd_Disconnect wd w) = ids w"
    and elsewhere_ok: "winv w \<Longrightarrow> elsewhere w w' \<Longrightarrow> winv w' \<and> live w' = live w \<and> (me \<in> ids w' \<longrightarrow> me \<in> ids w)"
begin

text \<open>
  The invariant: \<open>me\<close> is the server's identity, \<open>R\<close> what others registered, \<open>L\<close> the subscriptions the server does not hold,
  \<open>gone\<close> whether the registry may have dropped the server's node.
\<close>

definition held :: "(string \<times> string \<times> string) set \<Rightarrow> 'h set \<Rightarrow> 'h rpcServer \<Rightarrow> 'w \<Rightarrow> bool" where
  "held I L s w \<longleftrightarrow> winv w \<and> ids w = I \<and> go_map (sr_subscribers s) \<and> topic_once (sr_subscribers s) \<and> handles_once s \<and> live w = L \<union> handles s \<and> L \<inter> handles s = {}"

definition life_inv :: "(string \<times> string \<times> string) set \<Rightarrow> bool \<Rightarrow> 'h set \<Rightarrow> 'h rpcServer \<times> 'w \<Rightarrow> bool" where
  "life_inv R gone L st \<longleftrightarrow> (case st of (s, w) \<Rightarrow>
     ident (sr_opts s) = me \<and> so_Name (sr_opts s) \<noteq> reserved \<and> held (ids w) L s w \<and>
     ids w - {me} = R \<and> (me \<in> ids w \<longrightarrow> sr_registered s) \<and> (sr_registered s \<longrightarrow> gone \<or> me \<in> ids w) \<and>
     (if sr_registered s then \<forall>svc. sr_rsvc s = Some svc \<longrightarrow> svc_of (sr_opts s) svc
      else handles s = {} \<and> sr_rsvc s = None))"

lemma reg_loop_ok:
  assumes "svc_of cfg svc" and "so_Name cfg \<noteq> reserved"
  shows "winv w \<Longrightarrow> reg_loop wd ttl svc n e0 w = (e, w') \<Longrightarrow> n \<noteq> 0 \<or> e0 \<noteq> None \<Longrightarrow>
     winv w' \<and> live w' = live w \<and> ids w' = (if e = None then insert (ident cfg) (ids w) else ids w)"
proof (induction n arbitrary: e0 w)
  case 0
  then show ?case by auto
next
  case (Suc n)
  obtain r w1 where r: "wd_Register wd ttl svc w = (r, w1)" by (cases "wd_Register wd ttl svc w")
  show ?case
  proof (cases r)
    case None
    then show ?thesis using register_ok [OF Suc.prems(1) _ _ r [unfolded None]] assms Suc.prems(2) r by (auto simp: svc_of_def)
  next
    case (Some x)
    then show ?thesis using register_failed [OF Suc.prems(1) r [unfolded Some]] Suc.IH [of w1 "Some x"] Suc.prems(2) r by auto
  qed
qed

lemma regFunc_ok:
  assumes "svc_of cfg svc" and "so_Name cfg \<noteq> reserved" and "winv w" and "regFunc wd cfg svc w = (e, w')"
  shows "winv w' \<and> live w' = live w \<and> ids w' = (if e = None then insert (ident cfg) (ids w) else ids w)"
  using reg_loop_ok [OF assms(1-3)] assms(4) unfolding regFunc_def by fastforce

lemma held_add:
  assumes "held I L s w" and "winv w'" and "h \<notin> live w" and "live w' = insert h (live w)" and "ids w' = ids w"
    and "handles s' = insert h (handles s)" and "go_map (sr_subscribers s')" and "topic_once (sr_subscribers s')" and "handles_once s'"
  shows "held I L s' w'"
  using assms by (auto simp: held_def)

lemma subscribeServer_held:
  assumes "held I L s w" and "sr_subscriber s = None" and "subscribeServer wd s w = (e, s', w')"
  shows "held I L s' w' \<and> sr_opts s' = sr_opts s \<and> sr_registered s' = sr_registered s \<and> sr_rsvc s' = sr_rsvc s"
proof (cases "so_Router (sr_opts s) \<and> \<not> isl (wd_Subscribe wd (so_Name (sr_opts s)) [] True w)")
  case True
  then obtain sub w1 where sub: "wd_Subscribe wd (so_Name (sr_opts s)) [] True w = Inr (sub, w1)"
    by (metis isl_def obj_sumE surj_pair)
  have "winv w" using assms(1) by (simp add: held_def)
  note new = subscribe_ok [OF this sub]
  have "held I L (s\<lparr>sr_subscriber := Some sub\<rparr>) w1"
    by (rule held_add [OF assms(1), of w1 sub]) (use new assms in \<open>auto simp: held_def handles_def handles_once_def\<close>)
  then show ?thesis using assms(3) True sub by (auto simp: subscribeServer_def)
next
  case False
  then show ?thesis using assms by (auto simp: subscribeServer_def isl_def split: sum.splits if_splits prod.splits)
qed

lemma resub_one_held:
  assumes inv: "held I L s w" and r: "resub_one wd valid (s, w) sb = (s', w')"
  shows "held I L s' w' \<and> sr_opts s' = sr_opts s \<and> sr_registered s' = sr_registered s \<and> sr_rsvc s' = sr_rsvc s"
proof -
  let ?m = "sr_subscribers s"
  have m: "go_map ?m" "topic_once ?m" and once: "handles_once s" and w: "winv w" using inv by (auto simp: held_def)
  consider (kept) "s' = s" "w' = w"
    | (router) r where "at_key ?m sb = []" "s' = s\<lparr>sr_router := r, sr_subscribers := AList.update sb [] ?m\<rparr>" "w' = w"
    | (broker) sub w1 where "at_key ?m sb = []" "\<not> list_ex (\<lambda>(other, subs). sb_Topic other = sb_Topic sb \<and> subs \<noteq> []) ?m"
        "wd_Subscribe wd (sb_Topic sb) (sb_Queue sb) (sb_AutoAck sb) w = Inr (sub, w1)"
        "s' = s \<and> w' = wd_Unsubscribe wd sub w1 \<or> (\<exists>r. s' = s\<lparr>sr_router := r, sr_subscribers := AList.update sb [sub] ?m\<rparr> \<and> w' = w1)"
    using r by (auto simp: resub_one_def split: if_splits sum.splits option.splits prod.splits)
  then show ?thesis
  proof cases
    case kept
    then show ?thesis using inv by simp
  next
    case (router r)
    then have "handles s' = handles s" using handles_update [OF m(1) router(1), where v = "[]" and r = r] by (simp add: handles_def)
    moreover have "topic_once (sr_subscribers s')" using router topic_once_update [OF m, of "[]" sb] by simp
    moreover have "handles_once s'" using router handles_once_update [OF m(1) once, where v = "[]" and r = r] by (simp add: handles_once_def)
    ultimately show ?thesis using inv router by (auto simp: held_def go_map_update)
  next
    case (broker sub w1)
    note new = subscribe_ok [OF w broker(3)]
    from broker(4) show ?thesis
    proof (elim disjE exE conjE)
      assume s': "s' = s" "w' = wd_Unsubscribe wd sub w1"
      have "live (wd_Unsubscribe wd sub w1) = live w"
        using unsubscribe_ok [of w1 sub] new by auto
      then show ?thesis using s' inv unsubscribe_ok [of w1 sub] new by (simp add: held_def)
    next
      fix r
      assume s': "s' = s\<lparr>sr_router := r, sr_subscribers := AList.update sb [sub] ?m\<rparr>" "w' = w1"
      have "handles s' = insert sub (handles s)"
        using handles_update [OF m(1) broker(1), where v = "[sub]" and r = r] s' by (simp add: handles_def)
      moreover have "topic_once (sr_subscribers s')" using s' topic_once_update [OF m, of "[sub]" sb] broker(2) by simp
      moreover have "sub \<notin> handles s" using new inv by (auto simp: held_def)
      then have "handles_once s'"
        using s' handles_once_update [OF m(1) once, where v = "[sub]" and r = r] by (simp add: handles_once_def)
      ultimately have "held I L s' w'"
        using new s' m by (intro held_add [OF inv, of w' sub]) (auto simp: go_map_update)
      then show ?thesis using s' by simp
    qed
  qed
qed

lemma reSubscribe_held:
  assumes "held I L s w" and "reSubscribe wd valid s w = (s', w')"
  shows "held I L s' w' \<and> sr_opts s' = sr_opts s \<and> sr_registered s' = sr_registered s \<and> sr_rsvc s' = sr_rsvc s"
proof -
  have "held I L s w \<Longrightarrow> foldl (resub_one wd valid) (s, w) sbs = (s', w') \<Longrightarrow>
    held I L s' w' \<and> sr_opts s' = sr_opts s \<and> sr_registered s' = sr_registered s \<and> sr_rsvc s' = sr_rsvc s" for sbs s w
  proof (induction sbs arbitrary: s w)
    case Nil
    then show ?case by simp
  next
    case (Cons sb sbs)
    obtain s1 w1 where r: "resub_one wd valid (s, w) sb = (s1, w1)" by (cases "resub_one wd valid (s, w) sb")
    from resub_one_held [OF Cons.prems(1) r] Cons.IH [of s1 w1] Cons.prems(2) r show ?case by simp
  qed
  from this [OF assms(1)] assms(2) show ?thesis by (simp add: reSubscribe_def)
qed

lemma unsub_all_ok:
  "winv w \<Longrightarrow> distinct hs \<Longrightarrow> set hs \<subseteq> live w \<Longrightarrow>
     winv (unsub_all wd hs w) \<and> live (unsub_all wd hs w) = live w - set hs \<and> ids (unsub_all wd hs w) = ids w"
proof (induction hs arbitrary: w)
  case Nil
  then show ?case by (simp add: unsub_all_def)
next
  case (Cons h hs)
  have "h \<in> live w" using Cons.prems by simp
  note un = unsubscribe_ok [OF Cons.prems(1) this]
  have "set hs \<subseteq> live (wd_Unsubscribe wd h w)" using un Cons.prems by auto
  from Cons.IH [OF _ _ this] un Cons.prems show ?case by (auto simp: unsub_all_def)
qed

text \<open>Unsubscribing everything a server holds.\<close>

lemma release_subs_ok:
  assumes "held I L s w" and "release_subs wd s w = (s', w')"
  shows "held I L s' w' \<and> handles s' = {}"
proof -
  define w1 where "w1 = (case sr_subscriber s of None \<Rightarrow> w | Some sub \<Rightarrow> wd_Unsubscribe wd sub w)"
  have w': "w' = unsub_all wd (concat (map snd (sr_subscribers s))) w1" "handles s' = {}" "handles_once s'"
      "topic_once (sr_subscribers s')" "map fst (sr_subscribers s') = map fst (sr_subscribers s)"
    using assms(2) by (auto simp: release_subs_def w1_def handles_def handles_once_def Let_def case_prod_beta)
  have w: "winv w" "live w = L \<union> handles s" "L \<inter> handles s = {}" "ids w = I" and once: "handles_once s" "topic_once (sr_subscribers s)" "go_map (sr_subscribers s)"
    using assms(1) by (auto simp: held_def)
  have w1: "winv w1 \<and> live w1 = live w - set_option (sr_subscriber s) \<and> ids w1 = I"
    using unsubscribe_ok [OF w(1)] w by (auto simp: w1_def handles_def split: option.split)
  have "distinct (concat (map snd (sr_subscribers s)))"
    by (rule distinct_handles [OF once(3)]) (erule (3) handles_onceD [OF once(1)], erule topic_onceD [OF once(2)])
  moreover have "set (concat (map snd (sr_subscribers s))) \<subseteq> live w1"
    using w1 w(2) once(1) by (auto simp: handles_def handles_once_def)
  ultimately have "winv w' \<and> live w' = live w1 - set (concat (map snd (sr_subscribers s))) \<and> ids w' = ids w1"
    unfolding w'(1) using unsub_all_ok w1 by blast
  moreover from this have "live w' = L" using w1 w(2,3) by (auto simp: handles_def)
  ultimately show ?thesis using w' w1 once(3) by (auto simp: held_def go_map_def)
qed

lemma life_inv_world: "life_inv R gone L (s, w) \<Longrightarrow> winv w' \<Longrightarrow> live w' = live w \<Longrightarrow> ids w' = ids w \<Longrightarrow> life_inv R gone L (s, w')"
  by (auto simp: life_inv_def held_def)

lemma life_inv_winv: "life_inv R gone L (s, w) \<Longrightarrow> winv w"
  by (simp add: life_inv_def held_def)

lemma life_inv_again:
  "life_inv R gone L (s, w) \<Longrightarrow> sr_registered s \<Longrightarrow> winv w' \<Longrightarrow> live w' = live w \<Longrightarrow> ids w' = insert me (ids w) \<Longrightarrow> life_inv R gone L (s, w')"
  by (auto simp: life_inv_def held_def)

lemma server_Deregister_inv:
  assumes inv: "life_inv R gone L (s, w)" and r: "server_Deregister wd s w = (e, s', w')"
  shows "life_inv R gone L (s', w') \<and> (e = None \<longrightarrow> \<not> sr_registered s')"
proof (cases "getAddr (wd_net wd) (sr_opts s)")
  case (Inl a)
  then show ?thesis using inv r by (auto simp: server_Deregister_def)
next
  case (Inr a)
  let ?svc = "dereg_service (fst a) (sr_opts s)"
  have me: "ident (sr_opts s) = me" "so_Name (sr_opts s) \<noteq> reserved" and held: "held (ids w) L s w" and R: "ids w - {me} = R"
    using inv by (auto simp: life_inv_def)
  have w: "winv w" using held by (auto simp: held_def)
  obtain x w1 where x: "wd_Deregister wd ?svc w = (x, w1)" by (cases "wd_Deregister wd ?svc w")
  show ?thesis
  proof (cases x)
    case (Some y)
    then have "s' = s" "w' = w1" "e = Some y" using r Inr x by (auto simp: server_Deregister_def split: prod.splits)
    then show ?thesis using inv deregister_failed [OF w] x Some life_inv_world by simp
  next
    case None
    have d: "winv w1 \<and> live w1 = live w \<and> ids w1 = R"
      using deregister_ok [OF w _ x [unfolded None]] me R by simp
    have h1: "held R L (s\<lparr>sr_rsvc := None\<rparr>) w1" using held d by (auto simp: held_def handles_def handles_once_def)
    show ?thesis
    proof (cases "sr_registered s")
      case False
      then have "s' = s\<lparr>sr_rsvc := None\<rparr>" "w' = w1" using r Inr x None by (auto simp: server_Deregister_def split: prod.splits)
      then show ?thesis using inv False h1 d by (auto simp: life_inv_def handles_def)
    next
      case True
      then have rel: "release_subs wd (s\<lparr>sr_rsvc := None\<rparr>) w1 = (s', w')" "e = None"
        using r Inr x None by (auto simp: server_Deregister_def split: prod.splits)
      then have "sr_opts s' = sr_opts s" "\<not> sr_registered s'" "sr_rsvc s' = None" by (auto simp: release_subs_def Let_def)
      moreover have "held R L s' w'" "handles s' = {}" "me \<notin> R" using release_subs_ok [OF h1 rel(1)] R by auto
      moreover have "ids w' = R" using \<open>held R L s' w'\<close> by (simp add: held_def)
      ultimately show ?thesis using me by (simp add: life_inv_def)
    qed
  qed
qed

text \<open>The first registration: the server is registered, then its subscriptions are made.\<close>

definition announced :: "'h rpcServer \<Rightarrow> string \<Rightarrow> bool \<Rightarrow> service \<Rightarrow> 'h rpcServer" where
  "announced s addr cache svc =
     (let s' = s\<lparr>sr_registered := True\<rparr>; s' = (if cache then s'\<lparr>sr_rsvc := Some svc\<rparr> else s')
      in s'\<lparr>sr_opts := (sr_opts s)\<lparr>so_Advertise := addr\<rparr>\<rparr>)"

lemma server_Register_uncached:
  assumes "sr_rsvc s = None" and "getAddr (wd_net wd) (sr_opts s) = Inr (addr, cache)"
    and "regFunc wd (sr_opts s) (reg_service wd startup addr s) w = (None, w1)" and "\<not> sr_registered s"
  shows "server_Register wd valid startup s w =
    (case subscribeServer wd (announced s addr cache (reg_service wd startup addr s)) w1 of
       (Some e, s, w) \<Rightarrow> (Some (''Failed to subscribe to service name topic: '' @ e), s, w)
     | (None, s, w) \<Rightarrow> (case reSubscribe wd valid s w of (s, w) \<Rightarrow> (None, s, w)))"
  using assms by (simp add: server_Register_def announced_def Let_def)

lemma announce_inv:
  assumes held: "held (insert me R) L s w1" and handles: "handles s = {}" and me: "ident (sr_opts s) = me" "so_Name (sr_opts s) \<noteq> reserved" "me \<notin> R"
    and svc: "svc_of (sr_opts s) svc" and rsvc: "sr_rsvc s = None"
    and r: "(case subscribeServer wd (announced s addr cache svc) w1 of
       (Some e, s, w) \<Rightarrow> (Some (''Failed to subscribe to service name topic: '' @ e), s, w)
     | (None, s, w) \<Rightarrow> (case reSubscribe wd valid s w of (s, w) \<Rightarrow> (None, s, w))) = (e, s', w')"
  shows "life_inv R gone L (s', w') \<and> sr_registered s'"
proof -
  let ?s = "announced s addr cache svc"
  have eqs: "sr_registered ?s" "ident (sr_opts ?s) = me" "so_Name (sr_opts ?s) = so_Name (sr_opts s)" "sr_subscriber ?s = None"
    using me handles by (auto simp: announced_def ident_def node_id_def handles_def Let_def)
  have svc': "\<forall>v. sr_rsvc ?s = Some v \<longrightarrow> svc_of (sr_opts ?s) v"
    using svc rsvc by (auto simp: announced_def svc_of_def ident_def node_id_def Let_def)
  have h0: "held (insert me R) L ?s w1" using held by (simp add: held_def announced_def handles_def handles_once_def Let_def)
  obtain x s1 w2 where x: "subscribeServer wd ?s w1 = (x, s1, w2)" by (metis prod_cases3)
  note h1 = subscribeServer_held [OF h0 eqs(4) x]
  obtain s2 w3 where y: "reSubscribe wd valid s1 w2 = (s2, w3)" by (cases "reSubscribe wd valid s1 w2")
  have h2: "held (insert me R) L s2 w3 \<and> sr_opts s2 = sr_opts s1 \<and> sr_registered s2 = sr_registered s1 \<and> sr_rsvc s2 = sr_rsvc s1"
    using reSubscribe_held [OF _ y] h1 by blast
  have "(s', w') = (s1, w2) \<or> (s', w') = (s2, w3)" using r x y by (auto split: option.splits)
  moreover have "ids w2 = insert me R" "ids w3 = insert me R" using h1 h2 by (simp_all add: held_def)
  ultimately show ?thesis using h1 h2 eqs svc' me by (auto simp: life_inv_def)
qed

lemma server_Register_inv:
  assumes inv: "life_inv R gone L (s, w)" and r: "server_Register wd valid startup s w = (e, s', w')"
  shows "life_inv R gone L (s', w') \<and> (e = None \<longrightarrow> sr_registered s') \<and> (sr_registered s \<longrightarrow> s' = s)"
proof -
  have me: "ident (sr_opts s) = me" "so_Name (sr_opts s) \<noteq> reserved" "me \<notin> R" and held: "held (ids w) L s w"
    and R: "ids w - {me} = R" "me \<in> ids w \<longrightarrow> sr_registered s"
    and rest: "if sr_registered s then \<forall>svc. sr_rsvc s = Some svc \<longrightarrow> svc_of (sr_opts s) svc else handles s = {} \<and> sr_rsvc s = None"
    using inv by (auto simp: life_inv_def)
  have w: "winv w" using held by (auto simp: held_def)
  have same: "life_inv R gone L (s, w1)" if "winv w1" "live w1 = live w" "ids w1 = ids w \<or> sr_registered s \<and> ids w1 = insert me (ids w)" for w1
    using life_inv_world [OF inv] life_inv_again [OF inv] that by blast
  show ?thesis
  proof (cases "sr_rsvc s")
    case (Some svc)
    then have svc: "svc_of (sr_opts s) svc" "sr_registered s" using rest by (auto split: if_splits)
    obtain x w1 where x: "regFunc wd (sr_opts s) svc w = (x, w1)" by (cases "regFunc wd (sr_opts s) svc w")
    have "winv w1 \<and> live w1 = live w \<and> ids w1 = (if x = None then insert me (ids w) else ids w)"
      using regFunc_ok [OF svc(1) me(2) w x] me(1) by simp
    then have "life_inv R gone L (s, w1)" using same svc(2) by (simp split: if_splits)
    then show ?thesis using r Some x svc(2) by (auto simp: server_Register_def split: option.splits)
  next
    case None
    show ?thesis
    proof (cases "getAddr (wd_net wd) (sr_opts s)")
      case (Inl a)
      then show ?thesis using r None inv by (auto simp: server_Register_def)
    next
      case (Inr a)
      obtain addr cache where a: "getAddr (wd_net wd) (sr_opts s) = Inr (addr, cache)" using Inr by (cases a) auto
      let ?svc = "reg_service wd startup addr s"
      obtain x w1 where x: "regFunc wd (sr_opts s) ?svc w = (x, w1)" by (cases "regFunc wd (sr_opts s) ?svc w")
      note reg = regFunc_ok [OF reg_service_of me(2) w x, unfolded me(1)]
      show ?thesis
      proof (cases "x = None \<and> \<not> sr_registered s")
        case True
        have h1: "held (insert me R) L s w1" using held reg True R by (auto simp: held_def)
        have none: "handles s = {}" using rest True by simp
        have eq: "server_Register wd valid startup s w =
          (case subscribeServer wd (announced s addr cache ?svc) w1 of
             (Some e, s, w) \<Rightarrow> (Some (''Failed to subscribe to service name topic: '' @ e), s, w)
           | (None, s, w) \<Rightarrow> (case reSubscribe wd valid s w of (s, w) \<Rightarrow> (None, s, w)))"
          using server_Register_uncached [OF None a] x True by simp
        have "life_inv R gone L (s', w') \<and> sr_registered s'"
          by (rule announce_inv [OF h1 none me reg_service_of None r [unfolded eq]])
        then show ?thesis using True by simp
      next
        case False
        then have "life_inv R gone L (s, w1)" using reg by (intro same) (auto split: if_splits)
        then show ?thesis using r None a x False by (auto simp: server_Register_def Let_def split: option.splits)
      qed
    qed
  qed
qed

text \<open>What the other fields are does not matter.\<close>

lemma life_inv_cong:
  assumes "life_inv R gone L (s, w)" and "ident (sr_opts s') = ident (sr_opts s)" and "so_Name (sr_opts s') = so_Name (sr_opts s)"
    and "sr_registered s' = sr_registered s" and "sr_rsvc s' = sr_rsvc s" and "sr_subscriber s' = sr_subscriber s" and "sr_subscribers s' = sr_subscribers s"
  shows "life_inv R gone L (s', w)"
proof -
  have "handles s' = handles s" "handles_once s' = handles_once s" using assms(6,7) by (simp_all add: handles_def handles_once_def)
  moreover have "svc_of (sr_opts s') svc = svc_of (sr_opts s) svc" for svc using assms(2,3) by (simp add: svc_of_def)
  ultimately show ?thesis using assms by (simp add: life_inv_def held_def)
qed

lemma ident_updates [simp]:
  "ident (cfg\<lparr>so_Address := a\<rparr>) = ident cfg" "ident (cfg\<lparr>so_Advertise := a\<rparr>) = ident cfg"
  by (simp_all add: ident_def node_id_def)

lemma server_Register_inv': "life_inv R gone L (s, w) \<Longrightarrow> life_inv R gone L (snd (server_Register wd valid startup s w))"
  using server_Register_inv by (metis prod.collapse)

lemma server_Deregister_inv': "life_inv R gone L (s, w) \<Longrightarrow> life_inv R gone L (snd (server_Deregister wd s w))"
  using server_Deregister_inv by (metis prod.collapse)

lemma server_Start_inv:
  assumes "life_inv R gone L (s, w)"
  shows "life_inv R gone L (snd (server_Start wd valid startup listen check s w))"
proof (cases "sr_started s \<or> isl listen")
  case True
  then show ?thesis using assms by (auto simp: server_Start_def split: sum.splits)
next
  case False
  then obtain laddr where l: "listen = Inr laddr" by (cases listen) auto
  let ?s = "s\<lparr>sr_opts := (sr_opts s)\<lparr>so_Address := laddr\<rparr>\<rparr>"
  obtain x w1 where x: "wd_Connect wd w = (x, w1)" by (cases "wd_Connect wd w")
  have "life_inv R gone L (?s, w1)"
    using connect_ok [OF life_inv_winv [OF assms] x] life_inv_world life_inv_cong [OF assms, of ?s] by simp
  moreover obtain s2 w2 where r: "(if check = None then snd (server_Register wd valid startup ?s w1) else (?s, w1)) = (s2, w2)"
    by (metis prod.collapse)
  ultimately have "life_inv R gone L (s2, w2)" using server_Register_inv' [of R gone L ?s w1 valid startup] by (auto split: if_splits)
  then have "life_inv R gone L (s2\<lparr>sr_started := True, sr_saved := so_Address (sr_opts s)\<rparr>, w2)" by (rule life_inv_cong) simp_all
  then show ?thesis
    using False l x r \<open>life_inv R gone L (?s, w1)\<close> by (cases check) (simp_all add: server_Start_def Let_def split: option.split)
qed

lemma registrar_tick_inv:
  assumes "life_inv R gone L (s, w)"
  shows "life_inv R gone L (registrar_tick wd valid startup check s w)"
proof -
  obtain s1 w1 where r: "(if check \<noteq> None then snd (server_Deregister wd s w) else (s, w)) = (s1, w1)" by (metis prod.collapse)
  then have "life_inv R gone L (s1, w1)" using assms server_Deregister_inv' [OF assms] by (auto split: if_splits)
  from server_Register_inv' [OF this] show ?thesis using assms r by (auto simp: registrar_tick_def)
qed

lemma server_Stop_inv:
  assumes "life_inv R gone L (s, w)"
  shows "life_inv R gone L (snd (server_Stop wd closed s w))"
proof (cases "sr_started s")
  case True
  obtain s1 w1 where r: "(if sr_registered s then snd (server_Deregister wd s w) else (s, w)) = (s1, w1)" by (metis prod.collapse)
  then have "life_inv R gone L (s1, w1)" using assms server_Deregister_inv' [OF assms] by (auto split: if_splits)
  then have "life_inv R gone L (s1\<lparr>sr_opts := (sr_opts s1)\<lparr>so_Address := sr_saved s1\<rparr>, sr_started := False\<rparr>, w1)"
    by (rule life_inv_cong) simp_all
  from life_inv_world [OF this] disconnect_ok [OF life_inv_winv [OF this]] show ?thesis
    using True r by (simp add: server_Stop_def)
qed (use assms in \<open>simp add: server_Stop_def\<close>)

text \<open>A known subscriber that is subscribed again loses its broker subscriptions, which stay in the broker.\<close>

lemma server_Subscribe_inv:
  assumes "life_inv R gone L (s, w)" and s': "snd (server_Subscribe valid sb s) = s'"
  shows "life_inv R gone (L \<union> (handles s - handles s')) (s', w)"
proof (cases "valid sb")
  case None
  let ?r = "snd (router_Subscribe valid sb (sr_router s))" let ?m = "AList.update sb [] (sr_subscribers s)"
  have s': "s' = s\<lparr>sr_router := ?r, sr_subscribers := ?m\<rparr>"
    using None s' by (simp add: server_Subscribe_def router_Subscribe_def)
  have m: "go_map (sr_subscribers s)" "topic_once (sr_subscribers s)" "handles_once s" using assms(1) by (auto simp: life_inv_def held_def)
  have "handles s' \<subseteq> handles s" using m(1) by (auto simp: s' handles_def set_update_eq)
  moreover have "handles_once s'" using s' handles_once_update [OF m(1,3), where v = "[]" and r = ?r] by (simp add: handles_once_def)
  moreover have "topic_once ?m" by (rule topic_once_update [OF m(1,2)]) simp_all
  moreover have "svc_of (sr_opts s') svc = svc_of (sr_opts s) svc" for svc by (simp add: s')
  ultimately show ?thesis using assms(1) m(1) by (auto simp: s' life_inv_def held_def go_map_update split: if_splits)
qed (use assms in \<open>simp add: server_Subscribe_def router_Subscribe_def\<close>)

lemma server_Init_inv:
  assumes "life_inv R gone L (s, w)" and "ident (sr_opts (server_Init opts s)) = ident (sr_opts s)"
  shows "life_inv R gone L (server_Init opts s, w)"
proof -
  have "handles (server_Init opts s) = handles s" "handles_once (server_Init opts s) = handles_once s"
    by (simp_all add: server_Init_def Let_def handles_def handles_once_def)
  moreover have "so_Name (sr_opts (server_Init opts s)) = so_Name (sr_opts s)" using assms(2) by (simp add: ident_def)
  ultimately show ?thesis
    using assms(1) unfolding life_inv_def held_def by (simp add: assms(2)) (auto simp: server_Init_def Let_def split: if_splits)
qed

lemma server_op_inv:
  assumes "server_op wd valid st st'" and "life_inv R gone L st"
  shows "life_inv R gone L st'"
  using assms
proof (induction rule: server_op.induct)
  case (handle s w hvalid h)
  then show ?case by (elim life_inv_cong) (simp_all add: server_Handle_def split: option.split)
next
  case (reorder subs s w)
  let ?s = "s\<lparr>sr_subscribers := subs\<rparr>"
  have "handles ?s = handles s" "handles_once ?s = handles_once s" "topic_once subs = topic_once (sr_subscribers s)"
    using reorder(1) by (simp_all add: handles_def handles_once_def topic_once_def)
  then show ?case using reorder by (simp add: life_inv_def held_def go_map_def)
qed (simp_all add: server_Register_inv' server_Deregister_inv' server_Start_inv registrar_tick_inv server_Stop_inv server_Init_inv)

definition life_ok :: "'h set \<Rightarrow> ('w, 'h) life \<Rightarrow> bool" where
  "life_ok L st \<longleftrightarrow> (case st of ((s, w), R, gone, G) \<Rightarrow> life_inv R gone (L \<union> G) (s, w) \<and> (gone \<longrightarrow> me \<notin> ids w))"

lemma life_step_inv:
  assumes "life_step wd elsewhere ids me valid st st'" and "life_ok L st"
  shows "life_ok L st'"
  using assms
proof (induction rule: life_step.induct)
  case (op s w s' w' R gone G)
  then have "life_inv R gone (L \<union> G) (s', w')" using server_op_inv by (simp add: life_ok_def)
  then show ?case by (auto simp: life_ok_def life_inv_def)
next
  case (subscribe sb s s' w R gone G)
  then show ?case using server_Subscribe_inv [of R gone "L \<union> G" s w valid sb s'] by (simp add: life_ok_def Un_assoc)
next
  case (world w w' s R gone G)
  then have inv: "life_inv R gone (L \<union> G) (s, w)" and gone: "gone \<longrightarrow> me \<notin> ids w" by (auto simp: life_ok_def)
  from elsewhere_ok [OF life_inv_winv [OF inv] world(1)] inv gone show ?case
    by (auto simp: life_ok_def life_inv_def held_def)
qed

lemma life_steps_inv:
  "(life_step wd elsewhere ids me valid)\<^sup>*\<^sup>* st st' \<Longrightarrow> life_ok L st \<Longrightarrow> life_ok L st'"
  by (induction rule: rtranclp_induct) (auto intro: life_step_inv)

lemma newRpcServer_inv:
  "winv w \<Longrightarrow> so_Name opts \<noteq> reserved \<Longrightarrow> ident opts = me \<Longrightarrow> me \<notin> ids w \<Longrightarrow> life_ok (live w) ((newRpcServer opts, w), ids w, False, {})"
  by (simp add: life_ok_def life_inv_def held_def newRpcServer_def handles_def handles_once_def topic_once_def)

text \<open>A started server that knows its address and whose deregistration succeeds leaves nothing behind when it stops.\<close>

lemma server_Stop_clears:
  assumes inv: "life_inv R gone L (s, w)" and "sr_started s" and "getAddr (wd_net wd) (sr_opts s) = Inr a"
    and dereg: "\<And>svc w. fst (wd_Deregister wd svc w) = None" and r: "server_Stop wd closed s w = (e, s', w')"
  shows "\<not> sr_registered s' \<and> \<not> sr_started s' \<and> handles s' = {} \<and> ids w' = R \<and> live w' = L"
proof -
  obtain s1 w1 where r1: "(if sr_registered s then snd (server_Deregister wd s w) else (s, w)) = (s1, w1)" by (metis prod.collapse)
  have "\<not> sr_registered s1 \<and> life_inv R gone L (s1, w1)"
  proof (cases "sr_registered s")
    case True
    have "fst (server_Deregister wd s w) = None"
      using assms(3) dereg [of "dereg_service (fst a) (sr_opts s)" w]
      by (cases a) (auto simp: server_Deregister_def Let_def split: prod.split option.split)
    then have "server_Deregister wd s w = (None, s1, w1)" using r1 True by (metis prod.collapse)
    from server_Deregister_inv [OF inv this] show ?thesis by simp
  qed (use inv r1 in simp)
  moreover have "sr_registered s' = sr_registered s1" "\<not> sr_started s'" using assms(2) r r1 by (auto simp: server_Stop_def)
  ultimately show ?thesis
    using server_Stop_inv [OF inv, of closed] r by (auto simp: life_inv_def held_def)
qed

end

section \<open>The address is stable\<close>

text \<open>
  \<open>Register\<close> advertises the address it found from then on, and \<open>Deregister\<close> computes the same address from it: given that the
  interfaces have proper addresses and the address has a port.
\<close>

definition net_ok :: "net_env \<Rightarrow> bool" where
  "net_ok env \<longleftrightarrow> (\<forall>h a. addr_Extract env h = Inr a \<longrightarrow> a \<notin> {[], ''0.0.0.0'', ''[::]'', ''::''} \<and> (a \<noteq> h \<longrightarrow> lbrack \<notin> set a \<and> rbrack \<notin> set a))"

lemma getAddr_stable:
  assumes ok: "net_ok env" and split: "SplitHostPort (advertised cfg) = Inr (h, p)" "p \<noteq> []" and addr: "getAddr env cfg = Inr (addr, v)"
  shows "\<exists>v'. getAddr env (cfg\<lparr>so_Advertise := addr\<rparr>) = Inr (addr, v')"
proof -
  have "last_index (advertised cfg) colon \<noteq> None" using split(1) by (cases "last_index (advertised cfg) colon") (simp_all add: SplitHostPort_def)
  then have "colon \<in> set (advertised cfg)" by (simp add: last_index_None)
  then have hp: "host_port (advertised cfg) = Inr (h, p)" using split(1) by (simp add: host_port_def)
  then obtain a where a: "addr_Extract env h = Inr a" "addr = HostPort env a (PStr p)"
    using addr split(2) by (auto simp: getAddr_def sum_bind_eq_Inr)
  note clean = SplitHostPort_clean [OF split(1)]
  have a_ok: "lbrack \<notin> set a" "rbrack \<notin> set a" "a \<notin> {[], ''0.0.0.0'', ''[::]'', ''::''}"
    using ok a(1) clean unfolding net_ok_def by metis+
  have "addr_Extract env a = Inr a" using a_ok(3) by (simp add: addr_Extract_def)
  moreover have "SplitHostPort addr = Inr (a, p)"
    unfolding a(2) by (rule SplitHostPort_HostPort) (use a_ok clean split(2) in simp_all)
  moreover have "colon \<in> set addr" "addr \<noteq> []" using split(2) by (auto simp: a(2) HostPort_def colon_def Let_def)
  ultimately show ?thesis
    using split(2) a(2) by (auto simp: getAddr_def host_port_def advertised_def)
qed

section \<open>The in-memory registry and the HTTP broker\<close>

type_synonym mem_world = "int \<times> memRegistry \<times> unit httpBroker"

definition registerTTL :: int where
  "registerTTL = 60 * 1000000000"

definition mw_Register :: "int \<Rightarrow> service \<Rightarrow> mem_world \<Rightarrow> string option \<times> mem_world" where
  "mw_Register ttl svc w =
     (case w of (now, m, h) \<Rightarrow>
        (case Register now ttl svc m of Inl _ \<Rightarrow> (Some ''registry'', w) | Inr m' \<Rightarrow> (None, now, m', h)))"

definition mw_Subscribe :: "net_env \<Rightarrow> string \<Rightarrow> string \<Rightarrow> bool \<Rightarrow> mem_world \<Rightarrow> string + unit httpSubscriber \<times> mem_world" where
  "mw_Subscribe env topic queue ack w =
     (case w of (now, m, h) \<Rightarrow>
        (case hb_Subscribe env mem_register (now, registerTTL) topic queue () h m of
           Inl (Inl e) \<Rightarrow> Inl e
         | Inl (Inr _) \<Rightarrow> Inl ''registry''
         | Inr (s, h', m') \<Rightarrow> Inr (s, now, m', h')))"

definition mw_Unsubscribe :: "unit httpSubscriber \<Rightarrow> mem_world \<Rightarrow> mem_world" where
  "mw_Unsubscribe s w = (case w of (now, m, h) \<Rightarrow> (case hb_unsubscribe Deregister s h m of (h', m') \<Rightarrow> (now, m', h')))"

definition mem_http :: "net_env \<Rightarrow> (string \<Rightarrow> string + string) \<Rightarrow> (mem_world, unit httpSubscriber) world" where
  "mem_http env bind =
     \<lparr>wd_net = env, wd_Register = mw_Register, wd_Deregister = (\<lambda>svc (now, m, h). (None, now, Deregister svc m, h)),
      wd_Subscribe = mw_Subscribe env, wd_Unsubscribe = mw_Unsubscribe,
      wd_Connect = (\<lambda>(now, m, h). (fst (hb_Connect env bind h), now, m, snd (hb_Connect env bind h))),
      wd_Disconnect = (\<lambda>(now, m, h). (now, snd (snd (hb_Disconnect Deregister None h m)), fst (snd (hb_Disconnect Deregister None h m)))),
      wd_strings = (''http'', ''http'', ''memory'')\<rparr>"

definition mw_inv :: "mem_world \<Rightarrow> bool" where
  "mw_inv w = (case w of (now, m, h) \<Rightarrow> mem_inv m \<and> subs_ok h)"

definition mw_ids :: "mem_world \<Rightarrow> (string \<times> string \<times> string) set" where
  "mw_ids w = (case w of (now, m, h) \<Rightarrow> {t \<in> registered m. fst t \<noteq> serviceName})"

definition mw_live :: "mem_world \<Rightarrow> unit httpSubscriber set" where
  "mw_live w = (case w of (now, m, h) \<Rightarrow> set (all_subs h))"

text \<open>
  What happens meanwhile: time passes, the registry drops the nodes that have expired, the broker's heartbeat registers its
  subscriptions again, others register and deregister services.  Nobody else registers the node \<open>me\<close>.
\<close>

definition mw_elsewhere :: "string \<times> string \<times> string \<Rightarrow> mem_world \<Rightarrow> mem_world \<Rightarrow> bool" where
  "mw_elsewhere me w w' \<longleftrightarrow> (case (w, w') of ((now, m, h), (now', m', h')) \<Rightarrow>
     now \<le> now' \<and> h' = h \<and>
     (m' = m \<or> m' = ttlPrune now' m \<or> m' = hb_heartbeat mem_register (now', registerTTL) h m \<or>
      (\<exists>ttl svc. me \<notin> service_ids svc \<and> Register now' ttl svc m = Inr m') \<or> (\<exists>svc. m' = Deregister svc m)))"

lemmas mw_defs = mw_inv_def mw_ids_def mw_live_def

interpretation mem_http: server_world "mem_http env bind" "mw_elsewhere me" mw_inv mw_ids mw_live serviceName me
proof unfold_locales
  fix w w' :: mem_world and s :: service and ttl e topic queue ack r and h :: "unit httpSubscriber"
  assume inv: "mw_inv w"
  obtain now m b where w: "w = (now, m, b)" by (metis prod_cases3)
  have m: "mem_inv m" and b: "subs_ok b" using inv w by (simp_all add: mw_inv_def)
  have own: "fst t = serviceName" if "t \<in> sub_ids b" for t using sub_ids_name [OF b that] .
  show "mw_inv w' \<and> mw_live w' = mw_live w \<and> mw_ids w' = mw_ids w \<union> service_ids s"
    if prem: "sv_Name s \<noteq> serviceName" "list_all (\<lambda>n. nd_md n \<noteq> []) (sv_Nodes s)" "wd_Register (mem_http env bind) ttl s w = (None, w')"
  proof -
    obtain m' where m': "Register now ttl s m = Inr m'" "w' = (now, m', b)"
      using prem(3) w by (auto simp: mem_http_def mw_Register_def split: sum.splits)
    then show ?thesis
      using mem.try_register_ok [OF m prem(2), of "(now, ttl)"] service_ids_name [of _ s] prem(1) w b
      by (auto simp: mw_defs try_register_def)
  qed
  show "mw_inv w' \<and> mw_live w' = mw_live w \<and> mw_ids w' = mw_ids w" if prem: "wd_Register (mem_http env bind) ttl s w = (Some e, w')"
    using prem w inv by (auto simp: mem_http_def mw_Register_def split: sum.splits)
  show "mw_inv w' \<and> mw_live w' = mw_live w \<and> mw_ids w' = mw_ids w - service_ids s"
    if prem: "sv_Name s \<noteq> serviceName" "wd_Deregister (mem_http env bind) s w = (None, w')"
    using prem w m b mem.deregister_inv [OF m] mem.deregister_exact [OF m] by (auto simp: mem_http_def mw_defs)
  show "mw_inv w' \<and> mw_live w' = mw_live w \<and> mw_ids w' = mw_ids w" if prem: "wd_Deregister (mem_http env bind) s w = (Some e, w')"
    using prem w by (simp add: mem_http_def)
  show "mw_inv w' \<and> h \<notin> mw_live w \<and> mw_live w' = insert h (mw_live w) \<and> mw_ids w' = mw_ids w"
    if prem: "wd_Subscribe (mem_http env bind) topic queue ack w = Inr (h, w')"
  proof -
    obtain h' m' where r: "hb_Subscribe env mem_register (now, registerTTL) topic queue () b m = Inr (h, h', m')" "w' = (now, m', h')"
      using prem w by (auto simp: mem_http_def mw_Subscribe_def split: sum.splits prod.splits)
    note new = hb_Subscribe_ok [OF b r(1)] and reg = mem.Subscribe_registers [OF m b r(1)]
    have "hs_ptr h = hb_alloc b"
      using r(1) by (auto simp: hb_Subscribe_def hb_subscribe_def Let_def split: sum.splits prod.splits)
    then have "h \<notin> set (all_subs b)" using subs_ok_ptr [OF b, of h] by auto
    then show ?thesis using new(1,2,4) reg w r(2) service_ids_name [of _ "hs_svc h"] by (auto simp: mw_defs sub_ok_def)
  qed
  show "mw_inv (wd_Unsubscribe (mem_http env bind) h w) \<and> mw_live (wd_Unsubscribe (mem_http env bind) h w) = mw_live w - {h} \<and>
      mw_ids (wd_Unsubscribe (mem_http env bind) h w) = mw_ids w" if prem: "h \<in> mw_live w"
  proof -
    obtain h' m' where r: "hb_unsubscribe Deregister h b m = (h', m')" by (cases "hb_unsubscribe Deregister h b m")
    have h: "h \<in> set (all_subs b)" using prem w by (simp add: mw_live_def)
    from mem.unsubscribe_exact [OF m b r h] mem.unsubscribe_deregisters [OF m b r] show ?thesis
      using w r service_ids_name [of _ "hs_svc h"] subs_ok_sub [OF b h] by (auto simp: mem_http_def mw_Unsubscribe_def mw_defs sub_ok_def)
  qed
  show "mw_inv w' \<and> mw_live w' = mw_live w \<and> mw_ids w' = mw_ids w" if prem: "wd_Connect (mem_http env bind) w = (r, w')"
    using prem w m b subs_ok_cong [of "snd (hb_Connect env bind b)" b] by (auto simp: mem_http_def mw_defs)
  show "mw_inv (wd_Disconnect (mem_http env bind) w) \<and> mw_live (wd_Disconnect (mem_http env bind) w) = mw_live w \<and>
      mw_ids (wd_Disconnect (mem_http env bind) w) = mw_ids w"
    using w m b mem.exit_deregisters [OF m, of b] own
      subs_ok_cong [of "b\<lparr>hb_running := False, hb_addrs := [hb_bound b], hb_address := hb_bound b\<rparr>" b]
    by (auto simp: mem_http_def mw_defs hb_Disconnect_def)
  show "mw_inv w' \<and> mw_live w' = mw_live w \<and> (me \<in> mw_ids w' \<longrightarrow> me \<in> mw_ids w)" if prem: "mw_elsewhere me w w'"
  proof -
    obtain now' m' where w': "w' = (now', m', b)" using prem w by (cases w') (auto simp: mw_elsewhere_def)
    have "mem_inv m' \<and> (me \<in> registered m' \<longrightarrow> me \<in> registered m \<or> fst me = serviceName)"
      using prem w w' registered_Register [OF m, of now' _ _ m'] registered_ttlPrune [OF m, of now'] ttlPrune_inv [OF m, of now']
        mem.heartbeat_registers [OF m b, of "(now', registerTTL)"] mem.deregister_inv [OF m] mem.deregister_exact [OF m] own [of me] m
      unfolding mw_elsewhere_def by auto
    then show ?thesis using w w' b by (auto simp: mw_defs)
  qed
qed

section \<open>What the code does not intend\<close>

text \<open>
  \<open>Subscribe\<close> gives a subscriber to the router and \<open>reSubscribe\<close> gives it to the router again, so that the first
  registration leaves it there twice and every message is handled twice; each further registration adds one more.
\<close>

lemma subscriber_routed_twice:
  assumes "server_Subscribe valid sb (newRpcServer opts) = (None, s1)" and "wd_Subscribe wd (sb_Topic sb) (sb_Queue sb) (sb_AutoAck sb) w = Inr (h, w1)"
  shows "at_key (sr_router (fst (reSubscribe wd valid s1 w))) (sb_Topic sb) = [sb, sb]"
proof -
  have v: "valid sb = None" and s1: "sr_subscribers s1 = [(sb, [])]" "sr_router s1 = [(sb_Topic sb, [sb])]"
    using assms(1) by (auto simp: server_Subscribe_def router_Subscribe_def newRpcServer_def at_key_def split: option.splits)
  show ?thesis using v s1 assms(2) by (simp add: reSubscribe_def resub_one_def router_Subscribe_def at_key_def)
qed

text \<open>A failing \<open>RegisterCheck\<close> is to take a registered server out; the same round of the registrar registers it again.\<close>

lemma failed_check_registers_again:
  assumes "sr_registered s" and "check \<noteq> None" and "server_Deregister wd s w = (None, s1, w1)" and "server_Register wd valid startup s1 w1 = (None, s2, w2)"
  shows "registrar_tick wd valid startup check s w = (s2, w2)"
  using assms by (auto simp: registrar_tick_def)

text \<open>\<open>Stop\<close> keeps the advertised address, so that a server started again on another port registers its old address.\<close>

lemma restart_advertises_old_address:
  assumes "so_Advertise (sr_opts s) \<noteq> []"
  shows "getAddr env ((sr_opts s)\<lparr>so_Address := a\<rparr>) = getAddr env (sr_opts s)" and
    "so_Advertise (sr_opts (fst (snd (server_Stop wd closed s w)))) = so_Advertise (sr_opts s)"
  using assms
  by (auto simp: getAddr_def advertised_def server_Stop_def server_Deregister_def release_subs_def Let_def split: sum.split prod.split option.split)

section \<open>Property\<close>

definition sample_opts :: options where
  "sample_opts = \<lparr>so_Name = ''n'', so_Id = ''1'', so_Version = ''v'', so_Advertise = [], so_Address = ''h:0'', so_Metadata = [], so_Router = True, so_RegisterTTL = 90\<rparr>"

definition sample_world :: mem_world where
  "sample_world = (0, empty_reg, newHttpBroker ''b'' [''h:1''] False)"

definition sample_started :: "unit httpSubscriber rpcServer \<times> mem_world" where
  "sample_started = snd (server_Start (mem_http sample_net Inr) (\<lambda>_. None) ''now'' (Inr ''h:2'') None (newRpcServer sample_opts) sample_world)"

lemma sample_world_ok: "mw_inv sample_world" "ident sample_opts \<notin> mw_ids sample_world" "mw_ids sample_world = {}" "mw_live sample_world = {}"
  by (simp_all add: mw_defs sample_world_def subs_ok_new) (simp add: newHttpBroker_def all_subs_def)

definition late :: "mem_world \<Rightarrow> mem_world" where
  "late w = (case w of (now, m, h) \<Rightarrow> (now + 100, ttlPrune (now + 100) m, h))"

definition sample_again :: "unit httpSubscriber rpcServer \<times> mem_world" where
  "sample_again = (case sample_started of (s, w) \<Rightarrow> registrar_tick (mem_http sample_net Inr) (\<lambda>_. None) ''now'' None s (late w))"

lemma sample_started_up: "sr_registered (fst sample_started)" "sr_started (fst sample_started)"
  by code_simp+

text \<open>
  Operations that overlap: \<open>Register\<close> and \<open>Deregister\<close> hold no lock while they call the registry.  Another registration
  between the call of \<open>Deregister\<close> and its change of the state leaves the node in the registry of a server that counts itself as not registered.
\<close>

lemma overlapping_operations:
  "case sample_started of (s, w) \<Rightarrow>
     case wd_Deregister (mem_http sample_net Inr) (dereg_service ''h:2'' (sr_opts s)) w of (e1, w1) \<Rightarrow>
     case server_Register (mem_http sample_net Inr) (\<lambda>_. None) ''now'' s w1 of (e2, s2, w2) \<Rightarrow>
     case release_subs (mem_http sample_net Inr) (s2\<lparr>sr_rsvc := None\<rparr>) w2 of (s3, w3) \<Rightarrow>
       e1 = None \<and> e2 = None \<and> \<not> sr_registered s3 \<and> ''n-1'' \<in> version_ids (fst (snd w3)) ''n'' ''v''"
  by code_simp

lemma sample_started_inv: "mw_inv (snd sample_started)"
proof -
  have "so_Name sample_opts \<noteq> serviceName" by code_simp
  from mem_http.newRpcServer_inv [OF sample_world_ok(1) this refl sample_world_ok(2)]
  have "mem_http.life_inv (ident sample_opts) {} False {} (newRpcServer sample_opts, sample_world)"
    by (simp add: mem_http.life_ok_def sample_world_ok)
  from mem_http.server_Start_inv [OF this] have "mem_http.life_inv (ident sample_opts) {} False {} sample_started"
    unfolding sample_started_def .
  then show ?thesis using mem_http.life_inv_winv by (metis prod.collapse)
qed

lemma late_expired: "(''n'', ''v'', ''n-1'') \<notin> mw_ids (late (snd sample_started))"
proof -
  have "version_ids (fst (snd (late (snd sample_started)))) ''n'' ''v'' = {}" by code_simp
  then show ?thesis by (auto simp: mw_ids_def registered_def split: prod.splits)
qed

lemma late_empty: "mw_inv w \<Longrightarrow> mw_ids (late w) \<subseteq> mw_ids w"
  using registered_ttlPrune by (fastforce simp: mw_defs late_def split: prod.splits)

lemma sample_again_up:
  "sr_registered (fst sample_again)" "sr_started (fst sample_again)" "\<not> isl (getAddr sample_net (sr_opts (fst sample_again)))"
  "(''n'', ''v'', ''n-1'') \<in> mw_ids (snd sample_again)"
proof -
  have "''n-1'' \<in> version_ids (fst (snd (snd sample_again))) ''n'' ''v''" and "''n'' \<noteq> serviceName" by code_simp+
  then show "(''n'', ''v'', ''n-1'') \<in> mw_ids (snd sample_again)" by (auto simp: mw_ids_def registered_def split: prod.splits)
qed code_simp+

text \<open>
  C6.  A server keeps the registry and the broker in step with its own state: over the in-memory registry and the HTTP broker,
  after any sequence of starts, stops, registrations, deregistrations, ticks of the registrar, \<open>Init\<close>s that keep the
  name, id and version, new handlers and subscribers, one after the other, while time passes, registrations expire and
  others register and deregister.  Its node is in the registry exactly when the server counts itself as registered and the registry has not dropped the
  node since it was last registered; the rest of the registry is what the others made of it.  The broker holds exactly the others' subscriptions,
  those the server keeps, none twice and at most one per topic, and those it lost by subscribing a known
  subscriber again; an unregistered server holds none.  Stopping a started server whose address resolves leaves the registry
  with what the others registered and the broker with the others' subscriptions and the lost ones.
\<close>

theorem server_lifecycle:
  assumes "(life_step (mem_http env bind) (mw_elsewhere (ident opts)) mw_ids (ident opts) valid)\<^sup>*\<^sup>*
      ((newRpcServer opts, w0), mw_ids w0, False, {}) ((s, w), others, gone, lost)"
    and "mw_inv w0" and "so_Name opts \<noteq> serviceName" and "ident opts \<notin> mw_ids w0"
  shows "mw_ids w = (if sr_registered s \<and> \<not> gone then insert (ident opts) others else others) \<and> ident opts \<notin> others \<and>
    mw_live w = mw_live w0 \<union> lost \<union> handles s \<and> (mw_live w0 \<union> lost) \<inter> handles s = {} \<and>
    handles_once s \<and> topic_once (sr_subscribers s) \<and> (sr_registered s \<or> handles s = {}) \<and>
    (if sr_started s \<and> \<not> isl (getAddr env (sr_opts s))
     then case server_Stop (mem_http env bind) closed s w of (e, s', w') \<Rightarrow>
       \<not> sr_registered s' \<and> handles s' = {} \<and> mw_ids w' = others \<and> mw_live w' = mw_live w0 \<union> lost
     else True)"
proof -
  have ok: "mem_http.life_ok (ident opts) (mw_live w0) ((s, w), others, gone, lost)"
    using mem_http.life_steps_inv [OF assms(1)] mem_http.newRpcServer_inv [OF assms(2,3) refl assms(4)] by blast
  then have inv: "mem_http.life_inv (ident opts) others gone (mw_live w0 \<union> lost) (s, w)" and gone: "gone \<longrightarrow> ident opts \<notin> mw_ids w"
    by (simp_all add: mem_http.life_ok_def)
  have never: "fst (wd_Deregister (mem_http env bind) svc w) = None" for svc w
    by (simp add: mem_http_def split: prod.split)
  have "case server_Stop (mem_http env bind) closed s w of (e, s', w') \<Rightarrow>
       \<not> sr_registered s' \<and> handles s' = {} \<and> mw_ids w' = others \<and> mw_live w' = mw_live w0 \<union> lost"
    if up: "sr_started s" "\<not> isl (getAddr env (sr_opts s))"
  proof -
    obtain e s' w' where r: "server_Stop (mem_http env bind) closed s w = (e, s', w')" by (metis prod_cases3)
    obtain a where "getAddr (wd_net (mem_http env bind)) (sr_opts s) = Inr a"
      using up(2) by (cases "getAddr env (sr_opts s)") (auto simp: mem_http_def)
    from mem_http.server_Stop_clears [OF inv up(1) this never r] r show ?thesis by simp
  qed
  moreover have "mw_ids w = (if sr_registered s \<and> \<not> gone then insert (ident opts) others else others)" "ident opts \<notin> others"
    using inv gone by (auto simp: mem_http.life_inv_def)
  ultimately show ?thesis using inv by (auto simp: mem_http.life_inv_def mem_http.held_def)
qed

theorem server_lifecycle_witness:
  "sr_registered (fst sample_started) \<and> mw_ids (snd sample_started) = {(''n'', ''v'', ''n-1'')} \<and>
   mw_ids (late (snd sample_started)) = {} \<and> mw_ids (snd sample_again) = {(''n'', ''v'', ''n-1'')} \<and>
   (case server_Stop (mem_http sample_net Inr) None (fst sample_again) (snd sample_again) of (e, s', w') \<Rightarrow> mw_ids w' = {} \<and> mw_live w' = {})"
proof -
  let ?wd = "mem_http sample_net Inr" let ?me = "ident sample_opts"
  let ?step = "life_step ?wd (mw_elsewhere ?me) mw_ids ?me (\<lambda>_. None)"
  obtain s w where start: "sample_started = (s, w)" by (cases sample_started)
  obtain s' w' where again: "sample_again = (s', w')" by (cases sample_again)
  have name: "so_Name sample_opts \<noteq> serviceName" by code_simp
  have me: "?me = (''n'', ''v'', ''n-1'')" by code_simp
  have "server_op ?wd (\<lambda>_. None) (newRpcServer sample_opts, sample_world) (s, w)"
    using server_op.start [of ?wd "\<lambda>_. None" "newRpcServer sample_opts" sample_world] start by (metis sample_started_def)
  from life_step.op [OF this, of "mw_elsewhere ?me" mw_ids ?me "{}" False "{}"]
  have 1: "?step\<^sup>*\<^sup>* ((newRpcServer sample_opts, sample_world), {}, False, {}) ((s, w), {}, False, {})" by auto
  note life = server_lifecycle [where opts = sample_opts and closed = None, OF _ sample_world_ok(1) name sample_world_ok(2), unfolded sample_world_ok(3,4)]
  have inv1: "mw_inv w" by (rule sample_started_inv [unfolded start snd_conv])
  have up: "sr_registered s" "sr_started s" using arg_cong [OF start, of fst] sample_started_up by simp_all
  have ids1: "mw_ids w = {?me}" using life [OF 1] up by simp
  have "?me \<notin> mw_ids (late w)" unfolding me by (rule late_expired [unfolded start snd_conv])
  with life_step.world [of "mw_elsewhere ?me" w "late w" ?wd mw_ids ?me "\<lambda>_. None" s "{}" False "{}"] ids1
  have "?step ((s, w), {}, False, {}) ((s, late w), mw_ids (late w) - {?me}, True, {})"
    by (simp add: mw_elsewhere_def late_def split: prod.split)
  with 1 have 2: "?step\<^sup>*\<^sup>* ((newRpcServer sample_opts, sample_world), {}, False, {}) ((s, late w), mw_ids (late w) - {?me}, True, {})"
    by (rule rtranclp.rtrancl_into_rtrancl)
  have ids2: "mw_ids (late w) = {}" using late_empty [of w] inv1 ids1 \<open>?me \<notin> mw_ids (late w)\<close> by auto
  have "server_op ?wd (\<lambda>_. None) (s, late w) (s', w')"
    using server_op.tick [OF up(2), of ?wd "\<lambda>_. None" "late w" "''now''" None] again [unfolded sample_again_def start prod.case] by simp
  from life_step.op [OF this, of "mw_elsewhere ?me" mw_ids ?me "{}" True "{}"] 2 ids2
  have 3: "?step\<^sup>*\<^sup>* ((newRpcServer sample_opts, sample_world), {}, False, {}) ((s', w'), {}, ?me \<notin> mw_ids w', {})"
    by (simp add: rtranclp.rtrancl_into_rtrancl)
  have up': "sr_registered s'" "sr_started s'" "\<not> isl (getAddr sample_net (sr_opts s'))" "?me \<in> mw_ids w'"
    using sample_again_up [unfolded again fst_conv snd_conv] me by simp_all
  show ?thesis unfolding start again fst_conv snd_conv using life [OF 3] up up' ids1 ids2 me by (auto split: prod.splits)
qed

end
