(* ===== verification/Handler_Types.thy ===== *)
theory Handler_Types
  imports Registry_Util
begin

text \<open>
  Handlers and subscribers as the server sees them by reflection: \<open>server/extractor.go\<close>, \<open>server/rpc_handler.go\<close>, the options of
  \<open>server/handler.go\<close> and \<open>server/doc.go\<close>, \<open>server/subscriber.go\<close>, and the parts of \<open>server/rpc_router.go\<close> that judge a type.

  What reflection sees of a Go type is a tree: its name, its package path, whether it implements \<open>Stream\<close>, and for a struct,
  a slice or a pointer what it is made of; names are ASCII and recursive types are left out.  The texts that \<open>extractMethodDoc\<close> finds in source files are an argument.
  An endpoint's metadata map is a value here, where Go shares the map that the caller gave to \<open>EndpointMetadata\<close>.
\<close>

section \<open>Types\<close>

record rfield =
  fd_Name :: string
  fd_PkgPath :: string
  fd_json :: string

datatype 'a rshape = SStruct "(rfield \<times> 'a) list" | SSlice 'a | SInterface | SFunc | SOther

datatype rtype =
    RPtr (rt_to: rtype) (rt_Stream: bool)
  | RType (rt_nm: string) (rt_PkgPath: string) (rt_Stream: bool) (rt_shape: "rtype rshape")

text \<open>The element of a pointer type, other types themselves; the name of a pointer type is empty.\<close>

fun rt_Elem :: "rtype \<Rightarrow> rtype" where
  "rt_Elem (RPtr t s) = t"
| "rt_Elem (RType n p s sh) = RType n p s sh"

fun rt_Name :: "rtype \<Rightarrow> string" where
  "rt_Name (RPtr t s) = []"
| "rt_Name (RType n p s sh) = n"

definition typeOfError :: rtype where
  "typeOfError = RType ''error'' [] False SInterface"

definition isExported :: "string \<Rightarrow> bool" where
  "isExported name \<longleftrightarrow> name \<noteq> [] \<and> CHR ''A'' \<le> hd name \<and> hd name \<le> CHR ''Z''"

fun isExportedOrBuiltinType :: "rtype \<Rightarrow> bool" where
  "isExportedOrBuiltinType (RPtr t s) = isExportedOrBuiltinType t"
| "isExportedOrBuiltinType (RType n p s sh) \<longleftrightarrow> isExported n \<or> p = []"

text \<open>A method's signature; the receiver is the first argument.\<close>

record rsig =
  me_Name :: string
  me_PkgPath :: string
  me_In :: "rtype list"
  me_Out :: "rtype list"

section \<open>Endpoints\<close>

text \<open>\<open>extractValue\<close>; its first argument is what is left of the three levels.\<close>

definition field_name :: "rfield \<Rightarrow> string option" where
  "field_name f =
     (let parts = go_split (CHR '','') (fd_json f);
          name = (if fd_json f \<noteq> [] then hd parts else fd_Name f);
          name' = (if name = [] then fd_Name f else name)
      in if fd_json f \<noteq> [] \<and> (hd parts = ''-'' \<or> hd parts = ''omitempty'') then None
         else if name' = [] then None else Some name')"

fun extractValue :: "nat \<Rightarrow> rtype \<Rightarrow> val option" where
  "extractValue 0 t = None"
| "extractValue (Suc n) t =
     (case rt_Elem t of
        RPtr t s \<Rightarrow> Some (Value [] [] [])
      | RType name p s sh \<Rightarrow>
          Some (case sh of
            SStruct fs \<Rightarrow>
              Value name name
                (List.map_filter (\<lambda>(f, t).
                   if fd_PkgPath f \<noteq> [] then None
                   else case extractValue n t of
                     None \<Rightarrow> None
                   | Some v \<Rightarrow> map_option (\<lambda>nm. Value nm (v_Type v) (v_Values v)) (field_name f)) fs)
          | SSlice p \<Rightarrow> Value name (''[]'' @ rt_Name (rt_Elem p)) []
          | _ \<Rightarrow> Value name name []))"

definition is_open_kind :: "rtype \<Rightarrow> bool" where
  "is_open_kind t = (case t of RType n p s SInterface \<Rightarrow> True | RType n p s SFunc \<Rightarrow> True | _ \<Rightarrow> False)"

definition extractEndpoint :: "'a rsig_scheme \<Rightarrow> endpoint option" where
  "extractEndpoint m =
     (if me_PkgPath m \<noteq> [] then None
      else let ep = (\<lambda>reqType rspType.
             Some \<lparr>ep_Request = extractValue 3 reqType, ep_Response = extractValue 3 rspType,
                   ep_Metadata = (if is_open_kind rspType then [(''stream'', ''true'')] else []), ep_Name = me_Name m\<rparr>)
           in if length (me_In m) = 3 then ep (me_In m ! 1) (me_In m ! 2)
              else if length (me_In m) = 4 then ep (me_In m ! 2) (me_In m ! 3)
              else None)"

definition extractSubValue :: "rtype list \<Rightarrow> val option" where
  "extractSubValue ins =
     (if length ins = 1 then extractValue 3 (ins ! 0)
      else if length ins = 2 then extractValue 3 (ins ! 1)
      else if length ins = 3 then extractValue 3 (ins ! 2)
      else None)"

section \<open>Handlers\<close>

type_synonym metadata_map = "(string, (string, string) go_map) go_map"

record handler_options =
  ho_Metadata :: metadata_map
  ho_Internal :: bool

definition md_entry :: "metadata_map \<Rightarrow> string \<Rightarrow> (string, string) go_map" where
  "md_entry M k = (case map_of M k of None \<Rightarrow> [] | Some m \<Rightarrow> m)"

definition EndpointMetadata :: "string \<Rightarrow> (string, string) go_map \<Rightarrow> handler_options \<Rightarrow> handler_options" where
  "EndpointMetadata name md ho = ho\<lparr>ho_Metadata := AList.update name md (ho_Metadata ho)\<rparr>"

definition InternalHandler :: "bool \<Rightarrow> handler_options \<Rightarrow> handler_options" where
  "InternalHandler b ho = ho\<lparr>ho_Internal := b\<rparr>"

text \<open>The description and the example of an endpoint.\<close>

definition add_doc :: "string \<times> string \<Rightarrow> (string, string) go_map \<Rightarrow> (string, string) go_map" where
  "add_doc d m =
     (let m = (if fst d \<noteq> [] then AList.update ''description'' (fst d) m else m)
      in if snd d \<noteq> [] then AList.update ''example'' (snd d) m else m)"

definition WithEndpointDocs :: "(string, string \<times> string) go_map \<Rightarrow> handler_options \<Rightarrow> handler_options" where
  "WithEndpointDocs docs ho =
     ho\<lparr>ho_Metadata := foldl (\<lambda>M (ep, d). AList.update ep (add_doc d (md_entry M ep)) M) (ho_Metadata ho) docs\<rparr>"

definition WithEndpointDescription :: "string \<Rightarrow> string \<Rightarrow> handler_options \<Rightarrow> handler_options" where
  "WithEndpointDescription ep d = EndpointMetadata ep [(''description'', d)]"

definition WithEndpointExample :: "string \<Rightarrow> string \<Rightarrow> handler_options \<Rightarrow> handler_options" where
  "WithEndpointExample ep e = EndpointMetadata ep [(''example'', e)]"

definition WithEndpointScopes :: "string \<Rightarrow> string list \<Rightarrow> handler_options \<Rightarrow> handler_options" where
  "WithEndpointScopes ep scopes = EndpointMetadata ep [(''scopes'', go_join '','' scopes)]"

text \<open>\<open>extractHandlerDocs\<close>: \<open>docs\<close> is what \<open>extractMethodDoc\<close> finds for a method.\<close>

definition extractHandlerDocs :: "(string \<Rightarrow> string \<times> string) \<Rightarrow> 'a rsig_scheme list \<Rightarrow> metadata_map" where
  "extractHandlerDocs docs ms =
     foldl (\<lambda>M m. if me_PkgPath m \<noteq> [] \<or> docs (me_Name m) = ([], []) then M
                  else AList.update (me_Name m) (add_doc (docs (me_Name m)) []) M) [] ms"

definition add_missing :: "(string, string) go_map \<Rightarrow> (string, string) go_map \<Rightarrow> (string, string) go_map" where
  "add_missing md e = foldl (\<lambda>e (k, v). if map_of e k = None then AList.update k v e else e) e md"

definition merge_auto :: "string \<Rightarrow> metadata_map \<Rightarrow> metadata_map \<Rightarrow> metadata_map" where
  "merge_auto name auto M =
     foldl (\<lambda>M (ep, md).
       AList.update (name @ ''.'' @ ep) (add_missing md (md_entry M (name @ ''.'' @ ep))) M) M auto"

definition put_all :: "(string, string) go_map \<Rightarrow> (string, string) go_map \<Rightarrow> (string, string) go_map" where
  "put_all kvs m = foldl (\<lambda>m (k, v). AList.update k v m) m kvs"

record rpcHandler =
  rh_name :: string
  rh_endpoints :: "endpoint list"
  rh_opts :: handler_options

text \<open>\<open>newRpcHandler\<close> on the name of the handler's type and its methods.\<close>

definition newRpcHandler ::
  "(string \<Rightarrow> string \<times> string) \<Rightarrow> string \<Rightarrow> 'a rsig_scheme list \<Rightarrow> (handler_options \<Rightarrow> handler_options) list \<Rightarrow> rpcHandler" where
  "newRpcHandler docs name ms opts =
     (let ho = foldl (\<lambda>ho f. f ho) \<lparr>ho_Metadata = [], ho_Internal = False\<rparr> opts;
          M = merge_auto name (extractHandlerDocs docs ms) (ho_Metadata ho);
          eps = List.map_filter (\<lambda>m. map_option (\<lambda>e.
                  let full = name @ ''.'' @ ep_Name e
                  in e\<lparr>ep_Name := full, ep_Metadata := put_all (md_entry M full) (ep_Metadata e)\<rparr>) (extractEndpoint m)) ms
      in \<lparr>rh_name = name, rh_endpoints = eps, rh_opts = ho\<lparr>ho_Metadata := M\<rparr>\<rparr>)"

section \<open>Subscribers\<close>

text \<open>A subscriber is a function or a value with methods, each with its signature.\<close>

datatype sub_shape = SubFunc "rtype list" "rtype list" | SubMethods string "rsig list"

record sub_handler =
  sh_reqType :: "rtype option"
  sh_ctxType :: "rtype option"

definition sub_args :: "rtype list \<Rightarrow> sub_handler" where
  "sub_args ins =
     (if length ins = 1 then \<lparr>sh_reqType = Some (ins ! 0), sh_ctxType = None\<rparr>
      else if length ins = 2 then \<lparr>sh_reqType = Some (ins ! 1), sh_ctxType = Some (ins ! 0)\<rparr>
      else \<lparr>sh_reqType = None, sh_ctxType = None\<rparr>)"

definition sub_endpoint :: "string \<Rightarrow> string \<Rightarrow> rtype list \<Rightarrow> endpoint" where
  "sub_endpoint topic name ins =
     \<lparr>ep_Request = extractSubValue ins, ep_Response = None, ep_Metadata = [(''topic'', topic), (''subscriber'', ''true'')], ep_Name = name\<rparr>"

text \<open>\<open>newSubscriber\<close>: its handlers and endpoints.\<close>

definition newSubscriber :: "string \<Rightarrow> sub_shape \<Rightarrow> sub_handler list \<times> endpoint list" where
  "newSubscriber topic sub =
     (case sub of
        SubFunc ins outs \<Rightarrow> ([sub_args ins], [sub_endpoint topic ''Func'' ins])
      | SubMethods name ms \<Rightarrow>
          (map (\<lambda>m. sub_args (tl (me_In m))) ms, map (\<lambda>m. sub_endpoint topic (name @ ''.'' @ me_Name m) (me_In m)) ms))"

text \<open>\<open>validateSubscriber\<close>: a function's or every method's signature, after its receiver.\<close>

datatype sub_error = WrongArgs nat | ArgNotExported rtype | WrongOuts nat | NotError rtype

definition validate_sig :: "nat \<Rightarrow> rtype list \<Rightarrow> rtype list \<Rightarrow> sub_error option" where
  "validate_sig n ins outs =
     (if length ins \<noteq> n then Some (WrongArgs (length ins))
      else if \<not> isExportedOrBuiltinType (ins ! (n - 1)) then Some (ArgNotExported (ins ! (n - 1)))
      else if length outs \<noteq> 1 then Some (WrongOuts (length outs))
      else if outs ! 0 \<noteq> typeOfError then Some (NotError (outs ! 0))
      else None)"

fun first_error :: "'e option list \<Rightarrow> 'e option" where
  "first_error [] = None"
| "first_error (e # es) = (case e of None \<Rightarrow> first_error es | Some x \<Rightarrow> Some x)"

definition validateSubscriber :: "sub_shape \<Rightarrow> sub_error option" where
  "validateSubscriber sub =
     (case sub of
        SubFunc ins outs \<Rightarrow> validate_sig 2 ins outs
      | SubMethods name ms \<Rightarrow> first_error (map (\<lambda>m. validate_sig 3 (me_In m) (me_Out m)) ms))"

section \<open>Lemmas\<close>

lemma first_error_None [simp]: "first_error es = None \<longleftrightarrow> list_all (\<lambda>e. e = None) es"
  by (induction es) (auto split: option.split)

text \<open>A subscriber that passes the check has handlers that know the type of their argument and take a context.\<close>

lemma validate_sig_None:
  "validate_sig n ins outs = None \<longleftrightarrow> length ins = n \<and> isExportedOrBuiltinType (ins ! (n - 1)) \<and> outs = [typeOfError]"
  by (auto simp: validate_sig_def length_Suc_conv)

lemma valid_subscriber_typed:
  assumes "validateSubscriber sub = None" and "h \<in> set (fst (newSubscriber topic sub))"
  shows "\<exists>t c. h = \<lparr>sh_reqType = Some t, sh_ctxType = Some c\<rparr> \<and> isExportedOrBuiltinType t"
proof (cases sub)
  case (SubFunc ins outs)
  then show ?thesis using assms by (auto simp: validateSubscriber_def validate_sig_None newSubscriber_def sub_args_def)
next
  case (SubMethods name ms)
  with assms(2) obtain m where m: "m \<in> set ms" "h = sub_args (tl (me_In m))" by (auto simp: newSubscriber_def)
  then have "validate_sig 3 (me_In m) (me_Out m) = None"
    using assms(1) SubMethods by (auto simp: validateSubscriber_def list_all_iff)
  then have "length (tl (me_In m)) = 2" "isExportedOrBuiltinType (tl (me_In m) ! 1)" by (auto simp: validate_sig_None nth_tl eval_nat_numeral)
  then show ?thesis using m(2) by (simp add: sub_args_def)
qed

text \<open>The depth of a published type description is at most three.\<close>

fun val_depth :: "val \<Rightarrow> nat" where
  "val_depth (Value n t vs) = Suc (foldr (\<lambda>v d. Orderings.max (val_depth v) d) vs 0)"

lemma foldr_max_le: "(\<And>v. v \<in> set vs \<Longrightarrow> f v \<le> n) \<Longrightarrow> foldr (\<lambda>v d. Orderings.max (f v) d) vs 0 \<le> (n :: nat)"
  by (induction vs) auto

lemma extractValue_depth: "extractValue n t = Some v \<Longrightarrow> val_depth v \<le> n"
proof (induction n arbitrary: t v)
  case (Suc n)
  have sub: "val_depth (Value nm (v_Type w) (v_Values w)) \<le> n" if "extractValue n u = Some w" for u w nm
    using Suc.IH [OF that] by (cases w) simp
  show ?case
  proof (cases "rt_Elem t")
    case (RType name p s sh)
    show ?thesis
    proof (cases sh)
      case (SStruct fs)
      have "val_depth x \<le> n" if "x \<in> set (v_Values v)" for x
        using that Suc.prems RType SStruct sub
        by (auto simp: map_filter_def split: if_splits option.splits)
      then have "foldr (\<lambda>v d. Orderings.max (val_depth v) d) (v_Values v) 0 \<le> n" by (rule foldr_max_le)
      then show ?thesis by (cases v) simp
    qed (use Suc.prems RType in auto)
  qed (use Suc.prems in auto)
qed simp

text \<open>
  The metadata that an option gave to an endpoint goes out with it, unless a later option named
  the same endpoint: \<open>EndpointMetadata\<close> replaces what earlier options gave.
\<close>

lemma later_option_replaces:
  "md_entry (ho_Metadata (WithEndpointExample ep x (WithEndpointScopes ep ss ho))) ep = [(''example'', x)]"
  by (simp add: WithEndpointExample_def WithEndpointScopes_def EndpointMetadata_def md_entry_def)

lemma put_all_lookup: "go_map kvs \<Longrightarrow> map_of (put_all kvs m) k = (case map_of kvs k of None \<Rightarrow> map_of m k | Some v \<Rightarrow> Some v)"
proof (induction kvs arbitrary: m)
  case (Cons kv kvs)
  obtain a b where kv: "kv = (a, b)" by (cases kv)
  have "go_map kvs" "a \<notin> fst ` set kvs" using Cons.prems by (auto simp: go_map_def kv)
  then have "map_of kvs a = None" by (simp add: map_of_eq_None_iff)
  then show ?case using Cons.IH [OF \<open>go_map kvs\<close>] by (auto simp: put_all_def kv split: option.split)
qed (simp add: put_all_def)

text \<open>The documentation found in the sources never replaces what an option gave.\<close>

lemma add_missing_keeps:
  "go_map e \<Longrightarrow> go_map (add_missing md e) \<and> (map_of e j = Some w \<longrightarrow> map_of (add_missing md e) j = Some w)"
  unfolding add_missing_def
proof (induction md arbitrary: e)
  case (Cons kv md)
  obtain k v where kv: "kv = (k, v)" by (cases kv)
  have "go_map (if map_of e k = None then AList.update k v e else e)" using Cons.prems by (auto intro: go_map_intros)
  from Cons.IH [OF this] show ?case by (auto simp: kv split: if_splits)
qed simp

lemma md_entry_update: "md_entry (AList.update k v M) j = (if j = k then v else md_entry M j)"
  by (simp add: md_entry_def)

lemma merge_auto_keeps:
  "go_map (md_entry M full) \<Longrightarrow> go_map (md_entry (merge_auto name auto M) full) \<and>
    (map_of (md_entry M full) j = Some w \<longrightarrow> map_of (md_entry (merge_auto name auto M) full) j = Some w)"
proof (induction auto arbitrary: M)
  case (Cons x auto)
  obtain ep md where x: "x = (ep, md)" by (cases x)
  define M' where "M' = AList.update (name @ ''.'' @ ep) (add_missing md (md_entry M (name @ ''.'' @ ep))) M"
  have "md_entry M' full = (if full = name @ ''.'' @ ep then add_missing md (md_entry M full) else md_entry M full)"
    by (simp only: M'_def md_entry_update split: if_split) simp
  then have "go_map (md_entry M' full)" "map_of (md_entry M full) j = Some w \<longrightarrow> map_of (md_entry M' full) j = Some w"
    using add_missing_keeps [OF Cons.prems] Cons.prems by (auto split: if_splits)
  moreover have "merge_auto name (x # auto) M = merge_auto name auto M'" by (simp add: merge_auto_def x M'_def)
  ultimately show ?case using Cons.IH [of M'] by simp
qed (simp add: merge_auto_def)

text \<open>The scopes that the last option gives to an endpoint are published with it.\<close>

lemma scopes_published:
  assumes "ep \<in> set (rh_endpoints (newRpcHandler docs name ms (opts @ [WithEndpointScopes full ss])))" and "ep_Name ep = full"
  shows "map_of (ep_Metadata ep) ''scopes'' = Some (go_join '','' ss) \<and> go_map (ep_Metadata ep)"
proof -
  let ?ho = "foldl (\<lambda>ho f. f ho) \<lparr>ho_Metadata = [], ho_Internal = False\<rparr> opts"
  let ?MD = "AList.update full [(''scopes'', go_join '','' ss)] (ho_Metadata ?ho)"
  let ?M = "merge_auto name (extractHandlerDocs docs ms) ?MD"
  have e: "go_map (md_entry ?M full)" "map_of (md_entry ?M full) ''scopes'' = Some (go_join '','' ss)"
    using merge_auto_keeps [of ?MD full name "extractHandlerDocs docs ms" "''scopes''" "go_join '','' ss"] by (auto simp: md_entry_update go_map_def)
  from assms(1) obtain m e0 where "m \<in> set ms" and m1: "extractEndpoint m = Some e0" and
      eq: "ep = e0\<lparr>ep_Name := name @ ''.'' @ ep_Name e0, ep_Metadata := put_all (md_entry ?M (name @ ''.'' @ ep_Name e0)) (ep_Metadata e0)\<rparr>"
    by (auto simp: newRpcHandler_def Let_def WithEndpointScopes_def EndpointMetadata_def map_filter_def)
  have "full = name @ ''.'' @ ep_Name e0" using arg_cong [OF eq, of ep_Name] assms(2) by simp
  then have m: "extractEndpoint m = Some e0" "full = name @ ''.'' @ ep_Name e0" "ep_Metadata ep = put_all (md_entry ?M full) (ep_Metadata e0)"
    using m1 arg_cong [OF eq, of ep_Metadata] by simp_all
  have g: "go_map (ep_Metadata e0)" using m(1) by (auto simp: extractEndpoint_def Let_def go_map_def split: if_splits)
  have "go_map (put_all kvs md)" if "go_map md" for kvs md :: "(string, string) go_map"
    using that by (induction kvs arbitrary: md) (auto simp: put_all_def intro: go_map_intros)
  then show ?thesis using m(3) g e put_all_lookup [OF e(1), of "ep_Metadata e0" "''scopes''"] by simp
qed

end
