(* ===== verification/Rpc_Router.thy ===== *)
theory Rpc_Router
  imports Server_Conn Handler_Types Micro_Errors
begin

text \<open>
  The server's router, \<open>server/rpc_router.go\<close>, its streams, \<open>server/rpc_stream.go\<close>,
  and \<open>serveReq\<close> of \<open>server/rpc_server.go\<close>, on top of the server's codec and the types of \<open>Handler_Types\<close>.

  A method is its signature and a function: a unary one maps the argument
  and the fresh reply to an error and the filled reply, a streaming one runs on the stream.  What \<open>reflect\<close> asks when
  it passes the context and the stream, whether the value can be assigned to the parameter's type, is part of a method; a call
  with a value that does not fit panics.  The zero value of a type
  is an argument.  \<open>ErrInvalidMessage\<close>, \<open>io.EOF\<close> and texts are the errors of \<open>Codecs\<close>; the error \<open>EOS\<close> is its text.
  A subscriber's handlers run on a state of the outside world.  The free lists of requests and responses, locks and
  logging are left out.
\<close>

section \<open>Types and methods\<close>

record ('v, 'c) sstream =
  ss_codec :: "'c serverCodec"
  ss_id :: string
  ss_err :: "cerr option"
  ss_closed :: bool
  ss_out :: "tmsg list"
  ss_names :: "string \<times> string \<times> string"

datatype ('v, 'c) mfunc =
    Unary "'v body \<Rightarrow> 'v body \<Rightarrow> string option \<times> 'v body"
  | Streaming "('v, 'c) sstream \<Rightarrow> string option \<times> ('v, 'c) sstream"

text \<open>\<open>me_takesContext\<close>: a context can be assigned to the second parameter; \<open>me_takesStream\<close>: an \<open>*rpcStream\<close> to the third.\<close>

record ('v, 'c) rmethod = rsig +
  me_takesContext :: bool
  me_takesStream :: bool
  me_Func :: "('v, 'c) mfunc"

record ('v, 'c) methodType =
  mt_ArgType :: rtype
  mt_ReplyType :: "rtype option"
  mt_ContextType :: rtype
  mt_method :: "('v, 'c) rmethod"
  mt_stream :: bool

record ('v, 'c) rservice =
  rv_name :: string
  rv_method :: "(string, ('v, 'c) methodType) go_map"

type_synonym ('v, 'c) service_map = "(string, ('v, 'c) rservice) go_map"

text \<open>\<open>prepareMethod\<close>; the receiver counts as the first argument.\<close>

definition prepareMethod :: "('v, 'c) rmethod \<Rightarrow> ('v, 'c) methodType option" where
  "prepareMethod m =
     (let ins = me_In m; outs = me_Out m; stream = (length ins = 3)
      in if me_PkgPath m \<noteq> [] then None
         else if length ins \<noteq> 3 \<and> length ins \<noteq> 4 then None
         else if stream \<and> \<not> rt_Stream (ins ! 2) then None
         else if \<not> stream \<and> \<not> isExportedOrBuiltinType (ins ! 2) then None
         else if \<not> stream \<and> \<not> is_RPtr (ins ! 3) then None
         else if \<not> stream \<and> \<not> isExportedOrBuiltinType (ins ! 3) then None
         else if length outs \<noteq> 1 then None
         else if outs ! 0 \<noteq> typeOfError then None
         else Some \<lparr>mt_ArgType = ins ! 2, mt_ReplyType = (if stream then None else Some (ins ! 3)), mt_ContextType = ins ! 1,
                    mt_method = m, mt_stream = stream\<rparr>)"

text \<open>\<open>Handle\<close>: the methods of a handler that suit are installed under its name.\<close>

definition install_methods :: "('v, 'c) rmethod list \<Rightarrow> (string, ('v, 'c) methodType) go_map" where
  "install_methods ms =
     foldl (\<lambda>tab m. case prepareMethod m of None \<Rightarrow> tab | Some mt \<Rightarrow> AList.update (me_Name m) mt tab) [] ms"

definition router_Handle :: "string \<Rightarrow> ('v, 'c) rmethod list \<Rightarrow> ('v, 'c) service_map \<Rightarrow> string option \<times> ('v, 'c) service_map" where
  "router_Handle name ms R =
     (if name = [] then (Some ''rpc.Handle: handler has no name'', R)
      else if \<not> isExported name then (Some (''rpc.Handle: type '' @ name @ '' is not exported''), R)
      else if map_of R name \<noteq> None then (Some (''rpc.Handle: service already defined: '' @ name), R)
      else let tab = install_methods ms
           in if tab = [] then (Some (''rpc Register: type '' @ name @ '' has no exported methods of suitable type''), R)
              else (None, AList.update name \<lparr>rv_name = name, rv_method = tab\<rparr> R))"

section \<open>Requests\<close>

record 'v rreq =
  qq_service :: string
  qq_contentType :: string
  qq_method :: string
  qq_endpoint :: string
  qq_header :: "hdr option"
  qq_body :: bytes
  qq_rawBody :: "'v body option"
  qq_stream :: bool

text \<open>The third argument of a handler function is the reply or the stream.\<close>

datatype ('v, 'c) rsp = RReply "'v body" | RStream "('v, 'c) sstream"

type_synonym ('v, 'c) hfun = "'v rreq \<Rightarrow> ('v, 'c) rsp \<Rightarrow> cerr option \<times> ('v, 'c) rsp"

definition wrap_all :: "('f \<Rightarrow> 'f) list \<Rightarrow> 'f \<Rightarrow> 'f" where
  "wrap_all ws f = foldr (\<lambda>w g. w g) ws f"

text \<open>\<open>readHeader\<close>: the error with \<open>keepReading\<close>, or the method found and the message.\<close>

definition readHeader ::
  "('z conn_scheme, 'v) codec_if \<Rightarrow> ('v, 'z conn_scheme) service_map \<Rightarrow> cerr + tmsg \<Rightarrow> 'z conn_scheme serverCodec \<Rightarrow>
    'z conn_scheme serverCodec \<times> (cerr \<times> bool + ('v, 'z conn_scheme) methodType \<times> message)" where
  "readHeader C R recv sc =
     (case server_ReadHeader C recv sc of
        (sc, Inl e) \<Rightarrow>
          (sc, Inl (if e = IO_EOF \<or> e = UnexpectedEOF then e else CErr (''rpc: router cannot decode request: '' @ cerr_text e), False))
      | (sc, Inr msg) \<Rightarrow>
          (let parts = go_split (CHR ''.'') (cm_Endpoint msg)
           in if length parts \<noteq> 2 then (sc, Inl (CErr (''rpc: service/endpoint request ill-formed: '' @ cm_Endpoint msg), True))
              else case map_of R (parts ! 0) of
                None \<Rightarrow> (sc, Inl (CErr (''rpc: can't find service '' @ parts ! 0), True))
              | Some svc \<Rightarrow>
                  (case map_of (rv_method svc) (parts ! 1) of
                     None \<Rightarrow> (sc, Inl (CErr (''rpc: can't find method '' @ parts ! 1), True))
                   | Some mt \<Rightarrow> (sc, Inr (mt, msg)))))"

text \<open>\<open>readRequest\<close>: the argument is the zero value of its type until the body is read into it.\<close>

definition readRequest ::
  "('z conn_scheme, 'v) codec_if \<Rightarrow> (rtype \<Rightarrow> 'v body) \<Rightarrow> ('v, 'z conn_scheme) service_map \<Rightarrow> cerr + tmsg \<Rightarrow> 'z conn_scheme serverCodec \<Rightarrow>
    'z conn_scheme serverCodec \<times> (cerr + ('v, 'z conn_scheme) methodType \<times> message \<times> 'v body option)" where
  "readRequest C zero R recv sc =
     (case readHeader C R recv sc of
        (sc, Inl (e, keepReading)) \<Rightarrow> (if keepReading then fst (server_ReadBody C BNil sc) else sc, Inl e)
      | (sc, Inr (mt, msg)) \<Rightarrow>
          if mt_stream mt
          then (if ci_String C = ''grpc'' then sc else fst (server_ReadBody C BNil sc), Inr (mt, msg, None))
          else (case server_ReadBody C (zero (rt_Elem (mt_ArgType mt))) sc of
                  (sc, argv, Some e) \<Rightarrow> (sc, Inl e)
                | (sc, argv, None) \<Rightarrow> (sc, Inr (mt, msg, Some argv))))"

definition response_message :: "string \<Rightarrow> message" where
  "response_message i =
     \<lparr>cm_Header = None, cm_Id = i, cm_Target = [], cm_Method = [], cm_Endpoint = [], cm_Error = [], cm_Body = [], cm_Type = Response_t\<rparr>"

definition sendResponse ::
  "('z conn_scheme, 'v) codec_if \<Rightarrow> message \<Rightarrow> 'v body \<Rightarrow> 'z conn_scheme serverCodec \<Rightarrow> 'z conn_scheme serverCodec \<times> (cerr + tmsg)" where
  "sendResponse C req reply sc = server_Write C (response_message (cm_Id req)) reply sc"

definition call_request :: "message \<Rightarrow> 'v body option \<Rightarrow> bool \<Rightarrow> 'v rreq" where
  "call_request msg argv stream =
     \<lparr>qq_service = cm_Target msg, qq_contentType = hget msg ''Content-Type'', qq_method = cm_Method msg, qq_endpoint = cm_Endpoint msg,
      qq_header = cm_Header msg, qq_body = cm_Body msg, qq_rawBody = argv, qq_stream = stream\<rparr>"

text \<open>The functions that are wrapped: the method's call, which panics when the parameters do not take the context and the stream,
  and for a stream how its end is reported.\<close>

definition unary_fn :: "bool \<Rightarrow> ('v body \<Rightarrow> 'v body \<Rightarrow> string option \<times> 'v body) \<Rightarrow> 'v body \<Rightarrow> ('v, 'c) hfun" where
  "unary_fn takes f argv req rsp =
     (if \<not> takes then (Some CPanic, rsp)
      else case rsp of RReply r \<Rightarrow> (case f argv r of (e, r) \<Rightarrow> (map_option CErr e, RReply r)) | RStream s \<Rightarrow> (Some CPanic, rsp))"

definition stream_fn :: "bool \<Rightarrow> (('v, 'c) sstream \<Rightarrow> string option \<times> ('v, 'c) sstream) \<Rightarrow> ('v, 'c) hfun" where
  "stream_fn takes g req rsp =
     (if \<not> takes then (Some CPanic, rsp)
      else case rsp of
        RReply r \<Rightarrow> (Some CPanic, rsp)
      | RStream s \<Rightarrow>
          (case g s of
             (Some e, s) \<Rightarrow> (Some (CErr e), RStream s)
           | (None, s) \<Rightarrow> (if ss_err s = Some IO_EOF \<or> ss_err s = Some UnexpectedEOF then None else Some (CErr ''EOS''), RStream s)))"

text \<open>\<open>call\<close>: the messages sent and the error.\<close>

definition service_call ::
  "('z conn_scheme, 'v) codec_if \<Rightarrow> (rtype \<Rightarrow> 'v body) \<Rightarrow> (('v, 'z conn_scheme) hfun \<Rightarrow> ('v, 'z conn_scheme) hfun) list \<Rightarrow>
    ('v, 'z conn_scheme) methodType \<Rightarrow> message \<Rightarrow> 'v body option \<Rightarrow> 'z conn_scheme serverCodec \<Rightarrow>
    'z conn_scheme serverCodec \<times> tmsg list \<times> cerr option" where
  "service_call C zero ws mt msg argv sc =
     (case (mt_stream mt, me_Func (mt_method mt)) of
        (False, Unary f) \<Rightarrow>
          (let fn = wrap_all ws (unary_fn (me_takesContext (mt_method mt)) f (the argv));
               replyv = RReply (case mt_ReplyType mt of None \<Rightarrow> BNil | Some t \<Rightarrow> zero (rt_Elem t))
           in case fn (call_request msg argv False) replyv of
                (Some e, _) \<Rightarrow> (sc, [], Some e)
              | (None, RStream s) \<Rightarrow> (sc, [], Some CPanic)
              | (None, RReply r) \<Rightarrow>
                  (case sendResponse C msg r sc of
                     (sc, Inl e) \<Rightarrow> (sc, [], Some e)
                   | (sc, Inr tm) \<Rightarrow> (sc, [tm], None)))
      | (True, Streaming g) \<Rightarrow>
          (let fn = wrap_all ws (stream_fn (me_takesContext (mt_method mt) \<and> me_takesStream (mt_method mt)) g);
               raw = \<lparr>ss_codec = sc, ss_id = cm_Id msg, ss_err = None, ss_closed = False, ss_out = [],
                      ss_names = (cm_Target msg, cm_Method msg, cm_Endpoint msg)\<rparr>
           in case fn (call_request msg argv True) (RStream raw) of
                (e, RStream s) \<Rightarrow> (ss_codec s, ss_out s, e)
              | (e, RReply r) \<Rightarrow> (sc, [], e))
      | _ \<Rightarrow> (sc, [], Some CPanic))"

definition router_ServeRequest ::
  "('z conn_scheme, 'v) codec_if \<Rightarrow> (rtype \<Rightarrow> 'v body) \<Rightarrow> (('v, 'z conn_scheme) hfun \<Rightarrow> ('v, 'z conn_scheme) hfun) list \<Rightarrow>
    ('v, 'z conn_scheme) service_map \<Rightarrow> cerr + tmsg \<Rightarrow> 'z conn_scheme serverCodec \<Rightarrow> 'z conn_scheme serverCodec \<times> tmsg list \<times> cerr option" where
  "router_ServeRequest C zero ws R recv sc =
     (case readRequest C zero R recv sc of
        (sc, Inl e) \<Rightarrow> (sc, [], Some e)
      | (sc, Inr (mt, msg, argv)) \<Rightarrow> service_call C zero ws mt msg argv sc)"

text \<open>\<open>serveReq\<close>: an error is written back under the header of the request.\<close>

definition error_message :: "hdr \<Rightarrow> string \<Rightarrow> message" where
  "error_message h e =
     \<lparr>cm_Header = Some h, cm_Id = [], cm_Target = [], cm_Method = [], cm_Endpoint = [], cm_Error = e, cm_Body = [], cm_Type = Error_t\<rparr>"

definition serveReq ::
  "('z conn_scheme, 'v) codec_if \<Rightarrow> (rtype \<Rightarrow> 'v body) \<Rightarrow> (('v, 'z conn_scheme) hfun \<Rightarrow> ('v, 'z conn_scheme) hfun) list \<Rightarrow>
    ('v, 'z conn_scheme) service_map \<Rightarrow> hdr \<Rightarrow> cerr + tmsg \<Rightarrow> 'z conn_scheme serverCodec \<Rightarrow> 'z conn_scheme serverCodec \<times> tmsg list" where
  "serveReq C zero ws R h recv sc =
     (case router_ServeRequest C zero ws R recv sc of
        (sc, tms, None) \<Rightarrow> (sc, tms)
      | (sc, tms, Some e) \<Rightarrow>
          (case server_Write C (error_message h (cerr_text e)) BNil sc of
             (sc, Inl _) \<Rightarrow> (sc, tms)
           | (sc, Inr tm) \<Rightarrow> (sc, tms @ [tm])))"

section \<open>Streams\<close>

text \<open>\<open>Send\<close> returns nil whatever happened; \<open>Recv\<close> is given what the socket delivers.\<close>

definition sstream_Send :: "('z conn_scheme, 'v) codec_if \<Rightarrow> 'v body \<Rightarrow> ('v, 'z conn_scheme) sstream \<Rightarrow> ('v, 'z conn_scheme) sstream" where
  "sstream_Send C msg s =
     (case ss_names s of (service, meth, endpoint) \<Rightarrow>
        let resp = \<lparr>cm_Header = None, cm_Id = ss_id s, cm_Target = service, cm_Method = meth, cm_Endpoint = endpoint, cm_Error = [],
                    cm_Body = [], cm_Type = Response_t\<rparr>
        in case server_Write C resp msg (ss_codec s) of
             (sc, Inl e) \<Rightarrow> s\<lparr>ss_codec := sc, ss_err := Some e\<rparr>
           | (sc, Inr tm) \<Rightarrow> s\<lparr>ss_codec := sc, ss_out := ss_out s @ [tm]\<rparr>)"

definition sstream_Recv ::
  "('z conn_scheme, 'v) codec_if \<Rightarrow> cerr + tmsg \<Rightarrow> 'v body \<Rightarrow> ('v, 'z conn_scheme) sstream \<Rightarrow> ('v, 'z conn_scheme) sstream \<times> 'v body \<times> cerr option" where
  "sstream_Recv C recv msg s =
     (case server_ReadHeader C recv (ss_codec s) of
        (sc, Inl e) \<Rightarrow> (s\<lparr>ss_codec := fst (server_ReadBody C BNil sc), ss_err := Some e\<rparr>, msg, Some e)
      | (sc, Inr req) \<Rightarrow>
          if cm_Error req = ''EOS'' then (s\<lparr>ss_codec := fst (server_ReadBody C BNil sc), ss_err := Some IO_EOF\<rparr>, msg, Some IO_EOF)
          else if cm_Error req \<noteq> [] then (s\<lparr>ss_codec := sc\<rparr>, msg, Some (CErr (cm_Error req)))
          else (case server_ReadBody C msg sc of
                  (sc, msg, None) \<Rightarrow> (s\<lparr>ss_codec := sc, ss_id := cm_Id req\<rparr>, msg, None)
                | (sc, msg, Some e) \<Rightarrow> (s\<lparr>ss_codec := sc, ss_id := cm_Id req, ss_err := Some e\<rparr>, msg, Some e)))"

definition sstream_Close :: "('v, 'z conn_scheme) sstream \<Rightarrow> ('v, 'z conn_scheme) sstream" where
  "sstream_Close s = s\<lparr>ss_closed := True, ss_codec := (ss_codec s)\<lparr>sc_codec := (sc_codec (ss_codec s))\<lparr>cn_r := [], cn_w := []\<rparr>\<rparr>\<rparr>"

section \<open>Events\<close>

text \<open>
  \<open>ProcessMessage\<close>.  A handler of a subscriber runs on the payload and the world, and ends well, with an error or in a panic, which is
  recovered.  The closure that calls it keeps its error in the variable \<open>err\<close> of \<open>ProcessMessage\<close>, which is the second part of the
  state that wrappers see.
\<close>

datatype hres = HOk | HErr string | HPanic string

record ('v, 'w) rsub_handler =
  hn_reqType :: rtype
  hn_run :: "'v body \<Rightarrow> 'w \<Rightarrow> hres \<times> 'w"

type_synonym ('v, 'w) sub_map = "(string, ('v, 'w) rsub_handler list list) go_map"

record 'v pmessage = rpcMessage +
  mg_payload :: "'v body"

type_synonym ('v, 'w) sfun = "'v pmessage \<Rightarrow> 'w \<times> string option \<Rightarrow> hres \<times> 'w \<times> string option"

definition sub_fn :: "('v body \<Rightarrow> 'w \<Rightarrow> hres \<times> 'w) \<Rightarrow> ('v, 'w) sfun" where
  "sub_fn hf msg st =
     (case hf (mg_payload msg) (fst st) of
        (HErr e, w) \<Rightarrow> (HErr e, w, Some e)
      | (HPanic p, w) \<Rightarrow> (HPanic p, w, snd st)
      | (HOk, w) \<Rightarrow> ((case snd st of None \<Rightarrow> HOk | Some e \<Rightarrow> HErr e), w, snd st))"

datatype perr = PCodec cerr | PMicro err

definition empty_message :: message where
  "empty_message = \<lparr>cm_Header = None, cm_Id = [], cm_Target = [], cm_Method = [], cm_Endpoint = [], cm_Error = [], cm_Body = [], cm_Type = Error_t\<rparr>"

fun process_handlers ::
  "('c, 'v) codec_if \<Rightarrow> (bytes \<Rightarrow> 'c) \<Rightarrow> (rtype \<Rightarrow> 'v body) \<Rightarrow> (('v, 'w) sfun \<Rightarrow> ('v, 'w) sfun) list \<Rightarrow> rpcMessage \<Rightarrow>
    string list \<Rightarrow> ('v, 'w) rsub_handler list \<Rightarrow> 'w \<Rightarrow> 'w \<times> perr option" where
  "process_handlers C newc zero ws msg errs [] w =
     (w, if errs = [] then None
         else Some (PMicro (InternalServerError ''real.micro.server'' ''subscriber error: %v'' [go_join [CHR 10] errs])))"
| "process_handlers C newc zero ws msg errs (h # hs) w =
     (case ci_ReadHeader C empty_message Event_t (newc (mg_body msg)) of
        (c, m, Some e) \<Rightarrow> (w, Some (PCodec e))
      | (c, m, None) \<Rightarrow>
          (case ci_ReadBody C (zero (rt_Elem (hn_reqType h))) c of
             (c, payload, Some e) \<Rightarrow> (w, Some (PCodec e))
           | (c, payload, None) \<Rightarrow>
               (case wrap_all ws (sub_fn (hn_run h)) (rpcMessage.extend msg \<lparr>mg_payload = payload\<rparr>) (w, None) of
                  (HPanic p, w, _) \<Rightarrow> (w, Some (PMicro (InternalServerError ''real.micro.server'' ''panic recovered: %v'' [p])))
                | (HErr e, w, _) \<Rightarrow> process_handlers C newc zero ws msg (errs @ [e]) hs w
                | (HOk, w, _) \<Rightarrow> process_handlers C newc zero ws msg errs hs w)))"

definition ProcessMessage ::
  "('c, 'v) codec_if \<Rightarrow> (bytes \<Rightarrow> 'c) \<Rightarrow> (rtype \<Rightarrow> 'v body) \<Rightarrow> (('v, 'w) sfun \<Rightarrow> ('v, 'w) sfun) list \<Rightarrow> ('v, 'w) sub_map \<Rightarrow>
    rpcMessage \<Rightarrow> 'w \<Rightarrow> 'w \<times> perr option" where
  "ProcessMessage C newc zero ws S msg w =
     (case map_of S (mg_topic msg) of
        None \<Rightarrow> (w, None)
      | Some subs \<Rightarrow> process_handlers C newc zero ws msg [] (concat subs) w)"

section \<open>Handlers\<close>

text \<open>The invariant of the table: every service has methods, all of them suitable.\<close>

definition suitable :: "('v, 'c) rmethod \<Rightarrow> bool" where
  "suitable m \<longleftrightarrow> prepareMethod m \<noteq> None"




text \<open>
  Every method of the table is published as an endpoint under its name.  For a streaming method the published request is the type of
  its context, and whether the endpoint is marked as a stream depends on the stream's type being an interface.
\<close>

lemma installed_published:
  assumes "prepareMethod m = Some mt"
  shows "\<exists>e. extractEndpoint m = Some e \<and> ep_Name e = me_Name m \<and>
    (if mt_stream mt then ep_Request e = extractValue 3 (mt_ContextType mt) \<and> (map_of (ep_Metadata e) ''stream'' = Some ''true'' \<longleftrightarrow> is_open_kind (mt_ArgType mt))
     else ep_Request e = extractValue 3 (mt_ArgType mt) \<and> ep_Response e = extractValue 3 (the (mt_ReplyType mt)) \<and> ep_Metadata e = [])"
  using assms
  by (auto simp: prepareMethod_def extractEndpoint_def Let_def is_open_kind_def split: if_splits rtype.splits)

section \<open>Remote calls\<close>

text \<open>What a call of an endpoint means, without any network: the error or the reply.\<close>

definition local_call :: "('v, 'c) service_map \<Rightarrow> (rtype \<Rightarrow> 'v body) \<Rightarrow> string \<Rightarrow> 'v body \<Rightarrow> string + 'v body" where
  "local_call R zero ep b =
     (let parts = go_split (CHR ''.'') ep
      in if length parts \<noteq> 2 then Inl (''rpc: service/endpoint request ill-formed: '' @ ep)
         else case map_of R (parts ! 0) of
           None \<Rightarrow> Inl (''rpc: can't find service '' @ parts ! 0)
         | Some svc \<Rightarrow>
             (case map_of (rv_method svc) (parts ! 1) of
                None \<Rightarrow> Inl (''rpc: can't find method '' @ parts ! 1)
              | Some mt \<Rightarrow>
                  (case me_Func (mt_method mt) of
                     Streaming _ \<Rightarrow> Inl []
                   | Unary f \<Rightarrow> (case f b (zero (rt_Elem (the (mt_ReplyType mt)))) of (Some e, _) \<Rightarrow> Inl e | (None, r) \<Rightarrow> Inr r))))"

text \<open>Every method is unary and takes a context, and the zero value of its argument type is a message; a message without bytes is the zero value.\<close>

definition unary_services :: "'v marshalling \<Rightarrow> (rtype \<Rightarrow> 'v body) \<Rightarrow> 'v \<Rightarrow> ('v, 'c) service_map \<Rightarrow> bool" where
  "unary_services mar zero p R \<longleftrightarrow>
     list_all (\<lambda>(_, svc). list_all (\<lambda>(_, mt). \<not> mt_stream mt \<and> mt_ReplyType mt \<noteq> None \<and> (\<exists>f. me_Func (mt_method mt) = Unary f) \<and>
       me_takesContext (mt_method mt) \<and> (\<exists>z. zero (rt_Elem (mt_ArgType mt)) = BProto z \<and> (proto_Marshal mar p = Inr [] \<longrightarrow> z = p))) (rv_method svc)) R"

lemma unary_servicesD:
  assumes "unary_services mar zero p R" and "map_of R sn = Some svc" and "map_of (rv_method svc) mn = Some mt"
  shows "\<not> mt_stream mt" and "mt_ReplyType mt \<noteq> None" and "\<exists>f. me_Func (mt_method mt) = Unary f"
    and "\<exists>z. zero (rt_Elem (mt_ArgType mt)) = BProto z \<and> (proto_Marshal mar p = Inr [] \<longrightarrow> z = p)"
    and "me_takesContext (mt_method mt)"
  using map_of_SomeD [OF assms(2)] map_of_SomeD [OF assms(3)] assms(1) by (fastforce simp: unary_services_def list_all_iff)+

lemma client_Write_proto:
  assumes "proto_ok mar p d"
  shows "\<exists>cc'. client_Write (proto_codec mar) (\<lambda>_. None) m (BProto p) cc = Some (cc', Inr \<lparr>tm_Header = client_header cc m, tm_Body = d\<rparr>)"
  using proto_okD(1) [OF assms]
  by (auto simp: client_Write_def proto_codec_def proto_Write_def client_send_def conn_Write_def client_header_def Let_def)

lemma setupProtocol_fields:
  assumes "md_at (tm_Header tm) H_Endpoint \<noteq> []" and "k \<noteq> H_Method"
  shows "tm_Body (fst (server_setupProtocol tm)) = tm_Body tm \<and> md_at (tm_Header (fst (server_setupProtocol tm))) k = md_at (tm_Header tm) k"
proof -
  have "getHeader H_Endpoint (tm_Header tm) \<noteq> []" using assms(1) by (simp add: getHeader_def)
  then show ?thesis using assms(2) by (simp add: server_setupProtocol_def Let_def)
qed

lemma complete_header_fields:
  assumes "complete_header tm = (tm1, cf, ct)" and "md_at (tm_Header tm) H_Endpoint \<noteq> []"
  shows "tm_Body tm1 = tm_Body tm" and "md_at (tm_Header tm1) H_Endpoint = md_at (tm_Header tm) H_Endpoint"
    and "md_at (tm_Header tm1) H_ID = md_at (tm_Header tm) H_ID" and "md_at (tm_Header tm1) H_Error = md_at (tm_Header tm) H_Error"
proof -
  define tm0 where "tm0 = (if md_at (tm_Header tm) ''Content-Type'' = [] then tm\<lparr>tm_Header := AList.update ''Content-Type'' DefaultContentType (tm_Header tm)\<rparr> else tm)"
  have tm0: "tm_Body tm0 = tm_Body tm" "md_at (tm_Header tm0) H_Endpoint = md_at (tm_Header tm) H_Endpoint"
    "md_at (tm_Header tm0) H_ID = md_at (tm_Header tm) H_ID" "md_at (tm_Header tm0) H_Error = md_at (tm_Header tm) H_Error"
    by (simp_all add: tm0_def)
  have "tm1 = fst (server_setupProtocol tm0)"
    using assms(1) by (simp add: complete_header_def tm0_def Let_def case_prod_beta split: if_splits)
  then show "tm_Body tm1 = tm_Body tm" "md_at (tm_Header tm1) H_Endpoint = md_at (tm_Header tm) H_Endpoint"
      "md_at (tm_Header tm1) H_ID = md_at (tm_Header tm) H_ID" "md_at (tm_Header tm1) H_Error = md_at (tm_Header tm) H_Error"
    using setupProtocol_fields [of tm0 H_ID] setupProtocol_fields [of tm0 H_Endpoint] setupProtocol_fields [of tm0 H_Error] tm0 assms(2) by simp_all
qed

lemma server_reads_proto:
  assumes "md_at (tm_Header tm) H_Endpoint \<noteq> []"
  shows "\<exists>sc' r. server_ReadHeader (proto_codec mar) (Inr tm) (server_newRpcCodec (proto_codec mar) tm c0) = (sc', Inr r) \<and>
    cm_Endpoint r = md_at (tm_Header tm) H_Endpoint \<and> cm_Id r = md_at (tm_Header tm) H_ID \<and> sc_req sc' = tm \<and> cn_r (sc_codec sc') = tm_Body tm"
  using assms
  by (simp add: server_ReadHeader_def server_newRpcCodec_def proto_codec_def proto_ReadHeader_def server_getHeaders_def new_message_def or_header_def hget_def Let_def)

lemma server_ReadBody_proto:
  assumes "proto_ok mar p d" and "tm_Body (sc_req sc) = d" and "cn_r (sc_codec sc) = d" and "d = [] \<Longrightarrow> z = p"
  shows "\<exists>sc'. server_ReadBody (proto_codec mar) (BProto z) sc = (sc', BProto p, None) \<and> sc_req sc' = sc_req sc"
  using assms proto_okD(2) [OF assms(1)]
  by (auto simp: server_ReadBody_def proto_codec_def proto_ReadBody_def Let_def)

lemma sendResponse_proto:
  assumes "proto_ok mar q e"
  shows "\<exists>sc' h. sendResponse (proto_codec mar) r (BProto q) sc = (sc', Inr \<lparr>tm_Header = h, tm_Body = e\<rparr>) \<and>
    md_at h H_ID = cm_Id r \<and> md_at h H_Error = []"
  using proto_okD(1) [OF assms]
  by (auto simp: sendResponse_def response_message_def server_Write_def server_body_def proto_codec_def proto_Write_def conn_Write_def
      server_setHeaders_def put_header_x_def md_at_def Let_def)

lemma error_written_proto:
  "\<exists>sc' h'. server_Write (proto_codec mar) (error_message h e) BNil sc = (sc', Inr \<lparr>tm_Header = h', tm_Body = []\<rparr>) \<and>
    md_at h' H_ID = md_at h H_ID \<and> (e \<noteq> [] \<longrightarrow> md_at h' H_Error = e)"
  by (auto simp: error_message_def server_Write_def server_body_def proto_codec_def proto_Write_def
      server_setHeaders_def put_header_x_def Let_def)

text \<open>The client reads the answer.\<close>

lemma client_reads_proto:
  "\<exists>cc' m'. client_ReadHeader (proto_codec mar) (Inr tm) (new_message [] []) Response_t cc = Some (cc', m', None) \<and>
    cm_Id m' = md_at (tm_Header tm) H_ID \<and> cm_Error m' = md_at (tm_Header tm) H_Error \<and> cn_r (cc_codec cc') = tm_Body tm"
  by (simp add: client_ReadHeader_def proto_codec_def proto_ReadHeader_def client_getHeaders_def new_message_def or_header_def hget_def)

lemma client_ReadBody_proto:
  "proto_ok mar q e \<Longrightarrow> cn_r (cc_codec cc) = e \<Longrightarrow> \<exists>cc'. client_ReadBody (proto_codec mar) (BProto t) cc = Some (cc', BProto q, None)"
  by (auto simp: client_ReadBody_def proto_codec_def proto_ReadBody_def proto_okD(2) Let_def)

text \<open>What the router does with a request it has read.\<close>

lemma ServeRequest_proto:
  fixes R :: "('v, conn) service_map"
  assumes ok: "proto_ok mar p d" and un: "unary_services mar zero p R"
    and h: "md_at (tm_Header tm) H_Endpoint = ep" "ep \<noteq> []" "md_at (tm_Header tm) H_ID = i" and body: "tm_Body tm = d"
    and fits: "\<And>r. local_call R zero ep (BProto p) = Inr r \<Longrightarrow> \<exists>q e. r = BProto q \<and> proto_ok mar q e"
  shows "\<exists>sc'. case local_call R zero ep (BProto p) of
      Inl e \<Rightarrow> router_ServeRequest (proto_codec mar) zero [] R (Inr tm) (server_newRpcCodec (proto_codec mar) tm c0) = (sc', [], Some (CErr e))
    | Inr r \<Rightarrow> (\<exists>q e h'. r = BProto q \<and> proto_ok mar q e \<and> md_at h' H_ID = i \<and> md_at h' H_Error = [] \<and>
        router_ServeRequest (proto_codec mar) zero [] R (Inr tm) (server_newRpcCodec (proto_codec mar) tm c0) = (sc', [\<lparr>tm_Header = h', tm_Body = e\<rparr>], None))"
proof -
  let ?C = "proto_codec mar" let ?sc = "server_newRpcCodec ?C tm c0" let ?parts = "go_split (CHR ''.'') ep"
  obtain sc1 r where r: "server_ReadHeader ?C (Inr tm) ?sc = (sc1, Inr r)" "cm_Endpoint r = ep" "cm_Id r = i" "sc_req sc1 = tm" "cn_r (sc_codec sc1) = d"
    using server_reads_proto [of tm mar c0] h body by auto
  show ?thesis
  proof (cases "length ?parts = 2 \<and> map_of R (?parts ! 0) \<noteq> None \<and> map_of (rv_method (the (map_of R (?parts ! 0)))) (?parts ! 1) \<noteq> None")
    case False
    then have "\<exists>e. local_call R zero ep (BProto p) = Inl e \<and> readHeader ?C R (Inr tm) ?sc = (sc1, Inl (CErr e, True))"
      using r by (cases "length ?parts = 2"; cases "map_of R (?parts ! 0)") (simp_all add: local_call_def readHeader_def)
    then show ?thesis by (auto simp: router_ServeRequest_def readRequest_def)
  next
    case True
    then obtain svc mt where mt: "map_of R (?parts ! 0) = Some svc" "map_of (rv_method svc) (?parts ! 1) = Some mt" by auto
    note u = unary_servicesD [OF un mt]
    obtain f z where f: "me_Func (mt_method mt) = Unary f" and z: "zero (rt_Elem (mt_ArgType mt)) = BProto z" "proto_Marshal mar p = Inr [] \<Longrightarrow> z = p"
      using u(3,4) by blast
    obtain rt where rt: "mt_ReplyType mt = Some rt" using u(2) by auto
    have hd: "readHeader ?C R (Inr tm) ?sc = (sc1, Inr (mt, r))" using True mt r by (simp add: readHeader_def Let_def)
    obtain sc2 where b: "server_ReadBody ?C (BProto z) sc1 = (sc2, BProto p, None)"
      using server_ReadBody_proto [OF ok, of sc1 z] r body z(2) proto_okD(1) [OF ok] by auto
    have call: "router_ServeRequest ?C zero [] R (Inr tm) ?sc = service_call ?C zero [] mt r (Some (BProto p)) sc2"
      using hd b u(1) z(1) by (simp add: router_ServeRequest_def readRequest_def)
    obtain e q where fq: "f (BProto p) (zero (rt_Elem rt)) = (e, q)" by (cases "f (BProto p) (zero (rt_Elem rt))")
    have loc: "local_call R zero ep (BProto p) = (case e of Some x \<Rightarrow> Inl x | None \<Rightarrow> Inr q)"
      using True mt f rt fq by (simp add: local_call_def Let_def split: option.split)
    show ?thesis
    proof (cases e)
      case (Some x)
      then show ?thesis using loc call f u(1,5) fq rt by (simp add: service_call_def wrap_all_def unary_fn_def Let_def)
    next
      case None
      with fits loc obtain q' e' where q': "q = BProto q'" "proto_ok mar q' e'" by auto
      from sendResponse_proto [OF q'(2), of r sc2] obtain sc3 h' where
        "sendResponse ?C r (BProto q') sc2 = (sc3, Inr \<lparr>tm_Header = h', tm_Body = e'\<rparr>)" "md_at h' H_ID = i" "md_at h' H_Error = []"
        using r(3) by auto
      then show ?thesis using None loc call f u(1,5) fq rt q' by (auto simp: service_call_def wrap_all_def unary_fn_def Let_def)
    qed
  qed
qed

section \<open>Events are delivered\<close>

text \<open>What the handlers of a topic do with a payload, one after the other: their errors, until one of them panics.\<close>

fun run_handlers :: "('v, 'w) rsub_handler list \<Rightarrow> 'v body \<Rightarrow> string list \<Rightarrow> 'w \<Rightarrow> 'w \<times> string list \<times> string option" where
  "run_handlers [] b errs w = (w, errs, None)"
| "run_handlers (h # hs) b errs w =
     (case hn_run h b w of
        (HOk, w) \<Rightarrow> run_handlers hs b errs w
      | (HErr e, w) \<Rightarrow> run_handlers hs b (errs @ [e]) w
      | (HPanic p, w) \<Rightarrow> (w, errs, Some p))"

definition report :: "string list \<Rightarrow> string option \<Rightarrow> perr option" where
  "report errs p =
     (case p of
        Some p \<Rightarrow> Some (PMicro (InternalServerError ''real.micro.server'' ''panic recovered: %v'' [p]))
      | None \<Rightarrow> if errs = [] then None
                else Some (PMicro (InternalServerError ''real.micro.server'' ''subscriber error: %v'' [go_join [CHR 10] errs])))"

definition new_conn :: "bytes \<Rightarrow> conn" where
  "new_conn b = \<lparr>cn_r = b, cn_w = []\<rparr>"

text \<open>The codec of the message is made anew for every handler, so that each reads the whole body.\<close>

lemma process_handlers_run:
  assumes "proto_ok mar p (mg_body msg)" and "\<And>h. h \<in> set hs \<Longrightarrow> \<exists>z. zero (rt_Elem (hn_reqType h)) = BProto z"
  shows "process_handlers (proto_codec mar) new_conn zero [] msg errs hs w =
    (case run_handlers hs (BProto p) errs w of (w, errs, pn) \<Rightarrow> (w, report errs pn))"
  using assms(2)
proof (induction hs arbitrary: errs w)
  case (Cons h hs)
  obtain z where z: "zero (rt_Elem (hn_reqType h)) = BProto z" using Cons.prems by auto
  have body: "ci_ReadBody (proto_codec mar) (BProto z) (new_conn (mg_body msg)) = (new_conn [], BProto p, None)"
    using proto_okD(2) [OF assms(1)] by (simp add: proto_codec_def proto_ReadBody_def new_conn_def Let_def)
  show ?case
    using Cons z body
    by (simp add: proto_codec_def proto_ReadHeader_def wrap_all_def sub_fn_def rpcMessage.defs report_def split: prod.split hres.split)
qed (simp add: report_def)

lemma ProcessMessage_runs:
  assumes "proto_ok mar p (mg_body msg)" and "map_of S (mg_topic msg) = Some subs"
    and "\<And>h. h \<in> set (concat subs) \<Longrightarrow> \<exists>z. zero (rt_Elem (hn_reqType h)) = BProto z"
  shows "ProcessMessage (proto_codec mar) new_conn zero [] S msg w =
    (case run_handlers (concat subs) (BProto p) [] w of (w, errs, pn) \<Rightarrow> (w, report errs pn))"
  unfolding ProcessMessage_def assms(2) option.case by (rule process_handlers_run [OF assms(1)]) (rule assms(3))

text \<open>
  A wrapper that calls the handler again after an error reports the error although the second call went well: the closure returns the
  variable of the first call.
\<close>

definition retry_once :: "('v, 'w) sfun \<Rightarrow> ('v, 'w) sfun" where
  "retry_once f msg st = (case f msg st of (HErr e, st) \<Rightarrow> f msg st | r \<Rightarrow> r)"

lemma retry_keeps_error:
  assumes "hf (mg_payload msg) w = (HErr e, w1)" and "hf (mg_payload msg) w1 = (HOk, w2)"
  shows "retry_once (sub_fn hf) msg (w, None) = (HErr e, w2, Some e)"
  using assms by (simp add: retry_once_def sub_fn_def)

section \<open>Typing\<close>
























section \<open>Properties\<close>


text \<open>
  C2.  A remote call is a local call: over the protobuf codec, a request of any endpoint that the client writes, ServeConn's completion
  of its header included, makes the server send exactly one message, and what the client reads from it is what the
  endpoint's method gives on the request's body.  A reply comes back with the id of the request and without an error; an
  ill-formed endpoint, an unknown service or method and an error of the method come back as the error of a message with the
  id of the request.  This is for unary methods that take a context, messages that the marshaller reads back, and errors whose text is not empty.
\<close>

theorem rpc_is_local_call:
  fixes R :: "('v, conn) service_map"
  assumes "proto_ok mar p d" and "unary_services mar zero p R" and "no_stale (base_header cc m) m" and "cm_Endpoint m \<noteq> []"
    and "\<And>r. local_call R zero (cm_Endpoint m) (BProto p) = Inr r \<Longrightarrow> \<exists>q e. r = BProto q \<and> proto_ok mar q e"
    and "local_call R zero (cm_Endpoint m) (BProto p) \<noteq> Inl []"
  shows "\<exists>cc1 tm tm1 cf ct sc' tm' cc2 m'. client_Write (proto_codec mar) (\<lambda>_. None) m (BProto p) cc = Some (cc1, Inr tm) \<and>
    complete_header tm = (tm1, cf, ct) \<and>
    serveReq (proto_codec mar) zero [] R (tm_Header tm1) (Inr tm1) (server_newRpcCodec (proto_codec mar) tm1 c0) = (sc', [tm']) \<and>
    client_ReadHeader (proto_codec mar) (Inr tm') (new_message [] []) Response_t cc1 = Some (cc2, m', None) \<and> cm_Id m' = cm_Id m \<and>
    (case local_call R zero (cm_Endpoint m) (BProto p) of
       Inl e \<Rightarrow> cm_Error m' = e
     | Inr r \<Rightarrow> cm_Error m' = [] \<and> (\<exists>cc3. client_ReadBody (proto_codec mar) (BProto t) cc2 = Some (cc3, r, None)))"
proof -
  let ?C = "proto_codec mar" let ?tm = "\<lparr>tm_Header = client_header cc m, tm_Body = d\<rparr>"
  obtain cc1 where w: "client_Write ?C (\<lambda>_. None) m (BProto p) cc = Some (cc1, Inr ?tm)"
    using client_Write_proto [OF assms(1)] by blast
  obtain tm1 cf ct where ch: "complete_header ?tm = (tm1, cf, ct)" by (metis prod_cases3)
  have agrees: "md_at (client_header cc m) H_Endpoint = cm_Endpoint m" "md_at (client_header cc m) H_ID = cm_Id m"
    using client_header_agrees [OF assms(3)] by (simp_all add: hdr_agrees_def)
  note fields = complete_header_fields [OF ch]
  have h: "md_at (tm_Header tm1) H_Endpoint = cm_Endpoint m" "md_at (tm_Header tm1) H_ID = cm_Id m" "tm_Body tm1 = d"
    using fields assms(4) agrees by simp_all
  from ServeRequest_proto [OF assms(1,2) h(1) assms(4) h(2,3) assms(5), of c0] obtain sc1 where
    served: "case local_call R zero (cm_Endpoint m) (BProto p) of
      Inl e \<Rightarrow> router_ServeRequest ?C zero [] R (Inr tm1) (server_newRpcCodec ?C tm1 c0) = (sc1, [], Some (CErr e))
    | Inr r \<Rightarrow> (\<exists>q e h'. r = BProto q \<and> proto_ok mar q e \<and> md_at h' H_ID = cm_Id m \<and> md_at h' H_Error = [] \<and>
        router_ServeRequest ?C zero [] R (Inr tm1) (server_newRpcCodec ?C tm1 c0) = (sc1, [\<lparr>tm_Header = h', tm_Body = e\<rparr>], None))"
    by blast
  show ?thesis
  proof (cases "local_call R zero (cm_Endpoint m) (BProto p)")
    case (Inl e)
    then have e: "e \<noteq> []" using assms(6) by auto
    obtain sc2 h' where "server_Write ?C (error_message (tm_Header tm1) e) BNil sc1 = (sc2, Inr \<lparr>tm_Header = h', tm_Body = []\<rparr>)"
        "md_at h' H_ID = cm_Id m" "md_at h' H_Error = e"
      using error_written_proto [of mar "tm_Header tm1" e sc1] e h(2) by auto
    moreover from this(1) have "serveReq ?C zero [] R (tm_Header tm1) (Inr tm1) (server_newRpcCodec ?C tm1 c0) = (sc2, [\<lparr>tm_Header = h', tm_Body = []\<rparr>])"
      using served Inl by (simp add: serveReq_def cerr_text_def)
    ultimately show ?thesis
      using w ch Inl client_reads_proto [of mar "\<lparr>tm_Header = h', tm_Body = []\<rparr>" cc1] by fastforce
  next
    case (Inr r)
    with served obtain q e h' where q: "r = BProto q" "proto_ok mar q e" "md_at h' H_ID = cm_Id m" "md_at h' H_Error = []"
        "serveReq ?C zero [] R (tm_Header tm1) (Inr tm1) (server_newRpcCodec ?C tm1 c0) = (sc1, [\<lparr>tm_Header = h', tm_Body = e\<rparr>])"
      by (auto simp: serveReq_def)
    obtain cc2 m' where m': "client_ReadHeader ?C (Inr \<lparr>tm_Header = h', tm_Body = e\<rparr>) (new_message [] []) Response_t cc1 = Some (cc2, m', None)"
        "cm_Id m' = cm_Id m" "cm_Error m' = []" "cn_r (cc_codec cc2) = e"
      using client_reads_proto [of mar "\<lparr>tm_Header = h', tm_Body = e\<rparr>" cc1] q(3,4) by auto
    from client_ReadBody_proto [OF q(2) m'(4)] show ?thesis using w ch Inr q m' by fastforce
  qed
qed

definition hello :: "(bytes, conn) rmethod" where
  "hello = \<lparr>me_Name = ''Hello'', me_PkgPath = [], me_In = [RPtr (RType ''Say'' ''main'' False (SStruct [])) False, RType ''Context'' ''context'' False SInterface,
       RPtr (RType ''Req'' ''pb'' False (SStruct [])) False, RPtr (RType ''Rsp'' ''pb'' False (SStruct [])) False], me_Out = [typeOfError],
     me_takesContext = True, me_takesStream = False, me_Func = Unary (\<lambda>b r. (None, BProto (case b of BProto p \<Rightarrow> 9 # p | _ \<Rightarrow> [])))\<rparr>"

definition sample_services :: "(bytes, conn) service_map" where
  "sample_services = snd (router_Handle ''Say'' [hello] [])"

definition sample_caller :: "conn clientCodec" where
  "sample_caller = client_newRpcCodec \<lparr>tm_Header = [(''Content-Type'', ''application/protobuf'')], tm_Body = []\<rparr> \<lparr>cn_r = [], cn_w = []\<rparr> []"

theorem rpc_is_local_call_witness:
  "\<exists>cc1 tm tm1 cf ct sc' tm' cc2 m' cc3. client_Write (proto_codec sample_marshalling) (\<lambda>_. None) (sample_message Request_t) (BProto [1, 2]) sample_caller = Some (cc1, Inr tm) \<and>
    complete_header tm = (tm1, cf, ct) \<and>
    serveReq (proto_codec sample_marshalling) (\<lambda>_. BProto []) [] sample_services (tm_Header tm1) (Inr tm1)
      (server_newRpcCodec (proto_codec sample_marshalling) tm1 \<lparr>cn_r = [], cn_w = []\<rparr>) = (sc', [tm']) \<and>
    client_ReadHeader (proto_codec sample_marshalling) (Inr tm') (new_message [] []) Response_t cc1 = Some (cc2, m', None) \<and> cm_Id m' = ''7'' \<and>
    client_ReadBody (proto_codec sample_marshalling) (BProto []) cc2 = Some (cc3, BProto [9, 1, 2], None)"
proof -
  have ok: "proto_ok sample_marshalling q q" for q by (simp add: proto_ok_def sample_marshalling_def)
  have R: "sample_services = [(''Say'', \<lparr>rv_name = ''Say'', rv_method = [(''Hello'', the (prepareMethod hello))]\<rparr>)]"
  proof -
    have "prepareMethod hello \<noteq> None" "me_Name hello = ''Hello''" by (simp_all add: prepareMethod_def hello_def typeOfError_def isExported_def)
    then show ?thesis by (auto simp: sample_services_def router_Handle_def install_methods_def isExported_def)
  qed
  have mt: "\<not> mt_stream (the (prepareMethod hello))" "mt_ReplyType (the (prepareMethod hello)) \<noteq> None"
    "mt_method (the (prepareMethod hello)) = hello"
    by (simp_all add: prepareMethod_def hello_def typeOfError_def isExported_def)
  have "unary_services sample_marshalling (\<lambda>_. BProto []) [1, 2] sample_services"
    using mt by (simp add: unary_services_def R sample_marshalling_def) (simp add: hello_def)
  moreover have loc: "local_call sample_services (\<lambda>_. BProto []) (cm_Endpoint (sample_message Request_t)) (BProto [1, 2]) = Inr (BProto [9, 1, 2])"
  proof -
    have "go_split (CHR ''.'') (cm_Endpoint (sample_message Request_t)) = [''Say'', ''Hello'']" by code_simp
    then show ?thesis using mt(3) by (simp add: local_call_def R Let_def) (simp add: hello_def)
  qed
  moreover have "no_stale (base_header sample_caller (sample_message Request_t)) (sample_message Request_t)" by code_simp
  moreover have "cm_Endpoint (sample_message Request_t) \<noteq> []" "cm_Id (sample_message Request_t) = ''7''" by (simp_all add: sample_message_def)
  moreover have "Ex (proto_ok sample_marshalling [9, 1, 2])" using ok by blast
  ultimately show ?thesis
    using rpc_is_local_call [OF ok, of "\<lambda>_. BProto []" "[1, 2]" sample_services sample_caller "sample_message Request_t" "\<lparr>cn_r = [], cn_w = []\<rparr>" "[]"]
    by auto
qed


end
