(* ===== verification/Rate_Limiter.thy ===== *)
theory Rate_Limiter
  imports Go_Prelude Complex_Main
begin

text \<open>
  The rate limiters of \<open>common/util/ratelimit\<close>: the token bucket of \<open>ratelimit.go\<close>, the window counter of \<open>period_limit.go\<close> and
  the distributed token bucket of \<open>token_limit.go\<close>, whose decisions are made by Lua scripts in Redis.

  Floating-point numbers, of Go and of Lua, are rationals: rounding is left out.  Times are integers that are not negative, nanoseconds in \<open>ratelimit.go\<close> and seconds in the scripts; a period of zero seconds, which panics with alignment, is left out.
  The commands of Redis that the scripts call are arguments, with laws; the in-process limiter that stands in when Redis fails
  is a result that is given.
\<close>

section \<open>The token bucket\<close>

record bucket =
  bk_rate :: rat
  bk_burst :: int
  bk_tokens :: rat
  bk_last :: int

definition NewRateLimiter :: "rat \<Rightarrow> int \<Rightarrow> int \<Rightarrow> bucket" where
  "NewRateLimiter rate burst now =
     (let burst = (if burst < 1 then 1 else burst)
      in \<lparr>bk_rate = rate, bk_burst = burst, bk_tokens = of_int burst, bk_last = now\<rparr>)"

definition seconds :: "int \<Rightarrow> rat" where
  "seconds ns = of_int ns / 1000000000"

definition bucket_Allow :: "int \<Rightarrow> bucket \<Rightarrow> bucket \<times> bool" where
  "bucket_Allow now r =
     (let tokens = bk_tokens r + seconds (now - bk_last r) * bk_rate r;
          tokens = (if tokens > of_int (bk_burst r) then of_int (bk_burst r) else tokens)
      in if tokens < 1 then (r\<lparr>bk_last := now, bk_tokens := tokens\<rparr>, False)
         else (r\<lparr>bk_last := now, bk_tokens := tokens - 1\<rparr>, True))"

fun bucket_run :: "bucket \<Rightarrow> int list \<Rightarrow> bucket \<times> bool list" where
  "bucket_run r [] = (r, [])"
| "bucket_run r (t # ts) = (let (r, a) = bucket_Allow t r; (r, as) = bucket_run r ts in (r, a # as))"

section \<open>The window counter\<close>

datatype permit = Unknown | Allowed | HitQuota | OverQuota

text \<open>What the answer of a script looks like to the client: Lua's \<open>false\<close> is nil, its \<open>true\<close> the integer 1.\<close>

datatype redis_reply = RNil | RErr | RInt int | ROther

record periodLimit =
  pl_period :: int
  pl_quota :: int
  pl_keyPrefix :: string
  pl_align :: bool

text \<open>The commands of Redis that the script calls: they take the time.\<close>

record 'db redis_ops =
  rd_INCRBY :: "string \<Rightarrow> int \<Rightarrow> int \<Rightarrow> 'db \<Rightarrow> 'db \<times> int"
  rd_expire :: "string \<Rightarrow> int \<Rightarrow> int \<Rightarrow> 'db \<Rightarrow> 'db"

definition periodScript :: "'db redis_ops \<Rightarrow> int \<Rightarrow> string \<Rightarrow> int \<Rightarrow> int \<Rightarrow> 'db \<Rightarrow> 'db \<times> int" where
  "periodScript R now key limit window db =
     (let (db, current) = rd_INCRBY R key 1 now db;
          db = (if current = 1 then rd_expire R key window now db else db)
      in (db, if current < limit then 1 else if current = limit then 2 else 0))"

text \<open>\<open>now\<close> is the local time, with the zone's offset.\<close>

definition calcExpireSeconds :: "int \<Rightarrow> periodLimit \<Rightarrow> int" where
  "calcExpireSeconds now h = (if pl_align h then pl_period h - now mod pl_period h else pl_period h)"

definition permit_of_reply :: "redis_reply \<Rightarrow> permit" where
  "permit_of_reply r =
     (case r of
        RInt code \<Rightarrow> if code = 0 then OverQuota else if code = 1 then Allowed else if code = 2 then HitQuota else Unknown
      | _ \<Rightarrow> Unknown)"

definition Take :: "'db redis_ops \<Rightarrow> int \<Rightarrow> int \<Rightarrow> string \<Rightarrow> periodLimit \<Rightarrow> 'db \<Rightarrow> 'db \<times> permit" where
  "Take R offset now key h db =
     (let (db, code) = periodScript R now (pl_keyPrefix h @ key) (pl_quota h) (calcExpireSeconds (now + offset) h) db
      in (db, permit_of_reply (RInt code)))"

section \<open>The distributed token bucket\<close>

text \<open>
  The script keeps the tokens and the time of the last refill under two keys, both until the same moment.  \<open>SETEX\<close> refuses an expiry
  of zero seconds, and the script fails.
\<close>

record token_db =
  td_tokens :: rat
  td_ts :: int
  td_until :: int

definition fill_ttl :: "int \<Rightarrow> int \<Rightarrow> int" where
  "fill_ttl rate capacity = \<lfloor>(of_int capacity / of_int rate) * 2 :: rat\<rfloor>"

definition token_script :: "int \<Rightarrow> int \<Rightarrow> int \<Rightarrow> int \<Rightarrow> token_db option \<Rightarrow> (token_db option \<times> bool) option" where
  "token_script rate capacity now requested db =
     (let ttl = fill_ttl rate capacity;
          live = (case db of None \<Rightarrow> None | Some d \<Rightarrow> if now < td_until d then Some d else None);
          last_tokens = (case live of None \<Rightarrow> of_int capacity | Some d \<Rightarrow> td_tokens d);
          last_refreshed = (case live of None \<Rightarrow> 0 | Some d \<Rightarrow> td_ts d);
          delta = Orderings.max 0 (now - last_refreshed);
          filled_tokens = Orderings.min (of_int capacity) (last_tokens + of_int (delta * rate));
          allowed = (filled_tokens \<ge> of_int requested);
          new_tokens = (if allowed then filled_tokens - of_int requested else filled_tokens)
      in if ttl \<le> 0 then None
         else Some (Some \<lparr>td_tokens = new_tokens, td_ts = now, td_until = now + ttl\<rparr>, allowed))"

record tokenLimiter =
  tl_redisAlive :: bool
  tl_monitorStarted :: bool

definition startMonitor :: "tokenLimiter \<Rightarrow> tokenLimiter" where
  "startMonitor lm =
     (if tl_monitorStarted lm then lm else lm\<lparr>tl_monitorStarted := True, tl_redisAlive := False\<rparr>)"

definition reserveN :: "redis_reply \<Rightarrow> bool \<Rightarrow> tokenLimiter \<Rightarrow> tokenLimiter \<times> bool" where
  "reserveN reply rescue lm =
     (if \<not> tl_redisAlive lm then (lm, rescue)
      else case reply of
        RNil \<Rightarrow> (lm, False)
      | RErr \<Rightarrow> (startMonitor lm, rescue)
      | ROther \<Rightarrow> (startMonitor lm, rescue)
      | RInt code \<Rightarrow> (lm, code = 1))"

text \<open>The goroutine \<open>waitForRedis\<close>: it pings, and when Redis answers it marks it alive and leaves.\<close>

datatype monitor = NoMonitor | Pinging | Leaving

inductive limiter_step :: "tokenLimiter \<times> monitor \<Rightarrow> tokenLimiter \<times> monitor \<Rightarrow> bool" where
  reserve: "limiter_step (lm, mon)
    (fst (reserveN reply rescue lm), if \<not> tl_monitorStarted lm \<and> tl_monitorStarted (fst (reserveN reply rescue lm)) then Pinging else mon)"
| ping_ok: "limiter_step (lm, Pinging) (lm\<lparr>tl_redisAlive := True\<rparr>, Leaving)"
| leave: "limiter_step (lm, Leaving) (lm\<lparr>tl_monitorStarted := False\<rparr>, NoMonitor)"

section \<open>Bounds of the bucket\<close>

definition bucket_ok :: "bucket \<Rightarrow> bool" where
  "bucket_ok r \<longleftrightarrow> 0 \<le> bk_tokens r \<and> bk_tokens r \<le> of_int (bk_burst r) \<and> 0 \<le> bk_rate r \<and> 1 \<le> bk_burst r"

lemma NewRateLimiter_ok: "0 \<le> rate \<Longrightarrow> bucket_ok (NewRateLimiter rate burst now)"
  by (simp add: bucket_ok_def NewRateLimiter_def)

lemma NewRateLimiter_fields:
  "bk_last (NewRateLimiter rate burst t0) = t0" "bk_rate (NewRateLimiter rate burst t0) = rate"
  "bk_burst (NewRateLimiter rate burst t0) = Orderings.max 1 burst" "bk_tokens (NewRateLimiter rate burst t0) = of_int (Orderings.max 1 burst)"
  by (simp_all add: NewRateLimiter_def Let_def max_def)

definition taken :: "bool \<Rightarrow> rat" where
  "taken a = (if a then 1 else 0)"

lemma bucket_Allow_step:
  assumes "bucket_ok r" and "bk_last r \<le> t" and "bucket_Allow t r = (r', a)"
  shows "bucket_ok r'" and "bk_last r' = t" and "bk_burst r' = bk_burst r" and "bk_rate r' = bk_rate r"
    and "taken a + bk_tokens r' \<le> bk_tokens r + seconds (t - bk_last r) * bk_rate r"
    and "taken a + bk_tokens r' \<le> of_int (bk_burst r)"
proof -
  have "0 \<le> seconds (t - bk_last r) * bk_rate r" using assms(1,2) by (simp add: seconds_def bucket_ok_def)
  moreover have "(1 :: rat) \<le> of_int (bk_burst r)" using assms(1) by (simp add: bucket_ok_def)
  ultimately show "bucket_ok r'" "bk_last r' = t" "bk_burst r' = bk_burst r" "bk_rate r' = bk_rate r"
      "taken a + bk_tokens r' \<le> bk_tokens r + seconds (t - bk_last r) * bk_rate r"
      "taken a + bk_tokens r' \<le> of_int (bk_burst r)"
    using assms by (auto simp: bucket_Allow_def bucket_ok_def taken_def Let_def split: if_splits)
qed

lemma seconds_add: "seconds (c - a) = seconds (b - a) + seconds (c - b)"
  by (simp add: seconds_def add_divide_distrib [symmetric])

lemma seconds_nonneg: "a \<le> b \<Longrightarrow> 0 \<le> seconds (b - a)"
  by (simp add: seconds_def)

text \<open>How many calls of a window of time were granted.\<close>

definition win_count :: "int \<Rightarrow> int \<Rightarrow> int list \<Rightarrow> bool list \<Rightarrow> nat" where
  "win_count a b ts as = length (filter (\<lambda>(t, g). g \<and> a \<le> t \<and> t \<le> b) (zip ts as))"

lemma win_count_simps [simp]:
  "win_count a b [] as = 0"
  "win_count a b (t # ts) (g # as) = (if g \<and> a \<le> t \<and> t \<le> b then Suc (win_count a b ts as) else win_count a b ts as)"
  by (simp_all add: win_count_def)

lemma win_count_snoc: "length ts = length as \<Longrightarrow>
    win_count a b (ts @ [t]) (as @ [g]) = win_count a b ts as + (if g \<and> a \<le> t \<and> t \<le> b then 1 else 0)"
  by (simp add: win_count_def)

lemma win_count_late: "(\<And>t. t \<in> set ts \<Longrightarrow> b < t) \<Longrightarrow> win_count a b ts as = 0"
  by (force simp: win_count_def filter_empty_conv dest!: set_zip_leftD)

lemma bucket_run_Cons: "bucket_Allow t r = (r', a) \<Longrightarrow> snd (bucket_run r (t # ts)) = a # snd (bucket_run r' ts)"
  by (simp add: case_prod_beta)

lemma bucket_until_bound:
  assumes "bucket_ok r" and "sorted (bk_last r # ts)" and "bk_last r \<le> b"
  shows "of_nat (win_count a b ts (snd (bucket_run r ts))) \<le> bk_tokens r + seconds (b - bk_last r) * bk_rate r"
  using assms
proof (induction ts arbitrary: r)
  case Nil
  then show ?case by (simp add: bucket_ok_def seconds_nonneg)
next
  case (Cons t ts)
  obtain r' g where al: "bucket_Allow t r = (r', g)" by (cases "bucket_Allow t r")
  have le: "bk_last r \<le> t" using Cons.prems(2) by simp
  note st = bucket_Allow_step [OF Cons.prems(1) le al]
  show ?case
  proof (cases "t \<le> b")
    case True
    have "of_nat (win_count a b ts (snd (bucket_run r' ts))) \<le> bk_tokens r' + seconds (b - t) * bk_rate r"
      using Cons.IH [OF st(1)] Cons.prems(2) st(2,4) True by simp
    moreover have "seconds (b - bk_last r) * bk_rate r = seconds (t - bk_last r) * bk_rate r + seconds (b - t) * bk_rate r"
      using seconds_add [where a = "bk_last r" and b = t and c = b] by (simp add: distrib_right)
    ultimately show ?thesis using st(5) bucket_run_Cons [OF al, of ts] by (auto simp: taken_def split: if_splits)
  next
    case False
    then have "win_count a b (t # ts) (snd (bucket_run r (t # ts))) = 0" using Cons.prems(2) by (intro win_count_late) auto
    then show ?thesis using Cons.prems(1,3) by (simp add: bucket_ok_def seconds_nonneg)
  qed
qed

lemma bucket_window_bound:
  assumes "bucket_ok r" and "sorted (bk_last r # ts)" and "a \<le> b"
  shows "of_nat (win_count a b ts (snd (bucket_run r ts))) \<le> of_int (bk_burst r) + seconds (b - a) * bk_rate r"
  using assms(1,2)
proof (induction ts arbitrary: r)
  case Nil
  then show ?case using assms(3) by (simp add: bucket_ok_def seconds_nonneg)
next
  case (Cons t ts)
  obtain r' g where al: "bucket_Allow t r = (r', g)" by (cases "bucket_Allow t r")
  have le: "bk_last r \<le> t" using Cons.prems(2) by simp
  note st = bucket_Allow_step [OF Cons.prems(1) le al]
  have srt: "sorted (bk_last r' # ts)" using Cons.prems(2) st(2) by simp
  consider "t < a" | "a \<le> t" "t \<le> b" | "b < t" by linarith
  then show ?case
  proof cases
    case 1
    then show ?thesis using Cons.IH [OF st(1) srt] st(3,4) bucket_run_Cons [OF al, of ts] by simp
  next
    case 2
    have "of_nat (win_count a b ts (snd (bucket_run r' ts))) \<le> bk_tokens r' + seconds (b - t) * bk_rate r"
      using bucket_until_bound [OF st(1) srt, of b] 2 st(2,4) by simp
    moreover have "seconds (b - t) * bk_rate r \<le> seconds (b - a) * bk_rate r"
      using 2 Cons.prems(1) by (auto simp: seconds_def bucket_ok_def intro!: mult_right_mono divide_right_mono)
    ultimately show ?thesis using st(6) bucket_run_Cons [OF al, of ts] by (auto simp: taken_def split: if_splits)
  next
    case 3
    then have "win_count a b (t # ts) (snd (bucket_run r (t # ts))) = 0" using Cons.prems(2) by (intro win_count_late) auto
    then show ?thesis using Cons.prems(1) assms(3) by (simp add: bucket_ok_def seconds_nonneg)
  qed
qed

lemma bucket_run_append:
  "bucket_run r (ts @ us) = (let (r, as) = bucket_run r ts; (r, bs) = bucket_run r us in (r, as @ bs))"
  by (induction ts arbitrary: r) (simp_all add: case_prod_beta Let_def)

lemma bucket_run_ok:
  assumes "bucket_ok r" and "sorted (bk_last r # ts)"
  shows "bucket_ok (fst (bucket_run r ts)) \<and> bk_last (fst (bucket_run r ts)) = last (bk_last r # ts) \<and>
    bk_burst (fst (bucket_run r ts)) = bk_burst r \<and> bk_rate (fst (bucket_run r ts)) = bk_rate r \<and> length (snd (bucket_run r ts)) = length ts"
  using assms
proof (induction ts arbitrary: r)
  case (Cons t ts)
  obtain r' a where al: "bucket_Allow t r = (r', a)" by (cases "bucket_Allow t r")
  have le: "bk_last r \<le> t" using Cons.prems(2) by simp
  note st = bucket_Allow_step [OF Cons.prems(1) le al]
  have "sorted (bk_last r' # ts)" using Cons.prems(2) st(2) by simp
  from Cons.IH [OF st(1) this] show ?case using st al by (simp add: case_prod_beta)
qed simp

text \<open>Calls far enough apart are all granted.\<close>

lemma bucket_spaced_step:
  assumes "bucket_ok r" and "bk_last r \<le> t" and "1 \<le> bk_tokens r + seconds (t - bk_last r) * bk_rate r"
  shows "snd (bucket_Allow t r)"
  using assms by (auto simp: bucket_Allow_def bucket_ok_def Let_def)

lemma sorted_Cons_take: "sorted (x # ts) \<Longrightarrow> sorted (x # take k ts)"
  using sorted_wrt_take [of "(\<le>)" "x # ts" "Suc k"] by simp

lemma sorted_last_le: "sorted (xs :: int list) \<Longrightarrow> x \<in> set xs \<Longrightarrow> x \<le> last xs"
  by (induction xs) (auto split: if_splits)

lemma bucket_run_nth:
  assumes "bucket_ok r" and "sorted (bk_last r # ts)" and "k < length ts"
  shows "snd (bucket_run r ts) ! k = snd (bucket_Allow (ts ! k) (fst (bucket_run r (take k ts))))"
proof -
  have "length (snd (bucket_run r (take k ts))) = k"
    using bucket_run_ok [OF assms(1) sorted_Cons_take [OF assms(2)], of k] assms(3) by simp
  moreover have "bucket_run r ts = bucket_run r (take k ts @ ts ! k # drop (Suc k) ts)" by (simp add: id_take_nth_drop [OF assms(3), symmetric])
  ultimately show ?thesis by (simp add: bucket_run_append case_prod_beta Let_def nth_append)
qed

lemma last_take_Suc: "k < length ts \<Longrightarrow> last (x # take (Suc k) ts) = ts ! k"
  by (simp add: take_Suc_conv_app_nth)

section \<open>The script's bucket\<close>

text \<open>A bucket that is kept forever: its tokens and the time of the last refill.\<close>

definition token_ref :: "int \<Rightarrow> int \<Rightarrow> int \<Rightarrow> int \<Rightarrow> rat \<times> int \<Rightarrow> (rat \<times> int) \<times> bool" where
  "token_ref rate capacity now requested st =
     (let filled = Orderings.min (of_int capacity) (fst st + of_int (Orderings.max 0 (now - snd st) * rate));
          allowed = (filled \<ge> of_int requested)
      in ((if allowed then filled - of_int requested else filled, now), allowed))"

definition token_rel :: "int \<Rightarrow> int \<Rightarrow> token_db option \<Rightarrow> rat \<times> int \<Rightarrow> bool" where
  "token_rel rate capacity db st \<longleftrightarrow>
     (case db of
        None \<Rightarrow> st = (of_int capacity, 0)
      | Some d \<Rightarrow> td_tokens d = fst st \<and> td_ts d = snd st \<and> td_until d = snd st + fill_ttl rate capacity \<and> 0 \<le> fst st)"

lemma fill_ttl_pos: "0 < rate \<Longrightarrow> 0 < fill_ttl rate capacity \<longleftrightarrow> rate \<le> 2 * capacity"
proof -
  assume r: "0 < rate"
  have "0 < fill_ttl rate capacity \<longleftrightarrow> (1 :: rat) \<le> of_int capacity / of_int rate * 2" by (simp add: fill_ttl_def zero_less_floor)
  also have "\<dots> \<longleftrightarrow> (of_int rate :: rat) \<le> of_int (2 * capacity)" using r by (simp add: field_simps)
  finally show ?thesis by (simp only: of_int_le_iff)
qed

lemma half_le: "x * 2 < y + 1 \<Longrightarrow> 1 \<le> y \<Longrightarrow> x \<le> (y :: rat)"
  by linarith

lemma fill_ttl_fills:
  assumes "0 < rate" and "rate \<le> 2 * capacity"
  shows "capacity \<le> fill_ttl rate capacity * rate"
proof -
  let ?x = "of_int capacity / of_int rate :: rat"
  have t: "1 \<le> fill_ttl rate capacity" using fill_ttl_pos [OF assms(1), of capacity] assms(2) by linarith
  have "?x * 2 < of_int (fill_ttl rate capacity) + 1" using floor_correct [of "?x * 2"] by (simp add: fill_ttl_def)
  moreover have "(1 :: rat) \<le> of_int (fill_ttl rate capacity)" using t by simp
  ultimately have "?x \<le> of_int (fill_ttl rate capacity)" by (rule half_le)
  then have "(of_int capacity :: rat) \<le> of_int (fill_ttl rate capacity * rate)" using assms(1) by (simp add: field_simps)
  then show ?thesis by (simp only: of_int_le_iff)
qed

lemma token_script_refines:
  assumes "0 < rate" and "rate \<le> 2 * capacity" and "token_rel rate capacity db st" and "snd st \<le> now" and "0 \<le> requested" and "0 \<le> now"
  shows "\<exists>db'. token_script rate capacity now requested db = Some (db', snd (token_ref rate capacity now requested st)) \<and>
    token_rel rate capacity db' (fst (token_ref rate capacity now requested st))"
proof -
  have ttl: "0 < fill_ttl rate capacity" using fill_ttl_pos [OF assms(1)] assms(2) by simp
  have cap: "0 \<le> capacity" using assms(1,2) by linarith
  let ?f = "Orderings.min (of_int capacity) (fst st + of_int (Orderings.max 0 (now - snd st) * rate)) :: rat"
  have full: "?f = of_int capacity" if "\<not> now < snd st + fill_ttl rate capacity" "0 \<le> fst st"
  proof -
    have "fill_ttl rate capacity * rate \<le> (now - snd st) * rate" using that(1) assms(1) by (intro mult_right_mono) auto
    then have "capacity \<le> Orderings.max 0 (now - snd st) * rate" using fill_ttl_fills [OF assms(1,2)] assms(4) by (simp add: max_def)
    then have "(of_int capacity :: rat) \<le> of_int (Orderings.max 0 (now - snd st) * rate)" by (simp only: of_int_le_iff)
    then show ?thesis using that(2) by linarith
  qed
  have f0: "0 \<le> ?f" if "0 \<le> fst st"
  proof -
    have "0 \<le> Orderings.max 0 (now - snd st) * rate" using assms(1) by simp
    then have "(0 :: rat) \<le> of_int (Orderings.max 0 (now - snd st) * rate)" by (simp only: of_int_0_le_iff)
    then show ?thesis using that cap by simp
  qed
  show ?thesis
  proof (cases db)
    case None
    then have st: "st = (of_int capacity, 0)" using assms(3) by (simp add: token_rel_def)
    then have "?f = of_int capacity" using assms(1,6) by simp
    then show ?thesis using None ttl assms cap by (auto simp: token_script_def token_ref_def token_rel_def Let_def st)
  next
    case (Some d)
    then have d: "td_tokens d = fst st" "td_ts d = snd st" "td_until d = snd st + fill_ttl rate capacity" "0 \<le> fst st"
      using assms(3) by (auto simp: token_rel_def)
    show ?thesis
    proof (cases "now < td_until d")
      case True
      then show ?thesis using Some ttl d f0 assms(5) by (auto simp: token_script_def token_ref_def token_rel_def Let_def)
    next
      case False
      then have "?f = of_int capacity" using full d by simp
      moreover have "Orderings.min (of_int capacity) (of_int capacity + of_int (Orderings.max 0 now * rate)) = (of_int capacity :: rat)"
        using assms(1) by simp
      ultimately show ?thesis using Some False ttl cap by (auto simp: token_script_def token_ref_def token_rel_def Let_def)
    qed
  qed
qed

text \<open>A rate of more than twice the burst makes the script fail at every call.\<close>

lemma token_script_fails: "0 < rate \<Longrightarrow> 2 * capacity < rate \<Longrightarrow> token_script rate capacity now n db = None"
  using fill_ttl_pos [of rate capacity] by (simp add: token_script_def Let_def)

text \<open>Redis counts as dead exactly while the monitor pings, so that it is always asked again.\<close>

definition limiter_inv :: "tokenLimiter \<times> monitor \<Rightarrow> bool" where
  "limiter_inv st \<longleftrightarrow> (tl_monitorStarted (fst st) \<longleftrightarrow> snd st \<noteq> NoMonitor) \<and> (tl_redisAlive (fst st) \<longleftrightarrow> snd st \<noteq> Pinging)"

lemma limiter_step_inv: "limiter_step st st' \<Longrightarrow> limiter_inv st \<Longrightarrow> limiter_inv st'"
  by (induction rule: limiter_step.induct)
    (auto simp: limiter_inv_def reserveN_def startMonitor_def split: redis_reply.splits if_splits)

lemma limiter_reachable_inv:
  "limiter_step\<^sup>*\<^sup>* (\<lparr>tl_redisAlive = True, tl_monitorStarted = False\<rparr>, NoMonitor) st \<Longrightarrow> limiter_inv st"
  by (induction rule: rtranclp_induct) (auto simp: limiter_inv_def dest: limiter_step_inv)

section \<open>The window counter over Redis\<close>

text \<open>
  The documented behaviour of the two commands: \<open>entry\<close> is a key's number with the moment it expires, an expired entry is gone, \<open>INCRBY\<close> makes a missing number
  from zero and keeps an expiry, \<open>EXPIRE\<close> sets it, and no other key changes.
\<close>

definition live :: "int \<Rightarrow> (int \<times> int option) option \<Rightarrow> (int \<times> int option) option" where
  "live now e = (case e of Some (v, Some x) \<Rightarrow> if now < x then e else None | _ \<Rightarrow> e)"

locale redis_counters =
  fixes R :: "'db redis_ops" and entry :: "'db \<Rightarrow> string \<Rightarrow> (int \<times> int option) option"
  assumes incrby: "rd_INCRBY R k n now db = (db', v) \<Longrightarrow>
      entry db' = (entry db)(k \<mapsto> (v, case live now (entry db k) of None \<Rightarrow> None | Some (_, x) \<Rightarrow> x)) \<and>
      v = (case live now (entry db k) of None \<Rightarrow> n | Some (c, _) \<Rightarrow> c + n)"
    and expire: "entry db k = Some (v, x) \<Longrightarrow> entry (rd_expire R k w now db) = (entry db)(k \<mapsto> (v, Some (now + w)))"
begin

text \<open>What the script does to the counters: a counter and its expiry.\<close>

lemma periodScript_effect:
  assumes "live now (entry db k) = None \<or> (\<exists>c x. live now (entry db k) = Some (c, Some x) \<and> 1 \<le> c)"
  shows "entry (fst (periodScript R now k limit w db)) =
      (entry db)(k \<mapsto> (case live now (entry db k) of None \<Rightarrow> (1, Some (now + w)) | Some (c, x) \<Rightarrow> (c + 1, x)))"
    and "snd (periodScript R now k limit w db) =
      (let c = (case live now (entry db k) of None \<Rightarrow> 1 | Some (c, x) \<Rightarrow> c + 1) in if c < limit then 1 else if c = limit then 2 else 0)"
proof -
  obtain db' v where i: "rd_INCRBY R k 1 now db = (db', v)" by (cases "rd_INCRBY R k 1 now db")
  note e = incrby [OF i]
  have x: "entry db' k = Some (v, case live now (entry db k) of None \<Rightarrow> None | Some (_, x) \<Rightarrow> x)" using e by simp
  show "entry (fst (periodScript R now k limit w db)) =
      (entry db)(k \<mapsto> (case live now (entry db k) of None \<Rightarrow> (1, Some (now + w)) | Some (c, x) \<Rightarrow> (c + 1, x)))"
    using assms e expire [OF x, of w now] by (auto simp: periodScript_def i Let_def)
  show "snd (periodScript R now k limit w db) =
      (let c = (case live now (entry db k) of None \<Rightarrow> 1 | Some (c, x) \<Rightarrow> c + 1) in if c < limit then 1 else if c = limit then 2 else 0)"
    using e by (auto simp: periodScript_def i Let_def split: option.split)
qed

end

text \<open>The specification: every key has a window with a count, opened by the first call after the last window ended.\<close>

type_synonym windows = "string \<Rightarrow> (int \<times> int) option"

definition window_take :: "int \<Rightarrow> string \<Rightarrow> int \<Rightarrow> windows \<Rightarrow> windows \<times> int" where
  "window_take now k w W =
     (case W k of
        Some (c, x) \<Rightarrow> if now < x then (W(k \<mapsto> (c + 1, x)), c + 1) else (W(k \<mapsto> (1, now + w)), 1)
      | None \<Rightarrow> (W(k \<mapsto> (1, now + w)), 1))"

definition permit_of :: "int \<Rightarrow> int \<Rightarrow> permit" where
  "permit_of quota c = (if c < quota then Allowed else if c = quota then HitQuota else OverQuota)"

definition counts :: "('db \<Rightarrow> string \<Rightarrow> (int \<times> int option) option) \<Rightarrow> 'db \<Rightarrow> windows \<Rightarrow> bool" where
  "counts entry db W \<longleftrightarrow> (\<forall>k. entry db k = map_option (\<lambda>(c, x). (c, Some x)) (W k)) \<and> (\<forall>k c x. W k = Some (c, x) \<longrightarrow> 1 \<le> c)"

context redis_counters
begin

lemma Take_refines:
  assumes "counts entry db W"
  shows "(let (db', p) = Take R offset now key h db;
              (W', c) = window_take now (pl_keyPrefix h @ key) (calcExpireSeconds (now + offset) h) W
          in counts entry db' W' \<and> p = permit_of (pl_quota h) c)"
proof -
  let ?k = "pl_keyPrefix h @ key" let ?w = "calcExpireSeconds (now + offset) h"
  have l: "live now (entry db ?k) = (case W ?k of Some (c, x) \<Rightarrow> if now < x then Some (c, Some x) else None | None \<Rightarrow> None)"
    using assms by (auto simp: counts_def live_def split: option.split prod.split)
  have pre: "live now (entry db ?k) = None \<or> (\<exists>c x. live now (entry db ?k) = Some (c, Some x) \<and> 1 \<le> c)"
    using assms l by (auto simp: counts_def split: option.splits prod.splits if_splits)
  note eff = periodScript_effect [OF pre, of "pl_quota h" ?w]
  have pos: "0 \<le> c" if "W ?k = Some (c, x)" for c x using assms that unfolding counts_def by fastforce
  have "counts entry (fst (periodScript R now ?k (pl_quota h) ?w db)) (fst (window_take now ?k ?w W))"
    using assms l by (auto dest: pos simp: counts_def eff(1) window_take_def split: option.splits prod.splits if_splits)
  moreover have "snd (Take R offset now key h db) = permit_of (pl_quota h) (snd (window_take now ?k ?w W))"
    using eff(2) l by (auto simp: Take_def permit_of_def permit_of_reply_def window_take_def Let_def case_prod_beta split: option.splits prod.splits if_splits)
  ultimately show ?thesis by (simp add: Take_def case_prod_beta Let_def)
qed

end

text \<open>An aligned window ends at a multiple of the period.\<close>

lemma calcExpireSeconds_aligned:
  assumes "0 < pl_period h" and "pl_align h"
  shows "0 < calcExpireSeconds now h \<and> calcExpireSeconds now h \<le> pl_period h \<and> (now + calcExpireSeconds now h) mod pl_period h = 0"
  using assms pos_mod_bound [OF assms(1), of now] pos_mod_sign [OF assms(1), of now]
  by (auto simp: calcExpireSeconds_def mod_add_eq algebra_simps) (metis add.commute add_diff_cancel_left' minus_mod_eq_mult_div mod_add_self1 mod_mult_self1_is_0)

text \<open>A Redis of counters, which shows that the laws can hold.\<close>

definition map_redis :: "(string \<Rightarrow> (int \<times> int option) option) redis_ops" where
  "map_redis = \<lparr>
     rd_INCRBY = (\<lambda>k n now db.
       let v = (case live now (db k) of None \<Rightarrow> n | Some (c, _) \<Rightarrow> c + n)
       in (db(k \<mapsto> (v, case live now (db k) of None \<Rightarrow> None | Some (_, x) \<Rightarrow> x)), v)),
     rd_expire = (\<lambda>k w now db. case db k of None \<Rightarrow> db | Some (v, x) \<Rightarrow> db(k \<mapsto> (v, Some (now + w))))\<rparr>"

interpretation map_redis: redis_counters map_redis "\<lambda>db. db"
  by unfold_locales (auto simp: map_redis_def Let_def)

text \<open>
  The counter of a period, over any Redis whose commands do what they document: every key has windows, the first call after a window's end opens one for the period, or
  up to the next multiple of the period when aligned, and the \<open>n\<close>-th call in a window is allowed below the quota, hits it as the quota-th and is refused after that.  Calls for other keys do not matter.
\<close>

lemma period_limit_counts:
  assumes "redis_counters R entry" and "counts entry db W" and "0 < pl_period h"
  shows "let (db', p) = Take R offset now key h db;
             w = calcExpireSeconds (now + offset) h;
             (W', c) = window_take now (pl_keyPrefix h @ key) w W
         in counts entry db' W' \<and> p = permit_of (pl_quota h) c \<and>
            (if pl_align h then 0 < w \<and> w \<le> pl_period h \<and> (now + offset + w) mod pl_period h = 0 else w = pl_period h)"
  using redis_counters.Take_refines [OF assms(1,2), of offset now key h] calcExpireSeconds_aligned [OF assms(3), of "now + offset"]
  by (auto simp: Let_def case_prod_beta) (simp add: calcExpireSeconds_def)

text \<open>Runs of the script and of the bucket it implements.\<close>

fun script_run :: "int \<Rightarrow> int \<Rightarrow> token_db option \<Rightarrow> (int \<times> int) list \<Rightarrow> bool option list" where
  "script_run rate capacity db [] = []"
| "script_run rate capacity db ((now, n) # cs) =
     (case token_script rate capacity now n db of
        None \<Rightarrow> None # script_run rate capacity db cs
      | Some (db', a) \<Rightarrow> Some a # script_run rate capacity db' cs)"

fun ref_run :: "int \<Rightarrow> int \<Rightarrow> rat \<times> int \<Rightarrow> (int \<times> int) list \<Rightarrow> bool list" where
  "ref_run rate capacity st [] = []"
| "ref_run rate capacity st ((now, n) # cs) = (let (st, a) = token_ref rate capacity now n st in a # ref_run rate capacity st cs)"

lemma script_run_refines:
  assumes "0 < rate" and "rate \<le> 2 * capacity"
  shows "token_rel rate capacity db st \<Longrightarrow> sorted (snd st # map fst cs) \<Longrightarrow> 0 \<le> snd st \<Longrightarrow> list_all (\<lambda>c. 0 \<le> snd c) cs \<Longrightarrow>
    script_run rate capacity db cs = map Some (ref_run rate capacity st cs)"
proof (induction cs arbitrary: db st)
  case (Cons c cs)
  obtain now n where c: "c = (now, n)" by (cases c)
  from Cons.prems have "snd st \<le> now" "0 \<le> n" "0 \<le> now" by (auto simp: c)
  from token_script_refines [OF assms Cons.prems(1) this] obtain db' where
    db': "token_script rate capacity now n db = Some (db', snd (token_ref rate capacity now n st))" "token_rel rate capacity db' (fst (token_ref rate capacity now n st))"
    by blast
  have "snd (fst (token_ref rate capacity now n st)) = now" by (simp add: token_ref_def Let_def)
  with Cons.IH [OF db'(2)] Cons.prems \<open>0 \<le> now\<close> show ?case by (simp add: c db'(1) case_prod_beta Let_def)
qed simp

section \<open>Properties\<close>

text \<open>
  C22.  The token bucket keeps its rate: with the clock never going back, in every window of time at most the burst and the rate's
  share of the window's length is granted.  The first call is granted, and so is every call that follows the one before it by at least the time of one token.
\<close>

theorem bucket_keeps_rate:
  assumes "0 \<le> rate" and "sorted (t0 # ts)"
  shows "let as = snd (bucket_run (NewRateLimiter rate burst t0) ts)
    in length as = length ts \<and>
       (\<forall>a b. a \<le> b \<longrightarrow> of_nat (win_count a b ts as) \<le> of_int (Orderings.max 1 burst) + seconds (b - a) * rate) \<and>
       (ts \<noteq> [] \<longrightarrow> as ! 0) \<and>
       (\<forall>k. Suc k < length ts \<longrightarrow> 1 \<le> seconds (ts ! Suc k - ts ! k) * rate \<longrightarrow> as ! Suc k)"
proof -
  let ?r = "NewRateLimiter rate burst t0" let ?as = "snd (bucket_run ?r ts)"
  have ok: "bucket_ok ?r" by (rule NewRateLimiter_ok [OF assms(1)])
  note f = NewRateLimiter_fields [of rate burst t0]
  have srt: "sorted (bk_last ?r # ts)" using assms(2) f by simp
  have len: "length ?as = length ts" using bucket_run_ok [OF ok srt] by simp
  have window: "of_nat (win_count a b ts ?as) \<le> of_int (Orderings.max 1 burst) + seconds (b - a) * rate" if "a \<le> b" for a b
    using bucket_window_bound [OF ok srt that] f by simp
  have "?as ! 0" if ne: "ts \<noteq> []"
  proof -
    have le: "t0 \<le> ts ! 0" using assms(2) ne by (auto simp: neq_Nil_conv)
    then have "0 \<le> seconds (ts ! 0 - t0) * rate" using seconds_nonneg assms(1) by simp
    moreover have "(1 :: rat) \<le> of_int (Orderings.max 1 burst)" by simp
    ultimately have "1 \<le> bk_tokens ?r + seconds (ts ! 0 - bk_last ?r) * bk_rate ?r" unfolding f by linarith
    then have "snd (bucket_Allow (ts ! 0) ?r)" using bucket_spaced_step [OF ok] le f by simp
    then show ?thesis using bucket_run_nth [OF ok srt, of 0] ne by simp
  qed
  moreover have "?as ! Suc k" if k: "Suc k < length ts" "1 \<le> seconds (ts ! Suc k - ts ! k) * rate" for k
  proof -
    let ?r' = "fst (bucket_run ?r (take (Suc k) ts))"
    have mid: "bucket_ok ?r'" "bk_last ?r' = ts ! k" "bk_rate ?r' = rate"
      using bucket_run_ok [OF ok sorted_Cons_take [OF srt], of "Suc k"] last_take_Suc [of k ts] f k by auto
    moreover have "ts ! k \<le> ts ! Suc k" using assms(2) k(1) by (simp add: sorted_nth_mono)
    ultimately have "snd (bucket_Allow (ts ! Suc k) ?r')"
      using bucket_spaced_step [OF mid(1)] k(2) by (simp add: bucket_ok_def)
    then show ?thesis using bucket_run_nth [OF ok srt k(1)] by simp
  qed
  ultimately show ?thesis using len window by (simp add: Let_def)
qed

theorem bucket_keeps_rate_witness:
  "of_nat (win_count 0 500000000 [0, 0, 500000000] (snd (bucket_run (NewRateLimiter 2 1 0) [0, 0, 500000000]))) \<le>
      of_int (Orderings.max 1 1) + seconds (500000000 - 0) * (2 :: rat) \<and>
    snd (bucket_run (NewRateLimiter 2 1 0) [0, 0, 500000000]) = [True, False, True]"
proof -
  have "snd (bucket_run (NewRateLimiter 2 1 0) [0, 0, 500000000]) = [True, False, True]" by code_simp
  then show ?thesis
    using bucket_keeps_rate [of 2 0 "[0, 0, 500000000]" 1, unfolded Let_def, THEN conjunct2, THEN conjunct1, rule_format, of 0 500000000] by simp
qed

text \<open>
  C23.  The script of the distributed limiter is a token bucket: if the burst is at least half the rate, letting the keys expire changes nothing, and its
  decisions on any sequence of requests are those of a bucket that is kept forever.  Otherwise it fails at every call.
\<close>

theorem token_script_is_bucket:
  assumes "0 < rate" and "sorted (0 # map fst cs)" and "list_all (\<lambda>c. 0 \<le> snd c) cs"
  shows "script_run rate capacity None cs =
    (if rate \<le> 2 * capacity then map Some (ref_run rate capacity (of_int capacity, 0) cs) else map (\<lambda>_. None) cs)"
proof (cases "rate \<le> 2 * capacity")
  case True
  then show ?thesis using script_run_refines [OF assms(1) True, of None "(of_int capacity, 0)" cs] assms by (simp add: token_rel_def)
next
  case False
  have "script_run rate capacity None cs = map (\<lambda>_. None) cs"
    using False assms(1) by (induction cs) (auto simp: token_script_fails)
  then show ?thesis using False by simp
qed

theorem token_script_is_bucket_witness:
  "script_run 1 1 None [(10, 1), (10, 1), (13, 1)] = [Some True, Some False, Some True]"
proof -
  have "ref_run 1 1 (of_int 1, 0) [(10, 1), (10, 1), (13, 1)] = [True, False, True]" by code_simp
  then show ?thesis using token_script_is_bucket [of 1 "[(10, 1), (10, 1), (13, 1)]" 1] by (simp del: script_run.simps ref_run.simps)
qed

end
