(* ===== verification/Mcp_Gateway.thy ===== *)
theory Mcp_Gateway
  imports Auth Rate_Limiter Memory_Registry Handler_Types "HOL-Library.Multiset"
begin

text \<open>
  The gateway that offers the endpoints of services as tools, \<open>ai/mcp\<close>: discovery in the registry, the HTTP handlers of \<open>mcp.go\<close>, the JSON-RPC
  transport of \<open>stdio.go\<close>, and the descriptions of \<open>parser.go\<close> that need no source files.

  What comes from outside is an argument: the answers of the registry, the auth provider, decoded JSON and what marshalling gives,
  the trace id, the time, and what the RPC call returned.  A handler returns the calls that it made.  Timestamps and durations of audit records and logging
  are left out, as are doc comments found by parsing source files and by regular expressions.  In \<open>gw_step\<close> a call is one step from its checks to its audit record: handlers
  that overlap audit their calls in some other order than they made them.
\<close>

section \<open>Tools\<close>

record schema =
  sm_properties :: "(string, string \<times> string) go_map"
  sm_examples :: "string list"
  sm_required :: "string list"
  sm_description :: string

record tool =
  to_Name :: string
  to_Description :: string
  to_InputSchema :: schema
  to_Scopes :: "string list"
  to_Service :: string
  to_Endpoint :: string

record http_call =
  hc_Authorization :: string
  hc_body :: "string + string"

record gw_opts =
  go_Auth :: "(string \<Rightarrow> auth_err + account) option"
  go_AuthFunc :: "(http_call \<Rightarrow> string option) option"
  go_Audit :: bool
  go_RateLimit :: "(rat \<times> int) option"
  go_Scopes :: "(string, string list) go_map"

record audit_record =
  ar_TraceID :: string
  ar_Tool :: string
  ar_AccountID :: string
  ar_ScopesRequired :: "string list"
  ar_Allowed :: bool
  ar_DeniedReason :: string
  ar_Error :: string

record mcp_server =
  ms_tools :: "(string, tool) go_map"
  ms_limiters :: "(string, bucket) go_map"
  ms_log :: "audit_record list"

definition mapGoTypeToJSON :: "string \<Rightarrow> string" where
  "mapGoTypeToJSON t =
     (if t = ''string'' then ''string''
      else if t \<in> {''int'', ''int32'', ''int64'', ''uint'', ''uint32'', ''uint64''} then ''integer''
      else if t \<in> {''float32'', ''float64''} then ''number''
      else if t = ''bool'' then ''boolean''
      else ''object'')"

definition buildInputSchema :: "val option \<Rightarrow> schema" where
  "buildInputSchema v =
     \<lparr>sm_properties =
        (case v of
           None \<Rightarrow> []
         | Some v \<Rightarrow> foldl (\<lambda>ps f. AList.update (v_Name f) (mapGoTypeToJSON (v_Type f), v_Name f @ '' field'') ps) [] (v_Values v)),
      sm_examples = [], sm_required = [], sm_description = []\<rparr>"

text \<open>A key of the metadata that is there and not empty.\<close>

definition md_nonempty :: "(string, string) go_map \<Rightarrow> string \<Rightarrow> string option" where
  "md_nonempty md k = (case map_of md k of Some v \<Rightarrow> if v = [] then None else Some v | None \<Rightarrow> None)"

definition tool_of :: "gw_opts \<Rightarrow> string \<Rightarrow> endpoint \<Rightarrow> tool" where
  "tool_of opts svc ep =
     (let name = svc @ ''.'' @ ep_Name ep; md = ep_Metadata ep
      in \<lparr>to_Name = name,
          to_Description = (case md_nonempty md ''description'' of Some d \<Rightarrow> d | None \<Rightarrow> ''Call '' @ ep_Name ep @ '' on '' @ svc @ '' service''),
          to_InputSchema = (buildInputSchema (ep_Request ep))\<lparr>sm_examples := (case md_nonempty md ''example'' of Some e \<Rightarrow> [e] | None \<Rightarrow> [])\<rparr>,
          to_Scopes = (case map_of (go_Scopes opts) name of
                         Some scopes \<Rightarrow> scopes
                       | None \<Rightarrow> (case md_nonempty md ''scopes'' of Some s \<Rightarrow> go_split (CHR '','') s | None \<Rightarrow> [])),
          to_Service = svc, to_Endpoint = ep_Name ep\<rparr>)"

definition add_limiter :: "gw_opts \<Rightarrow> int \<Rightarrow> string \<Rightarrow> mcp_server \<Rightarrow> mcp_server" where
  "add_limiter opts now name s =
     (case go_RateLimit opts of
        Some (rate, burst) \<Rightarrow>
          if rate > 0 \<and> map_of (ms_limiters s) name = None
          then s\<lparr>ms_limiters := AList.update name (NewRateLimiter rate burst now) (ms_limiters s)\<rparr> else s
      | None \<Rightarrow> s)"

definition add_tool :: "gw_opts \<Rightarrow> int \<Rightarrow> string \<Rightarrow> mcp_server \<Rightarrow> endpoint \<Rightarrow> mcp_server" where
  "add_tool opts now svc s ep =
     (let t = tool_of opts svc ep
      in add_limiter opts now (to_Name t) (s\<lparr>ms_tools := AList.update (to_Name t) t (ms_tools s)\<rparr>))"

text \<open>\<open>discoverServices\<close>, with what the registry lists and what it knows of each name.\<close>

definition discoverServices ::
  "gw_opts \<Rightarrow> int \<Rightarrow> 'e + service list \<Rightarrow> (string \<Rightarrow> 'e + service list) \<Rightarrow> mcp_server \<Rightarrow> mcp_server \<times> 'e option" where
  "discoverServices opts now listed get s =
     (case listed of
        Inl e \<Rightarrow> (s, Some e)
      | Inr services \<Rightarrow>
          (foldl (\<lambda>s svc.
             case get (sv_Name svc) of
               Inr (full # _) \<Rightarrow> foldl (add_tool opts now (sv_Name svc)) s (sv_Endpoints full)
             | _ \<Rightarrow> s) s services, None))"

section \<open>Calling a tool\<close>

definition hasScope :: "string list \<Rightarrow> string list \<Rightarrow> bool" where
  "hasScope accountScopes requiredScopes \<longleftrightarrow> list_ex (\<lambda>req. list_ex (\<lambda>have'. equal_fold have' req) accountScopes) requiredScopes"

definition audit :: "gw_opts \<Rightarrow> audit_record \<Rightarrow> mcp_server \<Rightarrow> mcp_server" where
  "audit opts r s = (if go_Audit opts then s\<lparr>ms_log := ms_log s @ [r]\<rparr> else s)"

definition allowRate :: "gw_opts \<Rightarrow> int \<Rightarrow> string \<Rightarrow> mcp_server \<Rightarrow> mcp_server \<times> bool" where
  "allowRate opts now name s =
     (case go_RateLimit opts of
        None \<Rightarrow> (s, True)
      | Some _ \<Rightarrow>
          (case map_of (ms_limiters s) name of
             None \<Rightarrow> (s, True)
           | Some b \<Rightarrow> (let (b, a) = bucket_Allow now b in (s\<lparr>ms_limiters := AList.update name b (ms_limiters s)\<rparr>, a))))"

record call_env =
  ce_traceID :: string
  ce_now :: int
  ce_marshal :: "string + string"
  ce_outcome :: "string + string"

record client_call =
  kc_ctx :: ctx
  kc_service :: string
  kc_endpoint :: string
  kc_data :: string

definition denied :: "string \<Rightarrow> string \<Rightarrow> string \<Rightarrow> string list \<Rightarrow> string \<Rightarrow> audit_record" where
  "denied trace tool acc scopes reason =
     \<lparr>ar_TraceID = trace, ar_Tool = tool, ar_AccountID = acc, ar_ScopesRequired = scopes, ar_Allowed = False, ar_DeniedReason = reason, ar_Error = []\<rparr>"

definition allowed :: "string \<Rightarrow> string \<Rightarrow> string \<Rightarrow> string list \<Rightarrow> string \<Rightarrow> audit_record" where
  "allowed trace tool acc scopes e =
     \<lparr>ar_TraceID = trace, ar_Tool = tool, ar_AccountID = acc, ar_ScopesRequired = scopes, ar_Allowed = True, ar_DeniedReason = [], ar_Error = e\<rparr>"

definition account_id :: "account option \<Rightarrow> string" where
  "account_id acc = (case acc of None \<Rightarrow> [] | Some a \<Rightarrow> ac_ID a)"

text \<open>The context of the call carries the trace id, the tool and the account.\<close>

definition trace_md :: "string \<Rightarrow> string \<Rightarrow> account option \<Rightarrow> metadata" where
  "trace_md trace tool acc =
     (let md = md_Set ''Mcp-Tool-Name'' tool (md_Set ''Mcp-Trace-Id'' trace [])
      in case acc of None \<Rightarrow> md | Some a \<Rightarrow> md_Set ''Mcp-Account-Id'' (ac_ID a) md)"

datatype http_resp = HttpError int string | HttpResult string string

text \<open>\<open>handleCallTool\<close>.\<close>

definition handleCallTool ::
  "gw_opts \<Rightarrow> call_env \<Rightarrow> ctx \<Rightarrow> http_call \<Rightarrow> mcp_server \<Rightarrow> mcp_server \<times> client_call list \<times> http_resp" where
  "handleCallTool opts env ctx r s =
     (case (case go_AuthFunc opts of None \<Rightarrow> None | Some f \<Rightarrow> f r) of
        Some _ \<Rightarrow> (s, [], HttpError 401 ''Unauthorized'')
      | None \<Rightarrow>
     (case hc_body r of
        Inl e \<Rightarrow> (s, [], HttpError 400 e)
      | Inr name \<Rightarrow>
     (case map_of (ms_tools s) name of
        None \<Rightarrow> (s, [], HttpError 404 ''Tool not found'')
      | Some tool \<Rightarrow>
          let trace = ce_traceID env;
              go_on = (\<lambda>acc.
                let (s, ok) = allowRate opts (ce_now env) name s
                in if \<not> ok then (audit opts (denied trace name (account_id acc) [] ''rate limited'') s, [], HttpError 429 ''Rate limit exceeded'')
                   else let ctx = MergeContext (trace_md trace name acc) True ctx
                   in case ce_marshal env of
                     Inl e \<Rightarrow> (s, [], HttpError 500 e)
                   | Inr input \<Rightarrow>
                       let call = \<lparr>kc_ctx = ctx, kc_service = to_Service tool, kc_endpoint = to_Endpoint tool, kc_data = input\<rparr>
                       in case ce_outcome env of
                            Inl e \<Rightarrow> (audit opts (allowed trace name (account_id acc) (to_Scopes tool) e) s, [call], HttpError 500 (''RPC call failed: '' @ e))
                          | Inr d \<Rightarrow> (audit opts (allowed trace name (account_id acc) (to_Scopes tool) []) s, [call], HttpResult d trace))
          in case go_Auth opts of
               None \<Rightarrow> go_on None
             | Some inspect \<Rightarrow>
                 let token = trim_prefix (hc_Authorization r) ''Bearer ''
                 in if token = [] then (audit opts (denied trace name [] [] ''missing token'') s, [], HttpError 401 ''Unauthorized'')
                    else case inspect token of
                      Inl _ \<Rightarrow> (audit opts (denied trace name [] [] ''invalid token'') s, [], HttpError 401 ''Unauthorized'')
                    | Inr acc \<Rightarrow>
                        if to_Scopes tool \<noteq> [] \<and> \<not> hasScope (ac_Scopes acc) (to_Scopes tool)
                        then (audit opts (denied trace name (ac_ID acc) (to_Scopes tool) ''insufficient scopes'') s, [], HttpError 403 ''Forbidden: insufficient scopes'')
                        else go_on (Some acc))))"

definition handleListTools :: "gw_opts \<Rightarrow> http_call \<Rightarrow> mcp_server \<Rightarrow> http_resp + tool list" where
  "handleListTools opts r s =
     (case (case go_AuthFunc opts of None \<Rightarrow> None | Some f \<Rightarrow> f r) of
        Some _ \<Rightarrow> Inl (HttpError 401 ''Unauthorized'')
      | None \<Rightarrow> Inr (map snd (ms_tools s)))"

definition handleHealth :: "mcp_server \<Rightarrow> string \<times> nat" where
  "handleHealth s = (''ok'', length (ms_tools s))"

definition GetTools :: "mcp_server \<Rightarrow> tool list" where
  "GetTools s = map snd (ms_tools s)"

section \<open>JSON-RPC\<close>

record 'id rpc_request =
  jr_JSONRPC :: string
  jr_ID :: 'id
  jr_Method :: string
  jr_Params :: "string + (string \<times> string)"

datatype rpc_result =
    RInitialize
  | RTools "(string \<times> string \<times> schema) list"
  | RContent string string
  | RError int string string

definition InvalidParams :: int where "InvalidParams = - 32602"
definition InternalError :: int where "InternalError = - 32603"
definition MethodNotFound :: int where "MethodNotFound = - 32601"
definition InvalidRequest :: int where "InvalidRequest = - 32600"
definition ParseError :: int where "ParseError = - 32700"

text \<open>\<open>handleToolsCall\<close>: the parameters are the tool and the token; \<open>render\<close> is the text of a result.\<close>

definition handleToolsCall ::
  "gw_opts \<Rightarrow> call_env \<Rightarrow> (string \<Rightarrow> string) \<Rightarrow> ctx \<Rightarrow> 'id rpc_request \<Rightarrow> mcp_server \<Rightarrow> mcp_server \<times> client_call list \<times> rpc_result" where
  "handleToolsCall opts env render ctx req s =
     (case jr_Params req of
        Inl e \<Rightarrow> (s, [], RError InvalidParams ''Invalid params'' e)
      | Inr (name, tok) \<Rightarrow>
     (case map_of (ms_tools s) name of
        None \<Rightarrow> (s, [], RError InvalidParams ''Tool not found'' name)
      | Some tool \<Rightarrow>
          let trace = ce_traceID env;
              go_on = (\<lambda>acc.
                let (s, ok) = allowRate opts (ce_now env) name s
                in if \<not> ok then (audit opts (denied trace name (account_id acc) [] ''rate limited'') s, [], RError InternalError ''Rate limit exceeded'' name)
                   else case ce_marshal env of
                     Inl e \<Rightarrow> (s, [], RError InternalError ''Failed to marshal arguments'' e)
                   | Inr input \<Rightarrow>
                       let ctx = MergeContext (trace_md trace name acc) True ctx;
                           call = \<lparr>kc_ctx = ctx, kc_service = to_Service tool, kc_endpoint = to_Endpoint tool, kc_data = input\<rparr>
                       in case ce_outcome env of
                            Inl e \<Rightarrow> (audit opts (allowed trace name (account_id acc) (to_Scopes tool) e) s, [call], RError InternalError ''RPC call failed'' e)
                          | Inr d \<Rightarrow> (audit opts (allowed trace name (account_id acc) (to_Scopes tool) []) s, [call], RContent (render d) trace))
          in case go_Auth opts of
               None \<Rightarrow> go_on None
             | Some inspect \<Rightarrow>
                 if tok = [] then (audit opts (denied trace name [] [] ''missing token'') s, [], RError InvalidParams ''Unauthorized'' ''missing _token in params'')
                 else case inspect (trim_prefix tok ''Bearer '') of
                   Inl _ \<Rightarrow> (audit opts (denied trace name [] [] ''invalid token'') s, [], RError InvalidParams ''Unauthorized'' ''invalid token'')
                 | Inr acc \<Rightarrow>
                     if to_Scopes tool \<noteq> [] \<and> \<not> hasScope (ac_Scopes acc) (to_Scopes tool)
                     then (audit opts (denied trace name (ac_ID acc) (to_Scopes tool) ''insufficient scopes'') s, [], RError InvalidParams ''Forbidden'' ''insufficient scopes'')
                     else go_on (Some acc)))"

definition handleToolsList :: "mcp_server \<Rightarrow> rpc_result" where
  "handleToolsList s = RTools (map (\<lambda>(_, t). (to_Name t, to_Description t, to_InputSchema t)) (ms_tools s))"

definition handleRequest ::
  "gw_opts \<Rightarrow> call_env \<Rightarrow> (string \<Rightarrow> string) \<Rightarrow> ctx \<Rightarrow> 'id rpc_request \<Rightarrow> mcp_server \<Rightarrow> mcp_server \<times> client_call list \<times> rpc_result" where
  "handleRequest opts env render ctx req s =
     (if jr_Method req = ''initialize'' then (s, [], RInitialize)
      else if jr_Method req = ''tools/list'' then (s, [], handleToolsList s)
      else if jr_Method req = ''tools/call'' then handleToolsCall opts env render ctx req s
      else (s, [], RError MethodNotFound ''Method not found'' (jr_Method req)))"

text \<open>
  \<open>Serve\<close>: before every line the context is looked at, then a line is read, and a request that passes runs in a goroutine of its own; \<open>Stop\<close> cancels the context at
  any time.  \<open>io_lines\<close> are the lines still to come, as \<open>json.Unmarshal\<close> takes them, \<open>io_end\<close> is the read error after the last one (\<open>None\<close>: the end of the input; what stands there without
  a newline is not handled), \<open>io_reading\<close> says that \<open>ReadBytes\<close> is waiting, and \<open>io_result\<close> is what \<open>Serve\<close> has returned.  Goroutines go on after that, for as long as the process
  lives.  \<open>io_out\<close> are the answers in the order in which they were written; \<open>writeJSON\<close> gives up on an answer that it cannot marshal or write,
  which \<open>io_lost\<close> keeps, and after a failed write the buffered writer refuses all others.
\<close>

record 'id stdio_st =
  io_lines :: "(string + 'id rpc_request) list"
  io_end :: "string option"
  io_cancelled :: bool
  io_reading :: bool
  io_result :: "string option option"
  io_running :: "'id rpc_request list"
  io_server :: mcp_server
  io_out :: "('id option \<times> rpc_result) list"
  io_lost :: "('id option \<times> rpc_result) list"
  io_werr :: bool

datatype write_outcome = Written | MarshalFails | WriteFails

definition writeJSON :: "write_outcome \<Rightarrow> 'id option \<times> rpc_result \<Rightarrow> 'id stdio_st \<Rightarrow> 'id stdio_st" where
  "writeJSON w v st =
     (if w = MarshalFails then st\<lparr>io_lost := io_lost st @ [v]\<rparr>
      else if io_werr st \<or> w = WriteFails then st\<lparr>io_lost := io_lost st @ [v], io_werr := True\<rparr>
      else st\<lparr>io_out := io_out st @ [v]\<rparr>)"

definition read_line :: "write_outcome \<Rightarrow> string + 'id rpc_request \<Rightarrow> 'id stdio_st \<Rightarrow> 'id stdio_st" where
  "read_line w line st =
     (case line of
        Inl e \<Rightarrow> writeJSON w (None, RError ParseError ''Parse error'' e) st
      | Inr req \<Rightarrow>
          if jr_JSONRPC req \<noteq> ''2.0''
          then writeJSON w (Some (jr_ID req), RError InvalidRequest ''Invalid request'' (''jsonrpc must be '' @ [CHR 0x27] @ ''2.0'' @ [CHR 0x27])) st
          else st\<lparr>io_running := io_running st @ [req]\<rparr>)"

definition run_request ::
  "gw_opts \<Rightarrow> call_env \<Rightarrow> (string \<Rightarrow> string) \<Rightarrow> ctx \<Rightarrow> write_outcome \<Rightarrow> 'id rpc_request \<Rightarrow> 'id stdio_st \<Rightarrow> 'id stdio_st" where
  "run_request opts env render ctx w req st =
     (case handleRequest opts env render ctx req (io_server st) of
        (s, _, res) \<Rightarrow> writeJSON w (Some (jr_ID req), res) (st\<lparr>io_server := s\<rparr>))"

definition stdio_Stop :: "'id stdio_st \<Rightarrow> 'id stdio_st" where
  "stdio_Stop st = st\<lparr>io_cancelled := True\<rparr>"

definition stdio_start :: "(string + 'id rpc_request) list \<Rightarrow> string option \<Rightarrow> mcp_server \<Rightarrow> 'id stdio_st" where
  "stdio_start ls e s = \<lparr>io_lines = ls, io_end = e, io_cancelled = False, io_reading = False, io_result = None, io_running = [], io_server = s,
     io_out = [], io_lost = [], io_werr = False\<rparr>"

text \<open>The steps of the transport itself, and with them those of its surroundings: \<open>Stop\<close>, and whatever else changes the gateway.\<close>

inductive stdio_own :: "gw_opts \<Rightarrow> 'id stdio_st \<Rightarrow> 'id stdio_st \<Rightarrow> bool" for opts where
  check: "io_result st = None \<Longrightarrow> \<not> io_reading st \<Longrightarrow>
    stdio_own opts st (if io_cancelled st then st\<lparr>io_result := Some None\<rparr> else st\<lparr>io_reading := True\<rparr>)"
| line: "io_result st = None \<Longrightarrow> io_reading st \<Longrightarrow> io_lines st = l # ls \<Longrightarrow>
    stdio_own opts st (read_line w l (st\<lparr>io_lines := ls, io_reading := False\<rparr>))"
| no_more: "io_result st = None \<Longrightarrow> io_reading st \<Longrightarrow> io_lines st = [] \<Longrightarrow>
    stdio_own opts st (st\<lparr>io_result := Some (map_option (\<lambda>e. ''failed to read request: '' @ e) (io_end st))\<rparr>)"
| answer: "io_running st = rs @ req # rs' \<Longrightarrow> stdio_own opts st (run_request opts env render ctx w req (st\<lparr>io_running := rs @ rs'\<rparr>))"

inductive stdio_step :: "gw_opts \<Rightarrow> 'id stdio_st \<Rightarrow> 'id stdio_st \<Rightarrow> bool" for opts where
  own: "stdio_own opts st st' \<Longrightarrow> stdio_step opts st st'"
| stop: "stdio_step opts st (stdio_Stop st)"
| other: "stdio_step opts st (st\<lparr>io_server := s\<rparr>)"

section \<open>Descriptions\<close>

record paramDoc =
  pd_Name :: string
  pd_Type :: string
  pd_Description :: string
  pd_Required :: bool

record toolDescription =
  td_Summary :: string
  td_Description :: string
  td_Params :: "paramDoc list"
  td_Returns :: "(string \<times> string) list"
  td_Examples :: "string list"

definition upper_case :: "char \<Rightarrow> bool" where
  "upper_case c \<longleftrightarrow> CHR ''A'' \<le> c \<and> c \<le> CHR ''Z''"

fun toReadable :: "string \<Rightarrow> string" where
  "toReadable [] = []"
| "toReadable (c # cs) = c # concat (map (\<lambda>r. if upper_case r then [CHR '' '', r] else [r]) cs)"

definition formatFieldDescription :: "string \<Rightarrow> string \<Rightarrow> string" where
  "formatFieldDescription name t = toReadable name @ '' ('' @ t @ '')''"

definition parseEndpointParams :: "val option \<Rightarrow> paramDoc list" where
  "parseEndpointParams v =
     (case v of
        None \<Rightarrow> []
      | Some v \<Rightarrow> map (\<lambda>f. \<lparr>pd_Name = v_Name f, pd_Type = v_Type f, pd_Description = formatFieldDescription (v_Name f) (v_Type f), pd_Required = True\<rparr>) (v_Values v))"

definition parseEndpointReturns :: "val option \<Rightarrow> (string \<times> string) list" where
  "parseEndpointReturns v = (case v of None \<Rightarrow> [] | Some v \<Rightarrow> [(v_Name v, ''Returns '' @ v_Name v)])"

definition parseServiceDocs :: "string \<Rightarrow> endpoint \<Rightarrow> toolDescription" where
  "parseServiceDocs svc ep =
     \<lparr>td_Summary = ''Call '' @ ep_Name ep @ '' on '' @ svc @ '' service'', td_Description = [], td_Params = parseEndpointParams (ep_Request ep),
      td_Returns = parseEndpointReturns (ep_Response ep), td_Examples = []\<rparr>"

definition enhance_param :: "schema \<Rightarrow> paramDoc \<Rightarrow> schema" where
  "enhance_param s p =
     (case map_of (sm_properties s) (pd_Name p) of
        None \<Rightarrow> s
      | Some (t, _) \<Rightarrow>
          s\<lparr>sm_properties := AList.update (pd_Name p) (t, pd_Description p) (sm_properties s),
            sm_required := (if pd_Required p then sm_required s @ [pd_Name p] else sm_required s)\<rparr>)"

definition enhanceToolDescription :: "tool \<Rightarrow> string \<Rightarrow> endpoint \<Rightarrow> tool" where
  "enhanceToolDescription t svc ep =
     (let d = parseServiceDocs svc ep
      in t\<lparr>to_Description := (if td_Summary d \<noteq> [] then td_Summary d else to_Description t),
           to_InputSchema := (let s = (to_InputSchema t)\<lparr>sm_description := (if td_Description d \<noteq> [] then td_Description d else sm_description (to_InputSchema t))\<rparr>;
                                  s = foldl enhance_param s (td_Params d)
                              in if td_Examples d \<noteq> [] then s\<lparr>sm_examples := td_Examples d\<rparr> else s)\<rparr>)"

section \<open>One gate for both transports\<close>

text \<open>What a call of a tool comes to, whichever way it was made.\<close>

datatype outcome = ONotFound | OMissing | OInvalid | OForbidden | ORate | OMarshal string | OFailed string | OCalled string

text \<open>Who may call a tool: the account, or the record of the refusal.\<close>

definition gate :: "gw_opts \<Rightarrow> string \<Rightarrow> string \<Rightarrow> bool \<Rightarrow> string \<Rightarrow> tool \<Rightarrow> audit_record \<times> outcome + account option" where
  "gate opts trace name missing token tool =
     (case go_Auth opts of
        None \<Rightarrow> Inr None
      | Some inspect \<Rightarrow>
          if missing then Inl (denied trace name [] [] ''missing token'', OMissing)
          else case inspect token of
            Inl _ \<Rightarrow> Inl (denied trace name [] [] ''invalid token'', OInvalid)
          | Inr acc \<Rightarrow>
              if to_Scopes tool \<noteq> [] \<and> \<not> hasScope (ac_Scopes acc) (to_Scopes tool)
              then Inl (denied trace name (ac_ID acc) (to_Scopes tool) ''insufficient scopes'', OForbidden) else Inr (Some acc))"

definition tool_call ::
  "gw_opts \<Rightarrow> call_env \<Rightarrow> ctx \<Rightarrow> string \<Rightarrow> bool \<Rightarrow> string \<Rightarrow> mcp_server \<Rightarrow> mcp_server \<times> client_call list \<times> outcome" where
  "tool_call opts env ctx name missing token s =
     (case map_of (ms_tools s) name of
        None \<Rightarrow> (s, [], ONotFound)
      | Some tool \<Rightarrow>
          (case gate opts (ce_traceID env) name missing token tool of
             Inl (r, out) \<Rightarrow> (audit opts r s, [], out)
           | Inr acc \<Rightarrow>
               (case allowRate opts (ce_now env) name s of
                  (s, False) \<Rightarrow> (audit opts (denied (ce_traceID env) name (account_id acc) [] ''rate limited'') s, [], ORate)
                | (s, True) \<Rightarrow>
                    (case ce_marshal env of
                       Inl e \<Rightarrow> (s, [], OMarshal e)
                     | Inr input \<Rightarrow>
                         (audit opts (allowed (ce_traceID env) name (account_id acc) (to_Scopes tool) (case ce_outcome env of Inl e \<Rightarrow> e | Inr _ \<Rightarrow> [])) s,
                          [\<lparr>kc_ctx = MergeContext (trace_md (ce_traceID env) name acc) True ctx, kc_service = to_Service tool, kc_endpoint = to_Endpoint tool, kc_data = input\<rparr>],
                          case ce_outcome env of Inl e \<Rightarrow> OFailed e | Inr d \<Rightarrow> OCalled d)))))"

fun http_of :: "string \<Rightarrow> outcome \<Rightarrow> http_resp" where
  "http_of trace ONotFound = HttpError 404 ''Tool not found''"
| "http_of trace OMissing = HttpError 401 ''Unauthorized''"
| "http_of trace OInvalid = HttpError 401 ''Unauthorized''"
| "http_of trace OForbidden = HttpError 403 ''Forbidden: insufficient scopes''"
| "http_of trace ORate = HttpError 429 ''Rate limit exceeded''"
| "http_of trace (OMarshal e) = HttpError 500 e"
| "http_of trace (OFailed e) = HttpError 500 (''RPC call failed: '' @ e)"
| "http_of trace (OCalled d) = HttpResult d trace"

fun rpc_of :: "(string \<Rightarrow> string) \<Rightarrow> string \<Rightarrow> string \<Rightarrow> outcome \<Rightarrow> rpc_result" where
  "rpc_of render trace name ONotFound = RError InvalidParams ''Tool not found'' name"
| "rpc_of render trace name OMissing = RError InvalidParams ''Unauthorized'' ''missing _token in params''"
| "rpc_of render trace name OInvalid = RError InvalidParams ''Unauthorized'' ''invalid token''"
| "rpc_of render trace name OForbidden = RError InvalidParams ''Forbidden'' ''insufficient scopes''"
| "rpc_of render trace name ORate = RError InternalError ''Rate limit exceeded'' name"
| "rpc_of render trace name (OMarshal e) = RError InternalError ''Failed to marshal arguments'' e"
| "rpc_of render trace name (OFailed e) = RError InternalError ''RPC call failed'' e"
| "rpc_of render trace name (OCalled d) = RContent (render d) trace"

definition answer_with :: "('o \<Rightarrow> 'r) \<Rightarrow> 's \<times> 'c \<times> 'o \<Rightarrow> 's \<times> 'c \<times> 'r" where
  "answer_with f x = (fst x, fst (snd x), f (snd (snd x)))"

lemma handleCallTool_eq:
  assumes "case go_AuthFunc opts of None \<Rightarrow> True | Some f \<Rightarrow> f r = None" and "hc_body r = Inr name"
  shows "handleCallTool opts env ctx r s =
    answer_with (http_of (ce_traceID env))
      (tool_call opts env ctx name (trim_prefix (hc_Authorization r) ''Bearer '' = []) (trim_prefix (hc_Authorization r) ''Bearer '') s)"
proof -
  have af: "(case go_AuthFunc opts of None \<Rightarrow> None | Some f \<Rightarrow> f r) = None" using assms(1) by (auto split: option.splits)
  show ?thesis unfolding handleCallTool_def af assms(2) option.case sum.case
    by (simp add: tool_call_def gate_def answer_with_def Let_def split: option.split sum.split prod.split bool.split)
qed

lemma handleToolsCall_eq:
  assumes "jr_Params req = Inr (name, tok)"
  shows "handleToolsCall opts env render ctx req s =
    answer_with (rpc_of render (ce_traceID env) name) (tool_call opts env ctx name (tok = []) (trim_prefix tok ''Bearer '') s)"
  unfolding handleToolsCall_def assms sum.case prod.case
  by (simp add: tool_call_def gate_def answer_with_def Let_def split: option.split sum.split prod.split bool.split)

section \<open>Histories of the gateway\<close>

text \<open>
  Discoveries, with what the registry says of a name among \<open>answers\<close>, and calls over both transports, in the order of their times.  The calls made to services are kept
  with their time, the tool as it was then, and the token.
\<close>

record made_call =
  mk_time :: int
  mk_tool :: tool
  mk_token :: string
  mk_call :: client_call

record gw_st =
  gs_server :: mcp_server
  gs_now :: int
  gs_calls :: "made_call list"

definition made :: "int \<Rightarrow> string \<Rightarrow> string \<Rightarrow> mcp_server \<Rightarrow> client_call list \<Rightarrow> made_call list" where
  "made now name token s cs = map (\<lambda>c. \<lparr>mk_time = now, mk_tool = the (map_of (ms_tools s) name), mk_token = token, mk_call = c\<rparr>) cs"

inductive gw_step :: "gw_opts \<Rightarrow> ((string \<Rightarrow> string + service list) \<Rightarrow> bool) \<Rightarrow> gw_st \<Rightarrow> gw_st \<Rightarrow> bool" for opts answers where
  discover: "gs_now st \<le> now \<Longrightarrow> answers get \<Longrightarrow>
    gw_step opts answers st (st\<lparr>gs_server := fst (discoverServices opts now listed get (gs_server st)), gs_now := now\<rparr>)"
| http: "gs_now st \<le> ce_now env \<Longrightarrow> handleCallTool opts env ctx r (gs_server st) = (s', cs, resp) \<Longrightarrow>
    gw_step opts answers st (st\<lparr>gs_server := s', gs_now := ce_now env,
      gs_calls := gs_calls st @ made (ce_now env) (projr (hc_body r)) (trim_prefix (hc_Authorization r) ''Bearer '') (gs_server st) cs\<rparr>)"
| stdio: "gs_now st \<le> ce_now env \<Longrightarrow> handleToolsCall opts env render ctx (req :: string rpc_request) (gs_server st) = (s', cs, res) \<Longrightarrow>
    gw_step opts answers st (st\<lparr>gs_server := s', gs_now := ce_now env,
      gs_calls := gs_calls st @ made (ce_now env) (fst (projr (jr_Params req))) (trim_prefix (snd (projr (jr_Params req))) ''Bearer '') (gs_server st) cs\<rparr>)"

definition gw_init :: "int \<Rightarrow> gw_st" where
  "gw_init t = \<lparr>gs_server = \<lparr>ms_tools = [], ms_limiters = [], ms_log = []\<rparr>, gs_now = t, gs_calls = []\<rparr>"

definition gw_reachable :: "gw_opts \<Rightarrow> ((string \<Rightarrow> string + service list) \<Rightarrow> bool) \<Rightarrow> gw_st \<Rightarrow> bool" where
  "gw_reachable opts answers st \<longleftrightarrow> (\<exists>t. (gw_step opts answers)\<^sup>*\<^sup>* (gw_init t) st)"

text \<open>Every call step is a \<open>tool_call\<close> or does nothing.\<close>

lemma http_cases:
  assumes "handleCallTool opts env ctx r s = (s', cs, resp)"
  obtains "s' = s" "cs = []"
  | name out where "hc_body r = Inr name"
      "tool_call opts env ctx name (trim_prefix (hc_Authorization r) ''Bearer '' = []) (trim_prefix (hc_Authorization r) ''Bearer '') s = (s', cs, out)"
proof (cases "(case go_AuthFunc opts of None \<Rightarrow> True | Some f \<Rightarrow> f r = None) \<and> \<not> isl (hc_body r)")
  case True
  then obtain name where n: "hc_body r = Inr name" by (cases "hc_body r") auto
  with True handleCallTool_eq [where opts = opts and r = r and name = name and env = env and ctx = ctx and s = s] assms that(2) [OF n] show ?thesis
    by (auto simp: answer_with_def prod_eq_iff)
next
  case False
  with assms that(1) show ?thesis by (auto simp: handleCallTool_def split: option.splits sum.splits)
qed

lemma stdio_cases:
  assumes "handleToolsCall opts env render ctx req s = (s', cs, res)"
  obtains "s' = s" "cs = []"
  | name tok out where "jr_Params req = Inr (name, tok)" "tool_call opts env ctx name (tok = []) (trim_prefix tok ''Bearer '') s = (s', cs, out)"
proof (cases "jr_Params req")
  case (Inr x)
  obtain name tok where "x = (name, tok)" by (cases x)
  with Inr handleToolsCall_eq [of req name tok opts env render ctx s] assms that(2) show ?thesis
    by (auto simp: answer_with_def prod_eq_iff)
qed (use assms that(1) in \<open>auto simp: handleToolsCall_def\<close>)

section \<open>The tools\<close>

definition tool_ok :: "gw_opts \<Rightarrow> string \<Rightarrow> tool \<Rightarrow> bool" where
  "tool_ok opts n t \<longleftrightarrow> to_Name t = n \<and> n = to_Service t @ ''.'' @ to_Endpoint t \<and>
     (\<forall>ss. map_of (go_Scopes opts) n = Some ss \<longrightarrow> to_Scopes t = ss)"

definition limited :: "gw_opts \<Rightarrow> bool" where
  "limited opts \<longleftrightarrow> (case go_RateLimit opts of Some (rate, _) \<Rightarrow> rate > 0 | None \<Rightarrow> False)"

text \<open>A tool's limiter has seen all its calls: the ones it granted are at least the ones that were made.\<close>

definition call_times :: "string \<Rightarrow> made_call list \<Rightarrow> int list" where
  "call_times n cs = map mk_time (filter (\<lambda>m. to_Name (mk_tool m) = n) cs)"

definition limiter_of :: "gw_opts \<Rightarrow> int \<Rightarrow> bucket \<Rightarrow> int list \<Rightarrow> bool" where
  "limiter_of opts now b tms \<longleftrightarrow>
     (\<exists>rate burst tn ts as. go_RateLimit opts = Some (rate, burst) \<and> 0 < rate \<and> sorted (tn # ts) \<and> last (tn # ts) \<le> now \<and>
        bucket_run (NewRateLimiter rate burst tn) ts = (b, as) \<and>
        (\<forall>a z. length (filter (\<lambda>t. a \<le> t \<and> t \<le> z) tms) \<le> win_count a z ts as))"

definition limiters_ok :: "gw_opts \<Rightarrow> int \<Rightarrow> mcp_server \<Rightarrow> made_call list \<Rightarrow> bool" where
  "limiters_ok opts now s cs \<longleftrightarrow>
     (\<forall>n b. map_of (ms_limiters s) n = Some b \<longrightarrow> limiter_of opts now b (call_times n cs)) \<and>
     (limited opts \<longrightarrow> (\<forall>n. map_of (ms_limiters s) n = None \<longrightarrow> map_of (ms_tools s) n = None \<and> call_times n cs = []))"

definition call_ok :: "gw_opts \<Rightarrow> made_call \<Rightarrow> bool" where
  "call_ok opts m \<longleftrightarrow>
     tool_ok opts (to_Name (mk_tool m)) (mk_tool m) \<and>
     kc_service (mk_call m) = to_Service (mk_tool m) \<and> kc_endpoint (mk_call m) = to_Endpoint (mk_tool m) \<and>
     map_of (ctx_md (kc_ctx (mk_call m))) ''Mcp-Tool-Name'' = Some (to_Name (mk_tool m)) \<and>
     (case go_Auth opts of
        None \<Rightarrow> True
      | Some inspect \<Rightarrow>
          (\<exists>acc. inspect (mk_token m) = Inr acc \<and> (to_Scopes (mk_tool m) = [] \<or> hasScope (ac_Scopes acc) (to_Scopes (mk_tool m))) \<and>
                 map_of (ctx_md (kc_ctx (mk_call m))) ''Mcp-Account-Id'' = (if ac_ID acc = [] then None else Some (ac_ID acc))))"

lemma limiter_ofI:
  assumes "go_RateLimit opts = Some (rate, burst)" and "0 < rate" and "sorted (tn # ts)" and "last (tn # ts) \<le> now"
    and "bucket_run (NewRateLimiter rate burst tn) ts = (b, as)"
    and "\<And>a z. length (filter (\<lambda>t. a \<le> t \<and> t \<le> z) tms) \<le> win_count a z ts as"
  shows "limiter_of opts now b tms"
  unfolding limiter_of_def using assms by blast

lemma limiter_ofE:
  assumes "limiter_of opts now b tms"
  obtains rate burst tn ts as where "go_RateLimit opts = Some (rate, burst)" "0 < rate" "sorted (tn # ts)" "last (tn # ts) \<le> now"
    "bucket_run (NewRateLimiter rate burst tn) ts = (b, as)"
    "\<And>a z. length (filter (\<lambda>t. a \<le> t \<and> t \<le> z) tms) \<le> win_count a z ts as"
  using assms unfolding limiter_of_def by blast

lemma limiter_of_mono:
  assumes "limiter_of opts now b tms" and "now \<le> now'"
  shows "limiter_of opts now' b tms"
proof -
  from assms(1) obtain rate burst tn ts as where l: "go_RateLimit opts = Some (rate, burst)" "0 < rate" "sorted (tn # ts)" "last (tn # ts) \<le> now"
    "bucket_run (NewRateLimiter rate burst tn) ts = (b, as)" "\<And>a z. length (filter (\<lambda>t. a \<le> t \<and> t \<le> z) tms) \<le> win_count a z ts as"
    by (rule limiter_ofE) blast
  show ?thesis by (rule limiter_ofI [OF l(1-3) order_trans [OF l(4) assms(2)] l(5,6)])
qed

lemma limiter_of_new: "go_RateLimit opts = Some (rate, burst) \<Longrightarrow> 0 < rate \<Longrightarrow> limiter_of opts now (NewRateLimiter rate burst now) []"
  by (rule limiter_ofI [where ts = "[]" and as = "[]" and tn = now]) simp_all

lemma limiter_of_Allow:
  assumes "limiter_of opts now b tms" and "now \<le> t" and "bucket_Allow t b = (b', g)" and "tms' = tms \<or> g \<and> tms' = tms @ [t]"
  shows "limiter_of opts t b' tms'"
proof -
  from assms(1) obtain rate burst tn ts as where l: "go_RateLimit opts = Some (rate, burst)" "0 < rate" "sorted (tn # ts)" "last (tn # ts) \<le> now"
      "bucket_run (NewRateLimiter rate burst tn) ts = (b, as)"
    and w: "\<And>a z. length (filter (\<lambda>t. a \<le> t \<and> t \<le> z) tms) \<le> win_count a z ts as"
    by (rule limiter_ofE) blast
  let ?r = "NewRateLimiter rate burst tn"
  have run: "bucket_run ?r (ts @ [t]) = (b', as @ [g])" using assms(3) l(5) by (simp add: bucket_run_append)
  have len: "length ts = length as"
    using bucket_run_ok [OF NewRateLimiter_ok, of rate burst tn ts] l(2,3,5) NewRateLimiter_fields(1) by simp
  have "\<forall>x \<in> set (tn # ts). x \<le> t" using sorted_last_le [OF l(3)] l(4) assms(2) by (meson order_trans)
  then have srt: "sorted (tn # ts @ [t])" using l(3) sorted_append [of "tn # ts" "[t]"] by simp
  have win: "length (filter (\<lambda>t. a \<le> t \<and> t \<le> z) tms') \<le> win_count a z (ts @ [t]) (as @ [g])" for a z
    using w [of a z] assms(4) by (auto simp: win_count_snoc [OF len])
  show ?thesis by (rule limiter_ofI [OF l(1,2) srt _ run win]) simp
qed

definition tools_ok :: "gw_opts \<Rightarrow> mcp_server \<Rightarrow> bool" where
  "tools_ok opts s \<longleftrightarrow> (\<forall>n t. map_of (ms_tools s) n = Some t \<longrightarrow> tool_ok opts n t)"

lemma limiters_ok_mono: "limiters_ok opts now s cs \<Longrightarrow> now \<le> now' \<Longrightarrow> limiters_ok opts now' s cs"
  using limiter_of_mono unfolding limiters_ok_def by blast

lemma limiters_okD:
  assumes "limiters_ok opts now s cs"
  shows "map_of (ms_limiters s) n = Some b \<Longrightarrow> limiter_of opts now b (call_times n cs)"
    and "map_of (ms_limiters s) n = None \<Longrightarrow> limited opts \<Longrightarrow> map_of (ms_tools s) n = None \<and> call_times n cs = []"
  using assms unfolding limiters_ok_def by blast+

lemma limiters_okI:
  assumes "\<And>n b. map_of (ms_limiters s) n = Some b \<Longrightarrow> limiter_of opts now b (call_times n cs)"
    and "\<And>n. map_of (ms_limiters s) n = None \<Longrightarrow> limited opts \<Longrightarrow> map_of (ms_tools s) n = None \<and> call_times n cs = []"
  shows "limiters_ok opts now s cs"
  unfolding limiters_ok_def using assms by blast

text \<open>A new tool gets a limiter with its first discovery and keeps it; what it was before is forgotten.\<close>

lemma tool_of_ok: "tool_ok opts (to_Name (tool_of opts svc ep)) (tool_of opts svc ep)"
  by (simp add: tool_ok_def tool_of_def Let_def)

lemma add_tool_ok:
  assumes "tools_ok opts s" and "limiters_ok opts now s cs"
  shows "tools_ok opts (add_tool opts now svc s ep) \<and> limiters_ok opts now (add_tool opts now svc s ep) cs \<and>
    ms_log (add_tool opts now svc s ep) = ms_log s"
proof -
  let ?n = "to_Name (tool_of opts svc ep)" let ?s = "add_tool opts now svc s ep"
  have t: "ms_tools ?s = AList.update ?n (tool_of opts svc ep) (ms_tools s)" "ms_log ?s = ms_log s"
    by (simp_all add: add_tool_def add_limiter_def Let_def split: option.split prod.split)
  have l: "map_of (ms_limiters ?s) k = (if k = ?n \<and> limited opts \<and> map_of (ms_limiters s) ?n = None
      then (case go_RateLimit opts of Some (rate, burst) \<Rightarrow> Some (NewRateLimiter rate burst now) | None \<Rightarrow> None) else map_of (ms_limiters s) k)" for k
    by (auto simp: add_tool_def add_limiter_def limited_def Let_def split: option.split prod.split)
  have "limiters_ok opts now ?s cs"
  proof (rule limiters_okI)
    fix n b assume "map_of (ms_limiters ?s) n = Some b"
    then show "limiter_of opts now b (call_times n cs)"
      using l [of n] limiters_okD [OF assms(2)] limiter_of_new by (auto simp: limited_def split: if_splits option.splits)
  next
    fix n assume "map_of (ms_limiters ?s) n = None" "limited opts"
    then show "map_of (ms_tools ?s) n = None \<and> call_times n cs = []"
      using l [of n] limiters_okD(2) [OF assms(2)] t(1) by (auto simp: limited_def split: if_splits option.splits)
  qed
  then show ?thesis using assms(1) tool_of_ok t by (auto simp: tools_ok_def)
qed

lemma foldl_add_tool_ok:
  "tools_ok opts s \<Longrightarrow> limiters_ok opts now s cs \<Longrightarrow>
    tools_ok opts (foldl (add_tool opts now svc) s eps) \<and> limiters_ok opts now (foldl (add_tool opts now svc) s eps) cs \<and>
    ms_log (foldl (add_tool opts now svc) s eps) = ms_log s"
proof (induction eps arbitrary: s)
  case (Cons ep eps)
  from Cons.IH [of "add_tool opts now svc s ep"] add_tool_ok [OF Cons.prems, of svc ep] show ?case by simp
qed simp

lemma discoverServices_ok:
  assumes "tools_ok opts s" and "limiters_ok opts now s cs"
  shows "tools_ok opts (fst (discoverServices opts now listed get s)) \<and> limiters_ok opts now (fst (discoverServices opts now listed get s)) cs \<and>
    ms_log (fst (discoverServices opts now listed get s)) = ms_log s"
proof (cases listed)
  case (Inr services)
  let ?f = "\<lambda>s svc. case get (sv_Name svc) of Inr (full # _) \<Rightarrow> foldl (add_tool opts now (sv_Name svc)) s (sv_Endpoints full) | _ \<Rightarrow> s"
  have step: "tools_ok opts (?f s svc) \<and> limiters_ok opts now (?f s svc) cs \<and> ms_log (?f s svc) = ms_log s"
    if "tools_ok opts s" "limiters_ok opts now s cs" for s svc
    using that foldl_add_tool_ok [OF that] by (auto split: sum.split list.split)
  have "tools_ok opts (foldl ?f s services) \<and> limiters_ok opts now (foldl ?f s services) cs \<and> ms_log (foldl ?f s services) = ms_log s"
    using assms
  proof (induction services arbitrary: s)
    case (Cons svc services)
    from Cons.IH [of "?f s svc"] step [OF Cons.prems, of svc] show ?case by simp
  qed simp
  then show ?thesis using Inr by (simp add: discoverServices_def)
qed (use assms in \<open>simp add: discoverServices_def\<close>)

lemma allowRate_ok:
  assumes "limiters_ok opts now s cs" and "now \<le> t" and "allowRate opts t name s = (s', ok)" and "map_of (ms_tools s) name = Some tool"
    and "new = [] \<or> ok \<and> new = [m] \<and> mk_time m = t \<and> to_Name (mk_tool m) = name"
  shows "limiters_ok opts t s' (cs @ new) \<and> ms_tools s' = ms_tools s \<and> ms_log s' = ms_log s"
proof (cases "map_of (ms_limiters s) name")
  case None
  then have s': "s' = s" using assms(3) by (simp add: allowRate_def split: option.splits)
  have "\<not> limited opts" using None assms(4) limiters_okD(2) [OF assms(1)] by fastforce
  moreover have "call_times n (cs @ new) = call_times n cs" if "n \<noteq> name" for n
    using assms(5) that by (auto simp: call_times_def)
  ultimately have "limiters_ok opts t s (cs @ new)"
    using limiters_okD [OF limiters_ok_mono [OF assms(1,2)]] None by (intro limiters_okI) (metis option.distinct(1))+
  then show ?thesis using s' by simp
next
  case (Some b)
  have "go_RateLimit opts \<noteq> None" using limiters_okD(1) [OF assms(1) Some] by (auto elim: limiter_ofE)
  then obtain b' where b': "bucket_Allow t b = (b', ok)" "s' = s\<lparr>ms_limiters := AList.update name b' (ms_limiters s)\<rparr>"
    using assms(3) Some by (cases "bucket_Allow t b") (auto simp: allowRate_def)
  have oth: "call_times n (cs @ new) = call_times n cs" if "n \<noteq> name" for n
    using assms(5) that by (auto simp: call_times_def)
  have "call_times name (cs @ new) = call_times name cs \<or> ok \<and> call_times name (cs @ new) = call_times name cs @ [t]"
    using assms(5) by (auto simp: call_times_def)
  from limiter_of_Allow [OF limiters_okD(1) [OF assms(1) Some] assms(2) b'(1) this]
  have "limiters_ok opts t s' (cs @ new)"
    using limiters_okD [OF limiters_ok_mono [OF assms(1,2)]] oth b'(2) by (intro limiters_okI) (auto split: if_splits)
  then show ?thesis using b'(2) by simp
qed

section \<open>Calls\<close>

lemma trace_lookup:
  "map_of (ctx_md (MergeContext (trace_md tr n acc) True ctx)) ''Mcp-Tool-Name'' = (if n = [] then None else Some n)"
  "map_of (ctx_md (MergeContext (trace_md tr n (Some a)) True ctx)) ''Mcp-Account-Id'' = (if ac_ID a = [] then None else Some (ac_ID a))"
  by (simp_all add: ctx_md_def MergeContext_def trace_md_def md_Set_def Let_def map_of_merge_step split: option.split)

definition log_tools :: "mcp_server \<Rightarrow> string list" where
  "log_tools s = map ar_Tool (filter ar_Allowed (ms_log s))"

lemma audit_fields [simp]:
  "ms_tools (audit opts r s) = ms_tools s" "ms_limiters (audit opts r s) = ms_limiters s"
  "log_tools (audit opts r s) = log_tools s @ (if go_Audit opts \<and> ar_Allowed r then [ar_Tool r] else [])"
  by (simp_all add: audit_def log_tools_def)

lemma limiters_ok_audit [simp]: "limiters_ok opts now (audit opts r s) cs = limiters_ok opts now s cs"
  by (simp add: limiters_ok_def)

lemma tools_ok_audit [simp]: "tools_ok opts (audit opts r s) = tools_ok opts s"
  by (simp add: tools_ok_def)

lemma audit_kinds [simp]: "\<not> ar_Allowed (denied tr n a ss why)" "ar_Allowed (allowed tr n a ss e)" "ar_Tool (allowed tr n a ss e) = n"
  by (simp_all add: denied_def allowed_def)

lemma gate_Inl: "gate opts tr n missing token tool = Inl (r, out) \<Longrightarrow> \<not> ar_Allowed r"
  by (auto simp: gate_def split: option.splits if_splits sum.splits)

lemma gate_Inr:
  assumes "gate opts tr n missing token tool = Inr acc"
  shows "case go_Auth opts of
      None \<Rightarrow> acc = None
    | Some inspect \<Rightarrow> (\<exists>a. acc = Some a \<and> inspect token = Inr a \<and> (to_Scopes tool = [] \<or> hasScope (ac_Scopes a) (to_Scopes tool)))"
  using assms by (auto simp: gate_def split: option.splits if_splits sum.splits)

text \<open>What a history keeps.\<close>

definition gw_inv :: "gw_opts \<Rightarrow> gw_st \<Rightarrow> bool" where
  "gw_inv opts st \<longleftrightarrow>
     tools_ok opts (gs_server st) \<and> limiters_ok opts (gs_now st) (gs_server st) (gs_calls st) \<and> list_all (call_ok opts) (gs_calls st) \<and>
     (go_Audit opts \<longrightarrow> log_tools (gs_server st) = map (to_Name \<circ> mk_tool) (gs_calls st))"

lemma tool_call_inv:
  assumes inv: "gw_inv opts st" and le: "gs_now st \<le> ce_now env"
    and call: "tool_call opts env ctx name missing token (gs_server st) = (s', cs, out)"
  shows "gw_inv opts (st\<lparr>gs_server := s', gs_now := ce_now env, gs_calls := gs_calls st @ made (ce_now env) name token (gs_server st) cs\<rparr>)"
proof (cases "map_of (ms_tools (gs_server st)) name")
  case None
  then have "s' = gs_server st" "cs = []" using call by (auto simp: tool_call_def)
  then show ?thesis using inv limiters_ok_mono [OF _ le] by (simp add: gw_inv_def made_def)
next
  case (Some tool)
  have T: "tool_ok opts name tool" using inv Some by (auto simp: gw_inv_def tools_ok_def)
  then have nm: "to_Name tool = name" "name \<noteq> []" by (auto simp: tool_ok_def)
  let ?s = "gs_server st"
  have L: "limiters_ok opts (gs_now st) ?s (gs_calls st)" using inv by (simp add: gw_inv_def)
  show ?thesis
  proof (cases "gate opts (ce_traceID env) name missing token tool")
    case (Inl x)
    obtain r o' where x: "x = (r, o')" by (cases x)
    then have "s' = audit opts r ?s" "cs = []" using call Some Inl by (auto simp: tool_call_def)
    then show ?thesis using inv limiters_ok_mono [OF L le] gate_Inl Inl x by (simp add: gw_inv_def made_def)
  next
    case (Inr acc)
    obtain s1 ok where al: "allowRate opts (ce_now env) name ?s = (s1, ok)" by (cases "allowRate opts (ce_now env) name ?s")
    note ok = allowRate_ok [OF L le al Some]
    have log1: "log_tools s1 = log_tools ?s" using ok [of "[]"] by (simp add: log_tools_def)
    have tl1: "tools_ok opts s1" using ok [of "[]"] inv by (simp add: gw_inv_def tools_ok_def)
    consider (no) "cs = []" "s' = s1 \<or> s' = audit opts (denied (ce_traceID env) name (account_id acc) [] ''rate limited'') s1"
      | (yes) input e where "ok" "cs = [\<lparr>kc_ctx = MergeContext (trace_md (ce_traceID env) name acc) True ctx, kc_service = to_Service tool,
            kc_endpoint = to_Endpoint tool, kc_data = input\<rparr>]" "s' = audit opts (allowed (ce_traceID env) name (account_id acc) (to_Scopes tool) e) s1"
      using call Some Inr al by (cases ok; cases "ce_marshal env") (auto simp: tool_call_def)
    then show ?thesis
    proof cases
      case no
      then show ?thesis using inv ok [of "[]"] log1 tl1 by (auto simp: gw_inv_def made_def)
    next
      case yes
      let ?m = "\<lparr>mk_time = ce_now env, mk_tool = tool, mk_token = token, mk_call = hd cs\<rparr>"
      have m: "made (ce_now env) name token ?s cs = [?m]" using yes(2) Some by (simp add: made_def)
      have "call_ok opts ?m"
        using T nm gate_Inr [OF Inr] yes(2) by (auto simp: call_ok_def trace_lookup split: option.splits)
      moreover have "limiters_ok opts (ce_now env) s1 (gs_calls st @ [?m])" using ok [of "[?m]" ?m] yes(1) nm(1) by simp
      ultimately show ?thesis using inv log1 tl1 yes(3) nm(1) by (auto simp: gw_inv_def m)
    qed
  qed
qed

lemma gw_step_inv:
  assumes "gw_step opts answers st st'" and "gw_inv opts st"
  shows "gw_inv opts st'"
  using assms
proof (induction rule: gw_step.induct)
  case (discover st now get listed)
  have "limiters_ok opts now (gs_server st) (gs_calls st)" using discover limiters_ok_mono by (auto simp: gw_inv_def)
  with discoverServices_ok [of opts "gs_server st" now "gs_calls st" listed get] discover(3) show ?case by (auto simp: gw_inv_def log_tools_def)
next
  case (http st env ctx r s' cs resp)
  from http(2) show ?case
  proof (cases rule: http_cases)
    case 1
    then show ?thesis using http limiters_ok_mono by (auto simp: gw_inv_def made_def)
  next
    case (2 name out)
    from tool_call_inv [OF http(3,1) 2(2)] 2(1) show ?thesis by simp
  qed
next
  case (stdio st env render ctx req s' cs res)
  from stdio(2) show ?case
  proof (cases rule: stdio_cases)
    case 1
    then show ?thesis using stdio limiters_ok_mono by (auto simp: gw_inv_def made_def)
  next
    case (2 name tok out)
    from tool_call_inv [OF stdio(3,1) 2(2)] 2(1) show ?thesis by simp
  qed
qed

lemma gw_step_mono: "gw_step opts A st st' \<Longrightarrow> (\<And>get. A get \<Longrightarrow> B get) \<Longrightarrow> gw_step opts B st st'"
  by (induction rule: gw_step.induct) (auto intro: gw_step.intros)

lemma gw_reachable_mono:
  assumes "gw_reachable opts A st" and "\<And>get. A get \<Longrightarrow> B get"
  shows "gw_reachable opts B st"
proof -
  have "gw_step opts A \<le> gw_step opts B"
  proof (intro predicate2I)
    show "gw_step opts B x y" if "gw_step opts A x y" for x y using that assms(2) by (rule gw_step_mono)
  qed
  from rtranclp_mono [OF this] show ?thesis using assms(1) unfolding gw_reachable_def by blast
qed

lemma gw_reachable_inv: "gw_reachable opts answers st \<Longrightarrow> gw_inv opts st"
proof -
  have "gw_inv opts (gw_init t)" for t
    by (simp add: gw_inv_def gw_init_def tools_ok_def limiters_ok_def log_tools_def call_times_def)
  moreover have "(gw_step opts answers)\<^sup>*\<^sup>* sta st \<Longrightarrow> gw_inv opts sta \<Longrightarrow> gw_inv opts st" for sta
    by (induction rule: rtranclp_induct) (auto dest: gw_step_inv)
  ultimately show "gw_reachable opts answers st \<Longrightarrow> gw_inv opts st" unfolding gw_reachable_def by blast
qed

section \<open>Answers\<close>

text \<open>An answer that belongs to a line: under its id, and what the line's handling gives on some state of the gateway.\<close>

definition answers_line :: "gw_opts \<Rightarrow> string + 'id rpc_request \<Rightarrow> 'id option \<times> rpc_result \<Rightarrow> bool" where
  "answers_line opts l a \<longleftrightarrow>
     (case l of
        Inl e \<Rightarrow> a = (None, RError ParseError ''Parse error'' e)
      | Inr req \<Rightarrow> fst a = Some (jr_ID req) \<and>
          (if jr_JSONRPC req \<noteq> ''2.0''
           then snd a = RError InvalidRequest ''Invalid request'' (''jsonrpc must be '' @ [CHR 0x27] @ ''2.0'' @ [CHR 0x27])
           else \<exists>env render ctx s s' cs. handleRequest opts env render ctx req s = (s', cs, snd a)))"

text \<open>Every line is answered, lost, running or still to be read, once.\<close>

definition lines_kept :: "gw_opts \<Rightarrow> (string + 'id rpc_request) list \<Rightarrow> 'id stdio_st \<Rightarrow> bool" where
  "lines_kept opts ls st \<longleftrightarrow>
     (\<exists>xs ys. list_all2 (answers_line opts) xs (io_out st) \<and> list_all2 (answers_line opts) ys (io_lost st) \<and>
        list_all (\<lambda>req. jr_JSONRPC req = ''2.0'') (io_running st) \<and>
        mset xs + mset ys + mset (map Inr (io_running st)) + mset (io_lines st) = mset ls)"

lemma lines_keptI:
  "list_all2 (answers_line opts) xs (io_out st) \<Longrightarrow> list_all2 (answers_line opts) ys (io_lost st) \<Longrightarrow>
     list_all (\<lambda>req. jr_JSONRPC req = ''2.0'') (io_running st) \<Longrightarrow>
     mset xs + mset ys + mset (map Inr (io_running st)) + mset (io_lines st) = mset ls \<Longrightarrow> lines_kept opts ls st"
  unfolding lines_kept_def by blast

lemma lines_keptE:
  assumes "lines_kept opts ls st"
  obtains xs ys where "list_all2 (answers_line opts) xs (io_out st)" "list_all2 (answers_line opts) ys (io_lost st)"
    "list_all (\<lambda>req. jr_JSONRPC req = ''2.0'') (io_running st)" "mset xs + mset ys + mset (map Inr (io_running st)) + mset (io_lines st) = mset ls"
  using assms unfolding lines_kept_def by blast

definition work_left :: "'id stdio_st \<Rightarrow> nat" where
  "work_left st = (if io_result st = None then 3 * length (io_lines st) + (if io_reading st then 1 else 2) else 0) + length (io_running st)"

lemma writeJSON_kept:
  assumes "list_all2 (answers_line opts) xs (io_out st)" and "list_all2 (answers_line opts) ys (io_lost st)" and "answers_line opts l v"
  shows "\<exists>xs' ys'. list_all2 (answers_line opts) xs' (io_out (writeJSON w v st)) \<and> list_all2 (answers_line opts) ys' (io_lost (writeJSON w v st)) \<and>
    mset xs' + mset ys' = mset xs + mset ys + {#l#}"
proof (cases "io_lost (writeJSON w v st) = io_lost st")
  case True
  then have "io_out (writeJSON w v st) = io_out st @ [v]" by (auto simp: writeJSON_def split: if_splits)
  then show ?thesis using True assms by (intro exI [of _ "xs @ [l]"] exI [of _ ys]) (auto intro: list_all2_appendI)
next
  case False
  then have "io_lost (writeJSON w v st) = io_lost st @ [v]" "io_out (writeJSON w v st) = io_out st" by (auto simp: writeJSON_def split: if_splits)
  then show ?thesis using assms by (intro exI [of _ xs] exI [of _ "ys @ [l]"]) (auto intro: list_all2_appendI)
qed

lemma writeJSON_frame [simp]:
  "io_lines (writeJSON w v st) = io_lines st" "io_result (writeJSON w v st) = io_result st" "io_reading (writeJSON w v st) = io_reading st"
  "io_running (writeJSON w v st) = io_running st" "io_cancelled (writeJSON w v st) = io_cancelled st"
  by (simp_all add: writeJSON_def)

lemma lines_kept_write:
  assumes "lines_kept opts ls st" and "answers_line opts l v" and "sta = st\<lparr>io_lines := ls', io_running := rs', io_reading := b, io_server := sv\<rparr>"
    and "mset (map Inr (io_running st)) + mset (io_lines st) = mset (map Inr rs') + mset ls' + {#l#}" and "set rs' \<subseteq> set (io_running st)"
  shows "lines_kept opts ls (writeJSON w v sta)"
proof -
  from assms(1) obtain xs ys where k: "list_all2 (answers_line opts) xs (io_out st)" "list_all2 (answers_line opts) ys (io_lost st)"
      "list_all (\<lambda>req. jr_JSONRPC req = ''2.0'') (io_running st)" "mset xs + mset ys + mset (map Inr (io_running st)) + mset (io_lines st) = mset ls"
    by (rule lines_keptE)
  from k(1,2) assms(3) have "list_all2 (answers_line opts) xs (io_out sta)" "list_all2 (answers_line opts) ys (io_lost sta)" by simp_all
  from writeJSON_kept [OF this assms(2)] obtain xs' ys' where k': "list_all2 (answers_line opts) xs' (io_out (writeJSON w v sta))"
      "list_all2 (answers_line opts) ys' (io_lost (writeJSON w v sta))" "mset xs' + mset ys' = mset xs + mset ys + {#l#}" by blast
  have "mset xs' + mset ys' + mset (map Inr rs') + mset ls' = mset xs + mset ys + (mset (map Inr rs') + mset ls' + {#l#})"
    unfolding k'(3) by (simp add: ac_simps)
  then have "mset xs' + mset ys' + mset (map Inr rs') + mset ls' = mset ls" unfolding assms(4) [symmetric] using k(4) by (simp add: ac_simps)
  moreover have "list_all (\<lambda>req. jr_JSONRPC req = ''2.0'') rs'" using k(3) assms(5) by (auto simp: list_all_iff)
  ultimately show ?thesis using k'(1,2) assms(3) by (intro lines_keptI [of opts xs' _ ys']) simp_all
qed

lemma stdio_own_kept: "stdio_own opts st st' \<Longrightarrow> lines_kept opts ls st \<Longrightarrow> lines_kept opts ls st'"
proof (induction rule: stdio_own.induct)
  case (line st l rest w)
  show ?case
  proof (cases "\<exists>req. l = Inr req \<and> jr_JSONRPC req = ''2.0''")
    case True
    then obtain req where req: "l = Inr req" "jr_JSONRPC req = ''2.0''" by blast
    from line(4) obtain xs ys where k: "list_all2 (answers_line opts) xs (io_out st)" "list_all2 (answers_line opts) ys (io_lost st)"
      "list_all (\<lambda>req. jr_JSONRPC req = ''2.0'') (io_running st)" "mset xs + mset ys + mset (map Inr (io_running st)) + mset (io_lines st) = mset ls"
      by (rule lines_keptE)
    then show ?thesis using req line(3) by (intro lines_keptI [of opts xs _ ys]) (simp_all add: read_line_def)
  next
    case False
    then obtain v where v: "read_line w l (st\<lparr>io_lines := rest, io_reading := False\<rparr>) = writeJSON w v (st\<lparr>io_lines := rest, io_reading := False\<rparr>)"
        "answers_line opts l v"
      by (cases l) (auto simp: read_line_def answers_line_def)
    show ?thesis unfolding v(1)
      by (rule lines_kept_write [OF line(4) v(2), where ls' = rest and rs' = "io_running st" and b = False and sv = "io_server st"]) (use line(3) in simp_all)
  qed
next
  case (answer st rs req rs' env render ctx w)
  obtain s' cs res where h: "handleRequest opts env render ctx req (io_server st) = (s', cs, res)"
    by (cases "handleRequest opts env render ctx req (io_server st)")
  have "jr_JSONRPC req = ''2.0''" using answer by (auto simp: lines_kept_def)
  then have "answers_line opts (Inr req) (Some (jr_ID req), res)" unfolding answers_line_def sum.case fst_conv snd_conv using h by (simp, blast)
  from lines_kept_write [OF answer(2) this, where sta = "st\<lparr>io_running := rs @ rs', io_server := s'\<rparr>"
      and ls' = "io_lines st" and rs' = "rs @ rs'" and b = "io_reading st" and sv = s' and w = w]
  show ?case using answer(1) h by (simp add: run_request_def subset_iff)
qed (simp_all add: lines_kept_def)

lemma stdio_step_kept:
  assumes "stdio_step opts st st'" and "lines_kept opts ls st"
  shows "lines_kept opts ls st'"
  using assms(1)
proof cases
  case own
  then show ?thesis using stdio_own_kept assms(2) by blast
qed (use assms(2) in \<open>simp_all add: lines_kept_def stdio_Stop_def\<close>)

lemma stdio_steps_kept: "(stdio_step opts)\<^sup>*\<^sup>* (stdio_start ls e s) st \<Longrightarrow> lines_kept opts ls st"
proof (induction rule: rtranclp_induct)
  case base
  show ?case by (simp add: lines_kept_def stdio_start_def)
qed (rule stdio_step_kept)

text \<open>\<open>Serve\<close> leaves lines unread only when it was stopped; every step of the transport brings its end nearer.\<close>

lemma stdio_returned:
  "(stdio_step opts)\<^sup>*\<^sup>* (stdio_start ls e s) st \<Longrightarrow> io_result st = None \<or> io_cancelled st \<or> io_lines st = []"
proof (induction rule: rtranclp_induct)
  case (step st st')
  from step.hyps(2) have "(io_cancelled st \<longrightarrow> io_cancelled st') \<and>
      (io_result st' = io_result st \<and> io_lines st' = io_lines st \<or> io_result st = None \<and> (io_result st' = None \<or> io_cancelled st' \<or> io_lines st' = []))"
  proof cases
    case own
    then show ?thesis by cases (auto simp: read_line_def run_request_def split: sum.split prod.split)
  qed (simp_all add: stdio_Stop_def)
  with step.IH show ?case by auto
qed (simp add: stdio_start_def)

lemma stdio_own_works: "stdio_own opts st st' \<Longrightarrow> work_left st' < work_left st"
  by (induction rule: stdio_own.induct) (auto simp: work_left_def read_line_def run_request_def split: sum.split prod.split)

lemma stdio_progress:
  assumes "work_left st \<noteq> 0"
  shows "\<exists>st'. stdio_own opts st st'"
proof (cases "io_running st")
  case (Cons req rs)
  then have "io_running st = [] @ req # rs" by simp
  then show ?thesis using stdio_own.answer by blast
next
  case Nil
  then have r: "io_result st = None" using assms by (auto simp: work_left_def split: if_splits)
  show ?thesis
  proof (cases "io_reading st")
    case True
    then show ?thesis using r stdio_own.line stdio_own.no_more by (cases "io_lines st") blast+
  qed (use r stdio_own.check in blast)
qed

section \<open>Declared scopes\<close>

text \<open>The tools of an endpoint whose scopes the registry gives in every answer.\<close>

definition scopes_are :: "string \<Rightarrow> string \<Rightarrow> string list \<Rightarrow> tool \<Rightarrow> bool" where
  "scopes_are svc ep ss t \<longleftrightarrow> to_Service t = svc \<longrightarrow> to_Endpoint t = ep \<longrightarrow> to_Scopes t = ss"

definition declares :: "string \<Rightarrow> string \<Rightarrow> string list \<Rightarrow> (string \<Rightarrow> string + service list) \<Rightarrow> bool" where
  "declares svc ep ss get \<longleftrightarrow>
     (\<forall>f r e. get svc = Inr (f # r) \<longrightarrow> e \<in> set (sv_Endpoints f) \<longrightarrow> ep_Name e = ep \<longrightarrow> map_of (ep_Metadata e) ''scopes'' = Some (go_join '','' ss))"

lemma tool_of_scopes:
  assumes "map_of (ep_Metadata e) ''scopes'' = Some (go_join '','' ss)" and "ss \<noteq> []" and "\<forall>s \<in> set ss. CHR '','' \<notin> set s" and "go_join '','' ss \<noteq> []"
    and "map_of (go_Scopes opts) (svc @ ''.'' @ ep_Name e) = None"
  shows "to_Scopes (tool_of opts svc e) = ss"
  using assms go_split_join [OF assms(2,3)] by (simp add: tool_of_def md_nonempty_def Let_def)

definition all_scoped :: "string \<Rightarrow> string \<Rightarrow> string list \<Rightarrow> mcp_server \<Rightarrow> bool" where
  "all_scoped svc ep ss s \<longleftrightarrow> (\<forall>n t. map_of (ms_tools s) n = Some t \<longrightarrow> scopes_are svc ep ss t)"

lemma foldl_add_tool_scoped:
  assumes "\<And>e. e \<in> set eps \<Longrightarrow> scopes_are svc ep ss (tool_of opts sv e)" and "all_scoped svc ep ss s"
  shows "all_scoped svc ep ss (foldl (add_tool opts now sv) s eps)"
  using assms
proof (induction eps arbitrary: s)
  case (Cons e eps)
  have "ms_tools (add_tool opts now sv s e) = AList.update (to_Name (tool_of opts sv e)) (tool_of opts sv e) (ms_tools s)"
    by (simp add: add_tool_def add_limiter_def Let_def split: option.split prod.split)
  then have "all_scoped svc ep ss (add_tool opts now sv s e)" using Cons.prems by (auto simp: all_scoped_def)
  with Cons show ?case by simp
qed simp

lemma discoverServices_scoped:
  assumes "declares svc ep ss get" and "ss \<noteq> []" "\<forall>s \<in> set ss. CHR '','' \<notin> set s" "go_join '','' ss \<noteq> []"
    and "map_of (go_Scopes opts) (svc @ ''.'' @ ep) = None" and "all_scoped svc ep ss s"
  shows "all_scoped svc ep ss (fst (discoverServices opts now listed get s))"
proof (cases listed)
  case (Inr services)
  let ?f = "\<lambda>s sv. case get (sv_Name sv) of Inr (full # _) \<Rightarrow> foldl (add_tool opts now (sv_Name sv)) s (sv_Endpoints full) | _ \<Rightarrow> s"
  have sc: "scopes_are svc ep ss (tool_of opts n e)" if "get n = Inr (f # r)" "e \<in> set (sv_Endpoints f)" for n f r e
  proof (cases "n = svc \<and> ep_Name e = ep")
    case True
    then have "map_of (ep_Metadata e) ''scopes'' = Some (go_join '','' ss)" using assms(1) that by (auto simp: declares_def)
    from tool_of_scopes [OF this assms(2-4)] True assms(5) show ?thesis by (simp add: scopes_are_def)
  next
    case False
    then show ?thesis by (auto simp: scopes_are_def tool_of_def Let_def)
  qed
  have "all_scoped svc ep ss (foldl ?f s services)" using assms(6)
  proof (induction services arbitrary: s)
    case (Cons sv services)
    have "all_scoped svc ep ss (?f s sv)"
      using Cons.prems sc foldl_add_tool_scoped by (auto split: sum.split list.split)
    with Cons show ?case by simp
  qed simp
  then show ?thesis using Inr by (simp add: discoverServices_def)
qed (use assms in \<open>simp add: discoverServices_def\<close>)

lemma tool_call_tools: "tool_call opts env ctx name missing token s = (s', cs, out) \<Longrightarrow> ms_tools s' = ms_tools s"
  by (auto simp: tool_call_def allowRate_def Let_def split: option.splits sum.splits prod.splits bool.splits)

lemma tool_call_made:
  "tool_call opts env ctx name missing token s = (s', cs, out) \<Longrightarrow> m \<in> set (made now name token s cs) \<Longrightarrow> map_of (ms_tools s) name = Some (mk_tool m)"
  by (cases "map_of (ms_tools s) name") (auto simp: tool_call_def made_def)

lemma scoped_reachable:
  assumes "gw_reachable opts (declares svc ep ss) st" and "ss \<noteq> []" "\<forall>s \<in> set ss. CHR '','' \<notin> set s" "go_join '','' ss \<noteq> []"
    and "map_of (go_Scopes opts) (svc @ ''.'' @ ep) = None"
  shows "all_scoped svc ep ss (gs_server st) \<and> (\<forall>m \<in> set (gs_calls st). scopes_are svc ep ss (mk_tool m))"
proof -
  from assms(1) obtain t where "(gw_step opts (declares svc ep ss))\<^sup>*\<^sup>* (gw_init t) st" by (auto simp: gw_reachable_def)
  then show ?thesis
  proof (induction rule: rtranclp_induct)
    case (step st1 st2)
    from step.hyps(2) step.IH show ?case
    proof (induction rule: gw_step.induct)
      case (discover st now get listed)
      then show ?case using discoverServices_scoped [OF _ assms(2-5)] by simp
    next
      case (http st env ctx r s' cs resp)
      from http(2) show ?case
      proof (cases rule: http_cases)
        case 1
        then show ?thesis using http(3) by (simp add: made_def)
      next
        case (2 name out)
        then show ?thesis using http(3) tool_call_tools [OF 2(2)] tool_call_made [OF 2(2)] by (auto simp: all_scoped_def)
      qed
    next
      case (stdio st env render ctx req s' cs res)
      from stdio(2) show ?case
      proof (cases rule: stdio_cases)
        case 1
        then show ?thesis using stdio(3) by (simp add: made_def)
      next
        case (2 name tok out)
        then show ?thesis using stdio(3) tool_call_tools [OF 2(2)] tool_call_made [OF 2(2)] by (auto simp: all_scoped_def)
      qed
    qed
  qed (simp add: gw_init_def all_scoped_def)
qed

section \<open>Properties\<close>

text \<open>
  C3.  What the gateway lets through.  Over any history of discoveries, whatever the registry answers, and of calls over HTTP and standard input, every RPC call that was made
  belongs to a tool discovered before, goes to that tool's service and endpoint, and carries the tool's name.  With an auth provider its token was accepted, the account has one
  of the scopes the tool required at that time, which are the operator's where these are set, and the call carries that account.  With a rate limit no tool is called more often in any window of time than the
  burst and the rate allow, across both transports and however often it is discovered again.  With auditing the records of allowed calls are exactly the calls made, in order.
\<close>

theorem gateway_guards:
  assumes "gw_reachable opts answers st"
  shows "list_all (call_ok opts) (gs_calls st) \<and>
    (\<forall>rate burst n a b. go_RateLimit opts = Some (rate, burst) \<longrightarrow> 0 < rate \<longrightarrow> a \<le> b \<longrightarrow>
       of_nat (length (filter (\<lambda>m. to_Name (mk_tool m) = n \<and> a \<le> mk_time m \<and> mk_time m \<le> b) (gs_calls st)))
         \<le> of_int (Orderings.max 1 burst) + seconds (b - a) * rate) \<and>
    (go_Audit opts \<longrightarrow> map ar_Tool (filter ar_Allowed (ms_log (gs_server st))) = map (to_Name \<circ> mk_tool) (gs_calls st))"
proof -
  have inv: "gw_inv opts st" by (rule gw_reachable_inv [OF assms])
  have rate: "of_nat (length (filter (\<lambda>m. to_Name (mk_tool m) = n \<and> a \<le> mk_time m \<and> mk_time m \<le> b) (gs_calls st)))
      \<le> of_int (Orderings.max 1 burst) + seconds (b - a) * rate"
    if r: "go_RateLimit opts = Some (rate, burst)" "0 < rate" "a \<le> b" for rate burst n a b
  proof -
    have L: "limiters_ok opts (gs_now st) (gs_server st) (gs_calls st)" using inv by (simp add: gw_inv_def)
    have eq: "length (filter (\<lambda>m. to_Name (mk_tool m) = n \<and> a \<le> mk_time m \<and> mk_time m \<le> b) (gs_calls st)) =
        length (filter (\<lambda>t. a \<le> t \<and> t \<le> b) (call_times n (gs_calls st)))"
      by (simp add: call_times_def filter_map o_def conj_commute)
    show ?thesis
    proof (cases "map_of (ms_limiters (gs_server st)) n")
      case None
      then have "call_times n (gs_calls st) = []" using limiters_okD(2) [OF L None] r by (simp add: limited_def)
      then show ?thesis using eq r seconds_nonneg [OF r(3)] by simp
    next
      case (Some bk)
      from limiters_okD(1) [OF L Some] obtain rate' burst' tn ts as where
        l: "go_RateLimit opts = Some (rate', burst')" "sorted (tn # ts)" "bucket_run (NewRateLimiter rate' burst' tn) ts = (bk, as)"
          "length (filter (\<lambda>t. a \<le> t \<and> t \<le> b) (call_times n (gs_calls st))) \<le> win_count a b ts as" by (rule limiter_ofE) blast
      have "bucket_ok (NewRateLimiter rate burst tn)" using r(2) NewRateLimiter_ok by simp
      from bucket_window_bound [OF this _ r(3), of ts] l r(1)
      have "of_nat (win_count a b ts as) \<le> of_int (Orderings.max 1 burst) + seconds (b - a) * rate"
        by (simp add: NewRateLimiter_fields)
      then show ?thesis using l(4) eq by (smt (verit) of_nat_le_iff order_trans)
    qed
  qed
  show ?thesis using inv rate by (simp add: gw_inv_def log_tools_def)
qed

text \<open>
  C21.  Both transports decide alike: for the same tool and the same token, given with or without its prefix, and unless the token is empty behind the prefix, an HTTP call that
  passes the operator's check and a call on standard input leave the same state and the same audit records, make the same RPC calls and end the same way, each in its own words.
\<close>

theorem transports_agree:
  assumes "case go_AuthFunc opts of None \<Rightarrow> True | Some f \<Rightarrow> f r = None" and "hc_body r = Inr name" and "jr_Params req = Inr (name, tok)"
    and "trim_prefix (hc_Authorization r) ''Bearer '' = trim_prefix tok ''Bearer ''" and "tok \<noteq> ''Bearer ''"
  shows "\<exists>s' cs out. handleCallTool opts env ctx r s = (s', cs, http_of (ce_traceID env) out) \<and>
    handleToolsCall opts env render ctx req s = (s', cs, rpc_of render (ce_traceID env) name out)"
proof -
  have "(trim_prefix tok ''Bearer '' = []) = (tok = [])" using assms(5) by (auto simp: trim_prefix_def has_prefix_iff split: if_splits)
  then show ?thesis using handleCallTool_eq [OF assms(1,2)] handleToolsCall_eq [OF assms(3)] assms(4) by (auto simp: answer_with_def)
qed

text \<open>
  C24.  Lines on standard input are never answered twice and answers are never mixed up.  At any moment of Serve, with the end of the input, read errors, Stop, failing writes and requests that run at the same
  time, every line has exactly one of these states: its own answer (under its id, and what handling it gave) is written, that answer could not be written, it is running, or it is still to be read.
  While there is work, the transport can go on, and every step of it uses up work; so it comes to an end when its goroutines get to run.  When Serve has
  returned without Stop and its goroutines have ended, and no write failed, every line has been answered exactly once.  Serve does not wait for its goroutines: a process that ends when Serve returns
  leaves the running ones unanswered.
\<close>

theorem stdio_answers_once:
  assumes "(stdio_step opts)\<^sup>*\<^sup>* (stdio_start ls e s) st"
  shows "(\<exists>xs ys. list_all2 (answers_line opts) xs (io_out st) \<and> list_all2 (answers_line opts) ys (io_lost st) \<and>
      mset xs + mset ys + mset (map Inr (io_running st)) + mset (io_lines st) = mset ls) \<and>
    (work_left st \<noteq> 0 \<longrightarrow> (\<exists>st'. stdio_own opts st st')) \<and> (\<forall>st'. stdio_own opts st st' \<longrightarrow> work_left st' < work_left st) \<and>
    (work_left st = 0 \<longrightarrow> io_result st \<noteq> None \<and> io_running st = []) \<and>
    (work_left st = 0 \<and> \<not> io_cancelled st \<and> io_lost st = [] \<longrightarrow> (\<exists>xs. mset xs = mset ls \<and> list_all2 (answers_line opts) xs (io_out st)))"
proof (intro conjI impI allI)
  note kept = stdio_steps_kept [OF assms, unfolded lines_kept_def]
  then show "\<exists>xs ys. list_all2 (answers_line opts) xs (io_out st) \<and> list_all2 (answers_line opts) ys (io_lost st) \<and>
      mset xs + mset ys + mset (map Inr (io_running st)) + mset (io_lines st) = mset ls" by blast
  show "\<exists>st'. stdio_own opts st st'" if "work_left st \<noteq> 0" using stdio_progress [OF that] .
  show "work_left st' < work_left st" if "stdio_own opts st st'" for st' using stdio_own_works [OF that] .
  have done': "io_result st \<noteq> None \<and> io_running st = []" if "work_left st = 0" using that by (auto simp: work_left_def split: if_splits)
  then show "io_result st \<noteq> None" "io_running st = []" if "work_left st = 0" using that by simp_all
  show "\<exists>xs. mset xs = mset ls \<and> list_all2 (answers_line opts) xs (io_out st)"
    if fin: "work_left st = 0 \<and> \<not> io_cancelled st \<and> io_lost st = []"
  proof -
    have "io_lines st = []" "io_running st = []" using stdio_returned [OF assms] done' fin by auto
    then show ?thesis using kept fin by auto
  qed
qed

text \<open>
  C7.  Declared scopes are enforced.  A handler is registered with scopes for one of its endpoints as the last option, and what the registry answers about the service holds copies of that handler's endpoints
  under that name, while the operator sets no scopes of its own for the tool.  Then over any history of the gateway every call of that endpoint carried a token of an account
  that has one of the scopes, up to the case of letters.  The scopes are joined by commas on the way and must not contain one.
\<close>

theorem declared_scopes_enforced:
  assumes "gw_reachable opts answers st" and "go_Auth opts = Some inspect"
    and "\<And>get f r e. answers get \<Longrightarrow> get svc = Inr (f # r) \<Longrightarrow> e \<in> set (sv_Endpoints f) \<Longrightarrow> ep_Name e = ep \<Longrightarrow>
      e \<in> endpoint_copy ` set (rh_endpoints (newRpcHandler docs name ms (hopts @ [WithEndpointScopes ep ss])))"
    and "ss \<noteq> []" and "\<forall>s \<in> set ss. CHR '','' \<notin> set s" and "go_join '','' ss \<noteq> []" and "map_of (go_Scopes opts) (svc @ ''.'' @ ep) = None"
    and "m \<in> set (gs_calls st)" and "kc_service (mk_call m) = svc" and "kc_endpoint (mk_call m) = ep"
  shows "\<exists>acc. inspect (mk_token m) = Inr acc \<and> (\<exists>s \<in> set ss. \<exists>h \<in> set (ac_Scopes acc). equal_fold h s)"
proof -
  have D: "declares svc ep ss get" if a: "answers get" for get
    unfolding declares_def
  proof (intro allI impI)
    fix f r e assume "get svc = Inr (f # r)" "e \<in> set (sv_Endpoints f)" "ep_Name e = ep"
    from assms(3) [OF a this] obtain e' where e': "e = endpoint_copy e'" "e' \<in> set (rh_endpoints (newRpcHandler docs name ms (hopts @ [WithEndpointScopes ep ss])))"
      by blast
    then have "ep_Name e' = ep" using \<open>ep_Name e = ep\<close> by (simp add: endpoint_copy_def)
    with scopes_published [OF e'(2)] show "map_of (ep_Metadata e) ''scopes'' = Some (go_join '','' ss)" by (simp add: e'(1) endpoint_copy_def)
  qed
  have "gw_reachable opts (declares svc ep ss) st" by (rule gw_reachable_mono [OF assms(1) D])
  from scoped_reachable [OF this assms(4-7)] assms(8) have sc: "scopes_are svc ep ss (mk_tool m)" by blast
  have "call_ok opts m" using gw_reachable_inv [OF assms(1)] assms(8) by (auto simp: gw_inv_def list_all_iff)
  with sc assms(2,4,9,10) show ?thesis by (auto simp: call_ok_def scopes_are_def hasScope_def list_ex_iff)
qed

section \<open>A sample gateway\<close>

definition sample_account :: account where
  "sample_account = \<lparr>ac_Metadata = [], ac_ID = ''u'', ac_Type = [], ac_Issuer = [], ac_Secret = [], ac_Scopes = [''Blog:Write'']\<rparr>"

definition sample_opts :: gw_opts where
  "sample_opts = \<lparr>go_Auth = Some (\<lambda>t. if t = ''k'' then Inr sample_account else Inl ErrInvalidToken), go_AuthFunc = None, go_Audit = True,
     go_RateLimit = Some (1, 1), go_Scopes = []\<rparr>"

definition sample_sig :: rsig where
  "sample_sig = \<lparr>me_Name = ''Create'', me_PkgPath = [], me_In = replicate 4 typeOfError, me_Out = [typeOfError]\<rparr>"

definition sample_handler :: rpcHandler where
  "sample_handler = newRpcHandler (\<lambda>_. ([], [])) ''Blog'' [sample_sig] ([] @ [WithEndpointScopes ''Blog.Create'' [''blog:write'']])"

definition sample_service :: service where
  "sample_service = \<lparr>sv_Name = ''blog'', sv_Version = ''1'', sv_Metadata = [], sv_Endpoints = map endpoint_copy (rh_endpoints sample_handler), sv_Nodes = []\<rparr>"

definition sample_get :: "string \<Rightarrow> string + service list" where
  "sample_get n = (if n = ''blog'' then Inr [sample_service] else Inl ''none'')"

definition sample_gw :: gw_st where
  "sample_gw = (gw_init 0)\<lparr>gs_server := fst (discoverServices sample_opts 0 (Inr [sample_service] :: string + service list) sample_get (gs_server (gw_init 0))), gs_now := 0\<rparr>"

definition sample_http :: http_call where
  "sample_http = \<lparr>hc_Authorization = ''Bearer k'', hc_body = Inr ''blog.Blog.Create''\<rparr>"

definition sample_env :: call_env where
  "sample_env = \<lparr>ce_traceID = ''t'', ce_now = 5, ce_marshal = Inr ''{}'', ce_outcome = Inr ''ok''\<rparr>"

definition sample_called :: gw_st where
  "sample_called =
     (case handleCallTool sample_opts sample_env \<lparr>cx_md = None\<rparr> sample_http (gs_server sample_gw) of
        (s, cs, _) \<Rightarrow> sample_gw\<lparr>gs_server := s, gs_now := 5,
          gs_calls := gs_calls sample_gw @ made 5 (projr (hc_body sample_http)) (trim_prefix (hc_Authorization sample_http) ''Bearer '') (gs_server sample_gw) cs\<rparr>)"

lemma sample_reachable: "gw_reachable sample_opts (\<lambda>get. get = sample_get) sample_called"
proof -
  have "gs_now (gw_init 0) = 0" by (simp add: gw_init_def)
  then have 1: "gw_step sample_opts (\<lambda>get. get = sample_get) (gw_init 0) sample_gw"
    unfolding sample_gw_def by (intro gw_step.discover) simp_all
  have le: "gs_now sample_gw \<le> ce_now sample_env" by (simp add: sample_gw_def sample_env_def)
  obtain s cs resp where h: "handleCallTool sample_opts sample_env \<lparr>cx_md = None\<rparr> sample_http (gs_server sample_gw) = (s, cs, resp)"
    by (metis prod_cases3)
  have "ce_now sample_env = 5" by (simp add: sample_env_def)
  with gw_step.http [OF le h] have "gw_step sample_opts (\<lambda>get. get = sample_get) sample_gw sample_called"
    unfolding sample_called_def h prod.case by simp
  with 1 show ?thesis unfolding gw_reachable_def by (meson converse_rtranclp_into_rtranclp rtranclp.rtrancl_refl)
qed

theorem gateway_guards_witness:
  "length (gs_calls sample_called) = 1 \<and> list_all (call_ok sample_opts) (gs_calls sample_called) \<and>
    map ar_Tool (filter ar_Allowed (ms_log (gs_server sample_called))) = map (to_Name \<circ> mk_tool) (gs_calls sample_called)"
proof -
  have "length (gs_calls sample_called) = 1" by code_simp
  then show ?thesis using gateway_guards [OF sample_reachable] by (simp add: sample_opts_def)
qed

theorem declared_scopes_enforced_witness:
  "\<exists>m. gs_calls sample_called = [m] \<and> mk_token m = ''k'' \<and> (\<exists>h \<in> set (ac_Scopes sample_account). equal_fold h ''blog:write'')"
proof -
  obtain m where m: "gs_calls sample_called = [m]"
  proof -
    have "length (gs_calls sample_called) = 1" by code_simp
    then show ?thesis using that by (auto simp: length_Suc_conv)
  qed
  have "map mk_token (gs_calls sample_called) = [''k''] \<and> map (\<lambda>m. (kc_service (mk_call m), kc_endpoint (mk_call m))) (gs_calls sample_called) = [(''blog'', ''Blog.Create'')]"
    by code_simp
  then have f: "mk_token m = ''k''" "kc_service (mk_call m) = ''blog''" "kc_endpoint (mk_call m) = ''Blog.Create''" by (simp_all add: m)
  have "\<exists>acc. (if mk_token m = ''k'' then Inr sample_account else Inl ErrInvalidToken) = Inr acc \<and>
      (\<exists>s \<in> set [''blog:write'']. \<exists>h \<in> set (ac_Scopes acc). equal_fold h s)"
    by (rule declared_scopes_enforced [OF sample_reachable, where svc = "''blog''" and ep = "''Blog.Create''" and docs = "\<lambda>_. ([], [])" and name = "''Blog''"
          and ms = "[sample_sig]" and hopts = "[]"])
      (use f m in \<open>auto simp: sample_opts_def sample_get_def sample_service_def sample_handler_def\<close>)
  then show ?thesis using f m by auto
qed

theorem transports_agree_witness:
  "\<exists>s' cs out. handleCallTool sample_opts sample_env \<lparr>cx_md = None\<rparr> sample_http (gs_server sample_gw) = (s', cs, http_of ''t'' out) \<and>
    handleToolsCall sample_opts sample_env id \<lparr>cx_md = None\<rparr>
      \<lparr>jr_JSONRPC = ''2.0'', jr_ID = ''1'', jr_Method = ''tools/call'', jr_Params = Inr (''blog.Blog.Create'', ''k'')\<rparr> (gs_server sample_gw) =
      (s', cs, rpc_of id ''t'' ''blog.Blog.Create'' out)"
  using transports_agree [of sample_http sample_opts "''blog.Blog.Create''"
      "\<lparr>jr_JSONRPC = ''2.0'', jr_ID = ''1'', jr_Method = ''tools/call'', jr_Params = Inr (''blog.Blog.Create'', ''k'')\<rparr>" "''k''" sample_env "\<lparr>cx_md = None\<rparr>" "gs_server sample_gw" id]
  by (simp add: sample_http_def sample_opts_def sample_env_def trim_prefix_def has_prefix_def)

theorem stdio_answers_once_witness:
  "\<exists>st. (stdio_step sample_opts)\<^sup>*\<^sup>* (stdio_start [Inl ''bad''] None (gs_server sample_gw) :: string stdio_st) st \<and> io_lost st = [] \<and>
     (\<exists>xs. mset xs = {#Inl ''bad''#} \<and> list_all2 (answers_line sample_opts) xs (io_out st))"
proof -
  let ?s = "stdio_start [Inl ''bad''] None (gs_server sample_gw) :: string stdio_st"
  let ?s1 = "?s\<lparr>io_reading := True\<rparr>"
  let ?s2 = "read_line Written (Inl ''bad'') (?s1\<lparr>io_lines := [], io_reading := False\<rparr>)"
  let ?s3 = "?s2\<lparr>io_reading := True\<rparr>"
  let ?s4 = "?s3\<lparr>io_result := Some None\<rparr>"
  have "stdio_own sample_opts ?s ?s1" using stdio_own.check [of ?s sample_opts] by (simp add: stdio_start_def)
  moreover have "stdio_own sample_opts ?s1 ?s2" using stdio_own.line [of ?s1 "Inl ''bad''" "[]" sample_opts Written] by (simp add: stdio_start_def)
  moreover have "stdio_own sample_opts ?s2 ?s3" using stdio_own.check [of ?s2 sample_opts] by (simp add: stdio_start_def read_line_def writeJSON_def)
  moreover have "stdio_own sample_opts ?s3 ?s4" using stdio_own.no_more [of ?s3 sample_opts] by (simp add: stdio_start_def read_line_def writeJSON_def)
  ultimately have run: "(stdio_step sample_opts)\<^sup>*\<^sup>* ?s ?s4"
    by (meson converse_rtranclp_into_rtranclp rtranclp.rtrancl_refl stdio_step.own)
  have fin: "work_left ?s4 = 0" "\<not> io_cancelled ?s4" "io_lost ?s4 = []"
    by (simp_all add: work_left_def stdio_start_def read_line_def writeJSON_def)
  have "\<exists>xs. mset xs = mset [Inl ''bad''] \<and> list_all2 (answers_line sample_opts) xs (io_out ?s4)"
    using stdio_answers_once [OF run] fin by blast
  then show ?thesis using run fin(3) by auto
qed

end
