(* ===== verification/Mdns.thy ===== *)
theory Mdns
  imports Net_Addr
begin

text \<open>
  Multicast DNS as the default registry uses it: the zone a server answers from (\<open>common/util/mdns/zone.go\<close>,
  \<open>dns_sd.go\<close>), the responder (\<open>server.go\<close>: queries, probe, announcement, goodbye) and the client that assembles
  service entries from the records it receives (\<open>client.go\<close>: \<open>messageToEntry\<close>, \<open>query\<close>, \<open>Listen\<close>).

  The client keeps pointers: two names of its map may stand for one entry, and \<open>messageToEntry\<close> updates entries
  through them, so the entries live in a heap (a list, a pointer is an index) and the map holds indices.
  Packing and unpacking of messages and \<open>SetQuestion\<close> belong to the DNS package, which is the argument \<open>dns_lib\<close>; a packet is a
  value of a type the model does not look into.  The resolver, the host name and the sockets are the argument
  \<open>mdns_env\<close>.  A UDP write that fails is not modelled: the sender learns nothing that the code acts on.
\<close>

section \<open>Addresses and messages\<close>

type_synonym net_ip = bytes

text \<open>\<open>net.IP\<close> is a byte slice; nil is the empty one.  \<open>To4\<close>, \<open>To16\<close> and \<open>Equal\<close> of the standard library.\<close>

definition To4 :: "net_ip \<Rightarrow> net_ip option" where
  "To4 ip =
     (if length ip = 4 then Some ip
      else if length ip = 16 \<and> take 10 ip = replicate 10 0 \<and> ip ! 10 = 255 \<and> ip ! 11 = 255 then Some (drop 12 ip)
      else None)"

definition To16 :: "net_ip \<Rightarrow> net_ip option" where
  "To16 ip =
     (if length ip = 4 then Some (replicate 10 0 @ [255, 255] @ ip)
      else if length ip = 16 then Some ip
      else None)"

definition ip_Equal :: "net_ip \<Rightarrow> net_ip \<Rightarrow> bool" where
  "ip_Equal a b \<longleftrightarrow>
     (if length a = length b then a = b
      else if length a = 4 \<and> length b = 16 then To16 a = Some b
      else if length a = 16 \<and> length b = 4 then To16 b = Some a
      else False)"

text \<open>The numbers of the DNS protocol the code uses.\<close>

definition TypeA :: "16 word" where "TypeA = 1"
definition TypePTR :: "16 word" where "TypePTR = 12"
definition TypeTXT :: "16 word" where "TypeTXT = 16"
definition TypeAAAA :: "16 word" where "TypeAAAA = 28"
definition TypeSRV :: "16 word" where "TypeSRV = 33"
definition TypeANY :: "16 word" where "TypeANY = 255"
definition ClassINET :: "16 word" where "ClassINET = 1"
definition OpcodeQuery :: int where "OpcodeQuery = 0"

lemmas dns_types = TypeA_def TypePTR_def TypeTXT_def TypeAAAA_def TypeSRV_def TypeANY_def

record question =
  dq_Name :: string
  dq_Qtype :: "16 word"
  dq_Qclass :: "16 word"

record rr_header =
  rh_Name :: string
  rh_Rrtype :: "16 word"
  rh_Class :: "16 word"
  rh_Ttl :: "32 word"

datatype rr =
    RR_PTR (rr_Hdr: rr_header) string
  | RR_SRV (rr_Hdr: rr_header) (rr_Priority: "16 word") (rr_Weight: "16 word") (rr_Port: "16 word") (rr_Target: string)
  | RR_TXT (rr_Hdr: rr_header) (rr_Txt: "string list")
  | RR_A (rr_Hdr: rr_header) net_ip
  | RR_AAAA (rr_Hdr: rr_header) net_ip
  | RR_Other (rr_Hdr: rr_header)

record dns_msg =
  dm_Id :: "16 word"
  dm_Response :: bool
  dm_Opcode :: int
  dm_Authoritative :: bool
  dm_Truncated :: bool
  dm_RecursionDesired :: bool
  dm_Rcode :: int
  dm_Compress :: bool
  dm_Question :: "question list"
  dm_Answer :: "rr list"
  dm_Ns :: "rr list"
  dm_Extra :: "rr list"

text \<open>\<open>new(dns.Msg)\<close>: the zero message.\<close>

definition zero_msg :: dns_msg where
  "zero_msg = \<lparr>dm_Id = 0, dm_Response = False, dm_Opcode = 0, dm_Authoritative = False, dm_Truncated = False,
     dm_RecursionDesired = False, dm_Rcode = 0, dm_Compress = False, dm_Question = [], dm_Answer = [], dm_Ns = [], dm_Extra = []\<rparr>"

record 'p dns_lib =
  dl_SetQuestion :: "dns_msg \<Rightarrow> string \<Rightarrow> 16 word \<Rightarrow> dns_msg"
  dl_Pack :: "dns_msg \<Rightarrow> 'p option"
  dl_Unpack :: "'p \<Rightarrow> dns_msg option"

datatype mdns_err =
    MissingInstance | MissingService | MissingPort | BadDomain string | BadHostName string | NoHostname string
  | NoHostIP string | InvalidIP net_ip | NoSocket string | BadOpcode int | BadRcode int | TruncatedQuery
  | PackFailed | BadAddress string | BadTxt string | NilPointer

record mdns_env =
  me_Hostname :: "string + string"
  me_LookupIP :: "string \<Rightarrow> net_ip list option"
  me_Listen :: "string option"
  me_outboundIP :: net_ip
  me_ParseIP :: "string \<Rightarrow> net_ip"
  me_ipString :: "net_ip \<Rightarrow> string"

section \<open>The zone\<close>

record mdns_service =
  mz_Instance :: string
  mz_Service :: string
  mz_Domain :: string
  mz_HostName :: string
  mz_Port :: int
  mz_IPs :: "net_ip list"
  mz_TXT :: "string list"
  mz_TTL :: "32 word"
  mz_serviceAddr :: string
  mz_instanceAddr :: string
  mz_enumAddr :: string

definition defaultTTL :: "32 word" where
  "defaultTTL = 120"

definition dot :: char where
  "dot = CHR ''.''"

definition trimDot :: "string \<Rightarrow> string" where
  "trimDot s = rev (dropWhile (\<lambda>c. c = dot) (rev (dropWhile (\<lambda>c. c = dot) s)))"

definition validateFQDN :: "string \<Rightarrow> bool" where
  "validateFQDN s \<longleftrightarrow> s \<noteq> [] \<and> last s = dot"

definition instance_name :: "string \<Rightarrow> string \<Rightarrow> string \<Rightarrow> string" where
  "instance_name inst service domain = inst @ [dot] @ trimDot service @ [dot] @ trimDot domain @ [dot]"

definition service_name :: "string \<Rightarrow> string \<Rightarrow> string" where
  "service_name service domain = trimDot service @ [dot] @ trimDot domain @ [dot]"

definition enum_prefix :: string where
  "enum_prefix = ''_services._dns-sd._udp.''"

definition host_name :: "mdns_env \<Rightarrow> string \<Rightarrow> mdns_err + string" where
  "host_name env hostName =
     (if hostName = [] then (case me_Hostname env of Inl e \<Rightarrow> Inl (NoHostname e) | Inr h \<Rightarrow> Inr (h @ [dot]))
      else Inr hostName)"

definition host_ips :: "mdns_env \<Rightarrow> string \<Rightarrow> string \<Rightarrow> net_ip list \<Rightarrow> mdns_err + net_ip list" where
  "host_ips env hostName domain ips =
     (if ips \<noteq> [] then Inr ips
      else case me_LookupIP env (trimDot hostName) of
        Some is \<Rightarrow> Inr is
      | None \<Rightarrow> (case me_LookupIP env (trimDot (hostName @ domain)) of Some is \<Rightarrow> Inr is | None \<Rightarrow> Inl (NoHostIP hostName)))"

definition NewMDNSService ::
    "mdns_env \<Rightarrow> string \<Rightarrow> string \<Rightarrow> string \<Rightarrow> string \<Rightarrow> int \<Rightarrow> net_ip list \<Rightarrow> string list \<Rightarrow> mdns_err + mdns_service" where
  "NewMDNSService env inst service domain hostName port ips txt =
     (if inst = [] then Inl MissingInstance
      else if service = [] then Inl MissingService
      else if port = 0 then Inl MissingPort
      else let domain = (if domain = [] then ''local.'' else domain) in
        if \<not> validateFQDN domain then Inl (BadDomain domain)
        else sum_bind (host_name env hostName) (\<lambda>hostName.
          if \<not> validateFQDN hostName then Inl (BadHostName hostName)
          else sum_bind (host_ips env hostName domain ips) (\<lambda>ips.
            case find (\<lambda>ip. To4 ip = None \<and> To16 ip = None) ips of
              Some ip \<Rightarrow> Inl (InvalidIP ip)
            | None \<Rightarrow> Inr \<lparr>mz_Instance = inst, mz_Service = service, mz_Domain = domain, mz_HostName = hostName,
                mz_Port = port, mz_IPs = ips, mz_TXT = txt, mz_TTL = defaultTTL, mz_serviceAddr = service_name service domain,
                mz_instanceAddr = instance_name inst service domain, mz_enumAddr = enum_prefix @ trimDot domain @ [dot]\<rparr>)))"

definition rr_hdr :: "mdns_service \<Rightarrow> string \<Rightarrow> 16 word \<Rightarrow> rr_header" where
  "rr_hdr m name typ = \<lparr>rh_Name = name, rh_Rrtype = typ, rh_Class = ClassINET, rh_Ttl = mz_TTL m\<rparr>"

definition serviceEnum :: "mdns_service \<Rightarrow> question \<Rightarrow> rr list" where
  "serviceEnum m q =
     (if dq_Qtype q = TypeANY \<or> dq_Qtype q = TypePTR then [RR_PTR (rr_hdr m (dq_Name q) TypePTR) (mz_serviceAddr m)] else [])"

text \<open>
  \<open>instanceRecords\<close> asks itself for the parts of an answer: ANY is SRV and TXT, SRV carries A and AAAA.  The four leaves of
  its switch are the next four definitions.
\<close>

definition a_records :: "mdns_service \<Rightarrow> rr list" where
  "a_records m = concat (map (\<lambda>ip. case To4 ip of None \<Rightarrow> [] | Some ip4 \<Rightarrow> [RR_A (rr_hdr m (mz_HostName m) TypeA) ip4]) (mz_IPs m))"

definition aaaa_records :: "mdns_service \<Rightarrow> rr list" where
  "aaaa_records m = concat (map (\<lambda>ip. if To4 ip \<noteq> None then []
     else case To16 ip of None \<Rightarrow> [] | Some ip16 \<Rightarrow> [RR_AAAA (rr_hdr m (mz_HostName m) TypeAAAA) ip16]) (mz_IPs m))"

definition srv_records :: "mdns_service \<Rightarrow> string \<Rightarrow> rr list" where
  "srv_records m name =
     [RR_SRV (rr_hdr m name TypeSRV) 10 1 (word_of_int (mz_Port m)) (mz_HostName m)] @ a_records m @ aaaa_records m"

definition txt_records :: "mdns_service \<Rightarrow> string \<Rightarrow> rr list" where
  "txt_records m name = [RR_TXT (rr_hdr m name TypeTXT) (mz_TXT m)]"

definition instanceRecords :: "mdns_service \<Rightarrow> question \<Rightarrow> rr list" where
  "instanceRecords m q =
     (if dq_Qtype q = TypeANY then srv_records m (mz_instanceAddr m) @ txt_records m (mz_instanceAddr m)
      else if dq_Qtype q = TypeA then a_records m
      else if dq_Qtype q = TypeAAAA then aaaa_records m
      else if dq_Qtype q = TypeSRV then srv_records m (dq_Name q)
      else if dq_Qtype q = TypeTXT then txt_records m (dq_Name q)
      else [])"

definition serviceRecords :: "mdns_service \<Rightarrow> question \<Rightarrow> rr list" where
  "serviceRecords m q =
     (if dq_Qtype q = TypeANY \<or> dq_Qtype q = TypePTR
      then [RR_PTR (rr_hdr m (dq_Name q) TypePTR) (mz_instanceAddr m)]
           @ instanceRecords m \<lparr>dq_Name = mz_instanceAddr m, dq_Qtype = TypeANY, dq_Qclass = 0\<rparr>
      else [])"

definition mdns_Records :: "mdns_service \<Rightarrow> question \<Rightarrow> rr list" where
  "mdns_Records m q =
     (if dq_Name q = mz_enumAddr m then serviceEnum m q
      else if dq_Name q = mz_serviceAddr m then serviceRecords m q
      else if dq_Name q = mz_instanceAddr m then instanceRecords m q
      else if dq_Name q = mz_HostName m \<and> (dq_Qtype q = TypeA \<or> dq_Qtype q = TypeAAAA) then instanceRecords m q
      else [])"

definition dnssdMetaQueryRecords :: "mdns_service \<Rightarrow> question \<Rightarrow> rr list" where
  "dnssdMetaQueryRecords m q =
     [RR_PTR \<lparr>rh_Name = dq_Name q, rh_Rrtype = TypePTR, rh_Class = ClassINET, rh_Ttl = defaultTTL\<rparr> (mz_serviceAddr m)]"

definition dnssd_Records :: "mdns_service \<Rightarrow> question \<Rightarrow> rr list" where
  "dnssd_Records m q =
     (if dq_Name q = enum_prefix @ mz_Domain m @ [dot] then dnssdMetaQueryRecords m q else []) @ mdns_Records m q"

datatype zone = ZService mdns_service | ZDnssd mdns_service

fun zone_Records :: "zone \<Rightarrow> question \<Rightarrow> rr list" where
  "zone_Records (ZService m) q = mdns_Records m q"
| "zone_Records (ZDnssd m) q = dnssd_Records m q"

section \<open>The server\<close>

record mdns_server =
  ms_Zone :: zone
  ms_LocalhostChecking :: bool
  ms_shutdown :: bool
  ms_outboundIP :: net_ip

text \<open>\<open>NewServer\<close>: the sockets are bound and joined to the groups by the environment, which may fail.\<close>

definition NewServer :: "mdns_env \<Rightarrow> zone \<Rightarrow> bool \<Rightarrow> mdns_err + mdns_server" where
  "NewServer env z localhost =
     (case me_Listen env of
        Some e \<Rightarrow> Inl (NoSocket e)
      | None \<Rightarrow> Inr \<lparr>ms_Zone = z, ms_LocalhostChecking = localhost, ms_shutdown = False, ms_outboundIP = me_outboundIP env\<rparr>)"

text \<open>\<open>handleQuestion\<close>: the records go out by multicast, or by unicast when the top bit of the class asks for it.\<close>

definition handleQuestion :: "mdns_server \<Rightarrow> question \<Rightarrow> rr list \<times> rr list" where
  "handleQuestion s q =
     (let records = zone_Records (ms_Zone s) q
      in if records = [] then ([], [])
         else if bit (dq_Qclass q) 15 then ([], records)
         else (records, []))"

definition query_resp :: "mdns_server \<Rightarrow> dns_msg \<Rightarrow> bool \<Rightarrow> dns_msg option" where
  "query_resp s query unicast =
     (let answers = map (handleQuestion s) (dm_Question query);
          answer = concat (map (if unicast then snd else fst) answers)
      in if answer = [] then None
         else Some (zero_msg\<lparr>dm_Id := (if unicast then dm_Id query else 0), dm_Response := True, dm_Opcode := OpcodeQuery,
                dm_Authoritative := True, dm_Compress := True, dm_Question := dm_Question query, dm_Answer := answer\<rparr>))"

type_synonym udp_addr = "net_ip \<times> int"

definition server_sendResponse :: "'p dns_lib \<Rightarrow> mdns_server \<Rightarrow> dns_msg \<Rightarrow> udp_addr \<Rightarrow> mdns_err + (udp_addr \<times> 'p) list" where
  "server_sendResponse lib s resp from =
     (case dl_Pack lib resp of
        None \<Rightarrow> Inl PackFailed
      | Some buf \<Rightarrow>
          (let backupTarget = (if To4 (fst from) = None then replicate 16 0 else replicate 10 0 @ [255, 255, 0, 0, 0, 0])
           in Inr ((from, buf) #
                (if ms_LocalhostChecking s \<and> ip_Equal (fst from) (ms_outboundIP s) then [((backupTarget, snd from), buf)] else []))))"

definition send_if :: "'p dns_lib \<Rightarrow> mdns_server \<Rightarrow> dns_msg option \<Rightarrow> udp_addr \<Rightarrow> mdns_err + (udp_addr \<times> 'p) list" where
  "send_if lib s resp from = (case resp of None \<Rightarrow> Inr [] | Some r \<Rightarrow> server_sendResponse lib s r from)"

definition handleQuery :: "'p dns_lib \<Rightarrow> mdns_server \<Rightarrow> dns_msg \<Rightarrow> udp_addr \<Rightarrow> mdns_err + (udp_addr \<times> 'p) list" where
  "handleQuery lib s query from =
     (if dm_Opcode query \<noteq> OpcodeQuery then Inl (BadOpcode (dm_Opcode query))
      else if dm_Rcode query \<noteq> 0 then Inl (BadRcode (dm_Rcode query))
      else if dm_Truncated query then Inl TruncatedQuery
      else sum_bind (send_if lib s (query_resp s query False) from) (\<lambda>out.
           sum_bind (send_if lib s (query_resp s query True) from) (\<lambda>out'. Inr (out @ out'))))"

definition parsePacket :: "'p dns_lib \<Rightarrow> mdns_server \<Rightarrow> 'p \<Rightarrow> udp_addr \<Rightarrow> mdns_err + (udp_addr \<times> 'p) list" where
  "parsePacket lib s packet from =
     (case dl_Unpack lib packet of
        None \<Rightarrow> Inl PackFailed
      | Some msg \<Rightarrow> handleQuery lib s (msg\<lparr>dm_Truncated := False\<rparr>) from)"

text \<open>
  \<open>probe\<close> asks three times for the instance, showing its records, then announces it three times unless the server is
  shut down meanwhile; these are the two messages.  Only a plain service is probed: the list entry is a \<open>DNSSDService\<close>.
\<close>

definition probe_query :: "'p dns_lib \<Rightarrow> mdns_service \<Rightarrow> dns_msg" where
  "probe_query lib sd =
     (let name = instance_name (mz_Instance sd) (mz_Service sd) (mz_Domain sd);
          hdr = (\<lambda>typ. \<lparr>rh_Name = name, rh_Rrtype = typ, rh_Class = ClassINET, rh_Ttl = defaultTTL\<rparr>)
      in (dl_SetQuestion lib zero_msg name TypePTR)\<lparr>dm_RecursionDesired := False,
           dm_Ns := [RR_SRV (hdr TypeSRV) 0 0 (word_of_int (mz_Port sd)) (mz_HostName sd), RR_TXT (hdr TypeTXT) (mz_TXT sd)]\<rparr>)"

definition unsolicited :: "'p dns_lib \<Rightarrow> dns_msg \<Rightarrow> mdns_service \<Rightarrow> dns_msg" where
  "unsolicited lib msg sd =
     (let name = instance_name (mz_Instance sd) (mz_Service sd) (mz_Domain sd)
      in zero_msg\<lparr>dm_Response := True,
           dm_Answer := (case dm_Question (dl_SetQuestion lib msg name TypeANY) of [] \<Rightarrow> [] | q # _ \<Rightarrow> mdns_Records sd q)\<rparr>)"

fun probe :: "'p dns_lib \<Rightarrow> zone \<Rightarrow> dns_msg list" where
  "probe lib (ZDnssd m) = []"
| "probe lib (ZService sd) = replicate 3 (probe_query lib sd) @ replicate 3 (unsolicited lib (probe_query lib sd) sd)"

text \<open>\<open>unregister\<close> sets the time to live to zero and sends the records once more.\<close>

fun unregister :: "'p dns_lib \<Rightarrow> zone \<Rightarrow> zone \<times> dns_msg list" where
  "unregister lib (ZDnssd m) = (ZDnssd m, [])"
| "unregister lib (ZService sd) = (let sd' = sd\<lparr>mz_TTL := 0\<rparr> in (ZService sd', [unsolicited lib zero_msg sd']))"

definition Shutdown :: "'p dns_lib \<Rightarrow> mdns_server \<Rightarrow> mdns_server \<times> dns_msg list" where
  "Shutdown lib s =
     (if ms_shutdown s then (s, [])
      else let (z, out) = unregister lib (ms_Zone s) in (s\<lparr>ms_shutdown := True, ms_Zone := z\<rparr>, out))"

definition SendMulticast :: "'p dns_lib \<Rightarrow> dns_msg \<Rightarrow> mdns_err + 'p" where
  "SendMulticast lib msg = (case dl_Pack lib msg of None \<Rightarrow> Inl PackFailed | Some buf \<Rightarrow> Inr buf)"

text \<open>The receive loop of a server: it stops once the server is shut down, and an error is only logged.\<close>

definition server_recv :: "'p dns_lib \<Rightarrow> mdns_server \<Rightarrow> 'p \<Rightarrow> udp_addr \<Rightarrow> (udp_addr \<times> 'p) list" where
  "server_recv lib s packet from =
     (if ms_shutdown s then []
      else case parsePacket lib s packet from of Inl _ \<Rightarrow> [] | Inr out \<Rightarrow> out)"

section \<open>The client\<close>

record service_entry =
  se_Name :: string
  se_Host :: string
  se_AddrV4 :: net_ip
  se_AddrV6 :: net_ip
  se_Port :: int
  se_Info :: string
  se_InfoFields :: "string list"
  se_TTL :: int
  se_Type :: "16 word"
  se_Addr :: net_ip
  se_hasTXT :: bool
  se_sent :: bool

definition se_complete :: "service_entry \<Rightarrow> bool" where
  "se_complete s \<longleftrightarrow> (se_AddrV4 s \<noteq> [] \<or> se_AddrV6 s \<noteq> [] \<or> se_Addr s \<noteq> []) \<and> se_Port s \<noteq> 0 \<and> se_hasTXT s"

definition new_entry :: "string \<Rightarrow> 16 word \<Rightarrow> service_entry" where
  "new_entry name typ = \<lparr>se_Name = name, se_Host = [], se_AddrV4 = [], se_AddrV6 = [], se_Port = 0, se_Info = [],
     se_InfoFields = [], se_TTL = 0, se_Type = typ, se_Addr = [], se_hasTXT = False, se_sent = False\<rparr>"

text \<open>The map \<open>inprogress\<close> of entry pointers, and the entries.\<close>

record inprogress =
  ip_names :: "string \<rightharpoonup> nat"
  ip_heap :: "service_entry list"

definition no_progress :: inprogress where
  "no_progress = \<lparr>ip_names = Map.empty, ip_heap = []\<rparr>"

definition ensureName :: "inprogress \<Rightarrow> string \<Rightarrow> 16 word \<Rightarrow> inprogress \<times> nat" where
  "ensureName p name typ =
     (case ip_names p name of
        Some r \<Rightarrow> (p, r)
      | None \<Rightarrow> (let r = length (ip_heap p)
                 in (p\<lparr>ip_names := (ip_names p)(name \<mapsto> r), ip_heap := ip_heap p @ [new_entry name typ]\<rparr>, r)))"

definition mdns_alias :: "inprogress \<Rightarrow> string \<Rightarrow> string \<Rightarrow> 16 word \<Rightarrow> inprogress" where
  "mdns_alias p src dst typ = (let (p, r) = ensureName p src typ in p\<lparr>ip_names := (ip_names p)(dst \<mapsto> r)\<rparr>)"

definition upd_entry :: "nat \<Rightarrow> (service_entry \<Rightarrow> service_entry) \<Rightarrow> inprogress \<Rightarrow> inprogress" where
  "upd_entry r f p = p\<lparr>ip_heap := (ip_heap p)[r := f (ip_heap p ! r)]\<rparr>"

text \<open>
  What all the cases of \<open>messageToEntry\<close> do with the entry of a name: nothing more when it is complete (\<open>continue\<close>), else
  fill in what the record says and take over its time to live.
\<close>

definition fill_entry ::
    "string \<Rightarrow> rr_header \<Rightarrow> (service_entry \<Rightarrow> service_entry) \<Rightarrow> inprogress \<Rightarrow> inprogress \<times> nat option" where
  "fill_entry name h f p =
     (let (p, r) = ensureName p name (rh_Rrtype h)
      in if se_complete (ip_heap p ! r) then (p, Some r)
         else (upd_entry r (\<lambda>e. (f e)\<lparr>se_TTL := uint (rh_Ttl h)\<rparr>) p, Some r))"

fun answer_step :: "inprogress \<times> nat option \<Rightarrow> rr \<Rightarrow> inprogress \<times> nat option" where
  "answer_step (p, inp) (RR_PTR h ptr) = fill_entry ptr h (\<lambda>e. e) p"
| "answer_step (p, inp) (RR_SRV h _ _ port target) =
     fill_entry (rh_Name h) h (\<lambda>e. e\<lparr>se_Host := target, se_Port := uint port\<rparr>)
       (if target \<noteq> rh_Name h then mdns_alias p (rh_Name h) target (rh_Rrtype h) else p)"
| "answer_step (p, inp) (RR_TXT h txt) =
     fill_entry (rh_Name h) h (\<lambda>e. e\<lparr>se_Info := go_join ''|'' txt, se_InfoFields := txt, se_hasTXT := True\<rparr>) p"
| "answer_step (p, inp) (RR_A h ip) = fill_entry (rh_Name h) h (\<lambda>e. e\<lparr>se_Addr := ip, se_AddrV4 := ip\<rparr>) p"
| "answer_step (p, inp) (RR_AAAA h ip) = fill_entry (rh_Name h) h (\<lambda>e. e\<lparr>se_Addr := ip, se_AddrV6 := ip\<rparr>) p"
| "answer_step (p, inp) (RR_Other h) =
     (case inp of None \<Rightarrow> (p, None) | Some r \<Rightarrow> (upd_entry r (\<lambda>e. e\<lparr>se_TTL := uint (rh_Ttl h)\<rparr>) p, Some r))"

definition messageToEntry :: "dns_msg \<Rightarrow> inprogress \<Rightarrow> inprogress \<times> nat option" where
  "messageToEntry m p = foldl answer_step (p, None) (dm_Answer m @ dm_Extra m)"

text \<open>
  One round of the receive loops of \<open>query\<close> and \<open>Listen\<close>: the entry that is handed to the reader, or the query that is
  sent for a missing part.
\<close>

definition query_msg :: "'p dns_lib \<Rightarrow> string \<Rightarrow> string \<Rightarrow> 16 word \<Rightarrow> bool \<Rightarrow> dns_msg" where
  "query_msg lib service domain typ unicast =
     (let m = dl_SetQuestion lib zero_msg (service_name service domain) (if typ = 0 then TypePTR else typ);
          m = (if unicast then m\<lparr>dm_Question := (case dm_Question m of [] \<Rightarrow> [] | q # qs \<Rightarrow> q\<lparr>dq_Qclass := set_bit 15 (dq_Qclass q)\<rparr> # qs)\<rparr> else m)
      in m\<lparr>dm_RecursionDesired := False\<rparr>)"

datatype client_event = Handed service_entry | Asked dns_msg

definition query_step :: "'p dns_lib \<Rightarrow> string \<Rightarrow> dns_msg \<Rightarrow> inprogress \<Rightarrow> inprogress \<times> client_event option" where
  "query_step lib asked resp p =
     (case messageToEntry resp p of
        (p, None) \<Rightarrow> (p, None)
      | (p, Some r) \<Rightarrow>
          if dm_Question resp = [] \<or> dq_Name (hd (dm_Question resp)) \<noteq> asked then (p, None)
          else let e = ip_heap p ! r in
            if se_complete e
            then if se_sent e then (p, None)
                 else (upd_entry r (\<lambda>e. e\<lparr>se_sent := True\<rparr>) p, Some (Handed (e\<lparr>se_sent := True\<rparr>)))
            else (p, Some (Asked ((dl_SetQuestion lib zero_msg (se_Name e) (se_Type e))\<lparr>dm_RecursionDesired := False\<rparr>))))"

definition listen_step :: "'p dns_lib \<Rightarrow> dns_msg \<Rightarrow> inprogress \<Rightarrow> inprogress \<times> client_event option" where
  "listen_step lib m p =
     (case messageToEntry m p of
        (p, None) \<Rightarrow> (p, None)
      | (p, Some r) \<Rightarrow>
          let e = ip_heap p ! r in
            if se_complete e
            then if se_sent e then (p, None) else (no_progress, Some (Handed (e\<lparr>se_sent := True\<rparr>)))
            else (p, Some (Asked ((dl_SetQuestion lib zero_msg (se_Name e) TypePTR)\<lparr>dm_RecursionDesired := False\<rparr>))))"

text \<open>The loops over the messages that arrive before the deadline, or while listening goes on.\<close>

fun client_loop :: "(dns_msg \<Rightarrow> inprogress \<Rightarrow> inprogress \<times> client_event option) \<Rightarrow> inprogress \<Rightarrow> dns_msg list \<Rightarrow> client_event list" where
  "client_loop step p [] = []"
| "client_loop step p (m # ms) =
     (case step m p of (p', ev) \<Rightarrow> (case ev of None \<Rightarrow> [] | Some x \<Rightarrow> [x]) @ client_loop step p' ms)"

text \<open>\<open>recv\<close> of the client drops a packet that does not unpack.\<close>

definition client_recv :: "'p dns_lib \<Rightarrow> 'p list \<Rightarrow> dns_msg list" where
  "client_recv lib packets = List.map_filter (dl_Unpack lib) packets"

definition handed :: "client_event list \<Rightarrow> service_entry list" where
  "handed evs = List.map_filter (\<lambda>ev. case ev of Handed e \<Rightarrow> Some e | Asked _ \<Rightarrow> None) evs"

record query_param =
  qp_Service :: string
  qp_Domain :: string
  qp_Type :: "16 word"
  qp_WantUnicastResponse :: bool

definition DefaultParams :: "string \<Rightarrow> query_param" where
  "DefaultParams service = \<lparr>qp_Service = service, qp_Domain = ''local'', qp_Type = 0, qp_WantUnicastResponse = False\<rparr>"

text \<open>
  \<open>Query\<close>: \<open>packets\<close> arrive in answer to the query that is sent.  Without sockets, or when the query does not pack, it returns the error.
\<close>

definition Query :: "mdns_env \<Rightarrow> 'p dns_lib \<Rightarrow> query_param \<Rightarrow> 'p list \<Rightarrow> mdns_err + service_entry list" where
  "Query env lib params packets =
     (case me_Listen env of
        Some e \<Rightarrow> Inl (NoSocket e)
      | None \<Rightarrow>
          (let domain = (if qp_Domain params = [] then ''local'' else qp_Domain params);
               m = query_msg lib (qp_Service params) domain (qp_Type params) (qp_WantUnicastResponse params)
           in case dl_Pack lib m of
                None \<Rightarrow> Inl PackFailed
              | Some _ \<Rightarrow> Inr (handed (client_loop (query_step lib (dq_Name (hd (dm_Question m)))) no_progress (client_recv lib packets)))))"

definition mdns_Lookup :: "mdns_env \<Rightarrow> 'p dns_lib \<Rightarrow> string \<Rightarrow> 'p list \<Rightarrow> mdns_err + service_entry list" where
  "mdns_Lookup env lib service packets = Query env lib (DefaultParams service) packets"

definition mdns_Listen :: "'p dns_lib \<Rightarrow> 'p list \<Rightarrow> service_entry list" where
  "mdns_Listen lib packets = handed (client_loop (listen_step lib) no_progress (client_recv lib packets))"

section \<open>Names and zones\<close>

lemma trimDot_append_dot [simp]: "trimDot (s @ [dot]) = trimDot s"
proof (cases "\<forall>c\<in>set s. c = dot")
  case True
  then have "dropWhile (\<lambda>c. c = dot) (s @ [dot]) = []" "dropWhile (\<lambda>c. c = dot) s = []"
    using dropWhile_eq_Nil_conv [of "\<lambda>c. c = dot" "s @ [dot]"] dropWhile_eq_Nil_conv [of "\<lambda>c. c = dot" s] by fastforce+
  then show ?thesis by (simp only: trimDot_def)
next
  case False
  then show ?thesis by (auto simp: trimDot_def dropWhile_append1)
qed

lemma length_trimDot: "length (trimDot s) \<le> length s"
proof -
  have "length (trimDot s) \<le> length (rev (dropWhile (\<lambda>c. c = dot) s))"
    unfolding trimDot_def length_rev by (rule order_trans [OF length_dropWhile_le]) simp
  also have "\<dots> \<le> length s" unfolding length_rev by (rule length_dropWhile_le)
  finally show ?thesis .
qed

text \<open>What \<open>NewMDNSService\<close> guarantees of the zone it returns.\<close>

lemma NewMDNSService_Inr:
  assumes "NewMDNSService env inst service domain hostName port ips txt = Inr sd" and "ips \<noteq> []"
  shows "mz_Instance sd = inst" "mz_Service sd = service" "mz_Port sd = port" "mz_IPs sd = ips" "mz_TXT sd = txt"
    "mz_TTL sd = defaultTTL" "mz_serviceAddr sd = service_name service (mz_Domain sd)"
    "mz_instanceAddr sd = instance_name inst service (mz_Domain sd)" "mz_enumAddr sd = enum_prefix @ trimDot (mz_Domain sd) @ [dot]"
    "mz_Domain sd = (if domain = [] then ''local.'' else domain)" "host_name env hostName = Inr (mz_HostName sd)"
    "inst \<noteq> []" "service \<noteq> []" "port \<noteq> 0" "\<forall>ip\<in>set ips. To4 ip \<noteq> None \<or> To16 ip \<noteq> None"
  using assms unfolding NewMDNSService_def
  by (auto simp: Let_def sum_bind_def host_ips_def find_None_iff split: if_splits sum.splits option.splits)

lemma NewMDNSService_ok:
  assumes "inst \<noteq> []" "service \<noteq> []" "port \<noteq> 0" "domain \<noteq> []" "last domain = dot" "me_Hostname env = Inr h"
    "ips \<noteq> []" "\<forall>ip\<in>set ips. To4 ip \<noteq> None \<or> To16 ip \<noteq> None"
  shows "\<exists>sd. NewMDNSService env inst service domain [] port ips txt = Inr sd"
proof -
  have "find (\<lambda>ip. To4 ip = None \<and> To16 ip = None) ips = None" using assms(8) by (auto simp: find_None_iff)
  then show ?thesis
    using assms by (simp add: NewMDNSService_def Let_def sum_bind_def host_name_def host_ips_def validateFQDN_def)
qed

text \<open>
  The service-type branch of \<open>DNSSDService.Records\<close> is dead for a zone of \<open>NewMDNSService\<close>: the domain already ends in a
  dot, so that the name compared against ends in two.
\<close>

lemma dnssd_meta_dead:
  assumes "NewMDNSService env inst service domain hostName port ips txt = Inr sd" and "ips \<noteq> []"
    and "dq_Name q = enum_prefix @ trimDot (mz_Domain sd) @ [dot]"
  shows "dnssd_Records sd q = serviceEnum sd q"
proof -
  have fq: "validateFQDN (mz_Domain sd)"
    using assms(1) by (auto simp: NewMDNSService_def Let_def sum_bind_def split: if_splits sum.splits option.splits)
  have "length (trimDot (mz_Domain sd)) < length (mz_Domain sd)"
  proof -
    obtain d where "mz_Domain sd = d @ [dot]" using fq by (metis append_butlast_last_id validateFQDN_def)
    with length_trimDot [of d] show ?thesis by simp
  qed
  then have "dq_Name q \<noteq> enum_prefix @ mz_Domain sd @ [dot]" using assms(3) by auto
  then show ?thesis
    using NewMDNSService_Inr(9) [OF assms(1,2)] assms(3) by (simp add: dnssd_Records_def mdns_Records_def)
qed

section \<open>Assembling an entry\<close>

text \<open>A service the registry announces: one usable address, a port that survives in 16 bits.\<close>

definition sd_addr :: "mdns_service \<Rightarrow> net_ip" where
  "sd_addr sd = (case mz_IPs sd of [] \<Rightarrow> [] | ip # _ \<Rightarrow> (case To4 ip of Some a \<Rightarrow> a | None \<Rightarrow> ip))"

definition sd_ok :: "mdns_service \<Rightarrow> bool" where
  "sd_ok sd \<longleftrightarrow> length (mz_IPs sd) = 1 \<and> list_all (\<lambda>ip. To4 ip \<noteq> None \<or> To16 ip \<noteq> None) (mz_IPs sd) \<and>
     mz_HostName sd \<noteq> mz_instanceAddr sd \<and> (word_of_int (mz_Port sd) :: 16 word) \<noteq> 0 \<and>
     mz_instanceAddr sd = instance_name (mz_Instance sd) (mz_Service sd) (mz_Domain sd)"

definition filled :: "mdns_service \<Rightarrow> service_entry \<Rightarrow> service_entry" where
  "filled sd e = e\<lparr>se_Host := mz_HostName sd, se_Port := uint (word_of_int (mz_Port sd) :: 16 word), se_Addr := sd_addr sd,
     se_AddrV4 := (if length (sd_addr sd) = 4 then sd_addr sd else se_AddrV4 e),
     se_AddrV6 := (if length (sd_addr sd) = 4 then se_AddrV6 e else sd_addr sd),
     se_Info := go_join ''|'' (mz_TXT sd), se_InfoFields := mz_TXT sd, se_hasTXT := True, se_TTL := uint (mz_TTL sd)\<rparr>"

definition entry_of :: "16 word \<Rightarrow> mdns_service \<Rightarrow> service_entry" where
  "entry_of typ sd = filled sd (new_entry (mz_instanceAddr sd) typ)"

lemma To4_length: "To4 ip = Some a \<Longrightarrow> length a = 4"
  by (auto simp: To4_def split: if_splits)

lemma To16_not4: "To4 ip = None \<Longrightarrow> To16 ip \<noteq> None \<Longrightarrow> To16 ip = Some ip \<and> length ip = 16"
  by (auto simp: To4_def To16_def split: if_splits)

text \<open>The address record of a service with one address.\<close>

lemma sd_addr_records:
  assumes "sd_ok sd"
  shows "sd_addr sd \<noteq> []"
    and "length (sd_addr sd) = 4 \<Longrightarrow> a_records sd @ aaaa_records sd = [RR_A (rr_hdr sd (mz_HostName sd) TypeA) (sd_addr sd)]"
    and "length (sd_addr sd) \<noteq> 4 \<Longrightarrow> a_records sd @ aaaa_records sd = [RR_AAAA (rr_hdr sd (mz_HostName sd) TypeAAAA) (sd_addr sd)]"
proof -
  obtain ip where ip: "mz_IPs sd = [ip]" "To4 ip \<noteq> None \<or> To16 ip \<noteq> None"
    using assms by (cases "mz_IPs sd") (auto simp: sd_ok_def)
  have cases4: "(\<exists>a. To4 ip = Some a \<and> length a = 4) \<or> (To4 ip = None \<and> To16 ip = Some ip \<and> length ip = 16)"
    using ip(2) To4_length To16_not4 by (cases "To4 ip") auto
  then show "sd_addr sd \<noteq> []" by (auto simp: sd_addr_def ip(1))
  show "length (sd_addr sd) = 4 \<Longrightarrow> a_records sd @ aaaa_records sd = [RR_A (rr_hdr sd (mz_HostName sd) TypeA) (sd_addr sd)]"
    using cases4 by (auto simp: sd_addr_def ip(1) a_records_def aaaa_records_def)
  show "length (sd_addr sd) \<noteq> 4 \<Longrightarrow> a_records sd @ aaaa_records sd = [RR_AAAA (rr_hdr sd (mz_HostName sd) TypeAAAA) (sd_addr sd)]"
    using cases4 by (auto simp: sd_addr_def ip(1) a_records_def aaaa_records_def)
qed

lemma rr_hdr_sel [simp]: "rh_Name (rr_hdr m n t) = n" "rh_Rrtype (rr_hdr m n t) = t" "rh_Ttl (rr_hdr m n t) = mz_TTL m"
  by (simp_all add: rr_hdr_def)

text \<open>The records of one instance, on an entry that has none of its parts yet: all of them end up in that entry.\<close>

lemma instance_fills:
  assumes ok: "sd_ok sd" and r: "ip_names p (mz_instanceAddr sd) = Some r" "r < length (ip_heap p)" "\<not> se_hasTXT (ip_heap p ! r)"
  shows "foldl answer_step (p, inp) (srv_records sd (mz_instanceAddr sd) @ txt_records sd (mz_instanceAddr sd)) =
    (p\<lparr>ip_names := (ip_names p)(mz_HostName sd \<mapsto> r), ip_heap := (ip_heap p)[r := filled sd (ip_heap p ! r)]\<rparr>, Some r)"
proof -
  have neq: "mz_HostName sd \<noteq> mz_instanceAddr sd" "mz_instanceAddr sd \<noteq> mz_HostName sd"
    and port: "uint (word_of_int (mz_Port sd) :: 16 word) \<noteq> 0"
    using ok by (auto simp: sd_ok_def simp del: uint_0_iff) (simp add: uint_0_iff)
  note step = srv_records_def txt_records_def mdns_alias_def ensureName_def fill_entry_def upd_entry_def se_complete_def filled_def
  show ?thesis
  proof (cases "length (sd_addr sd) = 4")
    case True
    show ?thesis
      using sd_addr_records(1) [OF ok] neq port r True
      by (simp add: step sd_addr_records(2) [OF ok True] Let_def)
  next
    case False
    show ?thesis
      using sd_addr_records(1) [OF ok] neq port r False
      by (simp add: step sd_addr_records(3) [OF ok False] Let_def)
  qed
qed

lemma sd_ok_TTL [simp]: "sd_ok (sd\<lparr>mz_TTL := t\<rparr>) = sd_ok sd"
  by (simp add: sd_ok_def)

lemma complete_entry_of [simp]: "sd_ok sd \<Longrightarrow> se_complete (entry_of typ sd)"
  using sd_addr_records(1) [of sd] by (auto simp: sd_ok_def se_complete_def entry_of_def filled_def uint_0_iff)

lemma se_complete_sent [simp]: "se_complete (e\<lparr>se_sent := b\<rparr>) = se_complete e"
  by (simp add: se_complete_def)

lemma entry_of_unsent [simp]: "\<not> se_sent (entry_of typ sd)"
  by (simp add: entry_of_def filled_def new_entry_def)

text \<open>The records of an instance on its complete entry: only the alias of the host name moves.\<close>

lemma instance_known:
  assumes ok: "sd_ok sd" and r: "ip_names p (mz_instanceAddr sd) = Some r" "se_complete (ip_heap p ! r)"
  shows "foldl answer_step (p, inp) (srv_records sd (mz_instanceAddr sd) @ txt_records sd (mz_instanceAddr sd)) =
    (p\<lparr>ip_names := (ip_names p)(mz_HostName sd \<mapsto> r)\<rparr>, Some r)"
proof -
  have neq: "mz_HostName sd \<noteq> mz_instanceAddr sd" "mz_instanceAddr sd \<noteq> mz_HostName sd" using ok by (auto simp: sd_ok_def)
  note step = srv_records_def txt_records_def mdns_alias_def ensureName_def fill_entry_def
  show ?thesis
    using neq r sd_addr_records(2,3) [OF ok] by (cases "length (sd_addr sd) = 4") (simp_all add: step Let_def)
qed

text \<open>A server's whole answer to a query for the service, as the client unpacks it.\<close>

definition reply_msg :: "question \<Rightarrow> mdns_service \<Rightarrow> dns_msg" where
  "reply_msg q sd = zero_msg\<lparr>dm_Response := True, dm_Authoritative := True, dm_Question := [q], dm_Answer := serviceRecords sd q\<rparr>"

definition ptr_question :: "string \<Rightarrow> question" where
  "ptr_question name = \<lparr>dq_Name = name, dq_Qtype = TypePTR, dq_Qclass = ClassINET\<rparr>"

lemma reply_answer:
  "dq_Qtype q = TypePTR \<Longrightarrow> dm_Answer (reply_msg q sd) @ dm_Extra (reply_msg q sd) =
     RR_PTR (rr_hdr sd (dq_Name q) TypePTR) (mz_instanceAddr sd)
       # srv_records sd (mz_instanceAddr sd) @ txt_records sd (mz_instanceAddr sd)"
  by (simp add: reply_msg_def serviceRecords_def instanceRecords_def zero_msg_def)

lemma reply_fresh:
  assumes ok: "sd_ok sd" and new: "ip_names p (mz_instanceAddr sd) = None" and q: "dq_Qtype q = TypePTR"
  shows "messageToEntry (reply_msg q sd) p =
    (p\<lparr>ip_names := (ip_names p)(mz_instanceAddr sd \<mapsto> length (ip_heap p), mz_HostName sd \<mapsto> length (ip_heap p)),
       ip_heap := ip_heap p @ [entry_of TypePTR sd]\<rparr>, Some (length (ip_heap p)))"
proof -
  let ?n = "length (ip_heap p)"
  define e where "e = (new_entry (mz_instanceAddr sd) TypePTR)\<lparr>se_TTL := uint (mz_TTL sd)\<rparr>"
  define p' where "p' = p\<lparr>ip_names := (ip_names p)(mz_instanceAddr sd \<mapsto> ?n), ip_heap := ip_heap p @ [e]\<rparr>"
  have ptr: "answer_step (p, None) (RR_PTR (rr_hdr sd (dq_Name q) TypePTR) (mz_instanceAddr sd)) = (p', Some ?n)"
    using new by (simp add: fill_entry_def ensureName_def upd_entry_def se_complete_def new_entry_def p'_def e_def Let_def)
  have "foldl answer_step (p', Some ?n) (srv_records sd (mz_instanceAddr sd) @ txt_records sd (mz_instanceAddr sd)) =
     (p'\<lparr>ip_names := (ip_names p')(mz_HostName sd \<mapsto> ?n), ip_heap := (ip_heap p')[?n := filled sd (ip_heap p' ! ?n)]\<rparr>, Some ?n)"
    by (rule instance_fills [OF ok]) (simp_all add: p'_def e_def new_entry_def)
  moreover have "filled sd e = entry_of TypePTR sd" by (simp add: filled_def entry_of_def e_def)
  ultimately show ?thesis unfolding messageToEntry_def reply_answer [OF q] foldl_Cons ptr by (simp add: p'_def)
qed

lemma reply_known:
  assumes ok: "sd_ok sd" and r: "ip_names p (mz_instanceAddr sd) = Some r" "se_complete (ip_heap p ! r)" and q: "dq_Qtype q = TypePTR"
  shows "messageToEntry (reply_msg q sd) p = (p\<lparr>ip_names := (ip_names p)(mz_HostName sd \<mapsto> r)\<rparr>, Some r)"
proof -
  have "answer_step (p, None) (RR_PTR (rr_hdr sd (dq_Name q) TypePTR) (mz_instanceAddr sd)) = (p, Some r)"
    using r by (simp add: fill_entry_def ensureName_def)
  with instance_known [OF ok r] show ?thesis unfolding messageToEntry_def reply_answer [OF q] foldl_Cons by simp
qed

section \<open>A query hands out every instance once\<close>

definition sds_ok :: "mdns_service set \<Rightarrow> bool" where
  "sds_ok M \<longleftrightarrow> (\<forall>sd\<in>M. sd_ok sd) \<and> inj_on mz_instanceAddr M \<and> (\<forall>sd\<in>M. \<forall>sd'\<in>M. mz_HostName sd \<noteq> mz_instanceAddr sd')"

definition sent_entry :: "mdns_service \<Rightarrow> service_entry" where
  "sent_entry sd = (entry_of TypePTR sd)\<lparr>se_sent := True\<rparr>"

text \<open>The instances in \<open>S\<close> have been handed out and their entries stay; the others have no entry yet.\<close>

definition progress_ok :: "mdns_service set \<Rightarrow> mdns_service set \<Rightarrow> inprogress \<Rightarrow> bool" where
  "progress_ok M S p \<longleftrightarrow> (\<forall>sd\<in>M. if sd \<in> S
     then \<exists>r. ip_names p (mz_instanceAddr sd) = Some r \<and> r < length (ip_heap p) \<and> ip_heap p ! r = sent_entry sd
     else ip_names p (mz_instanceAddr sd) = None)"

lemma progress_okD:
  "progress_ok M S p \<Longrightarrow> sd \<in> M \<Longrightarrow> sd \<in> S \<Longrightarrow>
     \<exists>r. ip_names p (mz_instanceAddr sd) = Some r \<and> r < length (ip_heap p) \<and> ip_heap p ! r = sent_entry sd"
  "progress_ok M S p \<Longrightarrow> sd \<in> M \<Longrightarrow> sd \<notin> S \<Longrightarrow> ip_names p (mz_instanceAddr sd) = None"
  unfolding progress_ok_def by (drule (1) bspec, simp)+

lemma progress_ok_start: "progress_ok M {} no_progress"
  by (simp add: progress_ok_def no_progress_def)

lemma query_step_reply:
  assumes M: "sds_ok M" "sd \<in> M" and p: "progress_ok M S p" and q: "dq_Qtype q = TypePTR"
  shows "\<exists>p'. query_step lib (dq_Name q) (reply_msg q sd) p =
      (p', if sd \<in> S then None else Some (Handed (sent_entry sd))) \<and> progress_ok M (insert sd S) p'"
proof -
  have ok: "sd_ok sd" using M by (simp add: sds_ok_def)
  have other: "mz_instanceAddr sd' \<noteq> mz_HostName sd" "mz_instanceAddr sd' = mz_instanceAddr sd \<longleftrightarrow> sd' = sd" if "sd' \<in> M" for sd'
    using M that by (metis sds_ok_def, metis sds_ok_def inj_on_def)
  have quest: "dm_Question (reply_msg q sd) = [q]" by (simp add: reply_msg_def zero_msg_def)
  show ?thesis
  proof (cases "sd \<in> S")
    case True
    then obtain r where r: "ip_names p (mz_instanceAddr sd) = Some r" "r < length (ip_heap p)" "ip_heap p ! r = sent_entry sd"
      using progress_okD(1) [OF p M(2)] by blast
    have c: "se_complete (ip_heap p ! r)" using ok by (simp add: r sent_entry_def)
    have "progress_ok M (insert sd S) (p\<lparr>ip_names := (ip_names p)(mz_HostName sd \<mapsto> r)\<rparr>)"
      using p True other(1) by (simp add: progress_ok_def insert_absorb)
    with reply_known [OF ok r(1) c q] c show ?thesis
      using True quest by (simp add: query_step_def r(3)) (simp add: sent_entry_def)
  next
    case False
    then have new: "ip_names p (mz_instanceAddr sd) = None" by (rule progress_okD(2) [OF p M(2)])
    let ?n = "length (ip_heap p)"
    let ?p = "p\<lparr>ip_names := (ip_names p)(mz_instanceAddr sd \<mapsto> ?n, mz_HostName sd \<mapsto> ?n), ip_heap := ip_heap p @ [sent_entry sd]\<rparr>"
    have "progress_ok M (insert sd S) ?p"
      unfolding progress_ok_def
    proof
      fix sd' assume "sd' \<in> M"
      then show "if sd' \<in> insert sd S then \<exists>r. ip_names ?p (mz_instanceAddr sd') = Some r \<and> r < length (ip_heap ?p) \<and> ip_heap ?p ! r = sent_entry sd'
          else ip_names ?p (mz_instanceAddr sd') = None"
        using progress_okD [OF p, of sd'] other [of sd'] False
        by (cases "sd' = sd"; cases "sd' \<in> S") (auto simp: nth_append)
    qed
    with reply_fresh [OF ok new q] ok quest False show ?thesis
      by (simp add: query_step_def upd_entry_def sent_entry_def Let_def)
  qed
qed

fun first_occ :: "'a set \<Rightarrow> 'a list \<Rightarrow> 'a list" where
  "first_occ S [] = []"
| "first_occ S (x # xs) = (if x \<in> S then first_occ S xs else x # first_occ (insert x S) xs)"

lemma set_first_occ: "set (first_occ S xs) = set xs - S"
  by (induction S xs rule: first_occ.induct) auto

lemma distinct_first_occ: "distinct (first_occ S xs)"
  by (induction S xs rule: first_occ.induct) (auto simp: set_first_occ)

lemma handed_simps [simp]:
  "handed [] = []" "handed (Handed e # evs) = e # handed evs" "handed (Asked m # evs) = handed evs"
  by (simp_all add: handed_def map_filter_simps)

lemma query_loop_replies:
  assumes M: "sds_ok M" and q: "dq_Qtype q = TypePTR" and "set xs \<subseteq> M" and "progress_ok M S p"
  shows "handed (client_loop (query_step lib (dq_Name q)) p (map (reply_msg q) xs)) = map sent_entry (first_occ S xs)"
  using assms(3,4)
proof (induction xs arbitrary: S p)
  case (Cons sd xs)
  then obtain p' where "query_step lib (dq_Name q) (reply_msg q sd) p = (p', if sd \<in> S then None else Some (Handed (sent_entry sd)))"
      and ok: "progress_ok M (insert sd S) p'"
    using query_step_reply [OF M _ Cons.prems(2) q, of sd lib] by auto
  with Cons.IH [OF _ ok] Cons.prems show ?case by (simp add: insert_absorb)
qed simp

section \<open>The responder\<close>

text \<open>
  What the DNS package is relied on for: \<open>SetQuestion\<close> puts the one question and leaves the rest of what is read, and a message that
  packs unpacks to itself, up to the flag that asks for compression, which is not part of a packet.
  The package writes some characters of names and strings as escapes; a message with such characters that are not written as escapes already is
  one that does not pack here.
\<close>

definition lib_ok :: "'p dns_lib \<Rightarrow> bool" where
  "lib_ok lib \<longleftrightarrow>
     (\<forall>msg name typ. let m = dl_SetQuestion lib msg name typ in
        dm_Question m = [\<lparr>dq_Name = name, dq_Qtype = typ, dq_Qclass = ClassINET\<rparr>] \<and> dm_Opcode m = dm_Opcode msg \<and>
        dm_Rcode m = dm_Rcode msg \<and> dm_Truncated m = dm_Truncated msg) \<and>
     (\<forall>m buf. dl_Pack lib m = Some buf \<longrightarrow> dl_Unpack lib buf = Some (m\<lparr>dm_Compress := False\<rparr>))"

lemma lib_okD:
  assumes "lib_ok lib"
  shows "dm_Question (dl_SetQuestion lib msg name typ) = [\<lparr>dq_Name = name, dq_Qtype = typ, dq_Qclass = ClassINET\<rparr>]"
    "dm_Opcode (dl_SetQuestion lib msg name typ) = dm_Opcode msg" "dm_Rcode (dl_SetQuestion lib msg name typ) = dm_Rcode msg"
    "dm_Truncated (dl_SetQuestion lib msg name typ) = dm_Truncated msg"
    "dl_Pack lib m = Some buf \<Longrightarrow> dl_Unpack lib buf = Some (m\<lparr>dm_Compress := False\<rparr>)"
  using assms by (simp_all add: lib_ok_def Let_def)

lemma query_msg_question:
  "lib_ok lib \<Longrightarrow> dm_Question (query_msg lib service domain 0 False) = [ptr_question (service_name service domain)]"
  "lib_ok lib \<Longrightarrow> dm_Opcode (query_msg lib service domain 0 False) = 0"
  "lib_ok lib \<Longrightarrow> dm_Rcode (query_msg lib service domain 0 False) = 0"
  by (simp_all add: query_msg_def lib_okD ptr_question_def zero_msg_def)

lemma not_unicast: "\<not> bit (dq_Qclass (ptr_question name)) 15"
  by (simp add: ptr_question_def ClassINET_def bit_1_iff)

lemma PTR_not_instance: "dq_Qtype q = TypePTR \<Longrightarrow> instanceRecords sd q = []"
  by (simp add: instanceRecords_def dns_types)

text \<open>The answers of a server to one question without the unicast bit.\<close>

lemma server_recv_question:
  assumes lib: "lib_ok lib" and run: "\<not> ms_shutdown s"
    and m: "dl_Pack lib m = Some buf" "dm_Question m = [q]" "dm_Opcode m = 0" "dm_Rcode m = 0" and q: "\<not> bit (dq_Qclass q) 15"
  shows "server_recv lib s buf from =
    (let rs = zone_Records (ms_Zone s) q in
     if rs = [] then []
     else case server_sendResponse lib s (zero_msg\<lparr>dm_Response := True, dm_Authoritative := True, dm_Compress := True, dm_Question := [q], dm_Answer := rs\<rparr>) from
       of Inl _ \<Rightarrow> [] | Inr out \<Rightarrow> out)"
proof -
  let ?m = "m\<lparr>dm_Compress := False, dm_Truncated := False\<rparr>"
  have up: "parsePacket lib s buf from = handleQuery lib s ?m from" using lib_okD(5) [OF lib m(1)] by (simp add: parsePacket_def)
  have uni: "query_resp s ?m True = None" using m q by (simp add: query_resp_def handleQuestion_def Let_def)
  have mul: "query_resp s ?m False = (let rs = zone_Records (ms_Zone s) q in if rs = [] then None
      else Some (zero_msg\<lparr>dm_Response := True, dm_Authoritative := True, dm_Compress := True, dm_Question := [q], dm_Answer := rs\<rparr>))"
    using m q by (simp add: query_resp_def handleQuestion_def Let_def zero_msg_def OpcodeQuery_def)
  show ?thesis
    using run m unfolding server_recv_def up handleQuery_def uni mul
    by (auto simp: OpcodeQuery_def send_if_def sum_bind_def Let_def split: sum.splits)
qed

text \<open>A running server of the service asked for answers, to the asker first, with the whole entry.\<close>

lemma server_answers:
  assumes lib: "lib_ok lib" and run: "\<not> ms_shutdown s" "ms_Zone s = ZService sd"
    and m: "dl_Pack lib m = Some buf" "dm_Question m = [q]" "dm_Opcode m = 0" "dm_Rcode m = 0" and q: "q = ptr_question (mz_serviceAddr sd)"
    and enum: "mz_serviceAddr sd \<noteq> mz_enumAddr sd" and pack: "dl_Pack lib ((reply_msg q sd)\<lparr>dm_Compress := True\<rparr>) = Some rb"
  shows "\<exists>more. server_recv lib s buf from = (from, rb) # more \<and> set (map snd more) \<subseteq> {rb}"
    and "dl_Unpack lib rb = Some (reply_msg q sd)"
proof -
  have rs: "zone_Records (ms_Zone s) q = serviceRecords sd q"
    using enum by (simp add: run(2) mdns_Records_def q ptr_question_def)
  have ne: "serviceRecords sd q \<noteq> []" by (simp add: serviceRecords_def q ptr_question_def)
  have full: "zero_msg\<lparr>dm_Response := True, dm_Authoritative := True, dm_Compress := True, dm_Question := [q], dm_Answer := serviceRecords sd q\<rparr>
      = (reply_msg q sd)\<lparr>dm_Compress := True\<rparr>" by (simp add: reply_msg_def zero_msg_def)
  have recv: "server_recv lib s buf from = (case server_sendResponse lib s ((reply_msg q sd)\<lparr>dm_Compress := True\<rparr>) from of Inl _ \<Rightarrow> [] | Inr out \<Rightarrow> out)"
    using server_recv_question [OF lib run(1) m, of "from"] not_unicast [of "mz_serviceAddr sd"] ne
    unfolding rs Let_def full by (simp only: q simp_thms if_False)
  show "\<exists>more. server_recv lib s buf from = (from, rb) # more \<and> set (map snd more) \<subseteq> {rb}"
    using pack by (auto simp: recv server_sendResponse_def Let_def)
  show "dl_Unpack lib rb = Some (reply_msg q sd)"
    using lib_okD(5) [OF lib pack] by (simp add: reply_msg_def zero_msg_def)
qed

text \<open>Any other running server keeps quiet, and so does a server that was shut down.\<close>

lemma server_silent:
  assumes lib: "lib_ok lib" and m: "dl_Pack lib m = Some buf" "dm_Question m = [q]" "dm_Opcode m = 0" "dm_Rcode m = 0"
    and q: "q = ptr_question name" and other: "zone_Records (ms_Zone s) q = [] \<or> ms_shutdown s"
  shows "server_recv lib s buf from = []"
proof (cases "ms_shutdown s")
  case True
  then show ?thesis by (simp add: server_recv_def)
next
  case False
  with other show ?thesis using server_recv_question [OF lib False m, of "from"] not_unicast by (simp add: q)
qed

lemma other_service_silent:
  assumes "name \<noteq> mz_enumAddr sd" "name \<noteq> mz_serviceAddr sd"
  shows "mdns_Records sd (ptr_question name) = []"
  using assms by (simp add: mdns_Records_def PTR_not_instance ptr_question_def dns_types)

section \<open>Announcements and goodbyes\<close>

lemma unsolicited_answer:
  assumes "lib_ok lib" and "sd_ok sd" and "mz_instanceAddr sd \<noteq> mz_serviceAddr sd" and "mz_instanceAddr sd \<noteq> mz_enumAddr sd"
  shows "dm_Answer (unsolicited lib msg sd) @ dm_Extra (unsolicited lib msg sd) =
    srv_records sd (mz_instanceAddr sd) @ txt_records sd (mz_instanceAddr sd)"
  using assms
  by (auto simp: unsolicited_def lib_okD Let_def zero_msg_def sd_ok_def mdns_Records_def instanceRecords_def)

text \<open>An unsolicited response is a whole entry by itself: the listener hands it on at once, with the time to live it carries.\<close>

lemma listen_unsolicited:
  assumes lib: "lib_ok lib" and ok: "sd_ok sd" and own: "mz_instanceAddr sd \<noteq> mz_serviceAddr sd" "mz_instanceAddr sd \<noteq> mz_enumAddr sd"
  shows "listen_step lib (unsolicited lib msg sd) no_progress = (no_progress, Some (Handed ((entry_of TypeSRV sd)\<lparr>se_sent := True\<rparr>)))"
proof -
  let ?ia = "mz_instanceAddr sd"
  define p where "p = \<lparr>ip_names = [?ia \<mapsto> 0], ip_heap = [new_entry ?ia TypeSRV]\<rparr>"
  obtain tl where srv: "srv_records sd ?ia @ txt_records sd ?ia = RR_SRV (rr_hdr sd ?ia TypeSRV) 10 1 (word_of_int (mz_Port sd)) (mz_HostName sd) # tl"
    by (simp add: srv_records_def)
  have neq: "mz_HostName sd \<noteq> ?ia" using ok unfolding sd_ok_def by blast
  have first: "answer_step (no_progress, None) (RR_SRV (rr_hdr sd ?ia TypeSRV) 10 1 (word_of_int (mz_Port sd)) (mz_HostName sd))
      = answer_step (p, None) (RR_SRV (rr_hdr sd ?ia TypeSRV) 10 1 (word_of_int (mz_Port sd)) (mz_HostName sd))"
    using neq by (simp add: no_progress_def p_def mdns_alias_def ensureName_def)
  have "foldl answer_step (p, None) (srv_records sd ?ia @ txt_records sd ?ia) =
      (p\<lparr>ip_names := (ip_names p)(mz_HostName sd \<mapsto> 0), ip_heap := (ip_heap p)[0 := filled sd (ip_heap p ! 0)]\<rparr>, Some 0)"
    by (rule instance_fills [OF ok]) (simp_all add: p_def new_entry_def)
  then have "messageToEntry (unsolicited lib msg sd) no_progress =
      (p\<lparr>ip_names := (ip_names p)(mz_HostName sd \<mapsto> 0), ip_heap := (ip_heap p)[0 := filled sd (ip_heap p ! 0)]\<rparr>, Some 0)"
    unfolding messageToEntry_def unsolicited_answer [OF lib ok own] srv foldl_Cons first .
  with ok show ?thesis by (simp add: listen_step_def Let_def p_def flip: entry_of_def)
qed

end
