(* ===== verification/Mdns_Registry.thy ===== *)
theory Mdns_Registry
  imports Mdns Registry_Cache Rpc_Codec "HOL-Library.Multiset"
begin

text \<open>
  The default registry, \<open>registry/mdns_registry.go\<close>: every registered node is a multicast DNS server of its own, which carries what the
  registry knows of the node in its TXT record, and lookups ask the network.

  A lookup is a function of the packets that arrive before its deadline.  The entries a query hands out are read in the order in
  which they are sent; reading fewer of them is the case of fewer packets.  JSON and zlib are the argument \<open>txt_codec\<close>; hexadecimal text
  and the splitting into strings of at most 255 bytes are the code's own and are modelled.  A nil result of \<open>json.Unmarshal\<close> (the text \<open>null\<close>) is
  \<open>None\<close>, and reading a field of it is the error \<open>NilPointer\<close>.
\<close>

section \<open>TXT records\<close>

record mdns_txt =
  tx_Service :: string
  tx_Version :: string
  tx_Endpoints :: "endpoint list"
  tx_Metadata :: "(string, string) go_map option"

record txt_codec =
  tc_Marshal :: "mdns_txt \<Rightarrow> string + bytes"
  tc_Unmarshal :: "bytes \<Rightarrow> string + mdns_txt option"
  tc_Compress :: "bytes \<Rightarrow> bytes"
  tc_Decompress :: "bytes \<Rightarrow> string + bytes"

definition hex_digit :: "nat \<Rightarrow> char" where
  "hex_digit n = char_of (if n < 10 then 48 + n else 87 + n)"

definition hex_val :: "char \<Rightarrow> nat option" where
  "hex_val c = (let n = of_char c in
     if 48 \<le> n \<and> n \<le> 57 then Some (n - 48)
     else if 97 \<le> n \<and> n \<le> 102 then Some (n - 87)
     else if 65 \<le> n \<and> n \<le> 70 then Some (n - 55)
     else None)"

definition EncodeToString :: "bytes \<Rightarrow> string" where
  "EncodeToString bs = concat (map (\<lambda>b. [hex_digit (unat b div 16), hex_digit (unat b mod 16)]) bs)"

fun DecodeString :: "string \<Rightarrow> bytes option" where
  "DecodeString [] = Some []"
| "DecodeString [c] = None"
| "DecodeString (a # b # s) =
     (case (hex_val a, hex_val b) of
        (Some x, Some y) \<Rightarrow> map_option ((#) (of_nat (x * 16 + y))) (DecodeString s)
      | _ \<Rightarrow> None)"

function split_record :: "string \<Rightarrow> string list" where
  "split_record encoded = (if length encoded > 255 then take 255 encoded # split_record (drop 255 encoded) else [encoded])"
  by auto
termination by (relation "measure length") auto

declare split_record.simps [simp del]

definition mdns_encode :: "txt_codec \<Rightarrow> mdns_txt \<Rightarrow> mdns_err + string list" where
  "mdns_encode tc txt =
     (case tc_Marshal tc txt of
        Inl e \<Rightarrow> Inl (BadTxt e)
      | Inr b \<Rightarrow> (let encoded = EncodeToString (tc_Compress tc b)
                  in Inr (if length encoded \<le> 255 then [encoded] else split_record encoded)))"

definition mdns_decode :: "txt_codec \<Rightarrow> string list \<Rightarrow> mdns_err + mdns_txt option" where
  "mdns_decode tc record =
     (case DecodeString (go_join [] record) of
        None \<Rightarrow> Inl (BadTxt ''encoding/hex'')
      | Some hr \<Rightarrow>
          (case tc_Decompress tc hr of
             Inl e \<Rightarrow> Inl (BadTxt e)
           | Inr rbuf \<Rightarrow> (case tc_Unmarshal tc rbuf of Inl e \<Rightarrow> Inl (BadTxt e) | Inr txt \<Rightarrow> Inr txt)))"

section \<open>The registry\<close>

record mdns_entry =
  men_id :: string
  men_node :: mdns_server

record mdns_watcher =
  wt_Service :: string
  wt_ch :: "service_entry list"
  wt_exit :: bool
  wt_domain :: string

record mdns_registry =
  mr_domain :: string
  mr_services :: "(string, mdns_entry list) go_map"
  mr_watchers :: "(string, mdns_watcher) go_map"
  mr_listener :: bool

definition mdns_newRegistry :: "string option \<Rightarrow> mdns_registry" where
  "mdns_newRegistry d = \<lparr>mr_domain = (case d of None \<Rightarrow> ''micro'' | Some d \<Rightarrow> d), mr_services = [], mr_watchers = [], mr_listener = False\<rparr>"

definition wildcard_entry :: "mdns_env \<Rightarrow> string \<Rightarrow> string \<Rightarrow> mdns_err + mdns_entry" where
  "wildcard_entry env domain name =
     sum_bind (NewMDNSService env name ''_services'' (domain @ [dot]) [] 9999 [me_ParseIP env ''0.0.0.0''] []) (\<lambda>s.
     sum_bind (NewServer env (ZDnssd s) False) (\<lambda>srv. Inr \<lparr>men_id = ''*'', men_node = srv\<rparr>))"

definition node_txt :: "service \<Rightarrow> node \<Rightarrow> mdns_txt" where
  "node_txt service n = \<lparr>tx_Service = sv_Name service, tx_Version = sv_Version service, tx_Endpoints = sv_Endpoints service,
     tx_Metadata = nd_Metadata n\<rparr>"

text \<open>
  \<open>port, _ := strconv.Atoi(pt)\<close>: the number that \<open>Atoi\<close> returns, whether or not with an error: zero for text that is no number, the
  nearest 64-bit integer for a number out of range.
\<close>

definition Atoi_value :: "string \<Rightarrow> int" where
  "Atoi_value s =
     (let ds = (if s \<noteq> [] \<and> (hd s = CHR ''-'' \<or> hd s = CHR ''+'') then tl s else s);
          v = (if s \<noteq> [] \<and> hd s = CHR ''-'' then - int (dec_val ds) else int (dec_val ds))
      in if ds = [] \<or> \<not> list_all is_dec ds then 0 else max (- (2 ^ 63)) (min (2 ^ 63 - 1) v))"

definition node_entry :: "mdns_env \<Rightarrow> txt_codec \<Rightarrow> string \<Rightarrow> service \<Rightarrow> node \<Rightarrow> mdns_err + mdns_entry" where
  "node_entry env tc domain service n =
     sum_bind (mdns_encode tc (node_txt service n)) (\<lambda>txt.
     case SplitHostPort (nd_Address n) of
       Inl e \<Rightarrow> Inl (BadAddress e)
     | Inr (host, pt) \<Rightarrow>
         (let port = Atoi_value pt
          in sum_bind (NewMDNSService env (nd_Id n) (sv_Name service) (domain @ [dot]) [] port [me_ParseIP env host] txt) (\<lambda>s.
             sum_bind (NewServer env (ZService s) True) (\<lambda>srv. Inr \<lparr>men_id = nd_Id n, men_node = srv\<rparr>))))"

fun register_loop :: "(node \<Rightarrow> mdns_err + mdns_entry) \<Rightarrow> mdns_entry list \<Rightarrow> mdns_err option \<Rightarrow> node list \<Rightarrow> mdns_entry list \<times> mdns_err option" where
  "register_loop mk entries gerr [] = (entries, gerr)"
| "register_loop mk entries gerr (n # ns) =
     (if list_ex (\<lambda>e. nd_Id n = men_id e) entries then register_loop mk entries gerr ns
      else case mk n of
        Inl e \<Rightarrow> register_loop mk entries (Some e) ns
      | Inr e \<Rightarrow> register_loop mk (entries @ [e]) gerr ns)"

definition first_entries :: "mdns_env \<Rightarrow> mdns_registry \<Rightarrow> string \<Rightarrow> mdns_err + mdns_entry list" where
  "first_entries env m name =
     (case map_of (mr_services m) name of
        Some entries \<Rightarrow> Inr entries
      | None \<Rightarrow> sum_bind (wildcard_entry env (mr_domain m) name) (\<lambda>e. Inr [e]))"

definition mdns_Register :: "mdns_env \<Rightarrow> txt_codec \<Rightarrow> service \<Rightarrow> mdns_registry \<Rightarrow> mdns_registry \<times> mdns_err option" where
  "mdns_Register env tc service m =
     (case first_entries env m (sv_Name service) of
        Inl e \<Rightarrow> (m, Some e)
      | Inr entries \<Rightarrow>
          (let (entries, gerr) = register_loop (node_entry env tc (mr_domain m) service) entries None (sv_Nodes service)
           in (m\<lparr>mr_services := AList.update (sv_Name service) entries (mr_services m)\<rparr>, gerr)))"

text \<open>\<open>Deregister\<close>, with the goodbye messages of the servers it shuts down.\<close>

fun deregister_loop :: "'p dns_lib \<Rightarrow> node list \<Rightarrow> mdns_entry list \<Rightarrow> mdns_entry list \<times> dns_msg list" where
  "deregister_loop lib nodes [] = ([], [])"
| "deregister_loop lib nodes (e # es) =
     (let (kept, out) = deregister_loop lib nodes es
      in if list_ex (\<lambda>n. nd_Id n = men_id e) nodes then (kept, snd (Shutdown lib (men_node e)) @ out) else (e # kept, out))"

definition mdns_Deregister :: "'p dns_lib \<Rightarrow> service \<Rightarrow> mdns_registry \<Rightarrow> mdns_registry \<times> dns_msg list" where
  "mdns_Deregister lib service m =
     (let name = sv_Name service;
          (newEntries, out) = deregister_loop lib (sv_Nodes service) (case map_of (mr_services m) name of None \<Rightarrow> [] | Some es \<Rightarrow> es)
      in case newEntries of
           [e] \<Rightarrow> if men_id e = ''*''
                  then (m\<lparr>mr_services := AList.delete name (mr_services m)\<rparr>, out @ snd (Shutdown lib (men_node e)))
                  else (m\<lparr>mr_services := AList.update name newEntries (mr_services m)\<rparr>, out)
         | _ \<Rightarrow> (m\<lparr>mr_services := AList.update name newEntries (mr_services m)\<rparr>, out))"

section \<open>Lookups\<close>

text \<open>\<open>net.JoinHostPort\<close> and \<open>strings.TrimSuffix\<close> of the standard library.\<close>

definition JoinHostPort :: "string \<Rightarrow> string \<Rightarrow> string" where
  "JoinHostPort host port = (if colon \<in> set host then lbrack # host @ rbrack # colon # port else host @ colon # port)"

definition TrimSuffix :: "string \<Rightarrow> string \<Rightarrow> string" where
  "TrimSuffix s t = (if has_suffix s t then take (length s - length t) s else s)"

definition entry_address :: "mdns_env \<Rightarrow> service_entry \<Rightarrow> string option" where
  "entry_address env e =
     (let port = go_dec (nat (se_Port e))
      in if se_AddrV4 e \<noteq> [] then Some (JoinHostPort (me_ipString env (se_AddrV4 e)) port)
         else if se_AddrV6 e \<noteq> [] then Some (JoinHostPort (me_ipString env (se_AddrV6 e)) port)
         else None)"

definition txt_service :: "mdns_txt \<Rightarrow> service" where
  "txt_service txt = \<lparr>sv_Name = tx_Service txt, sv_Version = tx_Version txt, sv_Metadata = [], sv_Endpoints = tx_Endpoints txt, sv_Nodes = []\<rparr>"

definition txt_node :: "mdns_txt \<Rightarrow> string \<Rightarrow> string \<Rightarrow> node" where
  "txt_node txt i addr = \<lparr>nd_Metadata = tx_Metadata txt, nd_Id = i, nd_Address = addr, nd_Port = 0\<rparr>"

text \<open>One entry in the reader goroutine of \<open>GetService\<close>.\<close>

definition get_step ::
    "mdns_env \<Rightarrow> txt_codec \<Rightarrow> string \<Rightarrow> string \<Rightarrow> string \<Rightarrow> (string, service) go_map \<Rightarrow> service_entry \<Rightarrow> mdns_err + (string, service) go_map" where
  "get_step env tc domain service pdomain serviceMap e =
     (if service = ''_services'' \<or> pdomain \<noteq> domain \<or> se_TTL e = 0 then Inr serviceMap
      else case mdns_decode tc (se_InfoFields e) of
        Inl _ \<Rightarrow> Inr serviceMap
      | Inr None \<Rightarrow> Inl NilPointer
      | Inr (Some txt) \<Rightarrow>
          if tx_Service txt \<noteq> service then Inr serviceMap
          else (let s = (case map_of serviceMap (tx_Version txt) of Some s \<Rightarrow> s | None \<Rightarrow> txt_service txt)
                in case entry_address env e of
                     None \<Rightarrow> Inr serviceMap
                   | Some addr \<Rightarrow>
                       (let i = TrimSuffix (se_Name e) ([dot] @ service @ [dot] @ pdomain @ [dot])
                        in Inr (AList.update (tx_Version txt) (s\<lparr>sv_Nodes := sv_Nodes s @ [txt_node txt i addr]\<rparr>) serviceMap))))"

definition mdns_GetService ::
    "mdns_env \<Rightarrow> 'p dns_lib \<Rightarrow> txt_codec \<Rightarrow> mdns_registry \<Rightarrow> string \<Rightarrow> 'p list \<Rightarrow> mdns_err + service list" where
  "mdns_GetService env lib tc m service packets =
     sum_bind (Query env lib ((DefaultParams service)\<lparr>qp_Domain := mr_domain m\<rparr>) packets) (\<lambda>entries.
     let pdomain = (if mr_domain m = [] then ''local'' else mr_domain m)
     in sum_bind (sum_fold (get_step env tc (mr_domain m) service pdomain) [] entries) (\<lambda>serviceMap. Inr (map snd serviceMap)))"

definition list_step :: "string \<Rightarrow> string list \<Rightarrow> service_entry \<Rightarrow> string list" where
  "list_step pdomain names e =
     (if se_TTL e = 0 \<or> \<not> has_suffix (se_Name e) (pdomain @ [dot]) then names
      else let name = TrimSuffix (se_Name e) ([dot] @ ''_services'' @ [dot] @ pdomain @ [dot])
           in if name \<in> set names then names else names @ [name])"

definition mdns_ListServices :: "mdns_env \<Rightarrow> 'p dns_lib \<Rightarrow> mdns_registry \<Rightarrow> 'p list \<Rightarrow> mdns_err + string list" where
  "mdns_ListServices env lib m packets =
     sum_bind (Query env lib ((DefaultParams ''_services'')\<lparr>qp_Domain := mr_domain m\<rparr>) packets) (\<lambda>entries.
     let pdomain = (if mr_domain m = [] then ''local'' else mr_domain m)
     in Inr (foldl (list_step pdomain) [] entries))"

section \<open>Watchers\<close>

text \<open>\<open>Watch\<close>: the registry with the new watcher, and whether a listening goroutine is started.\<close>

definition mdns_Watch :: "string \<Rightarrow> string \<Rightarrow> mdns_registry \<Rightarrow> mdns_registry \<times> bool" where
  "mdns_Watch i service m =
     (m\<lparr>mr_watchers := AList.update i \<lparr>wt_Service = service, wt_ch = [], wt_exit = False, wt_domain = mr_domain m\<rparr> (mr_watchers m)\<rparr>,
      \<not> mr_listener m)"

text \<open>
  The goroutine a \<open>Watch\<close> starts: whether it goes on to listen, and what it does when \<open>Listen\<close> returns.
\<close>

definition listener_enter :: "mdns_registry \<Rightarrow> mdns_registry \<times> bool" where
  "listener_enter m =
     (if mr_watchers m = [] then (m\<lparr>mr_listener := False\<rparr>, False)
      else if mr_listener m then (m, False)
      else (m\<lparr>mr_listener := True\<rparr>, True))"

definition listener_leave :: "mdns_registry \<Rightarrow> mdns_registry" where
  "listener_leave m = m\<lparr>mr_listener := False\<rparr>"

definition watch_send :: "service_entry \<Rightarrow> mdns_watcher \<Rightarrow> mdns_watcher" where
  "watch_send e w = (if length (wt_ch w) < 32 then w\<lparr>wt_ch := wt_ch w @ [e]\<rparr> else w)"

definition watch_relay :: "mdns_registry \<Rightarrow> service_entry \<Rightarrow> mdns_registry" where
  "watch_relay m e = m\<lparr>mr_watchers := map (\<lambda>(i, w). (i, watch_send e w)) (mr_watchers m)\<rparr>"

definition watch_address :: "mdns_env \<Rightarrow> service_entry \<Rightarrow> string" where
  "watch_address env e = (case entry_address env e of Some a \<Rightarrow> a | None \<Rightarrow> me_ipString env (se_Addr e))"

text \<open>What \<open>Next\<close> makes of one entry: nothing (it goes on with the next one) or a result.\<close>

definition watch_result :: "mdns_env \<Rightarrow> txt_codec \<Rightarrow> mdns_watcher \<Rightarrow> service_entry \<Rightarrow> mdns_err + (string \<times> service) option" where
  "watch_result env tc w e =
     (case mdns_decode tc (se_InfoFields e) of
        Inl _ \<Rightarrow> Inr None
      | Inr None \<Rightarrow> Inl NilPointer
      | Inr (Some txt) \<Rightarrow>
          if tx_Service txt = [] \<or> tx_Version txt = [] then Inr None
          else if wt_Service w \<noteq> [] \<and> tx_Service txt \<noteq> wt_Service w then Inr None
          else (let action = (if se_TTL e = 0 then ''delete'' else ''create'');
                    suffix = [dot] @ tx_Service txt @ [dot] @ wt_domain w @ [dot]
                in if \<not> has_suffix (se_Name e) suffix then Inr None
                   else Inr (Some (action, (txt_service txt)\<lparr>sv_Nodes := [txt_node txt (TrimSuffix (se_Name e) suffix) (watch_address env e)]\<rparr>))))"

datatype next_out = NPanic | NResult string service | NStopped | NBlocked

text \<open>
  \<open>Next\<close>: when an entry is ready and the watcher is stopped as well, \<open>select\<close> takes either case; \<open>pick\<close> says which, for every number of
  entries left.
\<close>

fun mdns_Next :: "mdns_env \<Rightarrow> txt_codec \<Rightarrow> (nat \<Rightarrow> bool) \<Rightarrow> mdns_watcher \<Rightarrow> service_entry list \<Rightarrow> service_entry list \<times> next_out" where
  "mdns_Next env tc pick w [] = ([], if wt_exit w then NStopped else NBlocked)"
| "mdns_Next env tc pick w (e # es) =
     (if wt_exit w \<and> \<not> pick (length es) then (e # es, NStopped)
      else case watch_result env tc w e of
        Inl _ \<Rightarrow> (es, NPanic)
      | Inr (Some (action, s)) \<Rightarrow> (es, NResult action s)
      | Inr None \<Rightarrow> mdns_Next env tc pick w es)"

text \<open>\<open>Stop\<close> of the watcher \<open>w\<close> with the id \<open>i\<close>.\<close>

definition mdns_Stop :: "string \<Rightarrow> mdns_watcher \<Rightarrow> mdns_registry \<Rightarrow> mdns_watcher \<times> mdns_registry" where
  "mdns_Stop i w m =
     (if wt_exit w then (w, m) else (w\<lparr>wt_exit := True\<rparr>, m\<lparr>mr_watchers := AList.delete i (mr_watchers m)\<rparr>))"

section \<open>Encoding round trip\<close>

lemma hex_val_digit: "n < 16 \<Longrightarrow> hex_val (hex_digit n) = Some n"
  by (auto simp: hex_digit_def hex_val_def Let_def of_char_of take_bit_nat_def)

lemma DecodeString_EncodeToString: "DecodeString (EncodeToString bs) = Some bs"
proof (induction bs)
  case (Cons b bs)
  have "unat b < 256" using unsigned_less [of b] by simp
  then have "hex_val (hex_digit (unat b div 16)) = Some (unat b div 16)" "hex_val (hex_digit (unat b mod 16)) = Some (unat b mod 16)"
    by (auto intro!: hex_val_digit)
  moreover have "of_nat (unat b div 16 * 16 + unat b mod 16) = b" unfolding div_mult_mod_eq by simp
  ultimately show ?case using Cons by (simp add: EncodeToString_def)
qed (simp add: EncodeToString_def)

lemma go_join_Nil: "go_join [] xs = concat xs"
  by (induction "[] :: string" xs rule: go_join.induct) simp_all

lemma split_record_concat: "concat (split_record s) = s"
proof (induction s rule: split_record.induct)
  case (1 s)
  then show ?case by (cases "length s > 255") (simp_all add: split_record.simps [of s])
qed

lemma split_record_bound: "t \<in> set (split_record s) \<Longrightarrow> length t \<le> 255"
proof (induction s rule: split_record.induct)
  case (1 s)
  then show ?case by (cases "length s > 255") (auto simp: split_record.simps [of s])
qed

text \<open>What the codec has to do for one TXT value: JSON and zlib give back what they were given.\<close>

definition txt_ok :: "txt_codec \<Rightarrow> mdns_txt \<Rightarrow> bool" where
  "txt_ok tc txt \<longleftrightarrow> (case tc_Marshal tc txt of Inl _ \<Rightarrow> False
     | Inr b \<Rightarrow> tc_Decompress tc (tc_Compress tc b) = Inr b \<and> tc_Unmarshal tc b = Inr (Some txt))"

lemma encode_decode:
  assumes "txt_ok tc txt"
  shows "\<exists>rec. mdns_encode tc txt = Inr rec \<and> mdns_decode tc rec = Inr (Some txt) \<and> rec \<noteq> [] \<and> (\<forall>t\<in>set rec. length t \<le> 255)"
proof -
  obtain b where b: "tc_Marshal tc txt = Inr b" "tc_Decompress tc (tc_Compress tc b) = Inr b" "tc_Unmarshal tc b = Inr (Some txt)"
    using assms by (auto simp: txt_ok_def split: sum.splits)
  let ?e = "EncodeToString (tc_Compress tc b)"
  let ?rec = "if length ?e \<le> 255 then [?e] else split_record ?e"
  have "mdns_encode tc txt = Inr ?rec" by (simp add: mdns_encode_def b(1) Let_def)
  moreover have "concat ?rec = ?e" by (simp add: split_record_concat)
  then have "mdns_decode tc ?rec = Inr (Some txt)"
    unfolding mdns_decode_def go_join_Nil by (simp only: DecodeString_EncodeToString option.case b sum.case)
  moreover have "?rec \<noteq> []" by (subst split_record.simps) simp
  moreover have "\<forall>t\<in>set ?rec. length t \<le> 255" using split_record_bound by auto
  ultimately show ?thesis by blast
qed

section \<open>Well-formed registries\<close>

text \<open>A zone of the registry on the host \<open>h\<close>.\<close>

definition sd_form :: "string \<Rightarrow> string \<Rightarrow> string \<Rightarrow> string \<Rightarrow> mdns_service \<Rightarrow> bool" where
  "sd_form h domn inst name sd \<longleftrightarrow> mz_Instance sd = inst \<and> mz_Service sd = name \<and> mz_Domain sd = domn @ [dot] \<and>
     mz_serviceAddr sd = service_name name domn \<and> mz_instanceAddr sd = instance_name inst name domn \<and>
     mz_enumAddr sd = enum_prefix @ trimDot domn @ [dot] \<and> mz_HostName sd = h @ [dot] \<and> mz_TTL sd = defaultTTL \<and>
     length (mz_IPs sd) = 1 \<and> list_all (\<lambda>ip. To4 ip \<noteq> None \<or> To16 ip \<noteq> None) (mz_IPs sd)"

definition entry_ok :: "string \<Rightarrow> txt_codec \<Rightarrow> string \<Rightarrow> string \<Rightarrow> mdns_entry \<Rightarrow> bool" where
  "entry_ok h tc domn name e \<longleftrightarrow> \<not> ms_shutdown (men_node e) \<and>
     (case ms_Zone (men_node e) of
        ZDnssd sd \<Rightarrow> men_id e = ''*'' \<and> sd_form h domn name ''_services'' sd
      | ZService sd \<Rightarrow> sd_form h domn (men_id e) name sd \<and> (\<exists>txt. mdns_decode tc (mz_TXT sd) = Inr (Some txt) \<and> tx_Service txt = name))"

definition mdns_inv :: "string \<Rightarrow> txt_codec \<Rightarrow> mdns_registry \<Rightarrow> bool" where
  "mdns_inv h tc m \<longleftrightarrow> go_map (mr_services m) \<and>
     list_all (\<lambda>(name, es). distinct (map men_id es) \<and> list_all (entry_ok h tc (mr_domain m) name) es) (mr_services m)"

lemma names_dot [simp]:
  "service_name name (domn @ [dot]) = service_name name domn" "instance_name i name (domn @ [dot]) = instance_name i name domn"
  by (simp_all add: service_name_def instance_name_def)

lemma NewMDNSService_form:
  assumes "NewMDNSService env inst name (domn @ [dot]) [] port [ip] txt = Inr sd" and "me_Hostname env = Inr h"
  shows "sd_form h domn inst name sd" and "mz_TXT sd = txt" and "mz_Port sd = port" and "mz_IPs sd = [ip]"
proof -
  note f = NewMDNSService_Inr [OF assms(1)]
  show "sd_form h domn inst name sd" using f assms(2) by (auto simp: sd_form_def host_name_def)
  show "mz_TXT sd = txt" "mz_Port sd = port" "mz_IPs sd = [ip]" using f by simp_all
qed

lemma wildcard_ok:
  assumes "wildcard_entry env domn name = Inr e" and "me_Hostname env = Inr h"
  shows "entry_ok h tc domn name e" and "men_id e = ''*''" and "\<exists>sd. ms_Zone (men_node e) = ZDnssd sd"
  using assms NewMDNSService_form(1) [OF _ assms(2)]
  by (auto simp: wildcard_entry_def sum_bind_def NewServer_def entry_ok_def split: sum.splits option.splits)

lemma node_entry_Inr:
  assumes "node_entry env tc domn s n = Inr e"
  shows "\<exists>txt host pt sd. mdns_encode tc (node_txt s n) = Inr txt \<and> SplitHostPort (nd_Address n) = Inr (host, pt) \<and>
    NewMDNSService env (nd_Id n) (sv_Name s) (domn @ [dot]) [] (Atoi_value pt) [me_ParseIP env host] txt = Inr sd \<and>
    e = \<lparr>men_id = nd_Id n, men_node = \<lparr>ms_Zone = ZService sd, ms_LocalhostChecking = True, ms_shutdown = False, ms_outboundIP = me_outboundIP env\<rparr>\<rparr>"
  using assms by (auto simp: node_entry_def sum_bind_def NewServer_def Let_def split: sum.splits option.splits)

lemma node_entry_ok:
  assumes "node_entry env tc domn s n = Inr e" and "me_Hostname env = Inr h" and "txt_ok tc (node_txt s n)"
  shows "entry_ok h tc domn (sv_Name s) e" and "men_id e = nd_Id n"
proof -
  obtain tx host pt sd where e: "mdns_encode tc (node_txt s n) = Inr tx"
      "NewMDNSService env (nd_Id n) (sv_Name s) (domn @ [dot]) [] (Atoi_value pt) [me_ParseIP env host] tx = Inr sd"
      "e = \<lparr>men_id = nd_Id n, men_node = \<lparr>ms_Zone = ZService sd, ms_LocalhostChecking = True, ms_shutdown = False, ms_outboundIP = me_outboundIP env\<rparr>\<rparr>"
    using node_entry_Inr [OF assms(1)] by blast
  note f = NewMDNSService_form [OF e(2) assms(2)]
  have "mdns_decode tc (mz_TXT sd) = Inr (Some (node_txt s n))" using encode_decode [OF assms(3)] e(1) f(2) by auto
  then show "entry_ok h tc domn (sv_Name s) e" using f(1) by (simp add: entry_ok_def e(3)) (simp add: node_txt_def)
  show "men_id e = nd_Id n" by (simp add: e(3))
qed

text \<open>Every entry is well-formed and the ids stay distinct, whatever nodes are added or fail.\<close>

lemma register_loop_inv:
  assumes "list_all P es" "distinct (map men_id es)" "\<forall>n\<in>set ns. \<forall>e. mk n = Inr e \<longrightarrow> P e \<and> men_id e = nd_Id n"
  shows "list_all P (fst (register_loop mk es gerr ns)) \<and> distinct (map men_id (fst (register_loop mk es gerr ns)))"
  using assms
proof (induction mk es gerr ns rule: register_loop.induct)
  case (2 mk es gerr n ns)
  show ?case
  proof (cases "list_ex (\<lambda>e. nd_Id n = men_id e) es")
    case True
    with 2 show ?thesis by simp
  next
    case False
    then have new: "nd_Id n \<notin> men_id ` set es" by (auto simp: list_ex_iff)
    show ?thesis
    proof (cases "mk n")
      case (Inl e)
      with 2 False show ?thesis by simp
    next
      case (Inr e)
      with 2(6) have "P e" "men_id e = nd_Id n" by simp_all
      with 2 False Inr new show ?thesis by simp
    qed
  qed
qed simp

lemma mdns_inv_entries:
  assumes "mdns_inv h tc m" and "map_of (mr_services m) name = Some es"
  shows "distinct (map men_id es)" and "list_all (entry_ok h tc (mr_domain m) name) es"
  using list_all_map_of [OF _ assms(2), of "\<lambda>(name, es). distinct (map men_id es) \<and> list_all (entry_ok h tc (mr_domain m) name) es"] assms(1)
  by (simp_all add: mdns_inv_def)

lemma mdns_inv_update:
  assumes "mdns_inv h tc m" and "distinct (map men_id es)" and "list_all (entry_ok h tc (mr_domain m) name) es"
  shows "mdns_inv h tc (m\<lparr>mr_services := AList.update name es (mr_services m)\<rparr>)"
  using assms by (auto simp: mdns_inv_def intro!: go_map_intros)

lemma mdns_Register_inv:
  assumes inv: "mdns_inv h tc m" and h: "me_Hostname env = Inr h" and texts: "\<forall>n\<in>set (sv_Nodes s). txt_ok tc (node_txt s n)"
  shows "mdns_inv h tc (fst (mdns_Register env tc s m))"
proof (cases "first_entries env m (sv_Name s)")
  case (Inl e)
  with inv show ?thesis by (simp add: mdns_Register_def)
next
  case (Inr es)
  have start: "distinct (map men_id es)" "list_all (entry_ok h tc (mr_domain m) (sv_Name s)) es"
    using Inr mdns_inv_entries [OF inv, of "sv_Name s"] wildcard_ok(1) [OF _ h]
    by (auto simp: first_entries_def sum_bind_def split: option.splits sum.splits)
  let ?loop = "register_loop (node_entry env tc (mr_domain m) s) es None (sv_Nodes s)"
  have "list_all (entry_ok h tc (mr_domain m) (sv_Name s)) (fst ?loop) \<and> distinct (map men_id (fst ?loop))"
    by (rule register_loop_inv [OF start(2,1)]) (use node_entry_ok [OF _ h] texts in blast)
  then show ?thesis using mdns_inv_update [OF inv] Inr by (cases ?loop) (simp add: mdns_Register_def Let_def)
qed

lemma deregister_loop_kept: "fst (deregister_loop lib ns es) = filter (\<lambda>e. men_id e \<notin> nd_Id ` set ns) es"
proof (induction es)
  case (Cons e es)
  have "list_ex (\<lambda>n. nd_Id n = men_id e) ns \<longleftrightarrow> men_id e \<in> nd_Id ` set ns" unfolding list_ex_iff image_iff by metis
  with Cons show ?case by (simp add: Let_def case_prod_beta)
qed simp

lemma mdns_Deregister_inv:
  assumes inv: "mdns_inv h tc m"
  shows "mdns_inv h tc (fst (mdns_Deregister lib s m))"
proof -
  let ?es = "case map_of (mr_services m) (sv_Name s) of None \<Rightarrow> [] | Some es \<Rightarrow> es"
  obtain kept out where loop: "deregister_loop lib (sv_Nodes s) ?es = (kept, out)" by force
  then have kept: "kept = filter (\<lambda>e. men_id e \<notin> nd_Id ` set (sv_Nodes s)) ?es" by (metis deregister_loop_kept fst_conv)
  have "distinct (map men_id ?es)" "list_all (entry_ok h tc (mr_domain m) (sv_Name s)) ?es"
    using mdns_inv_entries [OF inv, of "sv_Name s"] by (auto split: option.splits)
  then have k: "distinct (map men_id kept)" "list_all (entry_ok h tc (mr_domain m) (sv_Name s)) kept"
    by (auto simp: kept distinct_map_filter list_all_iff)
  have up: "mdns_inv h tc (m\<lparr>mr_services := AList.update (sv_Name s) kept (mr_services m)\<rparr>)" by (rule mdns_inv_update [OF inv k])
  moreover have "mdns_inv h tc (m\<lparr>mr_services := AList.delete (sv_Name s) (mr_services m)\<rparr>)"
    using inv by (auto simp: mdns_inv_def intro!: go_map_intros)
  ultimately show ?thesis by (auto simp: mdns_Deregister_def loop Let_def split: list.splits)
qed

section \<open>What the network answers\<close>

fun zone_sd :: "zone \<Rightarrow> mdns_service option" where
  "zone_sd (ZService sd) = Some sd"
| "zone_sd (ZDnssd sd) = None"

definition reg_entries :: "mdns_registry \<Rightarrow> string \<Rightarrow> mdns_entry list" where
  "reg_entries m name = (case map_of (mr_services m) name of None \<Rightarrow> [] | Some es \<Rightarrow> es)"

text \<open>The node servers of a service in a registry, and in the registries of a network.\<close>

definition reg_sds :: "mdns_registry \<Rightarrow> string \<Rightarrow> mdns_service list" where
  "reg_sds m name = List.map_filter (\<lambda>e. zone_sd (ms_Zone (men_node e))) (reg_entries m name)"

definition net_sds :: "mdns_registry list \<Rightarrow> string \<Rightarrow> mdns_service list" where
  "net_sds net name = concat (map (\<lambda>m. reg_sds m name) net)"

definition net_servers :: "mdns_registry list \<Rightarrow> mdns_server list" where
  "net_servers net = concat (map (\<lambda>m. concat (map (\<lambda>(name, es). map men_node es) (mr_services m))) net)"

definition net_answers :: "'p dns_lib \<Rightarrow> mdns_registry list \<Rightarrow> 'p \<Rightarrow> udp_addr \<Rightarrow> 'p list" where
  "net_answers lib net buf from = concat (map (\<lambda>s. map snd (server_recv lib s buf from)) (net_servers net))"

text \<open>
  Registries of one domain on their hosts.  Names neither begin nor end in a dot, and no host name lies in the domain.
\<close>

definition net_wf :: "txt_codec \<Rightarrow> string \<Rightarrow> mdns_registry list \<Rightarrow> bool" where
  "net_wf tc domn net \<longleftrightarrow> domn \<noteq> [] \<and> trimDot domn = domn \<and>
     (\<forall>m\<in>set net. mr_domain m = domn \<and> (\<forall>name\<in>fst ` set (mr_services m). trimDot name = name) \<and>
        (\<exists>h. mdns_inv h tc m \<and> \<not> has_suffix h (dot # domn)))"

definition mdns_name :: "string \<Rightarrow> bool" where
  "mdns_name name \<longleftrightarrow> trimDot name = name \<and> name \<noteq> ''_services'' \<and> name \<noteq> ''_services._dns-sd._udp''"

lemma trimDot_last: "trimDot s = s \<Longrightarrow> s \<noteq> [] \<Longrightarrow> last s \<noteq> dot"
proof
  assume s: "trimDot s = s" "s \<noteq> []" "last s = dot"
  then obtain t where t: "s = t @ [dot]" by (metis append_butlast_last_id)
  have "trimDot t = t @ [dot]" using s(1) unfolding t by simp
  then show False using length_trimDot [of t] by simp
qed

lemma service_name_inj:
  assumes "trimDot a = a" "trimDot b = b" "service_name a domn = service_name b domn"
  shows "a = b"
  using assms by (simp add: service_name_def)

lemma service_name_enum:
  assumes "mdns_name name" "trimDot domn = domn" "domn \<noteq> []"
  shows "service_name name domn \<noteq> enum_prefix @ domn @ [dot]"
    and "service_name name domn \<noteq> enum_prefix @ (domn @ [dot]) @ [dot]"
    and "service_name name domn \<noteq> service_name ''_services'' domn"
proof -
  have pre: "enum_prefix = ''_services._dns-sd._udp'' @ [dot]" by (simp add: enum_prefix_def dot_def)
  show "service_name name domn \<noteq> enum_prefix @ domn @ [dot]"
    using assms by (simp add: service_name_def mdns_name_def pre)
  show "service_name name domn \<noteq> enum_prefix @ (domn @ [dot]) @ [dot]"
  proof
    assume "service_name name domn = enum_prefix @ (domn @ [dot]) @ [dot]"
    then have "(trimDot name @ [dot]) @ domn = (enum_prefix @ domn) @ [dot]" by (simp add: service_name_def assms(2))
    then have "last domn = dot" using assms(3) by (metis last_appendR last_snoc)
    with trimDot_last assms(2,3) show False by blast
  qed
  have "trimDot ''_services'' = ''_services''" by (simp add: trimDot_def dot_def)
  then show "service_name name domn \<noteq> service_name ''_services'' domn"
    using assms by (simp add: service_name_def mdns_name_def)
qed

lemma net_wf_entry:
  assumes "net_wf tc domn net" and "m \<in> set net" and "(name, es) \<in> set (mr_services m)" and "e \<in> set es"
  shows "trimDot name = name" and "\<exists>h. entry_ok h tc domn name e \<and> \<not> has_suffix h (dot # domn)" and "reg_entries m name = es"
proof -
  obtain h where h: "mdns_inv h tc m" "\<not> has_suffix h (dot # domn)" and d: "mr_domain m = domn"
    using assms(1,2) by (auto simp: net_wf_def)
  have at: "map_of (mr_services m) name = Some es" using h(1) assms(3) by (simp add: mdns_inv_def go_map_lookup)
  show "trimDot name = name" using assms(1-3) by (force simp: net_wf_def)
  show "\<exists>h. entry_ok h tc domn name e \<and> \<not> has_suffix h (dot # domn)"
    using mdns_inv_entries(2) [OF h(1) at] assms(4) h(2) d by (auto simp: list_all_iff)
  show "reg_entries m name = es" by (simp add: reg_entries_def at)
qed

text \<open>The zones of the node servers of a service, and that they are all of them.\<close>

lemma net_sds_form:
  assumes wf: "net_wf tc domn net" and sd: "sd \<in> set (net_sds net name)"
  shows "\<exists>m es e h. m \<in> set net \<and> (name, es) \<in> set (mr_services m) \<and> e \<in> set es \<and> ms_Zone (men_node e) = ZService sd \<and>
    \<not> ms_shutdown (men_node e) \<and> men_node e \<in> set (net_servers net) \<and> sd_form h domn (men_id e) name sd \<and> \<not> has_suffix h (dot # domn) \<and>
    (\<exists>txt. mdns_decode tc (mz_TXT sd) = Inr (Some txt) \<and> tx_Service txt = name)"
proof -
  obtain m e where m: "m \<in> set net" and e: "e \<in> set (reg_entries m name)" "zone_sd (ms_Zone (men_node e)) = Some sd"
    using sd by (auto simp: net_sds_def reg_sds_def map_filter_def)
  then obtain es where es: "(name, es) \<in> set (mr_services m)" "e \<in> set es"
    by (cases "map_of (mr_services m) name") (auto simp: reg_entries_def dest: map_of_SomeD)
  have z: "ms_Zone (men_node e) = ZService sd" using e(2) by (cases "ms_Zone (men_node e)") auto
  have "men_node e \<in> set (net_servers net)" using m es by (force simp: net_servers_def)
  with net_wf_entry(2) [OF wf m es] z m es show ?thesis by (fastforce simp: entry_ok_def)
qed

lemma net_servers_cases:
  assumes wf: "net_wf tc domn net" and plain: "mdns_name name" and s: "s \<in> set (net_servers net)"
  shows "(\<exists>sd \<in> set (net_sds net name). ms_Zone s = ZService sd \<and> \<not> ms_shutdown s)
    \<or> zone_Records (ms_Zone s) (ptr_question (service_name name domn)) = []"
proof -
  have d: "trimDot domn = domn" "domn \<noteq> []" using wf by (simp_all add: net_wf_def)
  note enum = service_name_enum [OF plain d]
  obtain m n es e where m: "m \<in> set net" "(n, es) \<in> set (mr_services m)" "e \<in> set es" "s = men_node e"
    using s by (auto simp: net_servers_def)
  obtain h where h: "entry_ok h tc domn n e" using net_wf_entry(2) [OF wf m(1-3)] by blast
  have n: "trimDot n = n" "reg_entries m n = es" using net_wf_entry(1,3) [OF wf m(1-3)] by simp_all
  show ?thesis
  proof (cases "ms_Zone s")
    case (ZService sd)
    then have form: "sd_form h domn (men_id e) n sd" "\<not> ms_shutdown s" using h m(4) by (simp_all add: entry_ok_def)
    show ?thesis
    proof (cases "n = name")
      case True
      then have "sd \<in> set (reg_sds m name)" using m n ZService by (force simp: reg_sds_def map_filter_def)
      then show ?thesis using m(1) form ZService by (auto simp: net_sds_def)
    next
      case False
      then have "service_name name domn \<noteq> mz_serviceAddr sd" "service_name name domn \<noteq> mz_enumAddr sd"
        using form(1) enum(1) service_name_inj n(1) plain d by (auto simp: sd_form_def mdns_name_def)
      then show ?thesis using other_service_silent [of "service_name name domn" sd] by (simp add: ZService)
    qed
  next
    case (ZDnssd sd)
    then have form: "sd_form h domn n ''_services'' sd" using h m(4) by (simp add: entry_ok_def)
    then have "service_name name domn \<noteq> mz_serviceAddr sd" "service_name name domn \<noteq> mz_enumAddr sd"
        "service_name name domn \<noteq> enum_prefix @ mz_Domain sd @ [dot]"
      using enum d by (simp_all add: sd_form_def)
    moreover have "dq_Name (ptr_question x) = x" for x by (simp add: ptr_question_def)
    ultimately show ?thesis
      using other_service_silent [of "service_name name domn" sd] by (simp add: ZDnssd dnssd_Records_def)
  qed
qed

text \<open>The packets that answer a query for a service are the replies of its node servers.\<close>

lemma net_answers_set:
  assumes lib: "lib_ok lib" and wf: "net_wf tc domn net" and plain: "mdns_name name"
    and buf: "dl_Pack lib (query_msg lib name domn 0 False) = Some buf"
    and pack: "\<forall>sd\<in>set (net_sds net name). dl_Pack lib ((reply_msg (ptr_question (service_name name domn)) sd)\<lparr>dm_Compress := True\<rparr>) \<noteq> None"
  shows "Some ` set (net_answers lib net buf from) =
    (\<lambda>sd. dl_Pack lib ((reply_msg (ptr_question (service_name name domn)) sd)\<lparr>dm_Compress := True\<rparr>)) ` set (net_sds net name)"
proof -
  let ?q = "ptr_question (service_name name domn)"
  let ?reply = "\<lambda>sd. dl_Pack lib ((reply_msg ?q sd)\<lparr>dm_Compress := True\<rparr>)"
  note m = buf query_msg_question [OF lib]
  have d: "trimDot domn = domn" "domn \<noteq> []" using wf by (simp_all add: net_wf_def)
  have answer: "Some ` snd ` set (server_recv lib s buf from) = {?reply sd}"
    if sd: "sd \<in> set (net_sds net name)" and s: "ms_Zone s = ZService sd" "\<not> ms_shutdown s" for s sd
  proof -
    obtain rb where rb: "?reply sd = Some rb" using pack sd by auto
    obtain h i where form: "sd_form h domn i name sd" using net_sds_form [OF wf sd] by blast
    then have addr: "mz_serviceAddr sd = service_name name domn" "mz_serviceAddr sd \<noteq> mz_enumAddr sd"
      using service_name_enum(1) [OF plain d] d by (auto simp: sd_form_def)
    obtain more where "server_recv lib s buf from = (from, rb) # more" "set (map snd more) \<subseteq> {rb}"
      using server_answers(1) [OF lib s(2,1) m, of rb "from"] addr rb by auto
    then show ?thesis using rb by auto
  qed
  have silent: "server_recv lib s buf from = []" if "zone_Records (ms_Zone s) ?q = []" for s
    by (rule server_silent [OF lib m refl]) (use that in simp)
  show ?thesis
  proof (intro equalityI subsetI)
    fix x assume "x \<in> Some ` set (net_answers lib net buf from)"
    then obtain s where s: "s \<in> set (net_servers net)" "x \<in> Some ` snd ` set (server_recv lib s buf from)"
      by (auto simp: net_answers_def)
    with net_servers_cases [OF wf plain s(1)] answer silent show "x \<in> ?reply ` set (net_sds net name)"
      by (metis image_empty empty_set empty_iff image_eqI singletonD)
  next
    fix x assume "x \<in> ?reply ` set (net_sds net name)"
    then obtain sd where sd: "sd \<in> set (net_sds net name)" "x = ?reply sd" by auto
    then obtain s where s: "s \<in> set (net_servers net)" "ms_Zone s = ZService sd" "\<not> ms_shutdown s"
      using net_sds_form [OF wf sd(1)] by blast
    have "x \<in> Some ` snd ` set (server_recv lib s buf from)" using answer [OF sd(1) s(2,3)] sd(2) by simp
    then show "x \<in> Some ` set (net_answers lib net buf from)" using s(1) by (auto simp: net_answers_def)
  qed
qed

lemma reply_msg_inj: "reply_msg (ptr_question n) sd = reply_msg (ptr_question n) sd' \<Longrightarrow> mz_instanceAddr sd = mz_instanceAddr sd'"
  by (simp add: reply_msg_def zero_msg_def serviceRecords_def ptr_question_def)

lemma net_sds_ok:
  assumes wf: "net_wf tc domn net" and ids: "distinct (map mz_Instance (net_sds net name))"
    and ports: "\<forall>sd\<in>set (net_sds net name). (word_of_int (mz_Port sd) :: 16 word) \<noteq> 0"
  shows "sds_ok (set (net_sds net name))"
proof -
  have d: "trimDot domn = domn" "domn \<noteq> []" using wf by (simp_all add: net_wf_def)
  have form: "\<exists>h. sd_form h domn (mz_Instance sd) name sd \<and> \<not> has_suffix h (dot # domn)" if "sd \<in> set (net_sds net name)" for sd
    using net_sds_form [OF wf that] by (auto simp: sd_form_def)
  have addr: "mz_instanceAddr sd = instance_name (mz_Instance sd) name domn" if "sd \<in> set (net_sds net name)" for sd
    using form [OF that] by (auto simp: sd_form_def)
  have host: "mz_HostName sd \<noteq> instance_name i name domn" if sd: "sd \<in> set (net_sds net name)" for sd i
  proof
    obtain h where h: "mz_HostName sd = h @ [dot]" "\<not> has_suffix h (dot # domn)" using form [OF sd] by (auto simp: sd_form_def)
    assume "mz_HostName sd = instance_name i name domn"
    then have "h = (i @ [dot] @ trimDot name) @ dot # domn" using h(1) d by (simp add: instance_name_def)
    with h(2) show False unfolding has_suffix_iff by blast
  qed
  have "sd_ok sd" if "sd \<in> set (net_sds net name)" for sd
    using form [OF that] ports host [OF that] that by (auto simp: sd_ok_def sd_form_def)
  moreover have "inj_on mz_instanceAddr (set (net_sds net name))"
    using ids addr by (auto simp: inj_on_def instance_name_def distinct_map)
  ultimately show ?thesis using host addr by (auto simp: sds_ok_def)
qed

text \<open>Whatever the order and the repetitions in which the answers arrive, the query hands out every node once.\<close>

lemma query_hands_out:
  assumes lib: "lib_ok lib" and wf: "net_wf tc domn net" and plain: "mdns_name name"
    and ids: "distinct (map mz_Instance (net_sds net name))"
    and ports: "\<forall>sd\<in>set (net_sds net name). (word_of_int (mz_Port sd) :: 16 word) \<noteq> 0"
    and buf: "dl_Pack lib (query_msg lib name domn 0 False) = Some buf" and sock: "me_Listen env = None"
    and pack: "\<forall>sd\<in>set (net_sds net name). dl_Pack lib ((reply_msg (ptr_question (service_name name domn)) sd)\<lparr>dm_Compress := True\<rparr>) \<noteq> None"
    and del: "set packets = set (net_answers lib net buf from)"
  shows "\<exists>xs. mset xs = mset (net_sds net name) \<and>
    Query env lib ((DefaultParams name)\<lparr>qp_Domain := domn\<rparr>) packets = Inr (map sent_entry xs)"
proof -
  let ?q = "ptr_question (service_name name domn)" and ?M = "set (net_sds net name)"
  let ?reply = "\<lambda>sd. dl_Pack lib ((reply_msg ?q sd)\<lparr>dm_Compress := True\<rparr>)"
  have ok: "sds_ok ?M" by (rule net_sds_ok [OF wf ids ports])
  have sets: "Some ` set packets = ?reply ` ?M" unfolding del by (rule net_answers_set [OF lib wf plain buf pack])
  have unpack: "dl_Unpack lib rb = Some (reply_msg ?q sd)" if "?reply sd = Some rb" for sd rb
    using lib_okD(5) [OF lib that] by (simp add: reply_msg_def zero_msg_def)
  have "\<exists>sd. sd \<in> ?M \<and> ?reply sd = Some rb" if "rb \<in> set packets" for rb
  proof -
    have "Some rb \<in> ?reply ` ?M" unfolding sets [symmetric] using that by (rule imageI)
    then obtain sd where "Some rb = ?reply sd" "sd \<in> ?M" by (rule imageE)
    then show ?thesis by (intro exI [of _ sd] conjI) simp_all
  qed
  then obtain f where f: "\<And>rb. rb \<in> set packets \<Longrightarrow> f rb \<in> ?M \<and> ?reply (f rb) = Some rb" by metis
  define xs where "xs = map f packets"
  have up: "dl_Unpack lib rb = Some (reply_msg ?q (f rb))" if "rb \<in> set packets" for rb using f [OF that] unpack by blast
  have recv: "client_recv lib packets = map (reply_msg ?q) xs"
  proof -
    have "List.map_filter (dl_Unpack lib) ps = map (\<lambda>rb. reply_msg ?q (f rb)) ps" if "set ps \<subseteq> set packets" for ps
      using that up by (induction ps) (auto simp: map_filter_simps)
    then show ?thesis by (simp add: client_recv_def xs_def)
  qed
  have "set xs = ?M"
  proof (intro equalityI subsetI)
    fix sd assume sd: "sd \<in> ?M"
    then have "?reply sd \<in> Some ` set packets" unfolding sets by (rule imageI)
    then obtain rb where rb: "?reply sd = Some rb" "rb \<in> set packets" by (rule imageE)
    then have "reply_msg ?q (f rb) = reply_msg ?q sd" using f unpack by (metis option.inject)
    then have "f rb = sd" using reply_msg_inj ok f [OF rb(2)] sd by (metis sds_ok_def inj_on_def)
    then show "sd \<in> set xs" using rb(2) by (auto simp: xs_def)
  qed (use f in \<open>auto simp: xs_def\<close>)
  then have "set (first_occ {} xs) = ?M" "distinct (first_occ {} xs)" by (simp_all add: set_first_occ distinct_first_occ)
  then have "mset (first_occ {} xs) = mset (net_sds net name)"
    using ids by (metis distinct_map set_eq_iff_mset_eq_distinct)
  moreover have "Query env lib ((DefaultParams name)\<lparr>qp_Domain := domn\<rparr>) packets = Inr (map sent_entry (first_occ {} xs))"
    using query_loop_replies [OF ok _ eq_refl [OF \<open>set xs = ?M\<close>] progress_ok_start, of ?q lib] wf
    by (simp add: Query_def sock DefaultParams_def net_wf_def buf query_msg_question [OF lib] recv ptr_question_def)
  ultimately show ?thesis by blast
qed

section \<open>What a lookup returns\<close>

text \<open>What a node server offers: its TXT value and the node a client makes of it.\<close>

definition sd_txt :: "txt_codec \<Rightarrow> mdns_service \<Rightarrow> mdns_txt" where
  "sd_txt tc sd = (case mdns_decode tc (mz_TXT sd) of Inr (Some txt) \<Rightarrow> txt | _ \<Rightarrow> \<lparr>tx_Service = [], tx_Version = [], tx_Endpoints = [], tx_Metadata = None\<rparr>)"

definition sd_node :: "mdns_env \<Rightarrow> txt_codec \<Rightarrow> mdns_service \<Rightarrow> node" where
  "sd_node env tc sd = txt_node (sd_txt tc sd) (mz_Instance sd)
     (JoinHostPort (me_ipString env (sd_addr sd)) (go_dec (unat (word_of_int (mz_Port sd) :: 16 word))))"

definition sd_version :: "txt_codec \<Rightarrow> mdns_service \<Rightarrow> string" where
  "sd_version tc sd = tx_Version (sd_txt tc sd)"

definition all_nodes :: "service list \<Rightarrow> (string \<times> node) list" where
  "all_nodes ss = concat (map (\<lambda>s. map (Pair (sv_Version s)) (sv_Nodes s)) ss)"

lemma all_nodes_Nil: "all_nodes [] = []"
  by (simp add: all_nodes_def)

lemma TrimSuffix_append [simp]: "TrimSuffix (s @ t) t = s"
  by (simp add: TrimSuffix_def has_suffix_iff)

lemma entry_of_address:
  "sd_ok sd \<Longrightarrow> entry_address env ((entry_of ty sd)\<lparr>se_sent := b\<rparr>) =
     Some (JoinHostPort (me_ipString env (sd_addr sd)) (go_dec (unat (word_of_int (mz_Port sd) :: 16 word))))"
  using sd_addr_records(1) [of sd]
  by (cases "length (sd_addr sd) = 4") (simp_all add: entry_address_def entry_of_def filled_def new_entry_def Let_def)

lemmas sent_entry_address = entry_of_address [where ty = TypePTR and b = True, folded sent_entry_def]

definition add_node :: "txt_codec \<Rightarrow> mdns_env \<Rightarrow> (string, service) go_map \<Rightarrow> mdns_service \<Rightarrow> (string, service) go_map" where
  "add_node tc env acc sd =
     (let s = (case map_of acc (sd_version tc sd) of Some s \<Rightarrow> s | None \<Rightarrow> txt_service (sd_txt tc sd))
      in AList.update (sd_version tc sd) (s\<lparr>sv_Nodes := sv_Nodes s @ [sd_node env tc sd]\<rparr>) acc)"

lemma get_step_node:
  assumes "sd_ok sd" and "sd_form h domn i name sd" and "mdns_decode tc (mz_TXT sd) = Inr (Some tx)" "tx_Service tx = name"
    and "mdns_name name" and "trimDot domn = domn"
  shows "get_step env tc domn name domn acc (sent_entry sd) = Inr (add_node tc env acc sd)"
proof -
  have sel: "se_TTL (sent_entry sd) = 120" "se_InfoFields (sent_entry sd) = mz_TXT sd" "se_Name (sent_entry sd) = mz_instanceAddr sd"
    using assms(2) by (simp_all add: sent_entry_def entry_of_def filled_def new_entry_def sd_form_def defaultTTL_def)
  have nm: "mz_instanceAddr sd = mz_Instance sd @ ([dot] @ name @ [dot] @ domn @ [dot])"
    using assms(2,5,6) by (simp add: sd_form_def instance_name_def mdns_name_def)
  have tx: "sd_txt tc sd = tx" by (simp add: sd_txt_def assms(3))
  have "name \<noteq> ''_services''" using assms(5) by (simp add: mdns_name_def)
  then show ?thesis
    using assms(3,4) TrimSuffix_append [of "mz_Instance sd" "[dot] @ name @ [dot] @ domn @ [dot]"]
    unfolding get_step_def sel sent_entry_address [OF assms(1)] nm add_node_def sd_version_def tx sd_node_def
    by (simp only: sum.case option.case simp_thms if_False Let_def) simp
qed

text \<open>The map under construction: one service per version, with the name and the endpoints of a node of that version.\<close>

definition acc_ok :: "txt_codec \<Rightarrow> string \<Rightarrow> mdns_service set \<Rightarrow> (string, service) go_map \<Rightarrow> bool" where
  "acc_ok tc name M acc \<longleftrightarrow> go_map acc \<and> list_all (\<lambda>(v, s). sv_Version s = v \<and> sv_Name s = name \<and> sv_Metadata s = [] \<and>
     (\<exists>sd\<in>M. sd_version tc sd = v \<and> tx_Endpoints (sd_txt tc sd) = sv_Endpoints s)) acc"

lemma acc_ok_versions:
  assumes "acc_ok tc name M acc"
  shows "distinct (map sv_Version (map snd acc))" and "\<forall>s\<in>set (map snd acc). sv_Name s = name"
proof -
  have v: "map sv_Version (map snd acc) = map fst acc" using assms by (auto simp: acc_ok_def list_all_iff)
  show "distinct (map sv_Version (map snd acc))" unfolding v using assms by (simp add: acc_ok_def go_map_def)
  show "\<forall>s\<in>set (map snd acc). sv_Name s = name" using assms by (auto simp: acc_ok_def list_all_iff)
qed

text \<open>When all the nodes are of one version, one service is returned.\<close>

lemma acc_ok_single:
  assumes ok: "acc_ok tc name M acc" and one: "\<forall>sd\<in>M. sd_version tc sd = v \<and> tx_Endpoints (sd_txt tc sd) = eps" and some: "all_nodes (map snd acc) \<noteq> []"
  shows "\<exists>s. acc = [(v, s)] \<and> s = \<lparr>sv_Name = name, sv_Version = v, sv_Metadata = [], sv_Endpoints = eps, sv_Nodes = sv_Nodes s\<rparr>"
proof -
  obtain p rest where acc: "acc = p # rest" using some by (cases acc) (auto simp: all_nodes_def)
  have all: "fst x = v \<and> sv_Version (snd x) = v \<and> sv_Name (snd x) = name \<and> sv_Metadata (snd x) = [] \<and> sv_Endpoints (snd x) = eps"
    if "x \<in> set acc" for x
    using ok one that by (cases x) (fastforce simp: acc_ok_def list_all_iff)
  have "rest = []" using ok all by (cases rest) (auto simp: acc_ok_def go_map_def acc)
  then show ?thesis using all [of p] by (cases p) (auto simp: acc)
qed

lemma add_node_ok:
  assumes "acc_ok tc name M acc" and "sd \<in> M" and "tx_Service (sd_txt tc sd) = name"
  shows "acc_ok tc name M (add_node tc env acc sd)"
proof -
  let ?P = "\<lambda>(v, s). sv_Version s = v \<and> sv_Name s = name \<and> sv_Metadata s = [] \<and> (\<exists>sd\<in>M. sd_version tc sd = v \<and> tx_Endpoints (sd_txt tc sd) = sv_Endpoints s)"
  have acc: "go_map acc" "list_all ?P acc" using assms(1) by (simp_all add: acc_ok_def)
  have old: "?P (sd_version tc sd, s)" if "map_of acc (sd_version tc sd) = Some s" for s
    by (rule list_all_map_of [OF acc(2) that])
  have "?P (sd_version tc sd, txt_service (sd_txt tc sd))"
    using assms(2,3) by (auto simp: txt_service_def sd_version_def)
  with old have "?P (sd_version tc sd, case map_of acc (sd_version tc sd) of Some s \<Rightarrow> s | None \<Rightarrow> txt_service (sd_txt tc sd))"
    by (cases "map_of acc (sd_version tc sd)") simp_all
  then have "?P (sd_version tc sd, (\<lambda>s. s\<lparr>sv_Nodes := sv_Nodes s @ [sd_node env tc sd]\<rparr>)
      (case map_of acc (sd_version tc sd) of Some s \<Rightarrow> s | None \<Rightarrow> txt_service (sd_txt tc sd)))" by simp
  then show ?thesis
    unfolding acc_ok_def add_node_def Let_def using acc by (blast intro: go_map_update list_all_update)
qed

lemma all_nodes_update:
  assumes "go_map acc" and "\<forall>p\<in>set acc. sv_Version (snd p) = fst p" and "sv_Version s = v" and "sv_Nodes s = ns @ [n]"
    and "ns = (case map_of acc v of None \<Rightarrow> [] | Some s \<Rightarrow> sv_Nodes s)"
  shows "mset (all_nodes (map snd (AList.update v s acc))) = mset (all_nodes (map snd acc)) + {#(v, n)#}"
  using assms
proof (induction acc)
  case (Cons p acc)
  obtain v' s' where p: "p = (v', s')" by (cases p)
  show ?case
  proof (cases "v' = v")
    case True
    then have "ns = sv_Nodes s'" "sv_Version s' = v" using Cons.prems(2,5) p by auto
    then show ?thesis using Cons.prems(3,4) p True by (simp add: all_nodes_def)
  next
    case False
    with Cons p show ?thesis by (simp add: all_nodes_def)
  qed
qed (simp add: all_nodes_def)

lemma add_node_nodes:
  assumes "acc_ok tc name M acc"
  shows "mset (all_nodes (map snd (add_node tc env acc sd))) = mset (all_nodes (map snd acc)) + {#(sd_version tc sd, sd_node env tc sd)#}"
  unfolding add_node_def Let_def
proof (rule all_nodes_update)
  show "go_map acc" using assms by (simp add: acc_ok_def)
  show "\<forall>p\<in>set acc. sv_Version (snd p) = fst p" using assms by (auto simp: acc_ok_def list_all_iff)
  let ?s = "case map_of acc (sd_version tc sd) of None \<Rightarrow> txt_service (sd_txt tc sd) | Some s \<Rightarrow> s"
  show "sv_Nodes (?s\<lparr>sv_Nodes := sv_Nodes ?s @ [sd_node env tc sd]\<rparr>) = sv_Nodes ?s @ [sd_node env tc sd]" by simp
  show "sv_Nodes ?s = (case map_of acc (sd_version tc sd) of None \<Rightarrow> [] | Some s \<Rightarrow> sv_Nodes s)"
    by (simp add: txt_service_def split: option.splits)
  have "sv_Version ?s = sd_version tc sd"
    using assms list_all_map_of [of _ acc "sd_version tc sd"]
    by (auto simp: acc_ok_def txt_service_def sd_version_def split: option.splits dest!: list_all_map_of)
  then show "sv_Version (?s\<lparr>sv_Nodes := sv_Nodes ?s @ [sd_node env tc sd]\<rparr>) = sd_version tc sd" by simp
qed

lemma get_fold:
  assumes "\<forall>sd\<in>M. \<forall>acc. get acc (sent_entry sd) = Inr (add_node tc env acc sd)" and "\<forall>sd\<in>M. tx_Service (sd_txt tc sd) = name"
    and "set xs \<subseteq> M" and "acc_ok tc name M acc"
  shows "\<exists>acc'. sum_fold get acc (map sent_entry xs) = Inr acc' \<and> acc_ok tc name M acc' \<and>
    mset (all_nodes (map snd acc')) = mset (all_nodes (map snd acc)) + mset (map (\<lambda>sd. (sd_version tc sd, sd_node env tc sd)) xs)"
  using assms(3,4)
proof (induction xs arbitrary: acc)
  case (Cons sd xs)
  have "acc_ok tc name M (add_node tc env acc sd)" using add_node_ok Cons.prems assms(2) by simp
  then obtain acc' where "sum_fold get (add_node tc env acc sd) (map sent_entry xs) = Inr acc'" "acc_ok tc name M acc'"
      "mset (all_nodes (map snd acc')) = mset (all_nodes (map snd (add_node tc env acc sd))) + mset (map (\<lambda>sd. (sd_version tc sd, sd_node env tc sd)) xs)"
    using Cons.IH [of "add_node tc env acc sd"] Cons.prems by auto
  then show ?case using assms(1) Cons.prems add_node_nodes [OF Cons.prems(2), of env sd] by auto
qed simp

lemma lookup_live:
  assumes lib: "lib_ok lib" and wf: "net_wf tc domn net" and plain: "mdns_name name" and m: "mr_domain m = domn"
    and ids: "distinct (map mz_Instance (net_sds net name))"
    and ports: "\<forall>sd\<in>set (net_sds net name). (word_of_int (mz_Port sd) :: 16 word) \<noteq> 0"
    and buf: "dl_Pack lib (query_msg lib name domn 0 False) = Some buf" and sock: "me_Listen env = None"
    and pack: "\<forall>sd\<in>set (net_sds net name). dl_Pack lib ((reply_msg (ptr_question (service_name name domn)) sd)\<lparr>dm_Compress := True\<rparr>) \<noteq> None"
    and del: "set packets = set (net_answers lib net buf from)"
  shows "\<exists>acc. mdns_GetService env lib tc m name packets = Inr (map snd acc) \<and> acc_ok tc name (set (net_sds net name)) acc \<and>
    mset (all_nodes (map snd acc)) = mset (map (\<lambda>sd. (sd_version tc sd, sd_node env tc sd)) (net_sds net name))"
proof -
  let ?M = "set (net_sds net name)"
  obtain xs where xs: "mset xs = mset (net_sds net name)"
      "Query env lib ((DefaultParams name)\<lparr>qp_Domain := domn\<rparr>) packets = Inr (map sent_entry xs)"
    using query_hands_out [OF lib wf plain ids ports buf sock pack del] by blast
  have d: "trimDot domn = domn" "domn \<noteq> []" using wf by (simp_all add: net_wf_def)
  have node: "get_step env tc domn name domn acc (sent_entry sd) = Inr (add_node tc env acc sd)" "tx_Service (sd_txt tc sd) = name"
    if sd: "sd \<in> ?M" for sd acc
  proof -
    obtain h i tx where f: "sd_form h domn i name sd" "mdns_decode tc (mz_TXT sd) = Inr (Some tx)" "tx_Service tx = name"
      using net_sds_form [OF wf sd] by blast
    have "sd_ok sd" using net_sds_ok [OF wf ids ports] sd by (simp add: sds_ok_def)
    then show "get_step env tc domn name domn acc (sent_entry sd) = Inr (add_node tc env acc sd)"
      by (rule get_step_node [OF _ f plain d(1)])
    show "tx_Service (sd_txt tc sd) = name" using f(2,3) by (simp add: sd_txt_def)
  qed
  have start: "acc_ok tc name ?M []" by (simp add: acc_ok_def)
  have sub: "set xs \<subseteq> ?M" using xs(1) by (metis mset_eq_setD order_refl)
  have stp: "\<forall>sd\<in>?M. \<forall>acc. get_step env tc domn name domn acc (sent_entry sd) = Inr (add_node tc env acc sd)" using node(1) by blast
  have svc: "\<forall>sd\<in>?M. tx_Service (sd_txt tc sd) = name" using node(2) by blast
  obtain acc where acc: "sum_fold (get_step env tc domn name domn) [] (map sent_entry xs) = Inr acc" "acc_ok tc name ?M acc"
      "mset (all_nodes (map snd acc)) = mset (map (\<lambda>sd. (sd_version tc sd, sd_node env tc sd)) xs)"
    using get_fold [of ?M "get_step env tc domn name domn" tc env name xs "[]", OF stp svc sub start]
    unfolding list.map all_nodes_Nil mset.simps add_0_left by (elim exE conjE) (rule that)
  have "mdns_GetService env lib tc m name packets = Inr (map snd acc)"
    using d by (simp add: mdns_GetService_def m xs(2) acc(1))
  moreover have "mset (all_nodes (map snd acc)) = mset (map (\<lambda>sd. (sd_version tc sd, sd_node env tc sd)) (net_sds net name))"
    using acc(3) xs(1) by (simp add: mset_map)
  ultimately show ?thesis using acc(2) by blast
qed

text \<open>
  What the cache asks of a registry holds of every lookup, whatever packets arrive: services of the name asked for, one per version.
\<close>

definition versions_keyed :: "string \<Rightarrow> (string, service) go_map \<Rightarrow> bool" where
  "versions_keyed name acc \<longleftrightarrow> go_map acc \<and> list_all (\<lambda>(v, s). sv_Version s = v \<and> sv_Name s = name) acc"

lemma get_step_keyed:
  assumes acc: "versions_keyed name acc" and step: "get_step env tc domn name pdomn acc e = Inr acc'"
  shows "versions_keyed name acc'"
proof -
  let ?P = "\<lambda>(v, s). sv_Version s = v \<and> sv_Name s = name"
  have up: "versions_keyed name (AList.update v (s\<lparr>sv_Nodes := ns\<rparr>) acc)" if "?P (v, s)" for v s ns
    using acc that by (auto simp: versions_keyed_def intro!: go_map_intros)
  have old: "?P (v, s)" if "map_of acc v = Some s" for v s
    using acc list_all_map_of [OF _ that, of ?P] by (simp add: versions_keyed_def)
  consider "acc' = acc"
    | tx i a where "tx_Service tx = name" "acc' = AList.update (tx_Version tx)
        ((case map_of acc (tx_Version tx) of Some s \<Rightarrow> s | None \<Rightarrow> txt_service tx)\<lparr>sv_Nodes :=
          sv_Nodes (case map_of acc (tx_Version tx) of Some s \<Rightarrow> s | None \<Rightarrow> txt_service tx) @ [txt_node tx i a]\<rparr>) acc"
    using step by (auto simp: get_step_def Let_def split: if_splits sum.splits option.splits)
  then show ?thesis
  proof cases
    case 2
    have "?P (tx_Version tx, case map_of acc (tx_Version tx) of Some s \<Rightarrow> s | None \<Rightarrow> txt_service tx)"
      using old 2(1) by (cases "map_of acc (tx_Version tx)") (simp_all add: txt_service_def)
    then show ?thesis unfolding 2(2) by (rule up)
  qed (use acc in simp)
qed

lemma get_fold_keyed:
  "versions_keyed name acc \<Longrightarrow> sum_fold (get_step env tc domn name pdomn) acc es = Inr acc' \<Longrightarrow> versions_keyed name acc'"
  by (induction es arbitrary: acc) (auto simp: sum_bind_def dest: get_step_keyed split: sum.splits)

interpretation mdns_lookup: service_lookup "\<lambda>_. True" "\<lambda>name (env, lib, tc, m, packets). mdns_GetService env lib tc m name packets"
proof
  fix q :: "mdns_env \<times> 'p dns_lib \<times> txt_codec \<times> mdns_registry \<times> 'p list" and name ss
  assume get: "(case q of (env, lib, tc, m, packets) \<Rightarrow> mdns_GetService env lib tc m name packets) = Inr ss"
  obtain env lib tc m packets where q: "q = (env, lib, tc, m, packets)" by (cases q)
  obtain es acc where "sum_fold (get_step env tc (mr_domain m) name (if mr_domain m = [] then ''local'' else mr_domain m)) [] es = Inr acc" "ss = map snd acc"
    using get by (auto simp: q mdns_GetService_def sum_bind_def Let_def split: sum.splits)
  then have "versions_keyed name acc" "ss = map snd acc" using get_fold_keyed [of name "[]"] by (auto simp: versions_keyed_def)
  moreover from this(1) have "map sv_Version (map snd acc) = map fst acc" by (auto simp: versions_keyed_def list_all_iff)
  ultimately show "list_ok name ss" by (auto simp: list_ok_def versions_keyed_def go_map_def list_all_iff simp del: map_map)
qed

text \<open>A cache in front of the default registry keeps its invariant, even when strangers answer the query.\<close>

lemma cache_over_mdns:
  assumes "cache_inv c"
  shows "cache_inv (fst (cache_get now (map_sum (\<lambda>_. err) (\<lambda>ss. ss) (mdns_GetService env lib tc m name packets)) name c))"
proof (rule cache_inv_get [OF assms])
  fix ss assume "map_sum (\<lambda>_. err) (\<lambda>ss. ss) (mdns_GetService env lib tc m name packets) = Inr ss"
  then have "mdns_GetService env lib tc m name packets = Inr ss" by (cases "mdns_GetService env lib tc m name packets") simp_all
  then show "list_ok name ss" using mdns_lookup.lookup_ok [of name "(env, lib, tc, m, packets)" ss] by simp
qed

section \<open>Registering what can be looked up\<close>

text \<open>A node with an id, an IP address written the way \<open>net.IP\<close> prints it, a port number and a TXT value the codec can carry.\<close>

definition node_fits :: "mdns_env \<Rightarrow> txt_codec \<Rightarrow> service \<Rightarrow> node \<Rightarrow> bool" where
  "node_fits env tc s n \<longleftrightarrow> nd_Id n \<noteq> [] \<and> nd_Id n \<noteq> ''*'' \<and> txt_ok tc (node_txt s n) \<and>
     (\<exists>host p ip. SplitHostPort (nd_Address n) = Inr (host, go_dec p) \<and> nd_Address n = JoinHostPort host (go_dec p) \<and>
        0 < p \<and> p < 2 ^ 16 \<and> ip = me_ParseIP env host \<and> (To4 ip \<noteq> None \<or> To16 ip \<noteq> None) \<and>
        me_ipString env (case To4 ip of Some a \<Rightarrow> a | None \<Rightarrow> ip) = host)"

definition env_ok :: "mdns_env \<Rightarrow> string \<Rightarrow> bool" where
  "env_ok env h \<longleftrightarrow> me_Hostname env = Inr h \<and> me_Listen env = None \<and> To4 (me_ParseIP env ''0.0.0.0'') \<noteq> None"

lemma Atoi_go_dec: "p < 2 ^ 16 \<Longrightarrow> Atoi_value (go_dec p) = int p"
proof -
  assume p: "p < 2 ^ 16"
  obtain c cs where cs: "go_dec p = c # cs" using go_dec_digits [of p] by (cases "go_dec p") auto
  have dec: "list_all is_dec (go_dec p)" "dec_val (go_dec p) = p" using go_dec_digits by simp_all
  then have "c \<noteq> CHR ''-''" "c \<noteq> CHR ''+''" by (auto simp: cs is_dec_def)
  then show ?thesis using dec p cs by (simp add: Atoi_value_def Let_def)
qed

lemma node_entry_fits:
  assumes fits: "node_fits env tc s n" and env: "env_ok env h" and name: "sv_Name s \<noteq> []"
  shows "\<exists>e sd. node_entry env tc domn s n = Inr e \<and> men_id e = nd_Id n \<and> ms_Zone (men_node e) = ZService sd \<and>
    mz_Instance sd = nd_Id n \<and> sd_txt tc sd = node_txt s n \<and> (word_of_int (mz_Port sd) :: 16 word) \<noteq> 0 \<and>
    sd_node env tc sd = n\<lparr>nd_Port := 0\<rparr>"
proof -
  obtain host p ip where n: "SplitHostPort (nd_Address n) = Inr (host, go_dec p)" "nd_Address n = JoinHostPort host (go_dec p)"
      "0 < p" "p < 2 ^ 16" "ip = me_ParseIP env host" "To4 ip \<noteq> None \<or> To16 ip \<noteq> None"
      "me_ipString env (case To4 ip of Some a \<Rightarrow> a | None \<Rightarrow> ip) = host" and id: "nd_Id n \<noteq> []" and tx: "txt_ok tc (node_txt s n)"
    using fits unfolding node_fits_def by blast
  obtain recs where recs: "mdns_encode tc (node_txt s n) = Inr recs" "mdns_decode tc recs = Inr (Some (node_txt s n))"
    using encode_decode [OF tx] by blast
  have env': "me_Hostname env = Inr h" "me_Listen env = None" using env by (simp_all add: env_ok_def)
  have "\<exists>sd. NewMDNSService env (nd_Id n) (sv_Name s) (domn @ [dot]) [] (int p) [ip] recs = Inr sd"
    by (rule NewMDNSService_ok) (use id name n env' in simp_all)
  then obtain sd where sd: "NewMDNSService env (nd_Id n) (sv_Name s) (domn @ [dot]) [] (int p) [ip] recs = Inr sd" by blast
  note f = NewMDNSService_form [OF sd env'(1)]
  have port: "unat (word_of_int (int p) :: 16 word) = p" using n(4) by (simp add: unat_of_nat take_bit_nat_eq_self)
  let ?e = "\<lparr>men_id = nd_Id n, men_node = \<lparr>ms_Zone = ZService sd, ms_LocalhostChecking = True, ms_shutdown = False, ms_outboundIP = me_outboundIP env\<rparr>\<rparr>"
  have e: "node_entry env tc domn s n = Inr ?e"
    using sd by (simp add: node_entry_def recs(1) n(1) Atoi_go_dec [OF n(4)] NewServer_def env'(2) sum_bind_def Let_def flip: n(5))
  have addr: "me_ipString env (sd_addr sd) = host" using n(7) by (simp add: sd_addr_def f(4))
  have tx': "sd_txt tc sd = node_txt s n" by (simp add: sd_txt_def f(2) recs(2))
  have inst: "mz_Instance sd = nd_Id n" using f(1) by (simp add: sd_form_def)
  have nd: "sd_node env tc sd = n\<lparr>nd_Port := 0\<rparr>"
    unfolding sd_node_def tx' inst addr f(3) port txt_node_def n(2) [symmetric] by (simp add: node_txt_def)
  have "(word_of_int (mz_Port sd) :: 16 word) \<noteq> 0" using port n(3) f(3) by (metis unat_eq_zero less_numeral_extra(3))
  then show ?thesis using e inst tx' nd by (intro exI [of _ ?e] exI [of _ sd]) simp
qed

lemma register_loop_all:
  assumes "distinct (map nd_Id ns)" and "\<forall>n\<in>set ns. nd_Id n \<notin> men_id ` set es" and "\<forall>n\<in>set ns. mk n = Inr (g n) \<and> men_id (g n) = nd_Id n"
  shows "register_loop mk es gerr ns = (es @ map g ns, gerr)"
  using assms
proof (induction ns arbitrary: es)
  case (Cons n ns)
  have "\<not> list_ex (\<lambda>e. nd_Id n = men_id e) es" using Cons.prems(2) by (force simp: list_ex_iff)
  moreover have "register_loop mk (es @ [g n]) gerr ns = ((es @ [g n]) @ map g ns, gerr)"
    by (rule Cons.IH) (use Cons.prems in \<open>auto simp: image_iff\<close>)
  ultimately show ?case using Cons.prems(3) by simp
qed simp

text \<open>Registering a new service whose nodes fit: no error, and its node servers are those of the nodes, in order.\<close>

lemma register_new:
  assumes new: "map_of (mr_services m) (sv_Name s) = None" and env: "env_ok env h" and name: "sv_Name s \<noteq> []"
    and fits: "\<forall>n\<in>set (sv_Nodes s). node_fits env tc s n" and ids: "distinct (map nd_Id (sv_Nodes s))"
  shows "\<exists>m' sdof. mdns_Register env tc s m = (m', None) \<and> mr_domain m' = mr_domain m \<and>
    fst ` set (mr_services m') = insert (sv_Name s) (fst ` set (mr_services m)) \<and>
    reg_sds m' (sv_Name s) = map sdof (sv_Nodes s) \<and>
    (\<forall>n\<in>set (sv_Nodes s). mz_Instance (sdof n) = nd_Id n \<and> sd_txt tc (sdof n) = node_txt s n \<and>
       (word_of_int (mz_Port (sdof n)) :: 16 word) \<noteq> 0 \<and> sd_node env tc (sdof n) = n\<lparr>nd_Port := 0\<rparr>)"
proof -
  have "\<exists>sd. NewMDNSService env (sv_Name s) ''_services'' (mr_domain m @ [dot]) [] 9999 [me_ParseIP env ''0.0.0.0''] [] = Inr sd"
    by (rule NewMDNSService_ok) (use env name in \<open>simp_all add: env_ok_def\<close>)
  then obtain w where w: "wildcard_entry env (mr_domain m) (sv_Name s) = Inr w"
    using env by (auto simp: wildcard_entry_def NewServer_def env_ok_def sum_bind_def)
  have wid: "men_id w = ''*''" "zone_sd (ms_Zone (men_node w)) = None"
    using wildcard_ok(2,3) [OF w] env by (auto simp: env_ok_def)
  let ?mk = "node_entry env tc (mr_domain m) s"
  have "\<forall>n\<in>set (sv_Nodes s). \<exists>e sd. ?mk n = Inr e \<and> men_id e = nd_Id n \<and> ms_Zone (men_node e) = ZService sd \<and>
      mz_Instance sd = nd_Id n \<and> sd_txt tc sd = node_txt s n \<and> (word_of_int (mz_Port sd) :: 16 word) \<noteq> 0 \<and> sd_node env tc sd = n\<lparr>nd_Port := 0\<rparr>"
    using fits node_entry_fits [OF _ env name] by blast
  then obtain g sdof where g: "\<forall>n\<in>set (sv_Nodes s). ?mk n = Inr (g n) \<and> men_id (g n) = nd_Id n \<and> ms_Zone (men_node (g n)) = ZService (sdof n) \<and>
      mz_Instance (sdof n) = nd_Id n \<and> sd_txt tc (sdof n) = node_txt s n \<and> (word_of_int (mz_Port (sdof n)) :: 16 word) \<noteq> 0 \<and>
      sd_node env tc (sdof n) = n\<lparr>nd_Port := 0\<rparr>"
    by metis
  have loop: "register_loop ?mk [w] None (sv_Nodes s) = ([w] @ map g (sv_Nodes s), None)"
    by (rule register_loop_all [OF ids]) (use fits g wid in \<open>auto simp: node_fits_def\<close>)
  define m' where "m' = m\<lparr>mr_services := AList.update (sv_Name s) ([w] @ map g (sv_Nodes s)) (mr_services m)\<rparr>"
  have reg: "mdns_Register env tc s m = (m', None)"
    using new w loop by (simp add: mdns_Register_def first_entries_def m'_def)
  have "reg_sds m' (sv_Name s) = List.map_filter (\<lambda>e. zone_sd (ms_Zone (men_node e))) (map g (sv_Nodes s))"
    using wid(2) by (simp add: reg_sds_def reg_entries_def m'_def map_filter_simps)
  moreover have "List.map_filter (\<lambda>e. zone_sd (ms_Zone (men_node e))) (map g ns) = map sdof ns" if "set ns \<subseteq> set (sv_Nodes s)" for ns
    using that g by (induction ns) (auto simp: map_filter_simps)
  moreover have "fst ` set (mr_services m') = insert (sv_Name s) (fst ` set (mr_services m))"
    by (simp add: m'_def dom_update)
  ultimately show ?thesis
    using reg g by (intro exI [of _ m'] exI [of _ sdof]) (simp add: m'_def)
qed

section \<open>Leaving, and what watchers see\<close>

lemma deregister_loop_out:
  "e \<in> set es \<Longrightarrow> men_id e \<in> nd_Id ` set ns \<Longrightarrow> set (snd (Shutdown lib (men_node e))) \<subseteq> set (snd (deregister_loop lib ns es))"
proof (induction es)
  case (Cons x es)
  have "list_ex (\<lambda>n. nd_Id n = men_id y) ns \<longleftrightarrow> men_id y \<in> nd_Id ` set ns" for y unfolding list_ex_iff image_iff by metis
  with Cons show ?case by (auto simp: Let_def case_prod_beta)
qed simp

lemma Deregister_cases:
  assumes "mdns_Deregister lib s m = (m', out)"
  shows "set (snd (deregister_loop lib (sv_Nodes s) (reg_entries m (sv_Name s)))) \<subseteq> set out"
    and "set (reg_entries m' (sv_Name s)) \<subseteq> {e \<in> set (reg_entries m (sv_Name s)). men_id e \<notin> nd_Id ` set (sv_Nodes s)}"
proof -
  obtain kept g where loop: "deregister_loop lib (sv_Nodes s) (reg_entries m (sv_Name s)) = (kept, g)" by force
  have kept: "kept = filter (\<lambda>e. men_id e \<notin> nd_Id ` set (sv_Nodes s)) (reg_entries m (sv_Name s))"
    using loop by (metis deregister_loop_kept fst_conv)
  have dr: "mdns_Deregister lib s m = (m', out)" "deregister_loop lib (sv_Nodes s) (case map_of (mr_services m) (sv_Name s) of None \<Rightarrow> [] | Some es \<Rightarrow> es) = (kept, g)"
    using assms loop by (simp_all add: reg_entries_def)
  show "set (snd (deregister_loop lib (sv_Nodes s) (reg_entries m (sv_Name s)))) \<subseteq> set out"
    using dr unfolding loop by (auto simp: mdns_Deregister_def Let_def split: list.splits if_splits)
  have "set (reg_entries m' (sv_Name s)) \<subseteq> set kept"
    using dr by (auto simp: mdns_Deregister_def Let_def reg_entries_def split: list.splits if_splits)
  then show "set (reg_entries m' (sv_Name s)) \<subseteq> {e \<in> set (reg_entries m (sv_Name s)). men_id e \<notin> nd_Id ` set (sv_Nodes s)}"
    by (auto simp: kept)
qed

text \<open>The result a watcher of the service makes of an unsolicited response, with the action its time to live says.\<close>

definition watched :: "mdns_env \<Rightarrow> txt_codec \<Rightarrow> mdns_service \<Rightarrow> service" where
  "watched env tc sd = (txt_service (sd_txt tc sd))\<lparr>sv_Nodes := [sd_node env tc sd]\<rparr>"

lemma watch_unsolicited:
  assumes lib: "lib_ok lib" and ok: "sd_ok sd" and own: "mz_instanceAddr sd \<noteq> mz_serviceAddr sd" "mz_instanceAddr sd \<noteq> mz_enumAddr sd"
    and tx: "mdns_decode tc (mz_TXT sd) = Inr (Some t)" "tx_Service t \<noteq> []" "tx_Version t \<noteq> []"
    and addr: "mz_instanceAddr sd = mz_Instance sd @ ([dot] @ tx_Service t @ [dot] @ wt_domain w @ [dot])"
    and w: "wt_Service w = [] \<or> wt_Service w = tx_Service t" and buf: "dl_Pack lib (unsolicited lib msg sd) = Some buf"
  shows "\<exists>e. mdns_Listen lib [buf] = [e] \<and>
    watch_result env tc w e = Inr (Some (if mz_TTL sd = 0 then ''delete'' else ''create'', watched env tc sd))"
proof -
  let ?e = "(entry_of TypeSRV sd)\<lparr>se_sent := True\<rparr>" and ?suf = "[dot] @ tx_Service t @ [dot] @ wt_domain w @ [dot]"
  have un: "dl_Unpack lib buf = Some (unsolicited lib msg sd)"
    using lib_okD(5) [OF lib buf] by (simp add: unsolicited_def zero_msg_def Let_def)
  have "mdns_Listen lib [buf] = [?e]"
    using listen_unsolicited [OF lib ok own] by (simp add: mdns_Listen_def client_recv_def map_filter_simps un)
  moreover have "watch_result env tc w ?e = Inr (Some (if mz_TTL sd = 0 then ''delete'' else ''create'', watched env tc sd))"
  proof -
    have sel: "se_TTL ?e = uint (mz_TTL sd)" "se_InfoFields ?e = mz_TXT sd" "se_Name ?e = mz_Instance sd @ ?suf"
      using addr by (simp_all add: entry_of_def filled_def new_entry_def)
    have val: "sd_txt tc sd = t" by (simp add: sd_txt_def tx(1))
    have suf: "has_suffix (mz_Instance sd @ ?suf) ?suf" unfolding has_suffix_iff by blast
    have a: "watch_address env ?e = JoinHostPort (me_ipString env (sd_addr sd)) (go_dec (unat (word_of_int (mz_Port sd) :: 16 word)))"
      by (simp add: watch_address_def entry_of_address [OF ok])
    have filter_ok: "\<not> (wt_Service w \<noteq> [] \<and> tx_Service t \<noteq> wt_Service w)" using w by auto
    show ?thesis
      unfolding watch_result_def sel tx(1) a watched_def sd_node_def val
      by (simp only: sum.case option.case tx(2,3) filter_ok suf TrimSuffix_append Let_def uint_0_iff simp_thms if_True if_False)
  qed
  ultimately show ?thesis by blast
qed

lemma instance_not_service: "instance_name i name domn \<noteq> service_name name domn"
proof
  assume "instance_name i name domn = service_name name domn"
  then have "length (instance_name i name domn) = length (service_name name domn)" by simp
  then show False by (simp add: instance_name_def service_name_def)
qed

text \<open>What is known of a node server of a well-formed registry.\<close>

lemma reg_sd_facts:
  assumes wf: "net_wf tc domn [m]" and sd: "sd \<in> set (reg_sds m name)" and name: "trimDot name = name"
    and port: "(word_of_int (mz_Port sd) :: 16 word) \<noteq> 0"
  shows "sd_ok sd" and "mz_instanceAddr sd \<noteq> mz_serviceAddr sd" and "mz_TTL sd = defaultTTL"
    and "tx_Service (sd_txt tc sd) = name" and "mdns_decode tc (mz_TXT sd) = Inr (Some (sd_txt tc sd))"
    and "mz_instanceAddr sd = mz_Instance sd @ ([dot] @ name @ [dot] @ domn @ [dot])"
    and "\<exists>e\<in>set (reg_entries m name). ms_Zone (men_node e) = ZService sd \<and> \<not> ms_shutdown (men_node e) \<and> men_id e = mz_Instance sd"
proof -
  have net: "sd \<in> set (net_sds [m] name)" using sd by (simp add: net_sds_def)
  obtain es e h t where e: "(name, es) \<in> set (mr_services m)" "e \<in> set es" "ms_Zone (men_node e) = ZService sd" "\<not> ms_shutdown (men_node e)"
      "sd_form h domn (men_id e) name sd" "\<not> has_suffix h (dot # domn)" and t: "mdns_decode tc (mz_TXT sd) = Inr (Some t)" "tx_Service t = name"
    using net_sds_form [OF wf net] by auto
  have d: "trimDot domn = domn" using wf by (simp add: net_wf_def)
  show addr: "mz_instanceAddr sd = mz_Instance sd @ ([dot] @ name @ [dot] @ domn @ [dot])"
    using e(5) name d by (simp add: sd_form_def instance_name_def)
  show "mz_TTL sd = defaultTTL" using e(5) by (simp add: sd_form_def)
  show "mz_instanceAddr sd \<noteq> mz_serviceAddr sd" using e(5) instance_not_service by (simp add: sd_form_def)
  show "mdns_decode tc (mz_TXT sd) = Inr (Some (sd_txt tc sd))" "tx_Service (sd_txt tc sd) = name" using t by (simp_all add: sd_txt_def)
  have "h @ [dot] \<noteq> mz_instanceAddr sd"
  proof
    assume "h @ [dot] = mz_instanceAddr sd"
    then have "h = (mz_Instance sd @ [dot] @ name) @ dot # domn" using addr by simp
    with e(6) show False unfolding has_suffix_iff by blast
  qed
  then show "sd_ok sd" using e(5) port by (simp add: sd_ok_def sd_form_def)
  have "reg_entries m name = es" using net_wf_entry(3) [OF wf _ e(1,2)] by simp
  then show "\<exists>e\<in>set (reg_entries m name). ms_Zone (men_node e) = ZService sd \<and> \<not> ms_shutdown (men_node e) \<and> men_id e = mz_Instance sd"
    using e(2-5) by (auto simp: sd_form_def)
qed

lemma deregistered_gone:
  assumes wf: "net_wf tc domn [m]" and leave: "mz_Instance sd \<in> nd_Id ` set (sv_Nodes s)" and dr: "mdns_Deregister lib s m = (m', out)"
  shows "sd \<notin> set (reg_sds m' (sv_Name s))"
proof
  assume "sd \<in> set (reg_sds m' (sv_Name s))"
  then obtain e where e: "e \<in> set (reg_entries m' (sv_Name s))" "zone_sd (ms_Zone (men_node e)) = Some sd"
    by (auto simp: reg_sds_def map_filter_def)
  then have old: "e \<in> set (reg_entries m (sv_Name s))" "men_id e \<notin> nd_Id ` set (sv_Nodes s)" using Deregister_cases(2) [OF dr] by auto
  then obtain es where "(sv_Name s, es) \<in> set (mr_services m)" "e \<in> set es"
    by (cases "map_of (mr_services m) (sv_Name s)") (auto simp: reg_entries_def dest: map_of_SomeD)
  then obtain h where "entry_ok h tc domn (sv_Name s) e" using net_wf_entry(2) [OF wf, of m "sv_Name s" es e] by auto
  moreover have "ms_Zone (men_node e) = ZService sd" using e(2) by (cases "ms_Zone (men_node e)") auto
  ultimately have "mz_Instance sd = men_id e" by (simp add: entry_ok_def sd_form_def)
  with old(2) leave show False by simp
qed

text \<open>
  C20.  Leaving the default registry: \<open>Deregister\<close> of a node takes its server out of the service, so that no later lookup finds it, and sends a
  goodbye; a watcher of the service that hears the announcement of the server sees the creation of the node, and one that hears the
  goodbye sees its deletion, with the same service and node.
\<close>

theorem mdns_goodbye:
  assumes lib: "lib_ok lib" and wf: "net_wf tc domn [m]" and sd: "sd \<in> set (reg_sds m (sv_Name s))" and name: "trimDot (sv_Name s) = sv_Name s" "sv_Name s \<noteq> []"
    and port: "(word_of_int (mz_Port sd) :: 16 word) \<noteq> 0" and own: "mz_instanceAddr sd \<noteq> mz_enumAddr sd"
    and leave: "mz_Instance sd \<in> nd_Id ` set (sv_Nodes s)" and version: "sd_version tc sd \<noteq> []"
    and w: "wt_domain w = domn" "wt_Service w = [] \<or> wt_Service w = sv_Name s" and dr: "mdns_Deregister lib s m = (m', out)"
  shows "sd \<notin> set (reg_sds m' (sv_Name s)) \<and>
    (\<exists>msg\<in>set (probe lib (ZService sd)). \<forall>buf. dl_Pack lib msg = Some buf \<longrightarrow>
      (\<exists>e. mdns_Listen lib [buf] = [e] \<and> watch_result env tc w e = Inr (Some (''create'', watched env tc sd)))) \<and>
    (\<exists>msg\<in>set out. \<forall>buf. dl_Pack lib msg = Some buf \<longrightarrow>
      (\<exists>e. mdns_Listen lib [buf] = [e] \<and> watch_result env tc w e = Inr (Some (''delete'', watched env tc sd))))"
proof -
  note f = reg_sd_facts [OF wf sd name(1) port]
  let ?tx = "sd_txt tc sd" and ?sd = "sd\<lparr>mz_TTL := 0\<rparr>"
  have tx: "tx_Service ?tx \<noteq> []" "tx_Version ?tx \<noteq> []" using f(4) name(2) version by (simp_all add: sd_version_def)
  have addr: "mz_instanceAddr sd = mz_Instance sd @ ([dot] @ tx_Service ?tx @ [dot] @ wt_domain w @ [dot])" using f(4,6) w(1) by simp
  have filter_ok: "wt_Service w = [] \<or> wt_Service w = tx_Service ?tx" using f(4) w(2) by simp
  have hear: "\<exists>e. mdns_Listen lib [buf] = [e] \<and> watch_result env tc w e = Inr (Some (''create'', watched env tc sd))"
    if "dl_Pack lib (unsolicited lib (probe_query lib sd) sd) = Some buf" for buf
    using watch_unsolicited [OF lib f(1,2) own f(5) tx addr filter_ok that, of env] f(3) by (simp add: defaultTTL_def)
  have same: "watched env tc ?sd = watched env tc sd" by (simp add: watched_def sd_node_def sd_txt_def sd_addr_def)
  have bye: "\<exists>e. mdns_Listen lib [buf] = [e] \<and> watch_result env tc w e = Inr (Some (''delete'', watched env tc sd))"
    if "dl_Pack lib (unsolicited lib zero_msg ?sd) = Some buf" for buf
    using watch_unsolicited [of lib ?sd tc ?tx w zero_msg buf env, OF lib] f(1,2,5) own tx addr filter_ok that same by simp
  obtain e where e: "e \<in> set (reg_entries m (sv_Name s))" "ms_Zone (men_node e) = ZService sd" "\<not> ms_shutdown (men_node e)" "men_id e = mz_Instance sd"
    using f(7) by blast
  have "unsolicited lib zero_msg ?sd \<in> set (snd (Shutdown lib (men_node e)))" using e(2,3) by (simp add: Shutdown_def Let_def)
  then have "unsolicited lib zero_msg ?sd \<in> set out"
    using Deregister_cases(1) [OF dr] deregister_loop_out [OF e(1), of "sv_Nodes s" lib] leave e(4) by auto
  moreover have "unsolicited lib (probe_query lib sd) sd \<in> set (probe lib (ZService sd))" by simp
  ultimately show ?thesis using hear bye deregistered_gone [OF wf leave dr] by blast
qed

text \<open>
  C8.  A lookup in the default registry returns the live nodes: with the registries of the network well-formed, every node id of
  the service in use once and every reply that fits into a packet, whatever the order and the repetitions in which the
  answers to the query arrive, \<open>GetService\<close> returns exactly the nodes the running servers stand for, each once and under its version,
  one service record per version.
\<close>

theorem mdns_lookup_live:
  assumes "lib_ok lib" and "net_wf tc domn net" and "mdns_name name" and "mr_domain m = domn" and "me_Listen env = None"
    and "distinct (map mz_Instance (net_sds net name))"
    and "\<forall>sd\<in>set (net_sds net name). (word_of_int (mz_Port sd) :: 16 word) \<noteq> 0"
    and "dl_Pack lib (query_msg lib name domn 0 False) = Some buf"
    and "\<forall>sd\<in>set (net_sds net name). dl_Pack lib ((reply_msg (ptr_question (service_name name domn)) sd)\<lparr>dm_Compress := True\<rparr>) \<noteq> None"
    and "set packets = set (net_answers lib net buf from)"
  shows "\<exists>res. mdns_GetService env lib tc m name packets = Inr res \<and> distinct (map sv_Version res) \<and> (\<forall>s\<in>set res. sv_Name s = name) \<and>
    mset (all_nodes res) = mset (map (\<lambda>sd. (sd_version tc sd, sd_node env tc sd)) (net_sds net name))"
proof -
  obtain acc where acc: "mdns_GetService env lib tc m name packets = Inr (map snd acc)" "acc_ok tc name (set (net_sds net name)) acc"
      "mset (all_nodes (map snd acc)) = mset (map (\<lambda>sd. (sd_version tc sd, sd_node env tc sd)) (net_sds net name))"
    using lookup_live [OF assms(1-4,6-8,5,9,10)] by blast
  with acc_ok_versions [OF acc(2)] show ?thesis by blast
qed

text \<open>
  C4.  Registering in the default registry and looking up round trip: a service that is new to a well-formed registry and whose nodes have
  distinct ids, printable IP addresses and port numbers is registered without an error, and a lookup, whatever the order and
  the repetitions in which the answers arrive, returns one service with the name, version and endpoints of the registered one and its nodes,
  with their ids, addresses and metadata.
\<close>

theorem mdns_Register_lookup:
  assumes lib: "lib_ok lib" and wf: "net_wf tc domn [m]" and h: "mdns_inv h tc m" "\<not> has_suffix h (dot # domn)" and env: "env_ok env h"
    and plain: "mdns_name (sv_Name s)" "sv_Name s \<noteq> []" and new: "map_of (mr_services m) (sv_Name s) = None"
    and fits: "\<forall>n\<in>set (sv_Nodes s). node_fits env tc s n" and ids: "distinct (map nd_Id (sv_Nodes s))" and some: "sv_Nodes s \<noteq> []"
    and reg: "mdns_Register env tc s m = (m', err)"
    and buf: "dl_Pack lib (query_msg lib (sv_Name s) domn 0 False) = Some buf"
    and pack: "\<forall>sd\<in>set (reg_sds m' (sv_Name s)). dl_Pack lib ((reply_msg (ptr_question (service_name (sv_Name s) domn)) sd)\<lparr>dm_Compress := True\<rparr>) \<noteq> None"
    and del: "set packets = set (net_answers lib [m'] buf from)"
  shows "err = None \<and> (\<exists>ns. mset ns = mset (map (\<lambda>n. n\<lparr>nd_Port := 0\<rparr>) (sv_Nodes s)) \<and>
    mdns_GetService env lib tc m' (sv_Name s) packets =
      Inr [\<lparr>sv_Name = sv_Name s, sv_Version = sv_Version s, sv_Metadata = [], sv_Endpoints = sv_Endpoints s, sv_Nodes = ns\<rparr>])"
proof -
  let ?name = "sv_Name s"
  obtain sdof where r: "err = None" "mr_domain m' = mr_domain m" "fst ` set (mr_services m') = insert ?name (fst ` set (mr_services m))"
      "reg_sds m' ?name = map sdof (sv_Nodes s)"
      and sd: "\<forall>n\<in>set (sv_Nodes s). mz_Instance (sdof n) = nd_Id n \<and> sd_txt tc (sdof n) = node_txt s n \<and>
         (word_of_int (mz_Port (sdof n)) :: 16 word) \<noteq> 0 \<and> sd_node env tc (sdof n) = n\<lparr>nd_Port := 0\<rparr>"
    using register_new [OF new env plain(2) fits ids] reg by auto
  have sds: "net_sds [m'] ?name = map sdof (sv_Nodes s)" by (simp add: net_sds_def r(4))
  have d: "mr_domain m' = domn" using wf r(2) by (simp add: net_wf_def)
  have "mdns_inv h tc m'"
    using mdns_Register_inv [OF h(1), of env s] env fits reg by (simp add: env_ok_def node_fits_def)
  then have wf': "net_wf tc domn [m']"
    using wf h(2) plain(1) d r(3) by (auto simp: net_wf_def mdns_name_def)
  have "map mz_Instance (net_sds [m'] ?name) = map nd_Id (sv_Nodes s)" unfolding sds using sd by simp
  then have ids': "distinct (map mz_Instance (net_sds [m'] ?name))" using ids by simp
  have ports: "\<forall>sd\<in>set (net_sds [m'] ?name). (word_of_int (mz_Port sd) :: 16 word) \<noteq> 0" unfolding sds using sd by simp
  have pack': "\<forall>sd\<in>set (net_sds [m'] ?name). dl_Pack lib ((reply_msg (ptr_question (service_name ?name domn)) sd)\<lparr>dm_Compress := True\<rparr>) \<noteq> None"
    using pack by (simp add: net_sds_def)
  have sock: "me_Listen env = None" using env by (simp add: env_ok_def)
  obtain acc where acc: "mdns_GetService env lib tc m' ?name packets = Inr (map snd acc)" "acc_ok tc ?name (set (net_sds [m'] ?name)) acc"
      "mset (all_nodes (map snd acc)) = mset (map (\<lambda>sd. (sd_version tc sd, sd_node env tc sd)) (net_sds [m'] ?name))"
    using lookup_live [OF lib wf' plain(1) d ids' ports buf sock pack' del] by blast
  have nodes: "map (\<lambda>sd. (sd_version tc sd, sd_node env tc sd)) (net_sds [m'] ?name) = map (\<lambda>n. (sv_Version s, n\<lparr>nd_Port := 0\<rparr>)) (sv_Nodes s)"
    unfolding sds using sd by (simp add: sd_version_def node_txt_def)
  have "all_nodes (map snd acc) \<noteq> []" using acc(3) some unfolding nodes by (cases "all_nodes (map snd acc)") auto
  moreover have "\<forall>sd\<in>set (net_sds [m'] ?name). sd_version tc sd = sv_Version s \<and> tx_Endpoints (sd_txt tc sd) = sv_Endpoints s"
    unfolding sds using sd by (simp add: sd_version_def node_txt_def)
  ultimately obtain t where t: "acc = [(sv_Version s, t)]"
      "t = \<lparr>sv_Name = ?name, sv_Version = sv_Version s, sv_Metadata = [], sv_Endpoints = sv_Endpoints s, sv_Nodes = sv_Nodes t\<rparr>"
    using acc_ok_single [OF acc(2)] by blast
  have "mset (map (Pair (sv_Version s)) (sv_Nodes t)) = mset (map (Pair (sv_Version s)) (map (\<lambda>n. n\<lparr>nd_Port := 0\<rparr>) (sv_Nodes s)))"
    using acc(3) t(2) unfolding nodes t(1) by (simp add: all_nodes_def comp_def) (metis service.select_convs(2))
  then have "mset (map snd (map (Pair (sv_Version s)) (sv_Nodes t))) = mset (map snd (map (Pair (sv_Version s)) (map (\<lambda>n. n\<lparr>nd_Port := 0\<rparr>) (sv_Nodes s))))"
    by (metis mset_map)
  then have "mset (sv_Nodes t) = mset (map (\<lambda>n. n\<lparr>nd_Port := 0\<rparr>) (sv_Nodes s))" by (simp add: comp_def)
  moreover have "mdns_GetService env lib tc m' ?name packets =
      Inr [\<lparr>sv_Name = ?name, sv_Version = sv_Version s, sv_Metadata = [], sv_Endpoints = sv_Endpoints s, sv_Nodes = sv_Nodes t\<rparr>]"
    using acc(1) t by simp
  ultimately show ?thesis using r(1) by blast
qed

section \<open>Corners\<close>

text \<open>
  A TXT record that unpacks to the JSON text \<open>null\<close> makes a lookup of a service and a watcher read a field of a nil pointer.
\<close>

lemma null_txt_panics:
  assumes "mdns_decode tc (se_InfoFields e) = Inr None"
  shows "service \<noteq> ''_services'' \<Longrightarrow> se_TTL e \<noteq> 0 \<Longrightarrow> get_step env tc domn service domn acc e = Inl NilPointer"
    and "watch_result env tc w e = Inl NilPointer"
  using assms by (simp_all add: get_step_def watch_result_def)

text \<open>A node whose id is registered already is left as it is, whatever its address, metadata or version are now.\<close>

lemma register_known_ignored:
  assumes "map_of (mr_services m) (sv_Name s) = Some es" and "\<forall>n\<in>set (sv_Nodes s). nd_Id n \<in> men_id ` set es"
  shows "reg_entries (fst (mdns_Register env tc s m)) name = reg_entries m name \<and> snd (mdns_Register env tc s m) = None"
proof -
  have "register_loop mk es gerr ns = (es, gerr)" if "\<forall>n\<in>set ns. nd_Id n \<in> men_id ` set es" for mk gerr ns
    using that by (induction ns) (auto simp: list_ex_iff)
  with assms show ?thesis by (simp add: mdns_Register_def first_entries_def reg_entries_def)
qed

text \<open>
  \<open>Deregister\<close> of a service that is not registered leaves an empty list behind, and the entry that lists the service is only made
  when there is no list: a service registered after that has no such entry.
\<close>

lemma register_loop_new:
  "list_all P es \<Longrightarrow> \<forall>n e. mk n = Inr e \<longrightarrow> P e \<Longrightarrow> list_all P (fst (register_loop mk es gerr ns))"
  by (induction mk es gerr ns rule: register_loop.induct) (auto split: sum.splits)

lemma deregister_unknown_unlists:
  assumes "map_of (mr_services m) (sv_Name s) = None" and "sv_Name s' = sv_Name s"
  shows "\<forall>e\<in>set (reg_entries (fst (mdns_Register env tc s' (fst (mdns_Deregister lib s m)))) (sv_Name s)).
    \<exists>sd. ms_Zone (men_node e) = ZService sd"
proof -
  let ?m = "m\<lparr>mr_services := AList.update (sv_Name s) [] (mr_services m)\<rparr>"
  let ?mk = "node_entry env tc (mr_domain m) s'"
  have "fst (mdns_Deregister lib s m) = ?m" using assms(1) by (simp add: mdns_Deregister_def)
  moreover have "reg_entries (fst (mdns_Register env tc s' ?m)) (sv_Name s) = fst (register_loop ?mk [] None (sv_Nodes s'))"
    using assms(2) by (simp add: mdns_Register_def first_entries_def reg_entries_def case_prod_beta Let_def)
  moreover have "list_all (\<lambda>e. \<exists>sd. ms_Zone (men_node e) = ZService sd) (fst (register_loop ?mk [] None (sv_Nodes s')))"
    by (rule register_loop_new) (auto dest: node_entry_Inr)
  ultimately show ?thesis by (simp add: list_all_iff)
qed

text \<open>Only sixteen bits of the port travel: a node registered with a larger one is found under another.\<close>

lemma port_mod: "nd_Address (sd_node env tc sd) = JoinHostPort (me_ipString env (sd_addr sd)) (go_dec (nat (mz_Port sd mod 2 ^ 16)))"
proof -
  have "unat (word_of_int (mz_Port sd) :: 16 word) = nat (mz_Port sd mod 2 ^ 16)"
    unfolding unat_eq_nat_uint uint_word_of_int by (simp add: take_bit_eq_mod)
  then show ?thesis by (simp add: sd_node_def txt_node_def)
qed

section \<open>A network of one host\<close>

definition lan_txt :: mdns_txt where
  "lan_txt = \<lparr>tx_Service = ''svc'', tx_Version = ''v1'', tx_Endpoints = [], tx_Metadata = None\<rparr>"

definition lan_codec :: txt_codec where
  "lan_codec = \<lparr>tc_Marshal = (\<lambda>txt. if txt = lan_txt then Inr [1] else Inl ''unsupported''),
     tc_Unmarshal = (\<lambda>b. if b = [1] then Inr (Some lan_txt) else Inl ''syntax''), tc_Compress = rev, tc_Decompress = (\<lambda>b. Inr (rev b))\<rparr>"

definition lan_dns :: "dns_msg dns_lib" where
  "lan_dns = \<lparr>dl_SetQuestion = (\<lambda>m name typ. m\<lparr>dm_RecursionDesired := True, dm_Question := [\<lparr>dq_Name = name, dq_Qtype = typ, dq_Qclass = ClassINET\<rparr>]\<rparr>),
     dl_Pack = (\<lambda>m. Some (m\<lparr>dm_Compress := False\<rparr>)), dl_Unpack = Some\<rparr>"

definition lan_env :: mdns_env where
  "lan_env = \<lparr>me_Hostname = Inr ''host'', me_LookupIP = (\<lambda>_. None), me_Listen = None, me_outboundIP = [10, 0, 0, 1],
     me_ParseIP = (\<lambda>s. if s = ''10.0.0.1'' then [10, 0, 0, 1] else if s = ''0.0.0.0'' then [0, 0, 0, 0] else []),
     me_ipString = (\<lambda>ip. if ip = [10, 0, 0, 1] then ''10.0.0.1'' else ''0.0.0.0'')\<rparr>"

definition lan_node :: node where
  "lan_node = \<lparr>nd_Metadata = None, nd_Id = ''n1'', nd_Address = ''10.0.0.1:80'', nd_Port = 0\<rparr>"

definition lan_service :: service where
  "lan_service = \<lparr>sv_Name = ''svc'', sv_Version = ''v1'', sv_Metadata = [], sv_Endpoints = [], sv_Nodes = [lan_node]\<rparr>"

definition lan_registry :: mdns_registry where
  "lan_registry = fst (mdns_Register lan_env lan_codec lan_service (mdns_newRegistry None))"

definition lan_query :: dns_msg where
  "lan_query = (query_msg lan_dns ''svc'' ''micro'' 0 False)\<lparr>dm_Compress := False\<rparr>"

definition lan_answers :: "dns_msg list" where
  "lan_answers = net_answers lan_dns [lan_registry] lan_query ([10, 0, 0, 2], 5353)"

lemma lan_names: "trimDot ''micro'' = ''micro''" "mdns_name ''svc''" "\<not> has_suffix ''host'' (dot # ''micro'')"
  by code_simp+

lemma lan_lib_ok: "lib_ok lan_dns"
  by (simp add: lib_ok_def lan_dns_def Let_def)

lemma lan_txt_ok: "txt_ok lan_codec (node_txt lan_service lan_node)"
  by (simp add: txt_ok_def lan_codec_def node_txt_def lan_service_def lan_node_def lan_txt_def)

lemma lan_env_ok: "env_ok lan_env ''host''"
  by (simp add: env_ok_def lan_env_def To4_def)

lemma lan_fits: "node_fits lan_env lan_codec lan_service lan_node"
proof -
  have d: "go_dec 80 = ''80''" by code_simp
  have "SplitHostPort ''10.0.0.1:80'' = Inr (''10.0.0.1'', ''80'')" "JoinHostPort ''10.0.0.1'' ''80'' = ''10.0.0.1:80''" by code_simp+
  then show ?thesis
    using lan_txt_ok unfolding node_fits_def
    by (intro conjI exI [of _ "''10.0.0.1''"] exI [of _ 80] exI [of _ "[10, 0, 0, 1]"]) (simp_all add: d lan_node_def lan_env_def To4_def)
qed

lemma lan_empty: "mdns_inv ''host'' lan_codec (mdns_newRegistry None)" "net_wf lan_codec ''micro'' [mdns_newRegistry None]"
proof -
  show "mdns_inv ''host'' lan_codec (mdns_newRegistry None)" by (simp add: mdns_inv_def mdns_newRegistry_def)
  then show "net_wf lan_codec ''micro'' [mdns_newRegistry None]"
    using lan_names by (auto simp: net_wf_def mdns_newRegistry_def)
qed

lemma lan_sel:
  "sv_Name lan_service = ''svc''" "sv_Nodes lan_service = [lan_node]" "nd_Id lan_node = ''n1''"
  "node_txt lan_service lan_node = lan_txt" "lan_node\<lparr>nd_Port := 0\<rparr> = lan_node"
  "mr_services (mdns_newRegistry None) = []" "mr_domain (mdns_newRegistry None) = ''micro''"
  by (simp_all add: lan_service_def lan_node_def node_txt_def lan_txt_def mdns_newRegistry_def)

lemma lan_new:
  obtains sd where "reg_sds lan_registry ''svc'' = [sd]" "mz_Instance sd = ''n1''" "sd_txt lan_codec sd = lan_txt"
    "(word_of_int (mz_Port sd) :: 16 word) \<noteq> 0" "sd_node lan_env lan_codec sd = lan_node"
proof -
  obtain m sdof where r: "mdns_Register lan_env lan_codec lan_service (mdns_newRegistry None) = (m, None)"
      "reg_sds m (sv_Name lan_service) = map sdof (sv_Nodes lan_service)"
      and n: "\<forall>n\<in>set (sv_Nodes lan_service). mz_Instance (sdof n) = nd_Id n \<and> sd_txt lan_codec (sdof n) = node_txt lan_service n \<and>
         (word_of_int (mz_Port (sdof n)) :: 16 word) \<noteq> 0 \<and> sd_node lan_env lan_codec (sdof n) = n\<lparr>nd_Port := 0\<rparr>"
    using register_new [of "mdns_newRegistry None" lan_service lan_env "''host''" lan_codec] lan_env_ok lan_fits
    unfolding lan_sel by fastforce
  have "m = lan_registry" using r(1) by (simp add: lan_registry_def)
  with r(2) n that [of "sdof lan_node"] show thesis unfolding lan_sel by (simp add: lan_sel)
qed

lemma lan_registry_names: "mr_domain lan_registry = ''micro''" "fst ` set (mr_services lan_registry) = {''svc''}"
    "mdns_Register lan_env lan_codec lan_service (mdns_newRegistry None) = (lan_registry, None)"
proof -
  obtain m where "mdns_Register lan_env lan_codec lan_service (mdns_newRegistry None) = (m, None)"
      "mr_domain m = ''micro''" "fst ` set (mr_services m) = {''svc''}"
    using register_new [of "mdns_newRegistry None" lan_service lan_env "''host''" lan_codec] lan_env_ok lan_fits
    unfolding lan_sel by fastforce
  then show "mr_domain lan_registry = ''micro''" "fst ` set (mr_services lan_registry) = {''svc''}"
    "mdns_Register lan_env lan_codec lan_service (mdns_newRegistry None) = (lan_registry, None)"
    by (simp_all add: lan_registry_def)
qed

lemma lan_wf: "net_wf lan_codec ''micro'' [lan_registry]"
proof -
  have "\<forall>n\<in>set (sv_Nodes lan_service). txt_ok lan_codec (node_txt lan_service n)" using lan_txt_ok by (simp add: lan_sel)
  then have "mdns_inv ''host'' lan_codec lan_registry"
    using mdns_Register_inv [OF lan_empty(1), of lan_env lan_service] lan_env_ok
    by (simp add: lan_registry_def env_ok_def)
  moreover have "trimDot ''svc'' = ''svc''" by code_simp
  ultimately show ?thesis unfolding net_wf_def using lan_registry_names(1,2) lan_names(1,3) by auto
qed

lemma lan_pack: "dl_Pack lan_dns m = Some (m\<lparr>dm_Compress := False\<rparr>)"
  by (simp add: lan_dns_def)

lemma lan_query_packs: "dl_Pack lan_dns (query_msg lan_dns ''svc'' ''micro'' 0 False) = Some lan_query"
  by (simp add: lan_query_def lan_pack)

theorem mdns_lookup_live_witness:
  "\<exists>res. mdns_GetService lan_env lan_dns lan_codec lan_registry ''svc'' (lan_answers @ lan_answers) = Inr res \<and>
     distinct (map sv_Version res) \<and> list_all (\<lambda>s. sv_Name s = ''svc'') res \<and> mset (all_nodes res) = mset [(''v1'', lan_node)]"
proof -
  obtain sd where sd: "reg_sds lan_registry ''svc'' = [sd]" "sd_txt lan_codec sd = lan_txt"
      "(word_of_int (mz_Port sd) :: 16 word) \<noteq> 0" "sd_node lan_env lan_codec sd = lan_node"
    by (rule lan_new)
  have net: "net_sds [lan_registry] ''svc'' = [sd]" by (simp add: net_sds_def sd(1))
  have v: "sd_version lan_codec sd = ''v1''" by (simp add: sd_version_def sd(2) lan_txt_def)
  have sock: "me_Listen lan_env = None" by (simp add: lan_env_def)
  have "distinct (map mz_Instance (net_sds [lan_registry] ''svc''))"
      "\<forall>sd\<in>set (net_sds [lan_registry] ''svc''). (word_of_int (mz_Port sd) :: 16 word) \<noteq> 0" using sd(3) by (simp_all add: net)
  moreover have "set (lan_answers @ lan_answers) = set (net_answers lan_dns [lan_registry] lan_query ([10, 0, 0, 2], 5353))"
    by (simp add: lan_answers_def)
  ultimately show ?thesis
    using mdns_lookup_live [OF lan_lib_ok lan_wf lan_names(2) lan_registry_names(1) sock _ _ lan_query_packs, of "lan_answers @ lan_answers" "([10, 0, 0, 2], 5353)"]
    by (simp add: net lan_pack sd(4) v list_all_iff)
qed

theorem mdns_Register_lookup_witness:
  "\<exists>ns. mset ns = mset [lan_node] \<and>
     mdns_GetService lan_env lan_dns lan_codec lan_registry ''svc'' (lan_answers @ lan_answers) =
       Inr [\<lparr>sv_Name = ''svc'', sv_Version = ''v1'', sv_Metadata = [], sv_Endpoints = [], sv_Nodes = ns\<rparr>]"
proof -
  have sel: "sv_Version lan_service = ''v1''" "sv_Endpoints lan_service = []" by (simp_all add: lan_service_def)
  have "set (lan_answers @ lan_answers) = set (net_answers lan_dns [lan_registry] lan_query ([10, 0, 0, 2], 5353))"
    by (simp add: lan_answers_def)
  then show ?thesis
    using mdns_Register_lookup [OF lan_lib_ok lan_empty(2,1) lan_names(3) lan_env_ok, of lan_service lan_registry None lan_query
        "lan_answers @ lan_answers" "([10, 0, 0, 2], 5353)"]
      lan_names(2) lan_fits lan_registry_names(3) lan_query_packs
    by (simp add: lan_sel sel lan_pack)
qed

definition lan_watcher :: mdns_watcher where
  "lan_watcher = \<lparr>wt_Service = ''svc'', wt_ch = [], wt_exit = False, wt_domain = ''micro''\<rparr>"

theorem mdns_goodbye_witness:
  "\<exists>sd. reg_sds lan_registry ''svc'' = [sd] \<and> sd \<notin> set (reg_sds (fst (mdns_Deregister lan_dns lan_service lan_registry)) ''svc'') \<and>
     (\<exists>msg\<in>set (probe lan_dns (ZService sd)). \<exists>e. mdns_Listen lan_dns [msg\<lparr>dm_Compress := False\<rparr>] = [e] \<and>
        watch_result lan_env lan_codec lan_watcher e = Inr (Some (''create'', watched lan_env lan_codec sd))) \<and>
     (\<exists>msg\<in>set (snd (mdns_Deregister lan_dns lan_service lan_registry)). \<exists>e. mdns_Listen lan_dns [msg\<lparr>dm_Compress := False\<rparr>] = [e] \<and>
        watch_result lan_env lan_codec lan_watcher e = Inr (Some (''delete'', watched lan_env lan_codec sd)))"
proof -
  obtain sd where sd: "reg_sds lan_registry ''svc'' = [sd]" "mz_Instance sd = ''n1''" "sd_txt lan_codec sd = lan_txt"
      "(word_of_int (mz_Port sd) :: 16 word) \<noteq> 0"
    by (rule lan_new)
  have nm: "trimDot ''svc'' = ''svc''" by code_simp
  have "mz_instanceAddr sd = ''n1'' @ ([dot] @ ''svc'' @ [dot] @ ''micro'' @ [dot])"
    using reg_sd_facts(6) [OF lan_wf _ nm sd(4)] sd(1,2) by simp
  moreover have "mz_enumAddr sd = enum_prefix @ trimDot ''micro'' @ [dot]"
    using net_sds_form [OF lan_wf, of sd "''svc''"] sd(1) by (auto simp: net_sds_def sd_form_def)
  ultimately have own: "mz_instanceAddr sd \<noteq> mz_enumAddr sd" by (simp add: enum_prefix_def)
  have w: "wt_domain lan_watcher = ''micro''" "wt_Service lan_watcher = [] \<or> wt_Service lan_watcher = ''svc''"
    by (simp_all add: lan_watcher_def)
  have v: "sd_version lan_codec sd \<noteq> []" by (simp add: sd_version_def sd(3) lan_txt_def)
  obtain m' out where dr: "mdns_Deregister lan_dns lan_service lan_registry = (m', out)" by force
  have "sd \<in> set (reg_sds lan_registry (sv_Name lan_service))" using sd(1) by (simp add: lan_sel)
  from mdns_goodbye [OF lan_lib_ok lan_wf this _ _ sd(4) own _ v w(1) _ dr, of lan_env] nm w(2) sd(1,2) show ?thesis
    by (simp add: lan_sel dr lan_pack)
qed

end
