(* ===== verification/Spec2Isabelle.thy ===== *)
theory Spec2Isabelle
  imports Path_Match Node_Selector Circuit_Breaker Search_Tree Auth Memory_Store Conn_Pool Rpc_Client Keyword_Trie Api_Router Server_Conn Server_Lifecycle Rpc_Router Mcp_Gateway Mdns_Registry
begin

text \<open>
  Verification of realmicro, a Go framework for microservices.

  \<^bold>\<open>The program.\<close>  A service registers its nodes and endpoints in a registry; clients find nodes there through a cache and a selector, keep connections in a pool
  and call methods over a transport with a codec; servers accept connections, decode requests and dispatch them by reflection.  Brokers carry events; an API router
  maps HTTP requests to endpoints; a gateway offers endpoints as tools.  Around this stand access control, rate limits, a circuit breaker, an in-memory
  store and libraries for keywords, routes and buffers.  Paths below are relative to \<open>src/\<close>.

  \<^bold>\<open>How code is modelled.\<close>  Structs are records, enumerations datatypes, errors values; a map is an association list with distinct keys (\<open>go_map\<close>), whose order stands for the
  iteration order; strings are lists of bytes, as \<open>char\<close>.  Mutating code passes its state explicitly.  Goroutines, tickers and callbacks are
  steps of inductive relations, and the properties of such a relation hold for every order of its steps.  How much a step takes in one piece varies: single channel operations and critical sections
  (\<open>Server_Conn\<close>, \<open>Conn_Pool\<close>, \<open>Http_Broker\<close>'s publications, the delivery of events in \<open>Registry_Sync\<close>), whole methods that hold one lock
  (\<open>Memory_Registry\<close>), or whole handlers and operations that in the code may overlap (the calls of \<open>Mcp_Gateway\<close>, the operations of a server in \<open>Server_Lifecycle\<close>, \<open>Disconnect\<close> of the broker), for which
  the properties speak of calls made one after the other.  Machine integers are words or carry their wrap-around where the code can reach it.  Panics are values.  Loops are structural
  recursion, or carry fuel that lemmas show to be enough (the parser of path templates, the connection loops), so that the statements about results include that there is one.  What the repository only
  calls (network, files, clocks, random numbers, JSON, protobuf, go-cache, regular expressions, Redis) is an argument of the definitions, with the laws the code relies on as hypotheses that a
  witness satisfies.

  \<^bold>\<open>Theories.\<close>
  \<^item> \<open>Go_Prelude\<close>: Go's maps, slices, strings, division and results; the collections \<open>go_map_intros\<close> and others used by the proofs.
  \<^item> \<open>Path_Template\<close>, \<open>Path_Pattern\<close>, \<open>Path_Match\<close> (\<open>api/router/util\<close>): tokenizer, parser and compiler of HTTP path templates and the stack machine that matches them.  Parsing always ends; a loaded
    pattern never panics and decides exactly what a declarative reading of the template says.
  \<^item> \<open>Registry_Util\<close>, \<open>Memory_Registry\<close>, \<open>Registry_Sync\<close>, \<open>Registry_Cache\<close> (\<open>registry\<close>, \<open>registry/cache\<close>, \<open>common/util/registry\<close>): service records and their merging, the in-memory registry as a refinement of a set of
    nodes, expiry, watchers, and the cache with its watch loop as a step relation; \<open>Registry_Sync\<close> puts both together, with events under way in any order, and keeps book of the ids that a lost
    or overtaken event can leave wrong.
  \<^item> \<open>Node_Selector\<close> (\<open>selector\<close>): filters and strategies.  \<open>Rpc_Client\<close> (\<open>client\<close>): retries of a call.  \<open>Conn_Pool\<close> (\<open>common/util/pool\<close>): the pool under any interleaving.
  \<^item> \<open>Codecs\<close>, \<open>Rpc_Codec\<close> (\<open>codec\<close>, \<open>client/rpc_codec.go\<close>, \<open>server/rpc_codec.go\<close>, \<open>client/rpc_stream.go\<close>): frames, netstrings, headers and bodies; what one side writes the other reads, stated once in a locale of
    codecs and interpreted for gRPC, protobuf-RPC and protobuf.
  \<^item> \<open>Server_Conn\<close> (\<open>common/util/socket\<close>, \<open>ServeConn\<close>): pseudo sockets and the goroutines of a connection.  \<open>Handler_Types\<close>, \<open>Rpc_Router\<close> (\<open>server/rpc_router.go\<close> and its neighbours): what reflection sees
    of handlers, the table of methods, dispatch, streams and events; typing of the table, and that a remote call is a local call.  \<open>Server_Lifecycle\<close>: registration, subscriptions, options, start and stop against a world of registry,
    broker and transport in which nodes expire and others come and go, instantiated by the models of this development.
  \<^item> \<open>Http_Broker\<close>, \<open>Net_Addr\<close> (\<open>broker/http.go\<close>, \<open>common/util/addr\<close>, \<open>common/util/net\<close>): publications, inboxes and heartbeats; addresses.
  \<^item> \<open>Api_Router\<close>, \<open>Search_Tree\<close> (\<open>api/router\<close>, \<open>common/util/search\<close>): routing of HTTP requests.  \<open>Keyword_Trie\<close>: Aho-Corasick search, filter and replacer.
  \<^item> \<open>Metadata\<close>, \<open>Auth\<close>, \<open>Micro_Errors\<close>, \<open>Circuit_Breaker\<close>, \<open>Ring_Buffers\<close>, \<open>Memory_Store\<close>, \<open>Rate_Limiter\<close>: contexts, rules and their wrappers, RPC errors, rolling windows, buffers, the store, and the three limiters.
  \<^item> \<open>Mcp_Gateway\<close> (\<open>ai/mcp\<close>): discovery of tools, both transports behind one gate, auditing and rates over any history of calls; standard input with its end, Stop and failing writes.
  \<^item> \<open>Mdns\<close>, \<open>Mdns_Registry\<close> (\<open>common/util/mdns\<close>, \<open>registry/mdns_registry.go\<close>): the default registry.  Every node is a responder with a zone; the client assembles entries
    from records through pointers that names share (a heap of entries).  A lookup returns the live nodes whatever the order and repetitions of the answers, registering
    and looking up round trip, and watchers hear of nodes coming and going.
  This theory holds the properties that span the registry and its cache.

  \<^bold>\<open>Interfaces.\<close>  Where one component relies on another the contract is a locale, the client's lemmas are proved inside it, and it is
  interpreted on the model of the provider: \<open>service_registry\<close> (the in-memory registry, used by the broker), \<open>service_lookup\<close> (both registries, behind the cache), \<open>node_strategy\<close> and \<open>service_filter\<close> (the selector),
  \<open>wire_codec\<close> (four codecs), \<open>recent_items\<close> (three buffers), \<open>server_world\<close> (registry, broker and transport around a server) and \<open>redis_counters\<close>.

  \<^bold>\<open>Not modelled.\<close>  Network transports, the Redis, Kafka and asynq brokers, the etcd registry, sockets and packet formats below multicast DNS, the Redis store, the JSON
  codecs, command-line tools and the code generator: they are I/O or calls of third-party packages, or a copy of an upstream generator.
  Also left out, though part of them is the repository's own logic: configuration, debug services, HTTP handlers of the API, worker pools and streams, the assembly of services from options.  Logging, metrics and
  tracing output, locks as such (an operation under a lock is one step), memory sharing of copied structs (a finding names one place where it shows), floating-point rounding and Unicode beyond bytes where the code
  only handles ASCII names (\<open>strings.EqualFold\<close> folds ASCII letters only) are left out; each theory says what it leaves out.
\<close>

section \<open>Properties that span components\<close>



end
